(* ===== verification/Prelude.thy ===== *)
theory Prelude
  imports Main "HOL-Library.Word" "HOL-Library.Multiset"
begin

text \<open>
  Shared vocabulary of the component theories: the errors a C++ function can end
  with, the result type and its sequencing, bounds-checked array accesses, the few
  algorithms of \<^verbatim>\<open><algorithm>\<close> and \<^verbatim>\<open><numeric>\<close> the sources call, decimal
  printing of integers, and the generic list lemmas the component proofs share.
\<close>

named_theorems res_simps "sequencing of fallible computations"
named_theorems alg_simps "models of the standard algorithms"

section \<open>Errors and results\<close>

text \<open>
  Every way a modelled function can fail is a value: an \<^verbatim>\<open>assert\<close> that does not
  hold, an access the language leaves undefined, a thrown exception with its message, or a call of
  \<^verbatim>\<open>exit\<close> with its status.
\<close>

datatype cxx_error =
    Assertion_failed
  | Undefined_behaviour
  | Bad_alloc
  | Out_of_range string
  | Runtime_error string
  | Underflow_error string
  | Invalid_argument string
  | Length_error
  | Exited nat
  | Option_error string

type_synonym 'a res = "cxx_error + 'a"

definition bindE :: "'e + 'a \<Rightarrow> ('a \<Rightarrow> 'e + 'b) \<Rightarrow> 'e + 'b" where
  "bindE m f = (case m of Inl e \<Rightarrow> Inl e | Inr x \<Rightarrow> f x)"

definition assertE :: "bool \<Rightarrow> unit res" where
  "assertE b = (if b then Inr () else Inl Assertion_failed)"

text \<open>Sequencing when a computation may also not return (\<open>None\<close>).\<close>

definition bindO :: "('e + 'a) option \<Rightarrow> ('a \<Rightarrow> ('e + 'b) option) \<Rightarrow> ('e + 'b) option" where
  "bindO m f = (case m of None \<Rightarrow> None | Some (Inl e) \<Rightarrow> Some (Inl e) | Some (Inr x) \<Rightarrow> f x)"

lemma bindO_simps [simp, res_simps]:
  "bindO None f = None" "bindO (Some (Inl e)) f = Some (Inl e)" "bindO (Some (Inr x)) f = f x"
  by (simp_all add: bindO_def)

lemma bindE_Inl [simp, res_simps]: "bindE (Inl e) f = Inl e"
  by (simp add: bindE_def)

lemma bindE_Inr [simp, res_simps]: "bindE (Inr x) f = f x"
  by (simp add: bindE_def)

lemma bindE_eq_Inr_iff [res_simps]: "bindE m f = Inr y \<longleftrightarrow> (\<exists>x. m = Inr x \<and> f x = Inr y)"
  by (cases m) auto

lemma assertE_True [simp, res_simps]: "b \<Longrightarrow> assertE b = Inr ()"
  by (simp add: assertE_def)

lemma assertE_False [simp, res_simps]: "\<not> b \<Longrightarrow> assertE b = Inl Assertion_failed"
  by (simp add: assertE_def)

text \<open>
  Reading and writing an array element by index. An index outside the array is undefined
  behaviour in C++, and the models say so.
\<close>

definition vec_get :: "'a list \<Rightarrow> nat \<Rightarrow> 'a res" where
  "vec_get v i = (if i < length v then Inr (v ! i) else Inl Undefined_behaviour)"

definition vec_set :: "'a list \<Rightarrow> nat \<Rightarrow> 'a \<Rightarrow> 'a list res" where
  "vec_set v i x = (if i < length v then Inr (v[i := x]) else Inl Undefined_behaviour)"

lemma vec_get_in [simp, res_simps]: "i < length v \<Longrightarrow> vec_get v i = Inr (v ! i)"
  by (simp add: vec_get_def)

lemma vec_set_in [simp, res_simps]: "i < length v \<Longrightarrow> vec_set v i x = Inr (v[i := x])"
  by (simp add: vec_set_def)

section \<open>Standard algorithms\<close>

text \<open>\<^verbatim>\<open>std::find\<close>: the position of the first match, the length when there is none.\<close>

fun std_find :: "'a \<Rightarrow> 'a list \<Rightarrow> nat" where
  "std_find x [] = 0"
| "std_find x (y # ys) = (if y = x then 0 else Suc (std_find x ys))"

text \<open>\<^verbatim>\<open>std::min_element\<close>: the position of the first smallest element (0 = end when empty).\<close>

fun std_min_element :: "'a::linorder list \<Rightarrow> nat" where
  "std_min_element [] = 0"
| "std_min_element [x] = 0"
| "std_min_element (x # y # ys) =
     (let k = std_min_element (y # ys) in if (y # ys) ! k < x then Suc k else 0)"

text \<open>\<^verbatim>\<open>std::rotate(begin, begin + n, end)\<close>.\<close>

definition std_rotate :: "nat \<Rightarrow> 'a list \<Rightarrow> 'a list" where
  "std_rotate n xs = drop n xs @ take n xs"

text \<open>\<^verbatim>\<open>std::iota\<close> over \<open>n\<close> elements.\<close>

fun std_iota :: "int \<Rightarrow> nat \<Rightarrow> int list" where
  "std_iota s 0 = []"
| "std_iota s (Suc n) = s # std_iota (s + 1) n"

lemma std_find_le: "std_find x xs \<le> length xs"
  by (induction xs) auto

lemma std_find_less_iff [alg_simps]: "std_find x xs < length xs \<longleftrightarrow> x \<in> set xs"
  by (induction xs) auto

lemma std_find_in [simp]: "x \<in> set xs \<Longrightarrow> std_find x xs < length xs"
  by (simp add: std_find_less_iff)

lemma std_find_notin [simp]: "x \<notin> set xs \<Longrightarrow> std_find x xs = length xs"
  by (induction xs) auto

lemma nth_std_find [simp]: "x \<in> set xs \<Longrightarrow> xs ! std_find x xs = x"
  by (induction xs) auto

lemma std_find_nth: "distinct xs \<Longrightarrow> i < length xs \<Longrightarrow> std_find (xs ! i) xs = i"
proof (induction xs arbitrary: i)
  case Nil
  then show ?case by simp
next
  case (Cons x xs)
  then show ?case by (cases i) (auto simp: nth_Cons')
qed

lemma std_find_before: "i < std_find x xs \<Longrightarrow> xs ! i \<noteq> x"
proof (induction xs arbitrary: i)
  case (Cons y ys)
  then show ?case by (cases i) (auto split: if_splits)
qed simp

lemma nth_std_find_less: "std_find x xs < length xs \<Longrightarrow> xs ! std_find x xs = x"
  by (simp add: std_find_less_iff)

lemma std_min_element_less: "xs \<noteq> [] \<Longrightarrow> std_min_element xs < length xs"
  by (induction xs rule: std_min_element.induct) (auto simp: Let_def)

lemma std_min_element_le: "x \<in> set xs \<Longrightarrow> xs ! std_min_element xs \<le> x"
proof (induction xs rule: std_min_element.induct)
  case (3 y z zs)
  then show ?case
    by (auto simp: Let_def not_less)
qed auto

lemma set_std_rotate [simp]: "set (std_rotate n xs) = set xs"
  by (metis std_rotate_def append_take_drop_id set_append sup_commute)

lemma length_std_rotate [simp]: "length (std_rotate n xs) = length xs"
  by (simp add: std_rotate_def)

lemma distinct_std_rotate [simp]: "distinct (std_rotate n xs) = distinct xs"
proof -
  have "mset (std_rotate n xs) = mset xs"
    by (metis std_rotate_def append_take_drop_id mset_append add.commute)
  then show ?thesis by (metis mset_eq_imp_distinct_iff)
qed

lemma std_rotate_eq_Nil [simp]: "std_rotate n xs = [] \<longleftrightarrow> xs = []"
  by (metis length_0_conv length_std_rotate)

lemma hd_std_rotate: "n < length xs \<Longrightarrow> hd (std_rotate n xs) = xs ! n"
  by (simp add: std_rotate_def hd_append hd_drop_conv_nth)

lemma length_std_iota [simp]: "length (std_iota s n) = n"
  by (induction n arbitrary: s) auto

lemma nth_std_iota [simp]: "i < n \<Longrightarrow> std_iota s n ! i = s + int i"
  by (induction n arbitrary: s i) (auto simp: nth_Cons split: nat.splits)

lemma set_std_iota: "set (std_iota s n) = {s ..< s + int n}"
  by (induction n arbitrary: s) auto

lemma distinct_std_iota: "distinct (std_iota s n)"
  by (induction n arbitrary: s) (auto simp: set_std_iota)

lemma last_eq_nth: "Suc i = length xs \<Longrightarrow> last xs = xs ! i"
  by (cases xs rule: rev_cases) auto

section \<open>Decimal printing\<close>

text \<open>\<^verbatim>\<open>std::to_string\<close> and \<^verbatim>\<open>operator<<\<close> on integers.\<close>

fun dec_digits :: "nat \<Rightarrow> nat list" where
  "dec_digits n = (if 10 \<le> n then dec_digits (n div 10) @ [n mod 10] else [n])"

declare dec_digits.simps [simp del]

definition string_of_nat :: "nat \<Rightarrow> string" where
  "string_of_nat n = map (\<lambda>d. ''0123456789'' ! d) (dec_digits n)"

text \<open>\<^verbatim>\<open>std::endl\<close>.\<close>

definition endl :: string where
  "endl = [CHR 0x0A]"

definition string_of_int :: "int \<Rightarrow> string" where
  "string_of_int i = (if i < 0 then ''-'' @ string_of_nat (nat (- i)) else string_of_nat (nat i))"

section \<open>Computations with state and exceptions\<close>

text \<open>
  A function that may throw returns its result together with the state it left behind:
  what was changed before the exception stays changed.
\<close>

type_synonym ('s, 'a) stm = "'s \<Rightarrow> 'a res \<times> 's"

definition retS :: "'a \<Rightarrow> ('s, 'a) stm" where
  "retS x s = (Inr x, s)"

definition throwS :: "cxx_error \<Rightarrow> ('s, 'a) stm" where
  "throwS e s = (Inl e, s)"

definition bindS :: "('s, 'a) stm \<Rightarrow> ('a \<Rightarrow> ('s, 'b) stm) \<Rightarrow> ('s, 'b) stm" where
  "bindS m f s = (case m s of (Inl e, s') \<Rightarrow> (Inl e, s') | (Inr x, s') \<Rightarrow> f x s')"

text \<open>\<^verbatim>\<open>catch (...) { cleanup; throw; }\<close>. Undefined behaviour is not an exception and is not caught.\<close>

definition cleanupS :: "('s, 'a) stm \<Rightarrow> ('s, unit) stm \<Rightarrow> ('s, 'a) stm" where
  "cleanupS m c s =
     (case m s of
        (Inl e, s') \<Rightarrow>
          if e = Undefined_behaviour \<or> e = Assertion_failed then (Inl e, s')
          else (case c s' of (Inl e', s'') \<Rightarrow> (Inl e', s'') | (Inr _, s'') \<Rightarrow> (Inl e, s''))
      | r \<Rightarrow> r)"

lemma retS_simp [simp, res_simps]: "retS x s = (Inr x, s)"
  by (simp add: retS_def)

lemma throwS_simp [simp, res_simps]: "throwS e s = (Inl e, s)"
  by (simp add: throwS_def)

lemma bindS_Inr: "m s = (Inr x, s') \<Longrightarrow> bindS m f s = f x s'"
  by (simp add: bindS_def)

lemma bindS_Inl: "m s = (Inl e, s') \<Longrightarrow> bindS m f s = (Inl e, s')"
  by (simp add: bindS_def)

end
