(* ===== verification/Idomain.thy ===== *)
theory Idomain
  imports Prelude
begin

text \<open>
  \<^verbatim>\<open>17-algorithms/permutations/idomain.hpp\<close>: integral domains \<^verbatim>\<open>[start_, fin_]\<close>.
  A domain is a record of its two template arguments; an element is the wrapped value.
  The underlying type \<^verbatim>\<open>T\<close> is unsigned or char: all arithmetic on elements stays in
  \<^verbatim>\<open>[start_, fin_ + 1]\<close>, which the domains in use keep inside \<^verbatim>\<open>T\<close>, so values are \<open>int\<close>. A domain whose last element is
  the largest value of \<^verbatim>\<open>T\<close> is not covered: a loop up to it would not end. The two types differ in how an element is printed; every
  program of the repository uses \<^verbatim>\<open>UnsignedDomain\<close>.
\<close>

section \<open>Integral domains\<close>

record idom =
  start :: int
  fin :: int

text \<open>The constructor: both range checks, in the source's order, with their messages.\<close>

definition idom_ctor :: "idom \<Rightarrow> int \<Rightarrow> int res" where
  "idom_ctor D val =
     (if val > fin D then Inl (Out_of_range (''value too big for domain: '' @ string_of_int val))
      else if val < start D then Inl (Out_of_range ''value too small for domain'')
      else Inr val)"

text \<open>\<^verbatim>\<open>Idom::iota\<close>: the identity table of the domain, \<^verbatim>\<open>fin - start + 1\<close> elements.\<close>

definition idom_size :: "idom \<Rightarrow> nat" where
  "idom_size D = nat (fin D - start D + 1)"

definition idom_iota :: "idom \<Rightarrow> int list" where
  "idom_iota D = std_iota (start D) (idom_size D)"

text \<open>\<^verbatim>\<open>Idom::dump\<close> prints the wrapped value: a number, or the character with this code.\<close>

datatype underlying = Unsigned_type | Char_type

fun idom_dump :: "underlying \<Rightarrow> int \<Rightarrow> string" where
  "idom_dump Unsigned_type v = string_of_int v"
| "idom_dump Char_type v = [char_of (nat (v mod 256))]"

text \<open>The elements of a domain, and the table index \<^verbatim>\<open>x - T::start\<close> of an element.\<close>

definition elems :: "idom \<Rightarrow> int set" where
  "elems D = {start D .. fin D}"

definition idx :: "idom \<Rightarrow> int \<Rightarrow> nat" where
  "idx D x = nat (x - start D)"

lemma idom_ctor_Inr_iff: "idom_ctor D v = Inr w \<longleftrightarrow> w = v \<and> v \<in> elems D"
  by (auto simp: idom_ctor_def elems_def)

lemma finite_elems [simp]: "finite (elems D)"
  by (simp add: elems_def)

lemma idx_less [simp]: "x \<in> elems D \<Longrightarrow> idx D x < idom_size D"
  by (auto simp: idx_def elems_def idom_size_def)

lemma start_plus_idx [simp]: "x \<in> elems D \<Longrightarrow> start D + int (idx D x) = x"
  by (auto simp: idx_def elems_def)

lemma idx_start_plus [simp]: "idx D (start D + int i) = i"
  by (simp add: idx_def)

lemma start_plus_in [simp]: "i < idom_size D \<Longrightarrow> start D + int i \<in> elems D"
  by (auto simp: elems_def idom_size_def)

lemma idx_eq_iff: "x \<in> elems D \<Longrightarrow> y \<in> elems D \<Longrightarrow> idx D x = idx D y \<longleftrightarrow> x = y"
  by (metis start_plus_idx)

lemma elems_conv: "elems D = (\<lambda>i. start D + int i) ` {..< idom_size D}"
proof
  show "elems D \<subseteq> (\<lambda>i. start D + int i) ` {..< idom_size D}"
  proof
    fix x assume "x \<in> elems D"
    then show "x \<in> (\<lambda>i. start D + int i) ` {..< idom_size D}"
      by (intro image_eqI [where x = "idx D x"]) auto
  qed
qed auto

lemma length_idom_iota [simp]: "length (idom_iota D) = idom_size D"
  by (simp add: idom_iota_def)

lemma nth_idom_iota [simp]: "i < idom_size D \<Longrightarrow> idom_iota D ! i = start D + int i"
  by (simp add: idom_iota_def)

lemma set_idom_iota [simp]: "set (idom_iota D) = elems D"
  by (auto simp: idom_iota_def set_std_iota elems_def idom_size_def)

lemma distinct_idom_iota [simp]: "distinct (idom_iota D)"
  by (simp add: idom_iota_def distinct_std_iota)

end
