(* ===== verification/Permloops.thy ===== *)
theory Permloops
  imports Idomain
begin

text \<open>
  \<^verbatim>\<open>17-algorithms/permutations/permloops.hpp\<close>: permutation loops (cycles). A
  \<^verbatim>\<open>PermLoop<T>\<close> is its vector \<^verbatim>\<open>loop_\<close>. The default build (without \<^verbatim>\<open>CHECKS\<close>) is modelled
  by \<open>permloop_ctor\<close>, \<open>permloop_add\<close>, \<open>permloop_inverse\<close>; \<open>permloop_check\<close> is the
  runtime check of the \<^verbatim>\<open>CHECKS\<close> build, shown to pass wherever the class's three
  assumptions hold. \<open>create_loops\<close> and \<open>simplify_loops\<close> are the two free functions
  (TAOCP, Algorithm 1.3.3B).
\<close>

section \<open>The class PermLoop\<close>

type_synonym permloop = "int list"

text \<open>\<^verbatim>\<open>reroll\<close>: rotate the smallest element to the front.\<close>

definition reroll :: "int list \<Rightarrow> int list" where
  "reroll l = std_rotate (std_min_element l) l"

definition permloop_ctor :: "int list \<Rightarrow> int list" where
  "permloop_ctor ls = reroll ls"

definition permloop_add :: "int list \<Rightarrow> int \<Rightarrow> int list" where
  "permloop_add l x = reroll (l @ [x])"

definition permloop_inverse :: "int list \<Rightarrow> int list" where
  "permloop_inverse l = (if length l < 3 then l else hd l # rev (tl l))"

definition permloop_smallest :: "int list \<Rightarrow> int res" where
  "permloop_smallest l = vec_get l 0"

definition permloop_contains :: "int list \<Rightarrow> int \<Rightarrow> bool" where
  "permloop_contains l x \<longleftrightarrow> std_find x l \<noteq> length l"

text \<open>\<^verbatim>\<open>T apply(T x) const\<close>: the element after \<open>x\<close>, cyclically; \<open>x\<close> itself outside the loop.\<close>

definition permloop_apply :: "int list \<Rightarrow> int \<Rightarrow> int" where
  "permloop_apply l x =
     (let it = std_find x l in
      if it = length l then x
      else if Suc it = length l then l ! 0 else l ! Suc it)"

text \<open>
  \<^verbatim>\<open>void apply(RandIt tbeg, RandIt tend) const\<close>: permute a table in place. The loop body
  of the range-for, with the \<^verbatim>\<open>continue\<close> on the front element.
\<close>

fun table_cycle :: "idom \<Rightarrow> int \<Rightarrow> int list \<Rightarrow> nat \<Rightarrow> int list \<Rightarrow> (nat \<times> int list) res" where
  "table_cycle D front [] nxt tbl = Inr (nxt, tbl)"
| "table_cycle D front (l # ls) nxt tbl =
     (let prev = nxt; nxt' = idx D l in
      if l = front then table_cycle D front ls nxt' tbl
      else bindE (vec_get tbl nxt') (\<lambda>v.
           bindE (vec_set tbl prev v) (\<lambda>tbl'.
           table_cycle D front ls nxt' tbl')))"

definition permloop_apply_table :: "idom \<Rightarrow> int list \<Rightarrow> int list \<Rightarrow> int list res" where
  "permloop_apply_table D loop tbl =
     bindE (assertE (start D < fin D)) (\<lambda>_.
     bindE (vec_get loop 0) (\<lambda>front.
     bindE (assertE (front \<ge> start D)) (\<lambda>_.
     bindE (assertE (last loop \<le> fin D)) (\<lambda>_.
     bindE (assertE (int (length tbl) = fin D - start D + 1)) (\<lambda>_.
     bindE (vec_get tbl (idx D front)) (\<lambda>tmp.
     bindE (table_cycle D front loop (idx D front) tbl) (\<lambda>(nxt, tbl').
     vec_set tbl' nxt tmp)))))))"

definition permloop_equals :: "int list \<Rightarrow> int list \<Rightarrow> bool" where
  "permloop_equals l r \<longleftrightarrow> l = r"

text \<open>The free operators \<^verbatim>\<open>==\<close> and \<^verbatim>\<open>!=\<close>.\<close>

definition permloop_ne :: "permloop \<Rightarrow> permloop \<Rightarrow> bool" where
  "permloop_ne l r \<longleftrightarrow> \<not> permloop_equals l r"

text \<open>\<^verbatim>\<open>less\<close>: by size first, then at the first position where the loops differ.\<close>

fun first_diff_less :: "int list \<Rightarrow> int list \<Rightarrow> bool" where
  "first_diff_less (a # as) (b # bs) = (if a \<noteq> b then a < b else first_diff_less as bs)"
| "first_diff_less _ _ = False"

definition permloop_less :: "int list \<Rightarrow> int list \<Rightarrow> bool" where
  "permloop_less l r \<longleftrightarrow>
     (if length l \<noteq> length r then length l < length r else first_diff_less l r)"

definition permloop_size :: "int list \<Rightarrow> nat" where
  "permloop_size l = length l"

text \<open>\<^verbatim>\<open>dump\<close>: an opening bracket before the front element, a closing one after the back; the elements are those of an unsigned domain.\<close>

definition permloop_dump :: "int list \<Rightarrow> string" where
  "permloop_dump l =
     concat (map (\<lambda>t. (if t = hd l then ''('' else '''') @ string_of_int t @
                      (if t = last l then '')'' else '' '')) l)"

definition permloop_to_vector :: "int list \<Rightarrow> int list" where
  "permloop_to_vector l = l"

text \<open>\<^verbatim>\<open>check\<close>: non-empty, elements unique, minimal element first.\<close>

definition permloop_check :: "int list \<Rightarrow> unit res" where
  "permloop_check l =
     (if l = [] then Inl (Runtime_error ''PermLoop shall be non-empty'')
      else if card (set l) \<noteq> length l then Inl (Runtime_error ''PermLoop elements shall be unique'')
      else if l ! std_min_element l \<noteq> l ! 0 then Inl (Runtime_error ''Unnormalized state detected'')
      else Inr ())"

section \<open>Free functions\<close>

text \<open>
  The inner loop of \<^verbatim>\<open>create_loops\<close> follows the table from \<open>nxt\<close> until it is back at
  \<open>t\<close>. On a table that is not a permutation it may never return, which is the value \<open>None\<close>.
\<close>

partial_function (option) walk_loop ::
  "idom \<Rightarrow> int list \<Rightarrow> int \<Rightarrow> int \<Rightarrow> int list \<Rightarrow> bool list \<Rightarrow> (int list \<times> bool list) res option" where
  "walk_loop D tbl t nxt perm marked =
     (if nxt = t then Some (Inr (perm, marked))
      else case vec_set marked (idx D nxt) True of
        Inl e \<Rightarrow> Some (Inl e)
      | Inr marked' \<Rightarrow>
          (case vec_get tbl (idx D nxt) of
             Inl e \<Rightarrow> Some (Inl e)
           | Inr nxt' \<Rightarrow> walk_loop D tbl t nxt' (permloop_add perm nxt) marked'))"

text \<open>The outer loop: \<open>mit\<close> is the position of the next unmarked element.\<close>

partial_function (option) create_from ::
  "idom \<Rightarrow> int list \<Rightarrow> nat \<Rightarrow> bool list \<Rightarrow> int list list \<Rightarrow> int list list res option" where
  "create_from D tbl mit marked out =
     (if mit = length marked then Some (Inr out)
      else case idom_ctor D (start D + int mit) of
        Inl e \<Rightarrow> Some (Inl e)
      | Inr t \<Rightarrow>
          (case vec_get tbl mit of
             Inl e \<Rightarrow> Some (Inl e)
           | Inr nxt \<Rightarrow>
               Option.bind (walk_loop D tbl t nxt (permloop_ctor [t]) (marked[mit := True])) (\<lambda>r.
                 case r of
                   Inl e \<Rightarrow> Some (Inl e)
                 | Inr (perm, marked') \<Rightarrow>
                     create_from D tbl (Suc mit + std_find False (drop (Suc mit) marked'))
                       marked' (out @ [perm]))))"

declare walk_loop.simps [code] create_from.simps [code]

definition create_loops :: "idom \<Rightarrow> int list \<Rightarrow> int list list res option" where
  "create_loops D tbl = create_from D tbl 0 (replicate (length tbl) False) []"

text \<open>Applying a sequence of loops to a table, one after the other.\<close>

fun apply_loops_table :: "idom \<Rightarrow> int list list \<Rightarrow> int list \<Rightarrow> int list res" where
  "apply_loops_table D [] tbl = Inr tbl"
| "apply_loops_table D (l # ls) tbl = bindE (permloop_apply_table D l tbl) (apply_loops_table D ls)"

definition simplify_loops :: "idom \<Rightarrow> int list list \<Rightarrow> int list list res option" where
  "simplify_loops D loops =
     (case apply_loops_table D (rev loops) (idom_iota D) of
        Inl e \<Rightarrow> Some (Inl e)
      | Inr tbl \<Rightarrow> create_loops D tbl)"

section \<open>The class invariant\<close>

text \<open>The three assumptions the header states, and the elements belong to the domain.\<close>

definition wf_loop :: "idom \<Rightarrow> int list \<Rightarrow> bool" where
  "wf_loop D l \<longleftrightarrow> l \<noteq> [] \<and> distinct l \<and> set l \<subseteq> elems D"

definition normal_loop :: "idom \<Rightarrow> int list \<Rightarrow> bool" where
  "normal_loop D l \<longleftrightarrow> wf_loop D l \<and> (\<forall>x \<in> set l. hd l \<le> x)"

lemma wf_loopD:
  assumes "wf_loop D l"
  shows "l \<noteq> []" and "distinct l" and "set l \<subseteq> elems D"
  using assms by (auto simp: wf_loop_def)

lemma normal_loop_wf [simp]: "normal_loop D l \<Longrightarrow> wf_loop D l"
  by (simp add: normal_loop_def)

lemma set_reroll [simp]: "set (reroll l) = set l"
  by (simp add: reroll_def)

lemma distinct_reroll [simp]: "distinct (reroll l) = distinct l"
  by (simp add: reroll_def)

lemma reroll_eq_Nil [simp]: "reroll l = [] \<longleftrightarrow> l = []"
  by (simp add: reroll_def)

lemma hd_reroll_le: "x \<in> set l \<Longrightarrow> hd (reroll l) \<le> x"
  by (cases "l = []")
    (auto simp: reroll_def hd_std_rotate std_min_element_less std_min_element_le)

lemma reroll_normal: "wf_loop D l \<Longrightarrow> normal_loop D (reroll l)"
  by (simp add: normal_loop_def wf_loop_def hd_reroll_le)

lemma min_element_hd:
  "distinct l \<Longrightarrow> l \<noteq> [] \<Longrightarrow> \<forall>x \<in> set l. hd l \<le> x \<Longrightarrow> std_min_element l = 0"
  by (cases l rule: std_min_element.cases)
    (auto simp: Let_def, metis leD length_Cons nth_mem std_min_element_less list.distinct(1) set_ConsD)

lemma reroll_id: "normal_loop D l \<Longrightarrow> reroll l = l"
  by (simp add: reroll_def normal_loop_def wf_loop_def min_element_hd std_rotate_def)

lemma permloop_apply_nth:
  "distinct l \<Longrightarrow> i < length l \<Longrightarrow> permloop_apply l (l ! i) = l ! (Suc i mod length l)"
  by (auto simp: permloop_apply_def std_find_nth Let_def)

lemma permloop_apply_notin [simp]: "x \<notin> set l \<Longrightarrow> permloop_apply l x = x"
  by (simp add: permloop_apply_def)

lemma permloop_apply_in: "x \<in> set l \<Longrightarrow> permloop_apply l x \<in> set l"
  using std_find_in [of x l]
  by (auto simp: permloop_apply_def Let_def intro!: nth_mem simp del: std_find_in)

lemma std_find_butlast: "x \<in> set (butlast l) \<Longrightarrow> Suc (std_find x l) < length l"
  by (induction l) (auto split: if_splits)

lemma permloop_apply_Cons:
  "x \<in> set (butlast l) \<Longrightarrow> x \<noteq> b \<Longrightarrow> permloop_apply (b # l) x = permloop_apply l x"
  using std_find_butlast [of x l] by (auto simp: permloop_apply_def Let_def)

lemma permloop_apply_hd: "permloop_apply (b # c # l) b = c"
  by (simp add: permloop_apply_def)

lemma permloop_apply_last: "distinct l \<Longrightarrow> l \<noteq> [] \<Longrightarrow> permloop_apply l (last l) = hd l"
  using permloop_apply_nth [of l "length l - 1"] by (simp add: last_conv_nth hd_conv_nth)

lemma permloop_apply_butlast: "x \<in> set (butlast l) \<Longrightarrow> permloop_apply l x \<in> set (tl l)"
  using std_find_butlast [of x l]
  by (auto simp: permloop_apply_def Let_def nth_tl [symmetric] simp del: nth_tl intro!: nth_mem)

section \<open>Permuting a table\<close>

lemma table_cycle_tail:
  assumes "distinct (b # ls)" "front \<notin> set ls" "set (b # ls) \<subseteq> elems D" "length tbl = idom_size D"
  shows "\<exists>tbl'. table_cycle D front ls (idx D b) tbl = Inr (idx D (last (b # ls)), tbl') \<and>
           length tbl' = idom_size D \<and>
           (\<forall>x \<in> elems D. tbl' ! idx D x =
              (if x \<in> set (butlast (b # ls)) then tbl ! idx D (permloop_apply (b # ls) x)
               else tbl ! idx D x))"
  using assms
proof (induction ls arbitrary: b tbl)
  case Nil
  then show ?case by simp
next
  case (Cons l ls)
  let ?t = "tbl[idx D b := tbl ! idx D l]"
  obtain tbl' where t': "table_cycle D front ls (idx D l) ?t = Inr (idx D (last (l # ls)), tbl')"
    "length tbl' = idom_size D"
    "\<And>x. x \<in> elems D \<Longrightarrow> tbl' ! idx D x =
       (if x \<in> set (butlast (l # ls)) then ?t ! idx D (permloop_apply (l # ls) x) else ?t ! idx D x)"
    using Cons.IH [of l ?t] Cons.prems by auto
  have keep: "?t ! idx D y = tbl ! idx D y" if "y \<in> elems D" "y \<noteq> b" for y
    using that Cons.prems by (auto simp: nth_list_update idx_eq_iff)
  have step: "table_cycle D front (l # ls) (idx D b) tbl = Inr (idx D (last (b # l # ls)), tbl')"
    using t' Cons.prems by (auto simp: Let_def)
  have "tbl' ! idx D x = (if x \<in> set (butlast (b # l # ls))
      then tbl ! idx D (permloop_apply (b # l # ls) x) else tbl ! idx D x)" if x: "x \<in> elems D" for x
  proof (cases "x = b")
    case True
    moreover have "b \<notin> set (butlast (l # ls))"
      using Cons.prems by (auto dest: in_set_butlastD)
    ultimately show ?thesis
      using t' Cons.prems by (simp add: permloop_apply_hd)
  next
    case False
    show ?thesis
    proof (cases "x \<in> set (butlast (l # ls))")
      case True
      then have "permloop_apply (l # ls) x \<in> set ls"
        using permloop_apply_butlast [of x "l # ls"] by simp
      then have "?t ! idx D (permloop_apply (l # ls) x) = tbl ! idx D (permloop_apply (l # ls) x)"
        using Cons.prems by (intro keep) auto
      then show ?thesis
        using t'(3) [OF x] True False by (simp add: permloop_apply_Cons)
    next
      case noloop: False
      then show ?thesis using t'(3) [OF x] keep [OF x False] False by simp
    qed
  qed
  then show ?case using step t' by blast
qed

text \<open>
  The in-place table operation is element-wise composition: the entry of \<open>x\<close> becomes the
  old entry of \<^verbatim>\<open>apply(x)\<close>. It reaches no undefined access and no failing assertion.
\<close>

lemma permloop_apply_table_ok:
  assumes "wf_loop D l" "start D < fin D" "length tbl = idom_size D"
  shows "permloop_apply_table D l tbl =
    Inr (map (\<lambda>x. tbl ! idx D (permloop_apply l x)) (idom_iota D))"
proof -
  obtain f ls where l: "l = f # ls" using wf_loopD(1) [OF assms(1)] by (cases l) auto
  have d: "distinct (f # ls)" "f \<notin> set ls" "set (f # ls) \<subseteq> elems D"
    using assms(1) l by (auto simp: wf_loop_def)
  obtain tbl' where t': "table_cycle D f ls (idx D f) tbl = Inr (idx D (last (f # ls)), tbl')"
    "length tbl' = idom_size D"
    "\<And>x. x \<in> elems D \<Longrightarrow> tbl' ! idx D x =
       (if x \<in> set (butlast (f # ls)) then tbl ! idx D (permloop_apply (f # ls) x) else tbl ! idx D x)"
    using table_cycle_tail [OF d assms(3)] by blast
  have lastin: "last l \<in> elems D" and fin: "f \<in> elems D"
    using d l last_in_set [of l] by auto
  have sz: "int (length tbl) = fin D - start D + 1"
    using assms by (simp add: idom_size_def)
  have "permloop_apply_table D l tbl = Inr (tbl'[idx D (last l) := tbl ! idx D f])"
    using t' lastin fin sz assms(2,3) d
    by (simp add: permloop_apply_table_def l elems_def Let_def)
  also have "tbl'[idx D (last l) := tbl ! idx D f] =
      map (\<lambda>x. tbl ! idx D (permloop_apply l x)) (idom_iota D)"
  proof (rule nth_equalityI)
    fix i assume "i < length (tbl'[idx D (last l) := tbl ! idx D f])"
    then have i: "i < idom_size D" using t' by simp
    define x where "x = start D + int i"
    have x: "x \<in> elems D" "idx D x = i" using i by (auto simp: x_def)
    have "tbl'[idx D (last l) := tbl ! idx D f] ! idx D x = tbl ! idx D (permloop_apply l x)"
    proof (cases "x = last l")
      case True
      then show ?thesis
        using t'(2) lastin l permloop_apply_last [of l] d by simp
    next
      case False
      then have "x \<in> set (butlast l) \<or> x \<notin> set l"
        using l by (metis append_butlast_last_id list.distinct(1) rotate1.simps(2) set_ConsD set_rotate1)
      moreover have "idx D x \<noteq> idx D (last l)"
        using False x(1) lastin by (simp add: idx_eq_iff)
      ultimately show ?thesis
        using t'(3) [OF x(1)] l by (auto dest: in_set_butlastD)
    qed
    then show "tbl'[idx D (last l) := tbl ! idx D f] ! i =
        map (\<lambda>x. tbl ! idx D (permloop_apply l x)) (idom_iota D) ! i"
      using i x by (simp add: x_def)
  qed (use t' in simp)
  finally show ?thesis .
qed

section \<open>Splitting a table into loops\<close>

text \<open>A permutation table: one entry per element of the domain, no entry twice.\<close>

definition perm_table :: "idom \<Rightarrow> int list \<Rightarrow> bool" where
  "perm_table D tbl \<longleftrightarrow> length tbl = idom_size D \<and> distinct tbl \<and> set tbl = elems D"

definition tbl_fun :: "idom \<Rightarrow> int list \<Rightarrow> int \<Rightarrow> int" where
  "tbl_fun D tbl x = tbl ! idx D x"

lemma tbl_fun_in: "perm_table D tbl \<Longrightarrow> x \<in> elems D \<Longrightarrow> tbl_fun D tbl x \<in> elems D"
  by (metis idx_less nth_mem perm_table_def tbl_fun_def)

lemma tbl_fun_inj: "perm_table D tbl \<Longrightarrow> inj_on (tbl_fun D tbl) (elems D)"
  by (auto simp: inj_on_def tbl_fun_def perm_table_def nth_eq_iff_index_eq idx_eq_iff)

lemma tbl_fun_closed_back:
  assumes "perm_table D tbl" "M \<subseteq> elems D" "tbl_fun D tbl ` M \<subseteq> M" "x \<in> elems D"
    and "tbl_fun D tbl x \<in> M"
  shows "x \<in> M"
proof -
  have inj: "inj_on (tbl_fun D tbl) M"
    using tbl_fun_inj [OF assms(1)] assms(2) by (rule inj_on_subset)
  have "tbl_fun D tbl ` M = M"
    using assms(2,3) inj finite_subset [OF assms(2) finite_elems] by (intro endo_inj_surj) auto
  then obtain y where "y \<in> M" "tbl_fun D tbl y = tbl_fun D tbl x"
    using assms(5) by (metis imageE)
  then show ?thesis
    using tbl_fun_inj [OF assms(1)] assms(2,4) by (metis inj_onD subsetD)
qed

text \<open>A chain starts at \<open>t\<close> and follows the table.\<close>

definition chain :: "(int \<Rightarrow> int) \<Rightarrow> int \<Rightarrow> int list \<Rightarrow> bool" where
  "chain f t P \<longleftrightarrow> P \<noteq> [] \<and> hd P = t \<and> distinct P \<and>
     (\<forall>i. Suc i < length P \<longrightarrow> P ! Suc i = f (P ! i))"

lemma chain_next_fresh:
  assumes "chain f t P" "inj_on f A" "set P \<subseteq> A" "f (last P) \<noteq> t"
  shows "f (last P) \<notin> set P"
proof
  assume "f (last P) \<in> set P"
  then obtain j where j: "j < length P" "P ! j = f (last P)" by (auto simp: in_set_conv_nth)
  have ne: "P \<noteq> []" and d: "distinct P" using assms(1) by (auto simp: chain_def)
  obtain k where k: "j = Suc k"
    using j assms(1,4) ne by (cases j) (auto simp: chain_def hd_conv_nth)
  then have "f (P ! k) = f (last P)" using j assms(1) by (auto simp: chain_def)
  then have "P ! k = last P"
    using assms(2,3) ne j k by (metis Suc_lessD inj_onD last_in_set nth_mem subsetD)
  then have "k = length P - 1"
    using d ne j k by (metis Suc_lessD diff_less last_conv_nth length_greater_0_conv
        nth_eq_iff_index_eq zero_less_one)
  then show False using j k by simp
qed

lemma chain_snoc:
  assumes "chain f t P" "f (last P) \<notin> set P"
  shows "chain f t (P @ [f (last P)])"
proof -
  have "(P @ [f (last P)]) ! Suc i = f ((P @ [f (last P)]) ! i)"
    if "Suc i < length (P @ [f (last P)])" for i
  proof (cases "Suc i = length P")
    case True
    then have "last P = P ! i" by (rule last_eq_nth)
    then show ?thesis using True by (simp add: nth_append)
  next
    case False
    then show ?thesis using assms(1) that by (auto simp: chain_def nth_append)
  qed
  then show ?thesis using assms by (auto simp: chain_def)
qed

lemma chain_closed_apply:
  assumes "chain f t P" "f (last P) = t" "x \<in> set P"
  shows "permloop_apply P x = f x"
proof -
  obtain i where i: "i < length P" "x = P ! i" using assms(3) by (auto simp: in_set_conv_nth)
  have d: "distinct P" "P \<noteq> []" "hd P = t" using assms(1) by (auto simp: chain_def)
  show ?thesis
  proof (cases "Suc i < length P")
    case True
    then show ?thesis
      using i d assms(1) by (simp add: permloop_apply_nth chain_def)
  next
    case False
    then have "Suc i = length P" using i by simp
    then have "last P = x" using i by (simp add: last_eq_nth)
    then show ?thesis using assms(2) d permloop_apply_last [of P] by simp
  qed
qed

definition marked_set :: "idom \<Rightarrow> bool list \<Rightarrow> int set" where
  "marked_set D m = {x \<in> elems D. m ! idx D x}"

lemma marked_set_update [simp]:
  "length m = idom_size D \<Longrightarrow> x \<in> elems D \<Longrightarrow>
     marked_set D (m[idx D x := True]) = insert x (marked_set D m)"
  by (auto simp: marked_set_def nth_list_update idx_eq_iff)

lemma permloop_add_append:
  "wf_loop D (l @ [x]) \<Longrightarrow> l \<noteq> [] \<Longrightarrow> \<forall>y \<in> set (l @ [x]). hd l \<le> y \<Longrightarrow> permloop_add l x = l @ [x]"
  using reroll_id [of D "l @ [x]"] by (auto simp: permloop_add_def normal_loop_def)

text \<open>
  The inner loop. \<open>M\<close> is what was marked before: closed under the table and containing
  everything below \<open>t\<close>, so that every new element stays above \<open>t\<close> and \<^verbatim>\<open>add\<close> appends.
\<close>

lemma walk_loop_ok:
  assumes tbl: "perm_table D tbl"
    and M: "M \<subseteq> elems D" "tbl_fun D tbl ` M \<subseteq> M" "{x \<in> elems D. x < t} \<subseteq> M"
    and P: "chain (tbl_fun D tbl) t P" "set P \<subseteq> elems D" "set P \<inter> M = {}"
    and m: "length m = idom_size D" "marked_set D m = M \<union> set P"
  shows "\<exists>P' m'. walk_loop D tbl t (tbl_fun D tbl (last P)) P m = Some (Inr (P', m')) \<and>
           chain (tbl_fun D tbl) t P' \<and> tbl_fun D tbl (last P') = t \<and>
           set P' \<subseteq> elems D \<and> set P' \<inter> M = {} \<and>
           length m' = idom_size D \<and> marked_set D m' = M \<union> set P'"
  using P m
proof (induction "idom_size D - length P" arbitrary: P m rule: less_induct)
  case less
  let ?f = "tbl_fun D tbl" and ?n = "tbl_fun D tbl (last P)"
  have ne: "P \<noteq> []" "hd P = t" and d: "distinct P" using less.prems(1) by (auto simp: chain_def)
  have lastP: "last P \<in> elems D" "last P \<notin> M"
    using last_in_set [OF ne(1)] less.prems(2,3) by auto
  have n: "?n \<in> elems D" using tbl_fun_in [OF tbl lastP(1)] .
  have nM: "?n \<notin> M" using tbl_fun_closed_back [OF tbl M(1,2) lastP(1)] lastP(2) by blast
  show ?case
  proof (cases "?n = t")
    case True
    then have "walk_loop D tbl t ?n P m = Some (Inr (P, m))" by (simp add: walk_loop.simps)
    then show ?thesis using True less.prems by blast
  next
    case False
    let ?P = "P @ [?n]" and ?m = "m[idx D ?n := True]"
    have fresh: "?n \<notin> set P"
      using chain_next_fresh [OF less.prems(1) tbl_fun_inj [OF tbl] less.prems(2) False] .
    have chain': "chain ?f t ?P" using chain_snoc [OF less.prems(1) fresh] .
    have wf: "wf_loop D ?P" using d fresh n less.prems(2) by (auto simp: wf_loop_def)
    have "t \<le> y" if "y \<in> set ?P" for y
      using that M(3) nM n less.prems(2,3) by (force simp: not_less [symmetric])
    then have add: "permloop_add P ?n = ?P"
      using permloop_add_append [OF wf ne(1)] ne(2) by blast
    have "card (set ?P) \<le> card (elems D)"
      using wf by (intro card_mono) (auto simp: wf_loop_def)
    then have "length ?P \<le> idom_size D"
      using wf by (simp add: wf_loop_def distinct_card elems_def idom_size_def)
    then have dec: "idom_size D - length ?P < idom_size D - length P" by simp
    have "walk_loop D tbl t ?n P m = walk_loop D tbl t (?f (last ?P)) ?P ?m"
      using False n less.prems(4) tbl add
      by (subst walk_loop.simps) (simp add: tbl_fun_def perm_table_def)
    moreover have "\<exists>P' m'. walk_loop D tbl t (?f (last ?P)) ?P ?m = Some (Inr (P', m')) \<and>
        chain ?f t P' \<and> ?f (last P') = t \<and> set P' \<subseteq> elems D \<and> set P' \<inter> M = {} \<and>
        length m' = idom_size D \<and> marked_set D m' = M \<union> set P'"
      using n nM less.prems by (intro less.hyps [OF dec chain']) auto
    ultimately show ?thesis by simp
  qed
qed

text \<open>What a list of loops has to satisfy to be the cycle decomposition of \<open>f\<close> on a set.\<close>

definition decomposes :: "idom \<Rightarrow> (int \<Rightarrow> int) \<Rightarrow> int set \<Rightarrow> int list list \<Rightarrow> bool" where
  "decomposes D f A ls \<longleftrightarrow>
     (\<forall>l \<in> set ls. normal_loop D l \<and> (\<forall>x \<in> set l. permloop_apply l x = f x)) \<and>
     distinct (concat ls) \<and> set (concat ls) = A"

lemma decomposes_snoc:
  assumes "decomposes D f A ls" "normal_loop D l" "\<forall>x \<in> set l. permloop_apply l x = f x"
    and "set l \<inter> A = {}"
  shows "decomposes D f (A \<union> set l) (ls @ [l])"
  using assms by (auto simp: decomposes_def normal_loop_def wf_loop_def)

lemma create_from_ok:
  assumes tbl: "perm_table D tbl"
    and m: "length m = idom_size D" "tbl_fun D tbl ` marked_set D m \<subseteq> marked_set D m"
    and mit: "mit \<le> idom_size D" "\<forall>i < mit. m ! i" "mit < idom_size D \<longrightarrow> \<not> m ! mit"
    and out: "decomposes D (tbl_fun D tbl) (marked_set D m) out"
      "sorted_wrt (<) (map hd out)" "\<forall>l \<in> set out. hd l < start D + int mit"
  shows "\<exists>res. create_from D tbl mit m out = Some (Inr res) \<and>
           decomposes D (tbl_fun D tbl) (elems D) res \<and> sorted_wrt (<) (map hd res)"
  using m mit out
proof (induction "idom_size D - mit" arbitrary: mit m out rule: less_induct)
  case less
  let ?f = "tbl_fun D tbl" and ?M = "marked_set D m"
  show ?case
  proof (cases "mit = idom_size D")
    case True
    then have "?M = elems D" using less.prems(4) by (auto simp: marked_set_def)
    moreover have "create_from D tbl mit m out = Some (Inr out)"
      using True less.prems(1) by (simp add: create_from.simps)
    ultimately show ?thesis using less.prems by simp
  next
    case False
    then have lt: "mit < idom_size D" using less.prems(3) by simp
    let ?t = "start D + int mit" and ?m = "m[mit := True]"
    have t: "?t \<in> elems D" "idx D ?t = mit" using lt by auto
    have below: "{x \<in> elems D. x < ?t} \<subseteq> ?M"
    proof
      fix x assume x: "x \<in> {x \<in> elems D. x < ?t}"
      then have "idx D x < mit" by (auto simp: idx_def elems_def)
      then show "x \<in> ?M" using x less.prems(4) by (simp add: marked_set_def)
    qed
    have tM: "?t \<notin> ?M" using lt less.prems(5) t by (simp add: marked_set_def)
    have mm: "marked_set D ?m = ?M \<union> set [?t]"
      using marked_set_update [OF less.prems(1) t(1)] t(2) by simp
    obtain P m' where w: "walk_loop D tbl ?t (?f (last [?t])) [?t] ?m = Some (Inr (P, m'))"
      and P: "chain ?f ?t P" "?f (last P) = ?t" "set P \<subseteq> elems D" "set P \<inter> ?M = {}"
      and m': "length m' = idom_size D" "marked_set D m' = ?M \<union> set P"
      using walk_loop_ok [OF tbl _ less.prems(2) below, of "[?t]" ?m] t tM mm less.prems(1)
      by (auto simp: chain_def marked_set_def)
    have Pd: "P \<noteq> []" "hd P = ?t" "distinct P" using P(1) by (auto simp: chain_def)
    have app: "\<forall>x \<in> set P. permloop_apply P x = ?f x"
      using chain_closed_apply [OF P(1,2)] by blast
    have nP: "normal_loop D P"
      using Pd P(3,4) below by (force simp: normal_loop_def wf_loop_def not_less [symmetric])
    let ?mit = "Suc mit + std_find False (drop (Suc mit) m')"
    have step: "create_from D tbl mit m out = create_from D tbl ?mit m' (out @ [P])"
      using lt less.prems(1) tbl w t
      by (subst create_from.simps)
        (simp add: perm_table_def tbl_fun_def idom_ctor_def permloop_ctor_def reroll_def
          std_rotate_def elems_def)
    have closed: "?f ` marked_set D m' \<subseteq> marked_set D m'"
    proof -
      have "?f x \<in> set P" if "x \<in> set P" for x
        using app that permloop_apply_in [of x P] by simp
      then show ?thesis using less.prems(2) unfolding m'(2) by blast
    qed
    have le: "?mit \<le> idom_size D"
      using std_find_le [of False "drop (Suc mit) m'"] m'(1) lt by simp
    have old: "m' ! i" if "i \<le> mit" for i
    proof -
      have "start D + int i \<in> marked_set D m'"
        using that m'(2) Pd P(1) less.prems(4) lt hd_in_set [OF Pd(1)]
        by (cases "i = mit") (auto simp: marked_set_def)
      then show ?thesis by (simp add: marked_set_def)
    qed
    have new: "\<forall>i < ?mit. m' ! i"
    proof (intro allI impI)
      fix i assume i: "i < ?mit"
      show "m' ! i"
      proof (cases "i \<le> mit")
        case False
        then show ?thesis
          using i std_find_before [of "i - Suc mit" False "drop (Suc mit) m'"] le m'(1) by simp
      qed (rule old)
    qed
    have unm: "?mit < idom_size D \<longrightarrow> \<not> m' ! ?mit"
      using nth_std_find_less [of False "drop (Suc mit) m'"] m'(1) by auto
    have dec: "decomposes D ?f (marked_set D m') (out @ [P])"
      unfolding m'(2) using less.prems(6) nP app P(4) by (rule decomposes_snoc)
    have sorted: "sorted_wrt (<) (map hd (out @ [P]))"
      using less.prems(7,8) Pd by (auto simp: sorted_wrt_append)
    have heads: "\<forall>l \<in> set (out @ [P]). hd l < start D + int ?mit"
      using less.prems(8) Pd by force
    show ?thesis
      unfolding step using lt le m'(1) closed new unm dec sorted heads
      by (intro less.hyps) auto
  qed
qed

lemma create_loops_ok:
  assumes "perm_table D tbl"
  shows "\<exists>res. create_loops D tbl = Some (Inr res) \<and>
           decomposes D (tbl_fun D tbl) (elems D) res \<and> sorted_wrt (<) (map hd res)"
proof -
  let ?m = "replicate (length tbl) False"
  have len: "length ?m = idom_size D" using assms by (simp add: perm_table_def)
  have none: "marked_set D (replicate (idom_size D) False) = {}" by (auto simp: marked_set_def)
  show ?thesis
    unfolding create_loops_def
    by (rule create_from_ok [OF assms len]) (use len in \<open>simp_all add: none decomposes_def\<close>)
qed

section \<open>Inverse loops\<close>

lemma permloop_inverse_eq: "l \<noteq> [] \<Longrightarrow> permloop_inverse l = hd l # rev (tl l)"
proof (cases l rule: remdups_adj.cases)
  case (3 x y zs)
  then show ?thesis by (cases zs) (simp_all add: permloop_inverse_def)
qed (simp_all add: permloop_inverse_def)

lemma set_permloop_inverse [simp]: "set (permloop_inverse l) = set l"
  by (cases l) (auto simp: permloop_inverse_eq, simp_all add: permloop_inverse_def)

lemma length_permloop_inverse [simp]: "length (permloop_inverse l) = length l"
  by (cases l) (auto simp: permloop_inverse_eq, simp_all add: permloop_inverse_def)

lemma distinct_permloop_inverse [simp]: "distinct (permloop_inverse l) = distinct l"
  by (cases l) (auto simp: permloop_inverse_eq, simp_all add: permloop_inverse_def)

lemma hd_permloop_inverse [simp]: "hd (permloop_inverse l) = hd l"
  by (cases l) (auto simp: permloop_inverse_eq, simp_all add: permloop_inverse_def)

lemma permloop_inverse_normal: "normal_loop D l \<Longrightarrow> normal_loop D (permloop_inverse l)"
  using length_permloop_inverse [of l]
  by (auto simp: normal_loop_def wf_loop_def simp del: length_permloop_inverse)

lemma permloop_inverse_inverse: "l \<noteq> [] \<Longrightarrow> permloop_inverse (permloop_inverse l) = l"
  by (simp add: permloop_inverse_eq)

lemma nth_permloop_inverse:
  assumes "j < length l"
  shows "permloop_inverse l ! j = l ! ((length l - j) mod length l)"
proof -
  have ne: "l \<noteq> []" using assms by auto
  show ?thesis
  proof (cases j)
    case 0
    then show ?thesis using ne by (simp add: permloop_inverse_eq hd_conv_nth)
  next
    case (Suc k)
    then have "permloop_inverse l ! j = tl l ! (length (tl l) - Suc k)"
      using assms ne by (simp add: permloop_inverse_eq rev_nth)
    also have "\<dots> = l ! (length l - j)"
      using assms Suc by (simp add: nth_tl Suc_diff_Suc)
    finally show ?thesis using assms Suc by simp
  qed
qed

lemma permloop_inverse_left:
  assumes "distinct l"
  shows "permloop_apply (permloop_inverse l) (permloop_apply l x) = x"
proof (cases "x \<in> set l")
  case True
  then obtain i where i: "i < length l" "x = l ! i" by (auto simp: in_set_conv_nth)
  let ?n = "length l" and ?j = "(length l - Suc i)"
  have j: "?j < ?n" using i by simp
  have "permloop_apply l x = l ! (Suc i mod ?n)"
    using i assms by (simp add: permloop_apply_nth)
  also have "\<dots> = permloop_inverse l ! ?j"
    using i by (simp add: nth_permloop_inverse)
  finally have "permloop_apply (permloop_inverse l) (permloop_apply l x) =
      permloop_inverse l ! (Suc ?j mod ?n)"
    using j assms permloop_apply_nth [of "permloop_inverse l" ?j] by simp
  also have "\<dots> = l ! i"
    using i by (cases i) (auto simp: nth_permloop_inverse Suc_diff_Suc)
  finally show ?thesis using i by simp
next
  case False
  then show ?thesis by simp
qed

lemma permloop_inverse_right:
  assumes "distinct l"
  shows "permloop_apply l (permloop_apply (permloop_inverse l) x) = x"
proof (cases "l = []")
  case False
  then show ?thesis
    using assms permloop_inverse_left [of "permloop_inverse l" x] by (simp add: permloop_inverse_inverse)
qed simp

lemma permloop_apply_inj: "distinct l \<Longrightarrow> inj (permloop_apply l)"
  by (metis injI permloop_inverse_left)

lemma permloop_apply_elems: "wf_loop D l \<Longrightarrow> x \<in> elems D \<Longrightarrow> permloop_apply l x \<in> elems D"
  by (metis permloop_apply_in permloop_apply_notin subsetD wf_loopD(3))

section \<open>Products of loops\<close>

lemma fold_loops_elems:
  "\<forall>l \<in> set ls. wf_loop D l \<Longrightarrow> x \<in> elems D \<Longrightarrow> fold permloop_apply ls x \<in> elems D"
  by (induction ls arbitrary: x) (auto simp: permloop_apply_elems)

lemma fold_loops_inj: "\<forall>l \<in> set ls. wf_loop D l \<Longrightarrow> inj (fold permloop_apply ls)"
proof (induction ls)
  case (Cons l ls)
  then have "inj (fold permloop_apply ls \<circ> permloop_apply l)"
    by (intro inj_compose) (auto simp: wf_loop_def intro: permloop_apply_inj)
  then show ?case by (simp add: comp_def)
qed simp

lemma fold_loops_perm_table:
  assumes "\<forall>l \<in> set ls. wf_loop D l"
  shows "perm_table D (map (fold permloop_apply ls) (idom_iota D))"
proof -
  let ?f = "fold permloop_apply ls"
  have inj: "inj_on ?f (elems D)" using fold_loops_inj [OF assms] by (rule inj_on_subset) simp
  have "?f ` elems D \<subseteq> elems D" using fold_loops_elems [OF assms] by blast
  then have "?f ` elems D = elems D" using inj by (intro endo_inj_surj) auto
  then show ?thesis using inj by (simp add: perm_table_def distinct_map)
qed

lemma apply_loops_table_ok:
  assumes "\<forall>l \<in> set ls. wf_loop D l" "start D < fin D" "length tbl = idom_size D"
  shows "apply_loops_table D ls tbl =
    Inr (map (\<lambda>x. tbl ! idx D (foldr permloop_apply ls x)) (idom_iota D))"
  using assms
proof (induction ls arbitrary: tbl)
  case Nil
  then show ?case by (auto intro!: nth_equalityI)
next
  case (Cons l ls)
  have "foldr permloop_apply ls x \<in> elems D" if "x \<in> elems D" for x
    using that Cons.prems(1) fold_loops_elems [of "rev ls" D x] by (simp add: foldr_conv_fold)
  then show ?case
    using Cons by (simp add: permloop_apply_table_ok)
qed

text \<open>The specification: the decomposition of the product of the loops, left to right.\<close>

lemma simplify_loops_ok:
  assumes "\<forall>l \<in> set ls. wf_loop D l" "start D < fin D"
  shows "\<exists>res. simplify_loops D ls = Some (Inr res) \<and>
           decomposes D (fold permloop_apply ls) (elems D) res \<and> sorted_wrt (<) (map hd res)"
proof -
  let ?tbl = "map (fold permloop_apply ls) (idom_iota D)"
  have eq: "idom_iota D ! idx D (foldr permloop_apply (rev ls) x) = fold permloop_apply ls x"
    if "x \<in> elems D" for x
    using fold_loops_elems [OF assms(1) that] by (simp add: foldr_conv_fold)
  have "apply_loops_table D (rev ls) (idom_iota D) = Inr ?tbl"
    using assms apply_loops_table_ok [of "rev ls" D "idom_iota D"] eq by auto
  then have sl: "simplify_loops D ls = create_loops D ?tbl"
    by (simp add: simplify_loops_def)
  have tf: "tbl_fun D ?tbl x = fold permloop_apply ls x" if "x \<in> elems D" for x
    using that by (simp add: tbl_fun_def)
  obtain res where res: "create_loops D ?tbl = Some (Inr res)"
    "decomposes D (tbl_fun D ?tbl) (elems D) res" "sorted_wrt (<) (map hd res)"
    using create_loops_ok [OF fold_loops_perm_table [OF assms(1)]] by blast
  have "decomposes D (fold permloop_apply ls) (elems D) res"
    using res(2) tf by (fastforce simp: decomposes_def normal_loop_def wf_loop_def)
  then show ?thesis using sl res by auto
qed

section \<open>The order on loops\<close>

lemma first_diff_less_irrefl: "\<not> first_diff_less l l"
  by (induction l) auto

lemma first_diff_less_trans:
  "first_diff_less a b \<Longrightarrow> first_diff_less b c \<Longrightarrow> length a = length b \<Longrightarrow> length b = length c \<Longrightarrow>
     first_diff_less a c"
proof (induction a b arbitrary: c rule: first_diff_less.induct)
  case (1 a as b bs)
  then show ?case by (cases c) (auto split: if_splits)
qed auto

lemma first_diff_less_total:
  "length a = length b \<Longrightarrow> a \<noteq> b \<Longrightarrow> first_diff_less a b \<or> first_diff_less b a"
  by (induction a b rule: first_diff_less.induct) auto

lemma permloop_less_irrefl: "\<not> permloop_less l l"
  by (simp add: permloop_less_def first_diff_less_irrefl)

lemma permloop_less_trans: "permloop_less a b \<Longrightarrow> permloop_less b c \<Longrightarrow> permloop_less a c"
  by (auto simp: permloop_less_def split: if_splits intro: first_diff_less_trans)

lemma permloop_less_total: "a \<noteq> b \<Longrightarrow> permloop_less a b \<or> permloop_less b a"
  by (auto simp: permloop_less_def dest: first_diff_less_total)

section \<open>The checks of the CHECKS build\<close>

lemma permloop_check_iff:
  "permloop_check l = Inr () \<longleftrightarrow> l \<noteq> [] \<and> distinct l \<and> (\<forall>x \<in> set l. hd l \<le> x)"
proof (cases "l \<noteq> [] \<and> distinct l")
  case True
  then have "l ! std_min_element l = l ! 0 \<longleftrightarrow> (\<forall>x \<in> set l. hd l \<le> x)"
    using std_min_element_le [of _ l] min_element_hd [of l] by (auto simp: hd_conv_nth)
  then show ?thesis using True by (auto simp: permloop_check_def distinct_card)
next
  case False
  then show ?thesis by (auto simp: permloop_check_def dest: card_distinct)
qed

end
