(* ===== verification/Perms.thy ===== *)
theory Perms
  imports Permloops
begin

text \<open>
  \<^verbatim>\<open>17-algorithms/permutations/perms.hpp\<close>: permutations as lists of loops. A
  \<^verbatim>\<open>Permutation<T>\<close> is its vector \<^verbatim>\<open>loops_\<close>; the domain of \<^verbatim>\<open>T\<close> is the first argument
  of the operations that use it. Operations that simplify loops inherit the result type
  of \<open>simplify_loops\<close>: \<open>None\<close> for not returning, \<open>Inl\<close> for an error.
\<close>

section \<open>The class Permutation\<close>

type_synonym permutation = "permloop list"

text \<open>
  \<^verbatim>\<open>sortloops\<close> orders by decreasing smallest element. \<^verbatim>\<open>std::sort\<close> leaves the order of
  equal keys open; loops of a permutation never share their smallest element.
\<close>

definition sortloops :: "int list list \<Rightarrow> int list list" where
  "sortloops ls = sort_key (\<lambda>l. - hd l) ls"

definition perm_default :: "idom \<Rightarrow> int list list" where
  "perm_default D = sortloops (map (\<lambda>x. permloop_ctor [x]) (idom_iota D))"

definition simplify_sort :: "idom \<Rightarrow> int list list \<Rightarrow> int list list res option" where
  "simplify_sort D ls =
     map_option (\<lambda>r. bindE r (\<lambda>outloops. Inr (sortloops outloops))) (simplify_loops D ls)"

definition perm_ctor :: "idom \<Rightarrow> int list list \<Rightarrow> int list list res option" where
  "perm_ctor D ls = simplify_sort D ls"

definition perm_lmul :: "idom \<Rightarrow> int list list \<Rightarrow> int list list \<Rightarrow> int list list res option" where
  "perm_lmul D self input = simplify_sort D (input @ self)"

definition perm_rmul :: "idom \<Rightarrow> int list list \<Rightarrow> int list list \<Rightarrow> int list list res option" where
  "perm_rmul D self input = simplify_sort D (self @ input)"

definition perm_inverse :: "int list list \<Rightarrow> int list list" where
  "perm_inverse ls = map permloop_inverse ls"

definition perm_apply :: "int list list \<Rightarrow> int \<Rightarrow> int" where
  "perm_apply ls elem = fold permloop_apply ls elem"

definition perm_apply_table :: "idom \<Rightarrow> int list list \<Rightarrow> int list \<Rightarrow> int list res" where
  "perm_apply_table D ls tbl = apply_loops_table D ls tbl"

definition perm_contains :: "int list list \<Rightarrow> int \<Rightarrow> bool" where
  "perm_contains ls elem \<longleftrightarrow> list_ex (\<lambda>pl. permloop_contains pl elem) ls"

fun first_loop_less :: "int list list \<Rightarrow> int list list \<Rightarrow> bool" where
  "first_loop_less (a # as) (b # bs) =
     (if \<not> permloop_equals a b then permloop_less a b else first_loop_less as bs)"
| "first_loop_less _ _ = False"

definition perm_less :: "int list list \<Rightarrow> int list list \<Rightarrow> bool" where
  "perm_less l r \<longleftrightarrow>
     (if length r \<noteq> length l then length l < length r else first_loop_less l r)"

definition perm_equals :: "int list list \<Rightarrow> int list list \<Rightarrow> bool" where
  "perm_equals l r \<longleftrightarrow> list_all2 permloop_equals r l"

definition perm_ne :: "permutation \<Rightarrow> permutation \<Rightarrow> bool" where
  "perm_ne l r \<longleftrightarrow> \<not> perm_equals l r"

definition perm_dump :: "int list list \<Rightarrow> string" where
  "perm_dump ls = concat (map permloop_dump ls)"

text \<open>\<^verbatim>\<open>check\<close>: the final loop of the function compares neighbours.\<close>

fun check_neighbours :: "int list list \<Rightarrow> unit res" where
  "check_neighbours (a # b # ls) =
     bindE (permloop_smallest a) (\<lambda>x.
     bindE (permloop_smallest b) (\<lambda>y.
       if x = y then Inl (Runtime_error ''Loops with equal elements are here'')
       else if x < y then Inl (Runtime_error ''Canonical form broken'')
       else check_neighbours (b # ls)))"
| "check_neighbours _ = Inr ()"

definition perm_check :: "idom \<Rightarrow> int list list \<Rightarrow> unit res" where
  "perm_check D ls =
     (if start D \<ge> fin D then Inl (Runtime_error ''Domain error'')
      else if ls = [] then Inl (Runtime_error ''Empty permutation'')
      else if list_ex (\<lambda>x. \<not> perm_contains ls x) (idom_iota D)
        then Inl (Runtime_error ''Every domain element shall be covered'')
      else check_neighbours ls)"

section \<open>Standalone operations\<close>

definition product :: "idom \<Rightarrow> int list list \<Rightarrow> int list list \<Rightarrow> int list list res option" where
  "product D lhs rhs = perm_rmul D lhs rhs"

definition invert :: "int list list \<Rightarrow> int list list" where
  "invert lhs = perm_inverse lhs"

section \<open>The canonical form\<close>

text \<open>
  The three points of the header's comment, plus what makes loops a permutation: they are
  disjoint and cover the domain.
\<close>

definition canonical :: "idom \<Rightarrow> int list list \<Rightarrow> bool" where
  "canonical D ls \<longleftrightarrow>
     (\<forall>l \<in> set ls. normal_loop D l) \<and> distinct (concat ls) \<and> set (concat ls) = elems D \<and>
     sorted_wrt (>) (map hd ls)"

lemma canonical_wf: "canonical D ls \<Longrightarrow> \<forall>l \<in> set ls. wf_loop D l"
  by (simp add: canonical_def)

lemma distinct_concat_cong: "mset xs = mset ys \<Longrightarrow> distinct (concat xs) = distinct (concat ys)"
  by (intro mset_eq_imp_distinct_iff) (simp add: mset_concat flip: sum_mset_sum_list)

lemma mset_sortloops [simp]: "mset (sortloops ls) = mset ls"
  by (simp add: sortloops_def)

lemma set_sortloops [simp]: "set (sortloops ls) = set ls"
  by (simp add: sortloops_def)

lemma distinct_heads:
  "distinct (concat ls) \<Longrightarrow> \<forall>l \<in> set ls. l \<noteq> [] \<Longrightarrow> distinct (map hd ls)"
proof (induction ls)
  case (Cons l ls)
  then have "hd l \<noteq> hd k" if "k \<in> set ls" for k
    using that hd_in_set [of l] hd_in_set [of k] by fastforce
  then show ?case using Cons by auto
qed simp

lemma sorted_heads_strict:
  "sorted (map (\<lambda>l. - hd l) ls) \<Longrightarrow> distinct (map hd ls) \<Longrightarrow> sorted_wrt (>) (map hd (ls :: int list list))"
proof (induction ls)
  case (Cons a ls)
  have "hd x < hd a" if "x \<in> set ls" for x
  proof -
    have "hd x \<le> hd a" "hd a \<in> hd ` set ls \<longrightarrow> False" using Cons.prems that by simp_all
    then show ?thesis using that by (metis image_eqI order.strict_iff_order)
  qed
  then show ?case using Cons by simp
qed simp

lemma sortloops_descending:
  assumes "distinct (concat ls)" "\<forall>l \<in> set ls. l \<noteq> []"
  shows "sorted_wrt (>) (map hd (sortloops ls))"
proof (rule sorted_heads_strict)
  show "distinct (map hd (sortloops ls))"
    using assms distinct_heads [of "sortloops ls"] distinct_concat_cong [of "sortloops ls" ls] by simp
  show "sorted (map (\<lambda>l. - hd l) (sortloops ls))" by (simp add: sortloops_def)
qed

section \<open>Applying disjoint loops\<close>

lemma fold_loops_notin: "\<forall>l \<in> set ls. x \<notin> set l \<Longrightarrow> fold permloop_apply ls x = x"
  by (induction ls) auto

lemma perm_apply_disjoint:
  assumes "distinct (concat ls)" "l \<in> set ls" "x \<in> set l"
  shows "perm_apply ls x = permloop_apply l x"
proof -
  obtain as bs where ls: "ls = as @ l # bs" using assms(2) by (auto simp: in_set_conv_decomp)
  have "\<forall>k \<in> set as. x \<notin> set k" "\<forall>k \<in> set bs. permloop_apply l x \<notin> set k"
    using assms(1,3) permloop_apply_in [OF assms(3)] ls by auto
  then show ?thesis by (simp add: perm_apply_def ls fold_loops_notin)
qed

lemma decomposes_sortloops:
  assumes "decomposes D f (elems D) ls"
  shows "canonical D (sortloops ls)" and "x \<in> elems D \<Longrightarrow> perm_apply (sortloops ls) x = f x"
proof -
  have d: "distinct (concat (sortloops ls))"
    using assms distinct_concat_cong [of "sortloops ls" ls] by (simp add: decomposes_def)
  have "\<forall>l \<in> set ls. l \<noteq> []" using assms by (auto simp: decomposes_def normal_loop_def wf_loop_def)
  then show "canonical D (sortloops ls)"
    using assms d sortloops_descending [of ls] by (auto simp: canonical_def decomposes_def)
  show "perm_apply (sortloops ls) x = f x" if "x \<in> elems D"
  proof -
    have "x \<in> set (concat ls)" using that assms by (simp add: decomposes_def)
    then obtain l where l: "l \<in> set ls" "x \<in> set l" by auto
    then have "permloop_apply l x = f x" using assms by (simp add: decomposes_def)
    then show ?thesis using l perm_apply_disjoint [OF d, of l x] by simp
  qed
qed

lemma canonical_apply_in:
  "canonical D p \<Longrightarrow> x \<in> elems D \<Longrightarrow> perm_apply p x \<in> elems D"
  unfolding perm_apply_def by (rule fold_loops_elems [OF canonical_wf])

lemma simplify_sort_ok:
  assumes "\<forall>l \<in> set ls. wf_loop D l" "start D < fin D"
  shows "\<exists>p. simplify_sort D ls = Some (Inr p) \<and> canonical D p \<and>
           (\<forall>x \<in> elems D. perm_apply p x = fold permloop_apply ls x)"
proof -
  obtain res where res: "simplify_loops D ls = Some (Inr res)"
    "decomposes D (fold permloop_apply ls) (elems D) res"
    using simplify_loops_ok [OF assms] by blast
  then show ?thesis
    using decomposes_sortloops [OF res(2)] by (simp add: simplify_sort_def)
qed

lemma perm_default_ok:
  shows "canonical D (perm_default D)" and "x \<in> elems D \<Longrightarrow> perm_apply (perm_default D) x = x"
proof -
  have eq: "map (\<lambda>x. permloop_ctor [x]) (idom_iota D) = map (\<lambda>x. [x]) (idom_iota D)"
    by (simp add: permloop_ctor_def reroll_def std_rotate_def)
  have "decomposes D id (elems D) (map (\<lambda>x. [x]) (idom_iota D))"
    by (auto simp: decomposes_def normal_loop_def wf_loop_def permloop_apply_def)
  from decomposes_sortloops [OF this]
  show "canonical D (perm_default D)" "x \<in> elems D \<Longrightarrow> perm_apply (perm_default D) x = x"
    by (simp_all add: perm_default_def eq)
qed

section \<open>Uniqueness of the canonical form\<close>

lemma loop_nth_funpow:
  assumes "distinct l" "\<forall>x \<in> set l. permloop_apply l x = f x" "i < length l"
  shows "l ! i = (f ^^ i) (hd l)"
  using assms(3)
proof (induction i)
  case 0
  then show ?case by (simp add: hd_conv_nth)
next
  case (Suc i)
  then have "f (l ! i) = l ! Suc i"
    using assms(1,2) permloop_apply_nth [of l i] by (metis Suc_lessD mod_less nth_mem)
  then show ?case using Suc by simp
qed

lemma loop_in_closed:
  assumes "distinct l" "\<forall>x \<in> set l. permloop_apply l x = f x" "hd l \<in> B" "f ` B \<subseteq> B"
  shows "set l \<subseteq> B"
proof -
  have "(f ^^ i) (hd l) \<in> B" for i using assms(3,4) by (induction i) auto
  then show ?thesis using loop_nth_funpow [OF assms(1,2)] by (auto simp: in_set_conv_nth)
qed

lemma loop_set_closed:
  "\<forall>x \<in> set l. permloop_apply l x = f x \<Longrightarrow> f ` set l \<subseteq> set l"
  using permloop_apply_in by (metis image_subsetI)

lemma loop_determined:
  assumes l: "normal_loop D l" "\<forall>x \<in> set l. permloop_apply l x = f x"
    and k: "normal_loop D k" "\<forall>x \<in> set k. permloop_apply k x = f x"
    and eq: "set l = set k"
  shows "l = k"
proof (rule nth_equalityI)
  have ne: "l \<noteq> []" "k \<noteq> []" and d: "distinct l" "distinct k"
    using l k by (auto simp: normal_loop_def wf_loop_def)
  have hd: "hd l = hd k"
    using l(1) k(1) eq hd_in_set [OF ne(1)] hd_in_set [OF ne(2)]
    by (intro antisym) (auto simp: normal_loop_def)
  show len: "length l = length k" using d eq by (metis distinct_card)
  fix i assume "i < length l"
  then show "l ! i = k ! i"
    using loop_nth_funpow [OF d(1) l(2)] loop_nth_funpow [OF d(2) k(2)] hd len by simp
qed

lemma set_loop_determined:
  assumes l: "normal_loop D l" "\<forall>x \<in> set l. permloop_apply l x = f x"
    and k: "normal_loop D k" "\<forall>x \<in> set k. permloop_apply k x = f x"
    and "hd l \<in> set k"
  shows "set l = set k"
proof -
  have sub: "set l \<subseteq> set k"
    using loop_in_closed [OF _ l(2) assms(5) loop_set_closed [OF k(2)]] l(1)
    by (simp add: normal_loop_def wf_loop_def)
  have kd: "distinct k" "k \<noteq> []" and ld: "distinct l" "l \<noteq> []"
    using k(1) l(1) by (auto simp: normal_loop_def wf_loop_def)
  obtain j where j: "j < length k" "k ! j = hd l" using assms(5) by (auto simp: in_set_conv_nth)
  have closed: "f ` set l \<subseteq> set l" by (rule loop_set_closed [OF l(2)])
  have "k ! ((j + i) mod length k) \<in> set l" for i
  proof (induction i)
    case 0
    then show ?case using j hd_in_set [OF ld(2)] by simp
  next
    case (Suc i)
    let ?m = "(j + i) mod length k"
    have m: "?m < length k" using kd(2) by simp
    have "f (k ! ?m) = k ! (Suc ?m mod length k)"
      using k(2) permloop_apply_nth [OF kd(1) m] nth_mem [OF m] by simp
    then show ?case using Suc closed by (auto simp: mod_Suc_eq)
  qed
  then have all: "k ! ((j + (length k - j + i)) mod length k) \<in> set l" for i .
  have "k ! i \<in> set l" if "i < length k" for i
  proof -
    have "(j + (length k - j + i)) mod length k = i" using that j by simp
    then show ?thesis using all [of i] by simp
  qed
  then show ?thesis using sub by (auto simp: in_set_conv_nth)
qed

lemma canonical_loop_apply:
  assumes "canonical D p" "l \<in> set p"
  shows "\<forall>x \<in> set l. permloop_apply l x = perm_apply p x"
  using perm_apply_disjoint [of p l] assms by (simp add: canonical_def)

lemma canonical_loops_subset:
  assumes p: "canonical D p" and q: "canonical D q"
    and eq: "\<forall>x \<in> elems D. perm_apply p x = perm_apply q x"
  shows "set p \<subseteq> set q"
proof
  fix l assume l: "l \<in> set p"
  then have nl: "normal_loop D l" using p by (simp add: canonical_def)
  then have ne: "l \<noteq> []" "set l \<subseteq> elems D" by (auto simp: normal_loop_def wf_loop_def)
  then have "hd l \<in> set (concat q)" using hd_in_set [OF ne(1)] q by (auto simp: canonical_def)
  then obtain k where k: "k \<in> set q" "hd l \<in> set k" by auto
  have nk: "normal_loop D k" using k q by (simp add: canonical_def)
  have lf: "\<forall>x \<in> set l. permloop_apply l x = perm_apply q x"
    using canonical_loop_apply [OF p l] eq ne(2) by auto
  have kf: "\<forall>x \<in> set k. permloop_apply k x = perm_apply q x"
    by (rule canonical_loop_apply [OF q k(1)])
  have "set l = set k" by (rule set_loop_determined [OF nl lf nk kf k(2)])
  then have "l = k" by (rule loop_determined [OF nl lf nk kf])
  then show "l \<in> set q" using k by simp
qed

lemma sorted_heads_unique:
  fixes p q :: "int list list"
  assumes "sorted_wrt (>) (map hd p)" "sorted_wrt (>) (map hd q)" "set p = set q"
  shows "p = q"
  using assms
proof (induction p arbitrary: q)
  case Nil
  then show ?case by simp
next
  case (Cons a p)
  then obtain b r where q: "q = b # r" by (cases q) auto
  have "a = b"
  proof (rule ccontr)
    assume "a \<noteq> b"
    then have "a \<in> set r" "b \<in> set p" using Cons.prems(3) q by auto
    then have "hd b < hd a" "hd a < hd b" using Cons.prems(1,2) q by auto
    then show False by simp
  qed
  moreover have "a \<notin> set p" "b \<notin> set r" using Cons.prems(1,2) q by auto
  ultimately have "set p = set r" using Cons.prems(3) q by (simp add: insert_eq_iff)
  then show ?case using Cons \<open>a = b\<close> q by auto
qed

lemma canonical_unique:
  assumes "canonical D p" "canonical D q" "\<forall>x \<in> elems D. perm_apply p x = perm_apply q x"
  shows "p = q"
proof (rule sorted_heads_unique)
  show "set p = set q"
    using canonical_loops_subset [OF assms] canonical_loops_subset [OF assms(2,1)] assms(3) by auto
qed (use assms in \<open>auto simp: canonical_def\<close>)

section \<open>Inverses\<close>

lemma concat_mset_inverse: "mset (concat (perm_inverse p)) = mset (concat p)"
proof (induction p)
  case (Cons l p)
  have "mset (permloop_inverse l) = mset l"
    by (cases l) (auto simp: permloop_inverse_eq, simp add: permloop_inverse_def)
  then show ?case using Cons by (simp add: perm_inverse_def)
qed (simp add: perm_inverse_def)

lemma perm_inverse_canonical:
  assumes "canonical D p"
  shows "canonical D (perm_inverse p)"
proof -
  have "distinct (concat (perm_inverse p)) = distinct (concat p)"
    "set (concat (perm_inverse p)) = set (concat p)"
    using mset_eq_imp_distinct_iff [OF concat_mset_inverse [of p]]
      mset_eq_setD [OF concat_mset_inverse [of p]] by auto
  moreover have "map hd (perm_inverse p) = map hd p" by (simp add: perm_inverse_def)
  moreover have "\<forall>l \<in> set (perm_inverse p). normal_loop D l"
    using assms by (auto simp: perm_inverse_def canonical_def permloop_inverse_normal)
  ultimately show ?thesis using assms by (simp add: canonical_def)
qed

lemma perm_inverse_left:
  assumes p: "canonical D p" and x: "x \<in> elems D"
  shows "perm_apply (perm_inverse p) (perm_apply p x) = x"
proof -
  have "x \<in> set (concat p)" using p x by (simp add: canonical_def)
  then obtain l where l: "l \<in> set p" "x \<in> set l" by auto
  have "distinct l" using p l by (auto simp: canonical_def normal_loop_def wf_loop_def)
  moreover have "perm_apply p x = permloop_apply l x"
    using perm_apply_disjoint [OF _ l] p by (simp add: canonical_def)
  moreover have "perm_apply (perm_inverse p) (permloop_apply l x) =
      permloop_apply (permloop_inverse l) (permloop_apply l x)"
    using perm_inverse_canonical [OF p] l permloop_apply_in [OF l(2)]
    by (intro perm_apply_disjoint) (auto simp: canonical_def perm_inverse_def)
  ultimately show ?thesis by (simp add: permloop_inverse_left)
qed

lemma perm_inverse_inverse: "canonical D p \<Longrightarrow> perm_inverse (perm_inverse p) = p"
  by (auto simp: perm_inverse_def canonical_def normal_loop_def wf_loop_def
      permloop_inverse_inverse intro!: map_idI)

section \<open>Faithful groups of values\<close>

text \<open>
  What the clients of the class rely on: values with an invariant act on a domain, two values
  that act alike are the same, products compose, and inverses undo. Everything a group has to
  satisfy follows, for the values themselves and not only up to their action.
\<close>

locale faithful_action =
  fixes inv :: "'p \<Rightarrow> bool"
    and act :: "'p \<Rightarrow> 'x \<Rightarrow> 'x"
    and carrier :: "'x set"
    and one :: 'p
    and mul :: "'p \<Rightarrow> 'p \<Rightarrow> 'p res option"
    and inverse_of :: "'p \<Rightarrow> 'p"
  assumes act_in: "inv p \<Longrightarrow> x \<in> carrier \<Longrightarrow> act p x \<in> carrier"
    and faithful: "inv p \<Longrightarrow> inv q \<Longrightarrow> \<forall>x \<in> carrier. act p x = act q x \<Longrightarrow> p = q"
    and one_inv: "inv p \<Longrightarrow> inv one"
    and one_act: "x \<in> carrier \<Longrightarrow> act one x = x"
    and mul_ok: "inv p \<Longrightarrow> inv q \<Longrightarrow>
      \<exists>r. mul p q = Some (Inr r) \<and> inv r \<and> (\<forall>x \<in> carrier. act r x = act q (act p x))"
    and inverse_inv: "inv p \<Longrightarrow> inv (inverse_of p)"
    and inverse_act: "inv p \<Longrightarrow> x \<in> carrier \<Longrightarrow> act (inverse_of p) (act p x) = x"
    and inverse_invol: "inv p \<Longrightarrow> inverse_of (inverse_of p) = p"
begin

lemma mul_eqI:
  assumes "inv p" "inv q" "inv r" "\<And>x. x \<in> carrier \<Longrightarrow> act r x = act q (act p x)"
  shows "mul p q = Some (Inr r)"
proof -
  obtain s where s: "mul p q = Some (Inr s)" "inv s" "\<forall>x \<in> carrier. act s x = act q (act p x)"
    using mul_ok [OF assms(1,2)] by blast
  then have "s = r" using assms(3,4) by (intro faithful) auto
  then show ?thesis using s by simp
qed

lemma mul_act:
  assumes "inv p" "inv q" "mul p q = Some (Inr r)"
  shows "inv r" and "x \<in> carrier \<Longrightarrow> act r x = act q (act p x)"
  using mul_ok [OF assms(1,2)] assms(3) by auto

lemma mul_assoc:
  assumes "inv p" "inv q" "inv r" "mul p q = Some (Inr pq)" "mul q r = Some (Inr qr)"
  shows "mul pq r = mul p qr"
proof -
  note pq = mul_act [OF assms(1,2,4)] and qr = mul_act [OF assms(2,3,5)]
  obtain s where s: "mul p qr = Some (Inr s)" using mul_ok [OF assms(1) qr(1)] by blast
  note sa = mul_act [OF assms(1) qr(1) s]
  have "mul pq r = Some (Inr s)"
    using pq qr sa assms(1-3) act_in by (intro mul_eqI) auto
  then show ?thesis using s by simp
qed

lemma mul_one_right: "inv p \<Longrightarrow> mul p one = Some (Inr p)"
  by (rule mul_eqI) (auto simp: one_inv one_act act_in)

lemma mul_one_left: "inv p \<Longrightarrow> mul one p = Some (Inr p)"
  by (rule mul_eqI) (auto simp: one_inv one_act act_in)

lemma mul_inverse_right: "inv p \<Longrightarrow> mul p (inverse_of p) = Some (Inr one)"
  by (rule mul_eqI) (auto simp: one_inv one_act inverse_inv inverse_act)

lemma inverse_act_right: "inv p \<Longrightarrow> x \<in> carrier \<Longrightarrow> act p (act (inverse_of p) x) = x"
  using inverse_act [of "inverse_of p" x] by (simp add: inverse_inv inverse_invol)

lemma mul_inverse_left: "inv p \<Longrightarrow> mul (inverse_of p) p = Some (Inr one)"
  by (rule mul_eqI) (auto simp: one_inv one_act inverse_inv inverse_act_right)

lemma mul_cancel_right:
  assumes "inv p" "inv q" "inv r" "mul p r = mul q r"
  shows "p = q"
proof (rule faithful [OF assms(1,2)], rule ballI)
  fix x assume x: "x \<in> carrier"
  have "act r (act p x) = act r (act q x)"
    using mul_ok [OF assms(1,3)] mul_ok [OF assms(2,3)] assms(4) x by force
  then show "act p x = act q x"
    using inverse_act [OF assms(3)] act_in [OF assms(1) x] act_in [OF assms(2) x] by metis
qed

end

text \<open>A permutation value over a proper domain.\<close>

definition perm_inv :: "idom \<Rightarrow> int list list \<Rightarrow> bool" where
  "perm_inv D p \<longleftrightarrow> start D < fin D \<and> canonical D p"

lemma product_ok:
  assumes "perm_inv D p" "perm_inv D q"
  shows "\<exists>r. product D p q = Some (Inr r) \<and> perm_inv D r \<and>
           (\<forall>x \<in> elems D. perm_apply r x = perm_apply q (perm_apply p x))"
  using assms simplify_sort_ok [of "p @ q" D] canonical_wf [of D p] canonical_wf [of D q]
  by (auto simp: perm_inv_def product_def perm_rmul_def perm_apply_def)

interpretation pg: faithful_action "perm_inv D" perm_apply "elems D" "perm_default D"
  "product D" invert for D
proof
  show "\<exists>r. product D p q = Some (Inr r) \<and> perm_inv D r \<and>
      (\<forall>x \<in> elems D. perm_apply r x = perm_apply q (perm_apply p x))"
    if "perm_inv D p" "perm_inv D q" for p q using product_ok [OF that] .
qed (auto simp: perm_inv_def invert_def canonical_apply_in perm_default_ok perm_inverse_canonical
    perm_inverse_left perm_inverse_inverse intro: canonical_unique)

section \<open>Checks, comparisons and tables\<close>

lemma perm_contains_iff: "perm_contains p x \<longleftrightarrow> x \<in> set (concat p)"
  by (auto simp: perm_contains_def list_ex_iff permloop_contains_def)
    (metis std_find_notin, metis nless_le std_find_in)

lemma permloop_smallest_hd: "l \<noteq> [] \<Longrightarrow> permloop_smallest l = Inr (hd l)"
  by (simp add: permloop_smallest_def hd_conv_nth)

lemma check_neighbours_ok:
  "sorted_wrt (>) (map hd p) \<Longrightarrow> \<forall>l \<in> set p. l \<noteq> [] \<Longrightarrow> check_neighbours p = Inr ()"
  by (induction p rule: induct_list012) (auto simp: permloop_smallest_hd)

lemma perm_check_ok: "perm_inv D p \<Longrightarrow> perm_check D p = Inr ()"
proof -
  assume p: "perm_inv D p"
  then have "elems D \<noteq> {}" by (auto simp: perm_inv_def elems_def)
  then have "p \<noteq> []" using p by (auto simp: perm_inv_def canonical_def)
  moreover have "\<forall>l \<in> set p. l \<noteq> []" "sorted_wrt (>) (map hd p)" "set (concat p) = elems D"
    using p by (auto simp: perm_inv_def canonical_def normal_loop_def wf_loop_def)
  ultimately show ?thesis
    using p by (auto simp: perm_check_def list_ex_iff perm_contains_iff check_neighbours_ok
        perm_inv_def)
qed

lemma perm_equals_iff: "perm_equals p q \<longleftrightarrow> p = q"
proof -
  have "permloop_equals = (=)" by (simp add: permloop_equals_def fun_eq_iff)
  then show ?thesis by (auto simp: perm_equals_def list.rel_eq)
qed

lemma first_loop_less_irrefl: "\<not> first_loop_less p p"
  by (induction p) (auto simp: permloop_equals_def)

lemma first_loop_less_trans:
  "first_loop_less a b \<Longrightarrow> first_loop_less b c \<Longrightarrow> length a = length b \<Longrightarrow> length b = length c \<Longrightarrow>
     first_loop_less a c"
proof (induction a b arbitrary: c rule: first_loop_less.induct)
  case (1 a as b bs)
  obtain d cs where c: "c = d # cs" using 1(5) by (cases c) auto
  show ?case
    using 1 permloop_less_trans [of a b d] permloop_less_irrefl [of a]
      permloop_less_trans [of a d a] unfolding c
    by (auto simp: permloop_equals_def split: if_splits)
qed auto

lemma first_loop_less_total:
  "length a = length b \<Longrightarrow> a \<noteq> b \<Longrightarrow> first_loop_less a b \<or> first_loop_less b a"
  by (induction a b rule: first_loop_less.induct)
    (auto simp: permloop_equals_def dest: permloop_less_total)

lemma perm_less_irrefl: "\<not> perm_less p p"
  by (simp add: perm_less_def first_loop_less_irrefl)

lemma perm_less_trans: "perm_less p q \<Longrightarrow> perm_less q r \<Longrightarrow> perm_less p r"
  using first_loop_less_trans [of p q r] by (auto simp: perm_less_def split: if_splits)

lemma perm_less_total: "p \<noteq> q \<Longrightarrow> perm_less p q \<or> perm_less q p"
  using first_loop_less_total [of p q] by (auto simp: perm_less_def)

text \<open>On a canonical permutation the loops commute, so the in-order table pass is right.\<close>

lemma foldr_loops_disjoint:
  assumes "distinct (concat ls)"
  shows "foldr permloop_apply ls x = perm_apply ls x"
proof (cases "\<exists>l \<in> set ls. x \<in> set l")
  case True
  then obtain l where l: "l \<in> set ls" "x \<in> set l" by blast
  have "distinct (concat (rev ls))" using assms by (subst distinct_concat_cong [of _ ls]) auto
  then have "perm_apply (rev ls) x = permloop_apply l x"
    using l by (intro perm_apply_disjoint) auto
  then show ?thesis
    using perm_apply_disjoint [OF assms l] by (simp add: perm_apply_def foldr_conv_fold)
next
  case False
  then show ?thesis
    by (simp add: perm_apply_def foldr_conv_fold fold_loops_notin)
qed

section \<open>Properties\<close>

text \<open>
  C1. Constructing a permutation from any loops over a proper domain returns (no
  failing assertion, no undefined access, no divergence) a permutation in canonical form that
  passes the class's own check and acts as the loops one after the other, left to right.
\<close>

theorem perm_ctor_correct:
  assumes "\<forall>l \<in> set ls. wf_loop D l" "start D < fin D"
  shows "\<exists>p. perm_ctor D ls = Some (Inr p) \<and> canonical D p \<and> perm_check D p = Inr () \<and>
           (\<forall>x \<in> elems D. perm_apply p x = fold permloop_apply ls x)"
  using simplify_sort_ok [OF assms] perm_check_ok assms(2)
  by (auto simp: perm_ctor_def perm_inv_def)

theorem perm_ctor_correct_witness:
  "\<exists>p. perm_ctor \<lparr>start = 1, fin = 4\<rparr> [[1,3,2],[1,2,4],[1,4,3,2]] = Some (Inr p) \<and>
     canonical \<lparr>start = 1, fin = 4\<rparr> p \<and> perm_check \<lparr>start = 1, fin = 4\<rparr> p = Inr () \<and>
     (\<forall>x \<in> elems \<lparr>start = 1, fin = 4\<rparr>.
        perm_apply p x = fold permloop_apply [[1,3,2],[1,2,4],[1,4,3,2]] x)"
  by (rule perm_ctor_correct) (auto simp: wf_loop_def elems_def)

text \<open>
  C14. The canonical form is unique: on permutation values, \<^verbatim>\<open>operator==\<close> (a comparison of the
  stored loops) decides whether the two permutations map every element of the domain alike.
\<close>

theorem perm_equals_decides:
  assumes "perm_inv D p" "perm_inv D q"
  shows "perm_equals p q \<longleftrightarrow> (\<forall>x \<in> elems D. perm_apply p x = perm_apply q x)"
  using pg.faithful [OF assms] by (auto simp: perm_equals_iff)

lemma canonical_example:
  "perm_inv \<lparr>start = 1, fin = 4\<rparr> [[4],[1,2,3]]" "perm_inv \<lparr>start = 1, fin = 4\<rparr> [[4],[1,3,2]]"
proof -
  have e: "elems \<lparr>start = 1, fin = 4\<rparr> = {1,2,3,4}" by (auto simp: elems_def)
  show "perm_inv \<lparr>start = 1, fin = 4\<rparr> [[4],[1,2,3]]" "perm_inv \<lparr>start = 1, fin = 4\<rparr> [[4],[1,3,2]]"
    by (auto simp: perm_inv_def canonical_def normal_loop_def wf_loop_def e)
qed

theorem perm_equals_decides_witness:
  "perm_equals [[4],[1,2,3]] [[4],[1,3,2]] \<longleftrightarrow>
     (\<forall>x \<in> elems \<lparr>start = 1, fin = 4\<rparr>. perm_apply [[4],[1,2,3]] x = perm_apply [[4],[1,3,2]] x)"
  by (rule perm_equals_decides [OF canonical_example])

text \<open>
  C15. The values of \<^verbatim>\<open>Permutation<T>\<close> over a proper domain form a group under \<^verbatim>\<open>product\<close>,
  \<^verbatim>\<open>invert\<close> and the default constructor: products always return a valid permutation that
  applies the left operand first, they are associative, the default permutation is neutral
  and \<^verbatim>\<open>invert\<close> is a two-sided inverse, all as equalities of stored values.
\<close>

theorem permutation_group:
  assumes "perm_inv D p" "perm_inv D q" "perm_inv D r"
  shows "\<exists>pq qr s. product D p q = Some (Inr pq) \<and> product D q r = Some (Inr qr) \<and>
           perm_inv D pq \<and> (\<forall>x \<in> elems D. perm_apply pq x = perm_apply q (perm_apply p x)) \<and>
           product D pq r = Some (Inr s) \<and> product D p qr = Some (Inr s) \<and>
           product D (perm_default D) p = Some (Inr p) \<and>
           product D p (perm_default D) = Some (Inr p) \<and>
           perm_inv D (invert p) \<and>
           product D p (invert p) = Some (Inr (perm_default D)) \<and>
           product D (invert p) p = Some (Inr (perm_default D))"
proof -
  obtain pq where pq: "product D p q = Some (Inr pq)" using pg.mul_ok [OF assms(1,2)] by blast
  obtain qr where qr: "product D q r = Some (Inr qr)" using pg.mul_ok [OF assms(2,3)] by blast
  note a = pg.mul_act [OF assms(1,2) pq]
  obtain s where s: "product D pq r = Some (Inr s)" using pg.mul_ok [OF a(1) assms(3)] by blast
  have "product D p qr = Some (Inr s)" using pg.mul_assoc [OF assms pq qr] s by simp
  with pq qr s show ?thesis
    using assms a by (intro exI [of _ pq] exI [of _ qr] exI [of _ s])
      (simp add: pg.mul_one_left pg.mul_one_right pg.mul_inverse_left pg.mul_inverse_right
        pg.inverse_inv)
qed

theorem permutation_group_witness:
  "let D = \<lparr>start = 1, fin = 4\<rparr>; p = [[4],[1,2,3]]; q = [[4],[1,3,2]] in
   \<exists>pq qr s. product D p q = Some (Inr pq) \<and> product D q p = Some (Inr qr) \<and>
     perm_inv D pq \<and> (\<forall>x \<in> elems D. perm_apply pq x = perm_apply q (perm_apply p x)) \<and>
     product D pq p = Some (Inr s) \<and> product D p qr = Some (Inr s) \<and>
     product D (perm_default D) p = Some (Inr p) \<and>
     product D p (perm_default D) = Some (Inr p) \<and>
     perm_inv D (invert p) \<and>
     product D p (invert p) = Some (Inr (perm_default D)) \<and>
     product D (invert p) p = Some (Inr (perm_default D))"
  unfolding Let_def by (rule permutation_group [OF canonical_example canonical_example(1)])

text \<open>
  \<^verbatim>\<open>lmul\<close> multiplies on the other side: the result applies the argument first, then the
  old value, and is again a valid permutation.
\<close>

theorem perm_lmul_correct:
  assumes "perm_inv D p" "perm_inv D q"
  shows "\<exists>r. perm_lmul D p q = Some (Inr r) \<and> perm_inv D r \<and>
           (\<forall>x \<in> elems D. perm_apply r x = perm_apply p (perm_apply q x)) \<and>
           perm_lmul D p q = product D q p"
  using product_ok [OF assms(2,1)] by (auto simp: perm_lmul_def product_def perm_rmul_def)

theorem perm_lmul_correct_witness:
  "let D = \<lparr>start = 1, fin = 4\<rparr>; p = [[4],[1,2,3]]; q = [[4],[1,3,2]] in
   \<exists>r. perm_lmul D p q = Some (Inr r) \<and> perm_inv D r \<and>
     (\<forall>x \<in> elems D. perm_apply r x = perm_apply p (perm_apply q x)) \<and>
     perm_lmul D p q = product D q p"
  unfolding Let_def by (rule perm_lmul_correct [OF canonical_example])

text \<open>
  Applying a permutation to a table (all loops in their stored order, in place) gives at
  every element the old entry of that element's image, without any undefined access.
\<close>

theorem perm_apply_table_correct:
  assumes "perm_inv D p" "length tbl = idom_size D"
  shows "perm_apply_table D p tbl =
    Inr (map (\<lambda>x. tbl ! idx D (perm_apply p x)) (idom_iota D))"
  using assms apply_loops_table_ok [of p D tbl] canonical_wf [of D p] foldr_loops_disjoint [of p]
  by (simp add: perm_inv_def perm_apply_table_def canonical_def)

theorem perm_apply_table_correct_witness:
  "perm_apply_table \<lparr>start = 1, fin = 4\<rparr> [[4],[1,2,3]] [10,20,30,40] =
    Inr (map (\<lambda>x. [10,20,30,40] ! idx \<lparr>start = 1, fin = 4\<rparr> (perm_apply [[4],[1,2,3]] x))
      (idom_iota \<lparr>start = 1, fin = 4\<rparr>))"
  by (rule perm_apply_table_correct [OF canonical_example(1)]) (simp add: idom_size_def)

text \<open>
  C13. \<^verbatim>\<open>create_loops\<close> terminates on every permutation table and its loops determine the table:
  they are normalised, pairwise disjoint, cover the domain, come in ascending order of
  their smallest elements, and applying them gives the table back.
\<close>

theorem create_loops_roundtrip:
  assumes "perm_table D tbl"
  shows "\<exists>ls. create_loops D tbl = Some (Inr ls) \<and> (\<forall>l \<in> set ls. normal_loop D l) \<and>
           distinct (concat ls) \<and> set (concat ls) = elems D \<and> sorted_wrt (<) (map hd ls) \<and>
           map (perm_apply ls) (idom_iota D) = tbl"
proof -
  obtain ls where ls: "create_loops D tbl = Some (Inr ls)"
    "decomposes D (tbl_fun D tbl) (elems D) ls" "sorted_wrt (<) (map hd ls)"
    using create_loops_ok [OF assms] by blast
  have d: "distinct (concat ls)" "set (concat ls) = elems D" "\<forall>l \<in> set ls. normal_loop D l"
    "\<And>l x. l \<in> set ls \<Longrightarrow> x \<in> set l \<Longrightarrow> permloop_apply l x = tbl_fun D tbl x"
    using ls(2) by (auto simp: decomposes_def)
  have app: "perm_apply ls x = tbl_fun D tbl x" if "x \<in> elems D" for x
  proof -
    have "x \<in> set (concat ls)" using that d(2) by simp
    then obtain l where "l \<in> set ls" "x \<in> set l" by auto
    then show ?thesis using perm_apply_disjoint [OF d(1)] d(4) by simp
  qed
  have "map (perm_apply ls) (idom_iota D) = tbl"
    using assms by (intro nth_equalityI) (auto simp: perm_table_def app tbl_fun_def)
  then show ?thesis using ls d by blast
qed

theorem create_loops_roundtrip_witness:
  "\<exists>ls. create_loops \<lparr>start = 1, fin = 9\<rparr> [9,2,3,1,7,6,8,5,4] = Some (Inr ls) \<and>
     (\<forall>l \<in> set ls. normal_loop \<lparr>start = 1, fin = 9\<rparr> l) \<and>
     distinct (concat ls) \<and> set (concat ls) = elems \<lparr>start = 1, fin = 9\<rparr> \<and>
     sorted_wrt (<) (map hd ls) \<and>
     map (perm_apply ls) (idom_iota \<lparr>start = 1, fin = 9\<rparr>) = [9,2,3,1,7,6,8,5,4]"
  by (rule create_loops_roundtrip) (auto simp: perm_table_def idom_size_def elems_def)

text \<open>
  \<^verbatim>\<open>operator<\<close> on permutations, and on loops, is a strict total order, so both may be keys of
  ordered containers: irreflexive, transitive, and any two different values are comparable.
  Shorter values come first, which is not the lexicographical order the comment names.
\<close>

theorem perm_less_linear:
  "\<not> perm_less p p \<and>
   (perm_less p q \<and> perm_less q r \<longrightarrow> perm_less p r) \<and>
   (perm_less p q \<or> perm_equals p q \<or> perm_less q p) \<and>
   (length p < length q \<longrightarrow> perm_less p q) \<and>
   (permloop_less a b \<and> permloop_less b c \<longrightarrow> permloop_less a c) \<and>
   (permloop_less a b \<or> permloop_equals a b \<or> permloop_less b a)"
  unfolding perm_equals_iff permloop_equals_def
proof (intro conjI)
  show "length p < length q \<longrightarrow> perm_less p q" by (simp add: perm_less_def)
qed (use perm_less_irrefl perm_less_trans perm_less_total permloop_less_trans
  permloop_less_total in blast)+

theorem perm_less_linear_witness:
  "\<not> perm_less [[5::int]] [[5]] \<and> perm_less [[9]] [[1],[2]] \<and> permloop_less [9] [1,2]"
  using perm_less_linear [of "[[9]]" "[[1],[2]]" "[[1],[2]]" "[9]" "[1,2]" "[1,2]"]
    perm_less_linear [of "[[5]]"]
  by (simp add: permloop_less_def)

text \<open>
  C34. The class invariant of \<^verbatim>\<open>PermLoop\<close>: constructing from distinct elements, adding a new
  element and inverting all yield a loop that passes \<^verbatim>\<open>check\<close>; the inverse undoes
  \<^verbatim>\<open>apply\<close> in both directions.
\<close>

theorem permloop_invariant:
  assumes "wf_loop D l" "x \<in> elems D" "x \<notin> set l"
  shows "normal_loop D (permloop_ctor l) \<and> permloop_check (permloop_ctor l) = Inr () \<and>
         normal_loop D (permloop_add l x) \<and> permloop_check (permloop_add l x) = Inr () \<and>
         permloop_check (permloop_inverse (permloop_ctor l)) = Inr () \<and>
         permloop_apply (permloop_inverse l) (permloop_apply l y) = y \<and>
         permloop_apply l (permloop_apply (permloop_inverse l) y) = y"
proof -
  have n: "permloop_check k = Inr ()" if "normal_loop D k" for k
    using that by (auto simp: permloop_check_iff normal_loop_def wf_loop_def)
  have "normal_loop D (permloop_ctor l)" "normal_loop D (permloop_add l x)"
    using assms by (auto simp: permloop_ctor_def permloop_add_def intro!: reroll_normal)
      (auto simp: wf_loop_def)
  then show ?thesis
    using n permloop_inverse_normal wf_loopD(2) [OF assms(1)]
    by (simp add: permloop_inverse_left permloop_inverse_right)
qed

theorem permloop_invariant_witness:
  "normal_loop \<lparr>start = 1, fin = 5\<rparr> (permloop_ctor [4,2,1]) \<and>
   permloop_check (permloop_add [4,2,1] 3) = Inr () \<and>
   permloop_apply (permloop_inverse [4,2,1]) (permloop_apply [4,2,1] 2) = 2"
  using permloop_invariant [of "\<lparr>start = 1, fin = 5\<rparr>" "[4,2,1]" 3 2]
  by (simp add: wf_loop_def elems_def)

end
