(* ===== verification/Groups_Orbit.thy ===== *)
theory Groups_Orbit
  imports Perms "HOL-Library.Signed_Division"
begin

text \<open>
  Orbits: \<^verbatim>\<open>17-algorithms/permutations/groups.hpp\<close> (\<^verbatim>\<open>orbit\<close>, \<^verbatim>\<open>orbit_reps\<close>) and the \<^verbatim>\<open>Z7\<close>
  variant of \<^verbatim>\<open>16-containers/orbit.cc\<close>. An unordered container is the list of its elements in
  insertion order; the order in which a range-for visits it is the parameter \<open>ord\<close>, of
  which only the documented fact is used that it visits every element exactly once. The
  templates are parameterised over how a generator acts on an element, as the C++ code is.
\<close>

section \<open>Models\<close>

text \<open>\<^verbatim>\<open>unordered_set::insert\<close> of one element and of a range.\<close>

definition uset_insert :: "'a \<Rightarrow> 'a list \<Rightarrow> 'a list" where
  "uset_insert x s = (if x \<in> set s then s else s @ [x])"

text \<open>The two nested loops of \<^verbatim>\<open>orbit\<close>: elements outside, generators inside.\<close>

definition orbit_gens :: "('g \<Rightarrow> 'a \<Rightarrow> 'a) \<Rightarrow> 'g list \<Rightarrow> 'a list \<Rightarrow> 'a \<Rightarrow> 'a list \<Rightarrow> 'a list" where
  "orbit_gens act gens orb elem tmp =
     fold (\<lambda>igen tmp. let newelem = act igen elem in
             if newelem \<notin> set orb then uset_insert newelem tmp else tmp) gens tmp"

definition orbit_tmp :: "('g \<Rightarrow> 'a \<Rightarrow> 'a) \<Rightarrow> 'g list \<Rightarrow> 'a list \<Rightarrow> 'a list \<Rightarrow> 'a list" where
  "orbit_tmp act gens orb nxt = fold (orbit_gens act gens orb) nxt []"

partial_function (option) orbit_loop ::
  "('a list \<Rightarrow> 'a list) \<Rightarrow> ('g \<Rightarrow> 'a \<Rightarrow> 'a) \<Rightarrow> 'g list \<Rightarrow> 'a list \<Rightarrow> 'a list \<Rightarrow> 'a list option" where
  "orbit_loop ord act gens orb nxt =
     (if nxt = [] then Some orb
      else let orb' = fold uset_insert (ord nxt) orb in
           orbit_loop ord act gens orb' (orbit_tmp act gens orb' (ord nxt)))"

definition orbit :: "('a list \<Rightarrow> 'a list) \<Rightarrow> ('g \<Rightarrow> 'a \<Rightarrow> 'a) \<Rightarrow> 'a \<Rightarrow> 'g list \<Rightarrow> 'a list option" where
  "orbit ord act num gens = orbit_loop ord act gens [] [num]"

text \<open>
  \<^verbatim>\<open>orbit_reps\<close>: maps from elements to representatives, as association lists. \<^verbatim>\<open>insert\<close> and
  \<^verbatim>\<open>try_emplace\<close> keep an existing entry; the product is computed either way, and an error
  in it (or its divergence) is the error of the whole call.
\<close>

definition umap_emplace :: "'a \<Rightarrow> 'p \<Rightarrow> ('a \<times> 'p) list \<Rightarrow> ('a \<times> 'p) list" where
  "umap_emplace k v m = (if k \<in> fst ` set m then m else m @ [(k, v)])"

fun reps_gens :: "('p \<Rightarrow> 'a \<Rightarrow> 'a) \<Rightarrow> ('p \<Rightarrow> 'p \<Rightarrow> 'p res option) \<Rightarrow> ('a \<times> 'p) list \<Rightarrow>
    'a \<Rightarrow> 'p \<Rightarrow> 'p list \<Rightarrow> ('a \<times> 'p) list \<Rightarrow> ('a \<times> 'p) list res option" where
  "reps_gens act mul orb elem curgen [] tmp = Some (Inr tmp)"
| "reps_gens act mul orb elem curgen (igen # gens) tmp =
     (let newelem = act igen elem in
      if newelem \<notin> fst ` set orb then
        (case mul curgen igen of
           None \<Rightarrow> None
         | Some (Inl e) \<Rightarrow> Some (Inl e)
         | Some (Inr p) \<Rightarrow> reps_gens act mul orb elem curgen gens (umap_emplace newelem p tmp))
      else reps_gens act mul orb elem curgen gens tmp)"

fun reps_tmp :: "('p \<Rightarrow> 'a \<Rightarrow> 'a) \<Rightarrow> ('p \<Rightarrow> 'p \<Rightarrow> 'p res option) \<Rightarrow> 'p list \<Rightarrow> ('a \<times> 'p) list \<Rightarrow>
    ('a \<times> 'p) list \<Rightarrow> ('a \<times> 'p) list \<Rightarrow> ('a \<times> 'p) list res option" where
  "reps_tmp act mul gens orb [] tmp = Some (Inr tmp)"
| "reps_tmp act mul gens orb ((elem, curgen) # nxt) tmp =
     (case reps_gens act mul orb elem curgen gens tmp of
        None \<Rightarrow> None
      | Some (Inl e) \<Rightarrow> Some (Inl e)
      | Some (Inr tmp') \<Rightarrow> reps_tmp act mul gens orb nxt tmp')"

partial_function (option) reps_loop ::
  "(('a \<times> 'p) list \<Rightarrow> ('a \<times> 'p) list) \<Rightarrow> ('p \<Rightarrow> 'a \<Rightarrow> 'a) \<Rightarrow> ('p \<Rightarrow> 'p \<Rightarrow> 'p res option) \<Rightarrow>
   'p list \<Rightarrow> ('a \<times> 'p) list \<Rightarrow> ('a \<times> 'p) list \<Rightarrow> ('a \<times> 'p) list res option" where
  "reps_loop ord act mul gens orb nxt =
     (if nxt = [] then Some (Inr orb)
      else let orb' = fold (\<lambda>(k, v). umap_emplace k v) (ord nxt) orb in
           (case reps_tmp act mul gens orb' (ord nxt) [] of
              None \<Rightarrow> None
            | Some (Inl e) \<Rightarrow> Some (Inl e)
            | Some (Inr tmp) \<Rightarrow> reps_loop ord act mul gens orb' tmp))"

definition orbit_reps :: "((int \<times> int list list) list \<Rightarrow> (int \<times> int list list) list) \<Rightarrow>
    idom \<Rightarrow> int \<Rightarrow> int list list list \<Rightarrow> (int \<times> int list list) list res option" where
  "orbit_reps ord D num gens =
     reps_loop ord perm_apply (product D) gens [] [(num, perm_default D)]"

text \<open>
  \<^verbatim>\<open>16-containers/orbit.cc\<close>: \<^verbatim>\<open>next\<close> is a vector there, so an element may be queued
  several times; a generator multiplies. The trace printed on the way is the second component:
  one line (element, generator, new element) per queued element. Values stay far from the limits of
  \<^verbatim>\<open>int\<close>; the remainder is the truncating one.
\<close>

definition z7_mul :: "int \<Rightarrow> int \<Rightarrow> int" where
  "z7_mul lhs rhs = (lhs * rhs) smod 7"

definition orbit_vec_pairs :: "('g \<Rightarrow> 'a \<Rightarrow> 'a) \<Rightarrow> 'g list \<Rightarrow> 'a list \<Rightarrow> 'a list \<Rightarrow> ('a \<times> 'g \<times> 'a) list" where
  "orbit_vec_pairs mul gens orb nxt =
     concat (map (\<lambda>elem. concat (map (\<lambda>igen.
        let newelem = mul igen elem in
        if newelem \<notin> set orb then [(elem, igen, newelem)] else []) gens)) nxt)"

partial_function (option) orbit_vec_loop ::
  "('g \<Rightarrow> 'a \<Rightarrow> 'a) \<Rightarrow> 'g list \<Rightarrow> 'a list \<Rightarrow> 'a list \<Rightarrow> ('a \<times> 'g \<times> 'a) list \<Rightarrow>
   ('a list \<times> ('a \<times> 'g \<times> 'a) list) option" where
  "orbit_vec_loop mul gens orb nxt trace =
     (if nxt = [] then Some (orb, trace)
      else let orb' = fold uset_insert nxt orb; new = orbit_vec_pairs mul gens orb' nxt in
           orbit_vec_loop mul gens orb' (map (snd \<circ> snd) new) (trace @ new))"

definition orbit_vec :: "int \<Rightarrow> int list \<Rightarrow> (int list \<times> (int \<times> int \<times> int) list) option" where
  "orbit_vec num gens = orbit_vec_loop z7_mul gens [] [num] []"

declare orbit_loop.simps [code] reps_loop.simps [code] orbit_vec_loop.simps [code]

section \<open>What an orbit is\<close>

inductive reach :: "('g \<Rightarrow> 'a \<Rightarrow> 'a) \<Rightarrow> 'g list \<Rightarrow> 'a \<Rightarrow> 'a \<Rightarrow> bool"
  for act :: "'g \<Rightarrow> 'a \<Rightarrow> 'a" and gens :: "'g list" and num :: 'a where
  reach_start: "reach act gens num num"
| reach_step: "reach act gens num x \<Longrightarrow> g \<in> set gens \<Longrightarrow> reach act gens num (act g x)"

text \<open>The loop invariant: \<open>orb\<close> is explored, \<open>nxt\<close> is the frontier.\<close>

definition orbit_inv :: "('g \<Rightarrow> 'a \<Rightarrow> 'a) \<Rightarrow> 'g list \<Rightarrow> 'a \<Rightarrow> 'a set \<Rightarrow> 'a set \<Rightarrow> bool" where
  "orbit_inv act gens num orb nxt \<longleftrightarrow>
     num \<in> orb \<union> nxt \<and> orb \<union> nxt \<subseteq> Collect (reach act gens num) \<and> orb \<inter> nxt = {} \<and>
     (\<forall>x \<in> orb. \<forall>g \<in> set gens. act g x \<in> orb \<union> nxt)"

definition frontier :: "('g \<Rightarrow> 'a \<Rightarrow> 'a) \<Rightarrow> 'g list \<Rightarrow> 'a set \<Rightarrow> 'a set \<Rightarrow> 'a set" where
  "frontier act gens orb nxt = {act g x | g x. g \<in> set gens \<and> x \<in> nxt} - orb"

lemma frontier_insert:
  "frontier act gens orb (insert k A) = ((\<lambda>g. act g k) ` set gens - orb) \<union> frontier act gens orb A"
  unfolding frontier_def by blast

lemma orbit_inv_init: "orbit_inv act gens num {} {num}"
  by (simp add: orbit_inv_def reach_start)

lemma orbit_inv_step:
  assumes "orbit_inv act gens num orb nxt"
  shows "orbit_inv act gens num (orb \<union> nxt) (frontier act gens (orb \<union> nxt) nxt)"
  using assms by (auto simp: orbit_inv_def frontier_def intro: reach_step)

lemma orbit_inv_done:
  assumes "orbit_inv act gens num orb {}"
  shows "orb = Collect (reach act gens num)"
proof -
  have "x \<in> orb" if "reach act gens num x" for x
    using that by (induction rule: reach.induct) (use assms in \<open>auto simp: orbit_inv_def\<close>)
  then show ?thesis using assms by (auto simp: orbit_inv_def)
qed

section \<open>Containers\<close>

lemma set_fold_uset_insert: "set (fold uset_insert xs s) = set s \<union> set xs"
  by (induction xs arbitrary: s) (auto simp: uset_insert_def)

lemma distinct_fold_uset_insert: "distinct s \<Longrightarrow> distinct (fold uset_insert xs s)"
  by (induction xs arbitrary: s) (auto simp: uset_insert_def)

lemma set_orbit_gens:
  "set (orbit_gens act gens orb x tmp) = set tmp \<union> ((\<lambda>g. act g x) ` set gens - set orb)"
  unfolding orbit_gens_def
  by (induction gens arbitrary: tmp) (auto simp: uset_insert_def Let_def)

lemma set_orbit_tmp_aux:
  "set (fold (orbit_gens act gens orb) nxt tmp) = set tmp \<union> frontier act gens (set orb) (set nxt)"
  by (induction nxt arbitrary: tmp) (auto simp: set_orbit_gens frontier_def)

lemma set_orbit_tmp: "set (orbit_tmp act gens orb nxt) = frontier act gens (set orb) (set nxt)"
  by (simp add: orbit_tmp_def set_orbit_tmp_aux)

lemma in_orbit_vec_pairs:
  "t \<in> set (orbit_vec_pairs act gens orb nxt) \<longleftrightarrow>
     (\<exists>x \<in> set nxt. \<exists>g \<in> set gens. act g x \<notin> set orb \<and> t = (x, g, act g x))"
  by (simp add: orbit_vec_pairs_def Let_def) blast

lemma set_orbit_vec_pairs:
  "set (map (snd \<circ> snd) (orbit_vec_pairs act gens orb nxt)) =
     frontier act gens (set orb) (set nxt)"
  by (force simp: frontier_def in_orbit_vec_pairs image_iff)

text \<open>The visiting order of an unordered container: every element, exactly once.\<close>

definition visits :: "('a list \<Rightarrow> 'a list) \<Rightarrow> bool" where
  "visits ord \<longleftrightarrow> (\<forall>xs. mset (ord xs) = mset xs)"

lemma visits_set [simp]: "visits ord \<Longrightarrow> set (ord xs) = set xs"
  by (metis visits_def mset_eq_setD)

section \<open>Finite actions\<close>

text \<open>What \<^verbatim>\<open>orbit\<close> needs of a generator type: valid generators map a finite carrier to itself.\<close>

locale finite_action =
  fixes valid :: "'g \<Rightarrow> bool"
    and act :: "'g \<Rightarrow> 'a \<Rightarrow> 'a"
    and carrier :: "'a set"
  assumes finite_carrier: "finite carrier"
    and act_closed: "valid g \<Longrightarrow> x \<in> carrier \<Longrightarrow> act g x \<in> carrier"
begin

lemma reach_carrier:
  assumes "num \<in> carrier" "\<forall>g \<in> set gens. valid g"
  shows "Collect (reach act gens num) \<subseteq> carrier"
proof -
  have "x \<in> carrier" if "reach act gens num x" for x
    using that by (induction rule: reach.induct) (use assms act_closed in auto)
  then show ?thesis by blast
qed

lemma orbit_measure:
  assumes "num \<in> carrier" "\<forall>g \<in> set gens. valid g" "orbit_inv act gens num orb nxt" "nxt \<noteq> {}"
  shows "card carrier - card (orb \<union> nxt) < card carrier - card orb"
proof -
  have sub: "orb \<union> nxt \<subseteq> carrier"
    using reach_carrier [OF assms(1,2)] assms(3) unfolding orbit_inv_def by blast
  have "orb \<subset> orb \<union> nxt" using assms(3,4) by (auto simp: orbit_inv_def)
  then have "card orb < card (orb \<union> nxt)"
    using sub finite_carrier by (intro psubset_card_mono) (auto intro: finite_subset)
  moreover have "card (orb \<union> nxt) \<le> card carrier" using sub finite_carrier by (rule card_mono [rotated])
  ultimately show ?thesis by simp
qed

lemma orbit_loop_ok:
  assumes "visits ord" "num \<in> carrier" "\<forall>g \<in> set gens. valid g"
    and "orbit_inv act gens num (set orb) (set nxt)" "distinct orb"
  shows "\<exists>res. orbit_loop ord act gens orb nxt = Some res \<and> distinct res \<and>
           set res = Collect (reach act gens num)"
  using assms(4,5)
proof (induction "card carrier - card (set orb)" arbitrary: orb nxt rule: less_induct)
  case less
  show ?case
  proof (cases "nxt = []")
    case True
    then show ?thesis
      using less.prems orbit_inv_done [of act gens num "set orb"] by (auto simp: orbit_loop.simps)
  next
    case False
    let ?orb = "fold uset_insert (ord nxt) orb"
    have o: "set ?orb = set orb \<union> set nxt" using assms(1) by (simp add: set_fold_uset_insert)
    have dec: "card carrier - card (set ?orb) < card carrier - card (set orb)"
      using orbit_measure [OF assms(2,3) less.prems(1)] False by (simp add: o)
    have inv: "orbit_inv act gens num (set ?orb) (set (orbit_tmp act gens ?orb (ord nxt)))"
      using orbit_inv_step [OF less.prems(1)] assms(1) by (simp add: set_orbit_tmp o)
    show ?thesis
      using less.hyps [OF dec inv distinct_fold_uset_insert [OF less.prems(2)]] False
      by (simp add: orbit_loop.simps [of ord act gens orb nxt] Let_def)
  qed
qed

lemma orbit_ok:
  assumes "visits ord" "num \<in> carrier" "\<forall>g \<in> set gens. valid g"
  shows "\<exists>res. orbit ord act num gens = Some res \<and> distinct res \<and>
           set res = Collect (reach act gens num)"
  unfolding orbit_def using assms orbit_inv_init [of act gens num]
  by (intro orbit_loop_ok [where num = num]) auto

lemma orbit_vec_loop_ok:
  assumes "num \<in> carrier" "\<forall>g \<in> set gens. valid g"
    and "orbit_inv act gens num (set orb) (set nxt)" "distinct orb"
  shows "\<exists>res tr. orbit_vec_loop act gens orb nxt trace = Some (res, tr) \<and> distinct res \<and>
           set res = Collect (reach act gens num)"
  using assms(3,4)
proof (induction "card carrier - card (set orb)" arbitrary: orb nxt trace rule: less_induct)
  case less
  show ?case
  proof (cases "nxt = []")
    case True
    then show ?thesis
      using less.prems orbit_inv_done [of act gens num "set orb"] by (auto simp: orbit_vec_loop.simps)
  next
    case False
    let ?orb = "fold uset_insert nxt orb"
    let ?new = "orbit_vec_pairs act gens ?orb nxt"
    have o: "set ?orb = set orb \<union> set nxt" by (simp add: set_fold_uset_insert)
    have dec: "card carrier - card (set ?orb) < card carrier - card (set orb)"
      using orbit_measure [OF assms(1,2) less.prems(1)] False by (simp add: o)
    have inv: "orbit_inv act gens num (set ?orb) (set (map (snd \<circ> snd) ?new))"
      unfolding set_orbit_vec_pairs o by (rule orbit_inv_step [OF less.prems(1)])
    show ?thesis
      using less.hyps [OF dec inv distinct_fold_uset_insert [OF less.prems(2)]] False
      by (simp add: orbit_vec_loop.simps [of act gens orb nxt] Let_def)
  qed
qed

end

interpretation pa: finite_action "perm_inv D" perm_apply "elems D" for D
  by unfold_locales (auto intro: pg.act_in)

text \<open>Multiplication modulo 7 acts on the residues.\<close>

lemma z7_mul_mod: "0 \<le> a \<Longrightarrow> 0 \<le> b \<Longrightarrow> z7_mul a b = (a * b) mod 7"
  by (cases "a * b = 0") (auto simp: z7_mul_def signed_modulo_int_def sgn_if zero_less_mult_iff)

interpretation z7: finite_action "\<lambda>g. 0 \<le> g \<and> g < 7" z7_mul "{0 ..< 7}"
  by unfold_locales (auto simp: z7_mul_mod)

section \<open>Orbits with representatives\<close>

definition reps_good :: "('p \<Rightarrow> bool) \<Rightarrow> ('p \<Rightarrow> 'a \<Rightarrow> 'a) \<Rightarrow> 'a \<Rightarrow> ('a \<times> 'p) list \<Rightarrow> bool" where
  "reps_good valid act num m \<longleftrightarrow> distinct (map fst m) \<and> (\<forall>(k, p) \<in> set m. valid p \<and> act p num = k)"

lemma reps_good_emplace:
  "reps_good valid act num m \<Longrightarrow> valid p \<Longrightarrow> act p num = k \<Longrightarrow> reps_good valid act num (umap_emplace k p m)"
  by (auto simp: reps_good_def umap_emplace_def)

lemma keys_umap_emplace [simp]: "fst ` set (umap_emplace k p m) = insert k (fst ` set m)"
  by (auto simp: umap_emplace_def)

lemma keys_fold_emplace:
  "fst ` set (fold (\<lambda>(k, v). umap_emplace k v) xs m) = fst ` set m \<union> fst ` set xs"
  by (induction xs arbitrary: m) (simp_all add: case_prod_beta)

lemma reps_good_fold:
  assumes "reps_good valid act num m" "\<forall>x \<in> set xs. valid (snd x) \<and> act (snd x) num = fst x"
  shows "reps_good valid act num (fold (\<lambda>(k, v). umap_emplace k v) xs m)"
  using assms
proof (induction xs arbitrary: m)
  case (Cons x xs)
  have "reps_good valid act num (umap_emplace (fst x) (snd x) m)"
    using Cons.prems by (intro reps_good_emplace) auto
  then show ?case using Cons by (simp add: case_prod_beta)
qed simp

lemma reps_good_visits:
  assumes "visits ord" "reps_good valid act num m"
  shows "reps_good valid act num (ord m)"
proof -
  have "mset (map fst (ord m)) = mset (map fst m)" using assms(1) by (simp add: visits_def)
  then have "distinct (map fst (ord m)) = distinct (map fst m)" by (rule mset_eq_imp_distinct_iff)
  then show ?thesis using assms by (simp add: reps_good_def)
qed

locale finite_faithful_action = faithful_action +
  assumes finite_domain: "finite carrier"

sublocale finite_faithful_action \<subseteq> finite_action inv act carrier
  by unfold_locales (auto simp: finite_domain act_in)

context finite_faithful_action
begin

lemma reps_gens_ok:
  assumes "num \<in> carrier" "inv curgen" "act curgen num = elem" "\<forall>g \<in> set gens. inv g"
    and "reps_good inv act num tmp"
  shows "\<exists>tmp'. reps_gens act mul orb elem curgen gens tmp = Some (Inr tmp') \<and>
           reps_good inv act num tmp' \<and>
           fst ` set tmp' = fst ` set tmp \<union> ((\<lambda>g. act g elem) ` set gens - fst ` set orb)"
  using assms(4,5)
proof (induction gens arbitrary: tmp)
  case (Cons g gens)
  obtain p where p: "mul curgen g = Some (Inr p)" using mul_ok assms(2) Cons.prems by fastforce
  have pa: "inv p" "act p num = act g elem"
    using mul_act [OF assms(2) _ p] assms(1,3) Cons.prems by auto
  have good: "reps_good inv act num (umap_emplace (act g elem) p tmp)"
    using reps_good_emplace [OF Cons.prems(2) pa(1)] pa(2) by blast
  show ?case
  proof (cases "act g elem \<in> fst ` set orb")
    case True
    then show ?thesis using Cons.IH [of tmp] Cons.prems by auto
  next
    case False
    then show ?thesis using Cons.IH [OF _ good] Cons.prems p by auto
  qed
qed simp

lemma reps_tmp_ok:
  assumes "num \<in> carrier" "\<forall>g \<in> set gens. inv g" "\<forall>(k, p) \<in> set nxt. inv p \<and> act p num = k"
    and "reps_good inv act num tmp"
  shows "\<exists>tmp'. reps_tmp act mul gens orb nxt tmp = Some (Inr tmp') \<and> reps_good inv act num tmp' \<and>
           fst ` set tmp' = fst ` set tmp \<union> frontier act gens (fst ` set orb) (fst ` set nxt)"
  using assms(3,4)
proof (induction nxt arbitrary: tmp)
  case Nil
  then show ?case by (simp add: frontier_def)
next
  case (Cons kp nxt)
  obtain k p where kp: "kp = (k, p)" by (cases kp)
  obtain t where t: "reps_gens act mul orb k p gens tmp = Some (Inr t)" "reps_good inv act num t"
    "fst ` set t = fst ` set tmp \<union> ((\<lambda>g. act g k) ` set gens - fst ` set orb)"
    using reps_gens_ok [OF assms(1) _ _ assms(2), of p k tmp orb] Cons.prems kp by auto
  obtain t' where t': "reps_tmp act mul gens orb nxt t = Some (Inr t')" "reps_good inv act num t'"
    "fst ` set t' = fst ` set t \<union> frontier act gens (fst ` set orb) (fst ` set nxt)"
    using Cons.IH [OF _ t(2)] Cons.prems by auto
  have "frontier act gens (fst ` set orb) (fst ` set (kp # nxt)) =
      ((\<lambda>g. act g k) ` set gens - fst ` set orb) \<union> frontier act gens (fst ` set orb) (fst ` set nxt)"
    by (simp add: kp frontier_insert)
  then show ?case using t t' kp by auto
qed

lemma reps_loop_ok:
  assumes "visits ord" "num \<in> carrier" "\<forall>g \<in> set gens. inv g"
    and "orbit_inv act gens num (fst ` set orb) (fst ` set nxt)"
    and "reps_good inv act num orb" "reps_good inv act num nxt"
  shows "\<exists>res. reps_loop ord act mul gens orb nxt = Some (Inr res) \<and> reps_good inv act num res \<and>
           fst ` set res = Collect (reach act gens num)"
  using assms(4,5,6)
proof (induction "card carrier - card (fst ` set orb)" arbitrary: orb nxt rule: less_induct)
  case less
  show ?case
  proof (cases "nxt = []")
    case True
    then show ?thesis
      using less.prems orbit_inv_done [of act gens num "fst ` set orb"] by (auto simp: reps_loop.simps)
  next
    case False
    let ?orb = "fold (\<lambda>(k, v). umap_emplace k v) (ord nxt) orb"
    have gn: "reps_good inv act num (ord nxt)" using reps_good_visits [OF assms(1) less.prems(3)] .
    have go: "fst ` set ?orb = fst ` set orb \<union> fst ` set nxt"
      unfolding keys_fold_emplace using assms(1) by simp
    have gr: "reps_good inv act num ?orb"
      by (rule reps_good_fold [OF less.prems(2)]) (use gn in \<open>auto simp: reps_good_def\<close>)
    obtain t where t: "reps_tmp act mul gens ?orb (ord nxt) [] = Some (Inr t)"
      "reps_good inv act num t" "fst ` set t = frontier act gens (fst ` set ?orb) (fst ` set nxt)"
      using reps_tmp_ok [OF assms(2,3), of "ord nxt" "[]" ?orb] gn assms(1)
      by (auto simp: reps_good_def)
    have dec: "card carrier - card (fst ` set ?orb) < card carrier - card (fst ` set orb)"
      using orbit_measure [OF assms(2,3) less.prems(1)] False by (simp add: go)
    have inv: "orbit_inv act gens num (fst ` set ?orb) (fst ` set t)"
      unfolding t(3) go by (rule orbit_inv_step [OF less.prems(1)])
    show ?thesis
      using less.hyps [OF dec inv gr t(2)] False t(1)
      by (simp add: reps_loop.simps [of ord act mul gens orb nxt] Let_def)
  qed
qed

lemma reps_init_ok:
  assumes "visits ord" "num \<in> carrier" "\<forall>g \<in> set gens. inv g" "inv one"
  shows "\<exists>res. reps_loop ord act mul gens [] [(num, one)] = Some (Inr res) \<and>
           reps_good inv act num res \<and> fst ` set res = Collect (reach act gens num)"
  using assms orbit_inv_init [of act gens num]
  by (intro reps_loop_ok) (auto simp: reps_good_def one_act)

end

interpretation pf: finite_faithful_action "perm_inv D" perm_apply "elems D" "perm_default D"
  "product D" invert for D
  by unfold_locales simp

section \<open>Properties\<close>

text \<open>
  C6. \<^verbatim>\<open>orbit\<close> over permutations: for valid generators and any visiting order of the
  unordered sets the function returns, without duplicates, exactly the elements reachable
  from \<open>num\<close> by generators.
\<close>

theorem orbit_correct:
  assumes "visits ord" "num \<in> elems D" "\<forall>g \<in> set gens. perm_inv D g"
  shows "\<exists>res. orbit ord perm_apply num gens = Some res \<and> distinct res \<and>
           set res = {x. reach perm_apply gens num x}"
  by (rule pa.orbit_ok [OF assms])

theorem orbit_correct_witness:
  "\<exists>res. orbit rev perm_apply 3 [[[4],[1,2,3]],[[4],[1,3,2]]] = Some res \<and> distinct res \<and>
     set res = {x. reach perm_apply [[[4],[1,2,3]],[[4],[1,3,2]]] 3 x}"
  by (rule orbit_correct [where D = "\<lparr>start = 1, fin = 4\<rparr>"])
    (use canonical_example in \<open>auto simp: visits_def elems_def\<close>)

text \<open>
  C16. \<^verbatim>\<open>orbit_reps\<close>: for any visiting order of the unordered maps the function returns a map
  whose keys are exactly the orbit, each once, and whose value at a key is a valid permutation
  that sends \<open>num\<close> to that key.
\<close>

theorem orbit_reps_correct:
  assumes "visits ord" "num \<in> elems D" "start D < fin D" "\<forall>g \<in> set gens. perm_inv D g"
  shows "\<exists>m. orbit_reps ord D num gens = Some (Inr m) \<and> distinct (map fst m) \<and>
           fst ` set m = {x. reach perm_apply gens num x} \<and>
           (\<forall>(k, p) \<in> set m. perm_inv D p \<and> perm_apply p num = k)"
proof -
  have "perm_inv D (perm_default D)" using assms(3) by (simp add: perm_inv_def perm_default_ok)
  from pf.reps_init_ok [OF assms(1,2,4) this] show ?thesis
    by (auto simp: orbit_reps_def reps_good_def)
qed

theorem orbit_reps_correct_witness:
  "\<exists>m. orbit_reps rev \<lparr>start = 1, fin = 4\<rparr> 3 [[[4],[1,2,3]],[[4],[1,3,2]]] = Some (Inr m) \<and>
     distinct (map fst m) \<and>
     fst ` set m = {x. reach perm_apply [[[4],[1,2,3]],[[4],[1,3,2]]] 3 x} \<and>
     (\<forall>(k, p) \<in> set m. perm_inv \<lparr>start = 1, fin = 4\<rparr> p \<and> perm_apply p 3 = k)"
  by (rule orbit_reps_correct)
    (use canonical_example in \<open>auto simp: visits_def elems_def\<close>)

text \<open>
  The \<^verbatim>\<open>Z7\<close> version with its queue of possibly repeated elements also ends, with the
  set of residues reachable by multiplication.
\<close>

theorem orbit_vec_correct:
  assumes "0 \<le> num" "num < 7" "\<forall>g \<in> set gens. 0 \<le> g \<and> g < 7"
  shows "\<exists>res tr. orbit_vec num gens = Some (res, tr) \<and> distinct res \<and>
           set res = {x. reach (\<lambda>g x. (g * x) mod 7) gens num x}"
proof -
  have rr: "reach z7_mul gens num x \<longleftrightarrow> reach (\<lambda>g x. (g * x) mod 7) gens num x" for x
  proof
    have in7: "0 \<le> x" if "reach z7_mul gens num x" for x
      using z7.reach_carrier [of num gens] that assms by auto
    show "reach (\<lambda>g x. (g * x) mod 7) gens num x" if "reach z7_mul gens num x"
      using that
    proof (induction rule: reach.induct)
      case (reach_step x g)
      then show ?case
        using in7 [OF reach_step(1)] assms(3) reach.reach_step [OF reach_step(3,2)]
        by (simp add: z7_mul_mod)
    qed (rule reach_start)
    show "reach z7_mul gens num x" if "reach (\<lambda>g x. (g * x) mod 7) gens num x"
      using that
    proof (induction rule: reach.induct)
      case (reach_step x g)
      then show ?case
        using in7 [OF reach_step(3)] assms(3) reach.reach_step [OF reach_step(3,2)]
        by (simp add: z7_mul_mod)
    qed (rule reach_start)
  qed
  have "\<exists>res tr. orbit_vec_loop z7_mul gens [] [num] [] = Some (res, tr) \<and> distinct res \<and>
      set res = Collect (reach z7_mul gens num)"
    using assms orbit_inv_init [of z7_mul gens num] by (intro z7.orbit_vec_loop_ok) auto
  moreover have "Collect (reach z7_mul gens num) = {x. reach (\<lambda>g x. (g * x) mod 7) gens num x}"
    using rr by blast
  ultimately show ?thesis by (simp add: orbit_vec_def)
qed

theorem orbit_vec_correct_witness:
  "\<exists>res tr. orbit_vec 2 [3, 5] = Some (res, tr) \<and> distinct res \<and>
     set res = {x. reach (\<lambda>g x. (g * x) mod 7) [3, 5] 2 x}"
  by (rule orbit_vec_correct) auto

end
