(* ===== verification/Perm_Tests.thy ===== *)
theory Perm_Tests
  imports Groups_Orbit
begin

text \<open>
  \<^verbatim>\<open>17-algorithms/permutations/permtests.cc\<close>: the demonstration program, with the text each
  of its functions writes to the standard output as the result. The two group tests print unordered
  containers, whose visiting order is the parameter \<open>ord\<close>.
\<close>

section \<open>Models\<close>

text \<open>\<^verbatim>\<open>std::copy\<close> to an \<^verbatim>\<open>ostream_iterator\<close> with a blank as separator.\<close>

definition show_seq :: "int list \<Rightarrow> string" where
  "show_seq xs = concat (map (\<lambda>x. idom_dump Unsigned_type x @ '' '') xs)"

definition UD4 :: idom where
  "UD4 = \<lparr>start = 1, fin = 4\<rparr>"

definition UD9 :: idom where
  "UD9 = \<lparr>start = 1, fin = 9\<rparr>"

definition test_permloop :: "string res" where
  "test_permloop =
     (let init = idom_iota UD4; pl = permloop_ctor [4, 2, 1, 3];
          pl42 = permloop_ctor [4, 2]; pl13 = permloop_ctor [1, 3] in
      bindE (permloop_apply_table UD4 pl init) (\<lambda>init1.
      bindE (permloop_apply_table UD4 pl42 (idom_iota UD4)) (\<lambda>init2.
      bindE (permloop_apply_table UD4 pl13 init2) (\<lambda>init3.
        Inr (''Initial sequence:'' @ endl @ show_seq init @ endl @
             permloop_dump pl @ '' applied: '' @ endl @ show_seq init1 @ endl @
             ''(4, 2) * (1, 3) applied: '' @ endl @ show_seq init3 @ endl)))))"

definition test_simple_perm :: "string res option" where
  "test_simple_perm =
     bindO (create_loops UD9 [9, 2, 3, 1, 7, 6, 8, 5, 4]) (\<lambda>permloops.
     bindO (perm_ctor UD9 permloops) (\<lambda>p.
       Some (Inr (''[9, 2, 3, 1, 7, 6, 8, 5, 4] simplified to: '' @ perm_dump p @ endl))))"

definition test_perm_mult :: "string res option" where
  "test_perm_mult =
     bindO (perm_ctor UD4 (map permloop_ctor [[1, 3, 2], [1, 2, 4], [1, 4, 3, 2]])) (\<lambda>p.
       Some (Inr (''(1 3 2)(1 2 4)(1 4 3 2) simplified to: '' @ perm_dump p @ endl)))"

text \<open>The generators of the two group tests: the cyclic permutation and the transposition (1, 2).\<close>

definition SGens :: "permutation list res option" where
  "SGens =
     bindO (perm_ctor UD4 [permloop_ctor (idom_iota UD4)]) (\<lambda>cyclic.
     bindO (perm_ctor UD4 [permloop_ctor [1, 2]]) (\<lambda>swap. Some (Inr [cyclic, swap])))"

definition test_simple_group :: "(int list \<Rightarrow> int list) \<Rightarrow> string res option" where
  "test_simple_group ord =
     bindO SGens (\<lambda>gens.
     case orbit ord perm_apply 3 gens of
       None \<Rightarrow> None
     | Some orb \<Rightarrow> Some (Inr (''Orbit of element 3: '' @ show_seq (ord orb) @ endl)))"

definition test_reps_group ::
  "((int \<times> permutation) list \<Rightarrow> (int \<times> permutation) list) \<Rightarrow> string res option" where
  "test_reps_group ord =
     bindO SGens (\<lambda>gens.
     bindO (orbit_reps ord UD4 3 gens) (\<lambda>orb.
       Some (Inr (''Orbit of element 3 with representatives: '' @ endl @
         concat (map (\<lambda>(k, p). idom_dump Unsigned_type k @ '': '' @ perm_dump p @ endl) (ord orb))))))"

section \<open>Properties\<close>

lemma SGens_value: "SGens = Some (Inr [[[1, 2, 3, 4]], [[4], [3], [1, 2]]])"
  by code_simp

lemma SGens_inv: "\<forall>g \<in> set [[[1, 2, 3, 4]], [[4], [3], [1, 2]]]. perm_inv UD4 g"
proof -
  have e: "elems UD4 = {1,2,3,4}" by (auto simp: elems_def UD4_def)
  show ?thesis
    by (auto simp: perm_inv_def canonical_def normal_loop_def wf_loop_def e) (simp_all add: UD4_def)
qed

text \<open>
  What the three deterministic functions of the demonstration print: the rerolled loop and its
  effect on the identity table, the cycle decomposition of a table, and the simplified product of
  three loops, in the canonical form.
\<close>

theorem permtests_output:
  "test_permloop = Inr (''Initial sequence:'' @ endl @ ''1 2 3 4 '' @ endl @
     ''(1 3 4 2) applied: '' @ endl @ ''3 1 4 2 '' @ endl @
     ''(4, 2) * (1, 3) applied: '' @ endl @ ''3 4 1 2 '' @ endl) \<and>
   test_simple_perm =
     Some (Inr (''[9, 2, 3, 1, 7, 6, 8, 5, 4] simplified to: (6)(5 7 8)(3)(2)(1 9 4)'' @ endl)) \<and>
   test_perm_mult = Some (Inr (''(1 3 2)(1 2 4)(1 4 3 2) simplified to: (4)(3)(1 2)'' @ endl))"
  by (intro conjI; code_simp)

lemma cyclic_apply: "x \<in> {1, 2, 3} \<Longrightarrow> perm_apply [[1, 2, 3, 4]] x = x + 1" "perm_apply [[1, 2, 3, 4]] 4 = 1"
  by (auto simp: perm_apply_def permloop_apply_def)

lemma cyclic_reach:
  assumes "num \<in> {1..4}" "x \<in> {1..4}" "[[1, 2, 3, 4]] \<in> set gens"
  shows "reach perm_apply gens num x"
proof -
  have step: "reach perm_apply gens num (y + 1)" if "reach perm_apply gens num y" "y \<in> {1, 2, 3}" for y
    using reach_step [OF that(1) assms(3)] that(2) by (simp add: cyclic_apply)
  have up: "reach perm_apply gens num (y + int k)" if "reach perm_apply gens num y" "1 \<le> y" "y + int k \<le> 4" for y k
    using that
  proof (induction k)
    case (Suc k)
    then have "reach perm_apply gens num (y + int k)" "y + int k \<in> {1, 2, 3}" by auto
    from step [OF this] show ?case by (simp add: algebra_simps)
  qed simp
  have "reach perm_apply gens num 4"
    using up [OF reach_start, of "nat (4 - num)"] assms(1) by simp
  from reach_step [OF this assms(3)] have "reach perm_apply gens num 1" by (simp add: cyclic_apply)
  from up [OF this, of "nat (x - 1)"] show ?thesis using assms(2) by simp
qed

text \<open>
  The comment of the group test holds: with the cyclic permutation and (1, 2) as generators,
  the orbit of every element, in whatever order the sets are visited, is the whole domain.
\<close>

theorem simple_group_orbit_full:
  assumes "visits ord" "num \<in> elems UD4"
  shows "\<exists>gens res. SGens = Some (Inr gens) \<and> orbit ord perm_apply num gens = Some res \<and>
           distinct res \<and> set res = elems UD4"
proof -
  let ?gens = "[[[1, 2, 3, 4]], [[4], [3], [1, 2]]]"
  obtain res where res: "orbit ord perm_apply num ?gens = Some res" "distinct res"
    "set res = {x. reach perm_apply ?gens num x}"
    using pa.orbit_ok [OF assms SGens_inv] by auto
  have "set res = elems UD4"
    using cyclic_reach [of num _ ?gens] assms(2) pa.reach_carrier [OF assms(2) SGens_inv] res(3)
    by (auto simp: elems_def UD4_def)
  then show ?thesis using res SGens_value by blast
qed

theorem simple_group_orbit_full_witness:
  "\<exists>gens res. SGens = Some (Inr gens) \<and> orbit rev perm_apply 3 gens = Some res \<and>
     distinct res \<and> set res = elems UD4"
  by (rule simple_group_orbit_full) (auto simp: visits_def elems_def UD4_def)

end
