(* ===== verification/Permloops_Ce.thy ===== *)
theory Permloops_Ce
  imports Perm_Tests
begin

text \<open>
  \<^verbatim>\<open>18-constexpr/permutations\<close>: the compile-time version of the loops, over
  \<^verbatim>\<open>std::array<T, N>\<close>. The number \<open>N\<close> is an argument of the constructor, \<open>checks\<close> says whether
  the translation unit is built with \<^verbatim>\<open>CHECKS\<close>. The members \<^verbatim>\<open>add\<close> and the range constructor are
  disabled in the source, so \<^verbatim>\<open>create_loops\<close> and \<^verbatim>\<open>simplify_loops\<close> of this header cannot be
  instantiated and have no model. The theorems relate this version to the run-time class.
\<close>

section \<open>Models\<close>

text \<open>\<^verbatim>\<open>make_array\<close>: exactly \<open>N\<close> elements of the list are read.\<close>

fun make_array_impl :: "'a list \<Rightarrow> nat list \<Rightarrow> 'a list res" where
  "make_array_impl t [] = Inr []"
| "make_array_impl t (n # ns) =
     bindE (vec_get t n) (\<lambda>x. bindE (make_array_impl t ns) (\<lambda>xs. Inr (x # xs)))"

definition make_array :: "nat \<Rightarrow> 'a list \<Rightarrow> 'a list res" where
  "make_array N t = make_array_impl t [0 ..< N]"

definition ce_reroll :: "int list \<Rightarrow> int list" where
  "ce_reroll l = std_rotate (std_min_element l) l"

definition ce_check :: "bool \<Rightarrow> int list \<Rightarrow> unit res" where
  "ce_check checks l =
     (if l = [] then Inl (Runtime_error ''PermLoop shall be non-empty'')
      else if checks \<and> card (set l) \<noteq> length l
        then Inl (Runtime_error ''PermLoop elements shall be unique'')
      else if checks \<and> l ! std_min_element l \<noteq> l ! 0
        then Inl (Runtime_error ''Unnormalized state detected'')
      else Inr ())"

definition ce_ctor :: "bool \<Rightarrow> nat \<Rightarrow> int list \<Rightarrow> int list res" where
  "ce_ctor checks N ls =
     bindE (make_array N ls) (\<lambda>a.
     bindE (ce_check checks (ce_reroll a)) (\<lambda>_. Inr (ce_reroll a)))"

definition ce_inverse :: "bool \<Rightarrow> int list \<Rightarrow> int list res" where
  "ce_inverse checks l =
     (if length l < 3 then Inr l
      else let l' = hd l # rev (tl l) in bindE (ce_check checks l') (\<lambda>_. Inr l'))"

definition ce_apply :: "int list \<Rightarrow> int \<Rightarrow> int" where
  "ce_apply l x =
     (let it = std_find x l in
      if it = length l then x
      else let nxt = Suc it in if nxt = length l then l ! 0 else l ! nxt)"

text \<open>The table version has only the compile-time assertion left.\<close>

definition ce_apply_table :: "idom \<Rightarrow> int list \<Rightarrow> int list \<Rightarrow> int list res" where
  "ce_apply_table D loop tbl =
     bindE (assertE (start D < fin D)) (\<lambda>_.
     bindE (vec_get loop 0) (\<lambda>front.
     bindE (vec_get tbl (idx D front)) (\<lambda>tmp.
     bindE (table_cycle D front loop (idx D front) tbl) (\<lambda>(nxt, tbl').
     vec_set tbl' nxt tmp))))"

definition ce_less :: "int list \<Rightarrow> int list \<Rightarrow> bool" where
  "ce_less l r \<longleftrightarrow>
     (if length l \<noteq> length r then length l < length r else first_diff_less l r)"

text \<open>The defaulted \<^verbatim>\<open>operator<=>\<close> compares the arrays lexicographically; -1, 0, 1 for less, equal, greater.\<close>

fun ce_spaceship :: "int list \<Rightarrow> int list \<Rightarrow> int" where
  "ce_spaceship [] [] = 0"
| "ce_spaceship [] (_ # _) = - 1"
| "ce_spaceship (_ # _) [] = 1"
| "ce_spaceship (a # as) (b # bs) =
     (if a < b then - 1 else if b < a then 1 else ce_spaceship as bs)"

definition ce_dump :: "int list \<Rightarrow> string" where
  "ce_dump l =
     concat (map (\<lambda>t. (if t = hd l then ''('' else '''') @ string_of_int t @
                      (if t = last l then '')'' else '' '')) l)"

text \<open>\<^verbatim>\<open>permtests.cc\<close> of this directory.\<close>

definition test_permloop_apply :: "int list res" where
  "test_permloop_apply =
     bindE (ce_ctor False 4 [4, 2, 1, 3]) (\<lambda>PL. ce_apply_table UD4 PL (idom_iota UD4))"

section \<open>Lemmas\<close>

lemma make_array_impl_ok:
  "\<forall>n \<in> set ns. n < length t \<Longrightarrow> make_array_impl t ns = Inr (map ((!) t) ns)"
  by (induction ns) auto

lemma make_array_ok: "N \<le> length t \<Longrightarrow> make_array N t = Inr (take N t)"
  by (auto simp: make_array_def make_array_impl_ok intro!: nth_equalityI)

lemma make_array_impl_short:
  "\<exists>n \<in> set ns. length t \<le> n \<Longrightarrow> make_array_impl t ns = Inl Undefined_behaviour"
proof (induction ns)
  case (Cons n ns)
  show ?case
  proof (cases "n < length t")
    case True
    then show ?thesis using Cons by auto
  next
    case False
    then show ?thesis by (simp add: vec_get_def)
  qed
qed simp

lemma make_array_short: "length t < N \<Longrightarrow> make_array N t = Inl Undefined_behaviour"
  unfolding make_array_def by (intro make_array_impl_short) (auto intro!: bexI [of _ "length t"])

lemma ce_same [simp]:
  "ce_reroll = reroll" "ce_apply = permloop_apply" "ce_less = permloop_less" "ce_dump = permloop_dump"
  by (auto simp: fun_eq_iff ce_reroll_def reroll_def ce_apply_def permloop_apply_def ce_less_def
      permloop_less_def ce_dump_def permloop_dump_def Let_def)

lemma ce_check_normal: "normal_loop D l \<Longrightarrow> ce_check checks l = Inr ()"
  using permloop_check_iff [of l]
  by (auto simp: ce_check_def permloop_check_def normal_loop_def wf_loop_def split: if_splits)

lemma ce_spaceship_zero: "ce_spaceship l r = 0 \<longleftrightarrow> l = r"
  by (induction l r rule: ce_spaceship.induct) auto

lemma ce_spaceship_neg:
  "length l = length r \<Longrightarrow> ce_spaceship l r < 0 \<longleftrightarrow> permloop_less l r"
  by (induction l r rule: ce_spaceship.induct) (auto simp: permloop_less_def)

section \<open>Properties\<close>

text \<open>
  C35. The compile-time class agrees with the run-time one: with \<open>N\<close> the number of given
  elements, construction yields the same loop in either build and passes the check, the inverse and
  the in-place application to a table of the domain's size give the same results (the assertions
  the compile-time version drops hold there).
\<close>

theorem ce_agrees:
  assumes "wf_loop D l" "start D < fin D" "length tbl = idom_size D"
  shows "ce_ctor checks (length l) l = Inr (permloop_ctor l) \<and>
         ce_inverse checks (permloop_ctor l) = Inr (permloop_inverse (permloop_ctor l)) \<and>
         ce_apply_table D l tbl = permloop_apply_table D l tbl \<and>
         ce_apply l x = permloop_apply l x"
proof -
  have n: "normal_loop D (reroll l)" by (rule reroll_normal [OF assms(1)])
  have ctor: "ce_ctor checks (length l) l = Inr (permloop_ctor l)"
    using ce_check_normal [OF n] by (simp add: ce_ctor_def make_array_ok permloop_ctor_def)
  have inv: "ce_inverse checks (permloop_ctor l) = Inr (permloop_inverse (permloop_ctor l))"
    using ce_check_normal [OF permloop_inverse_normal [OF n], of checks]
    by (auto simp: ce_inverse_def permloop_inverse_def permloop_ctor_def Let_def)
  have ends: "l \<noteq> []" "l ! 0 \<ge> start D" "last l \<le> fin D"
    using assms(1) subsetD [OF wf_loopD(3) [OF assms(1)], of "last l"]
      subsetD [OF wf_loopD(3) [OF assms(1)], of "l ! 0"]
    by (auto simp: wf_loop_def elems_def)
  have "int (length tbl) = fin D - start D + 1" using assms by (simp add: idom_size_def)
  then have "ce_apply_table D l tbl = permloop_apply_table D l tbl"
    using ends assms(2) by (simp add: ce_apply_table_def permloop_apply_table_def)
  with ctor inv show ?thesis by simp
qed

theorem ce_agrees_witness:
  "ce_ctor True 4 [4, 2, 1, 3] = Inr (permloop_ctor [4, 2, 1, 3]) \<and>
   ce_apply_table UD4 [4, 2, 1, 3] [1, 2, 3, 4] = permloop_apply_table UD4 [4, 2, 1, 3] [1, 2, 3, 4]"
  using ce_agrees [of UD4 "[4, 2, 1, 3]" "[1, 2, 3, 4]" True 0]
  by (simp add: wf_loop_def UD4_def elems_def idom_size_def eval_nat_numeral)

text \<open>
  The defaulted three-way comparison of arrays of one size orders loops exactly as \<^verbatim>\<open>less\<close>
  and \<^verbatim>\<open>equals\<close> of the run-time class do; and an array longer than its initializer list reads
  past the end of that list.
\<close>

theorem ce_comparisons:
  assumes "length l = length r"
  shows "(ce_spaceship l r < 0 \<longleftrightarrow> permloop_less l r) \<and>
         (ce_spaceship l r = 0 \<longleftrightarrow> permloop_equals l r) \<and>
         (ce_spaceship l r > 0 \<longleftrightarrow> permloop_less r l) \<and>
         (length l < N \<longrightarrow> ce_ctor checks N l = Inl Undefined_behaviour)"
proof -
  have "ce_spaceship l r > 0 \<longleftrightarrow> \<not> ce_spaceship l r < 0 \<and> ce_spaceship l r \<noteq> 0" by auto
  also have "\<dots> \<longleftrightarrow> permloop_less r l"
    unfolding ce_spaceship_neg [OF assms] ce_spaceship_zero
    using permloop_less_total permloop_less_irrefl permloop_less_trans by blast
  finally show ?thesis
    using ce_spaceship_neg [OF assms]
    by (simp add: ce_spaceship_zero permloop_equals_def ce_ctor_def make_array_short)
qed

theorem ce_comparisons_witness:
  "ce_spaceship [1, 3, 2] [1, 2, 3] > 0 \<and> ce_ctor False 4 [1, 3, 2] = Inl Undefined_behaviour"
  using ce_comparisons [of "[1, 3, 2]" "[1, 2, 3]" 4 False] by simp

section \<open>Domains at compile time\<close>

text \<open>
  \<^verbatim>\<open>18-constexpr/permutations/idomain.hpp\<close>. \<^verbatim>\<open>iota\<close> fills an array of elements by assigning numbers, each of which goes through the
  constructor with its checks.
\<close>

definition ce_idom_ctor :: "idom \<Rightarrow> int \<Rightarrow> int res" where
  "ce_idom_ctor D val =
     (if val > fin D then Inl (Out_of_range (''value too big for domain: '' @ string_of_int val))
      else if val < start D then Inl (Out_of_range ''value too small for domain'')
      else Inr val)"

fun ce_iota_from :: "idom \<Rightarrow> int \<Rightarrow> nat \<Rightarrow> int list res" where
  "ce_iota_from D v 0 = Inr []"
| "ce_iota_from D v (Suc n) = bindE (ce_idom_ctor D v) (\<lambda>x. bindE (ce_iota_from D (v + 1) n) (\<lambda>xs. Inr (x # xs)))"

definition ce_idom_iota :: "idom \<Rightarrow> int list res" where
  "ce_idom_iota D = ce_iota_from D (start D) (nat (fin D - start D + 1))"

fun ce_idom_dump :: "underlying \<Rightarrow> int \<Rightarrow> string" where
  "ce_idom_dump Unsigned_type v = string_of_int v"
| "ce_idom_dump Char_type v = [char_of (nat (v mod 256))]"

lemma ce_iota_from_ok: "start D \<le> v \<Longrightarrow> v + int n \<le> fin D + 1 \<Longrightarrow> ce_iota_from D v n = Inr (std_iota v n)"
  by (induction n arbitrary: v) (auto simp: ce_idom_ctor_def)

text \<open>The checks never fail for the numbers of \<^verbatim>\<open>iota\<close>, and the table is the one of the run-time domain.\<close>

lemma ce_idom_iota_ok: "start D \<le> fin D \<Longrightarrow> ce_idom_iota D = Inr (idom_iota D)"
  by (simp add: ce_idom_iota_def ce_iota_from_ok idom_iota_def idom_size_def)

end
