(* ===== verification/Input.thy ===== *)
theory Input
  imports Prelude
begin

text \<open>
  Reading integers from a character stream, as \<^verbatim>\<open>std::cin >> n\<close> does: blanks are skipped, then an optional sign
  and digits are taken. The range check of the destination type is left to the reader.
\<close>

section \<open>Scanning\<close>

definition isspace :: "char \<Rightarrow> bool" where
  "isspace c \<longleftrightarrow> c \<in> set '' '' \<or> of_char c \<in> {9 .. 13 :: nat}"

definition isdigit :: "char \<Rightarrow> bool" where
  "isdigit c \<longleftrightarrow> c \<in> set ''0123456789''"

definition digit_val :: "char \<Rightarrow> int" where
  "digit_val c = int (std_find c ''0123456789'')"

definition scan_int :: "string \<Rightarrow> (int \<times> string) option" where
  "scan_int inp =
     (let s = dropWhile isspace inp;
          neg = (s \<noteq> [] \<and> hd s = CHR ''-'');
          s1 = (if s \<noteq> [] \<and> (hd s = CHR ''-'' \<or> hd s = CHR ''+'') then tl s else s);
          ds = takeWhile isdigit s1;
          v = foldl (\<lambda>a d. 10 * a + digit_val d) 0 ds in
      if ds = [] then None else Some (if neg then - v else v, dropWhile isdigit s1))"

section \<open>Printed numbers are read back\<close>

lemma digit_cases: "d < 10 \<Longrightarrow> d \<in> {0, 1, 2, 3, 4, 5, 6, 7, 8, 9 :: nat}"
  by auto

lemma dec_digits_less: "\<forall>d \<in> set (dec_digits n). d < 10"
  by (induction n rule: dec_digits.induct) (subst dec_digits.simps, auto)

lemma dec_digits_nonempty: "dec_digits n \<noteq> []"
  by (subst dec_digits.simps) simp

lemma dec_digits_value: "foldl (\<lambda>a d. 10 * a + int d) 0 (dec_digits n) = int n"
proof (induction n rule: dec_digits.induct)
  case (1 n)
  have "10 * int (n div 10) + int (n mod 10) = int n"
    by (metis div_mult_mod_eq mult.commute of_nat_add of_nat_mult of_nat_numeral)
  then show ?case using 1 by (subst dec_digits.simps) auto
qed

lemma digit_char:
  assumes "d < 10"
  shows "isdigit (''0123456789'' ! d)" and "digit_val (''0123456789'' ! d) = int d"
    and "\<not> isspace (''0123456789'' ! d)" and "''0123456789'' ! d \<noteq> CHR ''-''"
    and "''0123456789'' ! d \<noteq> CHR ''+''"
  using digit_cases [OF assms] by (auto simp: isdigit_def digit_val_def isspace_def)

lemma string_of_nat_digits: "\<forall>c \<in> set (string_of_nat n). isdigit c"
  using dec_digits_less [of n] by (auto simp: string_of_nat_def digit_char)

lemma string_of_nat_value:
  "foldl (\<lambda>a d. 10 * a + digit_val d) 0 (string_of_nat n) = int n"
proof -
  have "foldl (\<lambda>a d. 10 * a + digit_val d) a (map (\<lambda>d. ''0123456789'' ! d) ds) =
      foldl (\<lambda>a d. 10 * a + int d) a ds" if "\<forall>d \<in> set ds. d < 10" for a ds
    using that by (induction ds arbitrary: a) (auto simp: digit_char)
  from this [OF dec_digits_less [of n]] show ?thesis by (simp add: string_of_nat_def dec_digits_value)
qed

lemma string_of_nat_Cons:
  obtains d ds where "string_of_nat n = (''0123456789'' ! d) # ds" "d < 10"
  using dec_digits_less [of n] dec_digits_nonempty [of n]
  by (cases "dec_digits n") (auto simp: string_of_nat_def)

lemma isdigit_space [simp]: "\<not> isdigit (CHR '' '')" "isspace (CHR '' '')"
  by (auto simp: isdigit_def isspace_def)

lemma takeWhile_digits:
  assumes "\<not> isdigit c"
  shows "takeWhile isdigit (string_of_nat n @ c # rest) = string_of_nat n"
    and "dropWhile isdigit (string_of_nat n @ c # rest) = c # rest"
  using string_of_nat_digits [of n] assms by (auto simp: takeWhile_append dropWhile_append)

lemma scan_int_string_of_int:
  assumes "\<not> isdigit c"
  shows "scan_int (string_of_int v @ c # rest) = Some (v, c # rest)"
proof -
  note tw = takeWhile_digits [OF assms]
  obtain d ds where d: "string_of_nat (nat (abs v)) = (''0123456789'' ! d) # ds" "d < 10"
    by (rule string_of_nat_Cons)
  show ?thesis
  proof (cases "v < 0")
    case True
    let ?s = "string_of_nat (nat (- v))"
    have "dropWhile isspace (string_of_int v @ c # rest) = CHR ''-'' # ?s @ c # rest"
      using True by (simp add: string_of_int_def isspace_def)
    moreover have "?s \<noteq> []" using d True by auto
    ultimately show ?thesis
      using True by (simp add: scan_int_def tw string_of_nat_value Let_def)
  next
    case False
    let ?s = "string_of_nat (nat v)"
    have s: "?s = (''0123456789'' ! d) # ds" using d False by simp
    have "dropWhile isspace (string_of_int v @ c # rest) = ?s @ c # rest"
      using False d(2) s by (simp add: string_of_int_def digit_char)
    then show ?thesis
      using False s d(2) tw [of "nat v" rest] string_of_nat_value [of "nat v"]
      by (simp add: scan_int_def Let_def digit_char)
  qed
qed

lemma scan_int_skip: "isspace c \<Longrightarrow> scan_int (c # inp) = scan_int inp"
  by (simp add: scan_int_def)

end
