(* ===== verification/Lru.thy ===== *)
theory Lru
  imports Input
begin

text \<open>
  \<^verbatim>\<open>01-basics/lru-in-cxx\<close>: the LRU cache and its driver program. The
  \<^verbatim>\<open>std::list\<close> is the sequence of its nodes, each with an identity, so that the iterators stored
  in the hash table are node identities and an iterator to a node that is gone is undefined
  behaviour. The page loader may have effects: it takes and returns a state.

  The specification is the recency stack: the list of all keys requested so far, latest
  first. A cache of capacity \<open>n\<close> holds the first \<open>n\<close> of them.
\<close>

section \<open>The class cache_t\<close>

type_synonym ('k, 't) lnode = "nat \<times> 'k \<times> 't"

record ('k, 't) cache_t =
  sz :: nat
  cache :: "('k, 't) lnode list"
  hash :: "'k \<Rightarrow> nat option"
  fresh :: nat

definition cache_ctor :: "nat \<Rightarrow> ('k, 't) cache_t" where
  "cache_ctor n = \<lparr>sz = n, cache = [], hash = (\<lambda>_. None), fresh = 0\<rparr>"

definition max_capacity :: "('k, 't) cache_t \<Rightarrow> nat" where
  "max_capacity c = sz c"

definition full :: "('k, 't) cache_t \<Rightarrow> bool" where
  "full c \<longleftrightarrow> length (cache c) = sz c"

text \<open>\<^verbatim>\<open>cache_.splice(cache_.begin(), cache_, eltit)\<close>: the node moves to the front, keeping its identity.\<close>

definition splice_front :: "('k, 't) lnode list \<Rightarrow> nat \<Rightarrow> ('k, 't) lnode list res" where
  "splice_front xs i =
     (case filter (\<lambda>n. fst n = i) xs of
        [] \<Rightarrow> Inl Undefined_behaviour
      | n # _ \<Rightarrow> Inr (n # filter (\<lambda>n. fst n \<noteq> i) xs))"

definition evict :: "('k, 't) cache_t \<Rightarrow> ('k, 't) cache_t res" where
  "evict c =
     (if full c then
        (if cache c = [] then Inl Undefined_behaviour
         else Inr (c\<lparr>hash := (hash c)(fst (snd (last (cache c))) := None),
                    cache := butlast (cache c)\<rparr>))
      else Inr c)"

definition lookup_update ::
  "'k \<Rightarrow> ('k \<Rightarrow> 's \<Rightarrow> 't \<times> 's) \<Rightarrow> ('k, 't) cache_t \<Rightarrow> 's \<Rightarrow> (bool \<times> ('k, 't) cache_t \<times> 's) res" where
  "lookup_update key slow_get_page c s =
     (if max_capacity c = 0 then Inr (False, c, s)
      else (case hash c key of
        Some eltit \<Rightarrow>
          bindE (splice_front (cache c) eltit) (\<lambda>xs. Inr (True, c\<lparr>cache := xs\<rparr>, s))
      | None \<Rightarrow>
          (let (page, s') = slow_get_page key s in
           bindE (evict c) (\<lambda>c1.
             let it = fresh c1;
                 c2 = c1\<lparr>cache := (it, key, page) # cache c1, fresh := Suc it\<rparr> in
             Inr (False,
                  c2\<lparr>hash := (if hash c2 key = None then (hash c2)(key \<mapsto> it) else hash c2)\<rparr>,
                  s')))))"

section \<open>The driver\<close>

definition slow_get_page :: "int \<Rightarrow> unit \<Rightarrow> int \<times> unit" where
  "slow_get_page key s = (key, s)"

definition llmax :: int where
  "llmax = 2 ^ 63 - 1"

text \<open>\<^verbatim>\<open>std::cin >> value\<close> for \<^verbatim>\<open>long long\<close>: fails without digits and on overflow.\<close>

definition read_ll :: "string \<Rightarrow> (int \<times> string) option" where
  "read_ll inp =
     (case scan_int inp of
        None \<Rightarrow> None
      | Some (w, rest) \<Rightarrow> if w > llmax \<or> w < - llmax - 1 then None else Some (w, rest))"

definition read_integer :: "string \<Rightarrow> (int \<times> string) option" where
  "read_integer inp =
     (case read_ll inp of
        None \<Rightarrow> None
      | Some (v, rest) \<Rightarrow> if rest = [] \<or> isspace (hd rest) then Some (v, rest) else None)"

text \<open>What the program does: its exit code, standard output and standard error.\<close>

record outcome =
  code :: int
  out :: string
  err :: string

fun cache_main_loop :: "nat \<Rightarrow> (int, int) cache_t \<Rightarrow> nat \<Rightarrow> string \<Rightarrow> outcome res" where
  "cache_main_loop 0 c hits inp = Inr \<lparr>code = 0, out = string_of_nat hits @ endl, err = ''''\<rparr>"
| "cache_main_loop (Suc i) c hits inp =
     (case read_integer inp of
        None \<Rightarrow> Inr \<lparr>code = 1, out = '''', err = ''Expected a page key'' @ endl\<rparr>
      | Some (key, inp') \<Rightarrow>
          bindE (lookup_update key slow_get_page c ()) (\<lambda>(hit, c', _).
            cache_main_loop i c' (if hit then Suc hits else hits) inp'))"

definition cache_main :: "string \<Rightarrow> outcome res" where
  "cache_main inp =
     (let bad = Inr \<lparr>code = 1, out = '''',
            err = ''Expected nonnegative cache size and request count'' @ endl\<rparr> in
      case read_integer inp of
        None \<Rightarrow> bad
      | Some (m, inp1) \<Rightarrow>
          (case read_integer inp1 of
             None \<Rightarrow> bad
           | Some (n, inp2) \<Rightarrow>
               if m < 0 \<or> n < 0 \<or> m > 2 ^ 64 - 1 then bad
               else cache_main_loop (nat n) (cache_ctor (nat m)) 0 inp2))"

section \<open>Specification: the recency stack\<close>

definition touch :: "'k \<Rightarrow> 'k list \<Rightarrow> 'k list" where
  "touch k R = k # remove1 k R"

fun lru_hits :: "nat \<Rightarrow> 'k list \<Rightarrow> 'k list \<Rightarrow> nat" where
  "lru_hits n R [] = 0"
| "lru_hits n R (k # ks) = (if k \<in> set (take n R) then 1 else 0) + lru_hits n (touch k R) ks"

text \<open>The abstraction: the cached keys, most recently used first.\<close>

definition keys_of :: "('k, 't) cache_t \<Rightarrow> 'k list" where
  "keys_of c = map (fst \<circ> snd) (cache c)"

text \<open>
  The invariant: nodes and keys are distinct, the capacity is respected, the hash table maps
  exactly the cached keys to their nodes, and node identities below \<open>fresh\<close> are used up.
\<close>

definition cache_inv :: "('k, 't) cache_t \<Rightarrow> bool" where
  "cache_inv c \<longleftrightarrow>
     distinct (map fst (cache c)) \<and> distinct (keys_of c) \<and> length (cache c) \<le> sz c \<and>
     (\<forall>n \<in> set (cache c). fst n < fresh c) \<and>
     (\<forall>k i. hash c k = Some i \<longleftrightarrow> (\<exists>p. (i, k, p) \<in> set (cache c)))"

lemma set_keys_of: "k \<in> set (keys_of c) \<longleftrightarrow> (\<exists>i p. (i, k, p) \<in> set (cache c))"
  by (force simp: keys_of_def)

lemma cache_inv_hash: "cache_inv c \<Longrightarrow> hash c k = None \<longleftrightarrow> k \<notin> set (keys_of c)"
  by (metis cache_inv_def not_None_eq set_keys_of)

lemma cache_inv_ctor: "cache_inv (cache_ctor n)"
  by (simp add: cache_inv_def cache_ctor_def keys_of_def)

lemma filter_unique_key:
  "distinct (map f xs) \<Longrightarrow> x \<in> set xs \<Longrightarrow> filter (\<lambda>y. f y = f x) xs = [x]"
proof (induction xs)
  case (Cons a xs)
  then show ?case
    by (cases "a = x") (auto simp: filter_empty_conv image_iff)
qed simp

lemma map_filter_remove1:
  "distinct (map f xs) \<Longrightarrow> distinct (map g xs) \<Longrightarrow> x \<in> set xs \<Longrightarrow>
     map g (filter (\<lambda>y. f y \<noteq> f x) xs) = remove1 (g x) (map g xs)"
proof (induction xs)
  case (Cons a xs)
  show ?case
  proof (cases "a = x")
    case True
    then have "filter (\<lambda>y. f y \<noteq> f x) xs = xs"
      using Cons.prems by (auto simp: filter_id_conv image_iff)
    then show ?thesis using True by simp
  next
    case False
    then have "x \<in> set xs" "f a \<noteq> f x" "g a \<noteq> g x" using Cons.prems by (auto simp: image_iff)
    then show ?thesis using Cons by simp
  qed
qed simp

lemma lookup_update_hit:
  assumes inv: "cache_inv c" and k: "key \<in> set (keys_of c)"
  obtains i p where "(i, key, p) \<in> set (cache c)"
    "lookup_update key get c s =
      Inr (True, c\<lparr>cache := (i, key, p) # filter (\<lambda>n. fst n \<noteq> i) (cache c)\<rparr>, s)"
    "cache_inv (c\<lparr>cache := (i, key, p) # filter (\<lambda>n. fst n \<noteq> i) (cache c)\<rparr>)"
    "keys_of (c\<lparr>cache := (i, key, p) # filter (\<lambda>n. fst n \<noteq> i) (cache c)\<rparr>) =
      key # remove1 key (keys_of c)"
proof -
  obtain i p where ip: "(i, key, p) \<in> set (cache c)" using k by (auto simp: set_keys_of)
  let ?xs = "(i, key, p) # filter (\<lambda>n. fst n \<noteq> i) (cache c)"
  have d: "distinct (map fst (cache c))" "distinct (map (fst \<circ> snd) (cache c))"
    using inv by (auto simp: cache_inv_def keys_of_def)
  have h: "hash c key = Some i" using inv ip by (auto simp: cache_inv_def)
  have sp: "splice_front (cache c) i = Inr ?xs"
    using filter_unique_key [OF d(1) ip] by (simp add: splice_front_def)
  have pos: "max_capacity c \<noteq> 0" using inv length_pos_if_in_set [OF ip]
    unfolding cache_inv_def max_capacity_def by linarith
  have keys: "keys_of (c\<lparr>cache := ?xs\<rparr>) = key # remove1 key (keys_of c)"
    using map_filter_remove1 [OF d ip] by (simp add: keys_of_def)
  have same: "set ?xs = set (cache c)"
  proof -
    have "x = (i, key, p)" if "x \<in> set (cache c)" "fst x = i" for x
    proof -
      have "x \<in> set (filter (\<lambda>n. fst n = fst (i, key, p)) (cache c))" using that by simp
      then show ?thesis unfolding filter_unique_key [OF d(1) ip] by simp
    qed
    then have "set (cache c) \<subseteq> set ?xs" by (intro subsetI) (metis (mono_tags, lifting)
        filter_set list.set_intros(1,2) mem_Collect_eq set_filter)
    moreover have "set ?xs \<subseteq> set (cache c)" using ip by simp
    ultimately show ?thesis by blast
  qed
  have "distinct (keys_of (c\<lparr>cache := ?xs\<rparr>))"
    unfolding keys using inv by (auto simp: cache_inv_def)
  moreover have "distinct (map fst ?xs)" using d(1) by (auto simp: distinct_map_filter)
  moreover have "length ?xs = length (cache c)"
  proof -
    have "length ?xs = length (keys_of (c\<lparr>cache := ?xs\<rparr>))" by (simp add: keys_of_def)
    also have "\<dots> = length (keys_of c)"
      unfolding keys using k length_pos_if_in_set [OF k] by (simp add: length_remove1)
    finally show ?thesis by (simp add: keys_of_def)
  qed
  ultimately have "cache_inv (c\<lparr>cache := ?xs\<rparr>)"
    using inv same by (simp add: cache_inv_def del: set_simps)
  then show ?thesis
    using that [OF ip _ _ keys] h sp pos by (simp add: lookup_update_def)
qed

lemma evict_ok:
  assumes inv: "cache_inv c" and pos: "0 < sz c"
  obtains c1 where "evict c = Inr c1" "cache_inv c1" "sz c1 = sz c" "length (cache c1) < sz c"
    "keys_of c1 = take (sz c - 1) (keys_of c)" "cache c1 = take (sz c - 1) (cache c)"
proof (cases "full c")
  case True
  then have len: "length (cache c) = sz c" by (simp add: full_def)
  let ?c = "c\<lparr>hash := (hash c)(fst (snd (last (cache c))) := None), cache := butlast (cache c)\<rparr>"
  have ne: "cache c \<noteq> []" using len pos by auto
  obtain xs x where xs: "cache c = xs @ [x]" using ne by (metis append_butlast_last_id)
  have "cache_inv ?c"
    using inv by (auto simp: cache_inv_def keys_of_def xs image_iff)
  moreover have "cache ?c = take (sz c - 1) (cache c)" using len by (simp add: butlast_conv_take)
  ultimately show ?thesis
    using that [of ?c] True ne len pos by (simp add: evict_def keys_of_def butlast_conv_take take_map)
next
  case False
  then have "length (cache c) < sz c" using inv by (auto simp: full_def cache_inv_def)
  then show ?thesis using that [of c] False inv by (simp add: evict_def keys_of_def)
qed

lemma lookup_update_miss:
  assumes inv: "cache_inv c" and pos: "0 < sz c" and k: "key \<notin> set (keys_of c)"
  obtains c' where
    "lookup_update key get c s = Inr (False, c', snd (get key s))"
    "cache_inv c'" "sz c' = sz c" "keys_of c' = take (sz c) (key # keys_of c)"
    "cache c' = (fresh c', key, fst (get key s)) # take (sz c - 1) (cache c) \<or>
     cache c' = (fresh c' - 1, key, fst (get key s)) # take (sz c - 1) (cache c)"
proof -
  obtain c1 where c1: "evict c = Inr c1" "cache_inv c1" "sz c1 = sz c" "length (cache c1) < sz c"
    "keys_of c1 = take (sz c - 1) (keys_of c)" "cache c1 = take (sz c - 1) (cache c)"
    using evict_ok [OF inv pos] .
  have k1: "key \<notin> set (keys_of c1)" using k c1(5) by (auto dest: in_set_takeD)
  have h1: "hash c1 key = None" "hash c key = None"
    using cache_inv_hash [OF c1(2)] k1 cache_inv_hash [OF inv] k by auto
  let ?page = "fst (get key s)"
  let ?c = "c1\<lparr>cache := (fresh c1, key, ?page) # cache c1, fresh := Suc (fresh c1),
      hash := (hash c1)(key \<mapsto> fresh c1)\<rparr>"
  have "lookup_update key get c s = Inr (False, ?c, snd (get key s))"
    using pos h1 c1(1) by (simp add: lookup_update_def max_capacity_def case_prod_beta Let_def)
  moreover have "cache_inv ?c"
    unfolding cache_inv_def
  proof (intro conjI allI)
    show "distinct (map fst (cache ?c))" using c1(2) by (auto simp: cache_inv_def)
    show "distinct (keys_of ?c)" using c1(2) k1 by (simp add: cache_inv_def keys_of_def)
    show "length (cache ?c) \<le> sz ?c" using c1 by simp
    show "\<forall>n \<in> set (cache ?c). fst n < fresh ?c" using c1(2) by (auto simp: cache_inv_def less_Suc_eq)
    show "hash ?c k = Some i \<longleftrightarrow> (\<exists>p. (i, k, p) \<in> set (cache ?c))" for k i
      using c1(2) k1 set_keys_of [of key c1] by (auto simp: cache_inv_def)
  qed
  moreover have "keys_of ?c = take (sz c) (key # keys_of c)"
    using c1(5) pos by (simp add: keys_of_def take_Cons')
  ultimately show ?thesis using that [of ?c] c1 by simp
qed

section \<open>The interface\<close>

text \<open>
  What a user of a cache relies on: a lookup answers whether the key is among the cached ones, and
  afterwards the cache holds the most recent keys its capacity allows.
\<close>

lemma take_remove1:
  "distinct R \<Longrightarrow> take n (remove1 k R) =
     (if k \<in> set (take n R) then remove1 k (take (Suc n) R) else take n R)"
proof (induction R arbitrary: n)
  case (Cons a R)
  then show ?case
    by (cases n) (auto simp: take_Cons' dest: in_set_takeD)
qed simp

lemma take_touch: "distinct R \<Longrightarrow> take n (touch k (take n R)) = take n (touch k R)"
proof (cases n)
  case (Suc m)
  assume d: "distinct R"
  show ?thesis
  proof (cases "k \<in> set (take n R)")
    case True
    then have "k \<in> set (take m R) \<or> k \<notin> set (take m R) \<and> R ! m = k \<and> m < length R"
      unfolding Suc by (auto simp: take_Suc_conv_app_nth in_set_conv_nth)
        (metis less_SucE)
    then show ?thesis
      using True d take_remove1 [OF d, of m k] take_remove1 [of "take (Suc m) R" m k]
      by (auto simp: touch_def Suc min_def split: if_splits)
  next
    case False
    then have "k \<notin> set (take m R)" unfolding Suc by (meson in_mono le_SucI order_refl set_take_subset_set_take)
    then show ?thesis
      using False d take_remove1 [OF d, of m k] by (simp add: touch_def Suc remove1_idem min_def)
  qed
qed simp

lemma distinct_touch: "distinct R \<Longrightarrow> distinct (touch k R)"
  by (simp add: touch_def)

primrec run_requests :: "('k \<Rightarrow> 'c \<Rightarrow> (bool \<times> 'c) res) \<Rightarrow> 'k list \<Rightarrow> 'c \<Rightarrow> nat \<Rightarrow> (nat \<times> 'c) res" where
  "run_requests lookup [] c hits = Inr (hits, c)"
| "run_requests lookup (k # ks) c hits =
     bindE (lookup k c) (\<lambda>(hit, c). run_requests lookup ks c (hits + (if hit then 1 else 0)))"

locale lru_cache =
  fixes inv :: "'c \<Rightarrow> bool"
    and keys :: "'c \<Rightarrow> 'k list"
    and cap :: "'c \<Rightarrow> nat"
    and lookup :: "'k \<Rightarrow> 'c \<Rightarrow> (bool \<times> 'c) res"
  assumes lookup_ok: "inv c \<Longrightarrow> \<exists>c'. lookup k c = Inr (k \<in> set (keys c), c') \<and> inv c' \<and>
      cap c' = cap c \<and> keys c' = take (cap c) (touch k (keys c))"
begin

text \<open>A sequence of requests, with the number of hits.\<close>

lemma requests_ok:
  assumes "inv c" "keys c = take (cap c) R" "distinct R"
  shows "\<exists>cs. length cs = Suc (length ks) \<and> cs ! 0 = c \<and>
     (\<forall>i < length ks. lookup (ks ! i) (cs ! i) = Inr (ks ! i \<in> set (keys (cs ! i)), cs ! Suc i)) \<and>
     (\<forall>i \<le> length ks. inv (cs ! i) \<and> cap (cs ! i) = cap c \<and>
        keys (cs ! i) = take (cap c) (fold touch (take i ks) R))"
  using assms
proof (induction ks arbitrary: c R)
  case Nil
  then show ?case by (intro exI [of _ "[c]"]) simp
next
  case (Cons k ks)
  obtain c' where c': "lookup k c = Inr (k \<in> set (keys c), c')" "inv c'" "cap c' = cap c"
    "keys c' = take (cap c) (touch k (keys c))"
    using lookup_ok [OF Cons.prems(1)] by blast
  have kt: "keys c' = take (cap c') (touch k R)"
    using c' Cons.prems(2,3) by (simp add: take_touch)
  obtain cs where cs: "length cs = Suc (length ks)" "cs ! 0 = c'"
    "\<forall>i < length ks. lookup (ks ! i) (cs ! i) = Inr (ks ! i \<in> set (keys (cs ! i)), cs ! Suc i)"
    "\<forall>i \<le> length ks. inv (cs ! i) \<and> cap (cs ! i) = cap c' \<and>
        keys (cs ! i) = take (cap c') (fold touch (take i ks) (touch k R))"
    using Cons.IH [OF c'(2) kt distinct_touch [OF Cons.prems(3)]] by blast
  have "\<forall>i < length (k # ks). lookup ((k # ks) ! i) ((c # cs) ! i) =
      Inr ((k # ks) ! i \<in> set (keys ((c # cs) ! i)), (c # cs) ! Suc i)"
    using c' cs by (auto simp: nth_Cons split: nat.splits)
  moreover have "\<forall>i \<le> length (k # ks). inv ((c # cs) ! i) \<and> cap ((c # cs) ! i) = cap c \<and>
      keys ((c # cs) ! i) = take (cap c) (fold touch (take i (k # ks)) R)"
    using Cons.prems c' cs(4) by (auto simp: nth_Cons split: nat.splits)
  ultimately show ?case using cs(1) by (intro exI [of _ "c # cs"]) simp
qed

lemma run_hits:
  assumes "inv c" "keys c = take (cap c) R" "distinct R"
  shows "\<exists>c'. run_requests lookup ks c h = Inr (h + lru_hits (cap c) R ks, c') \<and> inv c' \<and> cap c' = cap c"
  using assms
proof (induction ks arbitrary: c R h)
  case (Cons k ks)
  obtain c' where c': "lookup k c = Inr (k \<in> set (keys c), c')" "inv c'" "cap c' = cap c"
    "keys c' = take (cap c) (touch k (keys c))"
    using lookup_ok [OF Cons.prems(1)] by blast
  have kt: "keys c' = take (cap c') (touch k R)"
    using c' Cons.prems(2,3) by (simp add: take_touch)
  show ?case
    using Cons.IH [OF c'(2) kt distinct_touch [OF Cons.prems(3)], of "h + (if k \<in> set (keys c) then 1 else 0)"] c' Cons.prems(2)
    by (auto simp: add.assoc)
qed simp

end

text \<open>The class as an implementation of the interface, for a loader without effects.\<close>

definition lookup_pure :: "('k \<Rightarrow> 't) \<Rightarrow> 'k \<Rightarrow> ('k, 't) cache_t \<Rightarrow> (bool \<times> ('k, 't) cache_t) res" where
  "lookup_pure get k c = bindE (lookup_update k (\<lambda>k u. (get k, u)) c ()) (\<lambda>(h, c', _). Inr (h, c'))"

lemma lookup_update_ok:
  assumes "cache_inv c"
  shows "\<exists>c' s'. lookup_update k get c s = Inr (k \<in> set (keys_of c), c', s') \<and> cache_inv c' \<and>
      sz c' = sz c \<and> keys_of c' = take (sz c) (touch k (keys_of c))"
proof (cases "k \<in> set (keys_of c)")
  case True
  have "length (keys_of c) \<le> sz c" using assms by (simp add: cache_inv_def keys_of_def)
  then have "take (sz c) (touch k (keys_of c)) = touch k (keys_of c)"
    using True length_pos_if_in_set [OF True] by (simp add: touch_def length_remove1)
  moreover obtain i p where "lookup_update k get c s =
      Inr (True, c\<lparr>cache := (i, k, p) # filter (\<lambda>n. fst n \<noteq> i) (cache c)\<rparr>, s)"
    "cache_inv (c\<lparr>cache := (i, k, p) # filter (\<lambda>n. fst n \<noteq> i) (cache c)\<rparr>)"
    "keys_of (c\<lparr>cache := (i, k, p) # filter (\<lambda>n. fst n \<noteq> i) (cache c)\<rparr>) =
      k # remove1 k (keys_of c)"
    using lookup_update_hit [OF assms True, of get s] by blast
  ultimately show ?thesis using True by (simp add: touch_def)
next
  case False
  show ?thesis
  proof (cases "sz c = 0")
    case True
    then show ?thesis using assms False by (simp add: lookup_update_def max_capacity_def keys_of_def
        cache_inv_def)
  next
    case pos: False
    then show ?thesis
      using False lookup_update_miss [OF assms _ False, of get s]
      by (metis neq0_conv touch_def remove1_idem)
  qed
qed

interpretation lc: lru_cache cache_inv keys_of sz "lookup_pure get" for get
proof
  show "\<exists>c'. lookup_pure get k c = Inr (k \<in> set (keys_of c), c') \<and> cache_inv c' \<and> sz c' = sz c \<and>
      keys_of c' = take (sz c) (touch k (keys_of c))" if "cache_inv c" for c k
    using lookup_update_ok [OF that, of k "\<lambda>k u. (get k, u)" "()"] by (auto simp: lookup_pure_def)
qed

section \<open>Reading numbers\<close>

lemma read_integer_string_of_int:
  assumes "- llmax - 1 \<le> v" "v \<le> llmax"
  shows "read_integer (string_of_int v @ CHR '' '' # rest) = Some (v, CHR '' '' # rest)"
  using assms scan_int_string_of_int [of "CHR '' ''" v rest] by (simp add: read_integer_def read_ll_def)

lemma read_integer_skip: "read_integer (CHR '' '' # inp) = read_integer inp"
  by (simp add: read_integer_def read_ll_def scan_int_skip)

definition show_ints :: "int list \<Rightarrow> string" where
  "show_ints vs = concat (map (\<lambda>v. string_of_int v @ '' '') vs)"

lemma read_integer_show:
  assumes "- llmax - 1 \<le> v" "v \<le> llmax"
  shows "read_integer (show_ints (v # vs)) = Some (v, CHR '' '' # show_ints vs)"
  using read_integer_string_of_int [OF assms, of "show_ints vs"] by (simp add: show_ints_def)

lemma cache_main_loop_ok:
  assumes "\<forall>k \<in> set ks. - llmax - 1 \<le> k \<and> k \<le> llmax" "cache_inv c" "distinct R"
    and "keys_of c = take (sz c) R"
  shows "cache_main_loop (length ks) c h (CHR '' '' # show_ints ks) =
    Inr \<lparr>code = 0, out = string_of_nat (h + lru_hits (sz c) R ks) @ endl, err = []\<rparr>"
  using assms
proof (induction ks arbitrary: c h R)
  case (Cons k ks)
  obtain c' s' where c': "lookup_update k slow_get_page c () = Inr (k \<in> set (keys_of c), c', s')"
    "cache_inv c'" "sz c' = sz c" "keys_of c' = take (sz c) (touch k (keys_of c))"
    using lookup_update_ok [OF Cons.prems(2), of k slow_get_page "()"] by blast
  have kt: "keys_of c' = take (sz c') (touch k R)"
    using c' Cons.prems(3,4) by (simp add: take_touch)
  have rd: "read_integer (CHR '' '' # show_ints (k # ks)) = Some (k, CHR '' '' # show_ints ks)"
    using Cons.prems(1) by (simp add: read_integer_skip read_integer_show)
  have "cache_main_loop (length ks) c' h' (CHR '' '' # show_ints ks) =
      Inr \<lparr>code = 0, out = string_of_nat (h' + lru_hits (sz c) (touch k R) ks) @ endl, err = []\<rparr>" for h'
    using Cons.IH [OF _ c'(2) distinct_touch [OF Cons.prems(3)] kt] Cons.prems(1) c'(3) by simp
  then show ?case using rd c'(1) Cons.prems(4) by simp
qed simp

lemma lru_hits_mono: "n \<le> m \<Longrightarrow> lru_hits n R ks \<le> lru_hits m R ks"
proof (induction ks arbitrary: R)
  case (Cons k ks)
  have "k \<in> set (take n R) \<Longrightarrow> k \<in> set (take m R)"
    using set_take_subset_set_take [OF Cons.prems, of R] by blast
  then show ?case using Cons.IH [OF Cons.prems, of "touch k R"] by auto
qed simp

section \<open>Properties\<close>

text \<open>The page stored for a key.\<close>

definition page_of :: "('k, 't) cache_t \<Rightarrow> 'k \<Rightarrow> 't option" where
  "page_of c k = map_of (map snd (cache c)) k"

lemma page_of_Some:
  assumes "cache_inv c"
  shows "page_of c k = Some p \<longleftrightarrow> (\<exists>i. (i, k, p) \<in> set (cache c))"
proof -
  have "distinct (map fst (map snd (cache c)))" using assms by (simp add: cache_inv_def keys_of_def)
  then have "page_of c k = Some p \<longleftrightarrow> (k, p) \<in> set (map snd (cache c))"
    unfolding page_of_def by (rule map_of_eq_Some_iff)
  then show ?thesis by (force simp: image_iff)
qed

lemma page_of_None: "page_of c k = None \<longleftrightarrow> k \<notin> set (keys_of c)"
  by (force simp: page_of_def map_of_eq_None_iff keys_of_def)

text \<open>
  C8. A lookup in a cache that satisfies the invariant never runs into an invalid iterator
  and refines the recency stack: it reports a hit exactly when the key is cached, keeps the
  invariant and the capacity, and leaves the most recently used keys in order. A hit keeps the stored
  page and does not call the loader; a miss in a cache of positive capacity stores the loaded page; all
  other pages that stay cached are unchanged.
\<close>

theorem lookup_update_refines:
  assumes "cache_inv c"
  shows "\<exists>c' s'. lookup_update k get c s = Inr (k \<in> set (keys_of c), c', s') \<and>
     cache_inv c' \<and> sz c' = sz c \<and> keys_of c' = take (sz c) (touch k (keys_of c)) \<and>
     s' = (if k \<in> set (keys_of c) \<or> sz c = 0 then s else snd (get k s)) \<and>
     (\<forall>k' \<in> set (keys_of c'). page_of c' k' =
        (if k \<notin> set (keys_of c) \<and> k' = k then Some (fst (get k s)) else page_of c k'))"
proof -
  obtain c' s' where c': "lookup_update k get c s = Inr (k \<in> set (keys_of c), c', s')"
    "cache_inv c'" "sz c' = sz c" "keys_of c' = take (sz c) (touch k (keys_of c))"
    using lookup_update_ok [OF assms, of k get s] by blast
  have "s' = (if k \<in> set (keys_of c) \<or> sz c = 0 then s else snd (get k s)) \<and>
     (\<forall>k' \<in> set (keys_of c'). page_of c' k' =
        (if k \<notin> set (keys_of c) \<and> k' = k then Some (fst (get k s)) else page_of c k'))"
  proof (cases "k \<in> set (keys_of c)")
    case True
    obtain i p where ip: "(i, k, p) \<in> set (cache c)" "lookup_update k get c s =
        Inr (True, c\<lparr>cache := (i, k, p) # filter (\<lambda>n. fst n \<noteq> i) (cache c)\<rparr>, s)"
      using lookup_update_hit [OF assms True, of get s] by blast
    then have h: "(i, k, p) \<in> set (cache c)" "s' = s"
      "c' = c\<lparr>cache := (i, k, p) # filter (\<lambda>n. fst n \<noteq> i) (cache c)\<rparr>"
      using c'(1) by auto
    have "page_of c' k' = page_of c k'" if k': "k' \<in> set (keys_of c')" for k'
    proof -
      obtain q where q: "page_of c' k' = Some q" using k' page_of_None [of c' k'] by auto
      then obtain j where "(j, k', q) \<in> set (cache c')" using page_of_Some [OF c'(2)] by blast
      then have "(j, k', q) \<in> set (cache c)" using h by auto
      then show ?thesis using q page_of_Some [OF assms] by metis
    qed
    then show ?thesis using h True by simp
  next
    case miss: False
    show ?thesis
    proof (cases "sz c = 0")
      case True
      then show ?thesis using c'(1,4) by (auto simp: lookup_update_def max_capacity_def)
    next
      case False
      obtain d where d: "lookup_update k get c s = Inr (False, d, snd (get k s))"
        "cache d = (fresh d, k, fst (get k s)) # take (sz c - 1) (cache c) \<or>
         cache d = (fresh d - 1, k, fst (get k s)) # take (sz c - 1) (cache c)"
        using False lookup_update_miss [OF assms _ miss, of get s] by blast
      then obtain j where m: "s' = snd (get k s)"
        "cache c' = (j, k, fst (get k s)) # take (sz c - 1) (cache c)"
        using c'(1) by auto
      have "page_of c' k' = page_of c k'" if k': "k' \<in> set (keys_of c')" "k' \<noteq> k" for k'
      proof -
        obtain q where q: "page_of c' k' = Some q" using k' page_of_None [of c' k'] by auto
        then obtain j where "(j, k', q) \<in> set (cache c')" using page_of_Some [OF c'(2)] by blast
        then have "(j, k', q) \<in> set (cache c)" using m(2) k'(2) by (auto dest: in_set_takeD)
        then show ?thesis using q page_of_Some [OF assms] by metis
      qed
      then show ?thesis using m miss False by (simp add: page_of_def)
    qed
  qed
  then show ?thesis using c' by blast
qed

theorem lookup_update_refines_witness:
  "\<exists>c' s'. lookup_update (1::int) (\<lambda>k n. (k * 10, Suc n)) (cache_ctor 2) 0 = Inr (False, c', s') \<and>
     cache_inv c' \<and> keys_of c' = [1] \<and> s' = 1 \<and> page_of c' 1 = Some 10"
  using lookup_update_refines [OF cache_inv_ctor [of 2], of "1::int" "\<lambda>k n. (k * 10, Suc n)" 0]
  by (auto simp: cache_ctor_def keys_of_def touch_def)

text \<open>
  A fresh cache serves any sequence of requests without an error; before each
  request it holds exactly the first \<open>n\<close> keys of the recency stack, so every answer is
  that of the specification.
\<close>

theorem cache_serves_requests:
  "\<exists>cs. length cs = Suc (length ks) \<and> cs ! 0 = cache_ctor n \<and>
     (\<forall>i < length ks. lookup_pure get (ks ! i) (cs ! i) =
        Inr (ks ! i \<in> set (take n (fold touch (take i ks) [])), cs ! Suc i)) \<and>
     (\<forall>i \<le> length ks. cache_inv (cs ! i) \<and> keys_of (cs ! i) = take n (fold touch (take i ks) []))"
proof -
  have "keys_of (cache_ctor n :: ('a, 'b) cache_t) = take (sz (cache_ctor n :: ('a, 'b) cache_t)) []"
    by (simp add: keys_of_def cache_ctor_def)
  from lc.requests_ok [OF cache_inv_ctor this, where ks = ks and get = get]
  obtain cs :: "('a, 'b) cache_t list" where "length cs = Suc (length ks)" "cs ! 0 = cache_ctor n"
    "\<forall>i < length ks. lookup_pure get (ks ! i) (cs ! i) =
      Inr (ks ! i \<in> set (keys_of (cs ! i)), cs ! Suc i)"
    "\<forall>i \<le> length ks. cache_inv (cs ! i) \<and> sz (cs ! i) = sz (cache_ctor n :: ('a, 'b) cache_t) \<and>
       keys_of (cs ! i) = take (sz (cache_ctor n :: ('a, 'b) cache_t)) (fold touch (take i ks) [])"
    by (auto simp del: take_Nil)
  then show ?thesis by (intro exI [of _ cs]) (simp add: cache_ctor_def order.strict_implies_order)
qed

theorem cache_serves_requests_witness:
  "\<exists>cs. cs ! 0 = cache_ctor 1 \<and> lookup_pure (\<lambda>k. k) (7::int) (cs ! 0) = Inr (False, cs ! 1) \<and>
     lookup_pure (\<lambda>k. k) 7 (cs ! 1) = Inr (True, cs ! 2)"
proof -
  obtain cs where cs: "cs ! 0 = cache_ctor 1"
    "\<forall>i < 2. lookup_pure (\<lambda>k. k) ([7, 7 :: int] ! i) (cs ! i) =
        Inr ([7, 7 :: int] ! i \<in> set (take 1 (fold touch (take i [7, 7]) [])), cs ! Suc i)"
    using cache_serves_requests [of "[7, 7 :: int]" 1 "\<lambda>k. k"] by (auto simp: numeral_2_eq_2)
  from cs(2) [rule_format, of 0] cs(2) [rule_format, of 1] cs(1) show ?thesis
    by (intro exI [of _ cs]) (simp add: touch_def numeral_2_eq_2)
qed

lemma cache_main_output:
  assumes "\<forall>k \<in> set ks. - llmax - 1 \<le> k \<and> k \<le> llmax" "int (length ks) \<le> llmax" "int c \<le> llmax"
  shows "cache_main (show_ints (int c # int (length ks) # ks)) =
      Inr \<lparr>code = 0, out = string_of_nat (lru_hits c [] ks) @ endl, err = []\<rparr>"
proof -
  have "read_integer (show_ints (int c # int (length ks) # ks)) =
      Some (int c, CHR '' '' # show_ints (int (length ks) # ks))"
    using assms(3) by (intro read_integer_show) (auto simp: llmax_def)
  moreover have "read_integer (CHR '' '' # show_ints (int (length ks) # ks)) =
      Some (int (length ks), CHR '' '' # show_ints ks)"
    unfolding read_integer_skip using assms(2) by (intro read_integer_show) (auto simp: llmax_def)
  moreover have "\<not> int c > 2 ^ 64 - 1" using assms(3) by (simp add: llmax_def)
  ultimately show ?thesis
    using cache_main_loop_ok [OF assms(1) cache_inv_ctor, of "[]" c 0]
    by (simp add: cache_main_def keys_of_def cache_ctor_def)
qed

text \<open>
  The driver program computes LRU hits: given a capacity, the number of keys and the keys,
  it prints the number of hits of the recency-stack specification and exits with 0; and
  it never finds fewer hits with a larger capacity.
\<close>

theorem cache_main_correct:
  assumes "\<forall>k \<in> set ks. - llmax - 1 \<le> k \<and> k \<le> llmax" "int (length ks) \<le> llmax"
    and "m \<le> m'" "int m' \<le> llmax"
  shows "cache_main (show_ints (int m # int (length ks) # ks)) =
           Inr \<lparr>code = 0, out = string_of_nat (lru_hits m [] ks) @ endl, err = []\<rparr> \<and>
         cache_main (show_ints (int m' # int (length ks) # ks)) =
           Inr \<lparr>code = 0, out = string_of_nat (lru_hits m' [] ks) @ endl, err = []\<rparr> \<and>
         lru_hits m [] ks \<le> lru_hits m' [] ks"
  using cache_main_output [OF assms(1,2)] assms(3,4) lru_hits_mono [OF assms(3)] by simp

theorem cache_main_correct_witness:
  "cache_main (show_ints [2, 4, 1, 2, 1, 3]) = Inr \<lparr>code = 0, out = ''1'' @ endl, err = []\<rparr>"
proof -
  have "string_of_nat 1 = ''1''" by code_simp
  then show ?thesis
    using cache_main_correct [of "[1, 2, 1, 3]" 2 2] by (simp add: llmax_def touch_def eval_nat_numeral)
qed

lemma cache_main_loop_total:
  "cache_inv c \<Longrightarrow> \<exists>r. cache_main_loop n c h inp = Inr r \<and>
     (code r = 0 \<and> err r = [] \<or> code r = 1 \<and> out r = [] \<and> err r \<noteq> [])"
proof (induction n arbitrary: c h inp)
  case (Suc n)
  show ?case
  proof (cases "read_integer inp")
    case (Some ki)
    obtain key rest where ki: "ki = (key, rest)" by (cases ki)
    obtain c' s' where c': "lookup_update key slow_get_page c () = Inr (key \<in> set (keys_of c), c', s')"
      "cache_inv c'"
      using lookup_update_ok [OF Suc.prems, of key slow_get_page "()"] by blast
    show ?thesis using Suc.IH [OF c'(2)] Some ki c'(1) by simp
  qed simp
qed simp

text \<open>
  On every input whatsoever the driver ends, with exit code 0 and no message, or with exit code 1,
  a message and no output; it never dereferences an invalid list iterator.
\<close>

theorem cache_main_total:
  "\<exists>r. cache_main inp = Inr r \<and>
     (code r = 0 \<and> err r = [] \<or> code r = 1 \<and> out r = [] \<and> err r \<noteq> [])"
  using cache_main_loop_total [OF cache_inv_ctor]
  by (auto simp: cache_main_def Let_def split: option.splits)

end
