(* ===== verification/Controllable.thy ===== *)
theory Controllable
  imports Prelude
begin

text \<open>
  The memory the vectors of \<^verbatim>\<open>08-exceptions/myvec-demo\<close> live in, and the element class of
  \<^verbatim>\<open>controllable.hh\<close>, whose copy constructor throws on a count-down. A block of memory is a list of
  cells; a cell is raw memory (\<open>None\<close>) or holds an object. An object is its
  \<^verbatim>\<open>resource_\<close>: the integer owned, or \<open>None\<close> once it was moved from. Allocation itself does
  not fail: the exceptions studied are those of the copy constructor.
\<close>

section \<open>Memory\<close>

type_synonym ctl = "int option"

record mem =
  blocks :: "nat \<Rightarrow> ctl option list option"
  next_block :: nat
  control :: int
  outp :: string

definition mem0 :: mem where
  "mem0 = \<lparr>blocks = (\<lambda>_. None), next_block = 0, control = 5, outp = ''''\<rparr>"

definition print_out :: "string \<Rightarrow> (mem, unit) stm" where
  "print_out t s = (Inr (), s\<lparr>outp := outp s @ t\<rparr>)"

text \<open>Allocating a block with given cells. Identities are never reused.\<close>

definition alloc :: "ctl option list \<Rightarrow> (mem, nat) stm" where
  "alloc cells s =
     (Inr (next_block s), s\<lparr>blocks := (blocks s)(next_block s \<mapsto> cells), next_block := Suc (next_block s)\<rparr>)"

text \<open>
  Reading and writing an object in a cell. A freed block, an index outside, and raw memory
  are all undefined behaviour.
\<close>

definition read_cell :: "nat option \<Rightarrow> nat \<Rightarrow> (mem, ctl) stm" where
  "read_cell a i s =
     (case a of
        None \<Rightarrow> (Inl Undefined_behaviour, s)
      | Some b \<Rightarrow> (case blocks s b of
          None \<Rightarrow> (Inl Undefined_behaviour, s)
        | Some cells \<Rightarrow>
            if i < length cells then
              (case cells ! i of None \<Rightarrow> (Inl Undefined_behaviour, s) | Some x \<Rightarrow> (Inr x, s))
            else (Inl Undefined_behaviour, s)))"

definition put_cell :: "nat option \<Rightarrow> nat \<Rightarrow> ctl option \<Rightarrow> (mem, unit) stm" where
  "put_cell a i x s =
     (case a of
        None \<Rightarrow> (Inl Undefined_behaviour, s)
      | Some b \<Rightarrow> (case blocks s b of
          None \<Rightarrow> (Inl Undefined_behaviour, s)
        | Some cells \<Rightarrow>
            if i < length cells then (Inr (), s\<lparr>blocks := (blocks s)(b \<mapsto> cells[i := x])\<rparr>)
            else (Inl Undefined_behaviour, s)))"

text \<open>\<^verbatim>\<open>new T[n]\<close> default-constructs, \<^verbatim>\<open>::operator new\<close> leaves raw memory.\<close>

definition default_elt :: ctl where
  "default_elt = Some 42"

definition new_array :: "nat \<Rightarrow> (mem, nat option) stm" where
  "new_array n = bindS (alloc (replicate n (Some default_elt))) (\<lambda>b. retS (Some b))"

definition new_raw :: "nat \<Rightarrow> (mem, nat option) stm" where
  "new_raw n = (if n = 0 then retS None else bindS (alloc (replicate n None)) (\<lambda>b. retS (Some b)))"

text \<open>
  \<^verbatim>\<open>delete[]\<close> destroys every element, so all must be constructed; \<^verbatim>\<open>::operator delete\<close> frees only
  memory. Freeing twice is undefined.
\<close>

definition free_block :: "nat option \<Rightarrow> (mem, unit) stm" where
  "free_block a s =
     (case a of
        None \<Rightarrow> (Inr (), s)
      | Some b \<Rightarrow> (case blocks s b of
          None \<Rightarrow> (Inl Undefined_behaviour, s)
        | Some _ \<Rightarrow> (Inr (), s\<lparr>blocks := (blocks s)(b := None)\<rparr>)))"

definition delete_array :: "nat option \<Rightarrow> (mem, unit) stm" where
  "delete_array a s =
     (case a of
        None \<Rightarrow> (Inr (), s)
      | Some b \<Rightarrow> (case blocks s b of
          None \<Rightarrow> (Inl Undefined_behaviour, s)
        | Some cells \<Rightarrow>
            if None \<in> set cells then (Inl Undefined_behaviour, s) else free_block a s))"

section \<open>The class Controllable\<close>

text \<open>The copy constructor: reads the source, then throws or counts down.\<close>

definition ctl_copy :: "ctl \<Rightarrow> (mem, ctl) stm" where
  "ctl_copy rhs s =
     (case rhs of
        None \<Rightarrow> (Inl Undefined_behaviour, s)
      | Some r \<Rightarrow>
          if control s = 0
          then (Inl Bad_alloc, s\<lparr>control := 5, outp := outp s @ ''Control reached'' @ endl\<rparr>)
          else (Inr (Some r), s\<lparr>control := control s - 1\<rparr>))"

text \<open>The move constructor: the new object and what is left of the old one.\<close>

definition ctl_move :: "ctl \<Rightarrow> ctl \<times> ctl" where
  "ctl_move rhs = (rhs, None)"

text \<open>Copy assignment: copy first, then swap with the temporary. The argument is the old value.\<close>

definition ctl_assign :: "ctl \<Rightarrow> ctl \<Rightarrow> (mem, ctl) stm" where
  "ctl_assign self rhs = bindS (ctl_copy rhs) (\<lambda>tmp. retS tmp)"

text \<open>
  The argument of \<^verbatim>\<open>push(const T &)\<close> is a reference: to an object outside, or to a cell of
  some block (for instance the vector's own). It is read when the code reads it.
\<close>

datatype ref = Outside ctl | In_cell nat nat

definition read_ref :: "ref \<Rightarrow> (mem, ctl) stm" where
  "read_ref r = (case r of Outside x \<Rightarrow> retS x | In_cell b i \<Rightarrow> read_cell (Some b) i)"

text \<open>\<^verbatim>\<open>arr[i] = t\<close>, \<^verbatim>\<open>construct(arr + i, t)\<close> and \<^verbatim>\<open>destroy(arr + i)\<close>.\<close>

definition assign_cell :: "nat option \<Rightarrow> nat \<Rightarrow> ref \<Rightarrow> (mem, unit) stm" where
  "assign_cell a i t =
     bindS (read_cell a i) (\<lambda>old. bindS (read_ref t) (\<lambda>x.
     bindS (ctl_assign old x) (\<lambda>new. put_cell a i (Some new))))"

definition construct :: "nat option \<Rightarrow> nat \<Rightarrow> ref \<Rightarrow> (mem, unit) stm" where
  "construct a i t =
     bindS (read_ref t) (\<lambda>x. bindS (ctl_copy x) (\<lambda>new. put_cell a i (Some new)))"

definition destroy :: "nat option \<Rightarrow> nat \<Rightarrow> (mem, unit) stm" where
  "destroy a i = bindS (read_cell a i) (\<lambda>_. put_cell a i None)"

text \<open>The range form: \<open>n\<close> cells from index \<open>i\<close>.\<close>

fun destroy_range :: "nat option \<Rightarrow> nat \<Rightarrow> nat \<Rightarrow> (mem, unit) stm" where
  "destroy_range a i 0 = retS ()"
| "destroy_range a i (Suc n) = bindS (destroy a i) (\<lambda>_. destroy_range a (Suc i) n)"

section \<open>Effects of the primitives\<close>

lemma read_cell_ok [simp]:
  "blocks s b = Some cells \<Longrightarrow> i < length cells \<Longrightarrow> cells ! i = Some x \<Longrightarrow>
     read_cell (Some b) i s = (Inr x, s)"
  by (simp add: read_cell_def)

lemma put_cell_ok [simp]:
  "blocks s b = Some cells \<Longrightarrow> i < length cells \<Longrightarrow>
     put_cell (Some b) i x s = (Inr (), s\<lparr>blocks := (blocks s)(b \<mapsto> cells[i := x])\<rparr>)"
  by (simp add: put_cell_def)

lemma free_block_ok [simp]:
  "blocks s b = Some cells \<Longrightarrow> free_block (Some b) s = (Inr (), s\<lparr>blocks := (blocks s)(b := None)\<rparr>)"
  by (simp add: free_block_def)

lemma free_block_None [simp]: "free_block None s = (Inr (), s)"
  by (simp add: free_block_def)

lemma delete_array_ok [simp]:
  "blocks s b = Some cells \<Longrightarrow> None \<notin> set cells \<Longrightarrow>
     delete_array (Some b) s = (Inr (), s\<lparr>blocks := (blocks s)(b := None)\<rparr>)"
  by (simp add: delete_array_def)

lemma read_ref_Outside [simp]: "read_ref (Outside x) s = (Inr x, s)"
  by (simp add: read_ref_def)

text \<open>
  Copying an object that owns its resource: it throws exactly when the counter is 0, and
  then nothing but the counter and the output has changed.
\<close>

definition after_throw :: "mem \<Rightarrow> mem" where
  "after_throw s = s\<lparr>control := 5, outp := outp s @ ''Control reached'' @ endl\<rparr>"

lemma after_throw_simps [simp]:
  "blocks (after_throw s) = blocks s" "next_block (after_throw s) = next_block s" "control (after_throw s) = 5"
  by (simp_all add: after_throw_def)

lemma ctl_copy_ok:
  "ctl_copy (Some r) s =
     (if control s = 0 then (Inl Bad_alloc, after_throw s) else (Inr (Some r), s\<lparr>control := control s - 1\<rparr>))"
  by (simp add: ctl_copy_def after_throw_def)

text \<open>A reference is readable when it designates an owning object.\<close>

definition readable :: "mem \<Rightarrow> ref \<Rightarrow> int \<Rightarrow> bool" where
  "readable s t r \<longleftrightarrow>
     (case t of Outside x \<Rightarrow> x = Some r
      | In_cell b i \<Rightarrow> \<exists>cells. blocks s b = Some cells \<and> i < length cells \<and> cells ! i = Some (Some r))"

lemma read_ref_ok: "readable s t r \<Longrightarrow> read_ref t s = (Inr (Some r), s)"
  by (cases t) (auto simp: readable_def read_ref_def)

lemma assign_cell_ok:
  assumes "blocks s b = Some cells" "i < length cells" "cells ! i \<noteq> None" "readable s t r"
  shows "assign_cell (Some b) i t s =
    (if control s = 0 then (Inl Bad_alloc, after_throw s)
     else (Inr (), s\<lparr>blocks := (blocks s)(b \<mapsto> cells[i := Some (Some r)]), control := control s - 1\<rparr>))"
proof -
  obtain old where "cells ! i = Some old" using assms(3) by auto
  then show ?thesis
    using assms read_ref_ok [OF assms(4)]
    by (simp add: assign_cell_def ctl_assign_def bindS_def ctl_copy_ok)
qed

lemma construct_ok:
  assumes "blocks s b = Some cells" "i < length cells" "readable s t r"
  shows "construct (Some b) i t s =
    (if control s = 0 then (Inl Bad_alloc, after_throw s)
     else (Inr (), s\<lparr>blocks := (blocks s)(b \<mapsto> cells[i := Some (Some r)]), control := control s - 1\<rparr>))"
  using assms read_ref_ok [OF assms(3)] by (simp add: construct_def bindS_def ctl_copy_ok)

lemma destroy_ok:
  assumes "blocks s b = Some cells" "i < length cells" "cells ! i \<noteq> None"
  shows "destroy (Some b) i s = (Inr (), s\<lparr>blocks := (blocks s)(b \<mapsto> cells[i := None])\<rparr>)"
  using assms by (auto simp: destroy_def bindS_def)

lemma destroy_range_ok:
  assumes "blocks s b = Some cells" "i + n \<le> length cells" "\<forall>j. i \<le> j \<and> j < i + n \<longrightarrow> cells ! j \<noteq> None"
  shows "destroy_range (Some b) i n s =
    (Inr (), s\<lparr>blocks := (blocks s)(b \<mapsto> take i cells @ replicate n None @ drop (i + n) cells)\<rparr>)"
  using assms
proof (induction n arbitrary: i s cells)
  case 0
  then show ?case by (simp add: fun_upd_idem)
next
  case (Suc n)
  let ?c = "cells[i := None]"
  let ?s = "s\<lparr>blocks := (blocks s)(b \<mapsto> ?c)\<rparr>"
  have d: "destroy (Some b) i s = (Inr (), ?s)" using Suc.prems by (intro destroy_ok) auto
  have "destroy_range (Some b) (Suc i) n ?s = (Inr (), ?s\<lparr>blocks := (blocks ?s)(b \<mapsto>
      take (Suc i) ?c @ replicate n None @ drop (Suc i + n) ?c)\<rparr>)"
    using Suc.prems by (intro Suc.IH) auto
  moreover have "take (Suc i) ?c @ replicate n None @ drop (Suc i + n) ?c =
      take i cells @ replicate (Suc n) None @ drop (i + Suc n) cells"
    using Suc.prems(2) by (simp add: take_Suc_conv_app_nth)
  ultimately show ?case using d by (simp add: bindS_def del: fun_upd_apply)
qed

end
