(* ===== verification/MyVec.thy ===== *)
theory MyVec
  imports Controllable
begin

text \<open>
  \<^verbatim>\<open>08-exceptions/myvec-demo\<close>: the four stages of a vector on the way to exception safety.
  The object under construction or the receiver of a method is passed and returned as a value
  of \<open>vec\<close> next to the memory, so what a method changed before it threw is visible. Sizes are natural numbers:
  no vector gets near the limits of \<^verbatim>\<open>size_t\<close>.
\<close>

section \<open>The object\<close>

record vec =
  arr :: "nat option"
  vsize :: nat
  used :: nat

text \<open>A method: it gets the receiver and the memory, and returns both.\<close>

type_synonym 'a meth = "vec \<Rightarrow> mem \<Rightarrow> 'a res \<times> vec \<times> mem"

definition moved_from :: vec where
  "moved_from = \<lparr>arr = None, vsize = 0, used = 0\<rparr>"

section \<open>Stage 1: no guarantees\<close>

definition vec1_ctor :: "nat \<Rightarrow> (mem, vec) stm" where
  "vec1_ctor sz = bindS (new_array sz) (\<lambda>a. retS \<lparr>arr = a, vsize = sz, used = 0\<rparr>)"

text \<open>The element-wise copy loop, here and in \<^verbatim>\<open>safe_copy\<close>: \<open>n\<close> elements from index \<open>idx\<close>.\<close>

fun assign_loop :: "nat option \<Rightarrow> nat option \<Rightarrow> nat \<Rightarrow> nat \<Rightarrow> (mem, unit) stm" where
  "assign_loop dst src idx 0 = retS ()"
| "assign_loop dst src idx (Suc n) =
     bindS (case src of None \<Rightarrow> throwS Undefined_behaviour
            | Some b \<Rightarrow> assign_cell dst idx (In_cell b idx)) (\<lambda>_.
     assign_loop dst src (Suc idx) n)"

text \<open>
  The copy constructor. When the loop throws, the members of the unfinished object are gone and the
  destructor does not run.
\<close>

definition vec1_copy :: "vec \<Rightarrow> (mem, vec) stm" where
  "vec1_copy rhs =
     bindS (new_array (vsize rhs)) (\<lambda>a.
     bindS (assign_loop a (arr rhs) 0 (vsize rhs)) (\<lambda>_.
     retS \<lparr>arr = a, vsize = vsize rhs, used = used rhs\<rparr>))"

text \<open>The move constructor, of this and the next stage: the new object and the emptied one.\<close>

definition vec1_move :: "vec \<Rightarrow> vec \<times> vec" where
  "vec1_move rhs = (rhs, moved_from)"

text \<open>Move assignment flows off its end without a return, which is undefined.\<close>

definition vec1_move_assign :: "vec \<Rightarrow> vec \<Rightarrow> vec res" where
  "vec1_move_assign self rhs = Inl Undefined_behaviour"

text \<open>Copy assignment from another object (\<^verbatim>\<open>this != &rhs\<close>) or from itself.\<close>

definition vec1_assign :: "bool \<Rightarrow> vec \<Rightarrow> unit meth" where
  "vec1_assign same rhs self s =
     (if same then (Inr (), self, s)
      else let self1 = self\<lparr>vsize := vsize rhs, used := used rhs\<rparr> in
           (case delete_array (arr self1) s of
              (Inl e, s1) \<Rightarrow> (Inl e, self1, s1)
            | (Inr _, s1) \<Rightarrow> (case new_array (vsize self1) s1 of
                (Inl e, s2) \<Rightarrow> (Inl e, self1, s2)
              | (Inr a, s2) \<Rightarrow>
                  let self2 = self1\<lparr>arr := a\<rparr> in
                  (case assign_loop a (arr rhs) 0 (vsize self2) s2 of
                     (Inl e, s3) \<Rightarrow> (Inl e, self2, s3)
                   | (Inr _, s3) \<Rightarrow> (Inr (), self2, s3)))))"

definition vec1_dtor :: "vec \<Rightarrow> (mem, unit) stm" where
  "vec1_dtor self = delete_array (arr self)"

definition vec1_pop :: "ctl meth" where
  "vec1_pop self s =
     (if used self < 1 then (Inl (Runtime_error ''Vector is empty''), self, s)
      else let self1 = self\<lparr>used := used self - 1\<rparr> in
           (case bindS (read_cell (arr self1) (used self1)) ctl_copy s of (r, s') \<Rightarrow> (r, self1, s')))"

definition vec1_push :: "ref \<Rightarrow> unit meth" where
  "vec1_push t self s =
     (if \<not> used self \<le> vsize self then (Inl Assertion_failed, self, s)
      else
        (case (if used self = vsize self then
                 (let newsz = vsize self * 2 + 1 in
                  case bindS (print_out (''Realloc'' @ endl)) (\<lambda>_. bindS (new_array newsz) (\<lambda>na.
                         bindS (assign_loop na (arr self) 0 (vsize self)) (\<lambda>_.
                         bindS (delete_array (arr self)) (\<lambda>_. retS na)))) s of
                    (Inl e, s1) \<Rightarrow> (Inl e, self, s1)
                  | (Inr na, s1) \<Rightarrow> (Inr (), self\<lparr>arr := na, vsize := newsz\<rparr>, s1))
               else (Inr (), self, s)) of
           (Inl e, self1, s1) \<Rightarrow> (Inl e, self1, s1)
         | (Inr _, self1, s1) \<Rightarrow>
             (case assign_cell (arr self1) (used self1) t s1 of
                (Inl e, s2) \<Rightarrow> (Inl e, self1, s2)
              | (Inr _, s2) \<Rightarrow> (Inr (), self1\<lparr>used := Suc (used self1)\<rparr>, s2))))"

section \<open>Stage 2: a copy that cleans up\<close>

definition safe_copy :: "nat option \<Rightarrow> nat \<Rightarrow> nat \<Rightarrow> (mem, nat option) stm" where
  "safe_copy src srcsize dstsize =
     (if \<not> srcsize \<le> dstsize then throwS Assertion_failed
      else bindS (new_array dstsize) (\<lambda>dest.
           bindS (cleanupS (assign_loop dest src 0 srcsize) (delete_array dest)) (\<lambda>_.
           retS dest)))"

definition vec2_ctor :: "nat \<Rightarrow> (mem, vec) stm" where
  "vec2_ctor sz = bindS (new_array sz) (\<lambda>a. retS \<lparr>arr = a, vsize = sz, used = 0\<rparr>)"

definition vec2_copy :: "vec \<Rightarrow> (mem, vec) stm" where
  "vec2_copy rhs =
     bindS (safe_copy (arr rhs) (used rhs) (used rhs)) (\<lambda>a.
     retS \<lparr>arr = a, vsize = vsize rhs, used = used rhs\<rparr>)"

definition vec2_move :: "vec \<Rightarrow> vec \<times> vec" where
  "vec2_move rhs = (rhs, moved_from)"

definition vec2_move_assign :: "vec \<Rightarrow> vec \<Rightarrow> vec res" where
  "vec2_move_assign self rhs = Inl Undefined_behaviour"

definition vec2_dtor :: "vec \<Rightarrow> (mem, unit) stm" where
  "vec2_dtor self = delete_array (arr self)"

definition vec2_top :: "vec \<Rightarrow> (mem, ctl) stm" where
  "vec2_top self =
     (if used self < 1 then throwS (Out_of_range ''top on empty vector'')
      else bindS (read_cell (arr self) (used self - 1)) ctl_copy)"

definition vec2_pop :: "unit meth" where
  "vec2_pop self s =
     (if used self < 1 then (Inl (Underflow_error ''pop on empty vector''), self, s)
      else (Inr (), self\<lparr>used := used self - 1\<rparr>, s))"

definition vec2_push :: "ref \<Rightarrow> unit meth" where
  "vec2_push t self s =
     (if \<not> used self \<le> vsize self then (Inl Assertion_failed, self, s)
      else
        (case (if used self = vsize self then
                 (let newsz = vsize self * 2 + 1 in
                  case bindS (print_out (''Realloc'' @ endl)) (\<lambda>_.
                         bindS (safe_copy (arr self) (vsize self) newsz) (\<lambda>na.
                         bindS (delete_array (arr self)) (\<lambda>_. retS na))) s of
                    (Inl e, s1) \<Rightarrow> (Inl e, self, s1)
                  | (Inr na, s1) \<Rightarrow> (Inr (), self\<lparr>arr := na, vsize := newsz\<rparr>, s1))
               else (Inr (), self, s)) of
           (Inl e, self1, s1) \<Rightarrow> (Inl e, self1, s1)
         | (Inr _, self1, s1) \<Rightarrow>
             (case assign_cell (arr self1) (used self1) t s1 of
                (Inl e, s2) \<Rightarrow> (Inl e, self1, s2)
              | (Inr _, s2) \<Rightarrow> (Inr (), self1\<lparr>used := Suc (used self1)\<rparr>, s2))))"

section \<open>Stage 3: raw memory and a buffer class\<close>

definition buf_ctor :: "nat \<Rightarrow> (mem, vec) stm" where
  "buf_ctor sz = bindS (new_raw sz) (\<lambda>a. retS \<lparr>arr = a, vsize = sz, used = 0\<rparr>)"

definition buf_dtor :: "vec \<Rightarrow> (mem, unit) stm" where
  "buf_dtor self = bindS (destroy_range (arr self) 0 (used self)) (\<lambda>_. free_block (arr self))"

definition buf_move :: "vec \<Rightarrow> vec \<times> vec" where
  "buf_move rhs = (rhs, moved_from)"

text \<open>Move assignment swaps: the receiver's new value and the argument's.\<close>

definition buf_move_assign :: "vec \<Rightarrow> vec \<Rightarrow> vec \<times> vec" where
  "buf_move_assign self rhs = (rhs, self)"

text \<open>\<^verbatim>\<open>std::swap(*this, tmp)\<close>: move construct, move assign twice; the third object ends empty.\<close>

definition vec_swap :: "vec \<Rightarrow> vec \<Rightarrow> vec \<times> vec" where
  "vec_swap x y =
     (let (t, x1) = buf_move x; (x2, y1) = buf_move_assign x1 y; (y2, t1) = buf_move_assign y1 t in (x2, y2))"

text \<open>
  The copying loop of the copy constructor: \<open>n\<close> elements remain. The base object is finished, so
  an exception runs its destructor with the current \<^verbatim>\<open>used_\<close>.
\<close>

fun vec3_copy_loop :: "vec \<Rightarrow> nat \<Rightarrow> unit meth" where
  "vec3_copy_loop rhs 0 self s = (Inr (), self, s)"
| "vec3_copy_loop rhs (Suc n) self s =
     (case (case arr rhs of None \<Rightarrow> (Inl Undefined_behaviour, s)
            | Some b \<Rightarrow> construct (arr self) (used self) (In_cell b (used self)) s) of
        (Inl e, s1) \<Rightarrow> (Inl e, self, s1)
      | (Inr _, s1) \<Rightarrow> vec3_copy_loop rhs n (self\<lparr>used := Suc (used self)\<rparr>) s1)"

text \<open>Leaving a scope by an exception destroys the local vector.\<close>

definition unwind :: "cxx_error \<Rightarrow> vec \<Rightarrow> mem \<Rightarrow> cxx_error \<times> mem" where
  "unwind e local s =
     (if e = Undefined_behaviour \<or> e = Assertion_failed then (e, s)
      else (case buf_dtor local s of (Inl e', s') \<Rightarrow> (e', s') | (Inr _, s') \<Rightarrow> (e, s')))"

definition vec3_copy :: "vec \<Rightarrow> (mem, vec) stm" where
  "vec3_copy rhs s =
     (case buf_ctor (used rhs) s of
        (Inl e, s1) \<Rightarrow> (Inl e, s1)
      | (Inr v, s1) \<Rightarrow>
          (case vec3_copy_loop rhs (used rhs) v s1 of
             (Inl e, v', s2) \<Rightarrow> (case unwind e v' s2 of (e', s3) \<Rightarrow> (Inl e', s3))
           | (Inr _, v', s2) \<Rightarrow> (Inr v', s2)))"

definition vec3_assign :: "vec \<Rightarrow> unit meth" where
  "vec3_assign rhs self s =
     (case vec3_copy rhs s of
        (Inl e, s1) \<Rightarrow> (Inl e, self, s1)
      | (Inr tmp, s1) \<Rightarrow>
          (let (self', tmp') = vec_swap self tmp in
           case buf_dtor tmp' s1 of (Inl e, s2) \<Rightarrow> (Inl e, self', s2) | (Inr _, s2) \<Rightarrow> (Inr (), self', s2)))"

definition vec3_top :: "vec \<Rightarrow> (mem, ctl) stm" where
  "vec3_top self =
     (if used self < 1 then throwS (Runtime_error ''Vector is empty'')
      else bindS (read_cell (arr self) (used self - 1)) ctl_copy)"

definition vec3_pop :: "unit meth" where
  "vec3_pop self s =
     (if used self < 1 then (Inl (Runtime_error ''Vector is empty''), self, s)
      else let self1 = self\<lparr>used := used self - 1\<rparr> in
           (case destroy (arr self1) (used self1) s of (r, s') \<Rightarrow> (r, self1, s')))"

text \<open>\<^verbatim>\<open>push\<close> into a vector with room; the recursive calls on \<^verbatim>\<open>tmp\<close> always are of this kind.\<close>

definition vec3_push_room :: "ref \<Rightarrow> unit meth" where
  "vec3_push_room t self s =
     (case construct (arr self) (used self) t s of
        (Inl e, s') \<Rightarrow> (Inl e, self, s')
      | (Inr _, s') \<Rightarrow> (Inr (), self\<lparr>used := Suc (used self)\<rparr>, s'))"

text \<open>
  \<^verbatim>\<open>push\<close> itself, with the nesting depth of the calls on \<^verbatim>\<open>tmp\<close> bounded by \<open>fuel\<close>; depth 2 is enough,
  because \<^verbatim>\<open>tmp\<close> has room for everything pushed to it.
\<close>

fun vec3_push_fuel :: "nat \<Rightarrow> ref \<Rightarrow> unit meth" and
    vec3_fill :: "nat \<Rightarrow> nat option \<Rightarrow> nat \<Rightarrow> unit meth" where
  "vec3_push_fuel 0 t self s = (Inl Undefined_behaviour, self, s)"
| "vec3_push_fuel (Suc fuel) t self s =
     (if \<not> used self \<le> vsize self then (Inl Assertion_failed, self, s)
      else if used self = vsize self then
        (case buf_ctor (vsize self * 2 + 1) s of
           (Inl e, s1) \<Rightarrow> (Inl e, self, s1)
         | (Inr tmp, s1) \<Rightarrow>
             (case vec3_fill fuel (arr self) (used self) tmp s1 of
                (Inl e, tmp1, s2) \<Rightarrow> (case unwind e tmp1 s2 of (e', s3) \<Rightarrow> (Inl e', self, s3))
              | (Inr _, tmp1, s2) \<Rightarrow>
                  (case vec3_push_fuel fuel t tmp1 s2 of
                     (Inl e, tmp2, s3) \<Rightarrow> (case unwind e tmp2 s3 of (e', s4) \<Rightarrow> (Inl e', self, s4))
                   | (Inr _, tmp2, s3) \<Rightarrow>
                       (let (self', tmp3) = vec_swap self tmp2 in
                        case buf_dtor tmp3 s3 of
                          (Inl e, s4) \<Rightarrow> (Inl e, self', s4)
                        | (Inr _, s4) \<Rightarrow> (Inr (), self', s4)))))
      else vec3_push_room t self s)"
| "vec3_fill fuel src 0 tmp s = (Inr (), tmp, s)"
| "vec3_fill 0 src (Suc n) tmp s = (Inl Undefined_behaviour, tmp, s)"
| "vec3_fill (Suc fuel) src (Suc n) tmp s =
     (case (case src of None \<Rightarrow> (Inl Undefined_behaviour, tmp, s)
            | Some b \<Rightarrow> vec3_push_fuel (Suc fuel) (In_cell b (used tmp)) tmp s) of
        (Inl e, tmp1, s1) \<Rightarrow> (Inl e, tmp1, s1)
      | (Inr _, tmp1, s1) \<Rightarrow> vec3_fill (Suc fuel) src n tmp1 s1)"

definition vec3_push :: "ref \<Rightarrow> unit meth" where
  "vec3_push = vec3_push_fuel 2"

section \<open>Stage 4: moving elements\<close>

text \<open>
  \<^verbatim>\<open>construct(p, T &&)\<close> moves: a source cell keeps an object without resource. A moved-from
  local object is of no further interest.
\<close>

definition construct_move :: "nat option \<Rightarrow> nat \<Rightarrow> ref \<Rightarrow> (mem, unit) stm" where
  "construct_move a i t =
     bindS (read_ref t) (\<lambda>x.
     let (new, old) = ctl_move x in
     bindS (put_cell a i (Some new)) (\<lambda>_.
     case t of Outside _ \<Rightarrow> retS () | In_cell b j \<Rightarrow> put_cell (Some b) j (Some old)))"

fun vec4_push_move_fuel :: "nat \<Rightarrow> ref \<Rightarrow> unit meth" and
    vec4_fill :: "nat \<Rightarrow> nat option \<Rightarrow> nat \<Rightarrow> unit meth" where
  "vec4_push_move_fuel 0 t self s = (Inl Undefined_behaviour, self, s)"
| "vec4_push_move_fuel (Suc fuel) t self s =
     (if \<not> used self \<le> vsize self then (Inl Assertion_failed, self, s)
      else if used self = vsize self then
        (case bindS (print_out (''Realloc'' @ endl)) (\<lambda>_. buf_ctor (vsize self * 2 + 1)) s of
           (Inl e, s1) \<Rightarrow> (Inl e, self, s1)
         | (Inr tmp, s1) \<Rightarrow>
             (case vec4_fill fuel (arr self) (used self) tmp s1 of
                (Inl e, tmp1, s2) \<Rightarrow> (case unwind e tmp1 s2 of (e', s3) \<Rightarrow> (Inl e', self, s3))
              | (Inr _, tmp1, s2) \<Rightarrow>
                  (case vec4_push_move_fuel fuel t tmp1 s2 of
                     (Inl e, tmp2, s3) \<Rightarrow> (case unwind e tmp2 s3 of (e', s4) \<Rightarrow> (Inl e', self, s4))
                   | (Inr _, tmp2, s3) \<Rightarrow>
                       (let (self', tmp3) = vec_swap self tmp2 in
                        case buf_dtor tmp3 s3 of
                          (Inl e, s4) \<Rightarrow> (Inl e, self', s4)
                        | (Inr _, s4) \<Rightarrow> (Inr (), self', s4)))))
      else
        (case construct_move (arr self) (used self) t s of
           (Inl e, s') \<Rightarrow> (Inl e, self, s')
         | (Inr _, s') \<Rightarrow> (Inr (), self\<lparr>used := Suc (used self)\<rparr>, s')))"
| "vec4_fill fuel src 0 tmp s = (Inr (), tmp, s)"
| "vec4_fill 0 src (Suc n) tmp s = (Inl Undefined_behaviour, tmp, s)"
| "vec4_fill (Suc fuel) src (Suc n) tmp s =
     (case (case src of None \<Rightarrow> (Inl Undefined_behaviour, tmp, s)
            | Some b \<Rightarrow> vec4_push_move_fuel (Suc fuel) (In_cell b (used tmp)) tmp s) of
        (Inl e, tmp1, s1) \<Rightarrow> (Inl e, tmp1, s1)
      | (Inr _, tmp1, s1) \<Rightarrow> vec4_fill (Suc fuel) src n tmp1 s1)"

definition vec4_push_move :: "ref \<Rightarrow> unit meth" where
  "vec4_push_move = vec4_push_move_fuel 2"

text \<open>\<^verbatim>\<open>push(const T &)\<close>: copy to a local object, then move it in.\<close>

definition vec4_push :: "ref \<Rightarrow> unit meth" where
  "vec4_push t self s =
     (case bindS (read_ref t) ctl_copy s of
        (Inl e, s1) \<Rightarrow> (Inl e, self, s1)
      | (Inr t2, s1) \<Rightarrow> vec4_push_move (Outside t2) self s1)"

definition vec4_copy :: "vec \<Rightarrow> (mem, vec) stm" where
  "vec4_copy rhs s =
     (case buf_ctor (used rhs) s of
        (Inl e, s1) \<Rightarrow> (Inl e, s1)
      | (Inr v, s1) \<Rightarrow>
          (case vec3_copy_loop rhs (used rhs) v s1 of
             (Inl e, v', s2) \<Rightarrow> (case unwind e v' s2 of (e', s3) \<Rightarrow> (Inl e', s3))
           | (Inr _, v', s2) \<Rightarrow> (Inr v', s2)))"

definition vec4_assign :: "vec \<Rightarrow> unit meth" where
  "vec4_assign rhs self s =
     (case vec4_copy rhs s of
        (Inl e, s1) \<Rightarrow> (Inl e, self, s1)
      | (Inr tmp, s1) \<Rightarrow>
          (let (self', tmp') = vec_swap self tmp in
           case buf_dtor tmp' s1 of (Inl e, s2) \<Rightarrow> (Inl e, self', s2) | (Inr _, s2) \<Rightarrow> (Inr (), self', s2)))"

definition vec4_top :: "vec \<Rightarrow> (mem, ctl) stm" where
  "vec4_top self =
     (if used self < 1 then throwS (Runtime_error ''Vector is empty'')
      else bindS (read_cell (arr self) (used self - 1)) ctl_copy)"

definition vec4_pop :: "unit meth" where
  "vec4_pop self s =
     (if used self < 1 then (Inl (Runtime_error ''Vector is empty''), self, s)
      else let self1 = self\<lparr>used := used self - 1\<rparr> in
           (case destroy (arr self1) (used self1) s of (r, s') \<Rightarrow> (r, self1, s')))"

section \<open>The demonstration\<close>

text \<open>
  \<^verbatim>\<open>test1\<close> and \<^verbatim>\<open>main\<close>, the same text in all four programs, over the operations of the stage.
\<close>

definition with_dtor :: "(vec \<Rightarrow> (mem, unit) stm) \<Rightarrow> vec \<Rightarrow> cxx_error \<Rightarrow> mem \<Rightarrow> unit res \<times> mem" where
  "with_dtor dtor v e s = (case dtor v s of (Inl e', s') \<Rightarrow> (Inl e', s') | (Inr _, s') \<Rightarrow> (Inl e, s'))"

fun push_all :: "(ref \<Rightarrow> unit meth) \<Rightarrow> ref list \<Rightarrow> unit meth" where
  "push_all push [] v s = (Inr (), v, s)"
| "push_all push (t # ts) v s =
     (case push t v s of (Inl e, v', s') \<Rightarrow> (Inl e, v', s') | (Inr _, v', s') \<Rightarrow> push_all push ts v' s')"

definition test1 :: "(nat \<Rightarrow> (mem, vec) stm) \<Rightarrow> (ref \<Rightarrow> unit meth) \<Rightarrow> (vec \<Rightarrow> (mem, vec) stm) \<Rightarrow>
    (vec \<Rightarrow> (mem, unit) stm) \<Rightarrow> (mem, unit) stm" where
  "test1 ctor push copy dtor s =
     (let c = Outside default_elt in
      case ctor 1 s of
        (Inl e, s1) \<Rightarrow> (Inl e, s1)
      | (Inr v, s1) \<Rightarrow>
          (case push_all push [c, c, c] v s1 of
             (Inl e, v1, s2) \<Rightarrow> with_dtor dtor v1 e s2
           | (Inr _, v1, s2) \<Rightarrow>
               (case bindS (print_out (''Invoke copy ctor'' @ endl)) (\<lambda>_. copy v1) s2 of
                  (Inl e, s3) \<Rightarrow> with_dtor dtor v1 e s3
                | (Inr v2, s3) \<Rightarrow>
                    bindS (print_out (string_of_nat (used v2) @ endl)) (\<lambda>_.
                    bindS (dtor v2) (\<lambda>_. dtor v1)) s3)))"

definition demo_main :: "(mem, unit) stm \<Rightarrow> (mem, unit) stm" where
  "demo_main test s =
     (case test s of
        (Inl e, s') \<Rightarrow> if e = Bad_alloc then print_out (''Exception catched'' @ endl) s' else (Inl e, s')
      | r \<Rightarrow> r)"

definition vec1_main :: "unit res \<times> mem" where
  "vec1_main = demo_main (test1 vec1_ctor vec1_push vec1_copy vec1_dtor) mem0"

definition vec2_main :: "unit res \<times> mem" where
  "vec2_main = demo_main (test1 vec2_ctor vec2_push vec2_copy vec2_dtor) mem0"

definition vec3_main :: "unit res \<times> mem" where
  "vec3_main = demo_main (test1 buf_ctor vec3_push vec3_copy buf_dtor) mem0"

definition vec4_main :: "unit res \<times> mem" where
  "vec4_main = demo_main (test1 buf_ctor vec4_push vec4_copy buf_dtor) mem0"

definition live_blocks :: "mem \<Rightarrow> ctl option list list" where
  "live_blocks s = [the (blocks s b). b \<leftarrow> [0 ..< next_block s], blocks s b \<noteq> None]"

end
