(* ===== verification/MyVec_Safety.thy ===== *)
theory MyVec_Safety
  imports MyVec
begin

text \<open>
  Exception safety of the vectors of \<^verbatim>\<open>08-exceptions/myvec-demo\<close>: what an operation
  leaves behind when it succeeds and when an element's copy constructor throws.
\<close>

section \<open>Notions\<close>

text \<open>The elements of a vector, and the memory outside it: a leak or a stray write shows there.\<close>

definition contents :: "mem \<Rightarrow> vec \<Rightarrow> int list" where
  "contents s v =
     (case arr v of None \<Rightarrow> []
      | Some b \<Rightarrow> (case blocks s b of None \<Rightarrow> [] | Some cells \<Rightarrow> map (the \<circ> the) (take (used v) cells)))"

definition outside :: "mem \<Rightarrow> vec \<Rightarrow> nat \<Rightarrow> ctl option list option" where
  "outside s v = (\<lambda>b. if arr v = Some b then None else blocks s b)"

definition owning :: "ctl option \<Rightarrow> bool" where
  "owning c \<longleftrightarrow> (\<exists>r. c = Some (Some r))"

text \<open>Block identities at or above the next one are unused.\<close>

definition mem_ok :: "mem \<Rightarrow> bool" where
  "mem_ok s \<longleftrightarrow> (\<forall>b \<ge> next_block s. blocks s b = None)"

text \<open>Stages 1 and 2: an array of constructed objects.\<close>

definition arr_inv :: "mem \<Rightarrow> vec \<Rightarrow> bool" where
  "arr_inv s v \<longleftrightarrow> mem_ok s \<and> used v \<le> vsize v \<and>
     (\<exists>b cells. arr v = Some b \<and> blocks s b = Some cells \<and> length cells = vsize v \<and>
        (\<forall>c \<in> set cells. owning c))"

text \<open>Stages 3 and 4: the first \<open>used\<close> cells hold objects, the others are raw.\<close>

definition buf_inv :: "mem \<Rightarrow> vec \<Rightarrow> bool" where
  "buf_inv s v \<longleftrightarrow> mem_ok s \<and> used v \<le> vsize v \<and>
     (arr v = None \<and> vsize v = 0 \<or>
      (\<exists>b cells. arr v = Some b \<and> blocks s b = Some cells \<and> length cells = vsize v \<and>
        (\<forall>i < used v. owning (cells ! i)) \<and> (\<forall>i. used v \<le> i \<and> i < vsize v \<longrightarrow> cells ! i = None)))"

text \<open>Copying \<open>n\<close> objects throws exactly when the counter runs out before.\<close>

definition fails :: "nat \<Rightarrow> mem \<Rightarrow> bool" where
  "fails n s \<longleftrightarrow> 0 \<le> control s \<and> control s < int n"

lemma mem_ok_next: "mem_ok s \<Longrightarrow> blocks s (next_block s) = None"
  by (simp add: mem_ok_def)

lemma mem_ok_less: "mem_ok s \<Longrightarrow> blocks s b = Some c \<Longrightarrow> b < next_block s"
  by (metis mem_ok_def not_le option.distinct(1))

lemma new_array_ok:
  "new_array n s = (Inr (Some (next_block s)), s\<lparr>blocks := (blocks s)(next_block s \<mapsto> replicate n (Some default_elt)),
     next_block := Suc (next_block s)\<rparr>)"
  by (simp add: new_array_def bindS_def alloc_def)

lemma owning_default [simp]: "owning (Some default_elt)"
  by (simp add: owning_def default_elt_def)

lemma owning_Some [simp]: "owning (Some (Some r))"
  by (simp add: owning_def)

section \<open>The copy loops\<close>

lemma assign_loop_ok:
  assumes "blocks s d = Some ds" "blocks s a = Some xs" "a \<noteq> d"
    and "idx + n \<le> length xs" "idx + n \<le> length ds"
    and "\<forall>j. idx \<le> j \<and> j < idx + n \<longrightarrow> owning (xs ! j)" "\<forall>c \<in> set ds. owning c"
  shows "\<exists>ds'. length ds' = length ds \<and> (\<forall>c \<in> set ds'. owning c) \<and>
    (if fails n s
     then assign_loop (Some d) (Some a) idx n s = (Inl Bad_alloc, (after_throw s)\<lparr>blocks := (blocks s)(d \<mapsto> ds')\<rparr>)
     else assign_loop (Some d) (Some a) idx n s =
            (Inr (), s\<lparr>blocks := (blocks s)(d \<mapsto> ds'), control := control s - int n\<rparr>) \<and>
          ds' = take idx ds @ take n (drop idx xs) @ drop (idx + n) ds)"
  using assms
proof (induction n arbitrary: idx s ds)
  case 0
  then show ?case by (intro exI [of _ ds]) (simp add: fails_def fun_upd_idem)
next
  case (Suc n)
  obtain r where r: "xs ! idx = Some (Some r)" using Suc.prems(4,6) by (auto simp: owning_def)
  have rd: "readable s (In_cell a idx) r" using Suc.prems r by (auto simp: readable_def)
  have ne: "ds ! idx \<noteq> None" using Suc.prems(5,7) by (auto simp: owning_def)
  have ac: "assign_cell (Some d) idx (In_cell a idx) s =
      (if control s = 0 then (Inl Bad_alloc, after_throw s)
       else (Inr (), s\<lparr>blocks := (blocks s)(d \<mapsto> ds[idx := Some (Some r)]), control := control s - 1\<rparr>))"
    using Suc.prems by (intro assign_cell_ok ne rd) auto
  show ?case
  proof (cases "control s = 0")
    case True
    then show ?thesis using ac Suc.prems
      by (intro exI [of _ ds]) (simp add: fails_def bindS_def fun_upd_idem)
  next
    case False
    let ?ds = "ds[idx := Some (Some r)]"
    let ?s = "s\<lparr>blocks := (blocks s)(d \<mapsto> ?ds), control := control s - 1\<rparr>"
    have own: "\<forall>c \<in> set ?ds. owning c"
      using Suc.prems(7) set_update_subset_insert [of ds idx "Some (Some r)"] by auto
    have f: "fails n ?s \<longleftrightarrow> fails (Suc n) s" using False by (auto simp: fails_def)
    obtain ds' where ds': "length ds' = length ?ds" "\<forall>c \<in> set ds'. owning c"
      "if fails n ?s
       then assign_loop (Some d) (Some a) (Suc idx) n ?s = (Inl Bad_alloc, (after_throw ?s)\<lparr>blocks := (blocks ?s)(d \<mapsto> ds')\<rparr>)
       else assign_loop (Some d) (Some a) (Suc idx) n ?s =
            (Inr (), ?s\<lparr>blocks := (blocks ?s)(d \<mapsto> ds'), control := control ?s - int n\<rparr>) \<and>
          ds' = take (Suc idx) ?ds @ take n (drop (Suc idx) xs) @ drop (Suc idx + n) ?ds"
      using Suc.IH [of ?s ?ds "Suc idx"] Suc.prems own by auto
    have eq: "take (Suc idx) ?ds @ take n (drop (Suc idx) xs) @ drop (Suc idx + n) ?ds =
        take idx ds @ take (Suc n) (drop idx xs) @ drop (idx + Suc n) ds"
      using Suc.prems(4,5) r by (simp add: take_Suc_conv_app_nth Cons_nth_drop_Suc [symmetric])
    show ?thesis
      using ds' ac False eq unfolding f
      by (intro exI [of _ ds']) (auto simp: bindS_def after_throw_def simp del: fun_upd_apply)
  qed
qed

lemma safe_copy_ok:
  assumes "mem_ok s" "blocks s a = Some xs" "n \<le> length xs" "n \<le> m" "\<forall>j < n. owning (xs ! j)"
  shows "if fails n s
    then \<exists>s'. safe_copy (Some a) n m s = (Inl Bad_alloc, s') \<and> blocks s' = blocks s \<and>
       next_block s' = Suc (next_block s)
    else safe_copy (Some a) n m s = (Inr (Some (next_block s)),
       s\<lparr>blocks := (blocks s)(next_block s \<mapsto> take n xs @ replicate (m - n) (Some default_elt)),
         next_block := Suc (next_block s), control := control s - int n\<rparr>)"
proof -
  let ?d = "next_block s" and ?ds = "replicate m (Some default_elt)"
  let ?s = "s\<lparr>blocks := (blocks s)(?d \<mapsto> ?ds), next_block := Suc ?d\<rparr>"
  have ad: "a \<noteq> ?d" using mem_ok_less [OF assms(1,2)] by simp
  have f: "fails n ?s \<longleftrightarrow> fails n s" by (simp add: fails_def)
  obtain ds' where ds': "length ds' = length ?ds" "\<forall>c \<in> set ds'. owning c"
    "if fails n ?s
     then assign_loop (Some ?d) (Some a) 0 n ?s = (Inl Bad_alloc, (after_throw ?s)\<lparr>blocks := (blocks ?s)(?d \<mapsto> ds')\<rparr>)
     else assign_loop (Some ?d) (Some a) 0 n ?s =
            (Inr (), ?s\<lparr>blocks := (blocks ?s)(?d \<mapsto> ds'), control := control ?s - int n\<rparr>) \<and>
          ds' = take 0 ?ds @ take n (drop 0 xs) @ drop (0 + n) ?ds"
    using assign_loop_ok [of ?s ?d ?ds a xs 0 n] assms ad by auto
  have nn: "None \<notin> set ds'" using ds'(2) by (auto simp: owning_def)
  have gone: "(blocks s)(?d := None) = blocks s" using mem_ok_next [OF assms(1)] by (simp add: fun_upd_idem)
  show ?thesis
  proof (cases "fails n s")
    case True
    then have l: "assign_loop (Some ?d) (Some a) 0 n ?s =
        (Inl Bad_alloc, (after_throw ?s)\<lparr>blocks := (blocks ?s)(?d \<mapsto> ds')\<rparr>)"
      using ds'(3) f by simp
    have "safe_copy (Some a) n m s = (Inl Bad_alloc, (after_throw ?s)\<lparr>blocks := (blocks s)(?d := None)\<rparr>)"
      using assms(4) l nn by (simp add: safe_copy_def bindS_def new_array_ok cleanupS_def)
    then show ?thesis using True gone by (simp add: after_throw_def)
  next
    case False
    then have l: "assign_loop (Some ?d) (Some a) 0 n ?s =
        (Inr (), ?s\<lparr>blocks := (blocks ?s)(?d \<mapsto> ds'), control := control s - int n\<rparr>)"
      "ds' = take n xs @ replicate (m - n) (Some default_elt)"
      using ds'(3) f by auto
    then show ?thesis
      using False assms(4) by (simp add: safe_copy_def bindS_def new_array_ok cleanupS_def del: fun_upd_apply)
  qed
qed

section \<open>Stage 2\<close>

lemma same_blocks:
  assumes "blocks s' = blocks s" "next_block s \<le> next_block s'"
  shows "arr_inv s v \<Longrightarrow> arr_inv s' v" and "buf_inv s v \<Longrightarrow> buf_inv s' v"
    and "contents s' v = contents s v" and "outside s' v = outside s v" and "mem_ok s \<Longrightarrow> mem_ok s'"
  using assms by (auto simp: arr_inv_def buf_inv_def contents_def outside_def mem_ok_def
      split: option.split)

lemma outside_cong: "blocks s' = blocks s \<Longrightarrow> outside s' v = outside s v"
  by (auto simp: outside_def fun_eq_iff)

text \<open>The common contract of \<^verbatim>\<open>push\<close>: all or nothing, and nothing outside the vector changes.\<close>

definition push_result :: "(mem \<Rightarrow> vec \<Rightarrow> bool) \<Rightarrow> int \<Rightarrow> vec \<Rightarrow> mem \<Rightarrow> unit res \<times> vec \<times> mem \<Rightarrow> bool" where
  "push_result good r v s out \<longleftrightarrow>
     (case out of (res, v', s') \<Rightarrow>
        good s' v' \<and> outside s' v' = outside s v \<and>
        (res = Inr () \<and> contents s' v' = contents s v @ [r] \<or>
         res = Inl Bad_alloc \<and> contents s' v' = contents s v))"

text \<open>Stages 1 and 2: the last part of \<^verbatim>\<open>push\<close>, once there is room.\<close>

lemma push_assign_ok:
  assumes inv: "arr_inv s v" and room: "used v < vsize v" and t: "readable s t r"
  shows "push_result arr_inv r v s
    (case assign_cell (arr v) (used v) t s of
       (Inl e, s2) \<Rightarrow> (Inl e, v, s2)
     | (Inr _, s2) \<Rightarrow> (Inr (), v\<lparr>used := Suc (used v)\<rparr>, s2))"
proof -
  obtain b cells where b: "arr v = Some b" "blocks s b = Some cells" "length cells = vsize v"
    "\<forall>c \<in> set cells. owning c" and m: "mem_ok s"
    using inv by (auto simp: arr_inv_def)
  have ne: "cells ! used v \<noteq> None" using b(3,4) room by (auto simp: owning_def)
  let ?cells = "cells[used v := Some (Some r)]"
  have ac: "assign_cell (arr v) (used v) t s =
      (if control s = 0 then (Inl Bad_alloc, after_throw s)
       else (Inr (), s\<lparr>blocks := (blocks s)(b \<mapsto> ?cells), control := control s - 1\<rparr>))"
    using assign_cell_ok [OF b(2) _ ne t] b room by simp
  show ?thesis
  proof (cases "control s = 0")
    case True
    then show ?thesis using ac same_blocks [of "after_throw s" s] inv by (simp add: push_result_def)
  next
    case False
    have own: "\<forall>c \<in> set ?cells. owning c"
      using b(4) set_update_subset_insert [of cells "used v" "Some (Some r)"] by auto
    have "take (Suc (used v)) ?cells = take (used v) cells @ [Some (Some r)]"
      using b(3) room by (simp add: take_Suc_conv_app_nth)
    then show ?thesis
      using ac False b room own m
      by (auto simp: push_result_def arr_inv_def contents_def outside_def mem_ok_def fun_eq_iff)
  qed
qed

text \<open>Stage 2: growing keeps the elements or fails without a trace.\<close>

definition vec2_grow :: "vec \<Rightarrow> (mem, nat option) stm" where
  "vec2_grow v =
     bindS (print_out (''Realloc'' @ endl)) (\<lambda>_.
     bindS (safe_copy (arr v) (vsize v) (vsize v * 2 + 1)) (\<lambda>na.
     bindS (delete_array (arr v)) (\<lambda>_. retS na)))"

lemma vec2_grow_ok:
  assumes inv: "arr_inv s v" and full: "used v = vsize v"
  shows "(\<exists>s'. vec2_grow v s = (Inl Bad_alloc, s') \<and> blocks s' = blocks s \<and> next_block s \<le> next_block s') \<or>
    (\<exists>b nb s'. vec2_grow v s = (Inr (Some nb), s') \<and> arr v = Some b \<and>
       arr_inv s' (v\<lparr>arr := Some nb, vsize := vsize v * 2 + 1\<rparr>) \<and>
       contents s' (v\<lparr>arr := Some nb, vsize := vsize v * 2 + 1\<rparr>) = contents s v \<and>
       outside s' (v\<lparr>arr := Some nb, vsize := vsize v * 2 + 1\<rparr>) = outside s v \<and>
       (\<forall>c. c \<noteq> b \<longrightarrow> blocks s c \<noteq> None \<longrightarrow> blocks s' c = blocks s c))"
proof -
  obtain b cells where b: "arr v = Some b" "blocks s b = Some cells" "length cells = vsize v"
    "\<forall>c \<in> set cells. owning c" and m: "mem_ok s"
    using inv by (auto simp: arr_inv_def)
  let ?s = "s\<lparr>outp := outp s @ ''Realloc'' @ endl\<rparr>"
  let ?nb = "next_block s" and ?m = "vsize v * 2 + 1"
  let ?nc = "take (vsize v) cells @ replicate (?m - vsize v) (Some default_elt)"
  have pr: "print_out (''Realloc'' @ endl) s = (Inr (), ?s)" by (simp add: print_out_def)
  have sc: "if fails (vsize v) ?s
    then \<exists>s'. safe_copy (Some b) (vsize v) ?m ?s = (Inl Bad_alloc, s') \<and> blocks s' = blocks ?s \<and>
       next_block s' = Suc (next_block ?s)
    else safe_copy (Some b) (vsize v) ?m ?s = (Inr (Some (next_block ?s)),
       ?s\<lparr>blocks := (blocks ?s)(next_block ?s \<mapsto> ?nc),
         next_block := Suc (next_block ?s), control := control ?s - int (vsize v)\<rparr>)"
    using b m by (intro safe_copy_ok) (auto simp: mem_ok_def)
  show ?thesis
  proof (cases "fails (vsize v) ?s")
    case True
    then show ?thesis using sc pr b(1) by (auto simp: vec2_grow_def bindS_def)
  next
    case False
    let ?s1 = "?s\<lparr>blocks := (blocks s)(?nb \<mapsto> ?nc), next_block := Suc ?nb, control := control s - int (vsize v)\<rparr>"
    let ?s2 = "?s1\<lparr>blocks := (blocks ?s1)(b := None)\<rparr>"
    let ?v = "v\<lparr>arr := Some ?nb, vsize := ?m\<rparr>"
    have ltb: "b < ?nb" using mem_ok_less [OF m b(2)] .
    have nn: "None \<notin> set cells" using b(4) by (auto simp: owning_def)
    have "safe_copy (Some b) (vsize v) ?m ?s = (Inr (Some ?nb), ?s1)" using sc False by simp
    moreover have "delete_array (Some b) ?s1 = (Inr (), ?s2)"
      using b(2) ltb nn by (intro delete_array_ok) auto
    ultimately have g: "vec2_grow v s = (Inr (Some ?nb), ?s2)"
      using pr b(1) by (simp add: vec2_grow_def bindS_def)
    have "arr_inv ?s2 ?v"
      using b m ltb full by (auto simp: arr_inv_def mem_ok_def dest: in_set_takeD)
    moreover have "contents ?s2 ?v = contents s v" using b ltb full by (simp add: contents_def)
    moreover have "outside ?s2 ?v = outside s v"
      using b ltb mem_ok_next [OF m] by (auto simp: outside_def fun_eq_iff)
    moreover have "\<forall>c. c \<noteq> b \<longrightarrow> blocks s c \<noteq> None \<longrightarrow> blocks ?s2 c = blocks s c"
      using mem_ok_next [OF m] by auto
    ultimately show ?thesis using g b(1) by blast
  qed
qed

lemma vec2_push_ok:
  assumes inv: "arr_inv s v" and t: "readable s t r"
    and own: "used v = vsize v \<longrightarrow> (\<forall>b i. arr v = Some b \<longrightarrow> t \<noteq> In_cell b i)"
  shows "push_result arr_inv r v s (vec2_push t v s)"
proof (cases "used v = vsize v")
  case False
  then have room: "used v < vsize v" using inv by (auto simp: arr_inv_def)
  then show ?thesis using push_assign_ok [OF inv room t] by (simp add: vec2_push_def)
next
  case True
  let ?m = "vsize v * 2 + 1"
  have vp: "vec2_push t v s =
      (case vec2_grow v s of
         (Inl e, s1) \<Rightarrow> (Inl e, v, s1)
       | (Inr na, s1) \<Rightarrow>
          (case assign_cell na (used v) t s1 of
             (Inl e, s2) \<Rightarrow> (Inl e, v\<lparr>arr := na, vsize := ?m\<rparr>, s2)
           | (Inr _, s2) \<Rightarrow> (Inr (), (v\<lparr>arr := na, vsize := ?m\<rparr>)\<lparr>used := Suc (used v)\<rparr>, s2)))"
    using True by (simp add: vec2_push_def vec2_grow_def Let_def split: sum.splits prod.splits)
  consider s' where "vec2_grow v s = (Inl Bad_alloc, s')" "blocks s' = blocks s" "next_block s \<le> next_block s'"
    | b nb s' where "vec2_grow v s = (Inr (Some nb), s')" "arr v = Some b"
       "arr_inv s' (v\<lparr>arr := Some nb, vsize := ?m\<rparr>)"
       "contents s' (v\<lparr>arr := Some nb, vsize := ?m\<rparr>) = contents s v"
       "outside s' (v\<lparr>arr := Some nb, vsize := ?m\<rparr>) = outside s v"
       "\<forall>c. c \<noteq> b \<longrightarrow> blocks s c \<noteq> None \<longrightarrow> blocks s' c = blocks s c"
    using vec2_grow_ok [OF inv True] by blast
  then show ?thesis
  proof cases
    case 1
    then show ?thesis using vp same_blocks [OF 1(2,3)] inv by (simp add: push_result_def)
  next
    case 2
    let ?v = "v\<lparr>arr := Some nb, vsize := ?m\<rparr>"
    have rd: "readable s' t r"
      using t own True 2(2,6) by (cases t) (auto simp: readable_def)
    have "push_result arr_inv r ?v s'
      (case assign_cell (arr ?v) (used ?v) t s' of
         (Inl e, s2) \<Rightarrow> (Inl e, ?v, s2)
       | (Inr _, s2) \<Rightarrow> (Inr (), ?v\<lparr>used := Suc (used ?v)\<rparr>, s2))"
      using True by (intro push_assign_ok [OF 2(3) _ rd]) simp
    then show ?thesis using 2(1,4,5) vp
      by (auto simp: push_result_def split: sum.splits prod.splits)
  qed
qed

section \<open>Stage 3\<close>

text \<open>Destroying a buffer frees it; the objects need not own anything any more.\<close>

lemma buf_dtor_ok:
  assumes "mem_ok s" "arr v = None \<and> used v = 0 \<or>
      (\<exists>b cells. arr v = Some b \<and> blocks s b = Some cells \<and> used v \<le> length cells \<and>
         (\<forall>i < used v. cells ! i \<noteq> None))"
  shows "buf_dtor v s = (Inr (), s\<lparr>blocks := outside s v\<rparr>)" and "mem_ok (s\<lparr>blocks := outside s v\<rparr>)"
proof -
  show "buf_dtor v s = (Inr (), s\<lparr>blocks := outside s v\<rparr>)"
  proof (cases "arr v")
    case None
    then show ?thesis using assms(2) by (simp add: buf_dtor_def bindS_def outside_def)
  next
    case (Some b)
    then obtain cells where c: "blocks s b = Some cells" "used v \<le> length cells"
      "\<forall>i < used v. cells ! i \<noteq> None"
      using assms(2) by auto
    have "destroy_range (Some b) 0 (used v) s = (Inr (), s\<lparr>blocks := (blocks s)(b \<mapsto>
        take 0 cells @ replicate (used v) None @ drop (0 + used v) cells)\<rparr>)"
      using c by (intro destroy_range_ok) auto
    moreover have "(blocks s)(b := None) = outside s v" using Some by (auto simp: outside_def)
    ultimately show ?thesis using Some
      by (simp add: buf_dtor_def bindS_def free_block_def fun_upd_same del: fun_upd_apply)
  qed
  show "mem_ok (s\<lparr>blocks := outside s v\<rparr>)" using assms(1) by (simp add: mem_ok_def outside_def)
qed

lemma buf_inv_dtor:
  assumes "buf_inv s v"
  shows "buf_dtor v s = (Inr (), s\<lparr>blocks := outside s v\<rparr>)" and "mem_ok (s\<lparr>blocks := outside s v\<rparr>)"
  using assms by (intro buf_dtor_ok; force simp: buf_inv_def owning_def)+

lemma buf_ctor_ok:
  assumes "mem_ok s"
  obtains v s' where "buf_ctor n s = (Inr v, s')" "vsize v = n" "used v = 0" "buf_inv s' v" "contents s' v = []"
    "outside s' v = blocks s" "next_block s \<le> next_block s'" "control s' = control s"
    "arr v = None \<or> arr v = Some (next_block s)"
proof (cases "n = 0")
  case True
  then show ?thesis using that [of "\<lparr>arr = None, vsize = 0, used = 0\<rparr>" s] assms
    by (simp add: buf_ctor_def new_raw_def bindS_def buf_inv_def contents_def outside_def)
next
  case False
  let ?s = "s\<lparr>blocks := (blocks s)(next_block s \<mapsto> replicate n None), next_block := Suc (next_block s)\<rparr>"
  let ?v = "\<lparr>arr = Some (next_block s), vsize = n, used = 0\<rparr>"
  have "outside ?s ?v = blocks s" using mem_ok_next [OF assms] by (auto simp: outside_def fun_eq_iff)
  then show ?thesis using that [of ?v ?s] assms False
    by (simp add: buf_ctor_def new_raw_def bindS_def buf_inv_def contents_def alloc_def mem_ok_def)
qed

text \<open>One element constructed at the end of a buffer with room.\<close>

lemma construct_end_ok:
  assumes inv: "buf_inv s v" and room: "used v < vsize v" and t: "readable s t r"
  shows "if control s = 0 then construct (arr v) (used v) t s = (Inl Bad_alloc, after_throw s)
    else \<exists>s'. construct (arr v) (used v) t s = (Inr (), s') \<and> buf_inv s' (v\<lparr>used := Suc (used v)\<rparr>) \<and>
      contents s' (v\<lparr>used := Suc (used v)\<rparr>) = contents s v @ [r] \<and>
      outside s' (v\<lparr>used := Suc (used v)\<rparr>) = outside s v \<and> next_block s' = next_block s"
proof -
  obtain b cells where b: "arr v = Some b" "blocks s b = Some cells" "length cells = vsize v"
    "\<forall>i < used v. owning (cells ! i)" "\<forall>i. used v \<le> i \<and> i < vsize v \<longrightarrow> cells ! i = None" and m: "mem_ok s"
    using inv room by (auto simp: buf_inv_def)
  let ?cells = "cells[used v := Some (Some r)]"
  have c: "construct (arr v) (used v) t s =
      (if control s = 0 then (Inl Bad_alloc, after_throw s)
       else (Inr (), s\<lparr>blocks := (blocks s)(b \<mapsto> ?cells), control := control s - 1\<rparr>))"
    using construct_ok [OF b(2) _ t] b room by simp
  have tk: "take (Suc (used v)) ?cells = take (used v) cells @ [Some (Some r)]"
    using b(3) room by (simp add: take_Suc_conv_app_nth)
  have "\<forall>i < Suc (used v). owning (?cells ! i)"
    using b(3,4) room by (auto simp: nth_list_update less_Suc_eq)
  then show ?thesis
    using c b room m tk
    by (auto simp: buf_inv_def contents_def outside_def mem_ok_def fun_eq_iff nth_list_update)
qed

lemma readable_outside:
  "readable s t r \<Longrightarrow> outside s' v' = blocks s \<Longrightarrow> readable s' t r"
  by (cases t) (auto simp: readable_def outside_def fun_eq_iff split: if_splits,
      metis option.distinct(1))

lemma vec3_copy_loop_ok:
  assumes "buf_inv s v" "arr rhs = Some a" "arr v \<noteq> Some a" "blocks s a = Some xs"
    and "used v + n \<le> length xs" "used v + n \<le> vsize v"
    and "\<forall>j. used v \<le> j \<and> j < used v + n \<longrightarrow> owning (xs ! j)"
  shows "\<exists>res v' s'. vec3_copy_loop rhs n v s = (res, v', s') \<and> buf_inv s' v' \<and>
    outside s' v' = outside s v \<and> next_block s' = next_block s \<and> arr v' = arr v \<and> vsize v' = vsize v \<and>
    (res = Inr () \<and> used v' = used v + n \<and>
       contents s' v' = contents s v @ map (the \<circ> the) (take n (drop (used v) xs)) \<or> res = Inl Bad_alloc)"
  using assms
proof (induction n arbitrary: v s)
  case (Suc n)
  obtain r where r: "xs ! used v = Some (Some r)" using Suc.prems(7) by (auto simp: owning_def)
  have rd: "readable s (In_cell a (used v)) r" using Suc.prems r by (auto simp: readable_def)
  have room: "used v < vsize v" using Suc.prems(6) by simp
  note ce = construct_end_ok [OF Suc.prems(1) room rd]
  show ?case
  proof (cases "control s = 0")
    case True
    then show ?thesis using ce Suc.prems(1,2) same_blocks [of "after_throw s" s] by simp
  next
    case False
    let ?v = "v\<lparr>used := Suc (used v)\<rparr>"
    obtain s1 where s1: "construct (arr v) (used v) (In_cell a (used v)) s = (Inr (), s1)" "buf_inv s1 ?v"
      "contents s1 ?v = contents s v @ [r]" "outside s1 ?v = outside s v" "next_block s1 = next_block s"
      using ce False by auto
    have bl: "blocks s1 a = Some xs"
      using s1(4) Suc.prems(3,4) by (auto simp: outside_def fun_eq_iff split: if_splits)
    have "\<exists>res v' s'. vec3_copy_loop rhs n ?v s1 = (res, v', s') \<and> buf_inv s' v' \<and>
      outside s' v' = outside s1 ?v \<and> next_block s' = next_block s1 \<and> arr v' = arr ?v \<and> vsize v' = vsize ?v \<and>
      (res = Inr () \<and> used v' = used ?v + n \<and>
         contents s' v' = contents s1 ?v @ map (the \<circ> the) (take n (drop (used ?v) xs)) \<or> res = Inl Bad_alloc)"
      using Suc.prems bl by (intro Suc.IH [OF s1(2)]) auto
    moreover have "take (Suc n) (drop (used v) xs) = xs ! used v # take n (drop (Suc (used v)) xs)"
      using Suc.prems(5) by (simp add: Cons_nth_drop_Suc [symmetric])
    ultimately show ?thesis using s1 Suc.prems(2) r by auto
  qed
qed simp

text \<open>With room for everything, pushing into \<^verbatim>\<open>tmp\<close> is the same construction loop.\<close>

lemma vec3_fill_loop:
  "used tmp + n \<le> vsize tmp \<Longrightarrow>
     vec3_fill (Suc f) (Some a) n tmp s = vec3_copy_loop \<lparr>arr = Some a, vsize = 0, used = 0\<rparr> n tmp s"
proof (induction n arbitrary: tmp s)
  case (Suc n)
  then show ?case
    by (auto simp: vec3_push_room_def split: sum.splits prod.splits)
qed simp

text \<open>Leaving with an exception: the local buffer disappears.\<close>

lemma unwind_ok:
  assumes "buf_inv s tmp"
  shows "unwind Bad_alloc tmp s = (Bad_alloc, s\<lparr>blocks := outside s tmp\<rparr>)"
  using buf_inv_dtor [OF assms] by (simp add: unwind_def)

lemma buf_inv_source:
  assumes "buf_inv s v" "used v \<noteq> 0"
  obtains a xs where "arr v = Some a" "blocks s a = Some xs" "used v \<le> length xs"
    "\<forall>j < used v. owning (xs ! j)" "contents s v = map (the \<circ> the) (take (used v) xs)"
  using assms by (auto simp: buf_inv_def contents_def)

text \<open>Copying all elements of \<open>v\<close> into a fresh buffer \<open>tmp\<close> with room for them.\<close>

lemma copy_all_ok:
  assumes v: "buf_inv s v" and tmp: "buf_inv s1 tmp" "used tmp = 0" "contents s1 tmp = []" "used v \<le> vsize tmp"
    and out: "outside s1 tmp = blocks s" and rhs: "arr rhs = arr v"
  shows "\<exists>res tmp' s'. vec3_copy_loop rhs (used v) tmp s1 = (res, tmp', s') \<and> buf_inv s' tmp' \<and>
    outside s' tmp' = blocks s \<and> next_block s' = next_block s1 \<and> vsize tmp' = vsize tmp \<and>
    (res = Inr () \<and> used tmp' = used v \<and> contents s' tmp' = contents s v \<or> res = Inl Bad_alloc)"
proof (cases "used v = 0")
  case True
  have "contents s v = []" using True by (simp add: contents_def split: option.split)
  then show ?thesis using True tmp out by simp
next
  case False
  then obtain a xs where a: "arr v = Some a" "blocks s a = Some xs" "used v \<le> length xs"
    "\<forall>j < used v. owning (xs ! j)" "contents s v = map (the \<circ> the) (take (used v) xs)"
    using buf_inv_source [OF v] by metis
  have ne: "arr tmp \<noteq> Some a" "blocks s1 a = Some xs"
    using out a(2) by (auto simp: outside_def fun_eq_iff split: if_splits) (metis option.distinct(1))+
  show ?thesis
    using vec3_copy_loop_ok [OF tmp(1) _ ne, of rhs "used v"] a tmp out rhs by auto
qed

lemma vec3_push_room_ok:
  assumes "buf_inv s v" "used v < vsize v" "readable s t r"
  shows "\<exists>res v' s'. vec3_push_room t v s = (res, v', s') \<and> buf_inv s' v' \<and> outside s' v' = outside s v \<and>
    next_block s' = next_block s \<and>
    (res = Inr () \<and> contents s' v' = contents s v @ [r] \<or>
     res = Inl Bad_alloc \<and> v' = v \<and> blocks s' = blocks s)"
  using construct_end_ok [OF assms] assms(1) same_blocks [of "after_throw s" s]
  by (auto simp: vec3_push_room_def split: if_splits)

text \<open>After a swap the old buffer is destroyed; the new one is not affected.\<close>

lemma other_dtor:
  assumes v: "buf_inv s v" and w: "buf_inv s3 w" and out: "outside s3 w = blocks s"
  shows "buf_inv s3 v" and "buf_inv (s3\<lparr>blocks := outside s3 v\<rparr>) w"
    and "contents (s3\<lparr>blocks := outside s3 v\<rparr>) w = contents s3 w"
    and "outside (s3\<lparr>blocks := outside s3 v\<rparr>) w = outside s v"
proof -
  have keep: "blocks s3 a = Some xs \<and> arr w \<noteq> Some a" if "blocks s a = Some xs" for a xs
    using fun_cong [OF out, of a] that by (auto simp: outside_def split: if_splits)
  have m: "mem_ok s3" using w by (simp add: buf_inv_def)
  show i3: "buf_inv s3 v" using v m keep by (auto simp: buf_inv_def)
  have ne: "arr w \<noteq> Some a" if "arr v = Some a" for a
    using that v keep by (auto simp: buf_inv_def)
  have same: "outside s3 v b = blocks s3 b" if "arr w = Some b" for b
    using that ne by (auto simp: outside_def)
  show "buf_inv (s3\<lparr>blocks := outside s3 v\<rparr>) w"
    using w buf_inv_dtor(2) [OF i3] same by (auto simp: buf_inv_def)
  show "contents (s3\<lparr>blocks := outside s3 v\<rparr>) w = contents s3 w"
    using same by (auto simp: contents_def split: option.split)
  show "outside (s3\<lparr>blocks := outside s3 v\<rparr>) w = outside s v"
  proof
    fix b
    show "outside (s3\<lparr>blocks := outside s3 v\<rparr>) w b = outside s v b"
      using fun_cong [OF out, of b] ne by (auto simp: outside_def split: if_splits)
  qed
qed

text \<open>The three ways a push into a full vector goes.\<close>

lemma vec3_push_full:
  assumes "used v = vsize v" "buf_ctor (vsize v * 2 + 1) s = (Inr tmp, s1)"
    and "vec3_fill (Suc 0) (arr v) (used v) tmp s1 = (res, tmp1, s2)"
  shows "res = Inl e \<Longrightarrow> unwind e tmp1 s2 = (e', s3) \<Longrightarrow> vec3_push t v s = (Inl e', v, s3)"
    and "res = Inr () \<Longrightarrow> vec3_push_fuel (Suc 0) t tmp1 s2 = (Inl e, tmp2, s3) \<Longrightarrow>
      unwind e tmp2 s3 = (e', s4) \<Longrightarrow> vec3_push t v s = (Inl e', v, s4)"
    and "res = Inr () \<Longrightarrow> vec3_push_fuel (Suc 0) t tmp1 s2 = (Inr (), tmp2, s3) \<Longrightarrow>
      buf_dtor v s3 = (Inr (), s4) \<Longrightarrow> vec3_push t v s = (Inr (), tmp2, s4)"
proof -
  have u: "vec3_push t v s = vec3_push_fuel (Suc (Suc 0)) t v s"
    by (simp only: vec3_push_def numeral_2_eq_2)
  note d = vec3_push_fuel.simps(2) [of "Suc 0" t v s]
  show "res = Inl e \<Longrightarrow> unwind e tmp1 s2 = (e', s3) \<Longrightarrow> vec3_push t v s = (Inl e', v, s3)"
    unfolding u d using assms by (simp del: vec3_push_fuel.simps vec3_fill.simps)
  show "res = Inr () \<Longrightarrow> vec3_push_fuel (Suc 0) t tmp1 s2 = (Inl e, tmp2, s3) \<Longrightarrow>
      unwind e tmp2 s3 = (e', s4) \<Longrightarrow> vec3_push t v s = (Inl e', v, s4)"
    unfolding u d using assms by (simp del: vec3_push_fuel.simps vec3_fill.simps)
  show "res = Inr () \<Longrightarrow> vec3_push_fuel (Suc 0) t tmp1 s2 = (Inr (), tmp2, s3) \<Longrightarrow>
      buf_dtor v s3 = (Inr (), s4) \<Longrightarrow> vec3_push t v s = (Inr (), tmp2, s4)"
    unfolding u d using assms
    by (simp del: vec3_push_fuel.simps vec3_fill.simps add: vec_swap_def buf_move_def buf_move_assign_def)
qed

text \<open>\<^verbatim>\<open>push\<close> of stage 3: on failure the vector object and the whole memory are as before.\<close>

lemma vec3_push_ok:
  assumes v: "buf_inv s v" and t: "readable s t r"
  shows "\<exists>res v' s'. vec3_push t v s = (res, v', s') \<and> buf_inv s' v' \<and> outside s' v' = outside s v \<and>
    (res = Inr () \<and> contents s' v' = contents s v @ [r] \<or>
     res = Inl Bad_alloc \<and> v' = v \<and> blocks s' = blocks s)"
proof (cases "used v = vsize v")
  case False
  then have lt: "used v < vsize v" using v by (auto simp: buf_inv_def)
  then have "vec3_push t v s = vec3_push_room t v s"
    unfolding vec3_push_def numeral_2_eq_2 vec3_push_fuel.simps(2) by simp
  then show ?thesis using vec3_push_room_ok [OF v lt t] by auto
next
  case True
  have m: "mem_ok s" using v by (simp add: buf_inv_def)
  obtain tmp s1 where tmp: "buf_ctor (vsize v * 2 + 1) s = (Inr tmp, s1)" "vsize tmp = vsize v * 2 + 1"
    "used tmp = 0" "buf_inv s1 tmp" "contents s1 tmp = []" "outside s1 tmp = blocks s" "next_block s \<le> next_block s1"
    using buf_ctor_ok [OF m] by metis
  let ?rhs = "\<lparr>arr = arr v, vsize = 0, used = 0\<rparr>"
  obtain res tmp1 s2 where l: "vec3_copy_loop ?rhs (used v) tmp s1 = (res, tmp1, s2)" "buf_inv s2 tmp1"
    "outside s2 tmp1 = blocks s" "next_block s2 = next_block s1" "vsize tmp1 = vsize tmp"
    "res = Inr () \<and> used tmp1 = used v \<and> contents s2 tmp1 = contents s v \<or> res = Inl Bad_alloc"
    using copy_all_ok [OF v tmp(4,3,5) _ tmp(6), of ?rhs] tmp(2) True by auto
  have fill: "vec3_fill (Suc 0) (arr v) (used v) tmp s1 = (res, tmp1, s2)"
  proof (cases "used v = 0")
    case True
    then show ?thesis using l(1) by simp
  next
    case False
    then obtain a where a: "arr v = Some a" using buf_inv_source [OF v] by metis
    have "vec3_fill (Suc 0) (Some a) (used v) tmp s1 =
        vec3_copy_loop \<lparr>arr = Some a, vsize = 0, used = 0\<rparr> (used v) tmp s1"
      using tmp(2,3) True by (intro vec3_fill_loop) simp
    then show ?thesis using l(1) by (simp only: a)
  qed
  note full = vec3_push_full [OF True tmp(1) fill]
  have gone: "buf_inv (s'\<lparr>blocks := blocks s\<rparr>) v" if "next_block s \<le> next_block s'" for s'
    by (rule same_blocks(2) [of "s'\<lparr>blocks := blocks s\<rparr>" s]) (use v that in simp_all)
  show ?thesis
  proof (cases "res = Inl Bad_alloc")
    case res: True
    then have "vec3_push t v s = (Inl Bad_alloc, v, s2\<lparr>blocks := blocks s\<rparr>)"
      using full(1) unwind_ok [OF l(2)] l(3) by simp
    then show ?thesis using gone [of s2] l(4) tmp(7) outside_cong [of "s2\<lparr>blocks := blocks s\<rparr>" s v] by simp
  next
    case False
    then have ok: "res = Inr ()" "used tmp1 = used v" "contents s2 tmp1 = contents s v" using l(6) by auto
    have rd: "readable s2 t r" by (rule readable_outside [OF t l(3)])
    have room: "used tmp1 < vsize tmp1" using ok l(5) tmp(2) True by simp
    obtain res2 tmp2 s3 where p: "vec3_push_room t tmp1 s2 = (res2, tmp2, s3)" "buf_inv s3 tmp2"
      "outside s3 tmp2 = blocks s" "next_block s3 = next_block s2"
      "res2 = Inr () \<and> contents s3 tmp2 = contents s2 tmp1 @ [r] \<or> res2 = Inl Bad_alloc"
      using vec3_push_room_ok [OF l(2) room rd] l(3) by auto
    have pf: "vec3_push_fuel (Suc 0) t tmp1 s2 = (res2, tmp2, s3)" using p(1) room by simp
    show ?thesis
    proof (cases "res2 = Inl Bad_alloc")
      case res2: True
      then have "vec3_push t v s = (Inl Bad_alloc, v, s3\<lparr>blocks := blocks s\<rparr>)"
        using full(2) [OF ok(1)] pf unwind_ok [OF p(2)] p(3) by simp
      then show ?thesis
        using gone [of s3] p(4) l(4) tmp(7) outside_cong [of "s3\<lparr>blocks := blocks s\<rparr>" s v] by simp
    next
      case False
      then have c: "res2 = Inr ()" "contents s3 tmp2 = contents s v @ [r]" using p(5) ok(3) by auto
      note od = other_dtor [OF v p(2,3)]
      have "vec3_push t v s = (Inr (), tmp2, s3\<lparr>blocks := outside s3 v\<rparr>)"
        using full(3) [OF ok(1)] pf c(1) buf_inv_dtor(1) [OF od(1)] by simp
      then show ?thesis using od c(2) by simp
    qed
  qed
qed

text \<open>Copy construction: an independent vector with the same elements, or nothing at all.\<close>

lemma vec3_copy_ok:
  assumes v: "buf_inv s v"
  shows "(\<exists>s'. vec3_copy v s = (Inl Bad_alloc, s') \<and> blocks s' = blocks s \<and> next_block s \<le> next_block s') \<or>
    (\<exists>w s'. vec3_copy v s = (Inr w, s') \<and> buf_inv s' w \<and> contents s' w = contents s v \<and>
       outside s' w = blocks s \<and> vsize w = used v)"
proof -
  have m: "mem_ok s" using v by (simp add: buf_inv_def)
  obtain tmp s1 where tmp: "buf_ctor (used v) s = (Inr tmp, s1)" "vsize tmp = used v"
    "used tmp = 0" "buf_inv s1 tmp" "contents s1 tmp = []" "outside s1 tmp = blocks s" "next_block s \<le> next_block s1"
    using buf_ctor_ok [OF m] by metis
  obtain res w s2 where l: "vec3_copy_loop v (used v) tmp s1 = (res, w, s2)" "buf_inv s2 w"
    "outside s2 w = blocks s" "next_block s2 = next_block s1" "vsize w = vsize tmp"
    "res = Inr () \<and> used w = used v \<and> contents s2 w = contents s v \<or> res = Inl Bad_alloc"
    using copy_all_ok [OF v tmp(4,3,5) _ tmp(6), of v] tmp(2) by auto
  show ?thesis
  proof (cases "res = Inl Bad_alloc")
    case True
    then show ?thesis using tmp(1,7) l(1,3,4) unwind_ok [OF l(2)] by (simp add: vec3_copy_def)
  next
    case False
    then show ?thesis using tmp(1,2) l by (auto simp: vec3_copy_def)
  qed
qed

lemma vec4_copy_eq: "vec4_copy = vec3_copy"
  by (simp add: fun_eq_iff vec4_copy_def vec3_copy_def)

lemma vec4_assign_eq: "vec4_assign = vec3_assign"
  by (simp add: fun_eq_iff vec4_assign_def vec3_assign_def vec4_copy_eq)

lemma vec4_pop_eq: "vec4_pop = vec3_pop" "vec4_top = vec3_top"
  by (simp_all add: fun_eq_iff vec4_pop_def vec3_pop_def vec4_top_def vec3_top_def)

text \<open>Copy assignment: all or nothing.\<close>

lemma vec3_assign_ok:
  assumes v: "buf_inv s v" and w: "buf_inv s w"
  shows "(\<exists>s'. vec3_assign w v s = (Inl Bad_alloc, v, s') \<and> blocks s' = blocks s \<and> next_block s \<le> next_block s') \<or>
    (\<exists>v' s'. vec3_assign w v s = (Inr (), v', s') \<and> buf_inv s' v' \<and> contents s' v' = contents s w \<and>
       outside s' v' = outside s v)"
proof -
  consider s' where "vec3_copy w s = (Inl Bad_alloc, s')" "blocks s' = blocks s" "next_block s \<le> next_block s'"
    | c s' where "vec3_copy w s = (Inr c, s')" "buf_inv s' c" "contents s' c = contents s w" "outside s' c = blocks s"
    using vec3_copy_ok [OF w] by blast
  then show ?thesis
  proof cases
    case 1
    then show ?thesis by (simp add: vec3_assign_def)
  next
    case 2
    note od = other_dtor [OF v 2(2,4)]
    have "vec3_assign w v s = (Inr (), c, s'\<lparr>blocks := outside s' v\<rparr>)"
      using 2(1) buf_inv_dtor(1) [OF od(1)]
      by (simp add: vec3_assign_def vec_swap_def buf_move_def buf_move_assign_def)
    then show ?thesis using od 2(3) by auto
  qed
qed

lemma vec3_pop_ok:
  assumes v: "buf_inv s v" and ne: "used v \<noteq> 0"
  shows "\<exists>v' s'. vec3_pop v s = (Inr (), v', s') \<and> buf_inv s' v' \<and> contents s' v' = butlast (contents s v) \<and>
    outside s' v' = outside s v"
proof -
  obtain b cells where b: "arr v = Some b" "blocks s b = Some cells" "length cells = vsize v"
    "\<forall>i < used v. owning (cells ! i)" "\<forall>i. used v \<le> i \<and> i < vsize v \<longrightarrow> cells ! i = None" "used v \<le> vsize v"
    and m: "mem_ok s"
    using v ne by (auto simp: buf_inv_def)
  let ?u = "used v - 1"
  let ?s = "s\<lparr>blocks := (blocks s)(b \<mapsto> cells[?u := None])\<rparr>" and ?v = "v\<lparr>used := ?u\<rparr>"
  have "owning (cells ! ?u)" using b(4) ne by simp
  then have "cells ! ?u \<noteq> None" by (auto simp: owning_def)
  then have "vec3_pop v s = (Inr (), ?v, ?s)"
    using b ne by (simp add: vec3_pop_def Let_def destroy_ok)
  moreover have "buf_inv ?s ?v"
    using b m ne by (auto simp: buf_inv_def mem_ok_def nth_list_update)
  moreover have "contents ?s ?v = butlast (contents s v)"
    using b ne by (simp add: contents_def map_butlast [symmetric] butlast_take)
  moreover have "outside ?s ?v = outside s v" using b by (auto simp: outside_def fun_eq_iff)
  ultimately show ?thesis by blast
qed

section \<open>Stage 4\<close>

lemma construct_move_Outside:
  "blocks s b = Some cells \<Longrightarrow> i < length cells \<Longrightarrow>
     construct_move (Some b) i (Outside x) s = (Inr (), s\<lparr>blocks := (blocks s)(b \<mapsto> cells[i := Some x])\<rparr>)"
  by (simp add: construct_move_def bindS_def ctl_move_def)

lemma construct_move_In_cell:
  assumes "blocks s b = Some cells" "i < length cells" "blocks s a = Some xs" "j < length xs"
    "xs ! j = Some x" "a \<noteq> b"
  shows "construct_move (Some b) i (In_cell a j) s =
    (Inr (), s\<lparr>blocks := (blocks s)(b \<mapsto> cells[i := Some x], a \<mapsto> xs[j := Some None])\<rparr>)"
  using assms by (simp add: construct_move_def bindS_def ctl_move_def read_ref_def fun_upd_def)

lemma buf_inv_append:
  assumes inv: "buf_inv s v" and b: "arr v = Some b" "blocks s b = Some cells" and room: "used v < vsize v"
    and s': "blocks s' b = Some (cells[used v := Some (Some r)])" "mem_ok s'"
  shows "buf_inv s' (v\<lparr>used := Suc (used v)\<rparr>)"
    and "contents s' (v\<lparr>used := Suc (used v)\<rparr>) = contents s v @ [r]"
proof -
  have c: "length cells = vsize v" "\<forall>i < used v. owning (cells ! i)"
    "\<forall>i. used v \<le> i \<and> i < vsize v \<longrightarrow> cells ! i = None"
    using inv b by (auto simp: buf_inv_def)
  show "buf_inv s' (v\<lparr>used := Suc (used v)\<rparr>)"
    using c b(1) room s' by (auto simp: buf_inv_def nth_list_update less_Suc_eq)
  show "contents s' (v\<lparr>used := Suc (used v)\<rparr>) = contents s v @ [r]"
    using c(1) b room s'(1) by (simp add: contents_def take_Suc_conv_app_nth)
qed

lemma vec4_fill_ok:
  assumes "buf_inv s tmp" "arr tmp = Some d" "a \<noteq> d" "blocks s a = Some xs"
    and "used tmp + n \<le> length xs" "used tmp + n \<le> vsize tmp"
    and "\<forall>j. used tmp \<le> j \<and> j < used tmp + n \<longrightarrow> owning (xs ! j)"
  shows "\<exists>s' xs'. vec4_fill (Suc f) (Some a) n tmp s = (Inr (), tmp\<lparr>used := used tmp + n\<rparr>, s') \<and>
    buf_inv s' (tmp\<lparr>used := used tmp + n\<rparr>) \<and>
    contents s' (tmp\<lparr>used := used tmp + n\<rparr>) = contents s tmp @ map (the \<circ> the) (take n (drop (used tmp) xs)) \<and>
    blocks s' a = Some xs' \<and> length xs' = length xs \<and> (\<forall>j < length xs. xs ! j \<noteq> None \<longrightarrow> xs' ! j \<noteq> None) \<and>
    (\<forall>c. c \<noteq> a \<and> c \<noteq> d \<longrightarrow> blocks s' c = blocks s c) \<and> next_block s' = next_block s"
  using assms
proof (induction n arbitrary: tmp s xs)
  case (Suc n)
  obtain cells where c: "blocks s d = Some cells" "length cells = vsize tmp" and m: "mem_ok s"
    using Suc.prems(1,2) by (auto simp: buf_inv_def)
  let ?u = "used tmp"
  obtain r where r: "xs ! ?u = Some (Some r)" using Suc.prems(7) by (auto simp: owning_def)
  let ?s = "s\<lparr>blocks := (blocks s)(d \<mapsto> cells[?u := Some (Some r)], a \<mapsto> xs[?u := Some None])\<rparr>"
  let ?t = "tmp\<lparr>used := Suc ?u\<rparr>" and ?xs = "xs[?u := Some None]"
  have room: "?u < vsize tmp" using Suc.prems(6) by simp
  have cm: "construct_move (Some d) ?u (In_cell a ?u) s = (Inr (), ?s)"
    using c Suc.prems r by (intro construct_move_In_cell) auto
  have m': "mem_ok ?s"
    using m mem_ok_less [OF m c(1)] mem_ok_less [OF m Suc.prems(4)] by (auto simp: mem_ok_def)
  have step: "vec4_push_move_fuel (Suc f) (In_cell a ?u) tmp s = (Inr (), ?t, ?s)"
    using cm room Suc.prems(2) by simp
  note ap = buf_inv_append [OF Suc.prems(1,2) c(1) room _ m', of r]
  have ap1: "buf_inv ?s ?t" "contents ?s ?t = contents s tmp @ [r]"
    using ap Suc.prems(3) by auto
  obtain s' xs' where ih: "vec4_fill (Suc f) (Some a) n ?t ?s = (Inr (), ?t\<lparr>used := used ?t + n\<rparr>, s')"
    "buf_inv s' (?t\<lparr>used := used ?t + n\<rparr>)"
    "contents s' (?t\<lparr>used := used ?t + n\<rparr>) = contents ?s ?t @ map (the \<circ> the) (take n (drop (used ?t) ?xs))"
    "blocks s' a = Some xs'" "length xs' = length ?xs" "\<forall>j < length ?xs. ?xs ! j \<noteq> None \<longrightarrow> xs' ! j \<noteq> None"
    "\<forall>c. c \<noteq> a \<and> c \<noteq> d \<longrightarrow> blocks s' c = blocks ?s c" "next_block s' = next_block ?s"
    using Suc.IH [OF ap1(1), of ?xs] Suc.prems by auto
  have dr: "take (Suc n) (drop ?u xs) = xs ! ?u # take n (drop (Suc ?u) xs)"
    using Suc.prems(5) by (simp add: Cons_nth_drop_Suc [symmetric])
  have keep: "\<forall>j < length xs. xs ! j \<noteq> None \<longrightarrow> xs' ! j \<noteq> None"
  proof (intro allI impI)
    fix j assume j: "j < length xs" "xs ! j \<noteq> None"
    then have "?xs ! j \<noteq> None" by (cases "j = ?u") simp_all
    then show "xs' ! j \<noteq> None" using ih(6) j by simp
  qed
  have "vec4_fill (Suc f) (Some a) (Suc n) tmp s = (Inr (), tmp\<lparr>used := ?u + Suc n\<rparr>, s')"
    using step ih(1) by simp
  then show ?case using ih ap1 dr r keep by auto
qed simp

text \<open>Moving an object in cannot fail.\<close>

lemma vec4_move_room_ok:
  assumes v: "buf_inv s v" and room: "used v < vsize v"
  shows "\<exists>s'. vec4_push_move_fuel (Suc f) (Outside (Some r)) v s = (Inr (), v\<lparr>used := Suc (used v)\<rparr>, s') \<and>
    buf_inv s' (v\<lparr>used := Suc (used v)\<rparr>) \<and> contents s' (v\<lparr>used := Suc (used v)\<rparr>) = contents s v @ [r] \<and>
    (\<forall>c. arr v \<noteq> Some c \<longrightarrow> blocks s' c = blocks s c)"
proof -
  obtain b cells where b: "arr v = Some b" "blocks s b = Some cells" "length cells = vsize v" and m: "mem_ok s"
    using v room by (auto simp: buf_inv_def)
  let ?s = "s\<lparr>blocks := (blocks s)(b \<mapsto> cells[used v := Some (Some r)])\<rparr>"
  have cm: "construct_move (Some b) (used v) (Outside (Some r)) s = (Inr (), ?s)"
    using b room by (intro construct_move_Outside) auto
  have m': "mem_ok ?s" using m mem_ok_less [OF m b(2)] by (auto simp: mem_ok_def)
  have "blocks ?s b = Some (cells[used v := Some (Some r)])" by simp
  note ap = buf_inv_append [OF v b(1,2) room this m']
  show ?thesis using cm b(1) room ap by auto
qed

lemma vec4_push_full:
  assumes "used v = vsize v"
    "bindS (print_out (''Realloc'' @ endl)) (\<lambda>_. buf_ctor (vsize v * 2 + 1)) s = (Inr tmp, s1)"
    and "vec4_fill (Suc 0) (arr v) (used v) tmp s1 = (Inr (), tmp1, s2)"
    and "vec4_push_move_fuel (Suc 0) t tmp1 s2 = (Inr (), tmp2, s3)" "buf_dtor v s3 = (Inr (), s4)"
  shows "vec4_push_move t v s = (Inr (), tmp2, s4)"
proof -
  have u: "vec4_push_move t v s = vec4_push_move_fuel (Suc (Suc 0)) t v s"
    by (simp only: vec4_push_move_def numeral_2_eq_2)
  show ?thesis
    unfolding u vec4_push_move_fuel.simps(2) [of "Suc 0" t v s] using assms
    by (simp del: vec4_push_move_fuel.simps vec4_fill.simps add: vec_swap_def buf_move_def buf_move_assign_def)
qed

text \<open>Moving all elements of \<open>v\<close> into a fresh buffer \<open>tmp\<close>; the emptied objects stay.\<close>

lemma move_all_ok:
  assumes v: "buf_inv s v" and tmp: "buf_inv s1 tmp" "used tmp = 0" "contents s1 tmp = []" "used v \<le> vsize tmp"
    and out: "outside s1 tmp = blocks s" and d: "arr tmp = Some d"
  obtains s2 where "vec4_fill (Suc 0) (arr v) (used v) tmp s1 = (Inr (), tmp\<lparr>used := used v\<rparr>, s2)"
    "buf_inv s2 (tmp\<lparr>used := used v\<rparr>)" "contents s2 (tmp\<lparr>used := used v\<rparr>) = contents s v"
    "\<forall>c. c \<noteq> d \<and> arr v \<noteq> Some c \<longrightarrow> blocks s2 c = blocks s c"
    "arr v = None \<and> used v = 0 \<or> (\<exists>a xs. arr v = Some a \<and> a \<noteq> d \<and> blocks s2 a = Some xs \<and> used v \<le> length xs \<and>
       (\<forall>i < used v. xs ! i \<noteq> None))"
proof (cases "used v = 0")
  case True
  have keep: "blocks s1 c = blocks s c" if "c \<noteq> d" for c
    using fun_cong [OF out, of c] that d by (simp add: outside_def)
  have sd: "blocks s d = None" using fun_cong [OF out, of d] d by (simp add: outside_def)
  have "tmp\<lparr>used := 0\<rparr> = tmp" using tmp(2) by simp
  moreover have "contents s v = []" using True by (simp add: contents_def split: option.split)
  moreover have "arr v = None \<or> (\<exists>a xs. arr v = Some a \<and> a \<noteq> d \<and> blocks s1 a = Some xs)"
    using v sd keep unfolding buf_inv_def by (metis option.distinct(1))
  ultimately show ?thesis using that [of s1] True tmp(1,3) keep by auto
next
  case False
  then obtain a xs where a: "arr v = Some a" "blocks s a = Some xs" "used v \<le> length xs"
    "\<forall>j < used v. owning (xs ! j)" "contents s v = map (the \<circ> the) (take (used v) xs)"
    using buf_inv_source [OF v] by metis
  have keep: "blocks s1 c = blocks s c" if "c \<noteq> d" for c
    using fun_cong [OF out, of c] that d by (simp add: outside_def)
  have "a \<noteq> d" using a(2) fun_cong [OF out, of d] d by (auto simp: outside_def)
  then have ad: "a \<noteq> d" "blocks s1 a = Some xs" using keep a(2) by auto
  let ?t = "tmp\<lparr>used := used tmp + used v\<rparr>"
  obtain s' xs' where g: "vec4_fill (Suc 0) (Some a) (used v) tmp s1 = (Inr (), ?t, s')" "buf_inv s' ?t"
    "contents s' ?t = contents s1 tmp @ map (the \<circ> the) (take (used v) (drop (used tmp) xs))"
    "blocks s' a = Some xs'" "length xs' = length xs"
    "\<forall>j < length xs. xs ! j \<noteq> None \<longrightarrow> xs' ! j \<noteq> None" "\<forall>c. c \<noteq> a \<and> c \<noteq> d \<longrightarrow> blocks s' c = blocks s1 c"
    using vec4_fill_ok [OF tmp(1) d ad, of "used v" 0] a tmp by auto
  have "\<forall>i < used v. xs' ! i \<noteq> None" using g(6) a(3,4) by (auto simp: owning_def)
  then show ?thesis using that [of s'] g a(1,3,5) ad(1) keep tmp(2,3) by auto
qed

lemma vec4_push_move_ok:
  assumes v: "buf_inv s v"
  shows "\<exists>v' s'. vec4_push_move (Outside (Some r)) v s = (Inr (), v', s') \<and> buf_inv s' v' \<and>
    contents s' v' = contents s v @ [r] \<and> outside s' v' = outside s v"
proof (cases "used v = vsize v")
  case False
  then have lt: "used v < vsize v" using v by (auto simp: buf_inv_def)
  obtain s' where "vec4_push_move_fuel (Suc (Suc 0)) (Outside (Some r)) v s = (Inr (), v\<lparr>used := Suc (used v)\<rparr>, s')"
    "buf_inv s' (v\<lparr>used := Suc (used v)\<rparr>)" "contents s' (v\<lparr>used := Suc (used v)\<rparr>) = contents s v @ [r]"
    "\<forall>c. arr v \<noteq> Some c \<longrightarrow> blocks s' c = blocks s c"
    using vec4_move_room_ok [OF v lt] by blast
  moreover from this(4) have "outside s' (v\<lparr>used := Suc (used v)\<rparr>) = outside s v"
    by (auto simp: outside_def fun_eq_iff)
  ultimately show ?thesis
    unfolding vec4_push_move_def numeral_2_eq_2 by blast
next
  case True
  let ?s0 = "s\<lparr>outp := outp s @ ''Realloc'' @ endl\<rparr>"
  have m: "mem_ok ?s0" using v by (simp add: buf_inv_def mem_ok_def)
  obtain tmp s1 where tmp: "buf_ctor (vsize v * 2 + 1) ?s0 = (Inr tmp, s1)" "vsize tmp = vsize v * 2 + 1"
    "used tmp = 0" "buf_inv s1 tmp" "contents s1 tmp = []" "outside s1 tmp = blocks ?s0"
    using buf_ctor_ok [OF m] by metis
  have ct: "bindS (print_out (''Realloc'' @ endl)) (\<lambda>_. buf_ctor (vsize v * 2 + 1)) s = (Inr tmp, s1)"
    using tmp(1) by (simp add: bindS_def print_out_def)
  obtain d where d: "arr tmp = Some d" using tmp(2,4) by (auto simp: buf_inv_def)
  have sd: "blocks s d = None" using fun_cong [OF tmp(6), of d] d by (simp add: outside_def)
  let ?t1 = "tmp\<lparr>used := used v\<rparr>"
  obtain s2 where f: "vec4_fill (Suc 0) (arr v) (used v) tmp s1 = (Inr (), ?t1, s2)" "buf_inv s2 ?t1"
    "contents s2 ?t1 = contents s v" "\<forall>c. c \<noteq> d \<and> arr v \<noteq> Some c \<longrightarrow> blocks s2 c = blocks s c"
    "arr v = None \<and> used v = 0 \<or> (\<exists>a xs. arr v = Some a \<and> a \<noteq> d \<and> blocks s2 a = Some xs \<and> used v \<le> length xs \<and>
       (\<forall>i < used v. xs ! i \<noteq> None))"
  proof (rule move_all_ok [OF v tmp(4,3,5) _ _ d])
    show "used v \<le> vsize tmp" "outside s1 tmp = blocks s" using tmp(2,6) True by simp_all
  qed
  have room: "used ?t1 < vsize ?t1" using tmp(2) True by simp
  let ?t2 = "?t1\<lparr>used := Suc (used ?t1)\<rparr>"
  obtain s3 where p: "vec4_push_move_fuel (Suc 0) (Outside (Some r)) ?t1 s2 = (Inr (), ?t2, s3)" "buf_inv s3 ?t2"
    "contents s3 ?t2 = contents s2 ?t1 @ [r]" "\<forall>c. arr ?t1 \<noteq> Some c \<longrightarrow> blocks s3 c = blocks s2 c"
    using vec4_move_room_ok [OF f(2) room] by blast
  have m3: "mem_ok s3" using p(2) by (simp add: buf_inv_def)
  let ?s4 = "s3\<lparr>blocks := outside s3 v\<rparr>"
  have dt: "buf_dtor v s3 = (Inr (), ?s4)" "mem_ok ?s4"
    using f(5) p(4) d by (intro buf_dtor_ok [OF m3]; auto)+
  have push: "vec4_push_move (Outside (Some r)) v s = (Inr (), ?t2, ?s4)"
    by (rule vec4_push_full [OF True ct f(1) p(1) dt(1)])
  have vd: "arr v \<noteq> Some d" using f(5) by auto
  have "buf_inv ?s4 ?t2" using p(2) dt(2) d vd by (simp add: buf_inv_def outside_def)
  moreover have "contents ?s4 ?t2 = contents s v @ [r]"
    using p(3) f(3) d vd by (simp add: contents_def outside_def)
  moreover have "outside ?s4 ?t2 = outside s v"
    using f(4) p(4) d sd by (auto simp: outside_def fun_eq_iff)
  ultimately show ?thesis using push by blast
qed

lemma vec4_push_ok:
  assumes v: "buf_inv s v" and t: "readable s t r"
  shows "\<exists>res v' s'. vec4_push t v s = (res, v', s') \<and> buf_inv s' v' \<and> outside s' v' = outside s v \<and>
    (res = Inr () \<and> contents s' v' = contents s v @ [r] \<or>
     res = Inl Bad_alloc \<and> v' = v \<and> blocks s' = blocks s)"
proof (cases "control s = 0")
  case True
  then have "vec4_push t v s = (Inl Bad_alloc, v, after_throw s)"
    using read_ref_ok [OF t] by (simp add: vec4_push_def bindS_def ctl_copy_ok)
  then show ?thesis using v same_blocks [of "after_throw s" s] by simp
next
  case False
  let ?s = "s\<lparr>control := control s - 1\<rparr>"
  have inv: "buf_inv ?s v" and same: "contents ?s v = contents s v" "outside ?s v = outside s v"
    using v same_blocks [of ?s s] by auto
  have "vec4_push t v s = vec4_push_move (Outside (Some r)) v ?s"
    using False read_ref_ok [OF t] by (simp add: vec4_push_def bindS_def ctl_copy_ok)
  then show ?thesis using vec4_push_move_ok [OF inv, of r] same by auto
qed

end
