(* ===== verification/MyVec_Props.thy ===== *)
theory MyVec_Props
  imports MyVec_Safety
begin

text \<open>
  The interfaces the vectors of \<^verbatim>\<open>08-exceptions/myvec-demo\<close> implement, what their
  users may rely on, and the properties of the four stages.
\<close>

section \<open>Interfaces\<close>

text \<open>
  A stack whose \<^verbatim>\<open>push\<close> is all or nothing. \<open>arg_ok\<close> is what a stage asks of the reference
  given to \<^verbatim>\<open>push\<close>.
\<close>

locale safe_stack =
  fixes good :: "mem \<Rightarrow> vec \<Rightarrow> bool"
    and arg_ok :: "vec \<Rightarrow> ref \<Rightarrow> bool"
    and push :: "ref \<Rightarrow> unit meth"
    and pop :: "unit meth"
  assumes push_ok: "good s v \<Longrightarrow> readable s t r \<Longrightarrow> arg_ok v t \<Longrightarrow> push_result good r v s (push t v s)"
    and outside_arg: "arg_ok v (Outside x)"
    and pop_ok: "good s v \<Longrightarrow> used v \<noteq> 0 \<Longrightarrow> \<exists>v' s'. pop v s = (Inr (), v', s') \<and> good s' v' \<and>
      contents s' v' = butlast (contents s v) \<and> outside s' v' = outside s v"
    and pop_empty: "good s v \<Longrightarrow> used v = 0 \<Longrightarrow> \<exists>e. pop v s = (Inl e, v, s)"
begin

lemma push_all_ok:
  assumes "good s v"
  shows "\<exists>res v' s' k. push_all push (map (\<lambda>r. Outside (Some r)) rs) v s = (res, v', s') \<and> good s' v' \<and>
     outside s' v' = outside s v \<and> k \<le> length rs \<and> contents s' v' = contents s v @ take k rs \<and>
     (res = Inr () \<and> k = length rs \<or> res = Inl Bad_alloc \<and> k < length rs)"
  using assms
proof (induction rs arbitrary: v s)
  case Nil
  then show ?case by simp
next
  case (Cons r rs)
  have rd: "readable s (Outside (Some r)) r" by (simp add: readable_def)
  obtain res v1 s1 where p: "push (Outside (Some r)) v s = (res, v1, s1)" by (metis prod_cases3)
  have pr: "good s1 v1" "outside s1 v1 = outside s v"
    "res = Inr () \<and> contents s1 v1 = contents s v @ [r] \<or> res = Inl Bad_alloc \<and> contents s1 v1 = contents s v"
    using push_ok [OF Cons.prems rd outside_arg] p by (auto simp: push_result_def)
  show ?case
  proof (cases "res = Inr ()")
    case True
    obtain res2 v2 s2 k where k: "push_all push (map (\<lambda>r. Outside (Some r)) rs) v1 s1 = (res2, v2, s2)" "good s2 v2"
      "outside s2 v2 = outside s1 v1" "k \<le> length rs" "contents s2 v2 = contents s1 v1 @ take k rs"
      "res2 = Inr () \<and> k = length rs \<or> res2 = Inl Bad_alloc \<and> k < length rs"
      using Cons.IH [OF pr(1)] by blast
    then show ?thesis
      using p pr True by (intro exI [of _ res2] exI [of _ v2] exI [of _ s2] exI [of _ "Suc k"]) auto
  next
    case False
    then show ?thesis
      using p pr by (intro exI [of _ res] exI [of _ v1] exI [of _ s1] exI [of _ 0]) auto
  qed
qed

end

text \<open>A vector that can also be copied and destroyed without a trace.\<close>

locale safe_vector = safe_stack +
  fixes ctor :: "nat \<Rightarrow> (mem, vec) stm"
    and copy :: "vec \<Rightarrow> (mem, vec) stm"
    and dtor :: "vec \<Rightarrow> (mem, unit) stm"
  assumes ctor_ok: "mem_ok s \<Longrightarrow> \<exists>v s'. ctor n s = (Inr v, s') \<and> good s' v \<and> contents s' v = [] \<and>
      outside s' v = blocks s"
    and copy_ok: "good s v \<Longrightarrow>
      (\<exists>s'. copy v s = (Inl Bad_alloc, s') \<and> blocks s' = blocks s \<and> good s' v) \<or>
      (\<exists>w s'. copy v s = (Inr w, s') \<and> good s' w \<and> good s' v \<and> contents s' w = contents s v \<and>
         contents s' v = contents s v \<and> outside s' w = blocks s)"
    and dtor_ok: "good s v \<Longrightarrow> \<exists>s'. dtor v s = (Inr (), s') \<and> blocks s' = outside s v"
begin

text \<open>
  Creating a vector, pushing any objects, and destroying it gives the memory back, whether the
  pushes succeeded or threw.
\<close>

lemma lifetime_ok:
  assumes "mem_ok s"
  shows "\<exists>v s1 res v' s2 k s3. ctor n s = (Inr v, s1) \<and>
     push_all push (map (\<lambda>r. Outside (Some r)) rs) v s1 = (res, v', s2) \<and>
     contents s2 v' = take k rs \<and> (res = Inr () \<and> k = length rs \<or> res = Inl Bad_alloc \<and> k < length rs) \<and>
     dtor v' s2 = (Inr (), s3) \<and> blocks s3 = blocks s"
proof -
  obtain v s1 where v: "ctor n s = (Inr v, s1)" "good s1 v" "contents s1 v = []" "outside s1 v = blocks s"
    using ctor_ok [OF assms] by blast
  obtain res v' s2 k where p: "push_all push (map (\<lambda>r. Outside (Some r)) rs) v s1 = (res, v', s2)" "good s2 v'"
    "outside s2 v' = outside s1 v" "contents s2 v' = contents s1 v @ take k rs"
    "res = Inr () \<and> k = length rs \<or> res = Inl Bad_alloc \<and> k < length rs"
    using push_all_ok [OF v(2)] by blast
  obtain s3 where "dtor v' s2 = (Inr (), s3)" "blocks s3 = outside s2 v'" using dtor_ok [OF p(2)] by blast
  then show ?thesis using v p
    by (intro exI [of _ v] exI [of _ s1] exI [of _ res] exI [of _ v'] exI [of _ s2] exI [of _ k] exI [of _ s3]) simp
qed

text \<open>A copy can be changed and destroyed without touching the original.\<close>

lemma copy_independent:
  assumes "good s v" "copy v s = (Inr w, s1)"
    and "push_all push (map (\<lambda>r. Outside (Some r)) rs) w s1 = (res, w', s2)" "dtor w' s2 = (Inr (), s3)"
  shows "blocks s3 = blocks s"
proof -
  have w: "good s1 w" "outside s1 w = blocks s" using copy_ok [OF assms(1)] assms(2) by auto
  have "good s2 w'" "outside s2 w' = outside s1 w" using push_all_ok [OF w(1), of rs] assms(3) by auto
  then show ?thesis using dtor_ok [of s2 w'] assms(4) w(2) by auto
qed

end

section \<open>The stages as implementations\<close>

definition not_own :: "vec \<Rightarrow> ref \<Rightarrow> bool" where
  "not_own v t \<longleftrightarrow> (used v = vsize v \<longrightarrow> (\<forall>b i. arr v = Some b \<longrightarrow> t \<noteq> In_cell b i))"

lemma vec2_pop_ok:
  assumes "arr_inv s v" "used v \<noteq> 0"
  shows "\<exists>v' s'. vec2_pop v s = (Inr (), v', s') \<and> arr_inv s' v' \<and>
      contents s' v' = butlast (contents s v) \<and> outside s' v' = outside s v"
  using assms by (auto simp: vec2_pop_def arr_inv_def contents_def outside_def map_butlast [symmetric] butlast_take)

interpretation st2: safe_stack arr_inv not_own vec2_push vec2_pop
proof
  show "push_result arr_inv r v s (vec2_push t v s)"
    if "arr_inv s v" "readable s t r" "not_own v t" for s v t r
    using vec2_push_ok [OF that(1,2)] that(3) by (simp add: not_own_def)
  show "\<exists>v' s'. vec2_pop v s = (Inr (), v', s') \<and> arr_inv s' v' \<and>
      contents s' v' = butlast (contents s v) \<and> outside s' v' = outside s v"
    if "arr_inv s v" "used v \<noteq> 0" for s v
    by (rule vec2_pop_ok [OF that])
qed (auto simp: not_own_def vec2_pop_def)

lemma strong_push_result:
  assumes "\<exists>res v' s'. out = (res, v', s') \<and> buf_inv s' v' \<and> outside s' v' = outside s v \<and>
    (res = Inr () \<and> contents s' v' = contents s v @ [r] \<or> res = Inl Bad_alloc \<and> v' = v \<and> blocks s' = blocks s)"
  shows "push_result buf_inv r v s out"
proof -
  obtain res v' s' where o: "out = (res, v', s')" "buf_inv s' v'" "outside s' v' = outside s v"
    "res = Inr () \<and> contents s' v' = contents s v @ [r] \<or> res = Inl Bad_alloc \<and> v' = v \<and> blocks s' = blocks s"
    using assms by blast
  have "contents s' v = contents s v" if "blocks s' = blocks s"
    using that by (simp add: contents_def split: option.split)
  then show ?thesis using o unfolding push_result_def by (elim disjE) simp_all
qed

lemma vec3_pop_empty: "buf_inv s v \<Longrightarrow> used v = 0 \<Longrightarrow> \<exists>e. vec3_pop v s = (Inl e, v, s)"
  by (simp add: vec3_pop_def)

lemma buf_copy_ok:
  assumes v: "buf_inv s v"
  shows "(\<exists>s'. vec3_copy v s = (Inl Bad_alloc, s') \<and> blocks s' = blocks s \<and> buf_inv s' v) \<or>
      (\<exists>w s'. vec3_copy v s = (Inr w, s') \<and> buf_inv s' w \<and> buf_inv s' v \<and> contents s' w = contents s v \<and>
         contents s' v = contents s v \<and> outside s' w = blocks s)"
  using vec3_copy_ok [OF v]
proof (elim disjE exE conjE)
  fix s' assume "vec3_copy v s = (Inl Bad_alloc, s')" "blocks s' = blocks s" "next_block s \<le> next_block s'"
  then show ?thesis using same_blocks(2) [of s' s, OF _ _ v] by blast
next
  fix w s' assume c: "vec3_copy v s = (Inr w, s')" "buf_inv s' w" "contents s' w = contents s v" "outside s' w = blocks s"
  have "blocks s' b = blocks s b" if "arr v = Some b" "blocks s b \<noteq> None" for b
    using fun_cong [OF c(4), of b] that by (auto simp: outside_def split: if_splits)
  then have "contents s' v = contents s v"
    using v by (auto simp: contents_def buf_inv_def split: option.splits)
  then show ?thesis using c other_dtor(1) [OF v c(2,4)] by blast
qed

interpretation st3: safe_vector buf_inv "\<lambda>v t. True" vec3_push vec3_pop buf_ctor vec3_copy buf_dtor
proof
  show "push_result buf_inv r v s (vec3_push t v s)" if "buf_inv s v" "readable s t r" for s v t r
    by (rule strong_push_result [OF vec3_push_ok [OF that]])
  show "\<exists>v s'. buf_ctor n s = (Inr v, s') \<and> buf_inv s' v \<and> contents s' v = [] \<and> outside s' v = blocks s"
    if "mem_ok s" for s n
    using buf_ctor_ok [OF that] by metis
  show "\<exists>s'. buf_dtor v s = (Inr (), s') \<and> blocks s' = outside s v" if "buf_inv s v" for s v
    using buf_inv_dtor [OF that] by simp
qed (rule TrueI vec3_pop_ok vec3_pop_empty buf_copy_ok; assumption)+

interpretation st4: safe_vector buf_inv "\<lambda>v t. True" vec4_push vec4_pop buf_ctor vec4_copy buf_dtor
proof
  show "push_result buf_inv r v s (vec4_push t v s)" if "buf_inv s v" "readable s t r" for s v t r
    by (rule strong_push_result [OF vec4_push_ok [OF that]])
  show "\<exists>v s'. buf_ctor n s = (Inr v, s') \<and> buf_inv s' v \<and> contents s' v = [] \<and> outside s' v = blocks s"
    if "mem_ok s" for s n
    using buf_ctor_ok [OF that] by metis
  show "\<exists>s'. buf_dtor v s = (Inr (), s') \<and> blocks s' = outside s v" if "buf_inv s v" for s v
    using buf_inv_dtor [OF that] by simp
qed (unfold vec4_pop_eq vec4_copy_eq, (rule TrueI vec3_pop_ok vec3_pop_empty buf_copy_ok; assumption)+)

section \<open>Properties\<close>

lemma mem_ok_mem0: "mem_ok mem0"
  by (simp add: mem_ok_def mem0_def)

text \<open>A small vector for the concrete instances: one block, three cells, two of them in use.\<close>

definition sample :: mem where
  "sample = mem0\<lparr>blocks := (\<lambda>b. if b = 0 then Some [Some (Some 7), Some (Some 8), None] else None), next_block := 1\<rparr>"

definition sample_full :: mem where
  "sample_full = mem0\<lparr>blocks := (\<lambda>b. if b = 0 then Some [Some (Some 7), Some (Some 8)] else None), next_block := 1\<rparr>"

definition svec :: "nat \<Rightarrow> vec" where
  "svec n = \<lparr>arr = Some 0, vsize = n, used = 2\<rparr>"

lemma sample_inv: "buf_inv sample (svec 3)" "buf_inv sample_full (svec 2)" "arr_inv sample_full (svec 2)"
  by (auto simp: buf_inv_def arr_inv_def mem_ok_def sample_def sample_full_def svec_def mem0_def less_2_cases_iff
      owning_def nth_Cons' numeral_3_eq_3 less_Suc_eq numeral_2_eq_2)

lemma sample_readable: "readable sample_full (In_cell 0 1) 8"
  by (simp add: readable_def sample_full_def)

text \<open>
  C5. The strong exception guarantee of stages 3 and 4: \<^verbatim>\<open>push\<close> either appends the element, or
  throws \<^verbatim>\<open>bad_alloc\<close> and leaves the vector object and all of the memory exactly as they were. The
  reference may point into the vector itself, also when it has to grow. Nothing outside the
  vector is touched or left allocated.
\<close>

theorem push_strong_guarantee:
  assumes "buf_inv s v" "readable s t r"
  shows "(\<exists>res v' s'. vec3_push t v s = (res, v', s') \<and> buf_inv s' v' \<and> outside s' v' = outside s v \<and>
      (res = Inr () \<and> contents s' v' = contents s v @ [r] \<or>
       res = Inl Bad_alloc \<and> v' = v \<and> blocks s' = blocks s)) \<and>
    (\<exists>res v' s'. vec4_push t v s = (res, v', s') \<and> buf_inv s' v' \<and> outside s' v' = outside s v \<and>
      (res = Inr () \<and> contents s' v' = contents s v @ [r] \<or>
       res = Inl Bad_alloc \<and> v' = v \<and> blocks s' = blocks s))"
  using vec3_push_ok [OF assms] vec4_push_ok [OF assms] by blast

theorem push_strong_guarantee_witness:
  "\<exists>res v' s'. vec3_push (In_cell 0 1) (svec 2) sample_full = (res, v', s') \<and> buf_inv s' v' \<and>
     outside s' v' = outside sample_full (svec 2) \<and>
     (res = Inr () \<and> contents s' v' = contents sample_full (svec 2) @ [8] \<or>
      res = Inl Bad_alloc \<and> v' = svec 2 \<and> blocks s' = blocks sample_full)"
  using push_strong_guarantee [OF sample_inv(2) sample_readable] by blast

text \<open>
  C19. Copy construction and copy assignment of stages 3 and 4 are all or nothing: a copy has the same
  elements in memory of its own and leaves the original valid, an assignment leaves the receiver
  with the elements of the source and frees its old buffer, and when an element's copy throws the memory is
  what it was before.
\<close>

theorem copy_strong_guarantee:
  assumes "buf_inv s v" "buf_inv s w"
  shows "((\<exists>s'. vec4_copy v s = (Inl Bad_alloc, s') \<and> blocks s' = blocks s \<and> buf_inv s' v) \<or>
      (\<exists>c s'. vec4_copy v s = (Inr c, s') \<and> buf_inv s' c \<and> buf_inv s' v \<and> contents s' c = contents s v \<and>
         contents s' v = contents s v \<and> outside s' c = blocks s)) \<and>
    ((\<exists>s'. vec4_assign w v s = (Inl Bad_alloc, v, s') \<and> blocks s' = blocks s) \<or>
      (\<exists>v' s'. vec4_assign w v s = (Inr (), v', s') \<and> buf_inv s' v' \<and> contents s' v' = contents s w \<and>
         outside s' v' = outside s v)) \<and>
    vec3_copy v s = vec4_copy v s \<and> vec3_assign w v s = vec4_assign w v s"
  using buf_copy_ok [OF assms(1)] vec3_assign_ok [OF assms] unfolding vec4_copy_eq vec4_assign_eq by blast

theorem copy_strong_guarantee_witness:
  "(\<exists>s'. vec4_copy (svec 3) sample = (Inl Bad_alloc, s') \<and> blocks s' = blocks sample \<and> buf_inv s' (svec 3)) \<or>
   (\<exists>c s'. vec4_copy (svec 3) sample = (Inr c, s') \<and> buf_inv s' c \<and> buf_inv s' (svec 3) \<and>
      contents s' c = contents sample (svec 3) \<and> contents s' (svec 3) = contents sample (svec 3) \<and>
      outside s' c = blocks sample)"
  using copy_strong_guarantee [OF sample_inv(1) sample_inv(1)] by blast

text \<open>
  No leak over a whole lifetime: create a stage 3 or stage 4 vector, push any objects until done
  or until one push throws, destroy it; the elements were a prefix of what was pushed, and the memory
  is back to what it was.
\<close>

theorem lifetime_no_leak:
  assumes "mem_ok s"
  shows "(\<exists>v s1 res v' s2 k s3. buf_ctor n s = (Inr v, s1) \<and>
     push_all vec3_push (map (\<lambda>r. Outside (Some r)) rs) v s1 = (res, v', s2) \<and>
     contents s2 v' = take k rs \<and> (res = Inr () \<and> k = length rs \<or> res = Inl Bad_alloc \<and> k < length rs) \<and>
     buf_dtor v' s2 = (Inr (), s3) \<and> blocks s3 = blocks s) \<and>
    (\<exists>v s1 res v' s2 k s3. buf_ctor n s = (Inr v, s1) \<and>
     push_all vec4_push (map (\<lambda>r. Outside (Some r)) rs) v s1 = (res, v', s2) \<and>
     contents s2 v' = take k rs \<and> (res = Inr () \<and> k = length rs \<or> res = Inl Bad_alloc \<and> k < length rs) \<and>
     buf_dtor v' s2 = (Inr (), s3) \<and> blocks s3 = blocks s)"
  using st3.lifetime_ok [OF assms] st4.lifetime_ok [OF assms] by blast

theorem lifetime_no_leak_witness:
  "\<exists>v s1 res v' s2 k s3. buf_ctor 1 mem0 = (Inr v, s1) \<and>
     push_all vec3_push (map (\<lambda>r. Outside (Some r)) [1, 2, 3]) v s1 = (res, v', s2) \<and>
     contents s2 v' = take k [1, 2, 3] \<and>
     (res = Inr () \<and> k = length [1, 2, 3 :: int] \<or> res = Inl Bad_alloc \<and> k < length [1, 2, 3 :: int]) \<and>
     buf_dtor v' s2 = (Inr (), s3) \<and> blocks s3 = blocks mem0"
  by (rule conjunct1 [OF lifetime_no_leak [OF mem_ok_mem0, where n = 1 and rs = "[1, 2, 3]"]])

text \<open>
  Stage 2: as long as the pushed reference does not point into a full vector, \<^verbatim>\<open>push\<close> appends or
  throws with the elements unchanged, and the memory outside is untouched; nothing leaks.
\<close>

theorem stage2_push:
  assumes "arr_inv s v" "readable s t r" "used v = vsize v \<longrightarrow> (\<forall>b i. arr v = Some b \<longrightarrow> t \<noteq> In_cell b i)"
  shows "\<exists>res v' s'. vec2_push t v s = (res, v', s') \<and> arr_inv s' v' \<and> outside s' v' = outside s v \<and>
      (res = Inr () \<and> contents s' v' = contents s v @ [r] \<or> res = Inl Bad_alloc \<and> contents s' v' = contents s v)"
  using st2.push_ok [OF assms(1,2)] assms(3) by (cases "vec2_push t v s") (auto simp: push_result_def not_own_def)

theorem stage2_push_witness:
  "\<exists>res v' s'. vec2_push (Outside (Some 9)) (svec 2) sample_full = (res, v', s') \<and> arr_inv s' v' \<and>
     outside s' v' = outside sample_full (svec 2) \<and>
     (res = Inr () \<and> contents s' v' = contents sample_full (svec 2) @ [9] \<or>
      res = Inl Bad_alloc \<and> contents s' v' = contents sample_full (svec 2))"
  by (rule stage2_push [OF sample_inv(3)]) (auto simp: readable_def)

text \<open>
  Stage 2 reads freed memory when an element of a full vector is pushed to that vector: the old
  array, which the argument refers to, is deleted before the argument is read.
\<close>

theorem stage2_push_own_element:
  assumes inv: "arr_inv s v" and full: "used v = vsize v" and b: "arr v = Some b" and ok: "\<not> fails (vsize v) s"
  shows "fst (vec2_push (In_cell b i) v s) = Inl Undefined_behaviour"
proof -
  let ?m = "vsize v * 2 + 1"
  obtain cells where c: "blocks s b = Some cells" "length cells = vsize v" "\<forall>c \<in> set cells. owning c" and m: "mem_ok s"
    using inv b by (auto simp: arr_inv_def)
  let ?s = "s\<lparr>outp := outp s @ ''Realloc'' @ endl\<rparr>"
  let ?nc = "take (vsize v) cells @ replicate (?m - vsize v) (Some default_elt)"
  let ?s1 = "?s\<lparr>blocks := (blocks ?s)(next_block ?s \<mapsto> ?nc), next_block := Suc (next_block ?s), control := control ?s - int (vsize v)\<rparr>"
  have nf: "\<not> fails (vsize v) ?s" using ok by (simp add: fails_def)
  have ltb: "b < next_block s" using mem_ok_less [OF m c(1)] .
  have m0: "mem_ok ?s" using m by (simp add: mem_ok_def)
  have sc: "safe_copy (Some b) (vsize v) ?m ?s = (Inr (Some (next_block ?s)), ?s1)"
    using safe_copy_ok [OF m0, of b cells "vsize v" ?m] c nf by simp
  have "None \<notin> set cells" using c(3) by (auto simp: owning_def)
  then have da: "delete_array (Some b) ?s1 = (Inr (), ?s1\<lparr>blocks := (blocks ?s1)(b := None)\<rparr>)"
    using c(1) ltb by (intro delete_array_ok) auto
  have nth: "(?nc ! vsize v) = Some default_elt" using c(2) by (simp add: nth_append)
  show ?thesis
    using full sc da ltb nth c(2) b
    by (simp add: vec2_push_def bindS_def print_out_def Let_def assign_cell_def read_cell_def read_ref_def)
qed

theorem stage2_push_own_element_witness:
  "fst (vec2_push (In_cell 0 1) (svec 2) sample_full) = Inl Undefined_behaviour"
  by (rule stage2_push_own_element [OF sample_inv(3)])
    (auto simp: svec_def fails_def sample_full_def mem0_def)

text \<open>
  C36. The copy constructor of stage 2 allocates only \<^verbatim>\<open>used_\<close> elements but records the capacity of the
  original: pushing to a copy of a vector with spare room writes behind the end of the copy's array.
\<close>

theorem stage2_copy_capacity:
  assumes inv: "arr_inv s v" and spare: "used v < vsize v" and ok: "\<not> fails (used v) s"
  shows "\<exists>w s'. vec2_copy v s = (Inr w, s') \<and> contents s' w = contents s v \<and> vsize w = vsize v \<and>
           fst (vec2_push t w s') = Inl Undefined_behaviour"
proof -
  obtain b cells where c: "arr v = Some b" "blocks s b = Some cells" "length cells = vsize v" "\<forall>c \<in> set cells. owning c"
    and m: "mem_ok s" using inv by (auto simp: arr_inv_def)
  let ?w = "\<lparr>arr = Some (next_block s), vsize = vsize v, used = used v\<rparr>"
  let ?s = "s\<lparr>blocks := (blocks s)(next_block s \<mapsto> take (used v) cells), next_block := Suc (next_block s),
      control := control s - int (used v)\<rparr>"
  have "safe_copy (Some b) (used v) (used v) s = (Inr (Some (next_block s)), ?s)"
    using safe_copy_ok [OF m c(2), of "used v" "used v"] c(3,4) spare ok by simp
  then have "vec2_copy v s = (Inr ?w, ?s)" using c(1) by (simp add: vec2_copy_def bindS_def)
  moreover have "contents ?s ?w = contents s v" using c by (simp add: contents_def)
  moreover have "fst (vec2_push t ?w ?s) = Inl Undefined_behaviour"
    using spare c(3) by (simp add: vec2_push_def assign_cell_def bindS_def read_cell_def)
  ultimately show ?thesis by force
qed

theorem stage2_copy_capacity_witness:
  "\<exists>w s'. vec2_copy \<lparr>arr = Some 0, vsize = 2, used = 1\<rparr> sample_full = (Inr w, s') \<and>
     contents s' w = contents sample_full \<lparr>arr = Some 0, vsize = 2, used = 1\<rparr> \<and> vsize w = 2 \<and>
     fst (vec2_push (Outside (Some 1)) w s') = Inl Undefined_behaviour"
  using stage2_copy_capacity [of sample_full "\<lparr>arr = Some 0, vsize = 2, used = 1\<rparr>" "Outside (Some 1)"]
  by (auto simp: arr_inv_def mem_ok_def sample_full_def mem0_def owning_def fails_def)

text \<open>
  The copy constructor of stage 1 leaks: when the copy of an element throws, the new array stays
  allocated although no object refers to it.
\<close>

theorem stage1_copy_leaks:
  assumes inv: "arr_inv s v" and throws: "fails (vsize v) s"
  shows "\<exists>s' cells. vec1_copy v s = (Inl Bad_alloc, s') \<and> blocks s (next_block s) = None \<and>
           blocks s' = (blocks s)(next_block s \<mapsto> cells)"
proof -
  obtain b cells where c: "arr v = Some b" "blocks s b = Some cells" "length cells = vsize v" "\<forall>c \<in> set cells. owning c"
    and m: "mem_ok s" using inv by (auto simp: arr_inv_def)
  let ?d = "next_block s" and ?ds = "replicate (vsize v) (Some default_elt)"
  let ?s = "s\<lparr>blocks := (blocks s)(?d \<mapsto> ?ds), next_block := Suc ?d\<rparr>"
  have "b \<noteq> ?d" using mem_ok_less [OF m c(2)] by simp
  then obtain ds' where "assign_loop (Some ?d) (Some b) 0 (vsize v) ?s =
      (Inl Bad_alloc, (after_throw ?s)\<lparr>blocks := (blocks ?s)(?d \<mapsto> ds')\<rparr>)"
    using assign_loop_ok [of ?s ?d ?ds b cells 0 "vsize v"] c throws by (auto simp: fails_def)
  then have "vec1_copy v s = (Inl Bad_alloc, (after_throw ?s)\<lparr>blocks := (blocks s)(?d \<mapsto> ds')\<rparr>)"
    using c(1) by (simp add: vec1_copy_def bindS_def new_array_ok)
  then show ?thesis using mem_ok_next [OF m] by auto
qed

theorem stage1_copy_leaks_witness:
  "\<exists>s' cells. vec1_copy (svec 2) (sample_full\<lparr>control := 1\<rparr>) = (Inl Bad_alloc, s') \<and>
     blocks sample_full 1 = None \<and> blocks s' = (blocks sample_full)(1 \<mapsto> cells)"
  using stage1_copy_leaks [of "sample_full\<lparr>control := 1\<rparr>" "svec 2"] sample_inv(3)
  by (auto simp: arr_inv_def mem_ok_def fails_def svec_def sample_full_def mem0_def)

text \<open>
  What the four demonstration programs print, and what they leave allocated: only the first
  stage loses memory, three objects of the half-made copy.
\<close>

theorem myvec_demo:
  "fst vec1_main = Inr () \<and> live_blocks (snd vec1_main) = [replicate 3 (Some (Some 42))] \<and>
   fst vec2_main = Inr () \<and> live_blocks (snd vec2_main) = [] \<and>
   fst vec3_main = Inr () \<and> live_blocks (snd vec3_main) = [] \<and>
   fst vec4_main = Inr () \<and> live_blocks (snd vec4_main) = [] \<and>
   outp (snd vec1_main) = ''Realloc'' @ endl @ ''Invoke copy ctor'' @ endl @ ''Control reached'' @ endl @
     ''Exception catched'' @ endl \<and>
   outp (snd vec3_main) = ''Invoke copy ctor'' @ endl @ ''Control reached'' @ endl @ ''Exception catched'' @ endl \<and>
   outp (snd vec2_main) = outp (snd vec1_main) \<and> outp (snd vec4_main) = outp (snd vec1_main)"
  by (intro conjI; code_simp)

end
