(* ===== verification/Vector_Iters.thy ===== *)
theory Vector_Iters
  imports MyVec_Props
begin

text \<open>
  \<^verbatim>\<open>14-iterators/wrongit.cc\<close>: the vector with its storage class and iterators, over the memory of theory
  \<open>Controllable\<close>. Elements are the objects of that theory, whose copy constructor may throw; \<open>nothrow\<close> is
  \<^verbatim>\<open>is_nothrow_move_constructible\<close> of the element type, which selects between moving and copying when the
  storage grows. A counter below zero makes copies never throw, as for \<^verbatim>\<open>int\<close>. An iterator is a pointer: a block and
  an index.
\<close>

section \<open>VectorStorage\<close>

text \<open>\<^verbatim>\<open>::operator new\<close> gives a block also for size 0.\<close>

definition storage_ctor :: "nat \<Rightarrow> (mem, vec) stm" where
  "storage_ctor allocSize =
     bindS (alloc (replicate allocSize None)) (\<lambda>b. retS \<lparr>arr = Some b, vsize = allocSize, used = 0\<rparr>)"

definition storage_default :: vec where
  "storage_default = \<lparr>arr = None, vsize = 0, used = 0\<rparr>"

text \<open>Moving swaps with an empty storage, or with the receiver.\<close>

definition storage_move :: "vec \<Rightarrow> vec \<times> vec" where
  "storage_move toMove = (toMove, storage_default)"

definition storage_move_assign :: "vec \<Rightarrow> vec \<Rightarrow> vec \<times> vec" where
  "storage_move_assign self toMove = (toMove, self)"

definition storage_dtor :: "vec \<Rightarrow> (mem, unit) stm" where
  "storage_dtor self = bindS (destroy_range (arr self) 0 (used self)) (\<lambda>_. free_block (arr self))"

text \<open>An exception in a constructor body or in \<^verbatim>\<open>realloc\<close> runs the destructor of the storage.\<close>

definition storage_unwind :: "vec \<Rightarrow> cxx_error \<Rightarrow> mem \<Rightarrow> cxx_error \<times> mem" where
  "storage_unwind self e s =
     (if e = Undefined_behaviour \<or> e = Assertion_failed then (e, s)
      else (case storage_dtor self s of (Inl e', s') \<Rightarrow> (e', s') | (Inr _, s') \<Rightarrow> (e, s')))"

section \<open>Vector\<close>

text \<open>The constructing loops: each appends elements until the given number is left to do.\<close>

fun wv_copy_loop :: "vec \<Rightarrow> nat \<Rightarrow> unit meth" where
  "wv_copy_loop sd 0 self s = (Inr (), self, s)"
| "wv_copy_loop sd (Suc n) self s =
     (case (case arr sd of None \<Rightarrow> (Inl Undefined_behaviour, s)
            | Some b \<Rightarrow> construct (arr self) (used self) (In_cell b (used self)) s) of
        (Inl e, s1) \<Rightarrow> (Inl e, self, s1)
      | (Inr _, s1) \<Rightarrow> wv_copy_loop sd n (self\<lparr>used := Suc (used self)\<rparr>) s1)"

fun wv_list_loop :: "ref list \<Rightarrow> unit meth" where
  "wv_list_loop [] self s = (Inr (), self, s)"
| "wv_list_loop (t # ts) self s =
     (case construct (arr self) (used self) t s of
        (Inl e, s1) \<Rightarrow> (Inl e, self, s1)
      | (Inr _, s1) \<Rightarrow> wv_list_loop ts (self\<lparr>used := Suc (used self)\<rparr>) s1)"

fun wv_default_loop :: "nat \<Rightarrow> unit meth" where
  "wv_default_loop 0 self s = (Inr (), self, s)"
| "wv_default_loop (Suc n) self s =
     (case put_cell (arr self) (used self) (Some default_elt) s of
        (Inl e, s1) \<Rightarrow> (Inl e, self, s1)
      | (Inr _, s1) \<Rightarrow> wv_default_loop n (self\<lparr>used := Suc (used self)\<rparr>) s1)"

text \<open>A constructor: storage for \<open>n\<close> elements, then a loop that fills it.\<close>

definition wv_construct :: "nat \<Rightarrow> unit meth \<Rightarrow> (mem, vec) stm" where
  "wv_construct n loop s =
     (case storage_ctor n s of
        (Inl e, s1) \<Rightarrow> (Inl e, s1)
      | (Inr v, s1) \<Rightarrow>
          (case loop v s1 of
             (Inl e, v', s2) \<Rightarrow> (case storage_unwind v' e s2 of (e', s3) \<Rightarrow> (Inl e', s3))
           | (Inr _, v', s2) \<Rightarrow> (Inr v', s2)))"

definition wv_copy :: "vec \<Rightarrow> (mem, vec) stm" where
  "wv_copy sd = wv_construct (used sd) (wv_copy_loop sd (used sd))"

definition wv_init_list :: "ref list \<Rightarrow> (mem, vec) stm" where
  "wv_init_list l = wv_construct (length l) (wv_list_loop l)"

definition wv_fill_ctor :: "nat \<Rightarrow> ref \<Rightarrow> (mem, vec) stm" where
  "wv_fill_ctor sz toCopy = wv_construct sz (wv_list_loop (replicate sz toCopy))"

definition wv_size_ctor :: "nat \<Rightarrow> (mem, vec) stm" where
  "wv_size_ctor sz = wv_construct sz (wv_default_loop sz)"

definition wv_assign :: "vec \<Rightarrow> unit meth" where
  "wv_assign sd self s =
     (case wv_copy sd s of
        (Inl e, s1) \<Rightarrow> (Inl e, self, s1)
      | (Inr copy, s1) \<Rightarrow>
          (let (self', copy') = storage_move_assign self copy in
           case storage_dtor copy' s1 of
             (Inl e, s2) \<Rightarrow> (Inl e, self', s2)
           | (Inr _, s2) \<Rightarrow> (Inr (), self', s2)))"

definition wv_swap :: "vec \<Rightarrow> vec \<Rightarrow> vec \<times> vec" where
  "wv_swap ft sd = (sd, ft)"

definition moveOrCopyT :: "bool \<Rightarrow> nat option \<Rightarrow> nat \<Rightarrow> ref \<Rightarrow> (mem, unit) stm" where
  "moveOrCopyT nothrow dest i src = (if nothrow then construct_move dest i src else construct dest i src)"

fun wv_realloc_loop :: "bool \<Rightarrow> nat option \<Rightarrow> nat \<Rightarrow> unit meth" where
  "wv_realloc_loop nothrow data 0 newVector s = (Inr (), newVector, s)"
| "wv_realloc_loop nothrow data (Suc n) newVector s =
     (case (case data of None \<Rightarrow> (Inl Undefined_behaviour, s)
            | Some b \<Rightarrow> moveOrCopyT nothrow (arr newVector) (used newVector) (In_cell b (used newVector)) s) of
        (Inl e, s1) \<Rightarrow> (Inl e, newVector, s1)
      | (Inr _, s1) \<Rightarrow> wv_realloc_loop nothrow data n (newVector\<lparr>used := Suc (used newVector)\<rparr>) s1)"

definition wv_realloc :: "bool \<Rightarrow> nat \<Rightarrow> unit meth" where
  "wv_realloc nothrow newAllocated self s =
     (let newSize = min newAllocated (used self) in
      case storage_ctor newAllocated s of
        (Inl e, s1) \<Rightarrow> (Inl e, self, s1)
      | (Inr newVector, s1) \<Rightarrow>
          (case wv_realloc_loop nothrow (arr self) newSize newVector s1 of
             (Inl e, nv, s2) \<Rightarrow> (case storage_unwind nv e s2 of (e', s3) \<Rightarrow> (Inl e', self, s3))
           | (Inr _, nv, s2) \<Rightarrow>
               (let (self', nv') = storage_move_assign self nv in
                case storage_dtor nv' s2 of
                  (Inl e, s3) \<Rightarrow> (Inl e, self', s3)
                | (Inr _, s3) \<Rightarrow> (Inr (), self', s3))))"

text \<open>\<^verbatim>\<open>push\<close> of an lvalue copies, of an rvalue (\<open>rv\<close>) moves.\<close>

definition wv_push :: "bool \<Rightarrow> bool \<Rightarrow> ref \<Rightarrow> unit meth" where
  "wv_push nothrow rv value self s =
     (case (if used self = vsize self then wv_realloc nothrow (2 * vsize self + 1) self s else (Inr (), self, s)) of
        (Inl e, self1, s1) \<Rightarrow> (Inl e, self1, s1)
      | (Inr _, self1, s1) \<Rightarrow>
          (case (if rv then construct_move else construct) (arr self1) (used self1) value s1 of
             (Inl e, s2) \<Rightarrow> (Inl e, self1, s2)
           | (Inr _, s2) \<Rightarrow> (Inr (), self1\<lparr>used := Suc (used self1)\<rparr>, s2)))"

definition wv_pop :: "unit meth" where
  "wv_pop self s =
     (if used self = 0 then (Inl (Invalid_argument ''trying pop from empty vector''), self, s)
      else (case destroy (arr self) (used self - 1) s of
              (Inl e, s') \<Rightarrow> (Inl e, self, s')
            | (Inr _, s') \<Rightarrow> (Inr (), self\<lparr>used := used self - 1\<rparr>, s')))"

text \<open>Element access, unchecked: the index of \<^verbatim>\<open>back\<close> wraps around on an empty vector.\<close>

definition wv_index :: "vec \<Rightarrow> nat \<Rightarrow> (mem, ctl) stm" where
  "wv_index self i = read_cell (arr self) i"

definition wv_back :: "vec \<Rightarrow> (mem, ctl) stm" where
  "wv_back self = (if used self = 0 then throwS Undefined_behaviour else read_cell (arr self) (used self - 1))"

definition wv_front :: "vec \<Rightarrow> (mem, ctl) stm" where
  "wv_front self = read_cell (arr self) 0"

definition wv_allocated :: "vec \<Rightarrow> nat" where
  "wv_allocated self = vsize self"

definition wv_size :: "vec \<Rightarrow> nat" where
  "wv_size self = used self"

section \<open>Iterators\<close>

record iterator =
  it_base :: "nat option"
  it_pos :: int

definition wv_begin :: "vec \<Rightarrow> iterator" where
  "wv_begin self = \<lparr>it_base = arr self, it_pos = 0\<rparr>"

definition wv_end :: "vec \<Rightarrow> iterator" where
  "wv_end self = \<lparr>it_base = arr self, it_pos = int (used self)\<rparr>"

definition it_deref :: "iterator \<Rightarrow> (mem, ctl) stm" where
  "it_deref it = (if it_pos it < 0 then throwS Undefined_behaviour else read_cell (it_base it) (nat (it_pos it)))"

definition it_inc :: "iterator \<Rightarrow> iterator" where
  "it_inc it = it\<lparr>it_pos := it_pos it + 1\<rparr>"

definition it_dec :: "iterator \<Rightarrow> iterator" where
  "it_dec it = it\<lparr>it_pos := it_pos it - 1\<rparr>"

text \<open>The postfix forms: the copy returned and the changed iterator.\<close>

definition it_post_inc :: "iterator \<Rightarrow> iterator \<times> iterator" where
  "it_post_inc it = (it, it_inc it)"

definition it_post_dec :: "iterator \<Rightarrow> iterator \<times> iterator" where
  "it_post_dec it = (it, it_dec it)"

text \<open>A range-based loop that collects what it visits; \<open>None\<close> when the fuel is used up.\<close>

fun range_for :: "nat \<Rightarrow> iterator \<Rightarrow> iterator \<Rightarrow> mem \<Rightarrow> ctl list res option" where
  "range_for 0 it fin s = None"
| "range_for (Suc k) it fin s =
     (if it = fin then Some (Inr [])
      else (case it_deref it s of
              (Inl e, _) \<Rightarrow> Some (Inl e)
            | (Inr x, _) \<Rightarrow> bindO (range_for k (it_inc it) fin s) (\<lambda>xs. Some (Inr (x # xs)))))"

section \<open>The building blocks\<close>

lemma storage_dtor_eq: "storage_dtor = buf_dtor"
  by (simp add: fun_eq_iff storage_dtor_def buf_dtor_def)

lemma storage_unwind_eq: "storage_unwind v e s = unwind e v s"
  by (simp add: storage_unwind_def unwind_def storage_dtor_eq)

lemma wv_copy_loop_eq: "wv_copy_loop sd n v s = vec3_copy_loop sd n v s"
  by (induction sd n v s rule: vec3_copy_loop.induct) (simp_all split: option.split sum.split prod.split)

lemma realloc_loop_copy:
  "wv_realloc_loop False data n v s = vec3_copy_loop \<lparr>arr = data, vsize = 0, used = 0\<rparr> n v s"
  by (induction n arbitrary: v s; cases data) (simp_all add: moveOrCopyT_def split: sum.split prod.split)

lemma realloc_loop_move:
  "used v + n \<le> vsize v \<Longrightarrow> wv_realloc_loop True data n v s = vec4_fill (Suc f) data n v s"
proof (induction n arbitrary: v s)
  case (Suc n)
  then show ?case by (cases data) (auto simp: moveOrCopyT_def split: sum.split prod.split)
qed simp

lemma storage_ctor_ok:
  assumes "mem_ok s"
  obtains v s' where "storage_ctor n s = (Inr v, s')" "vsize v = n" "used v = 0" "buf_inv s' v" "contents s' v = []"
    "outside s' v = blocks s" "next_block s \<le> next_block s'" "control s' = control s" "arr v = Some (next_block s)"
proof -
  let ?s = "s\<lparr>blocks := (blocks s)(next_block s \<mapsto> replicate n None), next_block := Suc (next_block s)\<rparr>"
  let ?v = "\<lparr>arr = Some (next_block s), vsize = n, used = 0\<rparr>"
  have "outside ?s ?v = blocks s" using mem_ok_next [OF assms] by (auto simp: outside_def fun_eq_iff)
  then show ?thesis using that [of ?v ?s] assms
    by (simp add: storage_ctor_def bindS_def buf_inv_def contents_def alloc_def mem_ok_def)
qed

text \<open>Growing by copying: all or nothing.\<close>

lemma realloc_copy_ok:
  assumes v: "buf_inv s v" and m: "used v \<le> m"
  shows "\<exists>res v' s'. wv_realloc False m v s = (res, v', s') \<and> buf_inv s' v' \<and> outside s' v' = outside s v \<and>
    contents s' v' = contents s v \<and>
    (res = Inr () \<and> used v' = used v \<and> vsize v' = m \<and> (\<forall>b. arr v = Some b \<longrightarrow> blocks s' b = None) \<or>
     res = Inl Bad_alloc \<and> v' = v \<and> blocks s' = blocks s)"
proof -
  have mo: "mem_ok s" using v by (simp add: buf_inv_def)
  obtain nv s1 where nv: "storage_ctor m s = (Inr nv, s1)" "vsize nv = m" "used nv = 0" "buf_inv s1 nv"
    "contents s1 nv = []" "outside s1 nv = blocks s" "next_block s \<le> next_block s1"
    using storage_ctor_ok [OF mo] by metis
  obtain res w s2 where l: "wv_realloc_loop False (arr v) (used v) nv s1 = (res, w, s2)" "buf_inv s2 w"
    "outside s2 w = blocks s" "next_block s2 = next_block s1" "vsize w = vsize nv"
    "res = Inr () \<and> used w = used v \<and> contents s2 w = contents s v \<or> res = Inl Bad_alloc"
    using copy_all_ok [OF v nv(4,3,5) _ nv(6), of "\<lparr>arr = arr v, vsize = 0, used = 0\<rparr>"] m nv(2)
    unfolding realloc_loop_copy by auto
  show ?thesis
  proof (cases "res = Inl Bad_alloc")
    case True
    have "wv_realloc False m v s = (Inl Bad_alloc, v, s2\<lparr>blocks := outside s2 w\<rparr>)"
      using True m nv(1) l(1) unwind_ok [OF l(2)] by (simp add: wv_realloc_def min_absorb2 storage_unwind_eq)
    then show ?thesis using l(3,4) nv(7) v same_blocks [of "s2\<lparr>blocks := outside s2 w\<rparr>" s] by simp
  next
    case False
    note od = other_dtor [OF v l(2,3)]
    have "wv_realloc False m v s = (Inr (), w, s2\<lparr>blocks := outside s2 v\<rparr>)"
      using False l(1,6) m nv(1) buf_inv_dtor(1) [OF od(1)]
      by (auto simp: wv_realloc_def min_absorb2 storage_move_assign_def storage_dtor_eq)
    moreover have "\<forall>b. arr v = Some b \<longrightarrow> blocks (s2\<lparr>blocks := outside s2 v\<rparr>) b = None" by (simp add: outside_def)
    ultimately show ?thesis using od l(5,6) False nv(2) by auto
  qed
qed

text \<open>Growing by moving cannot fail.\<close>

lemma realloc_move_ok:
  assumes v: "buf_inv s v" and m: "used v \<le> m"
  shows "\<exists>v' s'. wv_realloc True m v s = (Inr (), v', s') \<and> buf_inv s' v' \<and> outside s' v' = outside s v \<and>
    contents s' v' = contents s v \<and> used v' = used v \<and> vsize v' = m \<and> (\<forall>b. arr v = Some b \<longrightarrow> blocks s' b = None)"
proof -
  have mo: "mem_ok s" using v by (simp add: buf_inv_def)
  obtain nv s1 where nv: "storage_ctor m s = (Inr nv, s1)" "vsize nv = m" "used nv = 0" "buf_inv s1 nv"
    "contents s1 nv = []" "outside s1 nv = blocks s" "arr nv = Some (next_block s)"
    using storage_ctor_ok [OF mo] by metis
  let ?d = "next_block s" and ?w = "nv\<lparr>used := used v\<rparr>"
  have room: "used v \<le> vsize nv" using m nv(2) by simp
  obtain s2 where l: "vec4_fill (Suc 0) (arr v) (used v) nv s1 = (Inr (), ?w, s2)"
    "buf_inv s2 ?w" "contents s2 ?w = contents s v" "\<forall>c. c \<noteq> ?d \<and> arr v \<noteq> Some c \<longrightarrow> blocks s2 c = blocks s c"
    "arr v = None \<and> used v = 0 \<or> (\<exists>a xs. arr v = Some a \<and> a \<noteq> ?d \<and> blocks s2 a = Some xs \<and> used v \<le> length xs \<and>
       (\<forall>i < used v. xs ! i \<noteq> None))"
    by (rule move_all_ok [OF v nv(4,3,5) room nv(6,7)])
  have lp: "wv_realloc_loop True (arr v) (used v) nv s1 = (Inr (), ?w, s2)"
    using l(1) realloc_loop_move [of nv "used v" "arr v" s1 0] room nv(3) by simp
  let ?s3 = "s2\<lparr>blocks := outside s2 v\<rparr>"
  have m2: "mem_ok s2" using l(2) by (simp add: buf_inv_def)
  have dt: "buf_dtor v s2 = (Inr (), ?s3)" "mem_ok ?s3" using l(5) by (intro buf_dtor_ok [OF m2]; auto)+
  have "wv_realloc True m v s = (Inr (), ?w, ?s3)"
    using lp m nv(1) dt(1) by (simp add: wv_realloc_def min_absorb2 storage_move_assign_def storage_dtor_eq)
  moreover have vd: "arr v \<noteq> Some ?d" using l(5) by auto
  moreover have "buf_inv ?s3 ?w" using l(2) dt(2) nv(7) vd by (simp add: buf_inv_def outside_def)
  moreover have "contents ?s3 ?w = contents s v" using l(3) nv(7) vd by (simp add: contents_def outside_def)
  moreover have "outside ?s3 ?w = outside s v"
    using l(4) nv(7) mem_ok_next [OF mo] by (auto simp: outside_def fun_eq_iff)
  moreover have "\<forall>b. arr v = Some b \<longrightarrow> blocks ?s3 b = None" by (simp add: outside_def)
  ultimately show ?thesis using nv(2) by auto
qed

lemma realloc_ok:
  assumes "buf_inv s v" "used v \<le> m"
  shows "\<exists>res v' s'. wv_realloc nothrow m v s = (res, v', s') \<and> buf_inv s' v' \<and> outside s' v' = outside s v \<and>
    contents s' v' = contents s v \<and> (res = Inr () \<and> used v' = used v \<and> vsize v' = m \<and>
       (\<forall>b. arr v = Some b \<longrightarrow> blocks s' b = None) \<or> res = Inl Bad_alloc \<and> \<not> nothrow)"
  using realloc_copy_ok [OF assms] realloc_move_ok [OF assms] by (cases nothrow) auto

text \<open>A reference that does not point into a vector survives its reallocation.\<close>

lemma readable_kept:
  assumes "readable s t r" "outside s' v' = outside s v" "\<forall>b i. arr v = Some b \<longrightarrow> t \<noteq> In_cell b i"
  shows "readable s' t r"
proof (cases t)
  case (In_cell b i)
  then have "outside s v b = blocks s b" using assms(3) by (auto simp: outside_def)
  then show ?thesis using In_cell assms(1) fun_cong [OF assms(2), of b]
    by (auto simp: readable_def outside_def split: if_splits)
qed (use assms(1) in \<open>simp add: readable_def\<close>)

text \<open>Appending to a vector with room.\<close>

definition wv_append :: "ref \<Rightarrow> unit meth" where
  "wv_append value self s =
     (case construct (arr self) (used self) value s of
        (Inl e, s2) \<Rightarrow> (Inl e, self, s2)
      | (Inr _, s2) \<Rightarrow> (Inr (), self\<lparr>used := Suc (used self)\<rparr>, s2))"

lemma wv_append_eq: "wv_append = vec3_push_room"
  by (simp add: fun_eq_iff wv_append_def vec3_push_room_def)

lemma wv_push_append:
  "wv_push nothrow False t v s =
     (case (if used v = vsize v then wv_realloc nothrow (2 * vsize v + 1) v s else (Inr (), v, s)) of
        (Inl e, v1, s1) \<Rightarrow> (Inl e, v1, s1) | (Inr _, v1, s1) \<Rightarrow> wv_append t v1 s1)"
  by (simp add: wv_push_def wv_append_def split: prod.split sum.split)

lemma wv_append_result:
  assumes "buf_inv s v" "used v < vsize v" "readable s t r"
  shows "push_result buf_inv r v s (wv_append t v s)"
proof (rule strong_push_result)
  show "\<exists>res v' s'. wv_append t v s = (res, v', s') \<and> buf_inv s' v' \<and> outside s' v' = outside s v \<and>
    (res = Inr () \<and> contents s' v' = contents s v @ [r] \<or> res = Inl Bad_alloc \<and> v' = v \<and> blocks s' = blocks s)"
    using vec3_push_room_ok [OF assms] unfolding wv_append_eq by blast
qed

lemma wv_push_ok:
  assumes v: "buf_inv s v" and t: "readable s t r" and own: "not_own v t"
  shows "push_result buf_inv r v s (wv_push nothrow False t v s)"
proof (cases "used v = vsize v")
  case False
  then have "used v < vsize v" using v by (auto simp: buf_inv_def)
  then show ?thesis using wv_append_result [OF v _ t] False by (simp add: wv_push_append)
next
  case True
  obtain res v1 s1 where r: "wv_realloc nothrow (2 * vsize v + 1) v s = (res, v1, s1)" "buf_inv s1 v1"
    "outside s1 v1 = outside s v" "contents s1 v1 = contents s v"
    "res = Inr () \<and> used v1 = used v \<and> vsize v1 = 2 * vsize v + 1 \<or> res = Inl Bad_alloc"
    using realloc_ok [OF v, of "2 * vsize v + 1" nothrow] True by auto
  have t1: "readable s1 t r" using readable_kept [OF t r(3)] own True by (simp add: not_own_def)
  have "push_result buf_inv r v1 s1 (wv_append t v1 s1)" if "res = Inr ()"
    using that r(5) True by (intro wv_append_result [OF r(2) _ t1]) auto
  then show ?thesis using r True by (auto simp: wv_push_append push_result_def)
qed

lemma wv_pop_eq: "buf_inv s v \<Longrightarrow> used v \<noteq> 0 \<Longrightarrow> wv_pop v s = vec3_pop v s"
proof -
  assume v: "buf_inv s v" "used v \<noteq> 0"
  then obtain v' s' where "vec3_pop v s = (Inr (), v', s')" using vec3_pop_ok by blast
  then show "wv_pop v s = vec3_pop v s" using v(2)
    by (auto simp: wv_pop_def vec3_pop_def Let_def split: prod.splits sum.splits)
qed

lemma wv_construct_eq_copy: "used v \<noteq> 0 \<Longrightarrow> wv_copy v s = vec3_copy v s"
  by (simp add: wv_copy_def wv_construct_def vec3_copy_def storage_ctor_def buf_ctor_def new_raw_def bindS_def alloc_def
      wv_copy_loop_eq storage_unwind_eq split: prod.split sum.split)

lemma wv_copy_ok:
  assumes v: "buf_inv s v"
  shows "(\<exists>s'. wv_copy v s = (Inl Bad_alloc, s') \<and> blocks s' = blocks s \<and> buf_inv s' v) \<or>
      (\<exists>w s'. wv_copy v s = (Inr w, s') \<and> buf_inv s' w \<and> buf_inv s' v \<and> contents s' w = contents s v \<and>
         contents s' v = contents s v \<and> outside s' w = blocks s)"
proof (cases "used v = 0")
  case False
  then show ?thesis using buf_copy_ok [OF v] by (simp add: wv_construct_eq_copy)
next
  case True
  have mo: "mem_ok s" using v by (simp add: buf_inv_def)
  obtain w s' where w: "storage_ctor 0 s = (Inr w, s')" "buf_inv s' w" "contents s' w = []" "outside s' w = blocks s"
    using storage_ctor_ok [OF mo] by metis
  have "contents s v = []" "contents s' v = []" using True by (simp_all add: contents_def split: option.split)
  then show ?thesis using w True other_dtor(1) [OF v w(2,4)] by (simp add: wv_copy_def wv_construct_def)
qed

section \<open>The vector as an implementation of the interface\<close>

lemma default_inv: "mem_ok s \<Longrightarrow> buf_inv s storage_default \<and> contents s storage_default = [] \<and> outside s storage_default = blocks s"
  by (simp add: storage_default_def buf_inv_def contents_def outside_def)

interpretation wvc: safe_vector buf_inv not_own "wv_push nothrow False" wv_pop "\<lambda>_. retS storage_default" wv_copy storage_dtor
  for nothrow
proof
  show "\<exists>v' s'. wv_pop v s = (Inr (), v', s') \<and> buf_inv s' v' \<and> contents s' v' = butlast (contents s v) \<and>
      outside s' v' = outside s v" if "buf_inv s v" "used v \<noteq> 0" for s v
    using vec3_pop_ok [OF that] wv_pop_eq [OF that] by simp
  show "\<exists>v s'. retS storage_default s = (Inr v, s') \<and> buf_inv s' v \<and> contents s' v = [] \<and> outside s' v = blocks s"
    if "mem_ok s" for s
    using default_inv [OF that] by (simp add: retS_def)
  show "\<exists>s'. storage_dtor v s = (Inr (), s') \<and> blocks s' = outside s v" if "buf_inv s v" for s v
    using buf_inv_dtor [OF that] by (simp add: storage_dtor_eq)
qed (use wv_push_ok wv_copy_ok in \<open>auto simp: not_own_def wv_pop_def\<close>)

section \<open>Iteration\<close>

lemma contents_nth:
  assumes "buf_inv s v" "i < used v"
  shows "read_cell (arr v) i s = (Inr (Some (contents s v ! i)), s)" "length (contents s v) = used v"
  using assms by (auto simp: buf_inv_def contents_def owning_def)

lemma range_for_from:
  assumes "buf_inv s v" "i + n = used v" "n < k"
  shows "range_for k \<lparr>it_base = arr v, it_pos = int i\<rparr> (wv_end v) s = Some (Inr (map Some (drop i (contents s v))))"
  using assms
proof (induction n arbitrary: i k)
  case 0
  then obtain k' where "k = Suc k'" by (cases k) auto
  moreover have "drop i (contents s v) = []" using 0(1,2) contents_nth(2) [OF 0(1)]
    by (cases "used v = 0") (auto simp: contents_def split: option.split)
  ultimately show ?case using 0 by (simp add: wv_end_def)
next
  case (Suc n)
  then obtain k' where k: "k = Suc k'" "n < k'" by (cases k) auto
  have i: "i < used v" using Suc.prems(2) by simp
  note c = contents_nth [OF Suc.prems(1) i]
  have "range_for k' \<lparr>it_base = arr v, it_pos = int (Suc i)\<rparr> (wv_end v) s = Some (Inr (map Some (drop (Suc i) (contents s v))))"
    using Suc.prems(2) k(2) by (intro Suc.IH [OF Suc.prems(1)]) auto
  then have "range_for k' (it_inc \<lparr>it_base = arr v, it_pos = int i\<rparr>) (wv_end v) s =
      Some (Inr (map Some (drop (Suc i) (contents s v))))"
    by (simp add: it_inc_def add.commute)
  moreover have "drop i (contents s v) = contents s v ! i # drop (Suc i) (contents s v)"
    using c(2) i by (simp add: Cons_nth_drop_Suc)
  ultimately show ?case using k i c by (simp add: it_deref_def wv_end_def)
qed

text \<open>
  C37. The vector of \<^verbatim>\<open>wrongit.cc\<close>: \<^verbatim>\<open>push\<close> of an object, with elements that are moved or copied
  on growth, appends it or throws with the elements unchanged, keeps the invariant and touches nothing
  outside, provided that the argument is not an element of a full vector; and a range-based loop over the
  result visits exactly the elements in order, for every fuel above their number.
\<close>

theorem vector_push_iterate:
  assumes "buf_inv s v" "readable s t r" "used v = vsize v \<longrightarrow> (\<forall>b i. arr v = Some b \<longrightarrow> t \<noteq> In_cell b i)"
  shows "\<exists>res v' s'. wv_push nothrow False t v s = (res, v', s') \<and> buf_inv s' v' \<and> outside s' v' = outside s v \<and>
    (res = Inr () \<and> contents s' v' = contents s v @ [r] \<or> res = Inl Bad_alloc \<and> contents s' v' = contents s v) \<and>
    (\<forall>k > used v'. range_for k (wv_begin v') (wv_end v') s' = Some (Inr (map Some (contents s' v'))))"
proof -
  obtain res v' s' where p: "wv_push nothrow False t v s = (res, v', s')" by (metis prod_cases3)
  have pr: "buf_inv s' v'" "outside s' v' = outside s v"
    "res = Inr () \<and> contents s' v' = contents s v @ [r] \<or> res = Inl Bad_alloc \<and> contents s' v' = contents s v"
    using wvc.push_ok [OF assms(1,2), of nothrow] assms(3) p by (auto simp: not_own_def push_result_def)
  have "range_for k (wv_begin v') (wv_end v') s' = Some (Inr (map Some (contents s' v')))" if "used v' < k" for k
    using range_for_from [OF pr(1), of 0 "used v'" k] that by (simp add: wv_begin_def)
  then show ?thesis using p pr by blast
qed

theorem vector_push_iterate_witness:
  "\<exists>res v' s'. wv_push True False (Outside (Some 9)) (svec 2) sample_full = (res, v', s') \<and> buf_inv s' v' \<and>
    outside s' v' = outside sample_full (svec 2) \<and>
    (res = Inr () \<and> contents s' v' = contents sample_full (svec 2) @ [9] \<or>
     res = Inl Bad_alloc \<and> contents s' v' = contents sample_full (svec 2)) \<and>
    (\<forall>k > used v'. range_for k (wv_begin v') (wv_end v') s' = Some (Inr (map Some (contents s' v'))))"
  by (rule vector_push_iterate [OF sample_inv(2)]) (auto simp: readable_def)

text \<open>
  Pushing an element of a full vector to that vector never succeeds: \<^verbatim>\<open>realloc\<close> destroys and frees
  the old storage, which the argument refers to, before the argument is read. With elements that are moved
  the result always is undefined behaviour; with elements that are copied, unless a copy throws before.
\<close>

theorem vector_push_own_element:
  assumes inv: "buf_inv s v" and full: "used v = vsize v" and b: "arr v = Some b"
  shows "fst (wv_push nothrow False (In_cell b i) v s) = Inl Undefined_behaviour \<or>
    \<not> nothrow \<and> fst (wv_push nothrow False (In_cell b i) v s) = Inl Bad_alloc"
proof -
  obtain res v1 s1 where r: "wv_realloc nothrow (2 * vsize v + 1) v s = (res, v1, s1)"
    "res = Inr () \<and> blocks s1 b = None \<or> res = Inl Bad_alloc \<and> \<not> nothrow"
    using realloc_ok [OF inv, of "2 * vsize v + 1" nothrow] full b by auto
  have "fst (wv_append (In_cell b i) v1 s1) = Inl Undefined_behaviour" if "blocks s1 b = None"
    using that by (simp add: wv_append_def construct_def bindS_def read_ref_def read_cell_def)
  then show ?thesis using r full by (auto simp: wv_push_append)
qed

theorem vector_push_own_element_witness:
  "fst (wv_push True False (In_cell 0 1) (svec 2) sample_full) = Inl Undefined_behaviour"
  using vector_push_own_element [OF sample_inv(2), of 0 True 1] by (simp add: svec_def)

section \<open>The main program\<close>

text \<open>The loop prints the elements, each followed by a space; the second line is the distance of a \<^verbatim>\<open>std::vector\<close>.\<close>

definition wrongit_main :: "string res option" where
  "wrongit_main =
     (let s = mem0\<lparr>control := -1\<rparr> in
      case wv_init_list (map (\<lambda>r. Outside (Some r)) [1, 2, 3]) s of
        (Inl e, _) \<Rightarrow> Some (Inl e)
      | (Inr v, s1) \<Rightarrow>
          bindO (range_for (Suc (used v)) (wv_begin v) (wv_end v) s1) (\<lambda>xs.
          (case storage_dtor v s1 of
             (Inl e, _) \<Rightarrow> Some (Inl e)
           | (Inr _, _) \<Rightarrow>
               Some (Inr (concat (map (\<lambda>x. string_of_int (the x) @ '' '') xs) @ endl @
                          string_of_nat (length [1, 2, 3 :: int]) @ endl)))))"

lemma wrongit_prints: "wrongit_main = Some (Inr (''1 2 3 '' @ endl @ ''3'' @ endl))"
  by code_simp

end
