(* ===== verification/MyVec_Archive.thy ===== *)
theory MyVec_Archive
  imports MyVec_Props
begin

text \<open>
  \<^verbatim>\<open>archive/09-exceptions/myvec-1.cc\<close>, \<^verbatim>\<open>myvec-2.cc\<close> and \<^verbatim>\<open>myvec-3.cc\<close>: earlier versions of the first
  three vectors, over the same memory and elements. The first two have no destructor. The main programs
  use \<^verbatim>\<open>int\<close> elements, whose copies do not throw: the counter is below zero there.
\<close>

section \<open>Version 1\<close>

definition av1_ctor :: "nat \<Rightarrow> (mem, vec) stm" where
  "av1_ctor sz = bindS (new_array sz) (\<lambda>a. retS \<lparr>arr = a, vsize = sz, used = 0\<rparr>)"

definition av1_copy :: "vec \<Rightarrow> (mem, vec) stm" where
  "av1_copy rhs =
     bindS (new_array (vsize rhs)) (\<lambda>a.
     bindS (assign_loop a (arr rhs) 0 (vsize rhs)) (\<lambda>_.
     retS \<lparr>arr = a, vsize = vsize rhs, used = used rhs\<rparr>))"

definition av1_move :: "vec \<Rightarrow> vec \<times> vec" where
  "av1_move rhs = (rhs, \<lparr>arr = None, vsize = 0, used = 0\<rparr>)"

text \<open>There is no return statement.\<close>

definition av1_move_assign :: "vec \<Rightarrow> vec \<Rightarrow> vec res" where
  "av1_move_assign self rhs = Inl Undefined_behaviour"

definition av1_assign :: "bool \<Rightarrow> vec \<Rightarrow> unit meth" where
  "av1_assign same rhs self s =
     (if same then (Inr (), self, s)
      else let self1 = self\<lparr>vsize := vsize rhs, used := used rhs\<rparr> in
           (case delete_array (arr self1) s of
              (Inl e, s1) \<Rightarrow> (Inl e, self1, s1)
            | (Inr _, s1) \<Rightarrow> (case new_array (vsize self1) s1 of
                (Inl e, s2) \<Rightarrow> (Inl e, self1, s2)
              | (Inr a, s2) \<Rightarrow>
                  let self2 = self1\<lparr>arr := a\<rparr> in
                  (case assign_loop a (arr rhs) 0 (vsize self2) s2 of
                     (Inl e, s3) \<Rightarrow> (Inl e, self2, s3)
                   | (Inr _, s3) \<Rightarrow> (Inr (), self2, s3)))))"

definition av1_pop :: "ctl meth" where
  "av1_pop self s =
     (if used self < 1 then (Inl (Runtime_error ''Vector is empty''), self, s)
      else let self1 = self\<lparr>used := used self - 1\<rparr> in
           (case bindS (read_cell (arr self1) (used self1)) ctl_copy s of (r, s') \<Rightarrow> (r, self1, s')))"

definition av1_push :: "ref \<Rightarrow> unit meth" where
  "av1_push t self s =
     (if \<not> used self \<le> vsize self then (Inl Assertion_failed, self, s)
      else
        (case (if used self = vsize self then
                 (let newsz = vsize self * 2 + 1 in
                  case bindS (new_array newsz) (\<lambda>newarr.
                         bindS (assign_loop newarr (arr self) 0 (vsize self)) (\<lambda>_.
                         bindS (delete_array (arr self)) (\<lambda>_. retS newarr))) s of
                    (Inl e, s1) \<Rightarrow> (Inl e, self, s1)
                  | (Inr newarr, s1) \<Rightarrow>
                      (let self1 = self\<lparr>arr := newarr, vsize := newsz\<rparr> in
                       if used self1 < vsize self1 then (Inr (), self1, s1) else (Inl Assertion_failed, self1, s1)))
               else (Inr (), self, s)) of
           (Inl e, self1, s1) \<Rightarrow> (Inl e, self1, s1)
         | (Inr _, self1, s1) \<Rightarrow>
             (case assign_cell (arr self1) (used self1) t s1 of
                (Inl e, s2) \<Rightarrow> (Inl e, self1, s2)
              | (Inr _, s2) \<Rightarrow> (Inr (), self1\<lparr>used := Suc (used self1)\<rparr>, s2))))"

section \<open>Version 2\<close>

definition av2_safe_copy :: "nat option \<Rightarrow> nat \<Rightarrow> nat \<Rightarrow> (mem, nat option) stm" where
  "av2_safe_copy src srcsize dstsize =
     (if \<not> srcsize \<le> dstsize then throwS Assertion_failed
      else bindS (new_array dstsize) (\<lambda>dest.
           bindS (cleanupS (assign_loop dest src 0 srcsize) (delete_array dest)) (\<lambda>_.
           retS dest)))"

text \<open>Here the whole array is copied, so the capacity of the copy is right.\<close>

definition av2_copy :: "vec \<Rightarrow> (mem, vec) stm" where
  "av2_copy rhs =
     bindS (av2_safe_copy (arr rhs) (vsize rhs) (vsize rhs)) (\<lambda>a.
     retS \<lparr>arr = a, vsize = vsize rhs, used = used rhs\<rparr>)"

text \<open>Copy assignment calls \<^verbatim>\<open>std::swap\<close>, which calls the move assignment that has no return statement.\<close>

definition av2_assign :: "vec \<Rightarrow> unit meth" where
  "av2_assign rhs self s =
     (case av2_copy rhs s of
        (Inl e, s1) \<Rightarrow> (Inl e, self, s1)
      | (Inr tmp, s1) \<Rightarrow>
          (let (t, self1) = av1_move self in
           case av1_move_assign self1 tmp of
             Inl e \<Rightarrow> (Inl e, self1, s1)
           | Inr self2 \<Rightarrow> (Inr (), self2, s1)))"

definition av2_top :: "vec \<Rightarrow> (mem, ctl) stm" where
  "av2_top self =
     (if used self < 1 then throwS (Runtime_error ''Vector is empty'')
      else bindS (read_cell (arr self) (used self - 1)) ctl_copy)"

definition av2_pop :: "unit meth" where
  "av2_pop self s =
     (if used self < 1 then (Inl (Runtime_error ''Vector is empty''), self, s)
      else (Inr (), self\<lparr>used := used self - 1\<rparr>, s))"

definition av2_push :: "ref \<Rightarrow> unit meth" where
  "av2_push t self s =
     (case (if used self = vsize self then
              (let newsz = vsize self * 2 + 1 in
               case bindS (av2_safe_copy (arr self) (vsize self) newsz) (\<lambda>newarr.
                      bindS (delete_array (arr self)) (\<lambda>_. retS newarr)) s of
                 (Inl e, s1) \<Rightarrow> (Inl e, self, s1)
               | (Inr newarr, s1) \<Rightarrow> (Inr (), self\<lparr>arr := newarr, vsize := newsz\<rparr>, s1))
            else (Inr (), self, s)) of
        (Inl e, self1, s1) \<Rightarrow> (Inl e, self1, s1)
      | (Inr _, self1, s1) \<Rightarrow>
          (case assign_cell (arr self1) (used self1) t s1 of
             (Inl e, s2) \<Rightarrow> (Inl e, self1, s2)
           | (Inr _, s2) \<Rightarrow> (Inr (), self1\<lparr>used := Suc (used self1)\<rparr>, s2)))"

section \<open>Version 3\<close>

text \<open>
  The range form of \<^verbatim>\<open>destroy\<close> increments before it destroys: for \<open>n\<close> cells from index \<open>i\<close> it
  destroys the cells \<open>i + 1\<close> to \<open>i + n\<close>.
\<close>

fun av3_destroy_range :: "nat option \<Rightarrow> nat \<Rightarrow> nat \<Rightarrow> (mem, unit) stm" where
  "av3_destroy_range a first 0 = retS ()"
| "av3_destroy_range a first (Suc n) = bindS (destroy a (Suc first)) (\<lambda>_. av3_destroy_range a (Suc first) n)"

definition av3_buf_ctor :: "nat \<Rightarrow> (mem, vec) stm" where
  "av3_buf_ctor sz = bindS (new_raw sz) (\<lambda>a. retS \<lparr>arr = a, vsize = sz, used = 0\<rparr>)"

definition av3_buf_dtor :: "vec \<Rightarrow> (mem, unit) stm" where
  "av3_buf_dtor self = bindS (av3_destroy_range (arr self) 0 (used self)) (\<lambda>_. free_block (arr self))"

definition av3_swap :: "vec \<Rightarrow> vec \<Rightarrow> vec \<times> vec" where
  "av3_swap self rhs = (rhs, self)"

definition av3_unwind :: "cxx_error \<Rightarrow> vec \<Rightarrow> mem \<Rightarrow> cxx_error \<times> mem" where
  "av3_unwind e local s =
     (if e = Undefined_behaviour \<or> e = Assertion_failed then (e, s)
      else (case av3_buf_dtor local s of (Inl e', s') \<Rightarrow> (e', s') | (Inr _, s') \<Rightarrow> (e, s')))"

definition av3_copy :: "vec \<Rightarrow> (mem, vec) stm" where
  "av3_copy rhs s =
     (case av3_buf_ctor (used rhs) s of
        (Inl e, s1) \<Rightarrow> (Inl e, s1)
      | (Inr v, s1) \<Rightarrow>
          (case vec3_copy_loop rhs (used rhs) v s1 of
             (Inl e, v', s2) \<Rightarrow> (case av3_unwind e v' s2 of (e', s3) \<Rightarrow> (Inl e', s3))
           | (Inr _, v', s2) \<Rightarrow> (Inr v', s2)))"

definition av3_assign :: "vec \<Rightarrow> unit meth" where
  "av3_assign rhs self s =
     (case av3_copy rhs s of
        (Inl e, s1) \<Rightarrow> (Inl e, self, s1)
      | (Inr tmp, s1) \<Rightarrow>
          (let (self', tmp') = av3_swap self tmp in
           case av3_buf_dtor tmp' s1 of (Inl e, s2) \<Rightarrow> (Inl e, self', s2) | (Inr _, s2) \<Rightarrow> (Inr (), self', s2)))"

definition av3_top :: "vec \<Rightarrow> (mem, ctl) stm" where
  "av3_top self =
     (if used self < 1 then throwS (Runtime_error ''Vector is empty'')
      else bindS (read_cell (arr self) (used self - 1)) ctl_copy)"

definition av3_pop :: "unit meth" where
  "av3_pop self s =
     (if used self < 1 then (Inl (Runtime_error ''Vector is empty''), self, s)
      else let self1 = self\<lparr>used := used self - 1\<rparr> in
           (case destroy (arr self1) (used self1) s of (r, s') \<Rightarrow> (r, self1, s')))"

text \<open>As in stage 3, the calls on \<^verbatim>\<open>tmp\<close> find room, so a depth of 2 is enough.\<close>

fun av3_push_fuel :: "nat \<Rightarrow> ref \<Rightarrow> unit meth" and
    av3_fill :: "nat \<Rightarrow> nat option \<Rightarrow> nat \<Rightarrow> unit meth" where
  "av3_push_fuel 0 t self s = (Inl Undefined_behaviour, self, s)"
| "av3_push_fuel (Suc fuel) t self s =
     (if \<not> used self \<le> vsize self then (Inl Assertion_failed, self, s)
      else if used self = vsize self then
        (case av3_buf_ctor (vsize self * 2 + 1) s of
           (Inl e, s1) \<Rightarrow> (Inl e, self, s1)
         | (Inr tmp, s1) \<Rightarrow>
             (case av3_fill fuel (arr self) (used self) tmp s1 of
                (Inl e, tmp1, s2) \<Rightarrow> (case av3_unwind e tmp1 s2 of (e', s3) \<Rightarrow> (Inl e', self, s3))
              | (Inr _, tmp1, s2) \<Rightarrow>
                  (case av3_push_fuel fuel t tmp1 s2 of
                     (Inl e, tmp2, s3) \<Rightarrow> (case av3_unwind e tmp2 s3 of (e', s4) \<Rightarrow> (Inl e', self, s4))
                   | (Inr _, tmp2, s3) \<Rightarrow>
                       (let (self', tmp3) = av3_swap self tmp2 in
                        case av3_buf_dtor tmp3 s3 of
                          (Inl e, s4) \<Rightarrow> (Inl e, self', s4)
                        | (Inr _, s4) \<Rightarrow> (Inr (), self', s4)))))
      else vec3_push_room t self s)"
| "av3_fill fuel src 0 tmp s = (Inr (), tmp, s)"
| "av3_fill 0 src (Suc n) tmp s = (Inl Undefined_behaviour, tmp, s)"
| "av3_fill (Suc fuel) src (Suc n) tmp s =
     (case (case src of None \<Rightarrow> (Inl Undefined_behaviour, tmp, s)
            | Some b \<Rightarrow> av3_push_fuel (Suc fuel) (In_cell b (used tmp)) tmp s) of
        (Inl e, tmp1, s1) \<Rightarrow> (Inl e, tmp1, s1)
      | (Inr _, tmp1, s1) \<Rightarrow> av3_fill (Suc fuel) src n tmp1 s1)"

definition av3_push :: "ref \<Rightarrow> unit meth" where
  "av3_push = av3_push_fuel 2"

section \<open>The main program\<close>

text \<open>\<^verbatim>\<open>main\<close> of versions 1 and 2 over the operations of the version.\<close>

fun repeat_meth :: "nat \<Rightarrow> 'a meth \<Rightarrow> unit meth" where
  "repeat_meth 0 m v s = (Inr (), v, s)"
| "repeat_meth (Suc n) m v s =
     (case m v s of (Inl e, v', s') \<Rightarrow> (Inl e, v', s') | (Inr _, v', s') \<Rightarrow> repeat_meth n m v' s')"

definition meth_of :: "'a meth \<Rightarrow> vec \<Rightarrow> (mem, vec) stm" where
  "meth_of m v s = (case m v s of (Inl e, v', s') \<Rightarrow> (Inl e, s') | (Inr _, v', s') \<Rightarrow> (Inr v', s'))"

definition arch_main :: "(nat \<Rightarrow> (mem, vec) stm) \<Rightarrow> (ref \<Rightarrow> unit meth) \<Rightarrow> (vec \<Rightarrow> (mem, vec) stm) \<Rightarrow>
    (vec \<Rightarrow> unit meth) \<Rightarrow> 'a meth \<Rightarrow> (mem, unit) stm" where
  "arch_main ctor push copy assign pop =
     bindS (ctor 10) (\<lambda>v. bindS (meth_of (push_all push (map (\<lambda>i. Outside (Some (int i))) [0..<30])) v) (\<lambda>v.
     bindS (copy v) (\<lambda>v2. bindS (ctor 10) (\<lambda>v3.
     bindS (meth_of (repeat_meth 5 pop) v) (\<lambda>v. bindS (meth_of (assign v) v3) (\<lambda>v3.
     bindS (meth_of (repeat_meth 5 pop) v) (\<lambda>v.
     bindS (print_out (string_of_nat (used v) @ endl)) (\<lambda>_.
     bindS (print_out (string_of_nat (used v2) @ endl)) (\<lambda>_.
     print_out (string_of_nat (used v3) @ endl))))))))))"

definition av1_main :: "unit res \<times> mem" where
  "av1_main = arch_main av1_ctor av1_push av1_copy (av1_assign False) av1_pop (mem0\<lparr>control := -1\<rparr>)"

definition av2_main :: "unit res \<times> mem" where
  "av2_main = arch_main av1_ctor av2_push av2_copy av2_assign av2_pop (mem0\<lparr>control := -1\<rparr>)"

section \<open>Version 3 destroys the wrong cells\<close>

lemma destroy_raw:
  assumes "blocks s b = Some cells" "length cells \<le> i \<or> cells ! i = None"
  shows "fst (destroy (Some b) i s) = Inl Undefined_behaviour"
  using assms by (auto simp: destroy_def bindS_def read_cell_def)

lemma av3_destroy_range_undefined:
  assumes "blocks s b = Some cells" "i + n < length cells \<longrightarrow> cells ! (i + n) = None" "n \<noteq> 0"
    and "\<forall>j. i < j \<and> j < i + n \<longrightarrow> j < length cells \<and> cells ! j \<noteq> None"
  shows "fst (av3_destroy_range (Some b) i n s) = Inl Undefined_behaviour"
  using assms
proof (induction n arbitrary: i s cells)
  case (Suc n)
  show ?case
  proof (cases "n = 0")
    case True
    then have "fst (destroy (Some b) (Suc i) s) = Inl Undefined_behaviour"
      using Suc.prems(1,2) by (intro destroy_raw) auto
    then show ?thesis by (cases "destroy (Some b) (Suc i) s") (auto simp: bindS_def)
  next
    case False
    let ?c = "cells[Suc i := None]"
    have "destroy (Some b) (Suc i) s = (Inr (), s\<lparr>blocks := (blocks s)(b \<mapsto> ?c)\<rparr>)"
      using Suc.prems False by (intro destroy_ok) auto
    moreover have "fst (av3_destroy_range (Some b) (Suc i) n (s\<lparr>blocks := (blocks s)(b \<mapsto> ?c)\<rparr>)) = Inl Undefined_behaviour"
      using Suc.prems False by (intro Suc.IH [of _ ?c]) auto
    ultimately show ?thesis by (simp add: bindS_def)
  qed
qed simp

text \<open>
  The destructor of the archived version 3 is wrong: the loop that destroys the elements increments
  its pointer before it uses it, so it skips the first element and goes on to the raw cell (or the end of
  the block) behind the last one. Destroying any vector with elements is undefined behaviour for element
  types with a destructor; so are an assignment to such a vector whose copy succeeds, and growing it.
\<close>

theorem archived_destructor:
  assumes "buf_inv s v" "used v \<noteq> 0"
  shows "fst (av3_buf_dtor v s) = Inl Undefined_behaviour \<and>
    (\<forall>w c s1. av3_copy w s = (Inr c, s1) \<and> buf_inv s1 v \<longrightarrow> fst (av3_assign w v s) = Inl Undefined_behaviour)"
proof -
  have d: "fst (av3_buf_dtor v t) = Inl Undefined_behaviour" if i: "buf_inv t v" for t
  proof -
    obtain b cells where b: "arr v = Some b" "blocks t b = Some cells" "length cells = vsize v" "used v \<le> vsize v"
      "\<forall>i < used v. owning (cells ! i)" "\<forall>i. used v \<le> i \<and> i < vsize v \<longrightarrow> cells ! i = None"
      using i assms(2) by (auto simp: buf_inv_def)
    have "fst (av3_destroy_range (Some b) 0 (used v) t) = Inl Undefined_behaviour"
      using b assms(2) by (intro av3_destroy_range_undefined [of t b cells]) (auto simp: owning_def)
    then show ?thesis using b(1)
      by (cases "av3_destroy_range (Some b) 0 (used v) t") (auto simp: av3_buf_dtor_def bindS_def)
  qed
  have "fst (av3_assign w v s) = Inl Undefined_behaviour" if "av3_copy w s = (Inr c, s1)" "buf_inv s1 v" for w c s1
    using that d [OF that(2)]
    by (cases "av3_buf_dtor v s1") (auto simp: av3_assign_def av3_swap_def)
  then show ?thesis using d [OF assms(1)] by blast
qed

theorem archived_destructor_witness:
  "fst (av3_buf_dtor (svec 3) sample) = Inl Undefined_behaviour"
  using archived_destructor [OF sample_inv(1)] by (simp add: svec_def)

text \<open>Assignment in version 2 never returns a value.\<close>

lemma av2_assign_undefined: "fst (av2_assign rhs self s) \<noteq> Inr ()"
  by (simp add: av2_assign_def av1_move_assign_def av1_move_def split: prod.split sum.split)

end
