(* ===== verification/Pcl.thy ===== *)
theory Pcl
  imports Input "HOL-Library.Signed_Division"
begin

text \<open>
  \<^verbatim>\<open>15-llvm/naive-pcl\<close>: the interpreter of the ParaCL language. Variables (\<^verbatim>\<open>Decl\<close> objects) and
  scopes have identities, because the symbol table maps scope addresses to declarations and the tree
  shares declaration nodes. An \<^verbatim>\<open>int\<close> is a mathematical integer with the 32-bit
  range checked; leaving it is undefined, and so are reading a variable before its first assignment and
  following a null pointer. The operands of a C++ operator such as \<^verbatim>\<open>+\<close> are called in an order the compiler
  chooses: \<open>ord\<close> tells for each operation whether the left one is first. A loop may run
  forever, so evaluation has a fuel argument and \<open>None\<close> means that it was not enough.
\<close>

section \<open>Symtab.hpp\<close>

type_synonym Symtab_local = "string \<Rightarrow> nat option"
type_synonym Symtab = "nat \<Rightarrow> Symtab_local option"

definition local_add :: "string \<Rightarrow> nat \<Rightarrow> Symtab_local \<Rightarrow> Symtab_local" where
  "local_add Symbol Node T = T(Symbol \<mapsto> Node)"

definition local_find :: "string \<Rightarrow> Symtab_local \<Rightarrow> nat option" where
  "local_find Symbol T = T Symbol"

text \<open>\<^verbatim>\<open>free\<close> deletes the declarations (the first component) and empties the table.\<close>

definition local_free :: "Symtab_local \<Rightarrow> nat set \<times> Symtab_local" where
  "local_free T = (ran T, \<lambda>_. None)"

definition symtab_add :: "nat \<Rightarrow> string \<Rightarrow> nat \<Rightarrow> Symtab \<Rightarrow> Symtab" where
  "symtab_add Scope Symbol N T =
     T(Scope \<mapsto> local_add Symbol N (case T Scope of None \<Rightarrow> (\<lambda>_. None) | Some L \<Rightarrow> L))"

definition symtab_exists :: "nat \<Rightarrow> string \<Rightarrow> Symtab \<Rightarrow> nat option" where
  "symtab_exists Scope Symbol T = (case T Scope of None \<Rightarrow> None | Some L \<Rightarrow> local_find Symbol L)"

definition symtab_free :: "nat \<Rightarrow> Symtab \<Rightarrow> nat set \<times> Symtab" where
  "symtab_free Scope T =
     (case T Scope of
        None \<Rightarrow> ({}, T)
      | Some L \<Rightarrow> (let (d, L') = local_free L in (d, T(Scope \<mapsto> L'))))"

section \<open>INode.hpp\<close>

datatype Operation =
  Plus | Minus | Assign | Greater | Less | GreaterEq | LessEq | StdOut | StdIn | Equal | NotEqual |
  Div | Mul | Mod | Not | And | Or

text \<open>
  The node classes of \<^verbatim>\<open>Node.hpp\<close>. \<open>DeclRef\<close> is a pointer to a declaration; the operands of an operation may
  be null.
\<close>

datatype node =
    Val int
  | DeclRef nat
  | Scope nat "node list"
  | Operand "node option" Operation "node option"
  | While node node
  | IfN node node

text \<open>The functions that make nodes.\<close>

definition makeValue :: "int \<Rightarrow> node" where
  "makeValue V = Val V"

definition makeOperand :: "node option \<Rightarrow> Operation \<Rightarrow> node option \<Rightarrow> node" where
  "makeOperand Lhs Op Rhs = Operand Lhs Op Rhs"

definition makeWhile :: "node \<Rightarrow> node \<Rightarrow> node" where
  "makeWhile Op Sc = While Op Sc"

definition makeIf :: "node \<Rightarrow> node \<Rightarrow> node" where
  "makeIf Op Sc = IfN Op Sc"

section \<open>Scopes while the tree is built\<close>

text \<open>
  \<^verbatim>\<open>CurrentScope\<close> and its \<^verbatim>\<open>PrevScope_\<close> chain: the open scopes, innermost first, each with its branches.
  \<^verbatim>\<open>Tables\<close> is \<^verbatim>\<open>GlobalTable\<close>.
\<close>

record bld =
  open_scopes :: "(nat \<times> node list) list"
  Tables :: Symtab
  next_scope :: nat
  next_decl :: nat

definition createScope :: bld where
  "createScope = \<lparr>open_scopes = [(0, [])], Tables = (\<lambda>_. None), next_scope = 1, next_decl = 0\<rparr>"

definition scope_push :: "bld \<Rightarrow> bld" where
  "scope_push b = b\<lparr>open_scopes := (next_scope b, []) # open_scopes b, next_scope := Suc (next_scope b)\<rparr>"

text \<open>Closing: the finished scope as a node, and the enclosing scope current again.\<close>

definition scope_reset :: "bld \<Rightarrow> (node \<times> bld) option" where
  "scope_reset b =
     (case open_scopes b of
        [] \<Rightarrow> None
      | (i, bs) # rest \<Rightarrow> Some (Scope i bs, b\<lparr>open_scopes := rest\<rparr>))"

definition scope_addBranch :: "node \<Rightarrow> bld \<Rightarrow> bld option" where
  "scope_addBranch n b =
     (case open_scopes b of
        [] \<Rightarrow> None
      | (i, bs) # rest \<Rightarrow> Some (b\<lparr>open_scopes := (i, bs @ [n]) # rest\<rparr>))"

fun visible_in :: "Symtab \<Rightarrow> (nat \<times> node list) list \<Rightarrow> string \<Rightarrow> nat option" where
  "visible_in T [] VarName = None"
| "visible_in T ((i, _) # rest) VarName =
     (case symtab_exists i VarName T of Some F \<Rightarrow> Some F | None \<Rightarrow> visible_in T rest VarName)"

definition scope_visible :: "string \<Rightarrow> bld \<Rightarrow> nat option" where
  "scope_visible VarName b = visible_in (Tables b) (open_scopes b) VarName"

definition scope_access :: "string \<Rightarrow> bld \<Rightarrow> (nat \<times> bld) option" where
  "scope_access VarName b =
     (case scope_visible VarName b of
        Some d \<Rightarrow> Some (d, b)
      | None \<Rightarrow>
          (case open_scopes b of
             [] \<Rightarrow> None
           | (i, _) # _ \<Rightarrow>
               Some (next_decl b, b\<lparr>Tables := symtab_add i VarName (next_decl b) (Tables b),
                                    next_decl := Suc (next_decl b)\<rparr>)))"

section \<open>Evaluation\<close>

text \<open>
  The state of a run: the values of the declarations, the input not read yet (\<open>None\<close> once the stream has
  failed), and the output so far.
\<close>

record pst =
  vals :: "nat \<Rightarrow> int option"
  stdin :: "string option"
  stdout :: string

definition INT_MAX :: int where
  "INT_MAX = 2 ^ 31 - 1"

definition in_int :: "int \<Rightarrow> bool" where
  "in_int v \<longleftrightarrow> - INT_MAX - 1 \<le> v \<and> v \<le> INT_MAX"

definition int_res :: "int \<Rightarrow> int res" where
  "int_res v = (if in_int v then Inr v else Inl Undefined_behaviour)"

text \<open>\<^verbatim>\<open>std::cin >> Val\<close> for \<^verbatim>\<open>int\<close>: 0 when there is no number, the nearest value on overflow.\<close>

definition read_int :: "pst \<Rightarrow> int \<times> pst" where
  "read_int s =
     (case stdin s of
        None \<Rightarrow> (0, s)
      | Some inp \<Rightarrow>
          (case scan_int inp of
             None \<Rightarrow> (0, s\<lparr>stdin := None\<rparr>)
           | Some (v, rest) \<Rightarrow>
               if v > INT_MAX then (INT_MAX, s\<lparr>stdin := None\<rparr>)
               else if v < - INT_MAX - 1 then (- INT_MAX - 1, s\<lparr>stdin := None\<rparr>)
               else (v, s\<lparr>stdin := Some rest\<rparr>)))"

definition bindP :: "('a res \<times> pst) option \<Rightarrow> ('a \<Rightarrow> pst \<Rightarrow> ('b res \<times> pst) option) \<Rightarrow> ('b res \<times> pst) option" where
  "bindP m f =
     (case m of None \<Rightarrow> None | Some (Inl e, s) \<Rightarrow> Some (Inl e, s) | Some (Inr x, s) \<Rightarrow> f x s)"

text \<open>A call through a pointer that may be null.\<close>

definition call_ptr :: "(node \<Rightarrow> pst \<Rightarrow> (int res \<times> pst) option) \<Rightarrow> node option \<Rightarrow> pst \<Rightarrow> (int res \<times> pst) option" where
  "call_ptr f p s = (case p of None \<Rightarrow> Some (Inl Undefined_behaviour, s) | Some n \<Rightarrow> f n s)"

text \<open>Two calls as the operands of one operator, in the order the compiler chose.\<close>

definition both :: "bool \<Rightarrow> (node \<Rightarrow> pst \<Rightarrow> (int res \<times> pst) option) \<Rightarrow> node option \<Rightarrow> node option \<Rightarrow>
    (int \<Rightarrow> int \<Rightarrow> int res) \<Rightarrow> pst \<Rightarrow> (int res \<times> pst) option" where
  "both left_first f l r g s =
     (if left_first
      then bindP (call_ptr f l s) (\<lambda>x s. bindP (call_ptr f r s) (\<lambda>y s. Some (g x y, s)))
      else bindP (call_ptr f r s) (\<lambda>y s. bindP (call_ptr f l s) (\<lambda>x s. Some (g x y, s))))"

definition bool_int :: "bool \<Rightarrow> int" where
  "bool_int b = (if b then 1 else 0)"

definition c_div :: "int \<Rightarrow> int \<Rightarrow> int res" where
  "c_div x y = (if y = 0 then Inl Undefined_behaviour else int_res (x sdiv y))"

definition c_mod :: "int \<Rightarrow> int \<Rightarrow> int res" where
  "c_mod x y = (if y = 0 \<or> \<not> in_int (x sdiv y) then Inl Undefined_behaviour else Inr (x smod y))"

text \<open>\<^verbatim>\<open>Operand::calc\<close>, over the evaluation of the operands.\<close>

definition operand_calc :: "(Operation \<Rightarrow> bool) \<Rightarrow> (node \<Rightarrow> pst \<Rightarrow> (int res \<times> pst) option) \<Rightarrow>
    node option \<Rightarrow> Operation \<Rightarrow> node option \<Rightarrow> pst \<Rightarrow> (int res \<times> pst) option" where
  "operand_calc ord f l op r s =
     (case op of
        Plus \<Rightarrow> if l = None then call_ptr f r s else both (ord op) f l r (\<lambda>x y. int_res (x + y)) s
      | Minus \<Rightarrow>
          if l = None then bindP (call_ptr f r s) (\<lambda>y s. Some (int_res (- y), s))
          else both (ord op) f l r (\<lambda>x y. int_res (x - y)) s
      | Greater \<Rightarrow> both (ord op) f l r (\<lambda>x y. Inr (bool_int (x > y))) s
      | Less \<Rightarrow> both (ord op) f l r (\<lambda>x y. Inr (bool_int (x < y))) s
      | GreaterEq \<Rightarrow> both (ord op) f l r (\<lambda>x y. Inr (bool_int (x \<ge> y))) s
      | LessEq \<Rightarrow> both (ord op) f l r (\<lambda>x y. Inr (bool_int (x \<le> y))) s
      | Assign \<Rightarrow>
          bindP (call_ptr f r s) (\<lambda>v s.
            case l of
              Some (DeclRef d) \<Rightarrow> Some (Inr v, s\<lparr>vals := (vals s)(d \<mapsto> v)\<rparr>)
            | _ \<Rightarrow> Some (Inl Undefined_behaviour, s))
      | StdOut \<Rightarrow>
          bindP (call_ptr f r s) (\<lambda>v s. Some (Inr 0, s\<lparr>stdout := stdout s @ string_of_int v @ endl\<rparr>))
      | StdIn \<Rightarrow> (let (v, s') = read_int s in Some (Inr v, s'))
      | Equal \<Rightarrow> both (ord op) f l r (\<lambda>x y. Inr (bool_int (x = y))) s
      | NotEqual \<Rightarrow> both (ord op) f l r (\<lambda>x y. Inr (bool_int (x \<noteq> y))) s
      | Not \<Rightarrow> bindP (call_ptr f r s) (\<lambda>v s. Some (Inr (bool_int (v = 0)), s))
      | And \<Rightarrow>
          bindP (call_ptr f l s) (\<lambda>x s.
            if x = 0 then Some (Inr 0, s)
            else bindP (call_ptr f r s) (\<lambda>y s. Some (Inr (bool_int (y \<noteq> 0)), s)))
      | Or \<Rightarrow>
          bindP (call_ptr f l s) (\<lambda>x s.
            if x \<noteq> 0 then Some (Inr 1, s)
            else bindP (call_ptr f r s) (\<lambda>y s. Some (Inr (bool_int (y \<noteq> 0)), s)))
      | Div \<Rightarrow>
          bindP (call_ptr f r s) (\<lambda>v s.
            if v = 0 then Some (Inl (Runtime_error ''Division by zero''), s)
            else both (ord op) f l r c_div s)
      | Mul \<Rightarrow> both (ord op) f l r (\<lambda>x y. int_res (x * y)) s
      | Mod \<Rightarrow> both (ord op) f l r c_mod s)"

text \<open>\<^verbatim>\<open>Scope::calc\<close>: the branches in order; their values are dropped.\<close>

fun run_branches :: "(node \<Rightarrow> pst \<Rightarrow> (int res \<times> pst) option) \<Rightarrow> node list \<Rightarrow> pst \<Rightarrow> (int res \<times> pst) option" where
  "run_branches f [] s = Some (Inr 0, s)"
| "run_branches f (b # bs) s = bindP (f b s) (\<lambda>_ s. run_branches f bs s)"

primrec calc :: "nat \<Rightarrow> (Operation \<Rightarrow> bool) \<Rightarrow> node \<Rightarrow> pst \<Rightarrow> (int res \<times> pst) option" where
  "calc 0 ord n s = None"
| "calc (Suc k) ord n s =
     (case n of
        Val v \<Rightarrow> Some (Inr v, s)
      | DeclRef d \<Rightarrow>
          Some (case vals s d of None \<Rightarrow> Inl Undefined_behaviour | Some v \<Rightarrow> Inr v, s)
      | Scope i bs \<Rightarrow> run_branches (calc k ord) bs s
      | Operand l op r \<Rightarrow> operand_calc ord (calc k ord) l op r s
      | While c b \<Rightarrow>
          bindP (calc k ord c s) (\<lambda>v s.
            if v \<noteq> 0 then bindP (calc k ord b s) (\<lambda>_ s. calc k ord n s) else Some (Inr 0, s))
      | IfN c b \<Rightarrow>
          bindP (calc k ord c s) (\<lambda>v s.
            if v \<noteq> 0 then bindP (calc k ord b s) (\<lambda>_ s. Some (Inr 0, s)) else Some (Inr 0, s)))"

section \<open>Dumping a tree\<close>

definition op_name :: "Operation \<Rightarrow> string" where
  "op_name op =
     (case op of
        Plus \<Rightarrow> ''Plus'' | Minus \<Rightarrow> ''Minus'' | Greater \<Rightarrow> ''Greater'' | Less \<Rightarrow> ''Less'' |
        Assign \<Rightarrow> ''Assign'' | StdOut \<Rightarrow> ''StdOut'' | StdIn \<Rightarrow> ''StdIn'' | Equal \<Rightarrow> ''Equal'' | _ \<Rightarrow> ''Unknown'')"

text \<open>\<^verbatim>\<open>dump\<close>; an operation dumps its right operand without asking whether there is one.\<close>

fun node_dump :: "(nat \<Rightarrow> int option) \<Rightarrow> node \<Rightarrow> string res" and
    dump_all :: "(nat \<Rightarrow> int option) \<Rightarrow> node list \<Rightarrow> string res" where
  "node_dump V (Val v) = Inr (''Node Value: '' @ string_of_int v @ endl)"
| "node_dump V (DeclRef d) =
     (case V d of None \<Rightarrow> Inl Undefined_behaviour | Some v \<Rightarrow> Inr (''Node Decl: '' @ string_of_int v @ endl))"
| "node_dump V (Scope i bs) = bindE (dump_all V bs) (\<lambda>t. Inr (''Node Scope: '' @ endl @ t))"
| "node_dump V (Operand l op r) =
     bindE (case l of None \<Rightarrow> Inr [] | Some n \<Rightarrow> node_dump V n) (\<lambda>tl.
     bindE (case r of None \<Rightarrow> Inl Undefined_behaviour | Some n \<Rightarrow> node_dump V n) (\<lambda>tr.
       Inr (''Node Operand: '' @ op_name op @ endl @ tl @ tr)))"
| "node_dump V (While c b) = bindE (node_dump V b) (\<lambda>t. Inr (''Node While '' @ endl @ t))"
| "node_dump V (IfN c b) = bindE (node_dump V b) (\<lambda>t. Inr (''Node If '' @ endl @ t))"
| "dump_all V [] = Inr []"
| "dump_all V (n # ns) = bindE (node_dump V n) (\<lambda>t. bindE (dump_all V ns) (\<lambda>ts. Inr (t @ ts)))"

text \<open>Deleting a tree: the declarations deleted, which are those of the tables of the deleted scopes.\<close>

definition is_decl :: "node \<Rightarrow> bool" where
  "is_decl n = (case n of DeclRef _ \<Rightarrow> True | _ \<Rightarrow> False)"

fun node_delete :: "node \<Rightarrow> Symtab \<Rightarrow> nat list \<times> Symtab" and
    delete_all :: "node list \<Rightarrow> Symtab \<Rightarrow> nat list \<times> Symtab" where
  "node_delete (Val v) T = ([], T)"
| "node_delete (DeclRef d) T = ([d], T)"
| "node_delete (Scope i bs) T =
     (let (ds, T1) = delete_all bs T; (fr, T2) = symtab_free i T1 in
      (ds @ sorted_list_of_set fr, T2))"
| "node_delete (Operand l op r) T =
     (let (d1, T1) = (case l of None \<Rightarrow> ([], T) | Some n \<Rightarrow> if is_decl n then ([], T) else node_delete n T);
          (d2, T2) = (case r of None \<Rightarrow> ([], T1) | Some n \<Rightarrow> if is_decl n then ([], T1) else node_delete n T1) in
      (d1 @ d2, T2))"
| "node_delete (While c b) T =
     (let (d1, T1) = (if is_decl c then ([], T) else node_delete c T); (d2, T2) = node_delete b T1 in
      (d1 @ d2, T2))"
| "node_delete (IfN c b) T =
     (let (d1, T1) = (if is_decl c then ([], T) else node_delete c T); (d2, T2) = node_delete b T1 in
      (d1 @ d2, T2))"
| "delete_all [] T = ([], T)"
| "delete_all (n # ns) T =
     (let (d1, T1) = node_delete n T; (d2, T2) = delete_all ns T1 in (d1 @ d2, T2))"

lemmas calc_Suc = calc.simps(2)

declare calc.simps(2) [simp del]

lemma calc_node:
  "calc (Suc k) ord (Val v) s = Some (Inr v, s)"
  "calc (Suc k) ord (DeclRef d) s = Some (case vals s d of None \<Rightarrow> Inl Undefined_behaviour | Some v \<Rightarrow> Inr v, s)"
  "calc (Suc k) ord (Scope i bs) s = run_branches (calc k ord) bs s"
  "calc (Suc k) ord (Operand l op r) s = operand_calc ord (calc k ord) l op r s"
  "calc (Suc k) ord (While c b) s = bindP (calc k ord c s) (\<lambda>v s.
     if v \<noteq> 0 then bindP (calc k ord b s) (\<lambda>_ s. calc k ord (While c b) s) else Some (Inr 0, s))"
  "calc (Suc k) ord (IfN c b) s = bindP (calc k ord c s) (\<lambda>v s.
     if v \<noteq> 0 then bindP (calc k ord b s) (\<lambda>_ s. Some (Inr 0, s)) else Some (Inr 0, s))"
  by (simp_all add: calc_Suc)

end
