(* ===== verification/Fib_Numbers.thy ===== *)
theory Fib_Numbers
  imports Main
begin

text \<open>
  The Fibonacci numbers, the reference for the programs that compute them: the test program of ParaCL and
  the compile-time functions.
\<close>

fun fib :: "nat \<Rightarrow> int" where
  "fib 0 = 0"
| "fib (Suc 0) = 1"
| "fib (Suc (Suc n)) = fib n + fib (Suc n)"

lemma fib_nonneg: "0 \<le> fib n"
  by (induction n rule: fib.induct) auto

lemma fib_mono: "m \<le> n \<Longrightarrow> fib m \<le> fib n"
proof (induction n arbitrary: m rule: fib.induct)
  case (3 n)
  have "fib m \<le> fib (Suc n)" if "m \<le> Suc n" using 3(2) that by blast
  then show ?case using 3(3) fib_nonneg [of n] by (cases "m \<le> Suc n") (auto simp: le_Suc_eq)
qed (auto simp: le_Suc_eq)

lemma fib_pair: "((\<lambda>(a, b). (b, a + b)) ^^ n) (0, 1) = (fib n, fib (Suc n))"
  by (induction n) auto

lemma fib_46: "fib 46 = 1836311903"
proof -
  have "fst (((\<lambda>(a, b). (b, a + b)) ^^ 46) (0, 1)) = (1836311903 :: int)" by code_simp
  then show ?thesis by (simp only: fib_pair fst_conv)
qed

lemma fib_45: "fib 45 = 1134903170"
proof -
  have "fst (((\<lambda>(a, b). (b, a + b)) ^^ 45) (0, 1)) = (1134903170 :: int)" by code_simp
  then show ?thesis by (simp only: fib_pair fst_conv)
qed

end
