(* ===== verification/Pcl_Props.thy ===== *)
theory Pcl_Props
  imports Pcl Fib_Numbers
begin

text \<open>
  Properties of the ParaCL interpreter: more fuel never changes a result, expressions
  without input evaluate to their mathematical value in every order of evaluation,
  variables are lexically scoped, and a whole program computes what it should.
\<close>

section \<open>Fuel\<close>

definition extends :: "(node \<Rightarrow> pst \<Rightarrow> (int res \<times> pst) option) \<Rightarrow> (node \<Rightarrow> pst \<Rightarrow> (int res \<times> pst) option) \<Rightarrow> bool" where
  "extends f g \<longleftrightarrow> (\<forall>n s r. f n s = Some r \<longrightarrow> g n s = Some r)"

lemma bindP_Some_iff:
  "bindP m f = Some r \<longleftrightarrow>
     (\<exists>e s. m = Some (Inl e, s) \<and> r = (Inl e, s)) \<or> (\<exists>x s. m = Some (Inr x, s) \<and> f x s = Some r)"
  by (auto simp: bindP_def split: option.splits sum.splits)

lemma bindP_simps [simp]:
  "bindP None f = None" "bindP (Some (Inl e, s)) f = Some (Inl e, s)" "bindP (Some (Inr x, s)) f = f x s"
  by (simp_all add: bindP_def)

lemma bindP_mono:
  assumes "bindP m f = Some r" "\<And>q. m = Some q \<Longrightarrow> m' = Some q" "\<And>x s q. f x s = Some q \<Longrightarrow> g x s = Some q"
  shows "bindP m' g = Some r"
  using assms unfolding bindP_Some_iff by blast

lemma extendsD: "extends f g \<Longrightarrow> f n s = Some r \<Longrightarrow> g n s = Some r"
  unfolding extends_def by blast

lemma call_ptr_mono: "extends f g \<Longrightarrow> call_ptr f p s = Some r \<Longrightarrow> call_ptr g p s = Some r"
  by (cases p) (auto simp: call_ptr_def dest: extendsD)

lemma both_mono:
  assumes "extends f g" "both lf f l r h s = Some q"
  shows "both lf g l r h s = Some q"
  using assms(2) unfolding both_def
  by (auto split: if_splits elim!: bindP_mono intro: call_ptr_mono [OF assms(1)])

lemma operand_calc_mono:
  assumes "extends f g" "operand_calc ord f l op r s = Some q"
  shows "operand_calc ord g l op r s = Some q"
  using assms(2)
  by (cases op) (auto simp: operand_calc_def split: if_splits elim!: bindP_mono
      intro: call_ptr_mono [OF assms(1)] both_mono [OF assms(1)])

lemma run_branches_mono:
  assumes "extends f g" "run_branches f bs s = Some q"
  shows "run_branches g bs s = Some q"
  using assms(2)
proof (induction bs arbitrary: s q)
  case (Cons b bs)
  show ?case
    unfolding run_branches.simps
    by (rule bindP_mono [OF Cons.prems [unfolded run_branches.simps]])
      (auto intro: extendsD [OF assms(1)] Cons.IH)
qed simp

lemma calc_extends: "extends (calc k ord) (calc (Suc k) ord)"
proof (induction k)
  case 0
  then show ?case by (simp add: extends_def)
next
  case (Suc k)
  note e = extendsD [OF Suc]
  show ?case
    unfolding extends_def
  proof (intro allI impI)
    fix n s q assume q: "calc (Suc k) ord n s = Some q"
    show "calc (Suc (Suc k)) ord n s = Some q"
    proof (cases n)
      case (Scope i bs)
      then show ?thesis using q run_branches_mono [OF Suc] by (simp add: calc_node)
    next
      case (Operand l op r)
      then show ?thesis using q operand_calc_mono [OF Suc] by (simp add: calc_node)
    next
      case (While c b)
      show ?thesis
        unfolding While calc_node(5) [of "Suc k"]
        by (rule bindP_mono [OF q [unfolded While calc_node(5)]])
          (auto split: if_splits intro: e elim!: bindP_mono)
    next
      case (IfN c b)
      show ?thesis
        using q unfolding IfN calc_node
        by (elim bindP_mono) (auto split: if_splits intro: e elim!: bindP_mono)
    qed (use q in \<open>auto simp: calc_node\<close>)
  qed
qed

lemma calc_mono: "calc k ord n s = Some q \<Longrightarrow> k \<le> k' \<Longrightarrow> calc k' ord n s = Some q"
proof (induction k' rule: nat_induct)
  case (Suc k')
  show ?case
  proof (cases "k = Suc k'")
    case False
    then have "calc k' ord n s = Some q" using Suc by simp
    then show ?thesis by (rule extendsD [OF calc_extends])
  qed (use Suc in simp)
qed simp

text \<open>The result of a run, however much fuel it takes.\<close>

definition runs :: "(Operation \<Rightarrow> bool) \<Rightarrow> node \<Rightarrow> pst \<Rightarrow> int res \<times> pst \<Rightarrow> bool" where
  "runs ord n s r \<longleftrightarrow> (\<exists>k. calc k ord n s = Some r)"

lemma runs_deterministic: "runs ord n s r \<Longrightarrow> runs ord n s r' \<Longrightarrow> r = r'"
  unfolding runs_def by (metis calc_mono nle_le option.inject)

section \<open>Expressions without input\<close>

text \<open>The binary operations that call both operands in an unspecified order, with their values.\<close>

definition bin_val :: "Operation \<Rightarrow> int \<Rightarrow> int \<Rightarrow> int res" where
  "bin_val op x y =
     (case op of
        Plus \<Rightarrow> int_res (x + y) | Minus \<Rightarrow> int_res (x - y) | Mul \<Rightarrow> int_res (x * y)
      | Greater \<Rightarrow> Inr (bool_int (x > y)) | Less \<Rightarrow> Inr (bool_int (x < y))
      | GreaterEq \<Rightarrow> Inr (bool_int (x \<ge> y)) | LessEq \<Rightarrow> Inr (bool_int (x \<le> y))
      | Equal \<Rightarrow> Inr (bool_int (x = y)) | NotEqual \<Rightarrow> Inr (bool_int (x \<noteq> y))
      | Mod \<Rightarrow> c_mod x y | Div \<Rightarrow> c_div x y | _ \<Rightarrow> Inl Undefined_behaviour)"

definition is_bin :: "Operation \<Rightarrow> bool" where
  "is_bin op \<longleftrightarrow> op \<in> {Plus, Minus, Mul, Greater, Less, GreaterEq, LessEq, Equal, NotEqual, Mod}"

text \<open>
  The value of an expression, as mathematics would have it: \<open>None\<close> when it has none (an overflow, a
  division by zero, an unset variable).
\<close>

fun ev :: "(nat \<Rightarrow> int option) \<Rightarrow> node \<Rightarrow> int option" where
  "ev V (Val v) = Some v"
| "ev V (DeclRef d) = V d"
| "ev V (Operand (Some l) op (Some r)) =
     (if op = And then
        (case ev V l of None \<Rightarrow> None | Some x \<Rightarrow>
           if x = 0 then Some 0 else map_option (\<lambda>y. bool_int (y \<noteq> 0)) (ev V r))
      else if op = Or then
        (case ev V l of None \<Rightarrow> None | Some x \<Rightarrow>
           if x \<noteq> 0 then Some 1 else map_option (\<lambda>y. bool_int (y \<noteq> 0)) (ev V r))
      else
        (case (ev V l, ev V r) of
           (Some x, Some y) \<Rightarrow> (case bin_val op x y of Inl _ \<Rightarrow> None | Inr z \<Rightarrow> Some z)
         | _ \<Rightarrow> None))"
| "ev V (Operand None Not (Some r)) = map_option (\<lambda>y. bool_int (y = 0)) (ev V r)"
| "ev V _ = None"

fun pure :: "node \<Rightarrow> bool" where
  "pure (Val v) = True"
| "pure (DeclRef d) = True"
| "pure (Operand (Some l) op (Some r)) = (pure l \<and> pure r \<and> (is_bin op \<or> op \<in> {Div, And, Or}))"
| "pure (Operand None Not (Some r)) = pure r"
| "pure _ = False"

fun depth :: "node \<Rightarrow> nat" where
  "depth (Operand (Some l) op (Some r)) = Suc (max (depth l) (depth r))"
| "depth (Operand None op (Some r)) = Suc (depth r)"
| "depth _ = 0"

text \<open>What \<open>calc\<close> may answer for an expression of value \<open>v\<close>: that value, and otherwise some error.\<close>

definition agrees :: "int option \<Rightarrow> int res \<Rightarrow> bool" where
  "agrees v res \<longleftrightarrow> (case v of Some x \<Rightarrow> res = Inr x | None \<Rightarrow> (\<exists>e. res = Inl e))"

lemma both_agrees:
  assumes "f l s = Some (rl, s)" "agrees vl rl" "f r s = Some (rr, s)" "agrees vr rr"
  shows "\<exists>res. both lf f (Some l) (Some r) g s = Some (res, s) \<and>
    agrees (case (vl, vr) of (Some x, Some y) \<Rightarrow> (case g x y of Inl _ \<Rightarrow> None | Inr z \<Rightarrow> Some z) | _ \<Rightarrow> None) res"
  using assms
  by (cases vl; cases vr) (auto simp: both_def call_ptr_def agrees_def split: sum.split)

lemma operand_both:
  "is_bin op \<Longrightarrow> operand_calc ord f (Some l) op (Some r) s = both (ord op) f (Some l) (Some r) (bin_val op) s"
  by (cases op) (auto simp: is_bin_def operand_calc_def bin_val_def both_def)

lemma c_div_bin: "c_div = bin_val Div"
  by (simp add: fun_eq_iff bin_val_def)

lemma bin_val_op: "is_bin op \<or> op = Div \<Longrightarrow> op \<noteq> And \<and> op \<noteq> Or"
  by (auto simp: is_bin_def)

lemma calc_pure:
  assumes "pure n" "depth n < k"
  shows "\<exists>res. calc k ord n s = Some (res, s) \<and> agrees (ev (vals s) n) res"
  using assms
proof (induction n arbitrary: k rule: pure.induct)
  case (1 v)
  then show ?case by (cases k) (auto simp: calc_node agrees_def)
next
  case (2 d)
  then show ?case by (cases k) (auto simp: calc_node agrees_def split: option.split)
next
  case (3 l op r)
  then obtain k' where k: "k = Suc k'" by (cases k) auto
  have pl: "pure l" "pure r" "depth l < k'" "depth r < k'" using 3(3,4) k by auto
  obtain rl where rl: "calc k' ord l s = Some (rl, s)" "agrees (ev (vals s) l) rl" using 3(1) pl by blast
  obtain rr where rr: "calc k' ord r s = Some (rr, s)" "agrees (ev (vals s) r) rr" using 3(2) pl by blast
  note ba = both_agrees [of "calc k' ord", OF rl rr]
  consider "is_bin op" | "op = Div" | "op = And" | "op = Or" using 3(3) by auto
  then show ?case
  proof cases
    case 1
    then show ?thesis using ba [of "ord op" "bin_val op"] bin_val_op [of op] k
      by (simp add: calc_node operand_both)
  next
    case 2
    show ?thesis
    proof (cases rr)
      case (Inl e)
      then have "ev (vals s) r = None" using rr(2) by (auto simp: agrees_def split: option.splits)
      then show ?thesis using 2 k rr(1) Inl
        by (auto simp: calc_node operand_calc_def call_ptr_def agrees_def split: option.splits)
    next
      case (Inr v)
      then have v: "ev (vals s) r = Some v" using rr(2) by (auto simp: agrees_def split: option.splits)
      show ?thesis
      proof (cases "v = 0")
        case True
        then show ?thesis using 2 k rr(1) Inr v
          by (auto simp: calc_node operand_calc_def call_ptr_def agrees_def bin_val_def c_div_def
              split: option.splits)
      next
        case False
        then show ?thesis using 2 k rr(1) Inr ba [of "ord Div" "bin_val Div"]
          by (simp add: calc_node operand_calc_def call_ptr_def c_div_bin)
      qed
    qed
  next
    case 3
    then show ?thesis using rl rr k
      by (auto simp: calc_node operand_calc_def call_ptr_def agrees_def split: option.splits)
  next
    case 4
    then show ?thesis using rl rr k
      by (auto simp: calc_node operand_calc_def call_ptr_def agrees_def split: option.splits)
  qed
next
  case (4 r)
  then obtain k' where k: "k = Suc k'" by (cases k) auto
  obtain rr where rr: "calc k' ord r s = Some (rr, s)" "agrees (ev (vals s) r) rr"
    using 4 k by auto
  then show ?case using k
    by (auto simp: calc_node operand_calc_def call_ptr_def agrees_def split: option.splits)
qed auto

section \<open>Big-step rules\<close>

lemma runs_pure: "pure n \<Longrightarrow> ev (vals s) n = Some v \<Longrightarrow> runs ord n s (Inr v, s)"
  using calc_pure [of n "Suc (depth n)" ord s] unfolding runs_def agrees_def by force

lemma runs_join:
  assumes "runs ord n s r" "runs ord m t q"
  obtains k where "calc k ord n s = Some r" "calc k ord m t = Some q"
  using assms unfolding runs_def by (metis calc_mono linear)

lemma runs_step:
  assumes "runs ord m s q" "\<And>k. calc k ord m s = Some q \<Longrightarrow> calc (Suc k) ord n t = Some r"
  shows "runs ord n t r"
  using assms unfolding runs_def by blast

lemma runs_Assign:
  "runs ord e s (Inr v, s') \<Longrightarrow>
     runs ord (Operand (Some (DeclRef d)) Assign (Some e)) s (Inr v, s'\<lparr>vals := (vals s')(d \<mapsto> v)\<rparr>)"
  by (erule runs_step) (simp add: calc_node operand_calc_def call_ptr_def)

lemma runs_StdOut:
  "runs ord e s (Inr v, s') \<Longrightarrow>
     runs ord (Operand None StdOut (Some e)) s (Inr 0, s'\<lparr>stdout := stdout s' @ string_of_int v @ endl\<rparr>)"
  by (erule runs_step) (simp add: calc_node operand_calc_def call_ptr_def)

lemma runs_StdIn: "runs ord (Operand None StdIn None) s (Inr (fst (read_int s)), snd (read_int s))"
  unfolding runs_def by (rule exI [of _ 1]) (simp add: calc_node operand_calc_def case_prod_beta Let_def)

lemma runs_Scope_Nil: "runs ord (Scope i []) s (Inr 0, s)"
  unfolding runs_def by (rule exI [of _ 1]) (simp add: calc_node)

lemma runs_Scope_Cons:
  assumes "runs ord b s (Inr v, s1)" "runs ord (Scope i bs) s1 r"
  shows "runs ord (Scope i (b # bs)) s r"
proof -
  obtain k where k: "calc k ord b s = Some (Inr v, s1)" "calc k ord (Scope i bs) s1 = Some r"
    using runs_join [OF assms] by blast
  then obtain k' where k': "k = Suc k'" by (cases k) auto
  have "run_branches (calc k ord) bs s1 = Some r"
    using k(2) run_branches_mono [OF calc_extends] unfolding k' calc_node(3) by blast
  then show ?thesis unfolding runs_def using k(1) by (intro exI [of _ "Suc k"]) (simp add: calc_node)
qed

lemma runs_If_false: "runs ord c s (Inr 0, s1) \<Longrightarrow> runs ord (IfN c b) s (Inr 0, s1)"
  by (erule runs_step) (simp add: calc_node)

lemma runs_If_true:
  assumes "runs ord c s (Inr v, s1)" "v \<noteq> 0" "runs ord b s1 (Inr w, s2)"
  shows "runs ord (IfN c b) s (Inr 0, s2)"
proof -
  obtain k where "calc k ord c s = Some (Inr v, s1)" "calc k ord b s1 = Some (Inr w, s2)"
    using runs_join [OF assms(1,3)] by blast
  then show ?thesis unfolding runs_def using assms(2) by (intro exI [of _ "Suc k"]) (simp add: calc_node)
qed

lemma runs_While_false: "runs ord c s (Inr 0, s1) \<Longrightarrow> runs ord (While c b) s (Inr 0, s1)"
  by (erule runs_step) (simp add: calc_node)

lemma runs_While_true:
  assumes "runs ord c s (Inr v, s1)" "v \<noteq> 0" "runs ord b s1 (Inr w, s2)" "runs ord (While c b) s2 r"
  shows "runs ord (While c b) s r"
proof -
  obtain k1 where k1: "calc k1 ord c s = Some (Inr v, s1)" "calc k1 ord b s1 = Some (Inr w, s2)"
    using runs_join [OF assms(1,3)] by blast
  obtain k2 where k2: "calc k2 ord (While c b) s2 = Some r" using assms(4) unfolding runs_def by blast
  let ?k = "max k1 k2"
  have "calc ?k ord c s = Some (Inr v, s1)" "calc ?k ord b s1 = Some (Inr w, s2)" "calc ?k ord (While c b) s2 = Some r"
    using calc_mono [OF k1(1), of ?k] calc_mono [OF k1(2), of ?k] calc_mono [OF k2, of ?k] by auto
  then show ?thesis unfolding runs_def using assms(2) by (intro exI [of _ "Suc ?k"]) (simp add: calc_node)
qed

section \<open>Scoping\<close>

text \<open>The interface of the symbol table, and its implementation by \<^verbatim>\<open>Symtab\<close>.\<close>

locale symbol_table =
  fixes add :: "nat \<Rightarrow> string \<Rightarrow> nat \<Rightarrow> 't \<Rightarrow> 't"
    and lookup :: "nat \<Rightarrow> string \<Rightarrow> 't \<Rightarrow> nat option"
    and release :: "nat \<Rightarrow> 't \<Rightarrow> nat set \<times> 't"
  assumes lookup_add: "lookup sc x (add sc' y n T) = (if sc = sc' \<and> x = y then Some n else lookup sc x T)"
    and lookup_release: "lookup sc x (snd (release sc' T)) = (if sc = sc' then None else lookup sc x T)"
    and released: "fst (release sc T) = {n. \<exists>x. lookup sc x T = Some n}"
begin

lemma lookup_add_other: "sc \<noteq> sc' \<Longrightarrow> lookup sc x (add sc' y n T) = lookup sc x T"
  by (simp add: lookup_add)

text \<open>Releasing a scope right after declaring in it gives back exactly what was declared there.\<close>

lemma release_add: "fst (release sc (add sc x n T)) = insert n {m. \<exists>y. y \<noteq> x \<and> lookup sc y T = Some m}"
  by (auto simp: released lookup_add split: if_splits)

lemma release_again: "fst (release sc (snd (release sc T))) = {}"
  by (simp add: released lookup_release)

end

interpretation st: symbol_table symtab_add symtab_exists symtab_free
  by unfold_locales
    (auto simp: symtab_add_def symtab_exists_def symtab_free_def local_add_def local_find_def local_free_def
      ran_def split: option.splits)

text \<open>The builder's invariant: open scopes are distinct and older than the next one, tables belong to known scopes.\<close>

definition bld_inv :: "bld \<Rightarrow> bool" where
  "bld_inv b \<longleftrightarrow> distinct (map fst (open_scopes b)) \<and> (\<forall>i \<in> set (map fst (open_scopes b)). i < next_scope b) \<and>
     (\<forall>i x. symtab_exists i x (Tables b) \<noteq> None \<longrightarrow> i < next_scope b)"

lemma bld_inv_create: "bld_inv createScope"
  by (auto simp: bld_inv_def createScope_def symtab_exists_def)

lemma bld_inv_push: "bld_inv b \<Longrightarrow> bld_inv (scope_push b)"
  by (auto simp: bld_inv_def scope_push_def less_Suc_eq)

lemma visible_in_cong:
  "\<forall>i \<in> set (map fst sc). \<forall>x. symtab_exists i x T = symtab_exists i x T' \<Longrightarrow> visible_in T sc x = visible_in T' sc x"
  by (induction T sc x rule: visible_in.induct) (auto split: option.split)

lemma scope_access_cases:
  assumes "bld_inv b" "open_scopes b = (i, bs) # rest"
  obtains (old) d where "scope_visible x b = Some d" "scope_access x b = Some (d, b)"
  | (new) b' where "scope_visible x b = None" "scope_access x b = Some (next_decl b, b')" "bld_inv b'"
      "open_scopes b' = open_scopes b" "next_scope b' = next_scope b" "next_decl b' = Suc (next_decl b)"
      "Tables b' = symtab_add i x (next_decl b) (Tables b)"
proof (cases "scope_visible x b")
  case (Some d)
  then show ?thesis using old by (simp add: scope_access_def)
next
  case None
  let ?b = "b\<lparr>Tables := symtab_add i x (next_decl b) (Tables b), next_decl := Suc (next_decl b)\<rparr>"
  have "\<forall>j y. symtab_exists j y (Tables b) \<noteq> None \<longrightarrow> j < next_scope b" "i < next_scope b"
    using assms by (simp_all add: bld_inv_def)
  then have "\<forall>j y. symtab_exists j y (Tables ?b) \<noteq> None \<longrightarrow> j < next_scope b" by (auto simp: st.lookup_add)
  then have "bld_inv ?b" using assms(1) by (simp add: bld_inv_def)
  then show ?thesis using new [of ?b] None assms(2) by (simp add: scope_access_def)
qed

text \<open>Declaring several names in the current scope, as a block of assignments does.\<close>

fun access_all :: "string list \<Rightarrow> bld \<Rightarrow> (nat list \<times> bld) option" where
  "access_all [] b = Some ([], b)"
| "access_all (x # xs) b =
     (case scope_access x b of None \<Rightarrow> None
      | Some (d, b1) \<Rightarrow> map_option (\<lambda>(ds, b2). (d # ds, b2)) (access_all xs b1))"

lemma access_all_ok:
  assumes "bld_inv b" "open_scopes b = (i, bs) # rest"
  shows "\<exists>ds b'. access_all xs b = Some (ds, b') \<and> bld_inv b' \<and> open_scopes b' = open_scopes b \<and>
    (\<forall>j y. j \<noteq> i \<longrightarrow> symtab_exists j y (Tables b') = symtab_exists j y (Tables b))"
  using assms
proof (induction xs arbitrary: b)
  case (Cons x xs)
  from Cons.prems show ?case
  proof (cases rule: scope_access_cases [where x = x])
    case (old d)
    then show ?thesis using Cons.IH [OF Cons.prems] by auto
  next
    case (new b')
    have "open_scopes b' = (i, bs) # rest" using new(4) Cons.prems(2) by simp
    from Cons.IH [OF new(3) this] show ?thesis using new by (auto simp: st.lookup_add_other)
  qed
qed simp

lemma scope_access_visible:
  assumes "bld_inv b" "open_scopes b \<noteq> []" "scope_access x b = Some (d, b')"
  shows "scope_visible x b' = Some d"
proof -
  obtain i bs rest where o: "open_scopes b = (i, bs) # rest" using assms(2) by (cases "open_scopes b") auto
  from assms(1) o show ?thesis
  proof (cases rule: scope_access_cases [where x = x])
    case (old d)
    then show ?thesis using assms(3) by simp
  next
    case (new b'')
    then show ?thesis using assms(3) o by (simp add: scope_visible_def st.lookup_add)
  qed
qed

text \<open>
  Scoping of ParaCL is lexical. From any state of the builder that the invariant allows, with a
  current scope: after opening a scope, using any names in it and closing it, every name means what it
  meant before, so that what was declared inside is not visible any more; and inside, a name of the
  enclosing scopes means the variable declared there.
\<close>

theorem scope_block_lexical:
  assumes "bld_inv b"
  shows "\<exists>ds b1 n b2. access_all xs (scope_push b) = Some (ds, b1) \<and> scope_reset b1 = Some (n, b2) \<and>
    bld_inv b2 \<and> open_scopes b2 = open_scopes b \<and> (\<forall>y. scope_visible y b2 = scope_visible y b) \<and>
    (\<forall>y d. scope_visible y b = Some d \<longrightarrow> scope_access y (scope_push b) = Some (d, scope_push b))"
proof -
  let ?i = "next_scope b"
  have o: "open_scopes (scope_push b) = (?i, []) # open_scopes b" by (simp add: scope_push_def)
  obtain ds b1 where b1: "access_all xs (scope_push b) = Some (ds, b1)" "bld_inv b1"
      "open_scopes b1 = (?i, []) # open_scopes b"
      "\<forall>j y. j \<noteq> ?i \<longrightarrow> symtab_exists j y (Tables b1) = symtab_exists j y (Tables b)"
    using access_all_ok [OF bld_inv_push [OF assms] o, of xs] by (auto simp: scope_push_def)
  let ?b2 = "b1\<lparr>open_scopes := open_scopes b\<rparr>"
  have r: "scope_reset b1 = Some (Scope ?i [], ?b2)" using b1(3) by (simp add: scope_reset_def)
  have inv2: "bld_inv ?b2" using b1(2,3) by (simp add: bld_inv_def)
  have fresh: "?i \<notin> set (map fst (open_scopes b))" using assms by (auto simp: bld_inv_def)
  have vis: "scope_visible y ?b2 = scope_visible y b" for y
  proof -
    have "\<forall>j \<in> set (map fst (open_scopes b)). \<forall>z. symtab_exists j z (Tables b1) = symtab_exists j z (Tables b)"
      using b1(4) fresh by metis
    from visible_in_cong [OF this] show ?thesis by (simp add: scope_visible_def)
  qed
  have none: "symtab_exists ?i y (Tables b) = None" for y
    using assms unfolding bld_inv_def by (metis less_irrefl)
  have acc: "scope_access y (scope_push b) = Some (d, scope_push b)" if "scope_visible y b = Some d" for y d
    using that none by (simp add: scope_access_def scope_visible_def scope_push_def)
  show ?thesis
  proof (intro exI conjI allI impI)
    show "access_all xs (scope_push b) = Some (ds, b1)" by (rule b1(1))
    show "scope_reset b1 = Some (Scope ?i [], ?b2)" by (rule r)
  qed (use inv2 vis acc in simp_all)
qed

theorem scope_block_lexical_witness:
  "\<exists>b. scope_access ''a'' createScope = Some (0, b) \<and> bld_inv b \<and>
     (\<exists>ds b1 n b2. access_all [''a'', ''t''] (scope_push b) = Some (ds, b1) \<and> scope_reset b1 = Some (n, b2) \<and>
        scope_visible ''a'' b2 = Some 0 \<and> scope_visible ''t'' b2 = None)"
proof -
  obtain b where b: "scope_access ''a'' createScope = Some (0, b)" "bld_inv b"
      "Tables b = symtab_add 0 ''a'' 0 (\<lambda>_. None)" "open_scopes b = [(0, [])]"
    using scope_access_cases [OF bld_inv_create, where x = "''a''", of 0 "[]" "[]"]
    by (auto simp: createScope_def scope_visible_def symtab_exists_def)
  have v: "scope_visible ''a'' b = Some 0" "scope_visible ''t'' b = None"
    using b(3,4) by (simp_all add: scope_visible_def symtab_exists_def symtab_add_def local_add_def local_find_def)
  show ?thesis using b(1,2) v scope_block_lexical [OF b(2), of "[''a'', ''t'']"] by metis
qed

section \<open>Expressions\<close>

text \<open>
  C23. Evaluating an expression built from constants, variables and the arithmetic, comparison and logical
  operators always returns, with fuel above the depth of the tree: it leaves variables, input and output
  alone, and gives the mathematical value when every intermediate result fits \<^verbatim>\<open>int\<close> and no divisor is zero,
  and an error otherwise. The value does not depend on the order of evaluation the compiler chose.
\<close>

theorem calc_expression:
  assumes "pure n" "depth n < k"
  shows "\<exists>res. calc k ord n s = Some (res, s) \<and>
    (case ev (vals s) n of Some v \<Rightarrow> res = Inr v | None \<Rightarrow> (\<exists>e. res = Inl e))"
  using calc_pure [OF assms, of ord s] by (simp add: agrees_def)

theorem calc_expression_witness:
  "\<exists>res. calc 5 (\<lambda>_. False)
      (makeOperand (Some (makeValue 7)) Div (Some (makeOperand (Some (DeclRef 0)) Minus (Some (makeValue 2)))))
      \<lparr>vals = [0 \<mapsto> 5], stdin = None, stdout = []\<rparr> = Some (res, \<lparr>vals = [0 \<mapsto> 5], stdin = None, stdout = []\<rparr>) \<and> res = Inr 2"
  using calc_expression [of "makeOperand (Some (makeValue 7)) Div (Some (makeOperand (Some (DeclRef 0)) Minus (Some (makeValue 2))))"
      5 "\<lambda>_. False" "\<lparr>vals = [0 \<mapsto> 5], stdin = None, stdout = []\<rparr>"]
  by (simp add: makeOperand_def makeValue_def is_bin_def bin_val_def int_res_def in_int_def INT_MAX_def c_div_def signed_divide_int_def)

lemma read_int_line:
  "in_int v \<Longrightarrow> read_int \<lparr>vals = V, stdin = Some (string_of_int v @ endl @ rest), stdout = out\<rparr> =
     (v, \<lparr>vals = V, stdin = Some (endl @ rest), stdout = out\<rparr>)"
  using scan_int_string_of_int [of "CHR 0x0A" v rest]
  by (simp add: read_int_def in_int_def endl_def isdigit_def)

lemma read_int_skip:
  "stdin s = Some (endl @ inp) \<Longrightarrow> read_int s = read_int (s\<lparr>stdin := Some inp\<rparr>)"
  by (cases s) (simp add: read_int_def endl_def scan_int_skip isspace_def split: option.split)

text \<open>
  A division evaluates its divisor twice, once for the test and once for the quotient. With a
  divisor that reads the input, the tested number is therefore not the one divided by: for the inputs
  \<open>v\<close> (not zero) and \<open>w\<close> the test looks at \<open>v\<close> and the result is the quotient by \<open>w\<close>, which for \<open>w = 0\<close> is
  undefined behaviour in place of the exception \<^verbatim>\<open>Division by zero\<close>.
\<close>

theorem div_reads_twice:
  assumes "v \<noteq> 0" "in_int v" "in_int w" "2 \<le> k"
  shows "calc k ord (makeOperand (Some (makeValue c)) Div (Some (makeOperand None StdIn None)))
      \<lparr>vals = V, stdin = Some (string_of_int v @ endl @ string_of_int w @ endl), stdout = []\<rparr> =
    Some (c_div c w, \<lparr>vals = V, stdin = Some endl, stdout = []\<rparr>)"
proof -
  let ?s = "\<lparr>vals = V, stdin = Some (string_of_int v @ endl @ string_of_int w @ endl), stdout = []\<rparr>"
  let ?t = "\<lparr>vals = V, stdin = Some (endl @ string_of_int w @ endl), stdout = []\<rparr>"
  obtain k' where k: "k = Suc (Suc k')" using assms(4) by (metis add_2_eq_Suc le_Suc_ex)
  have one: "read_int ?s = (v, ?t)" using assms(2) by (simp add: read_int_line)
  have two: "read_int ?t = (w, \<lparr>vals = V, stdin = Some endl, stdout = []\<rparr>)"
    using assms(3) read_int_line [of w V "[]" "[]"] by (simp add: read_int_skip)
  show ?thesis
    using assms(1) one two
    by (simp add: k makeOperand_def makeValue_def calc_node operand_calc_def call_ptr_def both_def)
qed

theorem div_reads_twice_witness:
  "calc 2 (\<lambda>_. True) (makeOperand (Some (makeValue 6)) Div (Some (makeOperand None StdIn None)))
      \<lparr>vals = (\<lambda>_. None), stdin = Some (string_of_int 3 @ endl @ string_of_int 0 @ endl), stdout = []\<rparr> =
    Some (Inl Undefined_behaviour, \<lparr>vals = (\<lambda>_. None), stdin = Some endl, stdout = []\<rparr>)"
  using div_reads_twice [of 3 0 2 "\<lambda>_. True" 6 "\<lambda>_. None"] by (simp add: in_int_def INT_MAX_def c_div_def)

section \<open>A whole program\<close>

text \<open>
  \<^verbatim>\<open>tests-pcl/fib/file.pcl\<close>, as the tree the front end builds for it with the functions above; the
  declarations are 0 for \<^verbatim>\<open>n\<close>, 1 for \<^verbatim>\<open>a\<close>, 2 for \<^verbatim>\<open>b\<close>, 3 for \<^verbatim>\<open>x\<close> and 4 for \<^verbatim>\<open>tmp\<close>.
\<close>

abbreviation assign_to :: "nat \<Rightarrow> node \<Rightarrow> node" where
  "assign_to d e \<equiv> Operand (Some (DeclRef d)) Assign (Some e)"

abbreviation print_of :: "nat \<Rightarrow> node" where
  "print_of d \<equiv> Operand None StdOut (Some (DeclRef d))"

abbreviation bin_of :: "node \<Rightarrow> Operation \<Rightarrow> node \<Rightarrow> node" where
  "bin_of l op r \<equiv> Operand (Some l) op (Some r)"

definition fib_rest :: node where
  "fib_rest = Scope 6
     [assign_to 4 (DeclRef 2), assign_to 2 (bin_of (DeclRef 1) Plus (DeclRef 2)),
      assign_to 1 (DeclRef 4), print_of 2]"

definition fib_body :: node where
  "fib_body = Scope 1 [Scope 2
     [assign_to 0 (bin_of (DeclRef 0) Plus (Val 1)),
      IfN (bin_of (DeclRef 0) Equal (Val 1)) (Scope 3 [print_of 1]),
      IfN (bin_of (DeclRef 0) Equal (Val 2)) (Scope 4 [print_of 2]),
      IfN (bin_of (DeclRef 0) Greater (Val 2)) (Scope 5 [fib_rest])]]"

definition fib_program :: node where
  "fib_program = Scope 0
     [assign_to 0 (Val 0), assign_to 1 (Val 0), assign_to 2 (Val 1), assign_to 3 (Operand None StdIn None),
      While (bin_of (DeclRef 0) Less (DeclRef 3)) fib_body]"

lemma in_int_fib: "n \<le> 46 \<Longrightarrow> in_int (fib n)"
  using fib_mono [of n 46] fib_nonneg [of n] fib_46 by (simp add: in_int_def INT_MAX_def)

text \<open>What holds at the head of the loop after \<open>m\<close> rounds, and the text printed by then.\<close>

definition fib_lines :: "nat \<Rightarrow> string" where
  "fib_lines m = concat (map (\<lambda>i. string_of_int (fib i) @ endl) [0..<m])"

definition fib_inv :: "nat \<Rightarrow> nat \<Rightarrow> pst \<Rightarrow> bool" where
  "fib_inv m x s \<longleftrightarrow> vals s 0 = Some (int m) \<and> vals s 1 = Some (fib (m - 2)) \<and> vals s 2 = Some (fib (m - 2 + 1)) \<and>
     vals s 3 = Some (int x) \<and> stdin s = Some endl \<and> stdout s = fib_lines m"

lemmas runs_block = runs_Scope_Nil runs_Scope_Cons
lemmas ev_simps = bin_val_def int_res_def bool_int_def

lemma runs_skip_if:
  "pure c \<Longrightarrow> ev (vals s) c = Some 0 \<Longrightarrow> runs ord (IfN c b) s (Inr 0, s)"
  by (rule runs_If_false [OF runs_pure])

lemma runs_take_if:
  "pure c \<Longrightarrow> ev (vals s) c = Some 1 \<Longrightarrow> runs ord b s (Inr v, s') \<Longrightarrow> runs ord (IfN c b) s (Inr 0, s')"
  by (rule runs_If_true [OF runs_pure]) auto

lemma runs_set:
  "pure e \<Longrightarrow> ev (vals s) e = Some v \<Longrightarrow> runs ord (assign_to d e) s (Inr v, s\<lparr>vals := (vals s)(d \<mapsto> v)\<rparr>)"
  by (rule runs_Assign [OF runs_pure])

lemma runs_print:
  "vals s d = Some v \<Longrightarrow> runs ord (print_of d) s (Inr 0, s\<lparr>stdout := stdout s @ string_of_int v @ endl\<rparr>)"
  by (rule runs_StdOut [OF runs_pure]) simp_all

lemma runs_print1:
  "vals s d = Some v \<Longrightarrow> runs ord (Scope i [print_of d]) s (Inr 0, s\<lparr>stdout := stdout s @ string_of_int v @ endl\<rparr>)"
  by (rule runs_Scope_Cons [OF runs_print runs_Scope_Nil])

lemma runs_one: "runs ord b s (Inr v, s') \<Longrightarrow> runs ord (Scope i [b]) s (Inr 0, s')"
  by (rule runs_Scope_Cons [OF _ runs_Scope_Nil])

lemma fib_rest_runs:
  assumes "vals s 1 = Some x" "vals s 2 = Some y" "in_int (x + y)"
  shows "runs ord fib_rest s (Inr 0, s\<lparr>vals := (vals s)(4 \<mapsto> y, 2 \<mapsto> x + y, 1 \<mapsto> y),
    stdout := stdout s @ string_of_int (x + y) @ endl\<rparr>)"
proof -
  let ?V1 = "(vals s)(4 \<mapsto> y)" and ?V2 = "(vals s)(4 \<mapsto> y, 2 \<mapsto> x + y)"
    and ?V3 = "(vals s)(4 \<mapsto> y, 2 \<mapsto> x + y, 1 \<mapsto> y)"
  have 1: "runs ord (assign_to 4 (DeclRef 2)) s (Inr y, s\<lparr>vals := ?V1\<rparr>)"
    using assms(2) by (intro runs_set) simp_all
  have 2: "runs ord (assign_to 2 (bin_of (DeclRef 1) Plus (DeclRef 2))) (s\<lparr>vals := ?V1\<rparr>) (Inr (x + y), s\<lparr>vals := ?V2\<rparr>)"
    using assms runs_set [of "bin_of (DeclRef 1) Plus (DeclRef 2)" "s\<lparr>vals := ?V1\<rparr>" "x + y" ord 2]
    by (simp add: ev_simps is_bin_def)
  have 3: "runs ord (assign_to 1 (DeclRef 4)) (s\<lparr>vals := ?V2\<rparr>) (Inr y, s\<lparr>vals := ?V3\<rparr>)"
    using runs_set [of "DeclRef 4" "s\<lparr>vals := ?V2\<rparr>" y ord 1] by simp
  have 4: "runs ord (print_of 2) (s\<lparr>vals := ?V3\<rparr>) (Inr 0, s\<lparr>vals := ?V3, stdout := stdout s @ string_of_int (x + y) @ endl\<rparr>)"
    using runs_print [of "s\<lparr>vals := ?V3\<rparr>" 2 "x + y" ord] by simp
  show ?thesis unfolding fib_rest_def by (rule runs_Scope_Cons [OF 1 runs_Scope_Cons [OF 2 runs_Scope_Cons [OF 3 runs_one [OF 4]]]])
qed

text \<open>One round of the loop, for its three cases.\<close>

lemma fib_body_runs:
  assumes "fib_inv m x s" "m < x" "x \<le> 47"
  shows "\<exists>s'. runs ord fib_body s (Inr 0, s') \<and> fib_inv (Suc m) x s'"
proof -
  let ?s = "s\<lparr>vals := (vals s)(0 \<mapsto> int m + 1)\<rparr>"
  let ?if = "\<lambda>op c. bin_of (DeclRef 0) op (Val c)"
  have m: "vals s 0 = Some (int m)" using assms(1) by (simp add: fib_inv_def)
  have inc: "runs ord (assign_to 0 (?if Plus 1)) s (Inr (int m + 1), ?s)"
    using m assms(2,3) by (intro runs_set) (simp_all add: ev_simps is_bin_def in_int_def INT_MAX_def)
  have go: "\<exists>s'. runs ord fib_body s (Inr 0, s') \<and> fib_inv (Suc m) x s'"
    if "runs ord (IfN (?if Equal 1) (Scope 3 [print_of 1])) ?s (Inr 0, s1)"
      "runs ord (IfN (?if Equal 2) (Scope 4 [print_of 2])) s1 (Inr 0, s2)"
      "runs ord (IfN (?if Greater 2) (Scope 5 [fib_rest])) s2 (Inr 0, s3)" "fib_inv (Suc m) x s3" for s1 s2 s3
  proof -
    have "runs ord fib_body s (Inr 0, s3)" unfolding fib_body_def
      by (rule runs_one [OF runs_Scope_Cons [OF inc runs_Scope_Cons [OF that(1) runs_Scope_Cons [OF that(2) runs_one [OF that(3)]]]]])
    then show ?thesis using that(4) by blast
  qed
  have skip: "runs ord (IfN (?if op c) b) t (Inr 0, t)"
    if "vals t 0 = Some (int m + 1)" "op = Equal \<and> int m + 1 \<noteq> c \<or> op = Greater \<and> int m + 1 \<le> c" for op c b t
    using that by (intro runs_skip_if) (auto simp: ev_simps is_bin_def)
  have take: "runs ord (IfN (?if op c) b) t (Inr 0, t')"
    if "vals t 0 = Some (int m + 1)" "op = Equal \<and> int m + 1 = c \<or> op = Greater \<and> int m + 1 > c"
      "runs ord b t (Inr 0, t')" for op c b t t'
    using that by (intro runs_take_if) (auto simp: ev_simps is_bin_def)
  consider "m = 0" | "m = 1" | k where "m = Suc (Suc k)" by (metis One_nat_def not0_implies_Suc)
  then show ?thesis
  proof cases
    case 1
    let ?t = "?s\<lparr>stdout := stdout s @ string_of_int 0 @ endl\<rparr>"
    have "runs ord (Scope 3 [print_of 1]) ?s (Inr 0, ?t)"
      using runs_print1 [of ?s 1 0 ord 3] assms(1) 1 by (simp add: fib_inv_def)
    then show ?thesis using 1 assms(1)
      by (intro go [of ?t ?t ?t] skip take) (auto simp: fib_inv_def fib_lines_def)
  next
    case 2
    let ?t = "?s\<lparr>stdout := stdout s @ string_of_int 1 @ endl\<rparr>"
    have "runs ord (Scope 4 [print_of 2]) ?s (Inr 0, ?t)"
      using runs_print1 [of ?s 2 1 ord 4] assms(1) 2 by (simp add: fib_inv_def)
    then show ?thesis using 2 assms(1)
      by (intro go [of ?s ?t ?t] skip take) (auto simp: fib_inv_def fib_lines_def)
  next
    case (3 k)
    have v: "vals ?s 1 = Some (fib k)" "vals ?s 2 = Some (fib (Suc k))" using assms(1) 3 by (simp_all add: fib_inv_def)
    have "in_int (fib k + fib (Suc k))" using in_int_fib [of "Suc (Suc k)"] assms(2,3) 3 by simp
    from runs_one [OF fib_rest_runs [OF v this, of ord], of 5] show ?thesis using 3 assms(1)
      by (intro go [of ?s ?s] skip take) (auto simp: fib_inv_def fib_lines_def)
  qed
qed

lemma fib_loop_runs:
  assumes "fib_inv m x s" "m \<le> x" "x \<le> 47"
  shows "\<exists>s'. runs ord (While (bin_of (DeclRef 0) Less (DeclRef 3)) fib_body) s (Inr 0, s') \<and> fib_inv x x s'"
  using assms
proof (induction "x - m" arbitrary: m s)
  case 0
  then have "runs ord (bin_of (DeclRef 0) Less (DeclRef 3)) s (Inr 0, s)"
    by (intro runs_pure) (auto simp: fib_inv_def ev_simps is_bin_def)
  then show ?case using runs_While_false 0 by (metis diff_is_0_eq le_antisym)
next
  case (Suc k)
  have mx: "m < x" "k = x - Suc m" using Suc.hyps(2) by arith+
  have "runs ord (bin_of (DeclRef 0) Less (DeclRef 3)) s (Inr 1, s)"
    using Suc.prems(1) mx(1) by (intro runs_pure) (auto simp: fib_inv_def ev_simps is_bin_def)
  moreover obtain t where t: "runs ord fib_body s (Inr 0, t)" "fib_inv (Suc m) x t"
    using fib_body_runs [OF Suc.prems(1) mx(1) Suc.prems(3), of ord] by blast
  moreover obtain s' where "runs ord (While (bin_of (DeclRef 0) Less (DeclRef 3)) fib_body) t (Inr 0, s')" "fib_inv x x s'"
    using Suc.hyps(1) [OF mx(2) t(2) _ Suc.prems(3)] mx(1) by auto
  ultimately show ?case using runs_While_true [of ord _ s 1 s fib_body 0 t] by auto
qed

lemma runs_enough_fuel: "runs ord n s r \<Longrightarrow> \<exists>K. \<forall>k \<ge> K. calc k ord n s = Some r"
  unfolding runs_def using calc_mono by blast

lemma fib_program_fuel:
  assumes "x \<le> 47"
  shows "\<exists>K s'. \<forall>k \<ge> K.
    calc k ord fib_program \<lparr>vals = V, stdin = Some (string_of_int (int x) @ endl), stdout = []\<rparr> = Some (Inr 0, s') \<and>
    stdin s' = Some endl \<and> stdout s' = concat (map (\<lambda>i. string_of_int (fib i) @ endl) [0..<x])"
proof -
  let ?s = "\<lparr>vals = V, stdin = Some (string_of_int (int x) @ endl), stdout = []\<rparr>"
  let ?V = "V(0 \<mapsto> 0, 1 \<mapsto> 0, 2 \<mapsto> 1)"
  let ?t = "\<lparr>vals = ?V(3 \<mapsto> int x), stdin = Some endl, stdout = []\<rparr>"
  have 1: "runs ord (assign_to 0 (Val 0)) ?s (Inr 0, ?s\<lparr>vals := V(0 \<mapsto> 0)\<rparr>)"
    using runs_set [of "Val 0" ?s 0 ord 0] by simp
  have 2: "runs ord (assign_to 1 (Val 0)) (?s\<lparr>vals := V(0 \<mapsto> 0)\<rparr>) (Inr 0, ?s\<lparr>vals := V(0 \<mapsto> 0, 1 \<mapsto> 0)\<rparr>)"
    using runs_set [of "Val 0" "?s\<lparr>vals := V(0 \<mapsto> 0)\<rparr>" 0 ord 1] by simp
  have 3: "runs ord (assign_to 2 (Val 1)) (?s\<lparr>vals := V(0 \<mapsto> 0, 1 \<mapsto> 0)\<rparr>) (Inr 1, ?s\<lparr>vals := ?V\<rparr>)"
    using runs_set [of "Val 1" "?s\<lparr>vals := V(0 \<mapsto> 0, 1 \<mapsto> 0)\<rparr>" 1 ord 2] by simp
  have "in_int (int x)" using assms by (simp add: in_int_def INT_MAX_def)
  from read_int_line [OF this, of ?V "[]" "[]"]
  have 4: "runs ord (assign_to 3 (Operand None StdIn None)) (?s\<lparr>vals := ?V\<rparr>) (Inr (int x), ?t)"
    using runs_Assign [OF runs_StdIn [of ord "?s\<lparr>vals := ?V\<rparr>"], of 3] by simp
  have "fib_inv 0 x ?t" by (simp add: fib_inv_def fib_lines_def)
  from fib_loop_runs [OF this _ assms, of ord] obtain s' where s':
    "runs ord (While (bin_of (DeclRef 0) Less (DeclRef 3)) fib_body) ?t (Inr 0, s')" "fib_inv x x s'" by auto
  have "runs ord fib_program ?s (Inr 0, s')" unfolding fib_program_def
    by (rule runs_Scope_Cons [OF 1 runs_Scope_Cons [OF 2 runs_Scope_Cons [OF 3 runs_Scope_Cons [OF 4 runs_one [OF s'(1)]]]]])
  from runs_enough_fuel [OF this] s'(2) show ?thesis by (auto simp: fib_inv_def fib_lines_def)
qed

lemma fib_program_runs:
  assumes "x \<le> 47"
  shows "\<exists>k s'.
    calc k ord fib_program \<lparr>vals = V, stdin = Some (string_of_int (int x) @ endl), stdout = []\<rparr> = Some (Inr 0, s') \<and>
    stdin s' = Some endl \<and> stdout s' = concat (map (\<lambda>i. string_of_int (fib i) @ endl) [0..<x])"
  using fib_program_fuel [OF assms, of ord V] by blast

text \<open>
  C24. The test program \<^verbatim>\<open>tests-pcl/fib/file.pcl\<close> is correct under the interpreter: for every
  input \<open>x\<close> up to 47 (the 48th number no longer fits \<^verbatim>\<open>int\<close>) the evaluation ends, without an error,
  and what it prints is the first \<open>x\<close> Fibonacci numbers, one on a line, whatever order of evaluation the
  compiler chose.
\<close>

theorem fib_program_correct:
  assumes "x \<le> 47"
  shows "\<exists>K s'. \<forall>k \<ge> K.
    calc k ord fib_program \<lparr>vals = V, stdin = Some (string_of_int (int x) @ endl), stdout = []\<rparr> = Some (Inr 0, s') \<and>
    stdin s' = Some endl \<and> stdout s' = concat (map (\<lambda>i. string_of_int (fib i) @ endl) [0..<x])"
  by (rule fib_program_fuel [OF assms])

theorem fib_program_correct_witness:
  "\<exists>K s'. \<forall>k \<ge> K.
    calc k (\<lambda>_. True) fib_program \<lparr>vals = (\<lambda>_. None), stdin = Some (string_of_int (int 5) @ endl), stdout = []\<rparr> = Some (Inr 0, s') \<and>
    stdin s' = Some endl \<and> stdout s' = string_of_int 0 @ endl @ string_of_int 1 @ endl @ string_of_int 1 @ endl @ string_of_int 2 @ endl @ string_of_int 3 @ endl"
  using fib_program_correct [of 5 "\<lambda>_. True" "\<lambda>_. None"] by (simp add: upt_rec numeral_eq_Suc)

end
