(* ===== verification/Pcl_Archive.thy ===== *)
theory Pcl_Archive
  imports Pcl_Props
begin

text \<open>
  \<^verbatim>\<open>archive/13-llvm/01-naive\<close>: the first version of the ParaCL interpreter. It has the same tree, so the
  data types of theory \<open>Pcl\<close> are used; it differs in the symbol table, where a lookup
  creates an empty table for the scope, in the value of a print statement, in what a division by zero
  does, and in the dumped text. The theorems relate it to the later version.
\<close>

section \<open>Symtab.hpp\<close>

text \<open>\<^verbatim>\<open>tables[s]\<close>, which inserts an empty table for a scope that has none.\<close>

definition tables_at :: "nat \<Rightarrow> Symtab \<Rightarrow> Symtab_local \<times> Symtab" where
  "tables_at s T = (case T s of Some tab \<Rightarrow> (tab, T) | None \<Rightarrow> (\<lambda>_. None, T(s \<mapsto> (\<lambda>_. None))))"

definition old_symtab_add :: "nat \<Rightarrow> string \<Rightarrow> nat \<Rightarrow> Symtab \<Rightarrow> Symtab" where
  "old_symtab_add s symbol n T = (let (tab, T1) = tables_at s T in T1(s \<mapsto> local_add symbol n tab))"

definition old_symtab_exists :: "nat \<Rightarrow> string \<Rightarrow> Symtab \<Rightarrow> nat option \<times> Symtab" where
  "old_symtab_exists s symbol T = (let (tab, T1) = tables_at s T in (local_find symbol tab, T1))"

definition old_symtab_free :: "nat \<Rightarrow> Symtab \<Rightarrow> nat set \<times> Symtab" where
  "old_symtab_free s T =
     (let (tab, T1) = tables_at s T; (ds, tab1) = local_free tab in (ds, T1(s \<mapsto> tab1)))"

section \<open>Scopes\<close>

fun old_visible :: "Symtab \<Rightarrow> (nat \<times> node list) list \<Rightarrow> string \<Rightarrow> nat option \<times> Symtab" where
  "old_visible T [] var_name = (None, T)"
| "old_visible T ((i, _) # prev_scope) var_name =
     (let (f, T1) = old_symtab_exists i var_name T in
      case f of Some d \<Rightarrow> (Some d, T1) | None \<Rightarrow> old_visible T1 prev_scope var_name)"

definition old_access :: "string \<Rightarrow> bld \<Rightarrow> (nat \<times> bld) option" where
  "old_access var_name b =
     (let (t, T1) = old_visible (Tables b) (open_scopes b) var_name; b1 = b\<lparr>Tables := T1\<rparr> in
      case t of
        Some d \<Rightarrow> Some (d, b1)
      | None \<Rightarrow>
          (case open_scopes b of
             [] \<Rightarrow> None
           | (i, _) # _ \<Rightarrow>
               Some (next_decl b, b1\<lparr>Tables := old_symtab_add i var_name (next_decl b) T1,
                                     next_decl := Suc (next_decl b)\<rparr>)))"

section \<open>Evaluation\<close>

definition op_calc :: "(Operation \<Rightarrow> bool) \<Rightarrow> (node \<Rightarrow> pst \<Rightarrow> (int res \<times> pst) option) \<Rightarrow>
    node option \<Rightarrow> Operation \<Rightarrow> node option \<Rightarrow> pst \<Rightarrow> (int res \<times> pst) option" where
  "op_calc ord f left op right s =
     (case op of
        Plus \<Rightarrow>
          if left = None then bindP (call_ptr f right s) (\<lambda>y s. Some (int_res (0 + y), s))
          else both (ord op) f left right (\<lambda>x y. int_res (x + y)) s
      | Minus \<Rightarrow>
          if left = None then bindP (call_ptr f right s) (\<lambda>y s. Some (int_res (0 - y), s))
          else both (ord op) f left right (\<lambda>x y. int_res (x - y)) s
      | Greater \<Rightarrow> both (ord op) f left right (\<lambda>x y. Inr (bool_int (x > y))) s
      | Less \<Rightarrow> both (ord op) f left right (\<lambda>x y. Inr (bool_int (x < y))) s
      | GreaterEq \<Rightarrow> both (ord op) f left right (\<lambda>x y. Inr (bool_int (x \<ge> y))) s
      | LessEq \<Rightarrow> both (ord op) f left right (\<lambda>x y. Inr (bool_int (x \<le> y))) s
      | Assign \<Rightarrow>
          bindP (call_ptr f right s) (\<lambda>v s.
            case left of
              Some (DeclRef d) \<Rightarrow> Some (Inr v, s\<lparr>vals := (vals s)(d \<mapsto> v)\<rparr>)
            | _ \<Rightarrow> Some (Inl Undefined_behaviour, s))
      | StdOut \<Rightarrow>
          bindP (call_ptr f right s) (\<lambda>v s. Some (Inr 998, s\<lparr>stdout := stdout s @ string_of_int v @ endl\<rparr>))
      | StdIn \<Rightarrow> (let (v, s') = read_int s in Some (Inr v, s'))
      | Equal \<Rightarrow> both (ord op) f left right (\<lambda>x y. Inr (bool_int (x = y))) s
      | NotEqual \<Rightarrow> both (ord op) f left right (\<lambda>x y. Inr (bool_int (x \<noteq> y))) s
      | Not \<Rightarrow> bindP (call_ptr f right s) (\<lambda>v s. Some (Inr (bool_int (v = 0)), s))
      | And \<Rightarrow>
          bindP (call_ptr f left s) (\<lambda>x s.
            if x = 0 then Some (Inr 0, s)
            else bindP (call_ptr f right s) (\<lambda>y s. Some (Inr (bool_int (y \<noteq> 0)), s)))
      | Or \<Rightarrow>
          bindP (call_ptr f left s) (\<lambda>x s.
            if x \<noteq> 0 then Some (Inr 1, s)
            else bindP (call_ptr f right s) (\<lambda>y s. Some (Inr (bool_int (y \<noteq> 0)), s)))
      | Div \<Rightarrow>
          bindP (call_ptr f right s) (\<lambda>v s.
            if v = 0 then Some (Inl (Exited 1), s\<lparr>stdout := stdout s @ ''Division by zero!'' @ endl\<rparr>)
            else both (ord op) f left right c_div s)
      | Mul \<Rightarrow> both (ord op) f left right (\<lambda>x y. int_res (x * y)) s
      | Mod \<Rightarrow> both (ord op) f left right c_mod s)"

primrec old_calc :: "nat \<Rightarrow> (Operation \<Rightarrow> bool) \<Rightarrow> node \<Rightarrow> pst \<Rightarrow> (int res \<times> pst) option" where
  "old_calc 0 ord n s = None"
| "old_calc (Suc k) ord n s =
     (case n of
        Val v \<Rightarrow> Some (Inr v, s)
      | DeclRef d \<Rightarrow>
          Some (case vals s d of None \<Rightarrow> Inl Undefined_behaviour | Some v \<Rightarrow> Inr v, s)
      | Scope i branches \<Rightarrow> run_branches (old_calc k ord) branches s
      | Operand l op r \<Rightarrow> op_calc ord (old_calc k ord) l op r s
      | While op scope \<Rightarrow>
          bindP (old_calc k ord op s) (\<lambda>v s.
            if v \<noteq> 0 then bindP (old_calc k ord scope s) (\<lambda>_ s. old_calc k ord n s) else Some (Inr 0, s))
      | IfN op scope \<Rightarrow>
          bindP (old_calc k ord op s) (\<lambda>v s.
            if v \<noteq> 0 then bindP (old_calc k ord scope s) (\<lambda>_ s. Some (Inr 0, s)) else Some (Inr 0, s)))"

section \<open>Dumping\<close>

fun old_dump :: "(nat \<Rightarrow> int option) \<Rightarrow> node \<Rightarrow> string res" and
    old_dump_all :: "(nat \<Rightarrow> int option) \<Rightarrow> node list \<Rightarrow> string res" where
  "old_dump V (Val v) = Inr (''Node Value: '' @ string_of_int v @ endl)"
| "old_dump V (DeclRef d) =
     (case V d of None \<Rightarrow> Inl Undefined_behaviour | Some v \<Rightarrow> Inr (''Node Decl: '' @ string_of_int v @ endl))"
| "old_dump V (Scope i branches) = bindE (old_dump_all V branches) (\<lambda>t. Inr (''Node Scope: '' @ endl @ t))"
| "old_dump V (Operand left op right) =
     bindE (case left of None \<Rightarrow> Inr [] | Some n \<Rightarrow> old_dump V n) (\<lambda>tl.
     bindE (case right of None \<Rightarrow> Inl Undefined_behaviour | Some n \<Rightarrow> old_dump V n) (\<lambda>tr.
       Inr (''Node Op: '' @ op_name op @ endl @ tl @ tr)))"
| "old_dump V (While op scope) = bindE (old_dump V scope) (\<lambda>t. Inr (''Node While '' @ endl @ t))"
| "old_dump V (IfN op scope) = bindE (old_dump V scope) (\<lambda>t. Inr (''Node If '' @ endl @ t))"
| "old_dump_all V [] = Inr []"
| "old_dump_all V (x # xs) = bindE (old_dump V x) (\<lambda>t. bindE (old_dump_all V xs) (\<lambda>ts. Inr (t @ ts)))"

section \<open>The symbol table\<close>

text \<open>The tables a lookup creates are empty, so both versions promise the same.\<close>

lemma symtab_exists_tables_at: "symtab_exists j x (snd (tables_at s T)) = symtab_exists j x T"
  by (auto simp: symtab_exists_def tables_at_def local_find_def split: option.split)

lemma old_exists_fst: "fst (old_symtab_exists s x T) = symtab_exists s x T"
  by (auto simp: old_symtab_exists_def tables_at_def symtab_exists_def local_find_def split: option.split)

lemma old_exists_snd: "symtab_exists j y (snd (old_symtab_exists s x T)) = symtab_exists j y T"
  using symtab_exists_tables_at [of j y s T] by (simp add: old_symtab_exists_def case_prod_beta Let_def)

interpretation old_st: symbol_table old_symtab_add "\<lambda>s x T. fst (old_symtab_exists s x T)" old_symtab_free
  by unfold_locales
    (auto simp: old_exists_fst old_symtab_add_def old_symtab_free_def tables_at_def symtab_exists_def local_add_def
      local_find_def local_free_def ran_def Let_def split: option.splits)

lemma old_add_lookup: "symtab_exists j y (old_symtab_add s x n T) = symtab_exists j y (symtab_add s x n T)"
  using old_st.lookup_add [of j y s x n T] by (simp add: old_exists_fst st.lookup_add)

lemma old_visible_correct:
  "fst (old_visible T sc x) = visible_in T sc x \<and> symtab_exists j y (snd (old_visible T sc x)) = symtab_exists j y T"
proof (induction T sc x rule: old_visible.induct)
  case (2 T i bs sc x)
  obtain f T1 where f: "old_symtab_exists i x T = (f, T1)" by (cases "old_symtab_exists i x T")
  have f': "f = symtab_exists i x T" "\<And>j y. symtab_exists j y T1 = symtab_exists j y T"
    using old_exists_fst [of i x T] old_exists_snd [of _ _ i x T] f by simp_all
  then have "visible_in T1 sc x = visible_in T sc x" by (intro visible_in_cong) auto
  then show ?case using 2 f f' by (auto split: option.split)
qed auto

text \<open>The two builders side by side: the same scopes and names, and tables with the same entries.\<close>

definition bld_sim :: "bld \<Rightarrow> bld \<Rightarrow> bool" where
  "bld_sim b b' \<longleftrightarrow> open_scopes b = open_scopes b' \<and> next_scope b = next_scope b' \<and> next_decl b = next_decl b' \<and>
     (\<forall>i x. symtab_exists i x (Tables b) = symtab_exists i x (Tables b'))"

lemma old_access_refines:
  assumes "bld_sim b b'"
  shows "rel_option (\<lambda>(d, c) (d', c'). d = d' \<and> bld_sim c c') (old_access x b) (scope_access x b')"
proof -
  obtain t T1 where t: "old_visible (Tables b) (open_scopes b) x = (t, T1)"
    by (cases "old_visible (Tables b) (open_scopes b) x")
  have v: "visible_in (Tables b) (open_scopes b) x = visible_in (Tables b') (open_scopes b') x"
    using assms by (auto simp: bld_sim_def intro!: visible_in_cong)
  have t': "t = scope_visible x b'" "\<And>j y. symtab_exists j y T1 = symtab_exists j y (Tables b')"
    using old_visible_correct [of "Tables b" "open_scopes b" x] t v assms by (simp_all add: scope_visible_def bld_sim_def)
  show ?thesis
  proof (cases "scope_visible x b'")
    case None
    then show ?thesis using assms t t'
      by (auto simp: old_access_def scope_access_def bld_sim_def old_add_lookup st.lookup_add split: list.split)
  next
    case (Some d)
    then show ?thesis using assms t t' by (simp add: old_access_def scope_access_def bld_sim_def)
  qed
qed

section \<open>Evaluation agrees with the later version\<close>

text \<open>
  A division by zero ends the later version with an exception; here it prints a message and calls \<^verbatim>\<open>exit\<close>. A
  print statement has the value 998 here and 0 there. \<open>as_old\<close> translates a result; \<open>quiet\<close> are the trees in
  which no print statement is an operand or a condition and no plus is unary, as the grammar guarantees.
\<close>

fun is_print :: "node \<Rightarrow> bool" where
  "is_print (Operand _ StdOut _) = True"
| "is_print _ = False"

definition as_exit :: "(int res \<times> pst) option \<Rightarrow> (int res \<times> pst) option" where
  "as_exit r =
     (case r of
        Some (Inl (Runtime_error _), s) \<Rightarrow> Some (Inl (Exited 1), s\<lparr>stdout := stdout s @ ''Division by zero!'' @ endl\<rparr>)
      | _ \<Rightarrow> r)"

definition as_old :: "node \<Rightarrow> (int res \<times> pst) option \<Rightarrow> (int res \<times> pst) option" where
  "as_old n r =
     as_exit (case r of Some (Inr v, s) \<Rightarrow> Some (Inr (if is_print n then 998 else v), s) | _ \<Rightarrow> r)"

fun quiet :: "node \<Rightarrow> bool" and quiet_opt :: "node option \<Rightarrow> bool" where
  "quiet (Val v) = True"
| "quiet (DeclRef d) = True"
| "quiet (Scope i bs) = (\<forall>b \<in> set bs. quiet b)"
| "quiet (Operand l op r) = (quiet_opt l \<and> quiet_opt r \<and> (op = Plus \<longrightarrow> l \<noteq> None))"
| "quiet (While c b) = (quiet c \<and> \<not> is_print c \<and> quiet b)"
| "quiet (IfN c b) = (quiet c \<and> \<not> is_print c \<and> quiet b)"
| "quiet_opt None = True"
| "quiet_opt (Some n) = (quiet n \<and> \<not> is_print n)"

lemma bindP_cases:
  obtains (none) "m = None" | (err) e s where "m = Some (Inl e, s)" | (val) v s where "m = Some (Inr v, s)"
  by (metis obj_sumE option.exhaust surj_pair)

lemma as_exit_simps [simp]:
  "as_exit None = None" "as_exit (Some (Inr v, s)) = Some (Inr v, s)"
  "as_exit (Some (Inl Undefined_behaviour, s)) = Some (Inl Undefined_behaviour, s)"
  "as_exit (Some (Inl (Runtime_error m), s)) =
     Some (Inl (Exited 1), s\<lparr>stdout := stdout s @ ''Division by zero!'' @ endl\<rparr>)"
  by (simp_all add: as_exit_def)

lemma as_exit_int_res: "as_exit (Some (int_res v, s)) = Some (int_res v, s)"
  by (simp add: int_res_def)

lemma as_old_exit: "\<not> is_print n \<Longrightarrow> as_old n r = as_exit r"
  by (simp add: as_old_def split: option.split sum.split)

lemma bindP_as_exit:
  assumes "\<And>v s. f' v s = as_exit (f v s)"
  shows "bindP (as_exit m) f' = as_exit (bindP m f)"
proof (cases m rule: bindP_cases)
  case (err e s)
  then show ?thesis by (cases e) (simp_all add: as_exit_def)
qed (use assms in simp_all)

lemma bindP_as_old:
  assumes "\<And>v w s. f' v s = as_exit (f w s)"
  shows "bindP (as_old n m) f' = as_exit (bindP m f)"
proof (cases m rule: bindP_cases)
  case (err e s)
  then show ?thesis by (cases e) (simp_all add: as_old_def as_exit_def)
qed (use assms in \<open>simp_all add: as_old_def\<close>)

lemma call_ptr_as_exit:
  assumes "\<And>m t. quiet m \<Longrightarrow> f' m t = as_old m (f m t)" "quiet_opt p"
  shows "call_ptr f' p s = as_exit (call_ptr f p s)"
  using assms by (cases p) (simp_all add: call_ptr_def as_old_exit)

lemma both_as_exit:
  assumes "\<And>m t. quiet m \<Longrightarrow> f' m t = as_old m (f m t)" "quiet_opt l" "quiet_opt r"
    "\<And>x y s. as_exit (Some (g x y, s)) = Some (g x y, s)"
  shows "both b f' l r g s = as_exit (both b f l r g s)"
  using assms(4)
  by (simp add: both_def call_ptr_as_exit [OF assms(1,2)] call_ptr_as_exit [OF assms(1,3)] bindP_as_exit)

lemma as_exit_c_div: "as_exit (Some (c_div x y, s)) = Some (c_div x y, s)"
  by (simp add: c_div_def as_exit_int_res)

lemma as_exit_c_mod: "as_exit (Some (c_mod x y, s)) = Some (c_mod x y, s)"
  by (simp add: c_mod_def)

lemma op_calc_as_old:
  assumes "\<And>m t. quiet m \<Longrightarrow> f' m t = as_old m (f m t)" "quiet (Operand l op r)"
  shows "op_calc ord f' l op r s = as_old (Operand l op r) (operand_calc ord f l op r s)"
proof -
  have q: "quiet_opt l" "quiet_opt r" "op = Plus \<Longrightarrow> l \<noteq> None" using assms(2) by simp_all
  note c = call_ptr_as_exit [OF assms(1) q(1)] call_ptr_as_exit [OF assms(1) q(2)] both_as_exit [OF assms(1) q(1,2)]
    as_exit_int_res as_exit_c_div as_exit_c_mod bindP_as_exit
  show ?thesis
  proof (cases "op = StdOut")
    case True
    show ?thesis unfolding True by (cases "call_ptr f r s" rule: bindP_cases)
      (simp_all add: op_calc_def operand_calc_def c as_old_def, auto simp: as_exit_def bindP_def split: cxx_error.split)
  next
    case False
    then have np: "\<not> is_print (Operand l op r)" by (cases op) simp_all
    show ?thesis unfolding as_old_exit [OF np] using False q(3)
      by (cases op) (auto simp: op_calc_def operand_calc_def c case_prod_beta intro!: bindP_as_exit
          split: node.split option.split)
  qed
qed

lemma run_branches_as_exit:
  assumes "\<And>m t. quiet m \<Longrightarrow> f' m t = as_old m (f m t)" "\<forall>b \<in> set bs. quiet b"
  shows "run_branches f' bs s = as_exit (run_branches f bs s)"
  using assms(2)
proof (induction bs arbitrary: s)
  case (Cons b bs)
  then show ?case using assms(1) by (simp add: bindP_as_old)
qed simp

text \<open>
  The first version of the interpreter and the later one do the same on every tree the grammar can
  produce (no print statement as an operand or a condition, no unary plus): for every fuel, order of
  evaluation and state the results agree, with the same variables, input and output, up to two documented
  differences: a print statement has the value 998 here, and a division by zero prints a message
  and ends the program with status 1 where the later version throws.
\<close>

theorem old_calc_agrees:
  assumes "quiet n"
  shows "old_calc k ord n s = as_old n (calc k ord n s)"
  using assms
proof (induction k arbitrary: n s)
  case 0
  then show ?case by (simp add: as_old_def)
next
  case (Suc k)
  note IH = Suc.IH
  show ?case
  proof (cases n)
    case (Operand l op r)
    then show ?thesis using op_calc_as_old [of "old_calc k ord" "calc k ord" l op r ord s] IH Suc.prems
      by (simp add: calc_node)
  next
    case (Scope i bs)
    then show ?thesis using run_branches_as_exit [of "old_calc k ord" "calc k ord" bs s] IH Suc.prems
      by (simp add: calc_node as_old_exit)
  next
    case (While c b)
    then show ?thesis using IH Suc.prems
      by (simp add: calc_node as_old_exit) (auto intro!: bindP_as_exit bindP_as_old simp: as_old_exit)
  next
    case (IfN c b)
    then show ?thesis using IH Suc.prems
      by (simp add: calc_node as_old_exit) (auto intro!: bindP_as_exit bindP_as_old)
  qed (simp_all add: calc_node as_old_exit split: option.split)
qed

theorem old_calc_agrees_witness:
  "old_calc 4 (\<lambda>_. True) (Scope 0 [Operand None StdOut (Some (Operand (Some (Val 1)) Div (Some (Val 0))))])
      \<lparr>vals = (\<lambda>_. None), stdin = None, stdout = []\<rparr> =
    Some (Inl (Exited 1), \<lparr>vals = (\<lambda>_. None), stdin = None, stdout = ''Division by zero!'' @ endl\<rparr>)"
  using old_calc_agrees [of "Scope 0 [Operand None StdOut (Some (Operand (Some (Val 1)) Div (Some (Val 0))))]"
      4 "\<lambda>_. True" "\<lparr>vals = (\<lambda>_. None), stdin = None, stdout = []\<rparr>"]
  by (simp add: numeral_eq_Suc calc_node operand_calc_def call_ptr_def as_old_exit)

end
