(* ===== verification/Pcl_Codegen.thy ===== *)
theory Pcl_Codegen
  imports Pcl_Props
begin

text \<open>
  \<^verbatim>\<open>15-llvm/naive-pcl/Codegen.hpp\<close>, \<^verbatim>\<open>Codegen.cc\<close>, the \<^verbatim>\<open>codegen\<close> members of \<^verbatim>\<open>Node.hpp\<close> and the run-time library
  \<^verbatim>\<open>15-llvm/pcl-lib/pcllib.cc\<close>: the ParaCL compiler. The module under construction is the list of
  the calls of the LLVM IR builder, block by block in the order in which they insert. The builder may fold an
  operation on constants instead of inserting it, which does not change what the returned value denotes. What LLVM
  makes of the calls is not code of the repository: an execution relation is a
  parameter, and the locale \<open>llvm_function\<close> states what the language reference of LLVM says about the
  instructions used. The theory \<open>Pcl_Codegen_Props\<close> has the theorems.
\<close>

section \<open>Values and calls of the builder\<close>

text \<open>A pointer to \<^verbatim>\<open>llvm::Value\<close>: a 32-bit constant, or what a call of the builder returned.\<close>

datatype ir_value = ConstantInt int | Result nat

datatype ir_binop = OpAdd | OpSub | OpMul | OpSDiv | OpSRem | OpAnd | OpOr

datatype ir_pred = SGT | SLT | SGE | SLE | EQ | NE

text \<open>The first argument numbers the returned value; variables are addressed by the number of their \<^verbatim>\<open>alloca\<close>.\<close>

datatype ir_call =
    CreateAlloca nat string
  | CreateLoad nat nat
  | CreateStore nat ir_value nat
  | CreateBinOp nat ir_binop ir_value ir_value
  | CreateICmp nat ir_pred ir_value ir_value
  | CreateNot nat ir_value
  | CreateCallPrint nat ir_value
  | CreateCallScan nat
  | CreateBr nat nat
  | CreateCondBr nat ir_value nat nat
  | CreateRetVoid nat

section \<open>Codegen.hpp and Codegen.cc\<close>

text \<open>
  \<open>Blocks\<close> are the basic blocks of \<^verbatim>\<open>Function_\<close>, the entry block first; there are none before \<^verbatim>\<open>StartFunction\<close>.
  \<open>InsertPoint\<close> is the block at whose end \<^verbatim>\<open>Builder_\<close> inserts. \<open>Functions\<close> are the names the module
  declares.
\<close>

record CodeGen =
  Blocks :: "ir_call list list"
  InsertPoint :: nat
  NamedValues :: "string \<Rightarrow> nat option"
  Functions :: "string list"
  next_value :: nat

definition createFnDecl :: "string \<Rightarrow> CodeGen \<Rightarrow> CodeGen" where
  "createFnDecl Name G = G\<lparr>Functions := Functions G @ [Name]\<rparr>"

definition CodeGen_ctor :: CodeGen where
  "CodeGen_ctor = \<lparr>Blocks = [], InsertPoint = 0, NamedValues = (\<lambda>_. None), Functions = [], next_value = 0\<rparr>"

definition createCodeGen :: CodeGen where
  "createCodeGen = createFnDecl ''__pcl_scan'' (createFnDecl ''__pcl_print'' CodeGen_ctor)"

definition StartFunction :: "string \<Rightarrow> CodeGen \<Rightarrow> CodeGen" where
  "StartFunction Name G = (createFnDecl Name G)\<lparr>Blocks := [[]], InsertPoint := 0\<rparr>"

text \<open>Insertion by \<^verbatim>\<open>Builder_\<close>; \<open>f\<close> makes the call from the number of its result.\<close>

definition insert_call :: "(nat \<Rightarrow> ir_call) \<Rightarrow> CodeGen \<Rightarrow> (ir_value \<times> CodeGen) res" where
  "insert_call f G =
     bindE (vec_get (Blocks G) (InsertPoint G)) (\<lambda>BB.
     Inr (Result (next_value G),
          G\<lparr>Blocks := (Blocks G)[InsertPoint G := BB @ [f (next_value G)]], next_value := Suc (next_value G)\<rparr>))"

definition EndCurrentFunction :: "CodeGen \<Rightarrow> CodeGen res" where
  "EndCurrentFunction G = bindE (insert_call CreateRetVoid G) (\<lambda>(_, G). Inr G)"

definition AddDecl :: "string \<Rightarrow> CodeGen \<Rightarrow> CodeGen res" where
  "AddDecl Varname G =
     bindE (vec_get (Blocks G) 0) (\<lambda>BB.
     Inr (G\<lparr>Blocks := (Blocks G)[0 := CreateAlloca (next_value G) Varname # BB],
            NamedValues := (NamedValues G)(Varname \<mapsto> next_value G), next_value := Suc (next_value G)\<rparr>))"

definition AddDeclRead :: "string \<Rightarrow> CodeGen \<Rightarrow> (ir_value \<times> CodeGen) res" where
  "AddDeclRead Varname G =
     (case NamedValues G Varname of
        None \<Rightarrow> Inl Assertion_failed
      | Some V \<Rightarrow> insert_call (\<lambda>r. CreateLoad r V) G)"

text \<open>A null pointer handed to the builder is undefined.\<close>

definition non_null :: "ir_value option \<Rightarrow> ir_value res" where
  "non_null p = (case p of None \<Rightarrow> Inl Undefined_behaviour | Some V \<Rightarrow> Inr V)"

definition AddDeclWrite :: "string \<Rightarrow> ir_value option \<Rightarrow> CodeGen \<Rightarrow> (ir_value \<times> CodeGen) res" where
  "AddDeclWrite Varname Rhs G =
     (case NamedValues G Varname of
        None \<Rightarrow> Inl Assertion_failed
      | Some V \<Rightarrow> bindE (non_null Rhs) (\<lambda>x. insert_call (\<lambda>r. CreateStore r x V) G))"

text \<open>Two new blocks and a conditional branch into the first or the second of them.\<close>

definition StartIf :: "ir_value option \<Rightarrow> CodeGen \<Rightarrow> (nat \<times> CodeGen) res" where
  "StartIf CondV G =
     (let ThenBB = length (Blocks G); MergeBB = Suc ThenBB; G = G\<lparr>Blocks := Blocks G @ [[], []]\<rparr> in
      bindE (non_null CondV) (\<lambda>c.
      bindE (insert_call (\<lambda>r. CreateCondBr r c ThenBB MergeBB) G) (\<lambda>(_, G).
      Inr (MergeBB, G\<lparr>InsertPoint := ThenBB\<rparr>))))"

definition EndIf :: "nat \<Rightarrow> CodeGen \<Rightarrow> CodeGen res" where
  "EndIf MergeBB G =
     bindE (insert_call (\<lambda>r. CreateBr r MergeBB) G) (\<lambda>(_, G). Inr (G\<lparr>InsertPoint := MergeBB\<rparr>))"

definition StartWhile :: "ir_value option \<Rightarrow> CodeGen \<Rightarrow> ((nat \<times> nat) \<times> CodeGen) res" where
  "StartWhile CondV G =
     (let BodyBB = length (Blocks G); MergeBB = Suc BodyBB; G = G\<lparr>Blocks := Blocks G @ [[], []]\<rparr> in
      bindE (non_null CondV) (\<lambda>c.
      bindE (insert_call (\<lambda>r. CreateCondBr r c BodyBB MergeBB) G) (\<lambda>(_, G).
      Inr ((BodyBB, MergeBB), G\<lparr>InsertPoint := BodyBB\<rparr>))))"

definition EndWhile :: "ir_value option \<Rightarrow> nat \<times> nat \<Rightarrow> CodeGen \<Rightarrow> CodeGen res" where
  "EndWhile CondV BBs G =
     bindE (non_null CondV) (\<lambda>c.
     bindE (insert_call (\<lambda>r. CreateCondBr r c (fst BBs) (snd BBs)) G) (\<lambda>(_, G).
     Inr (G\<lparr>InsertPoint := snd BBs\<rparr>)))"

definition insert_binop :: "ir_binop \<Rightarrow> ir_value option \<Rightarrow> ir_value option \<Rightarrow> CodeGen \<Rightarrow> (ir_value \<times> CodeGen) res" where
  "insert_binop b LeftV RightV G =
     bindE (non_null LeftV) (\<lambda>x. bindE (non_null RightV) (\<lambda>y. insert_call (\<lambda>r. CreateBinOp r b x y) G))"

definition insert_icmp :: "ir_pred \<Rightarrow> ir_value option \<Rightarrow> ir_value option \<Rightarrow> CodeGen \<Rightarrow> (ir_value \<times> CodeGen) res" where
  "insert_icmp p LeftV RightV G =
     bindE (non_null LeftV) (\<lambda>x. bindE (non_null RightV) (\<lambda>y. insert_call (\<lambda>r. CreateICmp r p x y) G))"

definition or_zero :: "ir_value option \<Rightarrow> ir_value option" where
  "or_zero LeftV = (if LeftV = None then Some (ConstantInt 0) else LeftV)"

definition AddOperation :: "Operation \<Rightarrow> ir_value option \<Rightarrow> ir_value option \<Rightarrow> CodeGen \<Rightarrow> (ir_value \<times> CodeGen) res" where
  "AddOperation Op LeftV RightV G =
     (case Op of
        Plus \<Rightarrow> insert_binop OpAdd (or_zero LeftV) RightV G
      | Minus \<Rightarrow> insert_binop OpSub (or_zero LeftV) RightV G
      | Greater \<Rightarrow> insert_icmp SGT LeftV RightV G
      | Less \<Rightarrow> insert_icmp SLT LeftV RightV G
      | GreaterEq \<Rightarrow> insert_icmp SGE LeftV RightV G
      | LessEq \<Rightarrow> insert_icmp SLE LeftV RightV G
      | StdOut \<Rightarrow>
          bindE (assertE (''__pcl_print'' \<in> set (Functions G))) (\<lambda>_.
          bindE (assertE (RightV \<noteq> None)) (\<lambda>_.
          bindE (non_null RightV) (\<lambda>y. insert_call (\<lambda>r. CreateCallPrint r y) G)))
      | StdIn \<Rightarrow>
          bindE (assertE (''__pcl_scan'' \<in> set (Functions G))) (\<lambda>_. insert_call CreateCallScan G)
      | Equal \<Rightarrow> insert_icmp EQ LeftV RightV G
      | NotEqual \<Rightarrow> insert_icmp NE LeftV RightV G
      | Not \<Rightarrow> bindE (non_null RightV) (\<lambda>y. insert_call (\<lambda>r. CreateNot r y) G)
      | And \<Rightarrow> insert_binop OpAnd LeftV RightV G
      | Or \<Rightarrow> insert_binop OpOr LeftV RightV G
      | Div \<Rightarrow> insert_binop OpSDiv LeftV RightV G
      | Mul \<Rightarrow> insert_binop OpMul LeftV RightV G
      | Mod \<Rightarrow> insert_binop OpSRem LeftV RightV G
      | Assign \<Rightarrow> Inl (Runtime_error ''Node::Operation not implemented''))"

text \<open>\<^verbatim>\<open>SaveModule\<close> throws when the stream reports an error, whether it was opened or not.\<close>

definition SaveModule :: "bool \<Rightarrow> CodeGen \<Rightarrow> unit res" where
  "SaveModule has_error G = (if has_error then Inl (Runtime_error ''Error printing to file: '') else Inr ())"

section \<open>The codegen members of the nodes\<close>

text \<open>\<open>nm\<close> is \<^verbatim>\<open>Varname_\<close> of the declarations.\<close>

fun codegen :: "(nat \<Rightarrow> string) \<Rightarrow> node \<Rightarrow> CodeGen \<Rightarrow> (ir_value option \<times> CodeGen) res" and
    codegen_all :: "(nat \<Rightarrow> string) \<Rightarrow> node list \<Rightarrow> CodeGen \<Rightarrow> CodeGen res" where
  "codegen nm (Val v) G = Inr (Some (ConstantInt v), G)"
| "codegen nm (DeclRef d) G = bindE (AddDeclRead (nm d) G) (\<lambda>(V, G). Inr (Some V, G))"
| "codegen nm (Scope i bs) G = bindE (codegen_all nm bs G) (\<lambda>G. Inr (None, G))"
| "codegen nm (Operand l op r) G =
     bindE (case l of None \<Rightarrow> Inr (None, G) | Some n \<Rightarrow> codegen nm n G) (\<lambda>(LeftV, G).
     bindE (case r of None \<Rightarrow> Inr (None, G) | Some n \<Rightarrow> codegen nm n G) (\<lambda>(RightV, G).
     if op = Assign then
       (case l of
          Some (DeclRef d) \<Rightarrow> bindE (AddDeclWrite (nm d) RightV G) (\<lambda>(V, G). Inr (Some V, G))
        | _ \<Rightarrow> Inl Undefined_behaviour)
     else bindE (AddOperation op LeftV RightV G) (\<lambda>(V, G). Inr (Some V, G))))"
| "codegen nm (While c b) G =
     bindE (codegen nm c G) (\<lambda>(CondV, G).
     bindE (StartWhile CondV G) (\<lambda>(BBs, G).
     bindE (codegen nm b G) (\<lambda>(_, G).
     bindE (codegen nm c G) (\<lambda>(CondVNew, G).
     bindE (EndWhile CondVNew BBs G) (\<lambda>G. Inr (None, G))))))"
| "codegen nm (IfN c b) G =
     bindE (codegen nm c G) (\<lambda>(CondV, G).
     bindE (StartIf CondV G) (\<lambda>(MergeBB, G).
     bindE (codegen nm b G) (\<lambda>(_, G).
     bindE (EndIf MergeBB G) (\<lambda>G. Inr (None, G)))))"
| "codegen_all nm [] G = Inr G"
| "codegen_all nm (B # Bs) G = bindE (codegen nm B G) (\<lambda>(_, G). codegen_all nm Bs G)"

text \<open>
  \<^verbatim>\<open>Scope::access\<close> in the compiler: a new declaration keeps its name and gets an \<^verbatim>\<open>alloca\<close>.
\<close>

definition compiler_access :: "string \<Rightarrow> bld \<times> (nat \<Rightarrow> string) \<times> CodeGen \<Rightarrow> (nat \<times> bld \<times> (nat \<Rightarrow> string) \<times> CodeGen) res" where
  "compiler_access VarName st =
     (case st of (b, nm, G) \<Rightarrow>
       (case scope_visible VarName b of
          Some d \<Rightarrow> Inr (d, b, nm, G)
        | None \<Rightarrow>
            (case scope_access VarName b of
               None \<Rightarrow> Inl Undefined_behaviour
             | Some (d, b') \<Rightarrow> bindE (AddDecl VarName G) (\<lambda>G. Inr (d, b', nm(d := VarName), G)))))"

text \<open>\<^verbatim>\<open>main\<close> of the driver around the parser: the set-up, the declarations it makes, the tree and the end.\<close>

fun add_decls :: "string list \<Rightarrow> CodeGen \<Rightarrow> CodeGen res" where
  "add_decls [] G = Inr G"
| "add_decls (x # xs) G = bindE (AddDecl x G) (add_decls xs)"

definition compile_program :: "(nat \<Rightarrow> string) \<Rightarrow> string list \<Rightarrow> node \<Rightarrow> CodeGen res" where
  "compile_program nm decls tree =
     bindE (add_decls decls (StartFunction ''__pcl_start'' createCodeGen)) (\<lambda>G.
     bindE (codegen nm tree G) (\<lambda>(_, G).
     EndCurrentFunction G))"

section \<open>pcllib.cc\<close>

text \<open>The standard streams: the input not read yet (\<open>None\<close> once the stream has failed) and the output.\<close>

type_synonym io = "string option \<times> string"

definition pcl_print :: "int \<Rightarrow> io \<Rightarrow> io" where
  "pcl_print n st = (fst st, snd st @ string_of_int n @ endl)"

text \<open>\<^verbatim>\<open>__pcl_scan\<close> ends the program when the stream is not good after the extraction.\<close>

definition pcl_scan :: "io \<Rightarrow> int res \<times> io" where
  "pcl_scan st =
     (let (n, s) = read_int \<lparr>vals = (\<lambda>_. None), stdin = fst st, stdout = snd st\<rparr> in
      (if stdin s = None then Inl (Exited 1) else Inr n, (stdin s, stdout s)))"

section \<open>What the language reference of LLVM says\<close>

text \<open>Values of the types \<^verbatim>\<open>i32\<close> and \<^verbatim>\<open>i1\<close>.\<close>

datatype ir_val = I32 "32 word" | I1 bool

type_synonym ir_store = "nat \<Rightarrow> ir_val option"

definition value_of :: "ir_store \<Rightarrow> ir_value \<Rightarrow> ir_val option" where
  "value_of R v = (case v of ConstantInt n \<Rightarrow> Some (I32 (word_of_int n)) | Result r \<Rightarrow> R r)"

text \<open>
  The documented results: \<^verbatim>\<open>add\<close>, \<^verbatim>\<open>sub\<close> and \<^verbatim>\<open>mul\<close> are modulo the width, \<^verbatim>\<open>sdiv\<close> and \<^verbatim>\<open>srem\<close> are
  undefined for a zero divisor and on overflow, the operands have one type.
\<close>

definition binop_doc :: "ir_binop \<Rightarrow> ir_val \<Rightarrow> ir_val \<Rightarrow> ir_val option" where
  "binop_doc b u v =
     (case (u, v) of
        (I32 x, I32 y) \<Rightarrow>
          (case b of
             OpAdd \<Rightarrow> Some (I32 (x + y)) | OpSub \<Rightarrow> Some (I32 (x - y)) | OpMul \<Rightarrow> Some (I32 (x * y))
           | OpSDiv \<Rightarrow>
               if sint y = 0 \<or> \<not> in_int (sint x sdiv sint y) then None
               else Some (I32 (word_of_int (sint x sdiv sint y)))
           | OpSRem \<Rightarrow>
               if sint y = 0 \<or> \<not> in_int (sint x sdiv sint y) then None
               else Some (I32 (word_of_int (sint x smod sint y)))
           | OpAnd \<Rightarrow> Some (I32 (and x y)) | OpOr \<Rightarrow> Some (I32 (or x y)))
      | (I1 p, I1 q) \<Rightarrow>
          (case b of OpAnd \<Rightarrow> Some (I1 (p \<and> q)) | OpOr \<Rightarrow> Some (I1 (p \<or> q)) | _ \<Rightarrow> None)
      | _ \<Rightarrow> None)"

definition icmp_doc :: "ir_pred \<Rightarrow> 32 word \<Rightarrow> 32 word \<Rightarrow> bool" where
  "icmp_doc p x y =
     (case p of SGT \<Rightarrow> sint x > sint y | SLT \<Rightarrow> sint x < sint y | SGE \<Rightarrow> sint x \<ge> sint y
      | SLE \<Rightarrow> sint x \<le> sint y | EQ \<Rightarrow> x = y | NE \<Rightarrow> x \<noteq> y)"

definition not_doc :: "ir_val \<Rightarrow> ir_val" where
  "not_doc v = (case v of I32 x \<Rightarrow> I32 (not x) | I1 p \<Rightarrow> I1 (\<not> p))"

text \<open>
  \<open>exec F code R M st q\<close>: with the body \<open>F\<close>, execution of the rest \<open>code\<close> of a block from the results \<open>R\<close>, the memory
  \<open>M\<close> and the streams \<open>st\<close> ends with \<open>q\<close>. Memory without a value (after \<^verbatim>\<open>alloca\<close>) can be loaded;
  only using what was loaded has no rule.
\<close>

locale llvm_function =
  fixes exec :: "ir_call list list \<Rightarrow> ir_call list \<Rightarrow> ir_store \<Rightarrow> ir_store \<Rightarrow> io \<Rightarrow> unit res \<times> io \<Rightarrow> bool"
  assumes alloca: "exec F code R (M(r := None)) st q \<Longrightarrow> exec F (CreateAlloca r name # code) R M st q"
    and load: "exec F code (R(r := M a)) M st q \<Longrightarrow> exec F (CreateLoad r a # code) R M st q"
    and store: "value_of R v = Some x \<Longrightarrow> exec F code R (M(a \<mapsto> x)) st q \<Longrightarrow> exec F (CreateStore r v a # code) R M st q"
    and binop: "value_of R u = Some x \<Longrightarrow> value_of R v = Some y \<Longrightarrow> binop_doc bop x y = Some z \<Longrightarrow>
      exec F code (R(r \<mapsto> z)) M st q \<Longrightarrow> exec F (CreateBinOp r bop u v # code) R M st q"
    and icmp: "value_of R u = Some (I32 wx) \<Longrightarrow> value_of R v = Some (I32 wy) \<Longrightarrow>
      exec F code (R(r \<mapsto> I1 (icmp_doc cmp wx wy))) M st q \<Longrightarrow> exec F (CreateICmp r cmp u v # code) R M st q"
    and not_rule: "value_of R u = Some x \<Longrightarrow> exec F code (R(r \<mapsto> not_doc x)) M st q \<Longrightarrow>
      exec F (CreateNot r u # code) R M st q"
    and print: "value_of R u = Some (I32 wx) \<Longrightarrow> exec F code R M (pcl_print (sint wx) st) q \<Longrightarrow>
      exec F (CreateCallPrint r u # code) R M st q"
    and scan: "pcl_scan st = (Inr n, st') \<Longrightarrow> exec F code (R(r \<mapsto> I32 (word_of_int n))) M st' q \<Longrightarrow>
      exec F (CreateCallScan r # code) R M st q"
    and scan_exit: "pcl_scan st = (Inl e, st') \<Longrightarrow> exec F (CreateCallScan r # code) R M st (Inl e, st')"
    and br: "b < length F \<Longrightarrow> exec F (F ! b) R M st q \<Longrightarrow> exec F (CreateBr r b # code) R M st q"
    and condbr: "value_of R u = Some (I1 p) \<Longrightarrow> b < length F \<Longrightarrow> c < length F \<Longrightarrow>
      exec F (F ! (if p then b else c)) R M st q \<Longrightarrow> exec F (CreateCondBr r u b c # code) R M st q"
    and ret: "exec F (CreateRetVoid r # code) R M st (Inr (), st)"

section \<open>An execution that follows the reference\<close>

text \<open>
  An executable instance: one call after the other, with fuel for the branches. A call for which the
  reference gives no result is undefined.
\<close>

fun ir_run :: "nat \<Rightarrow> ir_call list list \<Rightarrow> ir_call list \<Rightarrow> ir_store \<Rightarrow> ir_store \<Rightarrow> io \<Rightarrow> (unit res \<times> io) option" where
  "ir_run 0 F code R M st = None"
| "ir_run (Suc k) F [] R M st = Some (Inl Undefined_behaviour, st)"
| "ir_run (Suc k) F (c # code) R M st =
     (case c of
        CreateAlloca r x \<Rightarrow> ir_run k F code R (M(r := None)) st
      | CreateLoad r a \<Rightarrow> ir_run k F code (R(r := M a)) M st
      | CreateStore r v a \<Rightarrow>
          (case value_of R v of
             Some x \<Rightarrow> ir_run k F code R (M(a \<mapsto> x)) st
           | None \<Rightarrow> Some (Inl Undefined_behaviour, st))
      | CreateBinOp r b u v \<Rightarrow>
          (case (value_of R u, value_of R v) of
             (Some x, Some y) \<Rightarrow>
               (case binop_doc b x y of
                  Some z \<Rightarrow> ir_run k F code (R(r \<mapsto> z)) M st
                | None \<Rightarrow> Some (Inl Undefined_behaviour, st))
           | _ \<Rightarrow> Some (Inl Undefined_behaviour, st))
      | CreateICmp r p u v \<Rightarrow>
          (case (value_of R u, value_of R v) of
             (Some (I32 x), Some (I32 y)) \<Rightarrow> ir_run k F code (R(r \<mapsto> I1 (icmp_doc p x y))) M st
           | _ \<Rightarrow> Some (Inl Undefined_behaviour, st))
      | CreateNot r u \<Rightarrow>
          (case value_of R u of
             Some x \<Rightarrow> ir_run k F code (R(r \<mapsto> not_doc x)) M st
           | None \<Rightarrow> Some (Inl Undefined_behaviour, st))
      | CreateCallPrint r u \<Rightarrow>
          (case value_of R u of
             Some (I32 x) \<Rightarrow> ir_run k F code R M (pcl_print (sint x) st)
           | _ \<Rightarrow> Some (Inl Undefined_behaviour, st))
      | CreateCallScan r \<Rightarrow>
          (case pcl_scan st of
             (Inr n, st') \<Rightarrow> ir_run k F code (R(r \<mapsto> I32 (word_of_int n))) M st'
           | (Inl e, st') \<Rightarrow> Some (Inl e, st'))
      | CreateBr r b \<Rightarrow>
          if b < length F then ir_run k F (F ! b) R M st else Some (Inl Undefined_behaviour, st)
      | CreateCondBr r u b c \<Rightarrow>
          (case value_of R u of
             Some (I1 p) \<Rightarrow>
               if b < length F \<and> c < length F then ir_run k F (F ! (if p then b else c)) R M st
               else Some (Inl Undefined_behaviour, st)
           | _ \<Rightarrow> Some (Inl Undefined_behaviour, st))
      | CreateRetVoid r \<Rightarrow> Some (Inr (), st))"

definition ir_exec :: "ir_call list list \<Rightarrow> ir_call list \<Rightarrow> ir_store \<Rightarrow> ir_store \<Rightarrow> io \<Rightarrow> unit res \<times> io \<Rightarrow> bool" where
  "ir_exec F code R M st q \<longleftrightarrow> (\<exists>k. ir_run k F code R M st = Some q)"

lemma ir_exec_stop: "ir_run (Suc 0) F (c # code) R M st = Some q \<Longrightarrow> ir_exec F (c # code) R M st q"
  unfolding ir_exec_def by blast

lemma ir_exec_step:
  "ir_exec F code' R' M' st' q \<Longrightarrow> (\<And>k. ir_run (Suc k) F (c # code) R M st = ir_run k F code' R' M' st') \<Longrightarrow>
   ir_exec F (c # code) R M st q"
  unfolding ir_exec_def by metis

interpretation irx: llvm_function ir_exec
  by unfold_locales ((rule ir_exec_stop, simp; fail) | (erule ir_exec_step, simp; fail))+

end
