(* ===== verification/Pcl_Codegen_Props.thy ===== *)
theory Pcl_Codegen_Props
  imports Pcl_Codegen "HOL-Library.Sublist"
begin

text \<open>
  Correctness of the ParaCL compiler: the code generated for a tree and executed as the reference
  of LLVM says computes what the interpreter computes from the tree. The first section says for
  which trees this holds; the last one shows programs outside of them that behave differently.
\<close>

section \<open>The trees the compiler translates correctly\<close>

text \<open>
  Arithmetic expressions; a divisor does not read input, because the interpreter evaluates it twice.
\<close>

fun typed_expr :: "node \<Rightarrow> bool" where
  "typed_expr (Val v) = in_int v"
| "typed_expr (DeclRef d) = True"
| "typed_expr (Operand (Some l) op (Some r)) =
     (typed_expr l \<and> typed_expr r \<and> (op \<in> {Plus, Minus, Mul, Mod} \<or> op = Div \<and> pure r))"
| "typed_expr (Operand None op None) = (op = StdIn)"
| "typed_expr _ = False"

text \<open>Nothing to go wrong when it is evaluated needlessly.\<close>

fun total :: "node \<Rightarrow> bool" where
  "total (Operand (Some l) op (Some r)) = (total l \<and> total r \<and> op \<notin> {Div, Mod})"
| "total (Operand None op (Some r)) = total r"
| "total (Operand l op r) = False"
| "total _ = True"

definition is_rel :: "Operation \<Rightarrow> bool" where
  "is_rel op \<longleftrightarrow> op \<in> {Greater, Less, GreaterEq, LessEq, Equal, NotEqual}"

text \<open>
  Conditions: comparisons and their combinations. The compiled code evaluates both operands of \<^verbatim>\<open>&&\<close> and \<^verbatim>\<open>||\<close>.
\<close>

fun typed_cond :: "node \<Rightarrow> bool" where
  "typed_cond (Operand (Some l) op (Some r)) =
     (if op = And \<or> op = Or then typed_cond l \<and> typed_cond r \<and> total r
      else is_rel op \<and> typed_expr l \<and> typed_expr r)"
| "typed_cond (Operand None op (Some r)) = (op = Not \<and> typed_cond r)"
| "typed_cond _ = False"

fun vars :: "node \<Rightarrow> nat list" where
  "vars (DeclRef d) = [d]"
| "vars (Operand (Some l) op (Some r)) = vars l @ vars r"
| "vars (Operand None op (Some r)) = vars r"
| "vars _ = []"

text \<open>
  Statements, with the variables \<open>D\<close> that have a value before. An assignment to a variable does not
  hit another one of \<open>D\<close> with the same name: the compiler keeps one address for a name.
\<close>

fun assigned :: "nat list \<Rightarrow> node \<Rightarrow> nat list" where
  "assigned D (Operand (Some (DeclRef d)) op r) = (if op = Assign then d # D else D)"
| "assigned D _ = D"

fun checked :: "(nat \<Rightarrow> string) \<Rightarrow> nat list \<Rightarrow> node \<Rightarrow> bool" and
    checked_all :: "(nat \<Rightarrow> string) \<Rightarrow> nat list \<Rightarrow> node list \<Rightarrow> bool" where
  "checked nm D (Operand (Some (DeclRef d)) op (Some e)) =
     (op = Assign \<and> typed_expr e \<and> set (vars e) \<subseteq> set D \<and> (\<forall>d' \<in> set D. nm d' = nm d \<longrightarrow> d' = d))"
| "checked nm D (Operand None op (Some e)) = (op = StdOut \<and> typed_expr e \<and> set (vars e) \<subseteq> set D)"
| "checked nm D (Scope i bs) = checked_all nm D bs"
| "checked nm D (While c b) = (typed_cond c \<and> set (vars c) \<subseteq> set D \<and> checked nm D b)"
| "checked nm D (IfN c b) = (typed_cond c \<and> set (vars c) \<subseteq> set D \<and> checked nm D b)"
| "checked nm D _ = False"
| "checked_all nm D [] = True"
| "checked_all nm D (n # ns) = (checked nm D n \<and> checked_all nm (assigned D n) ns)"

fun targets :: "node \<Rightarrow> nat list" and targets_all :: "node list \<Rightarrow> nat list" where
  "targets (Operand l op r) = (case l of Some (DeclRef d) \<Rightarrow> [d] | _ \<Rightarrow> [])"
| "targets (Scope i bs) = targets_all bs"
| "targets (While c b) = targets b"
| "targets (IfN c b) = targets b"
| "targets _ = []"
| "targets_all [] = []"
| "targets_all (n # ns) = targets n @ targets_all ns"

section \<open>The shape of generated code\<close>

definition gok :: "CodeGen \<Rightarrow> bool" where
  "gok G \<longleftrightarrow> InsertPoint G < length (Blocks G) \<and> {''__pcl_print'', ''__pcl_scan''} \<subseteq> set (Functions G)"

definition ins :: "(nat \<Rightarrow> ir_call) \<Rightarrow> CodeGen \<Rightarrow> CodeGen" where
  "ins f G = G\<lparr>Blocks := (Blocks G)[InsertPoint G := Blocks G ! InsertPoint G @ [f (next_value G)]],
               next_value := Suc (next_value G)\<rparr>"

lemma insert_call_ok: "gok G \<Longrightarrow> insert_call f G = Inr (Result (next_value G), ins f G)"
  by (simp add: insert_call_def gok_def ins_def)

lemma insert_call_iff: "gok G \<Longrightarrow> insert_call f G = Inr (v, G') \<longleftrightarrow> v = Result (next_value G) \<and> G' = ins f G"
  by (auto simp: insert_call_ok)

lemma ins_simps [simp]:
  "InsertPoint (ins f G) = InsertPoint G" "NamedValues (ins f G) = NamedValues G"
  "next_value (ins f G) = Suc (next_value G)" "length (Blocks (ins f G)) = length (Blocks G)"
  "gok (ins f G) = gok G"
  by (simp_all add: ins_def gok_def)

text \<open>\<open>appends\<close>: only the current block got longer; \<open>grows\<close>: there may also be new blocks.\<close>

definition grows :: "CodeGen \<Rightarrow> CodeGen \<Rightarrow> bool" where
  "grows G G' \<longleftrightarrow> gok G' \<and> NamedValues G' = NamedValues G \<and> next_value G \<le> next_value G' \<and>
     length (Blocks G) \<le> length (Blocks G') \<and>
     (InsertPoint G' = InsertPoint G \<or> length (Blocks G) \<le> InsertPoint G') \<and>
     (\<forall>b < length (Blocks G). prefix (Blocks G ! b) (Blocks G' ! b) \<and>
        (b \<noteq> InsertPoint G \<longrightarrow> Blocks G' ! b = Blocks G ! b))"

definition appends :: "CodeGen \<Rightarrow> CodeGen \<Rightarrow> bool" where
  "appends G G' \<longleftrightarrow> grows G G' \<and> InsertPoint G' = InsertPoint G \<and> length (Blocks G') = length (Blocks G)"

lemma grows_refl: "gok G \<Longrightarrow> grows G G"
  by (simp add: grows_def)

lemma grows_trans: "grows G H \<Longrightarrow> grows H K \<Longrightarrow> grows G K"
  unfolding grows_def by (auto intro: prefix_order.trans)

lemma grows_gok: "grows G H \<Longrightarrow> gok H"
  by (simp add: grows_def)

lemma appends_refl: "gok G \<Longrightarrow> appends G G"
  by (simp add: appends_def grows_refl)

lemma appends_trans: "appends G H \<Longrightarrow> appends H K \<Longrightarrow> appends G K"
  unfolding appends_def using grows_trans by auto

lemma appends_ins: "gok G \<Longrightarrow> appends G (ins f G)"
  by (auto simp: appends_def grows_def) (auto simp: ins_def nth_list_update gok_def)

lemma appends_gok: "appends G H \<Longrightarrow> gok H"
  by (simp add: appends_def grows_def)

lemma appends_grows: "appends G H \<Longrightarrow> grows G H"
  by (simp add: appends_def)

text \<open>A finished body \<open>F\<close> that contains what was generated so far, and what of the current block follows.\<close>

definition within :: "ir_call list list \<Rightarrow> CodeGen \<Rightarrow> bool" where
  "within F G \<longleftrightarrow> length (Blocks G) \<le> length F \<and> (\<forall>b < length (Blocks G). prefix (Blocks G ! b) (F ! b))"

definition rest :: "ir_call list list \<Rightarrow> CodeGen \<Rightarrow> ir_call list" where
  "rest F G = drop (length (Blocks G ! InsertPoint G)) (F ! InsertPoint G)"

lemma within_grows: "within F G' \<Longrightarrow> grows G G' \<Longrightarrow> within F G"
  unfolding within_def grows_def by (auto intro: prefix_order.trans)

lemma within_refl: "within (Blocks G) G"
  by (simp add: within_def)

lemma rest_ins: "gok G \<Longrightarrow> within F (ins f G) \<Longrightarrow> rest F G = f (next_value G) # rest F (ins f G)"
  unfolding within_def rest_def gok_def prefix_def
  by (auto simp: ins_def dest!: spec [of _ "InsertPoint G"])


section \<open>Code for expressions and conditions\<close>

text \<open>The call a binary operation makes.\<close>

definition op_call :: "Operation \<Rightarrow> ir_value \<Rightarrow> ir_value \<Rightarrow> nat \<Rightarrow> ir_call" where
  "op_call op x y r =
     (case op of
        Plus \<Rightarrow> CreateBinOp r OpAdd x y | Minus \<Rightarrow> CreateBinOp r OpSub x y | Mul \<Rightarrow> CreateBinOp r OpMul x y
      | Div \<Rightarrow> CreateBinOp r OpSDiv x y | Mod \<Rightarrow> CreateBinOp r OpSRem x y
      | And \<Rightarrow> CreateBinOp r OpAnd x y | Or \<Rightarrow> CreateBinOp r OpOr x y
      | Greater \<Rightarrow> CreateICmp r SGT x y | Less \<Rightarrow> CreateICmp r SLT x y | GreaterEq \<Rightarrow> CreateICmp r SGE x y
      | LessEq \<Rightarrow> CreateICmp r SLE x y | Equal \<Rightarrow> CreateICmp r EQ x y | _ \<Rightarrow> CreateICmp r NE x y)"

definition binary :: "Operation \<Rightarrow> bool" where
  "binary op \<longleftrightarrow> op \<notin> {Assign, StdOut, StdIn, Not}"

lemma AddOperation_binary:
  "binary op \<Longrightarrow> AddOperation op (Some x) (Some y) G = insert_call (op_call op x y) G"
  by (cases op) (auto simp: binary_def AddOperation_def insert_binop_def insert_icmp_def non_null_def or_zero_def
      op_call_def [abs_def])

lemma typed_binary:
  assumes "typed_expr (Operand (Some l) op (Some r)) \<or> typed_cond (Operand (Some l) op (Some r))"
  shows "binary op" and "typed_expr l \<or> typed_cond l" and "typed_expr r \<or> typed_cond r"
  using assms by (auto simp: binary_def is_rel_def split: if_splits)

definition value_below :: "ir_value \<Rightarrow> nat \<Rightarrow> bool" where
  "value_below v n \<longleftrightarrow> (case v of ConstantInt _ \<Rightarrow> True | Result r \<Rightarrow> r < n)"

definition reads_ok :: "(nat \<Rightarrow> string) \<Rightarrow> node \<Rightarrow> CodeGen \<Rightarrow> bool" where
  "reads_ok nm n G \<longleftrightarrow> (\<forall>d \<in> set (vars n). NamedValues G (nm d) \<noteq> None)"

definition code_of :: "(nat \<Rightarrow> string) \<Rightarrow> node \<Rightarrow> CodeGen \<Rightarrow> ir_value \<Rightarrow> CodeGen \<Rightarrow> bool" where
  "code_of nm n G v G' \<longleftrightarrow> codegen nm n G = Inr (Some v, G') \<and> appends G G' \<and> value_below v (next_value G')"

lemma code_of_fun: "code_of nm n G v G' \<Longrightarrow> codegen nm n G = Inr (u, H) \<Longrightarrow> u = Some v \<and> H = G'"
  by (simp add: code_of_def)

lemma code_of_gok: "code_of nm n G v G' \<Longrightarrow> gok G'"
  by (auto simp: code_of_def intro: appends_gok)

lemma code_of_reads: "code_of nm n G v G' \<Longrightarrow> reads_ok nm m G' = reads_ok nm m G"
  by (auto simp: code_of_def appends_def grows_def reads_ok_def)

lemma reads_ok_Operand [simp]:
  "reads_ok nm (Operand (Some l) op (Some r)) G = (reads_ok nm l G \<and> reads_ok nm r G)"
  "reads_ok nm (Operand None op (Some r)) G = reads_ok nm r G"
  by (auto simp: reads_ok_def)

lemma code_of_binary:
  assumes "binary op" "code_of nm l G x H" "code_of nm r H y K"
  shows "code_of nm (Operand (Some l) op (Some r)) G (Result (next_value K)) (ins (op_call op x y) K)"
proof -
  have "gok K" using assms(3) by (rule code_of_gok)
  moreover have "appends G (ins (op_call op x y) K)"
    using assms appends_trans appends_ins [OF \<open>gok K\<close>] unfolding code_of_def by blast
  ultimately show ?thesis using assms
    by (simp add: code_of_def AddOperation_binary insert_call_ok value_below_def) (simp add: binary_def)
qed

lemma code_of_StdIn: "gok G \<Longrightarrow> code_of nm (Operand None StdIn None) G (Result (next_value G)) (ins CreateCallScan G)"
  using insert_call_ok [of G CreateCallScan] appends_ins [of G CreateCallScan]
  by (simp add: code_of_def AddOperation_def value_below_def) (simp add: gok_def)

lemma code_exists:
  assumes "typed_expr n \<or> typed_cond n" "gok G" "reads_ok nm n G"
  shows "\<exists>v G'. code_of nm n G v G'"
  using assms
proof (induction n arbitrary: G rule: vars.induct [case_names 1 2 3 val scope none empty loop cond])
  case (1 d)
  then show ?case
    by (auto simp: code_of_def reads_ok_def AddDeclRead_def insert_call_ok appends_ins value_below_def)
next
  case (2 l op r)
  obtain x H where l: "code_of nm l G x H"
    using 2(1) [OF typed_binary(2) [OF 2(3)] 2(4)] 2(5) by auto
  obtain y K where "code_of nm r H y K"
    using 2(2) [OF typed_binary(3) [OF 2(3)] code_of_gok [OF l]] 2(5) code_of_reads [OF l] by auto
  then show ?case using code_of_binary [OF typed_binary(1) [OF 2(3)] l] by blast
next
  case (3 op r)
  then have op: "op = Not" and "typed_cond r" by auto
  with 3 obtain y K where r: "code_of nm r G y K" by simp blast
  then have "gok K" by (rule code_of_gok)
  then show ?case using r op appends_trans appends_ins [OF \<open>gok K\<close>]
    by (fastforce simp: code_of_def AddOperation_def non_null_def insert_call_ok value_below_def)
next
  case (val v)
  then show ?case by (simp add: code_of_def appends_refl value_below_def)
next
  case (none op)
  then show ?case using code_of_StdIn [OF none(2)] by auto
next
  case (empty u op)
  then have "u = None" "op = StdIn" by (cases u; auto)+
  then show ?case using code_of_StdIn [OF empty(2)] by blast
qed auto


section \<open>What the interpreter does with them\<close>

abbreviation left_first :: "Operation \<Rightarrow> bool" where
  "left_first \<equiv> \<lambda>_. True"

lemma pure_calc: "pure n \<Longrightarrow> calc k ord n s = Some (Inr v, s') \<Longrightarrow> s' = s"
  using calc_pure [of n "max k (Suc (depth n))" ord s] calc_mono [of k ord n s "(Inr v, s')" "max k (Suc (depth n))"]
  by auto

text \<open>Both operands are evaluated once, the left one first; for a division this needs that the divisor is pure.\<close>

lemma calc_binary:
  assumes "is_bin op \<or> op = Div \<and> pure r"
    and "calc (Suc k) left_first (Operand (Some l) op (Some r)) s = Some (Inr x, s')"
  obtains xl s1 xr where "calc k left_first l s = Some (Inr xl, s1)" "calc k left_first r s1 = Some (Inr xr, s')"
    "bin_val op xl xr = Inr x"
proof (cases "is_bin op")
  case True
  then show ?thesis using assms(2) that
    by (auto simp: calc_node operand_both both_def call_ptr_def bindP_Some_iff)
next
  case False
  then have "op = Div" "pure r" using assms(1) by auto
  then show ?thesis using assms(2) that pure_calc [of r k left_first s]
    by (auto simp: calc_node operand_calc_def both_def call_ptr_def bindP_Some_iff bin_val_def split: if_splits)
qed

lemma calc_0: "calc k ord n s = Some q \<Longrightarrow> \<exists>k'. k = Suc k'"
  by (cases k) auto

lemma read_int_props: "in_int (fst (read_int s))" "vals (snd (read_int s)) = vals s"
  "stdin s = None \<Longrightarrow> stdin (snd (read_int s)) = None" "stdout (snd (read_int s)) = stdout s"
  by (auto simp: read_int_def in_int_def INT_MAX_def split: option.splits)

lemma bin_val_in_int: "op \<in> {Plus, Minus, Mul, Div} \<Longrightarrow> bin_val op x y = Inr z \<Longrightarrow> in_int z"
  by (auto simp: bin_val_def int_res_def c_div_def split: if_splits)

lemma c_mod_in_int: "c_mod x y = Inr z \<Longrightarrow> in_int y \<Longrightarrow> in_int z"
  using smod_int_range [of y x] by (auto simp: c_mod_def in_int_def INT_MAX_def split: if_splits)

lemma expr_calc:
  assumes "typed_expr n" "calc k left_first n s = Some (Inr x, s')"
    and "\<forall>d \<in> set (vars n). \<forall>v. vals s d = Some v \<longrightarrow> in_int v"
  shows "in_int x \<and> vals s' = vals s"
  using assms
proof (induction n arbitrary: k s s' x rule: typed_expr.induct)
  case (3 l op r)
  obtain k' where k: "k = Suc k'" using calc_0 [OF 3(4)] by blast
  have op: "is_bin op \<or> op = Div \<and> pure r" using 3(3) by (auto simp: is_bin_def)
  obtain xl s1 xr where e: "calc k' left_first l s = Some (Inr xl, s1)" "calc k' left_first r s1 = Some (Inr xr, s')"
    "bin_val op xl xr = Inr x" using calc_binary [OF op] 3(4) unfolding k by metis
  have l: "in_int xl \<and> vals s1 = vals s" using 3(1) [OF _ e(1)] 3(3,5) by (simp add: ball_Un)
  then have r: "in_int xr \<and> vals s' = vals s1" using 3(2) [OF _ e(2)] 3(3,5) by (simp add: ball_Un)
  have "in_int x"
  proof (cases "op = Mod")
    case True
    then show ?thesis using e(3) r c_mod_in_int by (simp add: bin_val_def)
  next
    case False
    then show ?thesis using bin_val_in_int [OF _ e(3)] 3(3) by auto
  qed
  then show ?case using l r by simp
next
  case (4 op)
  then show ?case using read_int_props(1,2) [of s]
    by (cases k) (auto simp: calc_node operand_calc_def split: prod.splits)
next
  case (1 v)
  then show ?case by (cases k) (auto simp: calc_node)
next
  case (2 d)
  then show ?case by (cases k) (auto simp: calc_node split: option.splits)
qed auto

lemma calc_stdin_None:
  "calc k ord n s = Some (r, s') \<Longrightarrow> stdin s = None \<Longrightarrow> stdin s' = None"
proof (induction k arbitrary: n s r s')
  case (Suc k)
  have P: "call_ptr (calc k ord) p s = Some (r, s') \<Longrightarrow> stdin s = None \<Longrightarrow> stdin s' = None" for p s r s'
    using Suc(1) by (auto simp: call_ptr_def split: option.splits)
  have B: "run_branches (calc k ord) bs s = Some (r, s') \<Longrightarrow> stdin s = None \<Longrightarrow> stdin s' = None" for bs s r s'
    using Suc(1) by (induction bs arbitrary: s) (auto simp: bindP_def split: option.splits sum.splits prod.splits)
  show ?case
  proof (cases n)
    case (Operand l op r')
    then show ?thesis using Suc(2,3) read_int_props(3) [of s]
      by (cases op) (auto simp: calc_node operand_calc_def both_def bindP_def
        dest!: P split: option.splits sum.splits prod.splits if_splits node.splits)
  next
    case (While c b)
    then show ?thesis using Suc(2,3)
      by (auto simp: calc_node bindP_def dest!: Suc(1) split: option.splits sum.splits prod.splits if_splits)
  next
    case (IfN c b)
    then show ?thesis using Suc(2,3)
      by (auto simp: calc_node bindP_def dest!: Suc(1) split: option.splits sum.splits prod.splits if_splits)
  qed (use Suc(2,3) B in \<open>auto simp: calc_node\<close>)
qed simp


section \<open>Values, memory and registers\<close>

lemma sint_in_int: "in_int v \<Longrightarrow> sint (word_of_int v :: 32 word) = v"
  by (simp add: sint_sbintrunc' signed_take_bit_int_eq_self in_int_def INT_MAX_def)

definition i32 :: "int \<Rightarrow> ir_val" where
  "i32 v = I32 (word_of_int v)"

definition agree_below :: "nat \<Rightarrow> ir_store \<Rightarrow> ir_store \<Rightarrow> bool" where
  "agree_below n R R' \<longleftrightarrow> (\<forall>r < n. R' r = R r)"

lemma agree_below_refl: "agree_below n R R"
  by (simp add: agree_below_def)

lemma agree_below_trans: "agree_below n R R' \<Longrightarrow> agree_below m R' R'' \<Longrightarrow> n \<le> m \<Longrightarrow> agree_below n R R''"
  by (simp add: agree_below_def)

lemma agree_below_upd: "n \<le> r \<Longrightarrow> agree_below n R (R(r := x))"
  by (simp add: agree_below_def)

lemma value_of_upd: "value_of (R(r := x)) (Result r) = x"
  by (simp add: value_of_def)

lemma value_of_agree: "value_below v n \<Longrightarrow> agree_below n R R' \<Longrightarrow> value_of R' v = value_of R v"
  by (cases v) (auto simp: value_of_def value_below_def agree_below_def)

text \<open>The variables \<open>D\<close> have the same values in the tree and in the memory of the compiled program.\<close>

definition same_vars :: "(nat \<Rightarrow> string) \<Rightarrow> (string \<Rightarrow> nat option) \<Rightarrow> nat list \<Rightarrow> pst \<Rightarrow> ir_store \<Rightarrow> bool" where
  "same_vars nm NV D s M \<longleftrightarrow>
     (\<forall>d \<in> set D. \<exists>v a. vals s d = Some v \<and> in_int v \<and> NV (nm d) = Some a \<and> M a = Some (i32 v))"

lemma same_vars_cong: "vals s' = vals s \<Longrightarrow> same_vars nm NV D s' M = same_vars nm NV D s M"
  by (simp add: same_vars_def)

lemma same_vars_mono: "same_vars nm NV D s M \<Longrightarrow> set D' \<subseteq> set D \<Longrightarrow> same_vars nm NV D' s M"
  by (auto simp: same_vars_def)

lemma same_vars_in_int: "same_vars nm NV D s M \<Longrightarrow> set (vars n) \<subseteq> set D \<Longrightarrow>
    \<forall>d \<in> set (vars n). \<forall>v. vals s d = Some v \<longrightarrow> in_int v"
  unfolding same_vars_def by fastforce

lemma same_vars_assign:
  assumes "same_vars nm NV D s M" "in_int v" "NV (nm d) = Some a" "\<forall>d' \<in> set D. nm d' = nm d \<longrightarrow> d' = d"
    and "inj_on NV (dom NV)"
  shows "same_vars nm NV (d # D) (s\<lparr>vals := (vals s)(d \<mapsto> v)\<rparr>) (M(a \<mapsto> i32 v))"
proof -
  have "\<exists>v' b. ((vals s)(d \<mapsto> v)) e = Some v' \<and> in_int v' \<and> NV (nm e) = Some b \<and> (M(a \<mapsto> i32 v)) b = Some (i32 v')"
    if "e \<in> set (d # D)" for e
  proof (cases "e = d")
    case False
    then have "e \<in> set D" using that by simp
    then obtain v' b where "vals s e = Some v'" "in_int v'" "NV (nm e) = Some b" "M b = Some (i32 v')"
      using assms(1) unfolding same_vars_def by meson
    moreover have "nm e \<noteq> nm d" using that assms(4) False by auto
    then have "b \<noteq> a" using assms(3,5) calculation(3) by (metis domIff inj_on_contraD option.distinct(1))
    ultimately show ?thesis using False by simp
  qed (use assms(2,3) in simp)
  then show ?thesis by (simp add: same_vars_def)
qed

abbreviation streams :: "pst \<Rightarrow> io" where
  "streams s \<equiv> (stdin s, stdout s)"

lemma pcl_scan_ok:
  "stdin (snd (read_int s)) \<noteq> None \<Longrightarrow> pcl_scan (streams s) = (Inr (fst (read_int s)), streams (snd (read_int s)))"
  by (auto simp: pcl_scan_def read_int_def INT_MAX_def split: option.splits if_splits)

lemma pcl_scan_fails:
  "stdin (snd (read_int s)) = None \<Longrightarrow> pcl_scan (streams s) = (Inl (Exited 1), (None, stdout s))"
  by (auto simp: pcl_scan_def read_int_def INT_MAX_def split: option.splits if_splits)

lemma binop_doc_correct:
  assumes "in_int x" "in_int y" "bin_val op x y = Inr z"
  shows "op = Plus \<Longrightarrow> binop_doc OpAdd (i32 x) (i32 y) = Some (i32 z)"
    and "op = Minus \<Longrightarrow> binop_doc OpSub (i32 x) (i32 y) = Some (i32 z)"
    and "op = Mul \<Longrightarrow> binop_doc OpMul (i32 x) (i32 y) = Some (i32 z)"
    and "op = Div \<Longrightarrow> binop_doc OpSDiv (i32 x) (i32 y) = Some (i32 z)"
    and "op = Mod \<Longrightarrow> binop_doc OpSRem (i32 x) (i32 y) = Some (i32 z)"
proof -
  note xy = sint_in_int [OF assms(1)] sint_in_int [OF assms(2)]
  note z = assms(3) [unfolded bin_val_def int_res_def c_div_def c_mod_def]
  show "op = Plus \<Longrightarrow> binop_doc OpAdd (i32 x) (i32 y) = Some (i32 z)"
    using z by (auto simp: binop_doc_def i32_def split: if_split_asm)
  show "op = Minus \<Longrightarrow> binop_doc OpSub (i32 x) (i32 y) = Some (i32 z)"
    using z by (auto simp: binop_doc_def i32_def split: if_split_asm)
  show "op = Mul \<Longrightarrow> binop_doc OpMul (i32 x) (i32 y) = Some (i32 z)"
    using z by (auto simp: binop_doc_def i32_def split: if_split_asm)
  show "op = Div \<Longrightarrow> binop_doc OpSDiv (i32 x) (i32 y) = Some (i32 z)"
    using z by (auto simp: binop_doc_def i32_def xy split: if_split_asm)
  show "op = Mod \<Longrightarrow> binop_doc OpSRem (i32 x) (i32 y) = Some (i32 z)"
    using z by (auto simp: binop_doc_def i32_def xy split: if_split_asm)
qed

lemma word_of_int_eq: "in_int x \<Longrightarrow> in_int y \<Longrightarrow> (word_of_int x :: 32 word) = word_of_int y \<longleftrightarrow> x = y"
  using sint_in_int by metis

lemma icmp_doc_correct:
  assumes "in_int x" "in_int y"
  shows "icmp_doc SGT (word_of_int x) (word_of_int y) \<longleftrightarrow> x > y"
    and "icmp_doc SLT (word_of_int x) (word_of_int y) \<longleftrightarrow> x < y"
    and "icmp_doc SGE (word_of_int x) (word_of_int y) \<longleftrightarrow> x \<ge> y"
    and "icmp_doc SLE (word_of_int x) (word_of_int y) \<longleftrightarrow> x \<le> y"
    and "icmp_doc EQ (word_of_int x) (word_of_int y) \<longleftrightarrow> x = y"
    and "icmp_doc NE (word_of_int x) (word_of_int y) \<longleftrightarrow> x \<noteq> y"
  using word_of_int_eq [OF assms] sint_in_int [OF assms(1)] sint_in_int [OF assms(2)]
  by (simp_all add: icmp_doc_def)


section \<open>Simulation of expressions and conditions\<close>

lemma same_vars_reads: "same_vars nm (NamedValues G) D s M \<Longrightarrow> set (vars n) \<subseteq> set D \<Longrightarrow> reads_ok nm n G"
  unfolding same_vars_def reads_ok_def by fastforce

lemma code_of_keeps: "code_of nm n G v G' \<Longrightarrow> NamedValues G' = NamedValues G \<and> next_value G \<le> next_value G'"
  by (auto simp: code_of_def appends_def grows_def)

lemma code_of_within: "code_of nm n G v G' \<Longrightarrow> within F G' \<Longrightarrow> within F G"
  using within_grows appends_grows unfolding code_of_def by blast

lemma within_ins: "gok G \<Longrightarrow> within F (ins f G) \<Longrightarrow> within F G"
  using within_grows appends_grows appends_ins by blast

lemma code_of_binaryE:
  assumes "code_of nm (Operand (Some l) op (Some r)) G v G'"
    "typed_expr (Operand (Some l) op (Some r)) \<or> typed_cond (Operand (Some l) op (Some r))"
    "gok G" "reads_ok nm (Operand (Some l) op (Some r)) G"
  obtains x H y K where "code_of nm l G x H" "code_of nm r H y K" "v = Result (next_value K)" "G' = ins (op_call op x y) K"
proof -
  obtain x H where l: "code_of nm l G x H"
    using code_exists [OF typed_binary(2) [OF assms(2)] assms(3), of nm] assms(4) by auto
  obtain y K where r: "code_of nm r H y K"
    using code_exists [OF typed_binary(3) [OF assms(2)] code_of_gok [OF l], of nm] assms(4) code_of_reads [OF l] by auto
  have "code_of nm (Operand (Some l) op (Some r)) G (Result (next_value K)) (ins (op_call op x y) K)"
    by (rule code_of_binary [OF typed_binary(1) [OF assms(2)] l r])
  then show ?thesis using that [OF l r] assms(1) by (simp add: code_of_def)
qed

lemma code_of_Not:
  assumes "code_of nm r G u K"
  shows "code_of nm (Operand None Not (Some r)) G (Result (next_value K)) (ins (\<lambda>k. CreateNot k u) K)"
  using assms code_of_gok [OF assms] appends_trans appends_ins [OF code_of_gok [OF assms]]
  by (fastforce simp: code_of_def AddOperation_def non_null_def insert_call_ok value_below_def)

definition has_type :: "node \<Rightarrow> ir_val \<Rightarrow> bool" where
  "has_type n w \<longleftrightarrow> typed_expr n \<and> (\<exists>x. w = I32 x) \<or> typed_cond n \<and> (\<exists>b. w = I1 b)"

lemma not_both_typed: "typed_expr n \<Longrightarrow> \<not> typed_cond n"
  by (cases n rule: typed_expr.cases) (auto simp: is_rel_def)

context llvm_function
begin

lemma exec_op_int:
  assumes "exec F code (R(r \<mapsto> i32 z)) M st q" "bin_val op x y = Inr z" "in_int x" "in_int y"
    "value_of R u = Some (i32 x)" "value_of R v = Some (i32 y)" "op \<in> {Plus, Minus, Mul, Div, Mod}"
  shows "exec F (op_call op u v r # code) R M st q"
  using assms(7) binop_doc_correct [OF assms(3,4,2)] binop [OF assms(5,6) _ assms(1)]
  by (auto simp: op_call_def)

lemma exec_op_rel:
  assumes "exec F code (R(r \<mapsto> I1 (z \<noteq> 0))) M st q" "bin_val op x y = Inr z" "in_int x" "in_int y"
    "value_of R u = Some (i32 x)" "value_of R v = Some (i32 y)" "is_rel op"
  shows "exec F (op_call op u v r # code) R M st q"
proof -
  have E: "exec F (CreateICmp r cmp u v # code) R M st q" if "icmp_doc cmp (word_of_int x) (word_of_int y) = (z \<noteq> 0)" for cmp
    using icmp [OF assms(5,6) [unfolded i32_def]] assms(1) that by simp
  show ?thesis using assms(2,7) icmp_doc_correct [OF assms(3,4)]
    by (cases op) (auto simp: is_rel_def op_call_def bin_val_def bool_int_def intro!: E)
qed

lemma expr_sim:
  assumes "typed_expr n" "code_of nm n G v G'" "gok G" "within F G'"
    "calc k left_first n s = Some (Inr x, s')" "stdin s' \<noteq> None"
    "same_vars nm (NamedValues G) D s M" "set (vars n) \<subseteq> set D"
    "\<And>R'. agree_below (next_value G) R R' \<Longrightarrow> value_of R' v = Some (i32 x) \<Longrightarrow> exec F (rest F G') R' M (streams s') q"
  shows "exec F (rest F G) R M (streams s) q"
  using assms
proof (induction n arbitrary: k s s' x G G' v R rule: typed_expr.induct)
  case (1 n)
  then show ?case
    by (cases k) (auto simp: calc_node code_of_def value_of_def i32_def agree_below_refl)
next
  case (2 d)
  then obtain k' w a where c: "k = Suc k'" "vals s d = Some w" "NamedValues G (nm d) = Some a" "M a = Some (i32 w)"
    by (cases k) (auto simp: same_vars_def)
  have G': "G' = ins (\<lambda>r. CreateLoad r a) G" "v = Result (next_value G)"
    using 2(2,3) c(3) by (auto simp: code_of_def AddDeclRead_def insert_call_ok)
  have s': "s' = s" "x = w" using 2(5) c by (auto simp: calc_node)
  have "exec F (rest F G') (R(next_value G := M a)) M (streams s) q"
    unfolding s'(1) [symmetric] by (rule 2(9) [OF agree_below_upd [OF order.refl]]) (simp only: G'(2) c(4) s' value_of_upd)
  from load [OF this] show ?case using rest_ins [OF 2(3)] 2(4) G' by simp
next
  case (3 l op r)
  let ?n = "Operand (Some l) op (Some r)"
  obtain k' where k: "k = Suc k'" using calc_0 [OF 3(7)] by blast
  have op: "is_bin op \<or> op = Div \<and> pure r" using 3(3) by (auto simp: is_bin_def)
  obtain xl s1 xr where e: "calc k' left_first l s = Some (Inr xl, s1)" "calc k' left_first r s1 = Some (Inr xr, s')"
    "bin_val op xl xr = Inr x" using calc_binary [OF op] 3(7) unfolding k by metis
  have D: "set (vars l) \<subseteq> set D" "set (vars r) \<subseteq> set D" using 3(10) by auto
  have t: "typed_expr l" "typed_expr r" and ops: "op \<in> {Plus, Minus, Mul, Div, Mod}" using 3(3) by auto
  have reads: "reads_ok nm ?n G" by (rule same_vars_reads [OF 3(9,10)])
  obtain u H w K where c: "code_of nm l G u H" "code_of nm r H w K" "v = Result (next_value K)" "G' = ins (op_call op u w) K"
    using code_of_binaryE [OF 3(4) _ 3(5) reads] 3(3) by blast
  have g: "gok H" "gok K" using c(1,2) code_of_gok by auto
  have W: "within F K" "within F H" using within_ins [OF g(2)] 3(6) c(4) code_of_within [OF c(2)] by auto
  have le: "next_value G \<le> next_value H" "next_value H \<le> next_value K" "NamedValues H = NamedValues G"
    using c(1,2) code_of_keeps by auto
  have v: "in_int xl" "vals s1 = vals s" using expr_calc [OF t(1) e(1)] same_vars_in_int [OF 3(9) D(1)] by auto
  have sv: "same_vars nm (NamedValues H) D s1 M" using 3(9) v(2) le(3) same_vars_cong by metis
  have xr: "in_int xr" using expr_calc [OF t(2) e(2)] same_vars_in_int [OF sv D(2)] by auto
  have s1: "stdin s1 \<noteq> None" using calc_stdin_None [OF e(2)] 3(8) by auto
  show ?case
  proof (rule 3(1) [OF t(1) c(1) 3(5) W(2) e(1) s1 3(9) D(1)])
    fix R1 assume R1: "agree_below (next_value G) R R1" "value_of R1 u = Some (i32 xl)"
    show "exec F (rest F H) R1 M (streams s1) q"
    proof (rule 3(2) [OF t(2) c(2) g(1) W(1) e(2) 3(8) sv D(2)])
      fix R2 assume R2: "agree_below (next_value H) R1 R2" "value_of R2 w = Some (i32 xr)"
      have "value_of R2 u = Some (i32 xl)"
        using value_of_agree [OF _ R2(1)] R1(2) c(1) by (simp add: code_of_def)
      moreover have "agree_below (next_value G) R (R2(next_value K \<mapsto> i32 x))"
        using R1(1) R2(1) le by (simp add: agree_below_def)
      then have "exec F (rest F G') (R2(next_value K \<mapsto> i32 x)) M (streams s') q"
        by (rule 3(11)) (simp only: c(3) value_of_upd)
      ultimately have "exec F (op_call op u w (next_value K) # rest F G') R2 M (streams s') q"
        using exec_op_int [OF _ e(3) v(1) xr _ R2(2) ops] by blast
      then show "exec F (rest F K) R2 M (streams s') q" using rest_ins [OF g(2)] 3(6) c(4) by simp
    qed
  qed
next
  case (4 op)
  then have op: "op = StdIn" by simp
  have G': "G' = ins CreateCallScan G" "v = Result (next_value G)"
    using 4(2) code_of_StdIn [OF 4(3), of nm] op by (auto simp: code_of_def)
  obtain k' where k: "k = Suc k'" using calc_0 [OF 4(5)] by blast
  have s': "s' = snd (read_int s)" "x = fst (read_int s)"
    using 4(5) unfolding k op by (auto simp: calc_node operand_calc_def split: prod.splits)
  have "exec F (rest F G') (R(next_value G \<mapsto> i32 x)) M (streams s') q"
    by (rule 4(9) [OF agree_below_upd [OF order.refl]]) (simp only: G'(2) value_of_upd)
  from scan [OF pcl_scan_ok, of s F "rest F G'"] this 4(6)
  show ?case using rest_ins [OF 4(3)] 4(4) G' s' by (simp add: i32_def)
qed auto

text \<open>Code that cannot go wrong runs to its end from every state that has values for its variables.\<close>

lemma exec_op_total:
  assumes "has_type l x" "has_type r y" "value_of R u = Some x" "value_of R v = Some y" "op \<notin> {Div, Mod}"
    "typed_expr (Operand (Some l) op (Some r)) \<or> typed_cond (Operand (Some l) op (Some r))"
    "\<And>w. has_type (Operand (Some l) op (Some r)) w \<Longrightarrow> exec F code (R(k \<mapsto> w)) M st q"
  shows "exec F (op_call op u v k # code) R M st q"
proof -
  let ?n = "Operand (Some l) op (Some r)"
  have B: "exec F (CreateBinOp k b u v # code) R M st q" if "binop_doc b x y = Some w" "has_type ?n w" for b w
    using binop [OF assms(3,4) that(1)] assms(7) [OF that(2)] by blast
  have C: "exec F (CreateICmp k c u v # code) R M st q" if "x = I32 x'" "y = I32 y'" "\<And>b. has_type ?n (I1 b)" for c x' y'
    using icmp [OF assms(3,4) [unfolded that(1,2)]] assms(7) [OF that(3)] by blast
  consider "typed_expr l" "typed_expr r" "op \<in> {Plus, Minus, Mul}" | "typed_expr l" "typed_expr r" "is_rel op"
    | "typed_cond l" "typed_cond r" "op = And \<or> op = Or" using assms(5,6) by (auto split: if_splits)
  then show ?thesis
  proof cases
    case 1
    then obtain x' y' where "x = I32 x'" "y = I32 y'" using assms(1,2) not_both_typed by (auto simp: has_type_def)
    then show ?thesis using 1 by (auto simp: op_call_def binop_doc_def has_type_def intro!: B)
  next
    case 2
    then obtain x' y' where "x = I32 x'" "y = I32 y'" using assms(1,2) not_both_typed by (auto simp: has_type_def)
    then show ?thesis using 2 by (auto simp: op_call_def is_rel_def has_type_def intro!: C)
  next
    case 3
    then obtain x' y' where "x = I1 x'" "y = I1 y'" using assms(1,2) not_both_typed by (auto simp: has_type_def)
    then show ?thesis using 3 assms(6) by (auto simp: op_call_def binop_doc_def has_type_def split: if_splits intro!: B)
  qed
qed

lemma total_sim:
  assumes "total n" "typed_expr n \<or> typed_cond n" "code_of nm n G v G'" "gok G" "within F G'"
    "same_vars nm (NamedValues G) D s M" "set (vars n) \<subseteq> set D"
    "\<And>R' w. agree_below (next_value G) R R' \<Longrightarrow> value_of R' v = Some w \<Longrightarrow> has_type n w \<Longrightarrow> exec F (rest F G') R' M st q"
  shows "exec F (rest F G) R M st q"
  using assms
proof (induction n arbitrary: G G' v R rule: vars.induct [case_names 1 2 3 val scope none empty loop cond])
  case (1 d)
  then obtain w a where c: "NamedValues G (nm d) = Some a" "M a = Some (i32 w)" by (auto simp: same_vars_def)
  have G': "G' = ins (\<lambda>r. CreateLoad r a) G" "v = Result (next_value G)"
    using 1(3,4) c(1) by (auto simp: code_of_def AddDeclRead_def insert_call_ok)
  have "exec F (rest F G') (R(next_value G := M a)) M st q"
    by (rule 1(8) [OF agree_below_upd [OF order.refl]]) (simp only: G'(2) c(2) value_of_upd, simp add: has_type_def i32_def)
  from load [OF this] show ?case using rest_ins [OF 1(4)] 1(5) G' by simp
next
  case (2 l op r)
  let ?n = "Operand (Some l) op (Some r)"
  have D: "set (vars l) \<subseteq> set D" "set (vars r) \<subseteq> set D" using 2(9) by auto
  have t: "total l" "total r" and op: "op \<notin> {Div, Mod}" using 2(3) by auto
  obtain u H w K where c: "code_of nm l G u H" "code_of nm r H w K" "v = Result (next_value K)" "G' = ins (op_call op u w) K"
    using code_of_binaryE [OF 2(5,4,6) same_vars_reads [OF 2(8,9)]] by blast
  have g: "gok H" "gok K" using c(1,2) code_of_gok by auto
  have W: "within F K" "within F H" using within_ins [OF g(2)] 2(7) c(4) code_of_within [OF c(2)] by auto
  have le: "next_value G \<le> next_value H" "next_value H \<le> next_value K" "NamedValues H = NamedValues G"
    using c(1,2) code_of_keeps by auto
  show ?case
  proof (rule 2(1) [OF t(1) typed_binary(2) [OF 2(4)] c(1) 2(6) W(2) 2(8) D(1)])
    fix R1 x assume R1: "agree_below (next_value G) R R1" "value_of R1 u = Some x" "has_type l x"
    show "exec F (rest F H) R1 M st q"
    proof (rule 2(2) [OF t(2) typed_binary(3) [OF 2(4)] c(2) g(1) W(1) 2(8) [folded le(3)] D(2)])
      fix R2 y assume R2: "agree_below (next_value H) R1 R2" "value_of R2 w = Some y" "has_type r y"
      have u: "value_of R2 u = Some x" using value_of_agree [OF _ R2(1)] R1(2) c(1) by (simp add: code_of_def)
      have "exec F (op_call op u w (next_value K) # rest F G') R2 M st q"
      proof (rule exec_op_total [OF R1(3) R2(3) u R2(2) op 2(4)])
        fix z assume z: "has_type ?n z"
        have "agree_below (next_value G) R (R2(next_value K \<mapsto> z))" using R1(1) R2(1) le by (simp add: agree_below_def)
        then show "exec F (rest F G') (R2(next_value K \<mapsto> z)) M st q"
          by (rule 2(10)) (simp only: c(3) value_of_upd, rule z)
      qed
      then show "exec F (rest F K) R2 M st q" using rest_ins [OF g(2)] 2(7) c(4) by simp
    qed
  qed
next
  case (3 op r)
  then have op: "op = Not" and t: "typed_cond r" "total r" by auto
  have r: "reads_ok nm r G" using same_vars_reads [OF 3(7,8)] by simp
  obtain u K where c: "code_of nm r G u K" using code_exists [of r, OF _ 3(5) r] t by blast
  have g: "gok K" by (rule code_of_gok [OF c])
  have G': "v = Result (next_value K)" "G' = ins (\<lambda>k. CreateNot k u) K" using code_of_Not [OF c] 3(4) op by (auto simp: code_of_def)
  show ?case
  proof (rule 3(1) [OF t(2) _ c 3(5) within_ins [OF g] 3(7)])
    fix R1 x assume R1: "agree_below (next_value G) R R1" "value_of R1 u = Some x" "has_type r x"
    have "exec F (rest F G') (R1(next_value K \<mapsto> not_doc x)) M st q"
    proof (rule 3(9))
      show "agree_below (next_value G) R (R1(next_value K \<mapsto> not_doc x))"
        using R1(1) code_of_keeps [OF c] by (simp add: agree_below_def)
      show "value_of (R1(next_value K \<mapsto> not_doc x)) v = Some (not_doc x)" by (simp only: G'(1) value_of_upd)
      show "has_type (Operand None op (Some r)) (not_doc x)"
        using R1(3) not_both_typed t op by (auto simp: has_type_def not_doc_def)
    qed
    from not_rule [OF R1(2) this] show "exec F (rest F K) R1 M st q" using rest_ins [OF g] 3(6) G' by simp
  qed (use 3(6,8) G' t in auto)
next
  case (val n)
  then show ?case by (auto simp: code_of_def value_of_def has_type_def agree_below_refl)
qed auto

end

lemma cond_rel_calc:
  assumes "is_rel op" "calc k left_first (Operand (Some l) op (Some r)) s = Some (Inr x, s')"
  obtains k' xl s1 xr where "k = Suc k'" "calc k' left_first l s = Some (Inr xl, s1)" "calc k' left_first r s1 = Some (Inr xr, s')"
    "bin_val op xl xr = Inr x"
proof -
  obtain k' where k: "k = Suc k'" using calc_0 [OF assms(2)] by blast
  have "is_bin op \<or> op = Div \<and> pure r" using assms(1) by (auto simp: is_bin_def is_rel_def)
  from calc_binary [OF this assms(2) [unfolded k]] that [OF k] show ?thesis by metis
qed

text \<open>A conjunction or disjunction: the left value, and the right one unless the left one decides.\<close>

lemma logic_calc:
  assumes "op = And \<or> op = Or" "calc k left_first (Operand (Some l) op (Some r)) s = Some (Inr x, s')"
  obtains k' xl s1 where "k = Suc k'" "calc k' left_first l s = Some (Inr xl, s1)" "(xl \<noteq> 0) = (op = Or)" "s' = s1" "(x \<noteq> 0) = (op = Or)"
    | k' xl s1 xr where "k = Suc k'" "calc k' left_first l s = Some (Inr xl, s1)" "(xl \<noteq> 0) = (op = And)"
        "calc k' left_first r s1 = Some (Inr xr, s')" "(x \<noteq> 0) = (xr \<noteq> 0)"
proof -
  obtain k' where k: "k = Suc k'" using calc_0 [OF assms(2)] by blast
  show ?thesis using assms that [OF k] unfolding k
    by (auto simp: calc_node operand_calc_def call_ptr_def bindP_Some_iff bool_int_def split: if_splits)
qed

lemma cond_calc_vals:
  assumes "typed_cond n" "calc k left_first n s = Some (Inr x, s')"
    and "\<forall>d \<in> set (vars n). \<forall>v. vals s d = Some v \<longrightarrow> in_int v"
  shows "vals s' = vals s"
  using assms
proof (induction n arbitrary: k s s' x rule: typed_cond.induct)
  case (1 l op r)
  show ?case
  proof (cases "op = And \<or> op = Or")
    case True
    then have t: "typed_cond l" "typed_cond r" using 1(3) by auto
    show ?thesis
    proof (cases rule: logic_calc [OF True 1(4), case_names stop go])
      case (stop k' xl s1)
      then show ?thesis using 1(1) [OF True t(1)] 1(5) by (simp add: ball_Un)
    next
      case (go k' xl s1 xr)
      have "vals s1 = vals s" using 1(1) [OF True t(1) go(2)] 1(5) by (simp add: ball_Un)
      then show ?thesis using 1(2) [OF True t(2) go(4)] 1(5) by (simp add: ball_Un)
    qed
  next
    case False
    then have t: "is_rel op" "typed_expr l" "typed_expr r" using 1(3) by auto
    obtain k' xl s1 xr where e: "calc k' left_first l s = Some (Inr xl, s1)" "calc k' left_first r s1 = Some (Inr xr, s')"
      using cond_rel_calc [OF t(1) 1(4)] by metis
    have "vals s1 = vals s" using expr_calc [OF t(2) e(1)] 1(5) by (simp add: ball_Un)
    then show ?thesis using expr_calc [OF t(3) e(2)] 1(5) by (simp add: ball_Un)
  qed
next
  case (2 op r)
  then show ?case by (cases k) (auto simp: calc_node operand_calc_def call_ptr_def bindP_Some_iff)
qed auto

context llvm_function
begin

lemma exec_op_logic:
  assumes "exec F code (R(k \<mapsto> I1 c)) M st q" "value_of R u = Some (I1 a)" "value_of R v = Some (I1 b)"
    "op = And \<or> op = Or" "c = (if op = And then a \<and> b else a \<or> b)"
  shows "exec F (op_call op u v k # code) R M st q"
  using assms(4) binop [OF assms(2,3) _ assms(1)] assms(5) by (auto simp: op_call_def binop_doc_def)

lemma cond_sim:
  assumes "typed_cond n" "code_of nm n G v G'" "gok G" "within F G'"
    "calc k left_first n s = Some (Inr x, s')" "stdin s' \<noteq> None"
    "same_vars nm (NamedValues G) D s M" "set (vars n) \<subseteq> set D"
    "\<And>R'. agree_below (next_value G) R R' \<Longrightarrow> value_of R' v = Some (I1 (x \<noteq> 0)) \<Longrightarrow> exec F (rest F G') R' M (streams s') q"
  shows "exec F (rest F G) R M (streams s) q"
  using assms
proof (induction n arbitrary: k s s' x G G' v R rule: typed_cond.induct)
  case (1 l op r)
  let ?n = "Operand (Some l) op (Some r)"
  have D: "set (vars l) \<subseteq> set D" "set (vars r) \<subseteq> set D" using 1(10) by auto
  have reads: "reads_ok nm ?n G" by (rule same_vars_reads [OF 1(9,10)])
  obtain u H w K where c: "code_of nm l G u H" "code_of nm r H w K" "v = Result (next_value K)" "G' = ins (op_call op u w) K"
    using code_of_binaryE [OF 1(4) _ 1(5) reads] 1(3) by blast
  have g: "gok H" "gok K" using c(1,2) code_of_gok by auto
  have W: "within F K" "within F H" using within_ins [OF g(2)] 1(6) c(4) code_of_within [OF c(2)] by auto
  have le: "next_value G \<le> next_value H" "next_value H \<le> next_value K" "NamedValues H = NamedValues G"
    using c(1,2) code_of_keeps by auto
  have sv: "same_vars nm (NamedValues H) D s1 M" if "vals s1 = vals s" for s1
    using 1(9) that le(3) same_vars_cong by metis
  have last: "exec F (rest F K) R2 M (streams s') q"
    if "agree_below (next_value G) R R1" "agree_below (next_value H) R1 R2"
      "exec F (rest F G') (R2(next_value K \<mapsto> I1 (x \<noteq> 0))) M (streams s') q \<Longrightarrow>
       exec F (op_call op u w (next_value K) # rest F G') R2 M (streams s') q" for R1 R2
  proof -
    have "agree_below (next_value G) R (R2(next_value K \<mapsto> I1 (x \<noteq> 0)))" using that(1,2) le by (simp add: agree_below_def)
    then have "exec F (rest F G') (R2(next_value K \<mapsto> I1 (x \<noteq> 0))) M (streams s') q"
      by (rule 1(11)) (simp only: c(3) value_of_upd)
    from that(3) [OF this] show ?thesis using rest_ins [OF g(2)] 1(6) c(4) by simp
  qed
  have keep: "value_of R2 u = value_of R1 u" if "agree_below (next_value H) R1 R2" for R1 R2
    using value_of_agree [OF _ that] c(1) by (simp add: code_of_def)
  show ?case
  proof (cases "op = And \<or> op = Or")
    case True
    then have t: "typed_cond l" "typed_cond r" "total r" using 1(3) by auto
    show ?thesis
    proof (cases rule: logic_calc [OF True 1(7), case_names stop go])
      case (stop k' xl s1)
      have s1: "vals s1 = vals s" using cond_calc_vals [OF t(1) stop(2) same_vars_in_int [OF 1(9) D(1)]] .
      show ?thesis
      proof (rule 1(1) [OF True t(1) c(1) 1(5) W(2) stop(2) _ 1(9) D(1)])
        fix R1 assume R1: "agree_below (next_value G) R R1" "value_of R1 u = Some (I1 (xl \<noteq> 0))"
        show "exec F (rest F H) R1 M (streams s1) q"
        proof (rule total_sim [OF t(3) _ c(2) g(1) W(1) sv [OF s1] D(2)])
          fix R2 y assume R2: "agree_below (next_value H) R1 R2" "value_of R2 w = Some y" "has_type r y"
          obtain p where p: "y = I1 p" using R2(3) t(2) not_both_typed by (auto simp: has_type_def)
          show "exec F (rest F K) R2 M (streams s1) q" unfolding stop(4) [symmetric]
            by (rule last [OF R1(1) R2(1)], rule exec_op_logic [OF _ _ R2(2) [unfolded p] True])
              (use keep [OF R2(1)] R1(2) stop(3,5) True in auto)
        qed (use t in simp)
      qed (use 1(8) stop(4) in simp)
    next
      case (go k' xl s1 xr)
      have s1: "vals s1 = vals s" using cond_calc_vals [OF t(1) go(2) same_vars_in_int [OF 1(9) D(1)]] .
      have ne: "stdin s1 \<noteq> None" using calc_stdin_None [OF go(4)] 1(8) by auto
      show ?thesis
      proof (rule 1(1) [OF True t(1) c(1) 1(5) W(2) go(2) ne 1(9) D(1)])
        fix R1 assume R1: "agree_below (next_value G) R R1" "value_of R1 u = Some (I1 (xl \<noteq> 0))"
        show "exec F (rest F H) R1 M (streams s1) q"
        proof (rule 1(2) [OF True t(2) c(2) g(1) W(1) go(4) 1(8) sv [OF s1] D(2)])
          fix R2 assume R2: "agree_below (next_value H) R1 R2" "value_of R2 w = Some (I1 (xr \<noteq> 0))"
          show "exec F (rest F K) R2 M (streams s') q"
            by (rule last [OF R1(1) R2(1)], rule exec_op_logic [OF _ _ R2(2) True])
              (use keep [OF R2(1)] R1(2) go(3,5) True in auto)
        qed
      qed
    qed
  next
    case False
    then have t: "is_rel op" "typed_expr l" "typed_expr r" using 1(3) by auto
    obtain k' xl s1 xr where e: "calc k' left_first l s = Some (Inr xl, s1)" "calc k' left_first r s1 = Some (Inr xr, s')"
      "bin_val op xl xr = Inr x" using cond_rel_calc [OF t(1) 1(7)] by metis
    have xl: "in_int xl" "vals s1 = vals s" using expr_calc [OF t(2) e(1) same_vars_in_int [OF 1(9) D(1)]] by auto
    have xr: "in_int xr" using expr_calc [OF t(3) e(2) same_vars_in_int [OF sv [OF xl(2)] D(2)]] by simp
    have ne: "stdin s1 \<noteq> None" using calc_stdin_None [OF e(2)] 1(8) by auto
    show ?thesis
    proof (rule expr_sim [OF t(2) c(1) 1(5) W(2) e(1) ne 1(9) D(1)])
      fix R1 assume R1: "agree_below (next_value G) R R1" "value_of R1 u = Some (i32 xl)"
      show "exec F (rest F H) R1 M (streams s1) q"
      proof (rule expr_sim [OF t(3) c(2) g(1) W(1) e(2) 1(8) sv [OF xl(2)] D(2)])
        fix R2 assume R2: "agree_below (next_value H) R1 R2" "value_of R2 w = Some (i32 xr)"
        show "exec F (rest F K) R2 M (streams s') q"
          by (rule last [OF R1(1) R2(1)], rule exec_op_rel [OF _ e(3) xl(1) xr _ R2(2) t(1)])
            (simp_all add: keep [OF R2(1)] R1(2))
      qed
    qed
  qed
next
  case (2 op r)
  then have op: "op = Not" and t: "typed_cond r" by auto
  have r: "reads_ok nm r G" using same_vars_reads [OF 2(8,9)] by simp
  obtain u K where c: "code_of nm r G u K" using code_exists [of r, OF _ 2(4) r] t by blast
  have g: "gok K" by (rule code_of_gok [OF c])
  have G': "v = Result (next_value K)" "G' = ins (\<lambda>k. CreateNot k u) K" using code_of_Not [OF c] 2(3) op by (auto simp: code_of_def)
  have W: "within F K" using within_ins [OF g] 2(5) G' by auto
  obtain k' y where e: "calc k' left_first r s = Some (Inr y, s')" "x = bool_int (y = 0)"
    using 2(6) op by (cases k) (auto simp: calc_node operand_calc_def call_ptr_def bindP_Some_iff)
  show ?case
  proof (rule 2(1) [OF t c 2(4) W e(1) 2(7,8)])
    fix R1 assume R1: "agree_below (next_value G) R R1" "value_of R1 u = Some (I1 (y \<noteq> 0))"
    have "exec F (rest F G') (R1(next_value K \<mapsto> not_doc (I1 (y \<noteq> 0)))) M (streams s') q"
    proof (rule 2(10))
      show "agree_below (next_value G) R (R1(next_value K \<mapsto> not_doc (I1 (y \<noteq> 0))))"
        using R1(1) code_of_keeps [OF c] by (simp add: agree_below_def)
      show "value_of (R1(next_value K \<mapsto> not_doc (I1 (y \<noteq> 0)))) v = Some (I1 (x \<noteq> 0))"
        unfolding G'(1) value_of_upd by (simp add: not_doc_def e(2) bool_int_def)
    qed
    from not_rule [OF R1(2) this] show "exec F (rest F K) R1 M (streams s') q" using rest_ins [OF g] 2(5) G' by simp
  qed (use 2(9) in simp)
qed auto

end


section \<open>Code for statements\<close>

definition open_blocks :: "CodeGen \<Rightarrow> CodeGen" where
  "open_blocks G = G\<lparr>Blocks := Blocks G @ [[], []]\<rparr>"

definition jump :: "(nat \<Rightarrow> ir_call) \<Rightarrow> nat \<Rightarrow> CodeGen \<Rightarrow> CodeGen" where
  "jump f b G = (ins f G)\<lparr>InsertPoint := b\<rparr>"

text \<open>After the conditional branch of an \<^verbatim>\<open>if\<close> or \<^verbatim>\<open>while\<close>.\<close>

definition branch :: "ir_value \<Rightarrow> CodeGen \<Rightarrow> CodeGen" where
  "branch v G =
     (let B = length (Blocks G) in jump (\<lambda>r. CreateCondBr r v B (Suc B)) B (open_blocks G))"

lemma gok_open [simp]: "gok G \<Longrightarrow> gok (open_blocks G)"
  by (simp add: gok_def open_blocks_def)

lemma StartIf_code: "gok G \<Longrightarrow> StartIf (Some v) G = Inr (Suc (length (Blocks G)), branch v G)"
  using insert_call_ok [OF gok_open, of G]
  by (simp add: StartIf_def non_null_def branch_def jump_def Let_def open_blocks_def [symmetric])

lemma StartWhile_code:
  "gok G \<Longrightarrow> StartWhile (Some v) G = Inr ((length (Blocks G), Suc (length (Blocks G))), branch v G)"
  using insert_call_ok [OF gok_open, of G]
  by (simp add: StartWhile_def non_null_def branch_def jump_def Let_def open_blocks_def [symmetric])

lemma EndIf_code: "gok G \<Longrightarrow> EndIf b G = Inr (jump (\<lambda>r. CreateBr r b) b G)"
  by (simp add: EndIf_def insert_call_ok jump_def)

lemma EndWhile_code: "gok G \<Longrightarrow> EndWhile (Some v) (a, b) G = Inr (jump (\<lambda>r. CreateCondBr r v a b) b G)"
  by (simp add: EndWhile_def non_null_def insert_call_ok jump_def)

lemma branch_props:
  assumes "gok G"
  shows "grows G (branch v G)" "InsertPoint (branch v G) = length (Blocks G)"
    "length (Blocks (branch v G)) = Suc (Suc (length (Blocks G)))"
    "Blocks (branch v G) ! length (Blocks G) = []" "Blocks (branch v G) ! Suc (length (Blocks G)) = []"
  using assms
  by (auto simp: branch_def jump_def open_blocks_def ins_def gok_def grows_def Let_def nth_append nth_list_update)

text \<open>Leaving the blocks opened at \<open>G\<close> by a jump to the second of them.\<close>

lemma jump_grows:
  assumes "gok G" "grows (branch v G) H"
  shows "grows G (jump f (Suc (length (Blocks G))) H)" and "Blocks (jump f (Suc (length (Blocks G))) H) ! Suc (length (Blocks G)) = []"
    and "Suc (length (Blocks G)) < length (Blocks H)"
proof -
  let ?J = "jump f (Suc (length (Blocks G))) H"
  have H: "gok H" "InsertPoint H \<noteq> Suc (length (Blocks G))" and len: "Suc (length (Blocks G)) < length (Blocks H)"
    using assms(2) branch_props [OF assms(1), of v] by (auto simp: grows_def)
  have "Blocks H ! Suc (length (Blocks G)) = []"
    using assms(2) branch_props [OF assms(1), of v] unfolding grows_def by (metis lessI n_not_Suc_n)
  then show "Blocks ?J ! Suc (length (Blocks G)) = []" using H by (simp add: jump_def ins_def)
  show "Suc (length (Blocks G)) < length (Blocks H)" by (rule len)
  have g: "grows G (ins f H)"
    using grows_trans [OF grows_trans [OF branch_props(1) [OF assms(1)] assms(2)]] appends_grows [OF appends_ins [OF H(1)]] by blast
  then show "grows G ?J" using len by (auto simp: grows_def jump_def gok_def)
qed

lemma rest_branch:
  assumes "gok G" "within F (branch v G)"
  shows "\<exists>r code. rest F G = CreateCondBr r v (length (Blocks G)) (Suc (length (Blocks G))) # code"
    and "rest F (branch v G) = F ! length (Blocks G)" and "Suc (length (Blocks G)) < length F"
proof -
  have w: "within F (ins (\<lambda>r. CreateCondBr r v (length (Blocks G)) (Suc (length (Blocks G)))) (open_blocks G))"
    using assms(2) by (simp add: branch_def jump_def within_def Let_def)
  have "rest F G = rest F (open_blocks G)" using assms(1) by (simp add: rest_def open_blocks_def gok_def nth_append)
  then show "\<exists>r code. rest F G = CreateCondBr r v (length (Blocks G)) (Suc (length (Blocks G))) # code"
    using rest_ins [OF gok_open [OF assms(1)] w] by auto
  show "rest F (branch v G) = F ! length (Blocks G)"
    using branch_props [OF assms(1), of v] by (simp add: rest_def)
  show "Suc (length (Blocks G)) < length F"
    using assms(2) branch_props(3) [OF assms(1), of v] by (simp add: within_def)
qed

lemma within_jump: "within F (jump f b G) = within F (ins f G)"
  by (simp add: within_def jump_def)

lemma rest_jump: "Blocks (jump f b G) ! b = [] \<Longrightarrow> rest F (jump f b G) = F ! b"
  by (simp add: rest_def jump_def)

definition stm_ready :: "(nat \<Rightarrow> string) \<Rightarrow> (string \<Rightarrow> nat option) \<Rightarrow> nat list \<Rightarrow> bool" where
  "stm_ready nm NV ds \<longleftrightarrow> (\<forall>d \<in> set ds. NV (nm d) \<noteq> None)"

lemma stm_ready_append [simp]: "stm_ready nm NV (xs @ ys) = (stm_ready nm NV xs \<and> stm_ready nm NV ys)"
  by (auto simp: stm_ready_def)

lemma ready_reads: "stm_ready nm (NamedValues G) D \<Longrightarrow> set (vars n) \<subseteq> set D \<Longrightarrow> reads_ok nm n G"
  by (auto simp: stm_ready_def reads_ok_def)

lemma grows_ready: "grows G G' \<Longrightarrow> stm_ready nm (NamedValues G') ds = stm_ready nm (NamedValues G) ds"
  by (simp add: grows_def)

lemma code_of_grows: "code_of nm n G v G' \<Longrightarrow> grows G G'"
  by (simp add: code_of_def appends_grows)

lemma assign_code:
  assumes "NamedValues G (nm d) = Some a" "gok G" "code_of nm e (ins (\<lambda>r. CreateLoad r a) G) v H"
  shows "codegen nm (Operand (Some (DeclRef d)) Assign (Some e)) G =
    Inr (Some (Result (next_value H)), ins (\<lambda>r. CreateStore r v a) H)"
  using assms code_of_gok [OF assms(3)] code_of_keeps [OF assms(3)]
  by (simp add: AddDeclRead_def AddDeclWrite_def insert_call_ok code_of_def non_null_def)

lemma print_code:
  assumes "code_of nm e G v H"
  shows "codegen nm (Operand None StdOut (Some e)) G = Inr (Some (Result (next_value H)), ins (\<lambda>r. CreateCallPrint r v) H)"
proof -
  have "gok H" by (rule code_of_gok [OF assms])
  then show ?thesis using assms insert_call_ok [of H]
    by (simp add: code_of_def AddOperation_def non_null_def) (simp add: gok_def)
qed

lemma if_code:
  assumes "code_of nm c G v H" "codegen nm b (branch v H) = Inr (x, K)" "gok K"
  shows "codegen nm (IfN c b) G = Inr (None, jump (\<lambda>r. CreateBr r (Suc (length (Blocks H)))) (Suc (length (Blocks H))) K)"
  using assms code_of_gok [OF assms(1)] by (simp add: code_of_def StartIf_code EndIf_code)

lemma while_code:
  assumes "code_of nm c G v H" "codegen nm b (branch v H) = Inr (x, K)" "code_of nm c K w L"
  shows "codegen nm (While c b) G =
    Inr (None, jump (\<lambda>r. CreateCondBr r w (length (Blocks H)) (Suc (length (Blocks H)))) (Suc (length (Blocks H))) L)"
  using assms code_of_gok [OF assms(1)] code_of_gok [OF assms(3)] by (simp add: code_of_def StartWhile_code EndWhile_code)


text \<open>Code for a checked statement is generated, and no other block that was there is touched.\<close>

definition next_ready :: "nat list \<Rightarrow> node \<Rightarrow> bool" where
  "next_ready D n \<longleftrightarrow> set (assigned D n) \<subseteq> set (D @ targets n)"

lemma assigned_ready: "next_ready D n"
  by (cases "(D, n)" rule: assigned.cases) (auto simp: next_ready_def)

lemma checked_assignE:
  assumes "checked nm D (Operand (Some l) op r)"
  obtains d e where "l = DeclRef d" "r = Some e" "op = Assign" "typed_expr e" "set (vars e) \<subseteq> set D"
    "\<forall>d' \<in> set D. nm d' = nm d \<longrightarrow> d' = d"
  using assms by (cases l; cases r) auto

lemma checked_printE:
  assumes "checked nm D (Operand None op r)"
  obtains e where "r = Some e" "op = StdOut" "typed_expr e" "set (vars e) \<subseteq> set D"
  using assms by (cases r) auto

lemma stm_code_both:
  "checked nm D n \<Longrightarrow> gok G \<Longrightarrow> stm_ready nm (NamedValues G) (D @ targets n) \<Longrightarrow>
     \<exists>v G'. codegen nm n G = Inr (v, G') \<and> grows G G'"
  "checked_all nm D ns \<Longrightarrow> gok G \<Longrightarrow> stm_ready nm (NamedValues G) (D @ targets_all ns) \<Longrightarrow>
     \<exists>G'. codegen_all nm ns G = Inr G' \<and> grows G G'"
proof (induction n and ns arbitrary: D G and D G rule: targets_targets_all.induct)
  case (1 l op r)
  show ?case
  proof (cases l)
    case None
    with 1 obtain e where e: "r = Some e" "op = StdOut" "typed_expr e" "set (vars e) \<subseteq> set D" using checked_printE by blast
    have "reads_ok nm e G" using ready_reads [of nm G D e] 1(3) e by auto
    then obtain v H where c: "code_of nm e G v H" using code_exists [of e G nm] 1(2) e(3) by auto
    have "grows G (ins (\<lambda>r. CreateCallPrint r v) H)"
      using code_of_grows [OF c] appends_grows [OF appends_ins [OF code_of_gok [OF c]]] grows_trans by blast
    then show ?thesis using print_code [OF c] None e by auto
  next
    case (Some l')
    with 1 obtain d e where e: "l' = DeclRef d" "r = Some e" "op = Assign" "typed_expr e" "set (vars e) \<subseteq> set D"
      using checked_assignE by blast
    obtain a where a: "NamedValues G (nm d) = Some a" using 1(3) Some e by (auto simp: stm_ready_def)
    let ?G = "ins (\<lambda>r. CreateLoad r a) G"
    have "reads_ok nm e ?G" using ready_reads [of nm G D e] 1(3) e by (simp add: reads_ok_def)
    then obtain v H where c: "code_of nm e ?G v H" using code_exists [of e ?G nm] 1(2) e(4) by auto
    have "grows G (ins (\<lambda>r. CreateStore r v a) H)"
      using code_of_grows [OF c] appends_grows [OF appends_ins [OF code_of_gok [OF c]]] appends_grows [OF appends_ins [OF 1(2)]]
        grows_trans by blast
    then show ?thesis using assign_code [OF a 1(2) c] Some e by auto
  qed
next
  case (2 i bs)
  then show ?case by (fastforce simp del: stm_ready_append)
next
  case (3 c b)
  then have k: "typed_cond c" "set (vars c) \<subseteq> set D" "checked nm D b" by auto
  have rd: "stm_ready nm (NamedValues G) D" "stm_ready nm (NamedValues G) (targets b)" using 3(4) by auto
  obtain v H where c: "code_of nm c G v H" using code_exists [of c G nm] 3(3) k ready_reads [OF rd(1)] by blast
  have gH: "gok H" and GH: "grows G H" using code_of_gok [OF c] code_of_grows [OF c] by auto
  have gB: "gok (branch v H)" and HB: "grows H (branch v H)" using grows_gok branch_props(1) [OF gH] by auto
  have GB: "grows G (branch v H)" by (rule grows_trans [OF GH HB])
  obtain x K where b: "codegen nm b (branch v H) = Inr (x, K)" "grows (branch v H) K"
    using 3(1) [OF k(3) gB] rd grows_ready [OF GB] by auto
  have GK: "grows G K" by (rule grows_trans [OF GB b(2)])
  have "reads_ok nm c K" using ready_reads [OF rd(1) k(2)] GK by (simp add: reads_ok_def grows_def)
  then obtain w L where c2: "code_of nm c K w L" using code_exists [of c K nm] k grows_gok [OF GK] by blast
  have BL: "grows (branch v H) L" by (rule grows_trans [OF b(2) code_of_grows [OF c2]])
  show ?case using while_code [OF c b(1) c2] grows_trans [OF GH jump_grows(1) [OF gH BL]] by blast
next
  case (4 c b)
  then have k: "typed_cond c" "set (vars c) \<subseteq> set D" "checked nm D b" by auto
  have rd: "stm_ready nm (NamedValues G) D" "stm_ready nm (NamedValues G) (targets b)" using 4(4) by auto
  obtain v H where c: "code_of nm c G v H" using code_exists [of c G nm] 4(3) k ready_reads [OF rd(1)] by blast
  have gH: "gok H" and GH: "grows G H" using code_of_gok [OF c] code_of_grows [OF c] by auto
  have gB: "gok (branch v H)" and HB: "grows H (branch v H)" using grows_gok branch_props(1) [OF gH] by auto
  have GB: "grows G (branch v H)" by (rule grows_trans [OF GH HB])
  obtain x K where b: "codegen nm b (branch v H) = Inr (x, K)" "grows (branch v H) K"
    using 4(1) [OF k(3) gB] rd grows_ready [OF GB] by auto
  show ?case using if_code [OF c b(1) grows_gok [OF b(2)]] grows_trans [OF GH jump_grows(1) [OF gH b(2)]] by blast
next
  case (6 D G)
  then show ?case by (simp add: grows_refl)
next
  case (7 n ns)
  obtain v H where n: "codegen nm n G = Inr (v, H)" "grows G H" using 7(1) [of D G] 7(3-5) by auto
  have "stm_ready nm (NamedValues H) (assigned D n @ targets_all ns)"
    unfolding grows_ready [OF n(2)] using assigned_ready [of D n] 7(5) by (auto simp: next_ready_def stm_ready_def)
  then obtain G' where "codegen_all nm ns H = Inr G'" "grows H G'" using 7(2) [OF _ grows_gok [OF n(2)]] 7(3) by auto
  then show ?case using n grows_trans by auto
qed auto


section \<open>Simulation of statements\<close>

lemma same_vars_ready: "same_vars nm NV D s M \<Longrightarrow> stm_ready nm NV D"
  by (fastforce simp: same_vars_def stm_ready_def)

lemma assigned_super: "set D \<subseteq> set (assigned D n)"
  by (cases "(D, n)" rule: assigned.cases) auto

lemma calc_while:
  assumes "calc k ord (While c b) s = Some (Inr x, s')"
  obtains k' v s1 where "k = Suc k'" "calc k' ord c s = Some (Inr v, s1)" "v = 0" "s' = s1"
    | k' v s1 y s2 where "k = Suc k'" "calc k' ord c s = Some (Inr v, s1)" "v \<noteq> 0"
        "calc k' ord b s1 = Some (Inr y, s2)" "calc k' ord (While c b) s2 = Some (Inr x, s')"
proof -
  obtain k' where k: "k = Suc k'" using calc_0 [OF assms] by blast
  show ?thesis using assms that [OF k] unfolding k by (auto simp: calc_node bindP_Some_iff split: if_splits)
qed

lemma calc_if:
  assumes "calc k ord (IfN c b) s = Some (Inr x, s')"
  obtains k' v where "k = Suc k'" "calc k' ord c s = Some (Inr v, s')" "v = 0"
    | k' v s1 y where "k = Suc k'" "calc k' ord c s = Some (Inr v, s1)" "v \<noteq> 0" "calc k' ord b s1 = Some (Inr y, s')"
proof -
  obtain k' where k: "k = Suc k'" using calc_0 [OF assms] by blast
  show ?thesis using assms that [OF k] unfolding k by (auto simp: calc_node bindP_Some_iff split: if_splits)
qed

context llvm_function
begin

text \<open>
  A loop, from code for its condition that is followed by the branch. The body is known to be simulated; the
  condition is generated a second time at its end.
\<close>

lemma loop_sim:
  assumes body: "\<And>m y t t' R M. m < k \<Longrightarrow> calc m left_first b t = Some (Inr y, t') \<Longrightarrow> stdin t' \<noteq> None \<Longrightarrow> same_vars nm NV D t M \<Longrightarrow>
      (\<And>R' M'. same_vars nm NV D t' M' \<Longrightarrow> exec F (rest F K) R' M' (streams t') q) \<Longrightarrow> exec F (F ! B) R M (streams t) q"
    and tail: "code_of nm c K w L" "gok K" "within F L" "NamedValues K = NV" "rest F L = CreateCondBr e w B (Suc B) # ys"
    and c: "typed_cond c" "set (vars c) \<subseteq> set D" "Suc B < length F"
    and exit: "\<And>R' M'. same_vars nm NV D s' M' \<Longrightarrow> exec F (F ! Suc B) R' M' (streams s') q" "stdin s' \<noteq> None"
    and head: "code_of nm c G v H" "gok G" "within F H" "NamedValues G = NV" "rest F H = CreateCondBr r v B (Suc B) # zs"
    and run: "calc m left_first (While c b) s = Some (Inr x, s')" "m \<le> k" "same_vars nm NV D s M"
  shows "exec F (rest F G) R M (streams s) q"
  using head run
proof (induction m arbitrary: s x R M G H v r zs)
  case (Suc m)
  have sv: "same_vars nm NV D s1 M" if "calc k' left_first c s = Some (Inr u, s1)" for k' u s1
    using same_vars_cong [OF cond_calc_vals [OF c(1) that same_vars_in_int [OF Suc(9) c(2)]]] Suc(9) by metis
  have step: "exec F (rest F G) R M (streams s) q"
    if e: "calc k' left_first c s = Some (Inr u, s1)" "stdin s1 \<noteq> None"
      and cont: "\<And>R'. exec F (F ! (if u \<noteq> 0 then B else Suc B)) R' M (streams s1) q" for k' u s1
  proof (rule cond_sim [OF c(1) Suc(2,3,4) e Suc(9) [folded Suc(5)] c(2)])
    fix R' assume "value_of R' v = Some (I1 (u \<noteq> 0))"
    from condbr [OF this _ c(3) cont] show "exec F (rest F H) R' M (streams s1) q" using c(3) Suc(6) by simp
  qed
  show ?case
  proof (cases rule: calc_while [OF Suc(7), case_names stop go])
    case (stop k' u s1)
    show ?thesis by (rule step [OF stop(2)]) (use stop exit sv [OF stop(2)] in auto)
  next
    case (go k' u s1 y s2)
    have ne: "stdin s2 \<noteq> None" using calc_stdin_None [OF go(5)] exit(2) by auto
    have ne1: "stdin s1 \<noteq> None" using calc_stdin_None [OF go(4)] ne by auto
    have "exec F (F ! B) R' M (streams s1) q" for R'
    proof (rule body [OF _ go(4) ne sv [OF go(2)]])
      show "k' < k" using go(1) Suc(8) by simp
      fix R1 M1 assume "same_vars nm NV D s2 M1"
      then show "exec F (rest F K) R1 M1 (streams s2) q"
        using Suc(1) [OF tail go(5) [folded go(1) [THEN Suc_inject]]] Suc(8) by simp
    qed
    then show ?thesis using step [OF go(2) ne1] go(3) by simp
  qed
qed simp

end

lemma stdin_run_branches:
  "run_branches (calc k ord) bs s = Some (r, s') \<Longrightarrow> stdin s = None \<Longrightarrow> stdin s' = None"
  by (induction bs arbitrary: s) (auto simp: bindP_def dest!: calc_stdin_None split: option.splits sum.splits prod.splits)

lemma codegen_all_within: "codegen_all nm (n # ns) G = Inr G' \<Longrightarrow> checked_all nm D (n # ns) \<Longrightarrow> gok G \<Longrightarrow>
    stm_ready nm (NamedValues G) (D @ targets_all (n # ns)) \<Longrightarrow>
    \<exists>v H. codegen nm n G = Inr (v, H) \<and> grows G H \<and> codegen_all nm ns H = Inr G' \<and> grows H G' \<and>
      stm_ready nm (NamedValues H) (assigned D n @ targets_all ns)"
  (is "?c \<Longrightarrow> ?k \<Longrightarrow> ?g \<Longrightarrow> ?r \<Longrightarrow> ?concl")
proof -
  assume *: ?c ?k ?g ?r
  then obtain v H where n: "codegen nm n G = Inr (v, H)" "grows G H" using stm_code_both(1) [of nm D n G] by auto
  have r: "stm_ready nm (NamedValues H) (assigned D n @ targets_all ns)"
    unfolding grows_ready [OF n(2)] using assigned_ready [of D n] *(4) by (auto simp: next_ready_def stm_ready_def)
  then obtain G'' where "codegen_all nm ns H = Inr G''" "grows H G''"
    using stm_code_both(2) [of nm "assigned D n" ns H] *(2) grows_gok [OF n(2)] by auto
  then show ?concl using n r *(1) by auto
qed

context llvm_function
begin

lemma stm_sim:
  assumes "checked nm D n" "codegen nm n G = Inr (v, G')" "gok G" "within F G'" "inj_on (NamedValues G) (dom (NamedValues G))"
    "stm_ready nm (NamedValues G) (targets n)" "calc k left_first n s = Some (Inr x, s')" "stdin s' \<noteq> None"
    "same_vars nm (NamedValues G) D s M"
    "\<And>R' M'. same_vars nm (NamedValues G) (assigned D n) s' M' \<Longrightarrow> exec F (rest F G') R' M' (streams s') q"
  shows "exec F (rest F G) R M (streams s) q"
  using assms
proof (induction k arbitrary: n D G G' v s x s' R M rule: less_induct)
  case (less k)
  let ?NV = "NamedValues G"
  obtain k' where k: "k = Suc k'" using calc_0 [OF less(8)] by blast
  have ready: "stm_ready nm ?NV (D @ targets n)" using same_vars_ready [OF less(10)] less(7) by simp
  show ?case
  proof (cases n)
    case (Val w)
    then show ?thesis using less(2) by simp
  next
    case (DeclRef d)
    then show ?thesis using less(2) by simp
  next
    case (Scope i bs)
    have "exec F (rest F H) R M (streams t) q"
      if "checked_all nm E ns" "codegen_all nm ns H = Inr G'" "gok H" "NamedValues H = ?NV" "stm_ready nm ?NV (targets_all ns)"
        "run_branches (calc k' left_first) ns t = Some (Inr x, s')" "same_vars nm ?NV E t M" "set D \<subseteq> set E" for ns E H t R M
      using that
    proof (induction ns arbitrary: E H t R M)
      case Nil
      then show ?case using less(11) Scope same_vars_mono by auto
    next
      case (Cons m ns)
      have rd: "stm_ready nm (NamedValues H) (E @ targets_all (m # ns))"
        using same_vars_ready [OF Cons(8)] Cons(5,6) by simp
      obtain w K where c: "codegen nm m H = Inr (w, K)" "grows H K" "codegen_all nm ns K = Inr G'" "grows K G'"
        "stm_ready nm (NamedValues K) (assigned E m @ targets_all ns)"
        using codegen_all_within [OF Cons(3,2,4) rd] by auto
      have NV: "NamedValues K = ?NV" using c(2) Cons(5) by (simp add: grows_def)
      obtain y t1 where e: "calc k' left_first m t = Some (Inr y, t1)" "run_branches (calc k' left_first) ns t1 = Some (Inr x, s')"
        using Cons(7) by (auto simp: bindP_Some_iff)
      show ?case
      proof (rule less(1) [of k' E m H w K t y t1 M R, OF _ _ c(1) Cons(4) within_grows [OF less(5) c(4)] _ _ e(1)])
        show "stdin t1 \<noteq> None" using stdin_run_branches [OF e(2)] less(9) by auto
        fix R1 M1 assume sv: "same_vars nm (NamedValues H) (assigned E m) t1 M1"
        show "exec F (rest F K) R1 M1 (streams t1) q"
          using Cons(1) [of "assigned E m" K t1 M1 R1] Cons(2,5,9) c NV e(2) sv grows_gok [OF c(2)] assigned_super [of E m]
          by auto
      qed (use Cons k less(6) in auto)
    qed
    moreover have "codegen_all nm bs G = Inr G'" using less(3) Scope by (cases "codegen_all nm bs G") auto
    ultimately show ?thesis using less(2,4,7,8,10) Scope k by (simp add: calc_node)
  next
    case (Operand l op r)
    show ?thesis
    proof (cases l)
      case None
      then obtain e where e: "r = Some e" "op = StdOut" "typed_expr e" "set (vars e) \<subseteq> set D"
        using less(2) Operand checked_printE by metis
      have "reads_ok nm e G" using ready_reads [of nm G D e] ready e by auto
      then obtain u H where c: "code_of nm e G u H" using code_exists [of e G nm] less(4) e(3) by auto
      have G': "G' = ins (\<lambda>r. CreateCallPrint r u) H" using print_code [OF c] less(3) Operand None e by simp
      have g: "gok H" by (rule code_of_gok [OF c])
      obtain w s1 where w: "calc k' left_first e s = Some (Inr w, s1)" "s' = s1\<lparr>stdout := stdout s1 @ string_of_int w @ endl\<rparr>"
        using less(8) Operand None e k by (auto simp: calc_node operand_calc_def call_ptr_def bindP_Some_iff)
      have w2: "in_int w" "vals s1 = vals s" using expr_calc [OF e(3) w(1) same_vars_in_int [OF less(10) e(4)]] by auto
      have "exec F (rest F G') R' M (streams s') q" for R'
        using less(11) [of M R'] less(10) Operand None w2(2) w(2) same_vars_cong [of s' s] by simp
      then have "exec F (rest F G') R' M (pcl_print (sint (word_of_int w :: 32 word)) (streams s1)) q" for R'
        by (simp add: pcl_print_def sint_in_int [OF w2(1)] w(2))
      from print [OF _ this] have "exec F (rest F H) R' M (streams s1) q" if "value_of R' u = Some (i32 w)" for R'
        using that rest_ins [OF g] less(5) G' by (simp add: i32_def)
      then show ?thesis using expr_sim [OF e(3) c less(4) _ w(1) _ less(10) e(4)] within_ins [OF g] less(5,9) G' w(2) by simp
    next
      case (Some l')
      then obtain d e where e: "l' = DeclRef d" "r = Some e" "op = Assign" "typed_expr e" "set (vars e) \<subseteq> set D"
        "\<forall>d' \<in> set D. nm d' = nm d \<longrightarrow> d' = d"
        using less(2) Operand checked_assignE by metis
      obtain a where a: "?NV (nm d) = Some a" using ready Operand Some e by (auto simp: stm_ready_def)
      let ?G = "ins (\<lambda>r. CreateLoad r a) G"
      have gG: "gok ?G" using less(4) by simp
      have "reads_ok nm e ?G" using ready_reads [of nm G D e] ready e by (simp add: reads_ok_def)
      then obtain u H where c: "code_of nm e ?G u H" using code_exists [of e ?G nm] less(4) e(4) by auto
      have G': "G' = ins (\<lambda>r. CreateStore r u a) H" using assign_code [OF a less(4) c] less(3) Operand Some e by simp
      have g: "gok H" by (rule code_of_gok [OF c])
      obtain w s1 where w: "calc k' left_first e s = Some (Inr w, s1)" "s' = s1\<lparr>vals := (vals s1)(d \<mapsto> w)\<rparr>"
        using less(8) Operand Some e k by (auto simp: calc_node operand_calc_def call_ptr_def bindP_Some_iff)
      have w2: "in_int w" "vals s1 = vals s" using expr_calc [OF e(4) w(1) same_vars_in_int [OF less(10) e(5)]] by auto
      have "same_vars nm ?NV (d # D) s' (M(a \<mapsto> i32 w))"
        using same_vars_assign [of nm ?NV D s1 M w d a, OF _ w2(1) a e(6) less(6)] less(10) same_vars_cong [OF w2(2)] w(2) by metis
      then have "same_vars nm ?NV (assigned D n) s' (M(a \<mapsto> i32 w))" using Operand Some e by simp
      note cont = less(11) [OF this]
      have st1: "streams s1 = streams s'" using w(2) by simp
      have "exec F (rest F G') R' (M(a \<mapsto> i32 w)) (streams s1) q" for R' unfolding st1 by (rule cont)
      from store [OF _ this] have st: "exec F (rest F H) R' M (streams s1) q" if "value_of R' u = Some (i32 w)" for R'
        using that rest_ins [OF g] less(5) G' by simp
      have W: "within F ?G" "within F H" using within_ins [OF g] less(5) G' code_of_within [OF c] by auto
      have "exec F (rest F ?G) (R(next_value G := M a)) M (streams s) q"
        by (rule expr_sim [OF e(4) c gG W(2) w(1) _ _ e(5) st]) (use less(9,10) w(2) in auto)
      from load [OF this] show ?thesis using rest_ins [OF less(4) W(1)] by simp
    qed
  next
    case (While c b)
    then have c: "typed_cond c" "set (vars c) \<subseteq> set D" "checked nm D b" using less(2) by auto
    have rd: "stm_ready nm ?NV D" "stm_ready nm ?NV (targets b)" using ready While by auto
    obtain u H where h: "code_of nm c G u H" using code_exists [of c G nm] less(4) c ready_reads [OF rd(1)] by blast
    let ?B = "length (Blocks H)"
    have gH: "gok H" and GH: "grows G H" using code_of_gok [OF h] code_of_grows [OF h] by auto
    have gB: "gok (branch u H)" and HB: "grows H (branch u H)" using grows_gok branch_props(1) [OF gH] by auto
    have GB: "grows G (branch u H)" by (rule grows_trans [OF GH HB])
    obtain y K where b: "codegen nm b (branch u H) = Inr (y, K)" "grows (branch u H) K"
      using stm_code_both(1) [OF c(3) gB] rd grows_ready [OF GB] by auto
    have GK: "grows G K" by (rule grows_trans [OF GB b(2)])
    have gK: "gok K" by (rule grows_gok [OF GK])
    have "reads_ok nm c K" using ready_reads [OF rd(1) c(2)] GK by (simp add: reads_ok_def grows_def)
    then obtain w L where h2: "code_of nm c K w L" using code_exists [of c K nm] c gK by blast
    have gL: "gok L" by (rule code_of_gok [OF h2])
    have G': "G' = jump (\<lambda>r. CreateCondBr r w ?B (Suc ?B)) (Suc ?B) L" using while_code [OF h b(1) h2] less(3) While by simp
    have BL: "grows (branch u H) L" by (rule grows_trans [OF b(2) code_of_grows [OF h2]])
    have wL: "within F L" and endL: "rest F L = CreateCondBr (next_value L) w ?B (Suc ?B) # rest F (ins (\<lambda>r. CreateCondBr r w ?B (Suc ?B)) L)"
      using less(5) G' within_ins [OF gL] rest_ins [OF gL] by (auto simp: within_jump)
    have wK: "within F K" by (rule code_of_within [OF h2 wL])
    have wB: "within F (branch u H)" by (rule within_grows [OF wL BL])
    obtain e zs where endH: "rest F H = CreateCondBr e u ?B (Suc ?B) # zs" using rest_branch(1) [OF gH wB] by blast
    have NV: "NamedValues K = ?NV" "NamedValues (branch u H) = ?NV" using GK GB by (auto simp: grows_def)
    have restG': "rest F G' = F ! Suc ?B" unfolding G' by (rule rest_jump, rule jump_grows(2) [OF gH BL])
    show ?thesis
    proof (rule loop_sim [where k = k and b = b, OF _ h2 gK wL NV(1) endL c(1,2) rest_branch(3) [OF gH wB] _ less(9) h less(4)
          within_grows [OF wB HB] refl endH less(8) [unfolded While] order.refl less(10)])
      fix m y' t t' R1 M1
      assume m: "m < k" "calc m left_first b t = Some (Inr y', t')" "stdin t' \<noteq> None" "same_vars nm ?NV D t M1"
        and cont: "\<And>R' M'. same_vars nm ?NV D t' M' \<Longrightarrow> exec F (rest F K) R' M' (streams t') q"
      have "exec F (rest F (branch u H)) R1 M1 (streams t) q"
      proof (rule less(1) [OF m(1) c(3) b(1) gB wK _ _ m(2,3)])
        fix R' M' assume "same_vars nm (NamedValues (branch u H)) (assigned D b) t' M'"
        then show "exec F (rest F K) R' M' (streams t') q" using cont same_vars_mono assigned_super NV(2) by metis
      qed (use NV(2) less(6) rd(2) m(4) in simp_all)
      then show "exec F (F ! ?B) R1 M1 (streams t) q" using rest_branch(2) [OF gH wB] by simp
    next
      fix R' M' assume "same_vars nm ?NV D s' M'"
      then show "exec F (F ! Suc ?B) R' M' (streams s') q" using less(11) [of M' R'] While restG' by simp
    qed
  next
    case (IfN c b)
    then have c: "typed_cond c" "set (vars c) \<subseteq> set D" "checked nm D b" using less(2) by auto
    have rd: "stm_ready nm ?NV D" "stm_ready nm ?NV (targets b)" using ready IfN by auto
    obtain u H where h: "code_of nm c G u H" using code_exists [of c G nm] less(4) c ready_reads [OF rd(1)] by blast
    let ?B = "length (Blocks H)"
    have gH: "gok H" and GH: "grows G H" using code_of_gok [OF h] code_of_grows [OF h] by auto
    have gB: "gok (branch u H)" and HB: "grows H (branch u H)" using grows_gok branch_props(1) [OF gH] by auto
    have GB: "grows G (branch u H)" by (rule grows_trans [OF GH HB])
    obtain y K where b: "codegen nm b (branch u H) = Inr (y, K)" "grows (branch u H) K"
      using stm_code_both(1) [OF c(3) gB] rd grows_ready [OF GB] by auto
    have gK: "gok K" by (rule grows_gok [OF b(2)])
    have G': "G' = jump (\<lambda>r. CreateBr r (Suc ?B)) (Suc ?B) K" using if_code [OF h b(1) gK] less(3) IfN by simp
    have wK: "within F K" and endK: "rest F K = CreateBr (next_value K) (Suc ?B) # rest F (ins (\<lambda>r. CreateBr r (Suc ?B)) K)"
      using less(5) G' within_ins [OF gK] rest_ins [OF gK] by (auto simp: within_jump)
    have wB: "within F (branch u H)" by (rule within_grows [OF wK b(2)])
    note len = rest_branch(3) [OF gH wB]
    obtain e zs where endH: "rest F H = CreateCondBr e u ?B (Suc ?B) # zs" using rest_branch(1) [OF gH wB] by blast
    have NV: "NamedValues (branch u H) = ?NV" using GB by (auto simp: grows_def)
    have restG': "rest F G' = F ! Suc ?B" unfolding G' by (rule rest_jump, rule jump_grows(2) [OF gH b(2)])
    have out: "exec F (F ! Suc ?B) R' M' (streams s') q" if "same_vars nm ?NV D s' M'" for R' M'
      using less(11) [of M' R'] IfN restG' that by simp
    have sv: "same_vars nm ?NV D s1 M" if "calc k2 left_first c s = Some (Inr z, s1)" for k2 z s1
      using same_vars_cong [OF cond_calc_vals [OF c(1) that same_vars_in_int [OF less(10) c(2)]]] less(10) by metis
    show ?thesis
    proof (cases rule: calc_if [OF less(8) [unfolded IfN], case_names skip go])
      case (skip k2 z)
      show ?thesis
      proof (rule cond_sim [OF c(1) h less(4) within_grows [OF wB HB] skip(2) less(9,10) c(2)])
        fix R' assume "value_of R' u = Some (I1 (z \<noteq> 0))"
        from condbr [OF this _ len] show "exec F (rest F H) R' M (streams s') q"
          using out [OF sv [OF skip(2)]] len skip(3) endH by simp
      qed
    next
      case (go k2 z s1 y2)
      have ne: "stdin s1 \<noteq> None" using calc_stdin_None [OF go(4)] less(9) by auto
      show ?thesis
      proof (rule cond_sim [OF c(1) h less(4) within_grows [OF wB HB] go(2) ne less(10) c(2)])
        fix R' assume R': "value_of R' u = Some (I1 (z \<noteq> 0))"
        have "exec F (rest F (branch u H)) R' M (streams s1) q"
        proof (rule less(1) [OF _ c(3) b(1) gB wK _ _ go(4) less(9)])
          fix R2 M2 assume "same_vars nm (NamedValues (branch u H)) (assigned D b) s' M2"
          then have "same_vars nm ?NV D s' M2" using same_vars_mono assigned_super NV by metis
          from br [OF len out [OF this]] show "exec F (rest F K) R2 M2 (streams s') q" using endK by simp
        qed (use NV less(6) rd(2) sv [OF go(2)] go(1) in simp_all)
        then show "exec F (rest F H) R' M (streams s1) q"
          using condbr [OF R' _ len] rest_branch(2) [OF gH wB] len go(3) endH by simp
      qed
    qed
  qed
qed

end

end
