(* ===== verification/Pcl_Compiler.thy ===== *)
theory Pcl_Compiler
  imports Pcl_Codegen_Props
begin

text \<open>
  The ParaCL compiler on whole programs: the compiled program behaves as the interpreted one, in general and for
  the Fibonacci program of the tests, and programs outside of the class of the theorem for which it does not.
\<close>

section \<open>Whole programs\<close>

text \<open>After the declarations: the entry block begins with the \<^verbatim>\<open>alloca\<close> calls, and names have different addresses.\<close>

definition started :: "CodeGen \<Rightarrow> bool" where
  "started G \<longleftrightarrow> gok G \<and> InsertPoint G = 0 \<and> length (Blocks G) = 1 \<and>
     (\<forall>c \<in> set (Blocks G ! 0). \<exists>r x. c = CreateAlloca r x) \<and>
     inj_on (NamedValues G) (dom (NamedValues G)) \<and> (\<forall>a \<in> ran (NamedValues G). a < next_value G)"

lemma started_init: "started (StartFunction f createCodeGen)"
  by (simp add: started_def StartFunction_def createCodeGen_def createFnDecl_def CodeGen_ctor_def gok_def)

lemma inj_on_upd_fresh:
  assumes "inj_on f (dom f)" "r \<notin> ran f"
  shows "inj_on (f(x \<mapsto> r)) (dom (f(x \<mapsto> r)))"
proof (rule inj_onI)
  fix y z assume yz: "y \<in> dom (f(x \<mapsto> r))" "z \<in> dom (f(x \<mapsto> r))" "(f(x \<mapsto> r)) y = (f(x \<mapsto> r)) z"
  have fresh: "f w \<noteq> Some r" for w using assms(2) by (auto simp: ran_def)
  show "y = z"
  proof (cases "y = x \<or> z = x")
    case True
    then show ?thesis using yz(3) fresh by (metis fun_upd_apply)
  next
    case False
    then show ?thesis using yz inj_onD [OF assms(1)] by simp
  qed
qed

lemma AddDecl_started:
  assumes "started G"
  shows "\<exists>G'. AddDecl x G = Inr G' \<and> started G' \<and> dom (NamedValues G') = insert x (dom (NamedValues G))"
proof -
  let ?r = "next_value G"
  let ?G = "G\<lparr>Blocks := (Blocks G)[0 := CreateAlloca ?r x # Blocks G ! 0], NamedValues := (NamedValues G)(x \<mapsto> ?r), next_value := Suc ?r\<rparr>"
  have d: "inj_on (NamedValues G) (dom (NamedValues G))" "\<forall>a \<in> ran (NamedValues G). a < ?r" "gok G" "InsertPoint G = 0"
    "length (Blocks G) = 1" "\<forall>c \<in> set (Blocks G ! 0). \<exists>r x. c = CreateAlloca r x"
    using assms by (simp_all add: started_def)
  have "?r \<notin> ran (NamedValues G)" using d(2) by blast
  then have "inj_on (NamedValues ?G) (dom (NamedValues ?G))" using inj_on_upd_fresh [OF d(1)] by simp
  moreover have "\<forall>a \<in> ran (NamedValues ?G). a < next_value ?G"
  proof
    fix a assume "a \<in> ran (NamedValues ?G)"
    then have "a = ?r \<or> a \<in> ran (NamedValues G)" by (auto simp: ran_def split: if_splits)
    then show "a < next_value ?G" using d(2) by auto
  qed
  moreover have "\<forall>c \<in> set (Blocks ?G ! 0). \<exists>r x. c = CreateAlloca r x" using d(5,6) by simp
  ultimately have "started ?G" using d(3,4,5) by (simp add: started_def gok_def)
  moreover have "AddDecl x G = Inr ?G" using d(5) by (simp add: AddDecl_def)
  ultimately show ?thesis by auto
qed

lemma add_decls_started:
  "started G \<Longrightarrow> \<exists>G'. add_decls xs G = Inr G' \<and> started G' \<and> dom (NamedValues G') = set xs \<union> dom (NamedValues G)"
proof (induction xs arbitrary: G)
  case (Cons x xs)
  obtain H where H: "AddDecl x G = Inr H" "started H" "dom (NamedValues H) = insert x (dom (NamedValues G))"
    using AddDecl_started [OF Cons(2)] by blast
  then show ?case using Cons(1) [OF H(2)] by auto
qed simp

context llvm_function
begin

lemma exec_allocas:
  assumes "\<forall>c \<in> set cs. \<exists>r x. c = CreateAlloca r x" "\<And>M. exec F code R M st q"
  shows "exec F (cs @ code) R M st q"
  using assms(1)
proof (induction cs arbitrary: M)
  case (Cons c cs)
  then obtain r x where c: "c = CreateAlloca r x" by auto
  have "exec F (cs @ code) R (M(r := None)) st q" by (rule Cons(1)) (use Cons(2) in simp)
  from alloca [OF this] show ?case unfolding c by simp
qed (simp add: assms(2))

end

lemma rest_entry: "started G \<Longrightarrow> within F G \<Longrightarrow> F ! 0 = Blocks G ! 0 @ rest F G"
  by (auto simp: started_def within_def rest_def prefix_def)

section \<open>Programs of the tests\<close>

text \<open>\<^verbatim>\<open>tests-pcl/simplest/addsubif.pcl\<close>.\<close>

definition addsubif :: node where
  "addsubif = Scope 0
     [assign_to 0 (Operand None StdIn None), assign_to 1 (Val 0),
      IfN (bin_of (DeclRef 0) Greater (Val 0)) (Scope 1 [Scope 2 [assign_to 1 (bin_of (DeclRef 0) Plus (Val 3))]]),
      assign_to 2 (bin_of (bin_of (Val 10) Minus (DeclRef 0)) Minus (DeclRef 1)), print_of 2]"

definition fib_names :: "nat \<Rightarrow> string" where
  "fib_names d = (if d < 5 then [''n'', ''a'', ''b'', ''x'', ''tmp''] ! d else [])"

lemma addsubif_run:
  "\<exists>s'. calc 9 left_first addsubif \<lparr>vals = (\<lambda>_. None), stdin = Some (string_of_int 5 @ endl), stdout = []\<rparr> = Some (Inr 0, s') \<and>
    stdin s' = Some endl \<and> stdout s' = string_of_int (- 3) @ endl"
  using read_int_line [of 5 "\<lambda>_. None" "[]" "[]"]
  by (simp add: addsubif_def calc_node operand_calc_def call_ptr_def both_def bool_int_def int_res_def in_int_def INT_MAX_def
      numeral_eq_Suc)

section \<open>Correctness\<close>

lemma compile_program_ok:
  assumes "checked nm [] tree" "\<forall>d \<in> set (targets tree). nm d \<in> set decls"
  shows "\<exists>G. compile_program nm decls tree = Inr G"
proof -
  obtain G where G: "add_decls decls (StartFunction ''__pcl_start'' createCodeGen) = Inr G" "started G"
    "set decls \<subseteq> dom (NamedValues G)" using add_decls_started [OF started_init] by blast
  have g: "gok G" using G(2) by (auto simp: started_def)
  have rd: "stm_ready nm (NamedValues G) (targets tree)" using assms(2) G(3) by (auto simp: stm_ready_def)
  obtain v H where H: "codegen nm tree G = Inr (v, H)" "grows G H" using stm_code_both(1) [OF assms(1) g] rd by auto
  then show ?thesis using G(1) by (simp add: compile_program_def EndCurrentFunction_def insert_call_ok grows_gok)
qed

lemma compiler_simulates:
  assumes "llvm_function exec" "checked nm [] tree" "\<forall>d \<in> set (targets tree). nm d \<in> set decls"
    "calc k left_first tree s = Some (Inr x, s')" "stdin s' \<noteq> None"
  shows "\<exists>G. compile_program nm decls tree = Inr G \<and>
    exec (Blocks G) (Blocks G ! 0) R M (stdin s, stdout s) (Inr (), (stdin s', stdout s'))"
proof -
  note rules = llvm_function.stm_sim [OF assms(1)] llvm_function.exec_allocas [OF assms(1)] llvm_function.ret [OF assms(1)]
  obtain G where G: "add_decls decls (StartFunction ''__pcl_start'' createCodeGen) = Inr G" "started G"
    "set decls \<subseteq> dom (NamedValues G)" using add_decls_started [OF started_init] by blast
  have g: "gok G" and inj: "inj_on (NamedValues G) (dom (NamedValues G))"
    and al: "\<forall>c \<in> set (Blocks G ! 0). \<exists>r x. c = CreateAlloca r x" using G(2) by (auto simp: started_def)
  have rd: "stm_ready nm (NamedValues G) (targets tree)" using assms(3) G(3) by (auto simp: stm_ready_def)
  obtain v H where H: "codegen nm tree G = Inr (v, H)" "grows G H"
    using stm_code_both(1) [OF assms(2) g] rd by auto
  have gH: "gok H" by (rule grows_gok [OF H(2)])
  let ?F = "Blocks (ins CreateRetVoid H)"
  have w: "within ?F (ins CreateRetVoid H)" "within ?F H" using within_refl within_ins [OF gH] by blast+
  have "exec ?F (rest ?F G) R M' (streams s) (Inr (), streams s')" for M'
  proof (rule rules(1) [OF assms(2) H(1) g w(2) inj rd assms(4,5)])
    show "same_vars nm (NamedValues G) [] s M'" by (simp add: same_vars_def)
    fix R1 M1
    show "exec ?F (rest ?F H) R1 M1 (streams s') (Inr (), streams s')"
      unfolding rest_ins [OF gH w(1)] by (rule rules(3))
  qed
  then have "exec ?F (?F ! 0) R M (streams s) (Inr (), streams s')"
    unfolding rest_entry [OF G(2) within_grows [OF w(2) H(2)]] by (rule rules(2) [OF al])
  moreover have "compile_program nm decls tree = Inr (ins CreateRetVoid H)"
    by (simp add: compile_program_def G(1) H(1) EndCurrentFunction_def insert_call_ok [OF gH])
  ultimately show ?thesis by blast
qed


text \<open>
  C3. The compiler is correct on checked trees: such a program whose variables are declared is translated, and when the interpreter
  evaluates its tree without an error, calling left operands first and never short of input, the translated program run as the reference
  of LLVM says, started with any memory, reads the same input, prints the same output and returns. For other trees the two can
  differ, as shown below.
\<close>

theorem compiler_correct:
  assumes "llvm_function exec" "checked nm [] tree" "\<forall>d \<in> set (targets tree). nm d \<in> set decls"
    "calc k left_first tree s = Some (Inr x, s')" "stdin s' \<noteq> None"
  shows "\<exists>G. compile_program nm decls tree = Inr G \<and>
    exec (Blocks G) (Blocks G ! 0) R M (stdin s, stdout s) (Inr (), (stdin s', stdout s'))"
  by (rule compiler_simulates [OF assms])

theorem compiler_correct_witness:
  "\<exists>G. compile_program fib_names [''n'', ''a'', ''b''] addsubif = Inr G \<and>
    ir_exec (Blocks G) (Blocks G ! 0) (\<lambda>_. None) (\<lambda>_. None) (Some (string_of_int 5 @ endl), [])
      (Inr (), (Some endl, string_of_int (- 3) @ endl))"
proof -
  obtain s' where s': "calc 9 left_first addsubif \<lparr>vals = (\<lambda>_. None), stdin = Some (string_of_int 5 @ endl), stdout = []\<rparr> = Some (Inr 0, s')"
    "stdin s' = Some endl" "stdout s' = string_of_int (- 3) @ endl" using addsubif_run by blast
  have "checked fib_names [] addsubif" "\<forall>d \<in> set (targets addsubif). fib_names d \<in> set [''n'', ''a'', ''b'']"
    by (simp_all add: addsubif_def fib_names_def in_int_def INT_MAX_def is_rel_def)
  from compiler_correct [OF irx.llvm_function_axioms this s'(1), of "\<lambda>_. None" "\<lambda>_. None"] s'(2,3) show ?thesis by simp
qed

text \<open>
  The compiled Fibonacci program of the tests prints the first \<open>x\<close> Fibonacci numbers, for every input \<open>x\<close> up to 47.
\<close>

theorem compiled_fib:
  assumes "llvm_function exec" "x \<le> 47"
  shows "\<exists>G. compile_program fib_names [''n'', ''a'', ''b'', ''x'', ''tmp''] fib_program = Inr G \<and>
    exec (Blocks G) (Blocks G ! 0) R M (Some (string_of_int (int x) @ endl), [])
      (Inr (), (Some endl, concat (map (\<lambda>i. string_of_int (fib i) @ endl) [0..<x])))"
proof -
  let ?s = "\<lparr>vals = (\<lambda>_. None), stdin = Some (string_of_int (int x) @ endl), stdout = []\<rparr>"
  obtain k s' where s': "calc k left_first fib_program ?s = Some (Inr 0, s')" "stdin s' = Some endl"
    "stdout s' = concat (map (\<lambda>i. string_of_int (fib i) @ endl) [0..<x])"
    using fib_program_runs [OF assms(2), of left_first "\<lambda>_. None"] by blast
  have "checked fib_names [] fib_program"
    "\<forall>d \<in> set (targets fib_program). fib_names d \<in> set [''n'', ''a'', ''b'', ''x'', ''tmp'']"
    by (simp_all add: fib_program_def fib_body_def fib_rest_def fib_names_def in_int_def INT_MAX_def is_rel_def)
  from compiler_simulates [OF assms(1) this s'(1), of R M] s'(2,3) show ?thesis by simp
qed

theorem compiled_fib_witness:
  "\<exists>G. compile_program fib_names [''n'', ''a'', ''b'', ''x'', ''tmp''] fib_program = Inr G \<and>
    ir_exec (Blocks G) (Blocks G ! 0) (\<lambda>_. None) (\<lambda>_. None) (Some (string_of_int 3 @ endl), [])
      (Inr (), (Some endl, string_of_int 0 @ endl @ string_of_int 1 @ endl @ string_of_int 1 @ endl))"
  using compiled_fib [OF irx.llvm_function_axioms, of 3 "\<lambda>_. None" "\<lambda>_. None"] by (simp add: upt_rec numeral_eq_Suc)

section \<open>Where compiled programs behave differently\<close>

text \<open>\<^verbatim>\<open>x = ?; if ((x != 0) && ((10 / x) > 1)) { print x; }\<close>, \<^verbatim>\<open>x = ?; print x;\<close> and \<^verbatim>\<open>x = ?; if (x) { print x; }\<close>.\<close>

definition guarded_div :: node where
  "guarded_div = Scope 0
     [assign_to 3 (Operand None StdIn None),
      IfN (bin_of (bin_of (DeclRef 3) NotEqual (Val 0)) And (bin_of (bin_of (Val 10) Div (DeclRef 3)) Greater (Val 1)))
        (Scope 1 [Scope 2 [print_of 3]])]"

definition echo :: node where
  "echo = Scope 0 [assign_to 3 (Operand None StdIn None), print_of 3]"

definition if_value :: node where
  "if_value = Scope 0 [assign_to 3 (Operand None StdIn None), IfN (DeclRef 3) (Scope 1 [Scope 2 [print_of 3]])]"

definition interpreted :: "node \<Rightarrow> string \<Rightarrow> (int res \<times> string) option" where
  "interpreted tree inp =
     map_option (\<lambda>(r, s). (r, stdout s)) (calc 9 left_first tree \<lparr>vals = (\<lambda>_. None), stdin = Some inp, stdout = []\<rparr>)"

definition compiled :: "node \<Rightarrow> string \<Rightarrow> (unit res \<times> string) option" where
  "compiled tree inp =
     (case compile_program fib_names [''x''] tree of
        Inl e \<Rightarrow> None
      | Inr G \<Rightarrow> map_option (\<lambda>(r, st). (r, snd st)) (ir_run 30 (Blocks G) (Blocks G ! 0) (\<lambda>_. None) (\<lambda>_. None) (Some inp, [])))"

text \<open>
  Outside of the class of the correctness theorem the compiler and the interpreter disagree. The compiled
  code evaluates the right operand of \<^verbatim>\<open>&&\<close> even when the left one is false, so that a guarded division by zero is
  executed; where the interpreter reads 0 after the end of the input, the compiled program ends with
  status 1; and a condition that is a number, which the interpreter accepts, becomes a branch on a value that
  is not a boolean.
\<close>

theorem compiler_differs:
  "interpreted guarded_div ''0'' = Some (Inr 0, []) \<and> compiled guarded_div ''0'' = Some (Inl Undefined_behaviour, []) \<and>
   interpreted echo [] = Some (Inr 0, ''0'' @ endl) \<and> compiled echo [] = Some (Inl (Exited 1), []) \<and>
   interpreted if_value ''7'' = Some (Inr 0, ''7'' @ endl) \<and> compiled if_value ''7'' = Some (Inl Undefined_behaviour, [])"
  by code_simp

end
