(* ===== verification/Pcl_Archive_Codegen.thy ===== *)
theory Pcl_Archive_Codegen
  imports Pcl_Archive Pcl_Compiler
begin

text \<open>
  The code generation of the first version, \<^verbatim>\<open>archive/13-llvm/01-naive/Node.cc\<close> and \<^verbatim>\<open>driver.cc\<close>. It calls the builder
  through global variables, which are the fields of the record \<open>CodeGen\<close>. Loops and conditionals
  generate nothing. The theorems relate it to the later version.
\<close>

section \<open>Node.cc\<close>

definition CreateEntryBlockAlloca :: "string \<Rightarrow> CodeGen \<Rightarrow> (nat \<times> CodeGen) res" where
  "CreateEntryBlockAlloca varname G =
     bindE (vec_get (Blocks G) 0) (\<lambda>entry.
     Inr (next_value G,
          G\<lparr>Blocks := (Blocks G)[0 := CreateAlloca (next_value G) varname # entry], next_value := Suc (next_value G)\<rparr>))"

definition decl_codegen :: "string \<Rightarrow> CodeGen \<Rightarrow> (ir_value \<times> CodeGen) res" where
  "decl_codegen varname G =
     bindE (assertE (NamedValues G varname \<noteq> None)) (\<lambda>_. insert_call (\<lambda>r. CreateLoad r (the (NamedValues G varname))) G)"

definition decl_assign :: "string \<Rightarrow> ir_value option \<Rightarrow> CodeGen \<Rightarrow> (ir_value \<times> CodeGen) res" where
  "decl_assign varname RHS G =
     bindE (assertE (NamedValues G varname \<noteq> None)) (\<lambda>_.
     bindE (non_null RHS) (\<lambda>x. insert_call (\<lambda>r. CreateStore r x (the (NamedValues G varname))) G))"

text \<open>The switch of \<^verbatim>\<open>Op::codegen\<close>, on the values of the operands.\<close>

definition op_codegen :: "(nat \<Rightarrow> string) \<Rightarrow> node option \<Rightarrow> Operation \<Rightarrow> ir_value option \<Rightarrow> ir_value option \<Rightarrow> CodeGen \<Rightarrow> (ir_value \<times> CodeGen) res" where
  "op_codegen nm left op LeftV RightV G =
     (case op of
        Plus \<Rightarrow> insert_binop OpAdd (if LeftV = None then Some (ConstantInt 0) else LeftV) RightV G
      | Minus \<Rightarrow> insert_binop OpSub (if LeftV = None then Some (ConstantInt 0) else LeftV) RightV G
      | Greater \<Rightarrow> insert_icmp SGT LeftV RightV G
      | Less \<Rightarrow> insert_icmp SLT LeftV RightV G
      | GreaterEq \<Rightarrow> insert_icmp SGE LeftV RightV G
      | LessEq \<Rightarrow> insert_icmp SLE LeftV RightV G
      | Assign \<Rightarrow> (case left of Some (DeclRef d) \<Rightarrow> decl_assign (nm d) RightV G | _ \<Rightarrow> Inl Undefined_behaviour)
      | StdOut \<Rightarrow>
          bindE (assertE (''__pcl_print'' \<in> set (Functions G))) (\<lambda>_.
          bindE (assertE (RightV \<noteq> None)) (\<lambda>_.
          bindE (non_null RightV) (\<lambda>y. insert_call (\<lambda>r. CreateCallPrint r y) G)))
      | StdIn \<Rightarrow> bindE (assertE (''__pcl_scan'' \<in> set (Functions G))) (\<lambda>_. insert_call CreateCallScan G)
      | Equal \<Rightarrow> insert_icmp EQ LeftV RightV G
      | NotEqual \<Rightarrow> insert_icmp NE LeftV RightV G
      | Not \<Rightarrow> bindE (non_null RightV) (\<lambda>y. insert_call (\<lambda>r. CreateNot r y) G)
      | And \<Rightarrow> insert_binop OpAnd LeftV RightV G
      | Or \<Rightarrow> insert_binop OpOr LeftV RightV G
      | Div \<Rightarrow> insert_binop OpSDiv LeftV RightV G
      | Mul \<Rightarrow> insert_binop OpMul LeftV RightV G
      | Mod \<Rightarrow> insert_binop OpSRem LeftV RightV G)"

fun old_codegen :: "(nat \<Rightarrow> string) \<Rightarrow> node \<Rightarrow> CodeGen \<Rightarrow> (ir_value option \<times> CodeGen) res" and
    old_codegen_all :: "(nat \<Rightarrow> string) \<Rightarrow> node list \<Rightarrow> CodeGen \<Rightarrow> CodeGen res" where
  "old_codegen nm (Val v) G = Inr (Some (ConstantInt v), G)"
| "old_codegen nm (DeclRef d) G = bindE (decl_codegen (nm d) G) (\<lambda>(V, G). Inr (Some V, G))"
| "old_codegen nm (Scope i branches) G = bindE (old_codegen_all nm branches G) (\<lambda>G. Inr (None, G))"
| "old_codegen nm (Operand left op right) G =
     bindE (case left of None \<Rightarrow> Inr (None, G) | Some n \<Rightarrow> old_codegen nm n G) (\<lambda>(LeftV, G).
     bindE (case right of None \<Rightarrow> Inr (None, G) | Some n \<Rightarrow> old_codegen nm n G) (\<lambda>(RightV, G).
     bindE (op_codegen nm left op LeftV RightV G) (\<lambda>(V, G). Inr (Some V, G))))"
| "old_codegen nm (While op scope) G = Inr (None, G)"
| "old_codegen nm (IfN op scope) G = Inr (None, G)"
| "old_codegen_all nm [] G = Inr G"
| "old_codegen_all nm (x # xs) G = bindE (old_codegen nm x G) (\<lambda>(_, G). old_codegen_all nm xs G)"

text \<open>The declaration of \<^verbatim>\<open>Scope::access\<close>, and what \<^verbatim>\<open>main\<close> does around the parser.\<close>

definition old_add_decl :: "string \<Rightarrow> CodeGen \<Rightarrow> CodeGen res" where
  "old_add_decl var_name G =
     bindE (CreateEntryBlockAlloca var_name G) (\<lambda>(Alloca, G). Inr (G\<lparr>NamedValues := (NamedValues G)(var_name \<mapsto> Alloca)\<rparr>))"

fun old_add_decls :: "string list \<Rightarrow> CodeGen \<Rightarrow> CodeGen res" where
  "old_add_decls [] G = Inr G"
| "old_add_decls (x # xs) G = bindE (old_add_decl x G) (old_add_decls xs)"

definition old_set_up :: CodeGen where
  "old_set_up = \<lparr>Blocks = [[]], InsertPoint = 0, NamedValues = (\<lambda>_. None),
                 Functions = [''__pcl_print'', ''__pcl_scan'', ''__pcl_start''], next_value = 0\<rparr>"

definition old_compile :: "(nat \<Rightarrow> string) \<Rightarrow> string list \<Rightarrow> node \<Rightarrow> CodeGen res" where
  "old_compile nm decls tree =
     bindE (old_add_decls decls old_set_up) (\<lambda>G.
     bindE (old_codegen nm tree G) (\<lambda>(_, G).
     bindE (insert_call CreateRetVoid G) (\<lambda>(_, G). Inr G)))"

section \<open>It compiles what is left without loops and conditionals\<close>

fun drop_control :: "node \<Rightarrow> node" and drop_control_all :: "node list \<Rightarrow> node list" where
  "drop_control (Scope i bs) = Scope i (drop_control_all bs)"
| "drop_control (Operand l op r) = Operand (map_option drop_control l) op (map_option drop_control r)"
| "drop_control (While c b) = Scope 0 []"
| "drop_control (IfN c b) = Scope 0 []"
| "drop_control (Val v) = Val v"
| "drop_control (DeclRef d) = DeclRef d"
| "drop_control_all [] = []"
| "drop_control_all (n # ns) = drop_control n # drop_control_all ns"

lemma decl_codegen_AddDeclRead: "decl_codegen x G = AddDeclRead x G"
  by (simp add: decl_codegen_def AddDeclRead_def split: option.split)

lemma decl_assign_AddDeclWrite: "decl_assign x v G = AddDeclWrite x v G"
  by (simp add: decl_assign_def AddDeclWrite_def split: option.split)

lemma op_codegen_AddOperation: "op \<noteq> Assign \<Longrightarrow> op_codegen nm l op L R G = AddOperation op L R G"
  by (cases op) (simp_all add: op_codegen_def AddOperation_def or_zero_def)

lemma drop_control_DeclRef: "drop_control n = DeclRef d \<longleftrightarrow> n = DeclRef d"
  by (cases n) auto

lemma op_codegen_Assign:
  "bindE (op_codegen nm l Assign L R G) g =
   (case map_option drop_control l of Some (DeclRef d) \<Rightarrow> bindE (AddDeclWrite (nm d) R G) g | _ \<Rightarrow> Inl Undefined_behaviour)"
  by (auto simp: op_codegen_def decl_assign_AddDeclWrite drop_control_DeclRef split: option.split node.split)

lemma old_codegen_drop:
  "old_codegen nm n G = codegen nm (drop_control n) G"
  "old_codegen_all nm ns G = codegen_all nm (drop_control_all ns) G"
proof (induction nm n G and nm ns G rule: old_codegen_old_codegen_all.induct)
  case (4 nm l op r G)
  have l: "(case l of None \<Rightarrow> Inr (None, G) | Some n \<Rightarrow> old_codegen nm n G) =
      (case map_option drop_control l of None \<Rightarrow> Inr (None, G) | Some n \<Rightarrow> codegen nm n G)"
    using 4(1) by (simp split: option.split)
  have r: "(case r of None \<Rightarrow> Inr (None, H) | Some n \<Rightarrow> old_codegen nm n H) =
      (case map_option drop_control r of None \<Rightarrow> Inr (None, H) | Some n \<Rightarrow> codegen nm n H)" for H
    using 4(2) by (simp split: option.split)
  show ?case
    by (cases "op = Assign") (simp_all add: l r op_codegen_AddOperation op_codegen_Assign)
qed (auto simp: decl_codegen_AddDeclRead bindE_def split: sum.split)

lemma old_add_decl_AddDecl: "old_add_decl x G = AddDecl x G"
  by (cases "vec_get (Blocks G) 0") (simp_all add: old_add_decl_def CreateEntryBlockAlloca_def AddDecl_def)

lemma old_add_decls_add: "old_add_decls xs G = add_decls xs G"
  by (induction xs arbitrary: G) (simp_all add: old_add_decl_AddDecl fun_eq_iff bindE_def split: sum.split)

text \<open>
  The first compiler translates a program as the later one translates the program with its loops and
  conditionals removed.
\<close>

theorem old_compile_drops: "old_compile nm decls tree = compile_program nm decls (drop_control tree)"
  by (simp add: old_compile_def compile_program_def old_add_decls_add old_codegen_drop EndCurrentFunction_def
      old_set_up_def StartFunction_def createCodeGen_def createFnDecl_def CodeGen_ctor_def)

text \<open>The compiled Fibonacci program reads a number and prints nothing.\<close>

theorem old_compile_fib:
  "\<exists>G. old_compile fib_names [''n'', ''a'', ''b'', ''x'', ''tmp''] fib_program = Inr G \<and>
    ir_run 20 (Blocks G) (Blocks G ! 0) (\<lambda>_. None) (\<lambda>_. None) (Some (''7'' @ endl), []) = Some (Inr (), (Some endl, []))"
proof -
  have "case old_compile fib_names [''n'', ''a'', ''b'', ''x'', ''tmp''] fib_program of Inl _ \<Rightarrow> False
    | Inr G \<Rightarrow> ir_run 20 (Blocks G) (Blocks G ! 0) (\<lambda>_. None) (\<lambda>_. None) (Some (''7'' @ endl), []) = Some (Inr (), (Some endl, []))"
    by code_simp
  then show ?thesis by (auto split: sum.splits)
qed

end
