(* ===== verification/Pcl_Front.thy ===== *)
theory Pcl_Front
  imports Pcl_Compiler
begin

text \<open>
  The front end of ParaCL: the actions of the grammar \<^verbatim>\<open>15-llvm/naive-pcl/compiler.y\<close>, in the order in which the
  parser performs them, bottom up and from left to right, and \<^verbatim>\<open>main\<close> of \<^verbatim>\<open>driver.cc\<close>. The scanner and the
  parser are generated; a program is a derivation of the grammar, given by the data types \<open>expr\<close>, \<open>lexpr\<close>, \<open>statement\<close>
  and \<open>item\<close> with parentheses left out, and a text without a derivation is \<open>None\<close>. With the
  theorems of the other theories this covers the way from a program to its behaviour.
\<close>

section \<open>Derivations\<close>

datatype expr = EBin expr Operation expr | ENeg expr | EName string | EValue int | EInput

datatype lexpr = LExpr expr | LRel expr Operation expr | LOr lexpr lexpr | LAnd lexpr lexpr | LNot lexpr

text \<open>An item of \<^verbatim>\<open>stms\<close> is a statement or a scope, and so is the body of an \<^verbatim>\<open>if\<close> or a \<^verbatim>\<open>while\<close>.\<close>

datatype statement = SAssign string expr | SIf lexpr item | SWhile lexpr item | SOutput expr
  and item = Stm statement | Block "item list"

section \<open>The actions of the grammar\<close>

text \<open>
  The state: \<^verbatim>\<open>CurrentScope\<close> with the symbol table, and the names of the declarations in the order in which they
  were made, so that declaration \<open>d\<close> has the name number \<open>d\<close>.
\<close>

type_synonym front = "bld \<times> string list"

definition parse_error :: cxx_error where
  "parse_error = Runtime_error ''parse error''"

definition front_access :: "string \<Rightarrow> front \<Rightarrow> (nat \<times> front) res" where
  "front_access x st =
     (case st of (b, ns) \<Rightarrow>
       (case scope_access x b of
          None \<Rightarrow> Inl Undefined_behaviour
        | Some (d, b') \<Rightarrow> Inr (d, b', if scope_visible x b = None then ns @ [x] else ns)))"

fun build_expr :: "expr \<Rightarrow> bld \<Rightarrow> node res" where
  "build_expr (EBin l op r) b =
     bindE (build_expr l b) (\<lambda>x. bindE (build_expr r b) (\<lambda>y. Inr (makeOperand (Some x) op (Some y))))"
| "build_expr (ENeg e) b = bindE (build_expr e b) (\<lambda>y. Inr (makeOperand (Some (makeValue 0)) Minus (Some y)))"
| "build_expr (EName x) b = (case scope_visible x b of None \<Rightarrow> Inl parse_error | Some d \<Rightarrow> Inr (DeclRef d))"
| "build_expr (EValue v) b = Inr (makeValue v)"
| "build_expr EInput b = Inr (makeOperand None StdIn None)"

fun build_lexpr :: "lexpr \<Rightarrow> bld \<Rightarrow> node res" where
  "build_lexpr (LExpr e) b = build_expr e b"
| "build_lexpr (LRel l op r) b =
     bindE (build_expr l b) (\<lambda>x. bindE (build_expr r b) (\<lambda>y. Inr (makeOperand (Some x) op (Some y))))"
| "build_lexpr (LOr l r) b =
     bindE (build_lexpr l b) (\<lambda>x. bindE (build_lexpr r b) (\<lambda>y. Inr (makeOperand (Some x) Or (Some y))))"
| "build_lexpr (LAnd l r) b =
     bindE (build_lexpr l b) (\<lambda>x. bindE (build_lexpr r b) (\<lambda>y. Inr (makeOperand (Some x) And (Some y))))"
| "build_lexpr (LNot e) b = bindE (build_lexpr e b) (\<lambda>y. Inr (makeOperand None Not (Some y)))"

text \<open>\<^verbatim>\<open>addBranch\<close> and \<^verbatim>\<open>resetScope\<close> on \<^verbatim>\<open>CurrentScope\<close>; the null pointer has no scope to add to.\<close>

definition add_branch :: "node \<Rightarrow> front \<Rightarrow> front res" where
  "add_branch n st =
     (case scope_addBranch n (fst st) of None \<Rightarrow> Inl Undefined_behaviour | Some b \<Rightarrow> Inr (b, snd st))"

definition close_scope :: "front \<Rightarrow> (node \<times> front) res" where
  "close_scope st =
     (case scope_reset (fst st) of None \<Rightarrow> Inl Undefined_behaviour | Some (n, b) \<Rightarrow> Inr (n, b, snd st))"

text \<open>The node \<open>$$\<close> of a statement or scope; \<open>build_stms\<close> adds the nodes of a sequence to the current scope.\<close>

fun build_stm :: "statement \<Rightarrow> front \<Rightarrow> (node \<times> front) res" and
    build_item :: "item \<Rightarrow> front \<Rightarrow> (node \<times> front) res" and
    build_stms :: "item list \<Rightarrow> front \<Rightarrow> front res" where
  "build_stm (SAssign x e) st =
     bindE (front_access x st) (\<lambda>(d, st).
     bindE (build_expr e (fst st)) (\<lambda>y. Inr (makeOperand (Some (DeclRef d)) Assign (Some y), st)))"
| "build_stm (SOutput e) st = bindE (build_expr e (fst st)) (\<lambda>y. Inr (makeOperand None StdOut (Some y), st))"
| "build_stm (SIf c b) st =
     bindE (build_lexpr c (fst st)) (\<lambda>x.
     bindE (build_item b (scope_push (fst st), snd st)) (\<lambda>(n, st).
     bindE (add_branch n st) (\<lambda>st.
     bindE (close_scope st) (\<lambda>(scope, st). Inr (makeIf x scope, st)))))"
| "build_stm (SWhile c b) st =
     bindE (build_lexpr c (fst st)) (\<lambda>x.
     bindE (build_item b (scope_push (fst st), snd st)) (\<lambda>(n, st).
     bindE (add_branch n st) (\<lambda>st.
     bindE (close_scope st) (\<lambda>(scope, st). Inr (makeWhile x scope, st)))))"
| "build_item (Stm s) st = build_stm s st"
| "build_item (Block items) st =
     bindE (build_stms items (scope_push (fst st), snd st)) (\<lambda>st. close_scope st)"
| "build_stms [] st = Inr st"
| "build_stms (i # items) st =
     bindE (build_item i st) (\<lambda>(n, st). bindE (add_branch n st) (\<lambda>st. build_stms items st))"

text \<open>The tree that \<^verbatim>\<open>wholeProgramAction\<close> gets, and the names of its declarations.\<close>

definition front_end :: "item list \<Rightarrow> (node \<times> string list) res" where
  "front_end p =
     bindE (build_stms p (createScope, [])) (\<lambda>st.
     bindE (close_scope st) (\<lambda>(tree, _, names). Inr (tree, names)))"

text \<open>\<^verbatim>\<open>Varname_\<close> of a declaration.\<close>

definition decl_name :: "string list \<Rightarrow> nat \<Rightarrow> string" where
  "decl_name names d = (if d < length names then names ! d else [])"

section \<open>driver.cc\<close>

text \<open>The parser: \<^verbatim>\<open>yyerror\<close> throws on a text without a derivation.\<close>

definition yyparse :: "item list option \<Rightarrow> (node \<times> string list) res" where
  "yyparse p = (case p of None \<Rightarrow> Inl parse_error | Some items \<Rightarrow> front_end items)"

text \<open>\<^verbatim>\<open>OpenFile\<close>: the derivation of the file, when it can be opened.\<close>

definition OpenFile :: "'a option \<Rightarrow> 'a res" where
  "OpenFile f = (case f of None \<Rightarrow> Inl (Runtime_error ''No input file exists'') | Some x \<Rightarrow> Inr x)"

text \<open>The handlers of \<^verbatim>\<open>main\<close>: what they print on standard error; other failures are not exceptions. The diagnostic of \<^verbatim>\<open>PrintError\<close>, with its position, is left out.\<close>

definition main_catch :: "cxx_error \<Rightarrow> string res" where
  "main_catch e =
     (case e of
        Runtime_error m \<Rightarrow> Inr (''Exception: '' @ m @ endl)
      | _ \<Rightarrow> Inl e)"

text \<open>
  \<^verbatim>\<open>main\<close> of the interpreter, on the file named by the argument: its output and what its handlers print on standard error.
\<close>

definition interpreter_main ::
  "nat \<Rightarrow> (Operation \<Rightarrow> bool) \<Rightarrow> item list option option \<Rightarrow> string \<Rightarrow> (string \<times> string) res option" where
  "interpreter_main k ord file inp =
     (case bindE (OpenFile file) yyparse of
        Inl e \<Rightarrow> Some (bindE (main_catch e) (\<lambda>m. Inr ([], m)))
      | Inr (tree, _) \<Rightarrow>
          (case calc k ord tree \<lparr>vals = (\<lambda>_. None), stdin = Some inp, stdout = []\<rparr> of
             None \<Rightarrow> None
           | Some (Inr _, s) \<Rightarrow> Some (Inr (stdout s, []))
           | Some (Inl e, s) \<Rightarrow> Some (bindE (main_catch e) (\<lambda>m. Inr (stdout s, m)))))"

text \<open>\<^verbatim>\<open>main\<close> of the compiler: the module it saves, its output and what its handlers print on standard error.\<close>

definition compiler_main ::
  "bool \<Rightarrow> string \<Rightarrow> item list option option \<Rightarrow> (CodeGen option \<times> string \<times> string) res" where
  "compiler_main has_error filename file =
     (let run = bindE (OpenFile file) (\<lambda>p.
                bindE (yyparse p) (\<lambda>(tree, names).
                compile_program (decl_name names) names tree)) in
      case run of
        Inl e \<Rightarrow> bindE (main_catch e) (\<lambda>m. Inr (None, [], m))
      | Inr G \<Rightarrow>
          let msg = ''Saving module to: '' @ filename @ ''.ll'' @ [CHR 0x0A] in
          (case SaveModule has_error G of
             Inl e \<Rightarrow> bindE (main_catch e) (\<lambda>m. Inr (None, msg, m))
           | Inr _ \<Rightarrow> Inr (Some G, msg, [])))"

end
