(* ===== verification/Pcl_Front_Props.thy ===== *)
theory Pcl_Front_Props
  imports Pcl_Front
begin

text \<open>
  The front end of ParaCL is correct: it accepts exactly the programs whose names are declared where they are
  used, and the trees it builds for them are of the kind the compiler translates correctly, so that a
  compiled program behaves as an interpreted one.
\<close>

section \<open>Scoping of a program\<close>

fun names_of :: "expr \<Rightarrow> string list" where
  "names_of (EBin l op r) = names_of l @ names_of r"
| "names_of (ENeg e) = names_of e"
| "names_of (EName x) = [x]"
| "names_of _ = []"

fun lnames :: "lexpr \<Rightarrow> string list" where
  "lnames (LExpr e) = names_of e"
| "lnames (LRel l op r) = names_of l @ names_of r"
| "lnames (LOr l r) = lnames l @ lnames r"
| "lnames (LAnd l r) = lnames l @ lnames r"
| "lnames (LNot e) = lnames e"

text \<open>
  With the names \<open>V\<close> visible before it, a statement is scoped when the names it reads are visible; an
  assignment makes its target visible, already on its right side.
\<close>

fun after :: "string list \<Rightarrow> item \<Rightarrow> string list" where
  "after V (Stm (SAssign x e)) = x # V"
| "after V _ = V"

fun scoped :: "string list \<Rightarrow> statement \<Rightarrow> bool" and
    scoped_item :: "string list \<Rightarrow> item \<Rightarrow> bool" and
    scoped_items :: "string list \<Rightarrow> item list \<Rightarrow> bool" where
  "scoped V (SAssign x e) = (set (names_of e) \<subseteq> set (x # V))"
| "scoped V (SOutput e) = (set (names_of e) \<subseteq> set V)"
| "scoped V (SIf c b) = (set (lnames c) \<subseteq> set V \<and> scoped_item V b)"
| "scoped V (SWhile c b) = (set (lnames c) \<subseteq> set V \<and> scoped_item V b)"
| "scoped_item V (Stm s) = scoped V s"
| "scoped_item V (Block items) = scoped_items V items"
| "scoped_items V [] = True"
| "scoped_items V (i # items) = (scoped_item V i \<and> scoped_items (after V i) items)"

section \<open>Programs the compiler translates correctly\<close>

fun no_input :: "expr \<Rightarrow> bool" where
  "no_input (EBin l op r) = (no_input l \<and> no_input r)"
| "no_input (ENeg e) = no_input e"
| "no_input EInput = False"
| "no_input _ = True"

fun ok_expr :: "expr \<Rightarrow> bool" where
  "ok_expr (EBin l op r) =
     (ok_expr l \<and> ok_expr r \<and> (op \<in> {Plus, Minus, Mul, Mod} \<or> op = Div \<and> no_input r))"
| "ok_expr (ENeg e) = ok_expr e"
| "ok_expr (EValue v) = in_int v"
| "ok_expr _ = True"

fun no_trap :: "expr \<Rightarrow> bool" where
  "no_trap (EBin l op r) = (no_trap l \<and> no_trap r \<and> op \<notin> {Div, Mod})"
| "no_trap (ENeg e) = no_trap e"
| "no_trap EInput = False"
| "no_trap _ = True"

fun no_ltrap :: "lexpr \<Rightarrow> bool" where
  "no_ltrap (LExpr e) = no_trap e"
| "no_ltrap (LRel l op r) = (no_trap l \<and> no_trap r \<and> op \<notin> {Div, Mod})"
| "no_ltrap (LOr l r) = (no_ltrap l \<and> no_ltrap r)"
| "no_ltrap (LAnd l r) = (no_ltrap l \<and> no_ltrap r)"
| "no_ltrap (LNot e) = no_ltrap e"

text \<open>
  A condition compares; what stands on the right of \<^verbatim>\<open>&&\<close> and \<^verbatim>\<open>||\<close> neither divides nor reads input. A variable
  does not occur on the right side of the assignment that declares it.
\<close>

fun ok_lexpr :: "lexpr \<Rightarrow> bool" where
  "ok_lexpr (LExpr e) = False"
| "ok_lexpr (LRel l op r) = (is_rel op \<and> ok_expr l \<and> ok_expr r)"
| "ok_lexpr (LOr l r) = (ok_lexpr l \<and> ok_lexpr r \<and> no_ltrap r)"
| "ok_lexpr (LAnd l r) = (ok_lexpr l \<and> ok_lexpr r \<and> no_ltrap r)"
| "ok_lexpr (LNot e) = ok_lexpr e"

fun compilable :: "string list \<Rightarrow> statement \<Rightarrow> bool" and
    compilable_item :: "string list \<Rightarrow> item \<Rightarrow> bool" and
    compilable_items :: "string list \<Rightarrow> item list \<Rightarrow> bool" where
  "compilable V (SAssign x e) = (ok_expr e \<and> (x \<in> set V \<or> x \<notin> set (names_of e)))"
| "compilable V (SOutput e) = ok_expr e"
| "compilable V (SIf c b) = (ok_lexpr c \<and> compilable_item V b)"
| "compilable V (SWhile c b) = (ok_lexpr c \<and> compilable_item V b)"
| "compilable_item V (Stm s) = compilable V s"
| "compilable_item V (Block items) = compilable_items V items"
| "compilable_items V [] = True"
| "compilable_items V (i # items) = (compilable_item V i \<and> compilable_items (after V i) items)"

section \<open>Building expressions\<close>

lemmas make_defs = makeOperand_def makeValue_def makeIf_def makeWhile_def

definition reads :: "bld \<Rightarrow> string list \<Rightarrow> nat set" where
  "reads b xs = {d. \<exists>x \<in> set xs. scope_visible x b = Some d}"

definition expr_node :: "bld \<Rightarrow> expr \<Rightarrow> node \<Rightarrow> bool" where
  "expr_node b e n \<longleftrightarrow> set (vars n) = reads b (names_of e) \<and> (ok_expr e \<longrightarrow> typed_expr n) \<and>
     (ok_expr e \<and> no_input e \<longrightarrow> pure n) \<and> (no_trap e \<longrightarrow> total n)"

lemma reads_simps [simp]: "reads b (xs @ ys) = reads b xs \<union> reads b ys" "reads b [] = {}"
  by (auto simp: reads_def)

lemma expr_node_bin:
  "expr_node b l x \<Longrightarrow> expr_node b r y \<Longrightarrow> expr_node b (EBin l op r) (Operand (Some x) op (Some y))"
  unfolding expr_node_def by (elim conjE, intro conjI impI) (simp_all, auto simp: is_bin_def)

lemma expr_node_neg: "expr_node b e y \<Longrightarrow> expr_node b (ENeg e) (Operand (Some (Val 0)) Minus (Some y))"
  unfolding expr_node_def by (elim conjE, intro conjI impI) (simp_all add: is_bin_def in_int_def INT_MAX_def)

text \<open>Building an expression succeeds when its names are visible, and is a parse error otherwise.\<close>

definition all_visible :: "string list \<Rightarrow> bld \<Rightarrow> bool" where
  "all_visible xs b \<longleftrightarrow> (\<forall>x \<in> set xs. scope_visible x b \<noteq> None)"

lemma all_visible_simps [simp]: "all_visible (xs @ ys) b = (all_visible xs b \<and> all_visible ys b)" "all_visible [] b"
  by (auto simp: all_visible_def)

lemma build_expr_fails: "\<not> all_visible (names_of e) b \<Longrightarrow> build_expr e b = Inl parse_error"
  and build_expr_ok: "all_visible (names_of e) b \<Longrightarrow> \<exists>n. build_expr e b = Inr n \<and> expr_node b e n"
proof (induction e)
  case (EBin l op r)
  {
    case 1
    then show ?case using EBin by (cases "all_visible (names_of l) b") auto
  next
    case 2
    then obtain x y where "build_expr l b = Inr x" "expr_node b l x" "build_expr r b = Inr y" "expr_node b r y"
      using EBin(2,4) by auto
    then show ?case using expr_node_bin by (simp add: make_defs)
  }
next
  case (ENeg e)
  {
    case 1
    then show ?case using ENeg(1) by simp
  next
    case 2
    then obtain y where "build_expr e b = Inr y" "expr_node b e y" using ENeg(2) by auto
    then show ?case using expr_node_neg by (simp add: make_defs)
  }
next
  case (EName x)
  {
    case 1
    then show ?case by (simp add: all_visible_def)
  next
    case 2
    then show ?case by (auto simp: all_visible_def expr_node_def reads_def)
  }
next
  case (EValue v)
  {
    case 1
    then show ?case by simp
  next
    case 2
    then show ?case by (simp add: expr_node_def make_defs)
  }
next
  case EInput
  {
    case 1
    then show ?case by simp
  next
    case 2
    then show ?case by (simp add: expr_node_def make_defs)
  }
qed

definition lexpr_node :: "bld \<Rightarrow> lexpr \<Rightarrow> node \<Rightarrow> bool" where
  "lexpr_node b c n \<longleftrightarrow> set (vars n) = reads b (lnames c) \<and> (ok_lexpr c \<longrightarrow> typed_cond n) \<and> (no_ltrap c \<longrightarrow> total n)"

lemma lexpr_node_rel:
  "expr_node b l x \<Longrightarrow> expr_node b r y \<Longrightarrow> lexpr_node b (LRel l op r) (Operand (Some x) op (Some y))"
  unfolding expr_node_def lexpr_node_def by (elim conjE, intro conjI impI) (simp_all, auto simp: is_rel_def)

lemma lexpr_node_logic:
  assumes "lexpr_node b l x" "lexpr_node b r y"
  shows "lexpr_node b (LOr l r) (Operand (Some x) Or (Some y))" "lexpr_node b (LAnd l r) (Operand (Some x) And (Some y))"
  using assms unfolding lexpr_node_def by simp_all

lemma build_lexpr_fails: "\<not> all_visible (lnames c) b \<Longrightarrow> build_lexpr c b = Inl parse_error"
  and build_lexpr_ok: "all_visible (lnames c) b \<Longrightarrow> \<exists>n. build_lexpr c b = Inr n \<and> lexpr_node b c n"
proof (induction c)
  case (LExpr e)
  {
    case 1
    then show ?case using build_expr_fails by simp
  next
    case 2
    then show ?case using build_expr_ok [of e b] by (auto simp: expr_node_def lexpr_node_def)
  }
next
  case (LRel l op r)
  {
    case 1
    then show ?case using build_expr_fails build_expr_ok [of l b] by (cases "all_visible (names_of l) b") auto
  next
    case 2
    then obtain x y where "build_expr l b = Inr x" "expr_node b l x" "build_expr r b = Inr y" "expr_node b r y"
      using build_expr_ok [of l b] build_expr_ok [of r b] by auto
    then show ?case using lexpr_node_rel by (simp add: make_defs)
  }
next
  case (LOr l r)
  {
    case 1
    then show ?case using LOr by (cases "all_visible (lnames l) b") auto
  next
    case 2
    then obtain x y where "build_lexpr l b = Inr x" "lexpr_node b l x" "build_lexpr r b = Inr y" "lexpr_node b r y"
      using LOr(2,4) by auto
    then show ?case using lexpr_node_logic by (simp add: make_defs)
  }
next
  case (LAnd l r)
  {
    case 1
    then show ?case using LAnd by (cases "all_visible (lnames l) b") auto
  next
    case 2
    then obtain x y where "build_lexpr l b = Inr x" "lexpr_node b l x" "build_lexpr r b = Inr y" "lexpr_node b r y"
      using LAnd(2,4) by auto
    then show ?case using lexpr_node_logic by (simp add: make_defs)
  }
next
  case (LNot e)
  {
    case 1
    then show ?case using LNot(1) by simp
  next
    case 2
    then obtain y where "build_lexpr e b = Inr y" "lexpr_node b e y" using LNot(2) by auto
    then show ?case by (simp add: make_defs lexpr_node_def)
  }
qed


section \<open>The state of the parser\<close>

text \<open>The builder's invariant, and the tables hold the declarations under their names.\<close>

fun front_inv :: "front \<Rightarrow> bool" where
  "front_inv (b, ns) \<longleftrightarrow> bld_inv b \<and> next_decl b = length ns \<and> open_scopes b \<noteq> [] \<and>
     (\<forall>i x d. symtab_exists i x (Tables b) = Some d \<longrightarrow> d < length ns \<and> ns ! d = x)"

text \<open>The visible names are \<open>V\<close>, and the declarations they stand for are \<open>D\<close>.\<close>

definition sees :: "bld \<Rightarrow> string list \<Rightarrow> nat list \<Rightarrow> bool" where
  "sees b V D \<longleftrightarrow> (\<forall>x. x \<in> set V \<longleftrightarrow> scope_visible x b \<noteq> None) \<and> (\<forall>d. d \<in> set D \<longleftrightarrow> (\<exists>x. scope_visible x b = Some d))"

text \<open>The tables of the scopes around the current one are untouched.\<close>

definition frame :: "bld \<Rightarrow> bld \<Rightarrow> bool" where
  "frame b b' \<longleftrightarrow> next_scope b \<le> next_scope b' \<and>
     (\<forall>i \<in> set (map fst (tl (open_scopes b))). \<forall>x. symtab_exists i x (Tables b') = symtab_exists i x (Tables b))"

lemma frame_refl: "frame b b"
  by (simp add: frame_def)

lemma frame_trans: "frame b c \<Longrightarrow> frame c d \<Longrightarrow> tl (open_scopes c) = tl (open_scopes b) \<Longrightarrow> frame b d"
  by (auto simp: frame_def)

lemma visible_in_fst: "map fst sc = map fst sc' \<Longrightarrow> visible_in T sc x = visible_in T sc' x"
proof (induction sc arbitrary: sc')
  case (Cons p sc)
  then obtain q sc2 where sc': "sc' = q # sc2" by (cases sc') auto
  have "visible_in T sc x = visible_in T sc2 x" using Cons sc' by simp
  then show ?case using Cons(2) sc' by (cases p; cases q) (simp split: option.split)
qed simp

lemma visible_named:
  assumes "front_inv (b, ns)" "scope_visible x b = Some d"
  shows "d < length ns \<and> ns ! d = x"
proof -
  have "\<exists>i. symtab_exists i x T = Some d" if "visible_in T sc x = Some d" for T sc
    using that by (induction T sc x rule: visible_in.induct) (auto split: option.splits)
  from this [OF assms(2) [unfolded scope_visible_def]] show ?thesis using assms(1) by auto
qed

lemma sees_declD: "sees b V D \<Longrightarrow> d \<in> set D \<Longrightarrow> \<exists>x. scope_visible x b = Some d"
  by (simp add: sees_def)

lemma sees_all_visible: "sees b V D \<Longrightarrow> all_visible xs b \<longleftrightarrow> set xs \<subseteq> set V"
  by (auto simp: sees_def all_visible_def)

lemma sees_reads: "sees b V D \<Longrightarrow> reads b xs \<subseteq> set D"
  by (auto simp: sees_def reads_def)

text \<open>Declaring a name, or finding it.\<close>

lemma front_access_ok:
  assumes "front_inv (b, ns)" "sees b V D"
  shows "\<exists>d b' ns'. front_access x (b, ns) = Inr (d, b', ns') \<and> front_inv (b', ns') \<and> (\<exists>zs. ns' = ns @ zs) \<and>
    open_scopes b' = open_scopes b \<and> frame b b' \<and> d < length ns' \<and> ns' ! d = x \<and>
    (\<forall>y. scope_visible y b' = (if y = x then Some d else scope_visible y b)) \<and>
    (\<forall>d' \<in> set D. ns' ! d' = x \<longrightarrow> d' = d) \<and> (x \<in> set V \<or> x \<notin> set V \<and> scope_visible x b = None)"
proof -
  obtain i bs rest where o: "open_scopes b = (i, bs) # rest" using assms(1) by (cases "open_scopes b") auto
  have inv: "bld_inv b" using assms(1) by simp
  from inv o show ?thesis
  proof (cases rule: scope_access_cases [where x = x])
    case (old d)
    have d: "d < length ns" "ns ! d = x" using visible_named [OF assms(1) old(1)] by auto
    have "d' = d" if d': "d' \<in> set D" "ns ! d' = x" for d'
    proof -
      obtain y where y: "scope_visible y b = Some d'" using sees_declD [OF assms(2) d'(1)] by blast
      then show ?thesis using visible_named [OF assms(1) y] d'(2) old(1) by simp
    qed
    then show ?thesis using old assms d by (auto simp: front_access_def frame_refl sees_def)
  next
    case (new b')
    let ?ns = "ns @ [x]"
    have nd: "next_decl b = length ns" using assms(1) by simp
    have t: "symtab_exists j y (Tables b') = (if j = i \<and> y = x then Some (length ns) else symtab_exists j y (Tables b))" for j y
      using new(7) nd by (auto simp: st.lookup_add)
    have tab: "\<forall>j y d. symtab_exists j y (Tables b) = Some d \<longrightarrow> d < length ns \<and> ns ! d = y" using assms(1) by simp
    have "e < length ?ns \<and> ?ns ! e = y" if e: "symtab_exists j y (Tables b') = Some e" for j y e
    proof (cases "j = i \<and> y = x")
      case False
      then have "e < length ns \<and> ns ! e = y" using e tab by (simp add: t split: if_splits)
      then show ?thesis by (simp add: nth_append)
    qed (use e in \<open>auto simp: t nth_append\<close>)
    then have inv': "front_inv (b', ?ns)" using new(3,4,6) nd o by simp
    have fr: "frame b b'"
    proof -
      have "i \<notin> set (map fst rest)" using inv o by (auto simp: bld_inv_def)
      then show ?thesis using new(5) o by (auto simp: frame_def t)
    qed
    have vis: "scope_visible y b' = (if y = x then Some (length ns) else scope_visible y b)" for y
    proof (cases "y = x")
      case True
      then show ?thesis using scope_access_visible [OF inv _ new(2)] o nd by simp
    next
      case False
      then have "\<forall>j. symtab_exists j y (Tables b') = symtab_exists j y (Tables b)" by (simp add: t)
      then have "visible_in (Tables b') sc y = visible_in (Tables b) sc y" for sc
        by (induction sc) (auto split: option.split)
      then show ?thesis using False new(4) by (simp add: scope_visible_def)
    qed
    have out: "\<not> (d' \<in> set D \<and> ?ns ! d' = x)" for d'
    proof
      assume a: "d' \<in> set D \<and> ?ns ! d' = x"
      obtain y where y: "scope_visible y b = Some d'" using sees_declD [OF assms(2)] a by blast
      then show False using visible_named [OF assms(1) y] a new(1) by (simp add: nth_append)
    qed
    have "front_access x (b, ns) = Inr (length ns, b', ?ns)" using new(1,2) nd by (simp add: front_access_def)
    moreover have "x \<notin> set V" using new(1) assms(2) by (simp add: sees_def)
    ultimately show ?thesis using inv' fr vis out new(1,4) by auto
  qed
qed

text \<open>Opening a scope, and closing it again.\<close>

lemma visible_push: "bld_inv b \<Longrightarrow> scope_visible x (scope_push b) = scope_visible x b"
proof -
  assume "bld_inv b"
  then have "symtab_exists (next_scope b) x (Tables b) = None" unfolding bld_inv_def by (metis less_irrefl)
  then show ?thesis by (simp add: scope_visible_def scope_push_def)
qed

lemma push_ok: "front_inv (b, ns) \<Longrightarrow> sees b V D \<Longrightarrow> front_inv (scope_push b, ns) \<and> sees (scope_push b) V D"
  using bld_inv_push [of b] visible_push [of b] by (simp add: sees_def) (simp add: scope_push_def)

lemma close_ok:
  assumes "front_inv (b, ns)" "sees b V D" "front_inv (b2, ns2)" "frame (scope_push b) b2"
    "open_scopes b2 = (next_scope b, bs) # open_scopes b"
  shows "\<exists>b3. close_scope (b2, ns2) = Inr (Scope (next_scope b) bs, b3, ns2) \<and> front_inv (b3, ns2) \<and> frame b b3 \<and>
    open_scopes b3 = open_scopes b \<and> sees b3 V D"
proof -
  let ?b = "b2\<lparr>open_scopes := open_scopes b\<rparr>"
  have tab: "\<forall>i \<in> set (map fst (open_scopes b)). \<forall>x. symtab_exists i x (Tables b2) = symtab_exists i x (Tables b)"
    using assms(4) by (simp add: frame_def scope_push_def)
  have "scope_visible x ?b = scope_visible x b" for x
    using visible_in_cong [OF tab] by (simp add: scope_visible_def)
  then have "sees ?b V D" using assms(2) by (simp add: sees_def)
  moreover have "front_inv (?b, ns2)" using assms(1,3,5) by (auto simp: bld_inv_def)
  moreover have "frame b ?b"
    using assms(4) tab assms(1) by (cases "open_scopes b") (auto simp: frame_def scope_push_def)
  ultimately show ?thesis using assms(5) by (simp add: close_scope_def scope_reset_def)
qed


section \<open>Building statements\<close>

definition agrees_with :: "(nat \<Rightarrow> string) \<Rightarrow> string list \<Rightarrow> bool" where
  "agrees_with nm ns \<longleftrightarrow> (\<forall>d < length ns. nm d = ns ! d)"

text \<open>What the parser has after a statement or scope \<open>i\<close> that became the node \<open>n\<close>, and after a sequence.\<close>

definition grown :: "front \<Rightarrow> front \<Rightarrow> bool" where
  "grown st st' \<longleftrightarrow> front_inv st' \<and> (\<exists>zs. snd st' = snd st @ zs) \<and> frame (fst st) (fst st')"

definition built :: "string list \<Rightarrow> nat list \<Rightarrow> item \<Rightarrow> front \<Rightarrow> node \<Rightarrow> front \<Rightarrow> bool" where
  "built V D i st n st' \<longleftrightarrow> grown st st' \<and> open_scopes (fst st') = open_scopes (fst st) \<and>
     sees (fst st') (after V i) (assigned D n) \<and> (\<forall>d \<in> set (targets n). d < length (snd st')) \<and>
     (compilable_item V i \<longrightarrow> (\<forall>nm. agrees_with nm (snd st') \<longrightarrow> checked nm D n))"

definition built_all :: "string list \<Rightarrow> nat list \<Rightarrow> item list \<Rightarrow> front \<Rightarrow> node list \<Rightarrow> front \<Rightarrow> bool" where
  "built_all V D items st ms st' \<longleftrightarrow> grown st st' \<and>
     open_scopes (fst st') = (fst (hd (open_scopes (fst st))), snd (hd (open_scopes (fst st))) @ ms) # tl (open_scopes (fst st)) \<and>
     (\<forall>d \<in> set (targets_all ms). d < length (snd st')) \<and>
     (compilable_items V items \<longrightarrow> (\<forall>nm. agrees_with nm (snd st') \<longrightarrow> checked_all nm D ms))"

lemma grown_refl: "front_inv st \<Longrightarrow> grown st st"
  by (simp add: grown_def frame_refl)

lemma grown_trans: "grown st st1 \<Longrightarrow> grown st1 st2 \<Longrightarrow> tl (open_scopes (fst st1)) = tl (open_scopes (fst st)) \<Longrightarrow> grown st st2"
  unfolding grown_def using frame_trans by (metis append.assoc)

lemma grown_agrees: "agrees_with nm (snd st') \<Longrightarrow> grown st st' \<Longrightarrow> agrees_with nm (snd st)"
  by (auto simp: agrees_with_def grown_def nth_append)

lemma grown_length: "grown st st' \<Longrightarrow> d < length (snd st) \<Longrightarrow> d < length (snd st')"
  by (auto simp: grown_def)

lemma add_branch_ok:
  assumes "front_inv st" "open_scopes (fst st) = (i, bs) # sc"
  shows "\<exists>st'. add_branch n st = Inr st' \<and> grown st st' \<and> snd st' = snd st \<and> open_scopes (fst st') = (i, bs @ [n]) # sc \<and>
    (\<forall>V D. sees (fst st) V D \<longrightarrow> sees (fst st') V D)"
proof -
  obtain b ns where st: "st = (b, ns)" by (cases st)
  let ?b = "b\<lparr>open_scopes := (i, bs @ [n]) # sc\<rparr>"
  have "scope_visible x ?b = scope_visible x b" for x
    using assms(2) st by (auto simp: scope_visible_def intro!: visible_in_fst)
  then have "sees ?b V D = sees b V D" for V D by (simp add: sees_def)
  moreover have "front_inv (?b, ns)" using assms st by (auto simp: bld_inv_def)
  moreover have "frame b ?b" by (simp add: frame_def)
  ultimately show ?thesis using assms(2) st by (simp add: add_branch_def scope_addBranch_def grown_def)
qed

lemma built_assign:
  assumes "front_inv st" "sees (fst st) V D"
  shows "if scoped V (SAssign x e) then \<exists>n st'. build_stm (SAssign x e) st = Inr (n, st') \<and> built V D (Stm (SAssign x e)) st n st'
    else build_stm (SAssign x e) st = Inl parse_error"
proof -
  obtain b ns where st: "st = (b, ns)" by (cases st)
  obtain d b' ns' where a: "front_access x (b, ns) = Inr (d, b', ns')" "front_inv (b', ns')" "\<exists>zs. ns' = ns @ zs"
    "open_scopes b' = open_scopes b" "frame b b'" "d < length ns'" "ns' ! d = x"
    "\<And>y. scope_visible y b' = (if y = x then Some d else scope_visible y b)" "\<And>d'. d' \<in> set D \<Longrightarrow> ns' ! d' = x \<Longrightarrow> d' = d"
    using front_access_ok [of b ns V D x] assms st by (metis fst_conv)
  have sb: "sees b V D" using assms(2) st by simp
  have all: "all_visible (names_of e) b' \<longleftrightarrow> scoped V (SAssign x e)"
    using sb a(8) by (simp add: all_visible_def sees_def subset_iff) blast
  obtain zs where zs: "ns' = ns @ zs" using a(3) by blast
  have inv: "front_inv (b, ns)" using assms(1) st by simp
  have named: "d' < length ns'" "ns' ! d' = y" if "scope_visible y b = Some d'" for y d'
    using visible_named [OF inv that] by (simp_all add: zs nth_append)
  have mem: "d' \<in> set D" if "scope_visible y b = Some d'" for y d' using sb that by (auto simp: sees_def)
  have known: "d' < length ns'" if d': "d' \<in> set D" for d' using sees_declD [OF sb d'] named(1) by blast
  have old: "d' = d" if "scope_visible x b = Some d'" for d' using a(9) [OF mem [OF that] named(2) [OF that]] .
  have V: "y \<in> set V \<longleftrightarrow> scope_visible y b \<noteq> None" for y using sb by (simp add: sees_def)
  have new_sees: "sees b' (x # V) (d # D)"
    unfolding sees_def
  proof (intro conjI allI)
    show "y \<in> set (x # V) \<longleftrightarrow> scope_visible y b' \<noteq> None" for y using a(8) V by simp
    show "d' \<in> set (d # D) \<longleftrightarrow> (\<exists>y. scope_visible y b' = Some d')" for d'
    proof
      assume d': "d' \<in> set (d # D)"
      show "\<exists>y. scope_visible y b' = Some d'"
      proof (cases "d' = d")
        case True
        then show ?thesis using a(8) [of x] by auto
      next
        case False
        then obtain y where y: "scope_visible y b = Some d'" using d' sees_declD [OF sb] by auto
        then have "y \<noteq> x" using old False by blast
        then show ?thesis using y a(8) [of y] by auto
      qed
    next
      assume "\<exists>y. scope_visible y b' = Some d'"
      then obtain y where "scope_visible y b' = Some d'" by blast
      then show "d' \<in> set (d # D)" using a(8) [of y] mem [of y d'] by (simp split: if_splits)
    qed
  qed
  show ?thesis
  proof (cases "scoped V (SAssign x e)")
    case True
    then obtain m where m: "build_expr e b' = Inr m" "expr_node b' e m" using build_expr_ok all by blast
    let ?n = "Operand (Some (DeclRef d)) Assign (Some m)"
    have "checked nm D ?n" if c: "compilable V (SAssign x e)" "agrees_with nm ns'" for nm
    proof -
      have "reads b' (names_of e) \<subseteq> set D"
      proof
        fix d' assume "d' \<in> reads b' (names_of e)"
        then obtain y where y: "y \<in> set (names_of e)" "scope_visible y b' = Some d'" by (auto simp: reads_def)
        show "d' \<in> set D"
        proof (cases "y = x")
          case True
          then obtain d0 where "scope_visible x b = Some d0" using c(1) y(1) V by auto
          then show ?thesis using old mem y(2) a(8) True by simp
        next
          case False
          then show ?thesis using y(2) a(8) mem by simp
        qed
      qed
      moreover have "nm d' = nm d \<Longrightarrow> d' = d" if d': "d' \<in> set D" for d'
        using a(6,7,9) known [OF d'] c(2) d' by (simp add: agrees_with_def)
      ultimately show ?thesis using m(2) c(1) by (auto simp: expr_node_def)
    qed
    then have "built V D (Stm (SAssign x e)) st ?n (b', ns')"
      using a(2-6) new_sees st by (simp add: built_def grown_def)
    then show ?thesis using True a(1) m(1) st by (simp add: make_defs)
  next
    case False
    then show ?thesis using a(1) st build_expr_fails all by simp
  qed
qed


text \<open>The body of an \<^verbatim>\<open>if\<close> or \<^verbatim>\<open>while\<close> in the scope opened for it.\<close>

lemma built_body:
  assumes st: "front_inv st" "sees (fst st) V D"
    and body: "build_item i (scope_push (fst st), snd st) = Inr (n, st1)" "built V D i (scope_push (fst st), snd st) n st1"
  shows "\<exists>st2 st3. add_branch n st1 = Inr st2 \<and> close_scope st2 = Inr (Scope (next_scope (fst st)) [n], st3) \<and> grown st st3 \<and>
    open_scopes (fst st3) = open_scopes (fst st) \<and> sees (fst st3) V D \<and> snd st3 = snd st1"
proof -
  obtain b ns where b: "st = (b, ns)" by (cases st)
  have o: "open_scopes (fst st1) = (next_scope b, []) # open_scopes b" and g1: "grown (scope_push b, ns) st1"
    using body(2) b by (simp_all add: built_def scope_push_def)
  have f1: "front_inv st1" using g1 by (simp add: grown_def)
  obtain st2 where st2: "add_branch n st1 = Inr st2" "grown st1 st2" "snd st2 = snd st1"
    "open_scopes (fst st2) = (next_scope b, [n]) # open_scopes b"
    using add_branch_ok [OF f1 o, of n] by (simp del: split_paired_Ex) blast
  have "grown (scope_push b, ns) st2" using grown_trans [OF g1 st2(2)] o by (simp add: scope_push_def)
  then have "front_inv st2" "frame (scope_push b) (fst st2)" "\<exists>zs. snd st2 = ns @ zs" by (auto simp: grown_def)
  then obtain b3 where "close_scope st2 = Inr (Scope (next_scope b) [n], b3, snd st2)" "front_inv (b3, snd st2)" "frame b b3"
    "open_scopes b3 = open_scopes b" "sees b3 V D"
    using close_ok [of b ns V D "fst st2" "snd st2" "[n]"] st b st2(4) by auto
  then show ?thesis using st2 b \<open>\<exists>zs. snd st2 = ns @ zs\<close> by (auto simp: grown_def)
qed

lemma built_control:
  assumes st: "front_inv st" "sees (fst st) V D"
    and IH: "\<forall>st D. front_inv st \<longrightarrow> sees (fst st) V D \<longrightarrow>
      (if scoped_item V b then \<exists>n st'. build_item b st = Inr (n, st') \<and> built V D b st n st' else build_item b st = Inl parse_error)"
  defines "p \<equiv> (scope_push (fst st), snd st)"
  shows "if set (lnames c) \<subseteq> set V \<and> scoped_item V b then
      \<exists>x n st1 st2 sc st3. build_lexpr c (fst st) = Inr x \<and> build_item b p = Inr (n, st1) \<and> add_branch n st1 = Inr st2 \<and>
        close_scope st2 = Inr (sc, st3) \<and> built V D (Stm (SIf c b)) st (IfN x sc) st3 \<and> built V D (Stm (SWhile c b)) st (While x sc) st3
    else build_lexpr c (fst st) = Inl parse_error \<or> (\<exists>x. build_lexpr c (fst st) = Inr x) \<and> build_item b p = Inl parse_error"
proof (cases "set (lnames c) \<subseteq> set V")
  case True
  have p: "front_inv p" "sees (fst p) V D" using push_ok [of "fst st" "snd st"] st by (auto simp: p_def)
  obtain x where x: "build_lexpr c (fst st) = Inr x" "lexpr_node (fst st) c x"
    using True build_lexpr_ok sees_all_visible [OF st(2)] by blast
  show ?thesis
  proof (cases "scoped_item V b")
    case True
    then obtain n st1 where n: "build_item b p = Inr (n, st1)" "built V D b p n st1" using IH p by meson
    obtain st2 st3 where s: "add_branch n st1 = Inr st2" "close_scope st2 = Inr (Scope (next_scope (fst st)) [n], st3)" "grown st st3"
      "open_scopes (fst st3) = open_scopes (fst st)" "sees (fst st3) V D" "snd st3 = snd st1"
      using built_body [OF st n [unfolded p_def]] by blast
    have "built V D (Stm (SIf c b)) st (IfN x (Scope (next_scope (fst st)) [n])) st3"
      "built V D (Stm (SWhile c b)) st (While x (Scope (next_scope (fst st)) [n])) st3"
      using s n(2) x(2) sees_reads [OF st(2)] by (auto simp: built_def lexpr_node_def)
    then show ?thesis using True \<open>set (lnames c) \<subseteq> set V\<close> x(1) n(1) s(1,2) by (simp del: split_paired_Ex)
  next
    case False
    then have "build_item b p = Inl parse_error" using IH p by meson
    then show ?thesis using False x(1) by simp
  qed
next
  case False
  then show ?thesis using build_lexpr_fails sees_all_visible [OF st(2)] by simp
qed

lemma front_cases:
  "\<forall>st D. front_inv st \<longrightarrow> sees (fst st) V D \<longrightarrow>
     (if scoped V s then \<exists>n st'. build_stm s st = Inr (n, st') \<and> built V D (Stm s) st n st' else build_stm s st = Inl parse_error)"
  "\<forall>st D. front_inv st \<longrightarrow> sees (fst st) V D \<longrightarrow>
     (if scoped_item V i then \<exists>n st'. build_item i st = Inr (n, st') \<and> built V D i st n st' else build_item i st = Inl parse_error)"
  "\<forall>st D. front_inv st \<longrightarrow> sees (fst st) V D \<longrightarrow>
     (if scoped_items V items then \<exists>ms st'. build_stms items st = Inr st' \<and> built_all V D items st ms st'
      else build_stms items st = Inl parse_error)"
proof (induction V s and V i and V items rule: scoped_scoped_item_scoped_items.induct)
  case (1 V x e)
  show ?case using built_assign by blast
next
  case (2 V e)
  show ?case
  proof (intro allI impI)
    fix st D assume st: "front_inv st" "sees (fst st) V D"
    show "if scoped V (SOutput e) then \<exists>n st'. build_stm (SOutput e) st = Inr (n, st') \<and> built V D (Stm (SOutput e)) st n st'
      else build_stm (SOutput e) st = Inl parse_error"
    proof (cases "scoped V (SOutput e)")
      case True
      then obtain m where m: "build_expr e (fst st) = Inr m" "expr_node (fst st) e m"
        using build_expr_ok [of e "fst st"] sees_all_visible [OF st(2)] by auto
      have "built V D (Stm (SOutput e)) st (Operand None StdOut (Some m)) st"
        using st m(2) sees_reads [OF st(2)] by (auto simp: built_def grown_refl expr_node_def)
      then show ?thesis using True m(1) by (simp add: make_defs)
    next
      case False
      then show ?thesis using build_expr_fails sees_all_visible [OF st(2)] by simp
    qed
  qed
next
  case (3 V c b)
  show ?case
  proof (intro allI impI)
    fix st D assume st: "front_inv st" "sees (fst st) V D"
    show "if scoped V (SIf c b) then \<exists>n st'. build_stm (SIf c b) st = Inr (n, st') \<and> built V D (Stm (SIf c b)) st n st'
      else build_stm (SIf c b) st = Inl parse_error"
      using built_control [OF st 3, of c] by (auto simp: make_defs split: if_splits)
  qed
next
  case (4 V c b)
  show ?case
  proof (intro allI impI)
    fix st D assume st: "front_inv st" "sees (fst st) V D"
    show "if scoped V (SWhile c b) then \<exists>n st'. build_stm (SWhile c b) st = Inr (n, st') \<and> built V D (Stm (SWhile c b)) st n st'
      else build_stm (SWhile c b) st = Inl parse_error"
      using built_control [OF st 4, of c] by (auto simp: make_defs split: if_splits)
  qed
next
  case (5 V s)
  then show ?case by (simp only: scoped_item.simps build_item.simps)
next
  case (6 V items)
  show ?case
  proof (intro allI impI)
    fix st D assume st: "front_inv st" "sees (fst st) V D"
    let ?p = "(scope_push (fst st), snd st)"
    have p: "front_inv ?p" "sees (fst ?p) V D" using push_ok [of "fst st" "snd st"] st by auto
    show "if scoped_item V (Block items) then \<exists>n st'. build_item (Block items) st = Inr (n, st') \<and> built V D (Block items) st n st'
      else build_item (Block items) st = Inl parse_error"
    proof (cases "scoped_items V items")
      case True
      then obtain ms st1 where ms: "build_stms items ?p = Inr st1" "built_all V D items ?p ms st1" using 6 p by meson
      have g: "grown ?p st1" "open_scopes (fst st1) = (next_scope (fst st), ms) # open_scopes (fst st)"
        using ms(2) by (simp_all add: built_all_def scope_push_def)
      obtain b3 where b3: "close_scope st1 = Inr (Scope (next_scope (fst st)) ms, b3, snd st1)" "front_inv (b3, snd st1)"
        "frame (fst st) b3" "open_scopes b3 = open_scopes (fst st)" "sees b3 V D"
        using close_ok [of "fst st" "snd st" V D "fst st1" "snd st1" ms] st g by (auto simp: grown_def)
      have "built V D (Block items) st (Scope (next_scope (fst st)) ms) (b3, snd st1)"
        using b3 g(1) ms(2) by (auto simp: built_def built_all_def grown_def)
      then show ?thesis using True ms(1) b3(1) by auto
    next
      case False
      then have "build_stms items ?p = Inl parse_error" using 6 p by meson
      then show ?thesis using False by simp
    qed
  qed
next
  case (7 V)
  show ?case
  proof (intro allI impI)
    fix st D assume st: "front_inv st" "sees (fst st) V D"
    then have "open_scopes (fst st) \<noteq> []" by (cases st) simp
    then have "built_all V D [] st [] st" using st(1) by (simp add: built_all_def grown_refl)
    then show "if scoped_items V [] then \<exists>ms st'. build_stms [] st = Inr st' \<and> built_all V D [] st ms st'
      else build_stms [] st = Inl parse_error" by auto
  qed
next
  case (8 V i items)
  show ?case
  proof (intro allI impI)
    fix st D assume st: "front_inv st" "sees (fst st) V D"
    show "if scoped_items V (i # items) then \<exists>ms st'. build_stms (i # items) st = Inr st' \<and> built_all V D (i # items) st ms st'
      else build_stms (i # items) st = Inl parse_error"
    proof (cases "scoped_item V i")
      case True
      then obtain n st1 where n: "build_item i st = Inr (n, st1)" "built V D i st n st1" using 8(1) st by meson
      obtain j bs sc where o: "open_scopes (fst st) = (j, bs) # sc" using st(1) by (cases st; cases "open_scopes (fst st)") auto
      have g1: "grown st st1" "open_scopes (fst st1) = (j, bs) # sc" "sees (fst st1) (after V i) (assigned D n)"
        using n(2) o by (simp_all add: built_def)
      obtain st2 where st2: "add_branch n st1 = Inr st2" "grown st1 st2" "snd st2 = snd st1" "open_scopes (fst st2) = (j, bs @ [n]) # sc"
        "sees (fst st2) (after V i) (assigned D n)"
        using add_branch_ok [OF _ g1(2), of n] g1(1,3) by (auto simp: grown_def)
      have inv2: "front_inv st2" using st2(2) by (simp add: grown_def)
      show ?thesis
      proof (cases "scoped_items (after V i) items")
        case True
        then obtain ms st3 where ms: "build_stms items st2 = Inr st3" "built_all (after V i) (assigned D n) items st2 ms st3"
          using 8(2) inv2 st2(5) by meson
        have g12: "grown st st2" by (rule grown_trans [OF g1(1) st2(2)]) (simp add: g1(2) o)
        have g23: "grown st2 st3" using ms(2) by (simp add: built_all_def)
        have g: "grown st st3" by (rule grown_trans [OF g12 g23]) (simp add: st2(4) o)
        have "built_all V D (i # items) st (n # ms) st3"
          using g ms(2) n(2) st2(3,4) o grown_agrees [OF _ g23] grown_length [OF g23] by (auto simp: built_all_def built_def)
        then show ?thesis using \<open>scoped_item V i\<close> True n(1) st2(1) ms(1) by auto
      next
        case False
        then have "build_stms items st2 = Inl parse_error" using 8(2) inv2 st2(5) by meson
        then show ?thesis using False n(1) st2(1) by simp
      qed
    next
      case False
      then have "build_item i st = Inl parse_error" using 8(1) st by meson
      then show ?thesis using False by simp
    qed
  qed
qed


section \<open>Programs\<close>

lemma front_start: "front_inv (createScope, [])" "sees createScope [] []"
  by (simp_all add: bld_inv_create sees_def) (auto simp: createScope_def scope_visible_def symtab_exists_def)

lemma front_end_built:
  assumes "scoped_items [] p"
  shows "\<exists>tree names. front_end p = Inr (tree, names) \<and> (\<forall>d \<in> set (targets tree). decl_name names d \<in> set names) \<and>
    (compilable_items [] p \<longrightarrow> checked (decl_name names) [] tree)"
proof -
  obtain ms st where ms: "build_stms p (createScope, []) = Inr st" "built_all [] [] p (createScope, []) ms st"
    using front_cases(3) [of "[]" p, rule_format, OF front_start(1)] front_start(2) assms by (metis fst_conv)
  have o: "open_scopes (fst st) = [(0, ms)]" using ms(2) by (simp add: built_all_def createScope_def)
  have d: "\<forall>d \<in> set (targets_all ms). d < length (snd st)" using ms(2) by (simp add: built_all_def)
  have "agrees_with (decl_name (snd st)) (snd st)" by (simp add: agrees_with_def decl_name_def)
  then have c: "compilable_items [] p \<longrightarrow> checked_all (decl_name (snd st)) [] ms" using ms(2) by (simp add: built_all_def)
  have "front_end p = Inr (Scope 0 ms, snd st)"
    using ms(1) o by (simp add: front_end_def close_scope_def scope_reset_def)
  then show ?thesis using c d by (auto simp: decl_name_def)
qed

text \<open>
  C20. The front end accepts exactly the programs in which every name that is read was assigned before, in the same
  scope or one around it, or is the target of the assignment in which it is read: the action of the left side runs first, so that
  \<^verbatim>\<open>x = x + 1\<close> is accepted for a new name. Any other program is a parse error, which the drivers report and survive.
\<close>

theorem front_end_scoping:
  "((\<exists>tree names. front_end p = Inr (tree, names)) \<longleftrightarrow> scoped_items [] p) \<and>
    (\<not> scoped_items [] p \<longrightarrow> front_end p = Inl parse_error \<and>
      interpreter_main k ord (Some (Some p)) inp = Some (Inr ([], ''Exception: parse error'' @ endl)))"
proof (cases "scoped_items [] p")
  case True
  then show ?thesis using front_end_built by fastforce
next
  case False
  then have "front_end p = Inl parse_error"
    using front_cases(3) [of "[]" p, rule_format, OF front_start(1)] front_start(2) unfolding front_end_def by (metis bindE_Inl fst_conv)
  then show ?thesis using False by (simp add: interpreter_main_def OpenFile_def yyparse_def main_catch_def parse_error_def)
qed

text \<open>A name of an inner scope that is read after it.\<close>

theorem front_end_scoping_witness:
  "\<not> scoped_items [] [Stm (SAssign ''a'' EInput), Stm (SIf (LRel (EName ''a'') Greater (EValue 0)) (Block [Stm (SAssign ''t'' (EValue 1))])),
       Stm (SOutput (EName ''t''))] \<and>
   front_end [Stm (SAssign ''a'' EInput), Stm (SIf (LRel (EName ''a'') Greater (EValue 0)) (Block [Stm (SAssign ''t'' (EValue 1))])),
       Stm (SOutput (EName ''t''))] = Inl parse_error"
  using front_end_scoping [of "[Stm (SAssign ''a'' EInput), Stm (SIf (LRel (EName ''a'') Greater (EValue 0)) (Block [Stm (SAssign ''t'' (EValue 1))])),
       Stm (SOutput (EName ''t''))]"] by simp



definition fib_pcl :: "item list" where
  "fib_pcl =
     [Stm (SAssign ''n'' (EValue 0)), Stm (SAssign ''a'' (EValue 0)), Stm (SAssign ''b'' (EValue 1)), Stm (SAssign ''x'' EInput),
      Stm (SWhile (LRel (EName ''n'') Less (EName ''x'')) (Block
        [Stm (SAssign ''n'' (EBin (EName ''n'') Plus (EValue 1))),
         Stm (SIf (LRel (EName ''n'') Equal (EValue 1)) (Stm (SOutput (EName ''a'')))),
         Stm (SIf (LRel (EName ''n'') Equal (EValue 2)) (Stm (SOutput (EName ''b'')))),
         Stm (SIf (LRel (EName ''n'') Greater (EValue 2)) (Block
           [Stm (SAssign ''tmp'' (EName ''b'')), Stm (SAssign ''b'' (EBin (EName ''a'') Plus (EName ''b''))),
            Stm (SAssign ''a'' (EName ''tmp'')), Stm (SOutput (EName ''b''))]))]))]"


lemma fib_front: "front_end fib_pcl = Inr (fib_program, [''n'', ''a'', ''b'', ''x'', ''tmp''])"
  by code_simp


end
