(* ===== verification/Loops.thy ===== *)
theory Loops
  imports Prelude
begin

text \<open>
  Counting loops: \<^verbatim>\<open>for (i = 0; i < n; ++i)\<close> over a state, with an early exit on an error, and what nested loops
  that write one array element per round leave in the array. Arithmetic in \<^verbatim>\<open>int\<close>, where an overflow is undefined behaviour.
\<close>

section \<open>Arithmetic in \<^verbatim>\<open>int\<close>\<close>

definition int_ok :: "int \<Rightarrow> bool" where
  "int_ok x \<longleftrightarrow> - (2 ^ 31) \<le> x \<and> x < 2 ^ 31"

definition int_result :: "int \<Rightarrow> int res" where
  "int_result x = (if int_ok x then Inr x else Inl Undefined_behaviour)"

definition int_mul :: "int \<Rightarrow> int \<Rightarrow> int res" where
  "int_mul x y = int_result (x * y)"

definition int_add :: "int \<Rightarrow> int \<Rightarrow> int res" where
  "int_add x y = int_result (x + y)"

text \<open>\<^verbatim>\<open>x += y * z\<close>: first the product, then the sum.\<close>

definition int_mac :: "int \<Rightarrow> int \<Rightarrow> int \<Rightarrow> int res" where
  "int_mac x y z = bindE (int_mul y z) (int_add x)"

lemma int_result_simps [simp]:
  "int_ok x \<Longrightarrow> int_result x = Inr x" "\<not> int_ok x \<Longrightarrow> int_result x = Inl Undefined_behaviour"
  by (simp_all add: int_result_def)

lemma int_ok_0 [simp]: "int_ok 0"
  by (simp add: int_ok_def)

lemma int_mac_cases: "int_mac x y z = (if int_ok (y * z) \<and> int_ok (x + y * z) then Inr (x + y * z) else Inl Undefined_behaviour)"
  by (cases "int_ok (y * z)") (simp_all add: int_mac_def int_mul_def int_add_def int_result_def)

text \<open>A conversion to \<^verbatim>\<open>size_t\<close>, and the size of a vector of \<open>x * y\<close> elements, whose constructor throws when it is negative.\<close>

definition size_arg :: "int \<Rightarrow> nat" where
  "size_arg x = nat (x mod 2 ^ 64)"

definition vec_size :: "int \<Rightarrow> int \<Rightarrow> nat res" where
  "vec_size x y = bindE (int_mul x y) (\<lambda>s. if s < 0 then Inl Length_error else Inr (nat s))"

lemma int_ok_nat: "m < 2 ^ 31 \<Longrightarrow> int_ok (int m)"
  by (simp add: int_ok_def)

lemma int_mul_int: "m * n < 2 ^ 31 \<Longrightarrow> int_mul (int m) (int n) = Inr (int (m * n))"
  using int_ok_nat [of "m * n"] by (simp add: int_mul_def)

lemma vec_size_int: "m * n < 2 ^ 31 \<Longrightarrow> vec_size (int m) (int n) = Inr (m * n)"
  by (simp add: vec_size_def int_mul_int del: of_nat_mult)

lemma size_arg_int [simp]: "m < 2 ^ 31 \<Longrightarrow> size_arg (int m) = m"
  by (simp add: size_arg_def)

section \<open>Loops\<close>

primrec for_n :: "nat \<Rightarrow> (nat \<Rightarrow> 's \<Rightarrow> 'e + 's) \<Rightarrow> 's \<Rightarrow> 'e + 's" where
  "for_n 0 f s = Inr s"
| "for_n (Suc n) f s = bindE (for_n n f s) (f n)"

lemma for_n_inv:
  assumes "P 0 s" "\<And>i s. i < n \<Longrightarrow> P i s \<Longrightarrow> \<exists>s'. f i s = Inr s' \<and> P (Suc i) s'"
  shows "\<exists>s'. for_n n f s = Inr s' \<and> P n s'"
  using assms(2)
proof (induction n)
  case (Suc n)
  then obtain s1 where s1: "for_n n f s = Inr s1" "P n s1" by (metis less_SucI)
  then show ?case using Suc.prems [of n s1] by auto
qed (use assms(1) in simp)

lemma for_n_total:
  "(\<And>i s. i < n \<Longrightarrow> f i s = Inr (g s i)) \<Longrightarrow> for_n n f s = Inr (foldl g s [0..<n])"
  by (induction n) simp_all

lemma for_n_cong: "(\<And>i s. i < n \<Longrightarrow> f i s = g i s) \<Longrightarrow> for_n n f s = for_n n g s"
  by (induction n) (auto simp: bindE_def split: sum.split)

lemma for_n_fails_first:
  assumes "k < n" "\<And>i s. i < k \<Longrightarrow> P i s \<Longrightarrow> \<exists>s'. f i s = Inr s' \<and> P (Suc i) s'" "P 0 s"
    and "\<And>s. P k s \<Longrightarrow> f k s = Inl e"
  shows "for_n n f s = Inl e"
proof -
  obtain s' where "for_n k f s = Inr s'" "P k s'" using for_n_inv [of P s k f] assms(2,3) by blast
  then have "for_n (Suc k) f s = Inl e" using assms(4) by simp
  moreover have "for_n (Suc k + d) f s = Inl e" for d
    using \<open>for_n (Suc k) f s = Inl e\<close> by (induction d) simp_all
  ultimately show ?thesis using assms(1) by (metis Suc_leI le_iff_add)
qed

text \<open>A loop over the elements of a list.\<close>

primrec foldE :: "('a \<Rightarrow> 's \<Rightarrow> 'e + 's) \<Rightarrow> 'a list \<Rightarrow> 's \<Rightarrow> 'e + 's" where
  "foldE f [] s = Inr s"
| "foldE f (x # xs) s = bindE (f x s) (foldE f xs)"

lemma foldE_append: "foldE f (xs @ ys) s = bindE (foldE f xs s) (foldE f ys)"
  by (induction xs arbitrary: s) (simp_all add: bindE_def split: sum.split)

lemma foldE_nested: "foldE (\<lambda>x. foldE f (g x)) xs s = foldE f (concat (map g xs)) s"
  by (induction xs arbitrary: s) (simp_all add: foldE_append bindE_def split: sum.split)

text \<open>
  Two nested loops whose body writes \<open>g i j\<close> at the index \<open>idx i j\<close>: afterwards every such index holds its value.
\<close>

lemma row_fill:
  assumes body: "\<And>j C. j < n \<Longrightarrow> length C = N \<Longrightarrow> body j C = Inr (C[ix j := g j])"
    and ix: "\<And>j. j < n \<Longrightarrow> ix j < N" "\<And>j j'. j < n \<Longrightarrow> j' < n \<Longrightarrow> ix j = ix j' \<Longrightarrow> j = j'"
    and C: "length C = N"
  shows "\<exists>C'. for_n n body C = Inr C' \<and> length C' = N \<and> (\<forall>j < n. C' ! ix j = g j) \<and>
    (\<forall>p < N. (\<forall>j < n. p \<noteq> ix j) \<longrightarrow> C' ! p = C ! p)"
proof -
  let ?P = "\<lambda>k D. length D = N \<and> (\<forall>j < k. D ! ix j = g j) \<and> (\<forall>p < N. (\<forall>j < k. p \<noteq> ix j) \<longrightarrow> D ! p = C ! p)"
  have "\<exists>D'. body k D = Inr D' \<and> ?P (Suc k) D'" if k: "k < n" and D: "?P k D" for k D
  proof -
    have "D[ix k := g k] ! ix j = g j" if "j < Suc k" for j
      using that k D ix(1) [of k] ix(2) [of j k] by (cases "j = k") (auto simp: nth_list_update)
    moreover have "D[ix k := g k] ! p = C ! p" if "p < N" "\<forall>j < Suc k. p \<noteq> ix j" for p
    proof -
      have "p \<noteq> ix k" "\<forall>j < k. p \<noteq> ix j" using that(2) by auto
      then show ?thesis using that(1) D by simp
    qed
    ultimately show ?thesis using body [OF k, of D] D by auto
  qed
  then show ?thesis using for_n_inv [of ?P C n body] C by simp
qed

lemma nested_fill:
  assumes body: "\<And>i j C. i < m \<Longrightarrow> j < n \<Longrightarrow> length C = N \<Longrightarrow> body i j C = Inr (C[idx i j := g i j])"
    and ix: "\<And>i j. i < m \<Longrightarrow> j < n \<Longrightarrow> idx i j < N"
    and inj: "\<And>i j i' j'. i < m \<Longrightarrow> j < n \<Longrightarrow> i' < m \<Longrightarrow> j' < n \<Longrightarrow> idx i j = idx i' j' \<Longrightarrow> i = i' \<and> j = j'"
    and C: "length C = N"
  shows "\<exists>C'. for_n m (\<lambda>i. for_n n (body i)) C = Inr C' \<and> length C' = N \<and> (\<forall>i < m. \<forall>j < n. C' ! idx i j = g i j)"
proof -
  let ?P = "\<lambda>k D. length D = N \<and> (\<forall>i < k. \<forall>j < n. D ! idx i j = g i j)"
  have "\<exists>D'. for_n n (body k) D = Inr D' \<and> ?P (Suc k) D'" if k: "k < m" and D: "?P k D" for k D
  proof -
    obtain D' where D': "for_n n (body k) D = Inr D'" "length D' = N" "\<forall>j < n. D' ! idx k j = g k j"
      "\<forall>p < N. (\<forall>j < n. p \<noteq> idx k j) \<longrightarrow> D' ! p = D ! p"
      using row_fill [of n N "body k" "idx k" "g k" D] body [OF k] ix [OF k] inj [OF k _ k] D by blast
    have "D' ! idx i j = g i j" if "i < k" "j < n" for i j
    proof -
      have "idx i j \<noteq> idx k j'" if "j' < n" for j' using inj [of i j k j'] \<open>i < k\<close> \<open>j < n\<close> k that by auto
      then show ?thesis using D'(4) ix [of i j] D k that by simp
    qed
    then show ?thesis using D' by (auto simp: less_Suc_eq)
  qed
  then show ?thesis using for_n_inv [of ?P C m "\<lambda>i. for_n n (body i)"] C by simp
qed

text \<open>Row-major indices.\<close>

lemma row_index: "i < m \<Longrightarrow> j < n \<Longrightarrow> i * n + j < m * (n :: nat)"
  by (metis add.commute mult_Suc add_less_le_mono Suc_leI le_trans mult_le_mono1 add_strict_left_mono less_le_trans)

lemma row_index_inj: "i * n + j = i' * n + j' \<Longrightarrow> j < n \<Longrightarrow> j' < (n :: nat) \<Longrightarrow> i = i' \<and> j = j'"
  by (metis add.commute add_cancel_right_right div_less div_mult_self3 mod_less mod_mult_self3 not_less_zero)

text \<open>Running a loop on a part of a larger state.\<close>

lemma for_n_lift:
  assumes "\<And>i s. f i (w s) = map_sum id w (g i s)"
  shows "for_n n f (w s) = map_sum id w (for_n n g s)"
proof (induction n)
  case (Suc n)
  then show ?case by (cases "for_n n g s") (simp_all add: assms id_def)
qed simp

text \<open>A loop with a round that always fails fails, when all rounds can only fail in the same way.\<close>

lemma for_n_safe:
  assumes "P s" "\<And>i s. i < n \<Longrightarrow> P s \<Longrightarrow> f i s = Inl e \<or> (\<exists>s'. f i s = Inr s' \<and> P s')"
  shows "for_n n f s = Inl e \<or> (\<exists>s'. for_n n f s = Inr s' \<and> P s')"
  using assms(2)
proof (induction n)
  case (Suc n)
  then have "for_n n f s = Inl e \<or> (\<exists>s'. for_n n f s = Inr s' \<and> P s')" using less_SucI by blast
  then show ?case using Suc.prems [of n] by (metis bindE_Inl bindE_Inr for_n.simps(2) lessI)
qed (use assms(1) in simp)

lemma for_n_must_fail:
  assumes "P s" "\<And>i s. i < n \<Longrightarrow> P s \<Longrightarrow> f i s = Inl e \<or> (\<exists>s'. f i s = Inr s' \<and> P s')"
    and "k < n" "\<And>s. P s \<Longrightarrow> f k s = Inl e"
  shows "for_n n f s = Inl e"
  using assms(2,3)
proof (induction n)
  case (Suc n)
  show ?case
  proof (cases "k = n")
    case True
    have "for_n n f s = Inl e \<or> (\<exists>s'. for_n n f s = Inr s' \<and> P s')"
      using for_n_safe [of P s n f e] assms(1) Suc.prems(1) less_SucI by blast
    then show ?thesis using True assms(4) by auto
  next
    case False
    then have "for_n n f s = Inl e" using Suc less_SucI by force
    then show ?thesis by simp
  qed
qed simp

end
