(* ===== verification/Gemm.thy ===== *)
theory Gemm
  imports Loops Input
begin

text \<open>
  Matrix multiplication on the host: \<^verbatim>\<open>11-compute/cl_gemm.cc\<close> (options, reference multiplications, the
  offloading method and the comparison of both results) and \<^verbatim>\<open>14-iterators/matrix_repro.cc\<close> with its earlier
  version in \<^verbatim>\<open>archive/interesting\<close>. The element type, \<^verbatim>\<open>float\<close> by default, is any type with total zero, addition and
  multiplication, no laws assumed, and the comparison \<^verbatim>\<open>!=\<close> is a parameter, because a NaN differs from itself. Arrays
  are lists with checked access. The sizes of the arrays are computed in \<^verbatim>\<open>int\<close>, where an overflow is undefined behaviour; an
  index inside such an array does not overflow. OpenCL is a parameter: what copying to a buffer and running a kernel give.
\<close>

section \<open>Options\<close>

text \<open>\<^verbatim>\<open>std::from_chars\<close> for \<^verbatim>\<open>int\<close>: the new value, and whether the text was no number. A number out of range changes nothing.\<close>

definition from_chars_int :: "string \<Rightarrow> int \<Rightarrow> int \<times> bool" where
  "from_chars_int t old =
     (let neg = (t \<noteq> [] \<and> hd t = CHR ''-'');
          ds = takeWhile isdigit (if neg then tl t else t);
          v = foldl (\<lambda>a d. 10 * a + digit_val d) 0 ds;
          w = (if neg then - v else v) in
      if ds = [] then (old, True)
      else if - (2 ^ 31) \<le> w \<and> w < 2 ^ 31 then (w, False)
      else (old, False))"

definition starts_with :: "string \<Rightarrow> string \<Rightarrow> bool" where
  "starts_with t p = (take (length p) t = p)"

record gemm_cfg =
  AX :: int
  AY :: int
  BY :: int
  LSZ :: int
  PATH :: string

definition gemm_default :: gemm_cfg where
  "gemm_default = \<lparr>AX = 512, AY = 512, BY = 512, LSZ = 1, PATH = ''gemm_simple.cl''\<rparr>"

text \<open>The message for an option that cannot be parsed, on the error stream.\<close>

definition no_parse :: "bool \<Rightarrow> string \<Rightarrow> string" where
  "no_parse bad opt = (if bad then ''Can not parse '' @ opt @ '' option, using default'' @ endl else [])"

fun gemm_readCfg :: "string list \<Rightarrow> gemm_cfg \<Rightarrow> string \<Rightarrow> gemm_cfg res \<times> string" where
  "gemm_readCfg [] Cfg err = (Inr Cfg, err)"
| "gemm_readCfg (Argvi # rest) Cfg err =
     (if starts_with Argvi ''-ax='' then
        (let (v, bad) = from_chars_int (drop 4 Argvi) (AX Cfg) in
         gemm_readCfg rest (Cfg\<lparr>AX := v\<rparr>) (err @ no_parse bad ''-ax''))
      else if starts_with Argvi ''-ay='' then
        (let (v, bad) = from_chars_int (drop 4 Argvi) (AY Cfg) in
         gemm_readCfg rest (Cfg\<lparr>AY := v\<rparr>) (err @ no_parse bad ''-ay''))
      else if starts_with Argvi ''-by='' then
        (let (v, bad) = from_chars_int (drop 4 Argvi) (BY Cfg) in
         gemm_readCfg rest (Cfg\<lparr>BY := v\<rparr>) (err @ no_parse bad ''-by''))
      else if starts_with Argvi ''-lsz='' then
        (let (v, bad) = from_chars_int (drop 5 Argvi) (LSZ Cfg) in
         gemm_readCfg rest (Cfg\<lparr>LSZ := v\<rparr>) (err @ no_parse bad ''-lsz''))
      else if starts_with Argvi ''-kernel='' then
        gemm_readCfg rest (Cfg\<lparr>PATH := drop 8 Argvi\<rparr>) err
      else (Inl (Option_error Argvi), err))"

definition gemm_dump :: "gemm_cfg \<Rightarrow> string" where
  "gemm_dump Cfg =
     ''['' @ string_of_int (AX Cfg) @ '' x '' @ string_of_int (AY Cfg) @ ''] * '' @
     ''['' @ string_of_int (AY Cfg) @ '' x '' @ string_of_int (BY Cfg) @ '']'' @ endl @
     ''local size = ['' @ string_of_int (LSZ Cfg) @ '' x '' @ string_of_int (LSZ Cfg) @ '']'' @ endl @
     ''kernel path = '' @ PATH Cfg"

section \<open>Reference multiplications\<close>

text \<open>The basic version.\<close>

definition matrix_mult_ref ::
    "'a :: {zero, plus, times} list \<Rightarrow> 'a list \<Rightarrow> 'a list \<Rightarrow> int \<Rightarrow> int \<Rightarrow> int \<Rightarrow> 'a list res" where
  "matrix_mult_ref A B C ax ay bby =
     (if \<not> (ax > 0 \<and> ay > 0 \<and> bby > 0) then Inl Assertion_failed
      else
        for_n (nat ax) (\<lambda>i. for_n (nat bby) (\<lambda>j C.
          bindE (for_n (nat ay) (\<lambda>k acc.
                   bindE (vec_get A (i * nat ay + k)) (\<lambda>a.
                   bindE (vec_get B (k * nat bby + j)) (\<lambda>b. Inr (acc + a * b)))) 0) (\<lambda>acc.
          vec_set C (i * nat bby + j) acc))) C)"

text \<open>Copying the transposed second matrix, common to the cache-friendly versions.\<close>

definition transpose_loop :: "'a list \<Rightarrow> nat \<Rightarrow> nat \<Rightarrow> 'a list \<Rightarrow> 'a list res" where
  "transpose_loop B ay bby tmp =
     for_n ay (\<lambda>i. for_n bby (\<lambda>j tmp. bindE (vec_get B (i * bby + j)) (\<lambda>b. vec_set tmp (j * ay + i) b))) tmp"

definition transpose_mult_ref ::
    "'a :: {zero, plus, times} list \<Rightarrow> 'a list \<Rightarrow> 'a list \<Rightarrow> int \<Rightarrow> int \<Rightarrow> int \<Rightarrow> 'a list res" where
  "transpose_mult_ref A B C ax ay bby =
     (if \<not> (ax > 0 \<and> ay > 0 \<and> bby > 0) then Inl Assertion_failed
      else
        bindE (transpose_loop B (nat ay) (nat bby) (replicate (nat bby * nat ay) 0)) (\<lambda>tmp.
        for_n (nat ax) (\<lambda>i. for_n (nat bby) (\<lambda>j C.
          bindE (for_n (nat ay) (\<lambda>k acc.
                   bindE (vec_get A (i * nat ay + k)) (\<lambda>a.
                   bindE (vec_get tmp (j * nat ay + k)) (\<lambda>b. Inr (acc + a * b)))) 0) (\<lambda>acc.
          vec_set C (i * nat bby + j) acc))) C))"

text \<open>Printing a matrix, given how an element is printed.\<close>

definition outm :: "('a \<Rightarrow> string) \<Rightarrow> 'a list \<Rightarrow> nat \<Rightarrow> nat \<Rightarrow> string res" where
  "outm sh M MX MY =
     for_n MX (\<lambda>i t.
       bindE (for_n MY (\<lambda>j t. bindE (vec_get M (i * MY + j)) (\<lambda>x. Inr (t @ sh x @ '' ''))) t) (\<lambda>t. Inr (t @ endl))) []"

section \<open>Offloading\<close>

text \<open>\<^verbatim>\<open>OclApp\<close>: the kernel text gets its definitions in front.\<close>

definition gemm_kernel_text :: "string \<Rightarrow> gemm_cfg \<Rightarrow> string \<Rightarrow> string" where
  "gemm_kernel_text stype Cfg file =
     ''#define TS '' @ string_of_int (LSZ Cfg) @ endl @ ''#define TYPE '' @ stype @ endl @ file"

text \<open>The elements \<^verbatim>\<open>[p, p + n)\<close> of an array, all of which must exist.\<close>

definition host_range :: "'a list \<Rightarrow> nat \<Rightarrow> 'a list res" where
  "host_range xs n = (if n \<le> length xs then Inr (take n xs) else Inl Undefined_behaviour)"

text \<open>
  \<^verbatim>\<open>mmult\<close>. \<open>copy_to xs n\<close> is what a buffer of \<open>n\<close> elements holds after \<^verbatim>\<open>cl::copy\<close> of \<open>xs\<close> into it, \<open>run\<close> what the
  result buffer holds after the kernel ran on the global range \<^verbatim>\<open>(AX, BY)\<close> with the local range
  \<^verbatim>\<open>(LSZ, LSZ)\<close>, or the error with which OpenCL rejects it. The second copy takes the number of elements of the first matrix.
\<close>

definition mmult :: "('a list \<Rightarrow> nat \<Rightarrow> 'a list res) \<Rightarrow>
    (string \<Rightarrow> nat \<times> nat \<Rightarrow> nat \<times> nat \<Rightarrow> 'a list \<Rightarrow> 'a list \<Rightarrow> int \<Rightarrow> int \<Rightarrow> int \<Rightarrow> 'a list res) \<Rightarrow>
    string \<Rightarrow> gemm_cfg \<Rightarrow> 'a list \<Rightarrow> 'a list \<Rightarrow> int \<Rightarrow> int \<Rightarrow> int \<Rightarrow> 'a list res" where
  "mmult copy_to run K Cfg APtr BPtr ax ay bby =
     bindE (int_mul ax ay) (\<lambda>a. bindE (int_mul ay bby) (\<lambda>b. bindE (int_mul ax bby) (\<lambda>c.
     let ASz = size_arg a; BSz = size_arg b; CSz = size_arg c in
     bindE (bindE (host_range APtr ASz) (\<lambda>xs. copy_to xs ASz)) (\<lambda>A.
     bindE (bindE (host_range BPtr ASz) (\<lambda>xs. copy_to xs BSz)) (\<lambda>B.
     bindE (run K (size_arg ax, size_arg bby) (size_arg (LSZ Cfg), size_arg (LSZ Cfg)) A B ax ay bby) (\<lambda>C.
     host_range C CSz))))))"

text \<open>
  The comparison in \<^verbatim>\<open>main\<close>: the first index where the results differ, for the operator \<open>ne\<close>. The constructors of the vectors
  in \<^verbatim>\<open>main\<close> throw when a size is negative.
\<close>

definition gemm_compare :: "('a \<Rightarrow> 'a \<Rightarrow> bool) \<Rightarrow> 'a list \<Rightarrow> 'a list \<Rightarrow> nat \<Rightarrow> nat option res" where
  "gemm_compare ne C CCPU n =
     for_n n (\<lambda>i r. case r of Some e \<Rightarrow> Inr (Some e) | None \<Rightarrow>
       bindE (vec_get C i) (\<lambda>lhs. bindE (vec_get CCPU i) (\<lambda>rhs. Inr (if ne lhs rhs then Some i else None)))) None"

definition gemm_main :: "('a \<Rightarrow> 'a \<Rightarrow> bool) \<Rightarrow> ('a :: {zero, plus, times} list \<Rightarrow> nat \<Rightarrow> 'a list res) \<Rightarrow>
    (string \<Rightarrow> nat \<times> nat \<Rightarrow> nat \<times> nat \<Rightarrow> 'a list \<Rightarrow> 'a list \<Rightarrow> int \<Rightarrow> int \<Rightarrow> int \<Rightarrow> 'a list res) \<Rightarrow>
    string \<Rightarrow> gemm_cfg \<Rightarrow> 'a list \<Rightarrow> 'a list \<Rightarrow> nat option res" where
  "gemm_main ne copy_to run K Cfg A B =
     bindE (vec_size (AX Cfg) (AY Cfg)) (\<lambda>_. bindE (vec_size (AY Cfg) (BY Cfg)) (\<lambda>_. bindE (vec_size (AX Cfg) (BY Cfg)) (\<lambda>csz.
     bindE (mmult copy_to run K Cfg A B (AX Cfg) (AY Cfg) (BY Cfg)) (\<lambda>C.
     bindE (transpose_mult_ref A B (replicate csz 0) (AX Cfg) (AY Cfg) (BY Cfg)) (\<lambda>CCPU.
     gemm_compare ne C CCPU csz)))))"

text \<open>The kernel \<^verbatim>\<open>gemm_simple.cl\<close>: one work item per element of the result.\<close>

definition kernel_simple :: "'a :: {zero, plus, times} list \<Rightarrow> 'a list \<Rightarrow> nat \<Rightarrow> nat \<Rightarrow> nat \<Rightarrow> 'a list" where
  "kernel_simple A B ax ay bby =
     map (\<lambda>p. foldl (\<lambda>sum k. sum + A ! (p div bby * ay + k) * B ! (k * bby + p mod bby)) 0 [0..<ay]) [0..<ax * bby]"

section \<open>Both reference versions compute the product\<close>

definition entry :: "'a :: {zero, plus, times} list \<Rightarrow> 'a list \<Rightarrow> nat \<Rightarrow> nat \<Rightarrow> nat \<Rightarrow> nat \<Rightarrow> 'a" where
  "entry A B ay bby i j = foldl (\<lambda>acc k. acc + A ! (i * ay + k) * B ! (k * bby + j)) 0 [0..<ay]"

lemma kernel_simple_nth: "i < ax \<Longrightarrow> j < bby \<Longrightarrow> kernel_simple A B ax ay bby ! (i * bby + j) = entry A B ay bby i j"
  by (simp add: kernel_simple_def entry_def row_index)

lemma length_kernel_simple [simp]: "length (kernel_simple A B ax ay bby) = ax * bby"
  by (simp add: kernel_simple_def)

text \<open>An array of \<open>ax * bby\<close> elements is determined by its entries.\<close>

lemma matrix_eqI:
  assumes "length C = ax * bby" "length D = ax * bby" "\<And>i j. i < ax \<Longrightarrow> j < bby \<Longrightarrow> C ! (i * bby + j) = D ! (i * bby + j)"
  shows "C = D"
proof (rule nth_equalityI)
  fix p assume "p < length C"
  then have p: "p < ax * bby" using assms(1) by simp
  then have "0 < bby" by (cases "bby = 0") auto
  then have "p div bby < ax" "p mod bby < bby" using p by (simp_all add: less_mult_imp_div_less)
  from assms(3) [OF this] show "C ! p = D ! p" by simp
qed (use assms in simp)

lemma dot_loop:
  assumes "\<And>k. k < n \<Longrightarrow> f k < length A" "\<And>k. k < n \<Longrightarrow> g k < length B"
  shows "for_n n (\<lambda>k acc. bindE (vec_get A (f k)) (\<lambda>a. bindE (vec_get B (g k)) (\<lambda>b. Inr (acc + a * b)))) z =
    Inr (foldl (\<lambda>acc k. acc + A ! f k * B ! g k) z [0..<n])"
  using assms by (intro for_n_total) simp

lemma foldl_upt_cong: "(\<And>k a. k < n \<Longrightarrow> f a k = g a k) \<Longrightarrow> foldl f z [0..<n] = foldl g z [0..<n]"
  by (rule foldl_cong) auto

text \<open>The loops over the result, with any second array that supplies the right factors.\<close>

lemma product_loops:
  assumes A: "length A = ax * ay" and C: "length C = ax * bby"
    and T: "\<And>j k. j < bby \<Longrightarrow> k < ay \<Longrightarrow> h j k < length T \<and> T ! h j k = B ! (k * bby + j)"
  shows "for_n ax (\<lambda>i. for_n bby (\<lambda>j C.
      bindE (for_n ay (\<lambda>k acc. bindE (vec_get A (i * ay + k)) (\<lambda>a. bindE (vec_get T (h j k)) (\<lambda>b. Inr (acc + a * b)))) 0)
        (\<lambda>acc. vec_set C (i * bby + j) acc))) C = Inr (kernel_simple A B ax ay bby)"
    (is "for_n ax (\<lambda>i. for_n bby (?body i)) C = _")
proof -
  have body: "?body i j D = Inr (D[i * bby + j := entry A B ay bby i j])"
    if "i < ax" "j < bby" "length D = ax * bby" for i j D
  proof -
    have "for_n ay (\<lambda>k acc. bindE (vec_get A (i * ay + k)) (\<lambda>a. bindE (vec_get T (h j k)) (\<lambda>b. Inr (acc + a * b)))) 0 =
        Inr (foldl (\<lambda>acc k. acc + A ! (i * ay + k) * T ! h j k) 0 [0..<ay])"
      using T that(2) row_index [OF that(1), of _ ay] A by (intro dot_loop) auto
    also have "foldl (\<lambda>acc k. acc + A ! (i * ay + k) * T ! h j k) 0 [0..<ay] = entry A B ay bby i j"
      unfolding entry_def using T that(2) by (intro foldl_upt_cong) simp
    finally show ?thesis using row_index [OF that(1,2)] that(3) by simp
  qed
  have "\<exists>C'. for_n ax (\<lambda>i. for_n bby (?body i)) C = Inr C' \<and> length C' = ax * bby \<and>
      (\<forall>i < ax. \<forall>j < bby. C' ! (i * bby + j) = entry A B ay bby i j)"
  proof (rule nested_fill)
    show "i = i' \<and> j = j'" if "i < ax" "j < bby" "i' < ax" "j' < bby" "i * bby + j = i' * bby + j'" for i j i' j'
      by (rule row_index_inj [OF that(5,2,4)])
  qed (use body row_index C in blast)+
  then obtain C' where C': "for_n ax (\<lambda>i. for_n bby (?body i)) C = Inr C'" "length C' = ax * bby"
    "\<forall>i < ax. \<forall>j < bby. C' ! (i * bby + j) = entry A B ay bby i j" by blast
  have "C' = kernel_simple A B ax ay bby" by (rule matrix_eqI [OF C'(2)]) (simp_all add: kernel_simple_nth C'(3))
  then show ?thesis using C'(1) by simp
qed

lemma matrix_mult_ref_ok:
  assumes "0 < ax" "0 < ay" "0 < bby" "length A = ax * ay" "length B = ay * bby" "length C = ax * bby"
  shows "matrix_mult_ref A B C (int ax) (int ay) (int bby) = Inr (kernel_simple A B ax ay bby)"
proof -
  have "k * bby + j < length B \<and> B ! (k * bby + j) = B ! (k * bby + j)" if "j < bby" "k < ay" for j k
    using row_index [OF that(2,1)] assms(5) by simp
  from product_loops [of A ax ay C bby "\<lambda>j k. k * bby + j" B B, OF assms(4,6) this]
  show ?thesis using assms(1-3) by (simp add: matrix_mult_ref_def)
qed

lemma transpose_loop_ok:
  assumes "length B = ay * bby" "length tmp = bby * ay"
  shows "\<exists>tmp'. transpose_loop B ay bby tmp = Inr tmp' \<and> length tmp' = bby * ay \<and>
    (\<forall>i < ay. \<forall>j < bby. tmp' ! (j * ay + i) = B ! (i * bby + j))"
  unfolding transpose_loop_def
proof (rule nested_fill)
  show "bindE (vec_get B (i * bby + j)) (\<lambda>b. vec_set T (j * ay + i) b) = Inr (T[j * ay + i := B ! (i * bby + j)])"
    if "i < ay" "j < bby" "length T = bby * ay" for i j T
    using row_index [OF that(1,2)] row_index [OF that(2,1)] that(3) assms(1) by simp
  show "j * ay + i < bby * ay" if "i < ay" "j < bby" for i j using row_index [OF that(2,1)] .
  show "i = i' \<and> j = j'" if "i < ay" "j < bby" "i' < ay" "j' < bby" "j * ay + i = j' * ay + i'" for i j i' j'
    using row_index_inj [OF that(5) that(1) that(3)] by simp
qed (rule assms(2))

lemma transpose_mult_ref_ok:
  assumes "0 < ax" "0 < ay" "0 < bby" "length A = ax * ay" "length B = ay * bby" "length C = ax * bby"
  shows "transpose_mult_ref A B C (int ax) (int ay) (int bby) = Inr (kernel_simple A B ax ay bby)"
proof -
  obtain tmp where tmp: "transpose_loop B ay bby (replicate (bby * ay) 0) = Inr tmp" "length tmp = bby * ay"
    "\<forall>i < ay. \<forall>j < bby. tmp ! (j * ay + i) = B ! (i * bby + j)"
    using transpose_loop_ok [of B ay bby "replicate (bby * ay) 0"] assms(5) by auto
  have "j * ay + k < length tmp \<and> tmp ! (j * ay + k) = B ! (k * bby + j)" if "j < bby" "k < ay" for j k
    using row_index [OF that] tmp(2,3) that by simp
  from product_loops [of A ax ay C bby "\<lambda>j k. j * ay + k" tmp B, OF assms(4,6) this]
  show ?thesis using assms(1-3) tmp(1) by (simp add: transpose_mult_ref_def)
qed

text \<open>With the laws of a semiring an entry is the sum of the products.\<close>

lemma entry_sum: "entry A B ay bby i j = (\<Sum>k < ay. A ! (i * ay + k) * (B ! (k * bby + j) :: 'a :: comm_semiring_1))"
proof -
  have "foldl (\<lambda>acc k. acc + f k) z [0..<n] = z + sum f {..<n}" for f :: "nat \<Rightarrow> 'a" and z n
    by (induction n) (simp_all add: add.assoc)
  from this [of _ 0] show ?thesis by (simp add: entry_def)
qed

section \<open>The comparison\<close>

lemma gemm_compare_first:
  assumes "length C = n" "length D = n"
  shows "\<exists>r. gemm_compare ne C D n = Inr r \<and> (case r of None \<Rightarrow> \<forall>j < n. \<not> ne (C ! j) (D ! j)
    | Some i \<Rightarrow> i < n \<and> ne (C ! i) (D ! i) \<and> (\<forall>j < i. \<not> ne (C ! j) (D ! j)))"
  unfolding gemm_compare_def
  by (rule for_n_inv [where P = "\<lambda>k r. case r of None \<Rightarrow> \<forall>j < k. \<not> ne (C ! j) (D ! j)
      | Some i \<Rightarrow> i < k \<and> ne (C ! i) (D ! i) \<and> (\<forall>j < i. \<not> ne (C ! j) (D ! j))"])
    (use assms in \<open>auto split: option.splits simp: less_Suc_eq\<close>)

lemma gemm_compare_None:
  assumes "length C = n" "length D = n"
  shows "gemm_compare ne C D n = Inr None \<longleftrightarrow> (\<forall>j < n. \<not> ne (C ! j) (D ! j))"
  using gemm_compare_first [OF assms, of ne] by (force split: option.splits)

text \<open>
  The two reference multiplications of \<^verbatim>\<open>cl_gemm.cc\<close> agree, bit for bit and for any element type
  (no law of arithmetic is used, so also for \<^verbatim>\<open>float\<close>): on arrays of the right sizes both return without an
  error, the array they return has the entry \<open>0 + A[i,0] * B[0,j] + A[i,1] * B[1,j] + \<dots>\<close> at row \<open>i\<close>, column
  \<open>j\<close>, and this is what the kernel \<^verbatim>\<open>gemm_simple.cl\<close> computes; over a commutative semiring the entry is the sum of
  the products.
\<close>

theorem gemm_references_agree:
  fixes A B C :: "'a :: {zero, plus, times} list" and A' B' :: "'b :: comm_semiring_1 list"
  assumes "0 < ax" "0 < ay" "0 < bby" "length A = ax * ay" "length B = ay * bby" "length C = ax * bby"
  shows "(\<exists>P. matrix_mult_ref A B C (int ax) (int ay) (int bby) = Inr P \<and>
      transpose_mult_ref A B C (int ax) (int ay) (int bby) = Inr P \<and> P = kernel_simple A B ax ay bby \<and>
      length P = ax * bby \<and> (\<forall>i < ax. \<forall>j < bby. P ! (i * bby + j) =
        foldl (\<lambda>acc k. acc + A ! (i * ay + k) * B ! (k * bby + j)) 0 [0..<ay])) \<and>
    (\<forall>i < ax. \<forall>j < bby. kernel_simple A' B' ax ay bby ! (i * bby + j) =
      (\<Sum>k < ay. A' ! (i * ay + k) * B' ! (k * bby + j)))"
  using matrix_mult_ref_ok [OF assms] transpose_mult_ref_ok [OF assms]
  by (simp add: kernel_simple_nth entry_sum, simp add: entry_def)

theorem gemm_references_agree_witness:
  "\<exists>P. matrix_mult_ref [1, 2, 3, 4] [5, 6, 7, 8] [0, 0, 0, 0 :: int] 2 2 2 = Inr P \<and>
     transpose_mult_ref [1, 2, 3, 4] [5, 6, 7, 8] [0, 0, 0, 0] 2 2 2 = Inr P \<and> P = [19, 22, 43, 50]"
proof -
  have "kernel_simple [1, 2, 3, 4] [5, 6, 7, 8] 2 2 2 = [19, 22, 43, 50 :: int]" by code_simp
  then show ?thesis using gemm_references_agree [of 2 2 2 "[1, 2, 3, 4]" "[5, 6, 7, 8]" "[0, 0, 0, 0 :: int]" "[] :: int list" "[]"]
    by simp
qed

text \<open>
  C26. The check in \<^verbatim>\<open>main\<close> for square products: OpenCL copies a full nonempty range into a buffer of its size, and runs the kernel
  of \<^verbatim>\<open>gemm_simple.cl\<close> on buffers of the right sizes, with the arithmetic of the host, when the local size is positive and divides
  both global sizes; nothing is
  promised for other local sizes. Then for positive dimensions whose products fit \<^verbatim>\<open>int\<close>, when the first matrix has as many rows as
  the second has columns and the local size divides that number, \<^verbatim>\<open>main\<close> finds no differing index exactly when no element of the product
  differs from itself, as a NaN does. When the first matrix has more rows, the method reads past the end of the second one, whatever
  the local size: it copies as many elements of it as the first matrix has.
\<close>

theorem gemm_offload:
  assumes copy: "\<And>xs. xs \<noteq> [] \<Longrightarrow> copy_to xs (length xs) = Inr xs"
    and run: "\<And>A B ax ay bby. 0 < L \<Longrightarrow> 0 < ax \<Longrightarrow> 0 < ay \<Longrightarrow> 0 < bby \<Longrightarrow> L dvd ax \<Longrightarrow> L dvd bby \<Longrightarrow>
      length A = ax * ay \<Longrightarrow> length B = ay * bby \<Longrightarrow>
      run K (ax, bby) (L, L) A B (int ax) (int ay) (int bby) = Inr (kernel_simple A B ax ay bby)"
    and Cfg: "AX Cfg = int ax" "AY Cfg = int ay" "BY Cfg = int bby" "LSZ Cfg = int L"
    and sizes: "0 < ax" "0 < ay" "0 < bby" "ax * ay < 2 ^ 31" "ay * bby < 2 ^ 31" "ax * bby < 2 ^ 31" "L < 2 ^ 31"
    and A: "length A = ax * ay" and B: "length B = ay * bby"
  shows "(ax = bby \<and> 0 < L \<and> L dvd ax \<longrightarrow>
      (gemm_main ne copy_to run K Cfg A B = Inr None \<longleftrightarrow> (\<forall>x \<in> set (kernel_simple A B ax ay bby). \<not> ne x x))) \<and>
    (ax > bby \<longrightarrow> gemm_main ne copy_to run K Cfg A B = Inl Undefined_behaviour)"
proof -
  let ?P = "kernel_simple A B ax ay bby"
  have "A \<noteq> []" "B \<noteq> []" using sizes(1-3) A B by auto
  then have cp: "copy_to A (ax * ay) = Inr A" "copy_to B (ay * bby) = Inr B" using copy [of A] copy [of B] A B by simp_all
  note mul = int_mul_int [OF sizes(4)] int_mul_int [OF sizes(5)] int_mul_int [OF sizes(6)]
  note vsz = vec_size_int [OF sizes(4)] vec_size_int [OF sizes(5)] vec_size_int [OF sizes(6)]
  have "ax \<le> ax * bby" "bby \<le> ax * bby" using sizes(1,3) by simp_all
  then have sz: "ax < 2 ^ 31" "bby < 2 ^ 31" using sizes(6) by (meson le_less_trans)+
  note arg = size_arg_int [OF sz(1)] size_arg_int [OF sz(2)] size_arg_int [OF sizes(4)] size_arg_int [OF sizes(5)]
    size_arg_int [OF sizes(6)] size_arg_int [OF sizes(7)]
  have mm: "mmult copy_to run K Cfg A B (int ax) (int ay) (int bby) =
      (if ay * bby < ax * ay then Inl Undefined_behaviour
       else bindE (bindE (host_range B (ax * ay)) (\<lambda>xs. copy_to xs (ay * bby))) (\<lambda>B.
         bindE (run K (ax, bby) (L, L) A B (int ax) (int ay) (int bby)) (\<lambda>C. host_range C (ax * bby))))"
    unfolding mmult_def mul bindE_Inr Let_def arg Cfg using A B cp(1) by (simp add: host_range_def)
  have "gemm_main ne copy_to run K Cfg A B = Inr None \<longleftrightarrow> (\<forall>x \<in> set ?P. \<not> ne x x)"
    if sq: "ax = bby" "0 < L" "L dvd ax"
  proof -
    have "run K (ax, bby) (L, L) A B (int ax) (int ay) (int bby) = Inr ?P"
      by (rule run) (use sq sizes A B in simp_all)
    moreover have "length B = ax * ay" using B sq(1) by simp
    ultimately have "mmult copy_to run K Cfg A B (int ax) (int ay) (int bby) = Inr ?P"
      unfolding mm using sq(1) cp(2) by (simp add: host_range_def mult.commute)
    moreover have "transpose_mult_ref A B (replicate (ax * bby) 0) (int ax) (int ay) (int bby) = Inr ?P"
      using transpose_mult_ref_ok [OF sizes(1-3) A B] by simp
    ultimately have "gemm_main ne copy_to run K Cfg A B = gemm_compare ne ?P ?P (ax * bby)"
      unfolding gemm_main_def Cfg vsz bindE_Inr by simp
    then show ?thesis by (auto simp: gemm_compare_None all_set_conv_all_nth)
  qed
  moreover have "gemm_main ne copy_to run K Cfg A B = Inl Undefined_behaviour" if "ax > bby"
    unfolding gemm_main_def Cfg vsz bindE_Inr mm using that sizes(2) by (simp add: mult.commute)
  ultimately show ?thesis by blast
qed

text \<open>An OpenCL that rejects every local size that does not divide the range, on a configuration with local size 2.\<close>

definition strict_run :: "string \<Rightarrow> nat \<times> nat \<Rightarrow> nat \<times> nat \<Rightarrow> int list \<Rightarrow> int list \<Rightarrow> int \<Rightarrow> int \<Rightarrow> int \<Rightarrow> int list res" where
  "strict_run K g l A B ax ay bby =
     (if 0 < fst l \<and> 0 < snd l \<and> fst l dvd fst g \<and> snd l dvd snd g \<and> length A = nat ax * nat ay \<and> length B = nat ay * nat bby
      then Inr (kernel_simple A B (nat ax) (nat ay) (nat bby)) else Inl (Runtime_error ''CL_INVALID_WORK_GROUP_SIZE''))"

theorem gemm_offload_witness:
  "gemm_main (\<noteq>) (\<lambda>xs n. Inr (take n xs)) strict_run [] (gemm_default\<lparr>AX := 2, AY := 1, BY := 2, LSZ := 2\<rparr>) [3, 4] [5, 6] = Inr None \<and>
   gemm_main (\<noteq>) (\<lambda>xs n. Inr (take n xs)) strict_run [] (gemm_default\<lparr>AX := 2, AY := 1, BY := 1, LSZ := 2\<rparr>) [3, 4] [5] = Inl Undefined_behaviour"
proof -
  let ?copy = "\<lambda>xs n. Inr (take n xs) :: int list res"
  have c: "?copy xs (length xs) = Inr xs" for xs by simp
  have r: "strict_run [] (ax, bby) (2, 2) A B (int ax) (int ay) (int bby) = Inr (kernel_simple A B ax ay bby)"
    if "2 dvd ax" "2 dvd bby" "length A = ax * ay" "length B = ay * bby" for A B ax ay bby
    using that by (simp add: strict_run_def)
  have "gemm_main (\<noteq>) ?copy strict_run [] (gemm_default\<lparr>AX := 2, AY := 1, BY := 2, LSZ := 2\<rparr>) [3, 4] [5, 6] = Inr None"
    by (subst gemm_offload [THEN conjunct1, rule_format, where L = 2 and ax = 2 and ay = 1 and bby = 2]) (use r in simp_all)
  moreover have "gemm_main (\<noteq>) ?copy strict_run [] (gemm_default\<lparr>AX := 2, AY := 1, BY := 1, LSZ := 2\<rparr>) [3, 4] [5] = Inl Undefined_behaviour"
    by (rule gemm_offload [THEN conjunct2, rule_format, where L = 2 and ax = 2 and ay = 1 and bby = 1]) (use r in simp_all)
  ultimately show ?thesis by blast
qed

end
