(* ===== verification/Matrix_Repro.thy ===== *)
theory Matrix_Repro
  imports Gemm
begin

text \<open>
  \<^verbatim>\<open>14-iterators/matrix_repro.cc\<close> and its earlier version \<^verbatim>\<open>archive/interesting/matrix_repro.cc\<close>: the class
  \<^verbatim>\<open>Matrix\<close>, the three multiplications that accumulate in the result, and the main programs, which compare
  two of them. Both programs use the templates with \<^verbatim>\<open>int\<close>, and so do the definitions: a product or a sum of elements, or a number of
  elements, that does not fit \<^verbatim>\<open>int\<close> is undefined behaviour. No vector has more than \<open>2 ^ 31 - 1\<close> elements then, so the index of
  an element that exists does not overflow. The clock is not modelled.
\<close>

section \<open>Matrix\<close>

record Matrix =
  mlines :: int
  mcolumns :: int
  melems :: "int list"

text \<open>A vector of \<open>n\<close> elements: a negative count converts to a huge one, which throws.\<close>

definition resize :: "int list \<Rightarrow> int \<Rightarrow> int list res" where
  "resize v n = (if n < 0 then Inl Length_error else Inr (take (nat n) v @ replicate (nat n - length v) 0))"

definition mat_ctor :: "int \<Rightarrow> int \<Rightarrow> Matrix res" where
  "mat_ctor ls cs = bindE (int_mul ls cs) (\<lambda>n. bindE (resize [] n) (\<lambda>m. Inr \<lparr>mlines = ls, mcolumns = cs, melems = m\<rparr>))"

text \<open>An index that overflows \<^verbatim>\<open>int\<close> is one behind the elements, so both are undefined behaviour.\<close>

definition mat_index :: "Matrix \<Rightarrow> int \<Rightarrow> int \<Rightarrow> nat res" where
  "mat_index m x y =
     (let p = x * mcolumns m + y in
      if 0 \<le> p \<and> p < int (length (melems m)) then Inr (nat p) else Inl Undefined_behaviour)"

definition mat_at :: "Matrix \<Rightarrow> int \<Rightarrow> int \<Rightarrow> int res" where
  "mat_at m x y = bindE (mat_index m x y) (\<lambda>p. Inr (melems m ! p))"

text \<open>Assigning through the reference that \<^verbatim>\<open>at\<close> returns.\<close>

definition mat_set :: "Matrix \<Rightarrow> int \<Rightarrow> int \<Rightarrow> int \<Rightarrow> Matrix res" where
  "mat_set m x y v = bindE (mat_index m x y) (\<lambda>p. Inr (m\<lparr>melems := (melems m)[p := v]\<rparr>))"

definition resizeto :: "int \<Rightarrow> int \<Rightarrow> Matrix \<Rightarrow> Matrix res" where
  "resizeto ls cs m =
     bindE (int_mul ls cs) (\<lambda>n. bindE (resize (melems m) n) (\<lambda>v. Inr (m\<lparr>mlines := ls, mcolumns := cs, melems := v\<rparr>)))"

text \<open>\<^verbatim>\<open>std::cin >> x\<close> for \<^verbatim>\<open>int\<close> with exceptions enabled for \<^verbatim>\<open>failbit\<close>: no number, or one out of range, throws.\<close>

definition cin_int :: "string \<Rightarrow> (int \<times> string) res" where
  "cin_int inp =
     (case scan_int inp of
        None \<Rightarrow> Inl (Runtime_error ''basic_ios::clear'')
      | Some (v, rest) \<Rightarrow>
          if - (2 ^ 31) \<le> v \<and> v < 2 ^ 31 then Inr (v, rest) else Inl (Runtime_error ''basic_ios::clear''))"

definition readMatrix :: "string \<Rightarrow> Matrix \<Rightarrow> (Matrix \<times> string) res" where
  "readMatrix inp m =
     bindE (cin_int inp) (\<lambda>(ls, inp).
     bindE (cin_int inp) (\<lambda>(cs, inp).
     bindE (resizeto ls cs m) (\<lambda>m.
     for_n (nat ls) (\<lambda>i. for_n (nat cs) (\<lambda>j (m, inp).
       bindE (cin_int inp) (\<lambda>(v, inp). bindE (mat_set m (int i) (int j) v) (\<lambda>m. Inr (m, inp))))) (m, inp))))"

section \<open>Multiplication\<close>

text \<open>\<^verbatim>\<open>cpp_transpose_mult\<close>, with a vector for the transposed matrix.\<close>

definition cpp_transpose_mult :: "Matrix \<Rightarrow> Matrix \<Rightarrow> Matrix \<Rightarrow> Matrix res" where
  "cpp_transpose_mult a b c =
     (let ax = mlines a; ay = mcolumns a; bby = mcolumns b in
      if ax \<noteq> mlines b then Inl Assertion_failed
      else
        bindE (bindE (int_mul bby ay) (resize [])) (\<lambda>tmp.
        bindE (for_n (nat ay) (\<lambda>i. for_n (nat bby) (\<lambda>j tmp.
                 bindE (mat_at b (int i) (int j)) (\<lambda>v. vec_set tmp (j * nat ay + i) v))) tmp) (\<lambda>tmp.
        for_n (nat ax) (\<lambda>i. for_n (nat bby) (\<lambda>j c.
          bindE (mat_set c (int i) (int j) 0) (\<lambda>c.
          for_n (nat ay) (\<lambda>k c.
            bindE (mat_at c (int i) (int j)) (\<lambda>x.
            bindE (mat_at a (int i) (int k)) (\<lambda>y.
            bindE (vec_get tmp (j * nat ay + k)) (\<lambda>z.
            bindE (int_mac x y z) (mat_set c (int i) (int j)))))) c))) c)))"

text \<open>The earlier version keeps the transposed matrix in a \<^verbatim>\<open>Matrix\<close>.\<close>

definition old_cpp_transpose_mult :: "Matrix \<Rightarrow> Matrix \<Rightarrow> Matrix \<Rightarrow> Matrix res" where
  "old_cpp_transpose_mult a b c =
     (let ax = mlines a; ay = mcolumns a; bby = mcolumns b in
      if ax \<noteq> mlines b then Inl Assertion_failed
      else
        bindE (mat_ctor bby ay) (\<lambda>tmp.
        bindE (for_n (nat ay) (\<lambda>i. for_n (nat bby) (\<lambda>j tmp.
                 bindE (mat_at b (int i) (int j)) (\<lambda>v. mat_set tmp (int j) (int i) v))) tmp) (\<lambda>tmp.
        for_n (nat ax) (\<lambda>i. for_n (nat bby) (\<lambda>j c.
          bindE (mat_set c (int i) (int j) 0) (\<lambda>c.
          for_n (nat ay) (\<lambda>k c.
            bindE (mat_at c (int i) (int j)) (\<lambda>x.
            bindE (mat_at a (int i) (int k)) (\<lambda>y.
            bindE (mat_at tmp (int j) (int k)) (\<lambda>z.
            bindE (int_mac x y z) (mat_set c (int i) (int j)))))) c))) c)))"

text \<open>\<^verbatim>\<open>iter_transpose_mult\<close> on the elements the random access iterators reach.\<close>

definition iter_transpose_mult ::
    "int list \<Rightarrow> int list \<Rightarrow> int list \<Rightarrow> int \<Rightarrow> int \<Rightarrow> int \<Rightarrow> int list res" where
  "iter_transpose_mult A B C ax ay bby =
     (if \<not> (ax > 0 \<and> ay > 0 \<and> bby > 0) then Inl Assertion_failed
      else
        bindE (vec_size bby ay) (\<lambda>n.
        bindE (transpose_loop B (nat ay) (nat bby) (replicate n 0)) (\<lambda>tmp.
        for_n (nat ax) (\<lambda>i. for_n (nat bby) (\<lambda>j C.
          bindE (vec_set C (i * nat bby + j) 0) (\<lambda>C.
          for_n (nat ay) (\<lambda>k C.
            bindE (vec_get C (i * nat bby + j)) (\<lambda>x.
            bindE (vec_get A (i * nat ay + k)) (\<lambda>y.
            bindE (vec_get tmp (j * nat ay + k)) (\<lambda>z.
            bindE (int_mac x y z) (vec_set C (i * nat bby + j)))))) C))) C)))"

text \<open>\<^verbatim>\<open>c_transpose_mult\<close> on pointers to the elements, which are not null for vectors that have elements.\<close>

definition c_transpose_mult ::
    "int list \<Rightarrow> int list \<Rightarrow> int list \<Rightarrow> int \<Rightarrow> int \<Rightarrow> int \<Rightarrow> int list res" where
  "c_transpose_mult A B C ax ay bby =
     (if \<not> (ax > 0 \<and> ay > 0 \<and> bby > 0) then Inl Assertion_failed
      else
        bindE (vec_size bby ay) (\<lambda>n.
        bindE (transpose_loop B (nat ay) (nat bby) (replicate n 0)) (\<lambda>tmp.
        for_n (nat ax) (\<lambda>i. for_n (nat bby) (\<lambda>j C.
          bindE (vec_set C (i * nat bby + j) 0) (\<lambda>C.
          for_n (nat ay) (\<lambda>k C.
            bindE (vec_get C (i * nat bby + j)) (\<lambda>x.
            bindE (vec_get A (i * nat ay + k)) (\<lambda>y.
            bindE (vec_get tmp (j * nat ay + k)) (\<lambda>z.
            bindE (int_mac x y z) (vec_set C (i * nat bby + j)))))) C))) C)))"

section \<open>The main programs\<close>

text \<open>The places where two results differ, in the order they are reported.\<close>

definition divergences :: "Matrix \<Rightarrow> Matrix \<Rightarrow> int \<Rightarrow> int \<Rightarrow> (nat \<times> nat) list res" where
  "divergences C D x y =
     for_n (nat x) (\<lambda>i. for_n (nat y) (\<lambda>j ds.
       bindE (mat_at C (int i) (int j)) (\<lambda>c. bindE (mat_at D (int i) (int j)) (\<lambda>d.
       Inr (if c \<noteq> d then ds @ [(i, j)] else ds))))) []"

definition empty_matrix :: "Matrix" where
  "empty_matrix = \<lparr>mlines = 0, mcolumns = 0, melems = []\<rparr>"

text \<open>After reading \<open>A\<close> and \<open>B\<close>.\<close>

definition matrix_body :: "Matrix \<Rightarrow> Matrix \<Rightarrow> (nat \<times> nat) list res" where
  "matrix_body A B =
     bindE (resizeto (mlines A) (mcolumns A) empty_matrix) (\<lambda>C.
     bindE (resizeto (mlines A) (mcolumns A) empty_matrix) (\<lambda>D.
     bindE (cpp_transpose_mult A B C) (\<lambda>C.
     bindE (iter_transpose_mult (melems A) (melems B) (melems D) (mlines A) (mcolumns A) (mcolumns B)) (\<lambda>ds.
     divergences C (D\<lparr>melems := ds\<rparr>) (mlines A) (mcolumns A)))))"

definition old_matrix_body :: "Matrix \<Rightarrow> Matrix \<Rightarrow> (nat \<times> nat) list res" where
  "old_matrix_body A B =
     bindE (resizeto (mlines A) (mcolumns A) empty_matrix) (\<lambda>C.
     bindE (resizeto (mlines A) (mcolumns A) empty_matrix) (\<lambda>D.
     bindE (c_transpose_mult (melems A) (melems B) (melems C) (mlines A) (mcolumns A) (mcolumns B)) (\<lambda>cs.
     bindE (old_cpp_transpose_mult A B D) (\<lambda>D.
     divergences (C\<lparr>melems := cs\<rparr>) D (mlines A) (mcolumns A)))))"

definition matrix_main :: "string \<Rightarrow> (nat \<times> nat) list res" where
  "matrix_main inp =
     bindE (readMatrix inp empty_matrix) (\<lambda>(A, inp).
     bindE (readMatrix inp empty_matrix) (\<lambda>(B, inp). matrix_body A B))"

definition old_matrix_main :: "string \<Rightarrow> (nat \<times> nat) list res" where
  "old_matrix_main inp =
     bindE (readMatrix inp empty_matrix) (\<lambda>(A, inp).
     bindE (readMatrix inp empty_matrix) (\<lambda>(B, inp). old_matrix_body A B))"

section \<open>Accumulating in place\<close>

text \<open>The product and the sum of each step fit \<^verbatim>\<open>int\<close>.\<close>

definition steps_fit :: "nat \<Rightarrow> (nat \<Rightarrow> int) \<Rightarrow> bool" where
  "steps_fit n f \<longleftrightarrow> (\<forall>k < n. int_ok (f k) \<and> int_ok (\<Sum>l < Suc k. f l))"

lemma steps_fit_0 [simp]: "steps_fit 0 f"
  by (simp add: steps_fit_def)

lemma steps_fit_Suc [simp]: "steps_fit (Suc n) f \<longleftrightarrow> steps_fit n f \<and> int_ok (f n) \<and> int_ok ((\<Sum>l < n. f l) + f n)"
  by (auto simp: steps_fit_def less_Suc_eq)

lemma steps_fit_cong: "(\<And>k. k < n \<Longrightarrow> f k = g k) \<Longrightarrow> steps_fit n f = steps_fit n g"
  by (auto simp: steps_fit_def intro!: arg_cong [where f = int_ok] sum.cong cong: conj_cong)

definition product_fits :: "int list \<Rightarrow> int list \<Rightarrow> nat \<Rightarrow> nat \<Rightarrow> nat \<Rightarrow> bool" where
  "product_fits A B ax ay bby \<longleftrightarrow> (\<forall>i < ax. \<forall>j < bby. steps_fit ay (\<lambda>k. A ! (i * ay + k) * B ! (k * bby + j)))"

lemma accumulate_list:
  assumes "p < length C" "\<And>k. k < n \<Longrightarrow> f k < length A" "\<And>k. k < n \<Longrightarrow> g k < length T"
  shows "for_n n (\<lambda>k C. bindE (vec_get C p) (\<lambda>x. bindE (vec_get A (f k)) (\<lambda>y. bindE (vec_get T (g k)) (\<lambda>z.
      bindE (int_mac x y z) (vec_set C p))))) (C[p := 0]) =
    (if steps_fit n (\<lambda>k. A ! f k * T ! g k) then Inr (C[p := \<Sum>k < n. A ! f k * T ! g k]) else Inl Undefined_behaviour)"
  using assms by (induction n) (simp_all add: int_mac_cases)

text \<open>Two nested loops with an element that cannot be computed.\<close>

lemma nested_fail:
  assumes body: "\<And>i j C. i < m \<Longrightarrow> j < n \<Longrightarrow> length C = N \<Longrightarrow> body i j C = (if ok i j then Inr (C[idx i j := g i j]) else Inl e)"
    and bad: "i < m" "j < n" "\<not> ok i j" and C: "length C = N"
  shows "for_n m (\<lambda>i. for_n n (body i)) C = Inl e"
proof -
  have cell: "body i j D = Inl e \<or> (\<exists>D'. body i j D = Inr D' \<and> length D' = N)" if "i < m" "j < n" "length D = N" for i j D
    using body [OF that] that(3) by simp
  have row: "for_n n (body i) D = Inl e \<or> (\<exists>D'. for_n n (body i) D = Inr D' \<and> length D' = N)" if "i < m" "length D = N" for i D
    by (rule for_n_safe [where P = "\<lambda>D. length D = N", OF that(2)]) (rule cell [OF that(1)])
  have last: "for_n n (body i) D = Inl e" if "length D = N" for D
    by (rule for_n_must_fail [where P = "\<lambda>D. length D = N", OF that cell [OF bad(1)] bad(2)]) (use body bad in simp_all)
  show ?thesis by (rule for_n_must_fail [where P = "\<lambda>D. length D = N" and f = "\<lambda>i. for_n n (body i)", OF C row bad(1) last])
qed

text \<open>Writing zero and accumulating is the same as computing the sum first, or the computation overflows.\<close>

lemma product_in_place:
  assumes A: "length A = ax * ay" and C: "length C = ax * bby" and T: "length T = bby * ay"
    and tr: "\<forall>i < ay. \<forall>j < bby. T ! (j * ay + i) = B ! (i * bby + j)"
  shows "for_n ax (\<lambda>i. for_n bby (\<lambda>j C.
      bindE (vec_set C (i * bby + j) 0) (\<lambda>C.
      for_n ay (\<lambda>k C. bindE (vec_get C (i * bby + j)) (\<lambda>x. bindE (vec_get A (i * ay + k)) (\<lambda>y.
        bindE (vec_get T (j * ay + k)) (\<lambda>z. bindE (int_mac x y z) (vec_set C (i * bby + j)))))) C))) C =
    (if product_fits A B ax ay bby then Inr (kernel_simple A B ax ay bby) else Inl Undefined_behaviour)"
    (is "for_n ax (\<lambda>i. for_n bby (?body i)) C = _")
proof -
  let ?t = "\<lambda>i j k. A ! (i * ay + k) * B ! (k * bby + j)"
  have body: "?body i j D = (if steps_fit ay (?t i j) then Inr (D[i * bby + j := entry A B ay bby i j]) else Inl Undefined_behaviour)"
    if ij: "i < ax" "j < bby" and len: "length D = ax * bby" for i j D
  proof -
    have ix: "i * bby + j < length D" using row_index [OF ij] len by simp
    have T': "T ! (j * ay + k) = B ! (k * bby + j)" if "k < ay" for k using tr ij(2) that by simp
    have "for_n ay (\<lambda>k C. bindE (vec_get C (i * bby + j)) (\<lambda>x. bindE (vec_get A (i * ay + k)) (\<lambda>y.
        bindE (vec_get T (j * ay + k)) (\<lambda>z. bindE (int_mac x y z) (vec_set C (i * bby + j)))))) (D[i * bby + j := 0]) =
        (if steps_fit ay (\<lambda>k. A ! (i * ay + k) * T ! (j * ay + k))
         then Inr (D[i * bby + j := \<Sum>k < ay. A ! (i * ay + k) * T ! (j * ay + k)]) else Inl Undefined_behaviour)"
      using row_index [OF ij(1), of _ ay] row_index [OF ij(2), of _ ay] A T by (intro accumulate_list [OF ix]) auto
    also have "steps_fit ay (\<lambda>k. A ! (i * ay + k) * T ! (j * ay + k)) = steps_fit ay (?t i j)"
      using T' by (intro steps_fit_cong) simp
    also have "(\<Sum>k < ay. A ! (i * ay + k) * T ! (j * ay + k)) = entry A B ay bby i j"
      unfolding entry_sum using T' by (intro sum.cong) simp_all
    finally show ?thesis using ix by simp
  qed
  show ?thesis
  proof (cases "product_fits A B ax ay bby")
    case False
    then obtain i j where "i < ax" "j < bby" "\<not> steps_fit ay (?t i j)" by (auto simp: product_fits_def)
    from nested_fail [where body = ?body, OF body this C] False show ?thesis by simp
  next
    case True
    have "\<exists>C'. for_n ax (\<lambda>i. for_n bby (?body i)) C = Inr C' \<and> length C' = ax * bby \<and>
        (\<forall>i < ax. \<forall>j < bby. C' ! (i * bby + j) = entry A B ay bby i j)"
    proof (rule nested_fill)
      show "?body i j D = Inr (D[i * bby + j := entry A B ay bby i j])" if "i < ax" "j < bby" "length D = ax * bby" for i j D
        using body [OF that] True that by (simp add: product_fits_def)
      show "i = i' \<and> j = j'" if "i < ax" "j < bby" "i' < ax" "j' < bby" "i * bby + j = i' * bby + j'" for i j i' j'
        by (rule row_index_inj [OF that(5,2,4)])
    qed (use row_index C in blast)+
    then obtain C' where C': "for_n ax (\<lambda>i. for_n bby (?body i)) C = Inr C'" "length C' = ax * bby"
      "\<forall>i < ax. \<forall>j < bby. C' ! (i * bby + j) = entry A B ay bby i j" by blast
    have "C' = kernel_simple A B ax ay bby" by (rule matrix_eqI [OF C'(2)]) (simp_all add: kernel_simple_nth C'(3))
    then show ?thesis using C'(1) True by simp
  qed
qed

text \<open>The number of elements of the transposed matrix fits \<^verbatim>\<open>int\<close>, or nothing is computed.\<close>

lemma size_overflow: "\<not> m * n < 2 ^ 31 \<Longrightarrow> int_mul (int m) (int n) = Inl Undefined_behaviour"
proof -
  assume "\<not> m * n < 2 ^ 31"
  then have "int (2 ^ 31) \<le> int (m * n)" by (simp only: of_nat_le_iff not_less)
  then show ?thesis by (simp add: int_mul_def int_ok_def)
qed

lemma iter_transpose_mult_ok:
  assumes "0 < ax" "0 < ay" "0 < bby" "length A = ax * ay" "length B = ay * bby" "length C = ax * bby"
  shows "iter_transpose_mult A B C (int ax) (int ay) (int bby) =
    (if bby * ay < 2 ^ 31 \<and> product_fits A B ax ay bby then Inr (kernel_simple A B ax ay bby) else Inl Undefined_behaviour)"
proof (cases "bby * ay < 2 ^ 31")
  case True
  obtain tmp where tmp: "transpose_loop B ay bby (replicate (bby * ay) 0) = Inr tmp" "length tmp = bby * ay"
    "\<forall>i < ay. \<forall>j < bby. tmp ! (j * ay + i) = B ! (i * bby + j)"
    using transpose_loop_ok [of B ay bby "replicate (bby * ay) 0"] assms(5) by auto
  show ?thesis using product_in_place [OF assms(4,6) tmp(2,3)] tmp(1) assms(1-3) True
    by (simp add: iter_transpose_mult_def vec_size_int)
next
  case False
  then show ?thesis using size_overflow [OF False] assms(1-3) by (simp add: iter_transpose_mult_def vec_size_def)
qed

lemma c_transpose_mult_eq: "c_transpose_mult = iter_transpose_mult"
  by (simp add: fun_eq_iff c_transpose_mult_def iter_transpose_mult_def)

section \<open>Matrices as row-major lists\<close>

lemma mat_index_row: "mcolumns m = int n \<Longrightarrow> mat_index m (int i) (int j) =
     (if i * n + j < length (melems m) then Inr (i * n + j) else Inl Undefined_behaviour)"
proof -
  assume c: "mcolumns m = int n"
  have "int i * int n + int j = int (i * n + j)" by simp
  then show ?thesis unfolding mat_index_def c Let_def by (simp only: of_nat_0_le_iff of_nat_less_iff nat_int simp_thms)
qed

lemma mat_at_row: "mcolumns m = int n \<Longrightarrow> mat_at m (int i) (int j) = vec_get (melems m) (i * n + j)"
  by (simp add: mat_at_def mat_index_row vec_get_def)

lemma mat_set_row:
  "mcolumns m = int n \<Longrightarrow> mat_set m (int i) (int j) v =
     map_sum id (\<lambda>xs. m\<lparr>melems := xs\<rparr>) (vec_set (melems m) (i * n + j) v)"
  by (simp add: mat_set_def mat_index_row vec_set_def)

lemma bindE_lift: "(\<And>x. F (w x) = map_sum id w (G x)) \<Longrightarrow> bindE (map_sum id w m) F = map_sum id w (bindE m G)"
  by (cases m) simp_all

lemma resize_Nil: "resize [] (int n) = Inr (replicate n 0)"
  by (simp add: resize_def)

lemma resize_product:
  "bindE (int_mul (int m) (int n)) (resize []) = (if m * n < 2 ^ 31 then Inr (replicate (m * n) 0) else Inl Undefined_behaviour)"
  using resize_Nil [of "m * n"] by (simp add: int_mul_int size_overflow)

lemma mat_ctor_eq: "mat_ctor ls cs = bindE (bindE (int_mul ls cs) (resize [])) (\<lambda>xs. Inr \<lparr>mlines = ls, mcolumns = cs, melems = xs\<rparr>)"
  by (simp add: mat_ctor_def bindE_def split: sum.split)

lemma resizeto_empty:
  "resizeto (int l) (int n) empty_matrix =
     (if l * n < 2 ^ 31 then Inr \<lparr>mlines = int l, mcolumns = int n, melems = replicate (l * n) 0\<rparr> else Inl Undefined_behaviour)"
  using resize_Nil [of "l * n"] by (simp add: resizeto_def empty_matrix_def int_mul_int size_overflow)

lemma cpp_transpose_mult_ok:
  assumes a: "mlines a = int n" "mcolumns a = int n" "length (melems a) = n * n"
    and b: "mlines b = int n" "mcolumns b = int m" "length (melems b) = n * m"
    and c: "mcolumns c = int m" "length (melems c) = n * m"
  shows "cpp_transpose_mult a b c =
    (if m * n < 2 ^ 31 \<and> product_fits (melems a) (melems b) n n m
     then Inr (c\<lparr>melems := kernel_simple (melems a) (melems b) n n m\<rparr>) else Inl Undefined_behaviour)"
proof (cases "m * n < 2 ^ 31")
  case True
  obtain tmp where tmp: "transpose_loop (melems b) n m (replicate (m * n) 0) = Inr tmp" "length tmp = m * n"
    "\<forall>i < n. \<forall>j < m. tmp ! (j * n + i) = melems b ! (i * m + j)"
    using transpose_loop_ok [OF b(3), of "replicate (m * n) 0"] by auto
  let ?w = "\<lambda>xs. c\<lparr>melems := xs\<rparr>"
  have inner: "for_n n (\<lambda>k c. bindE (mat_at c (int i) (int j)) (\<lambda>x. bindE (mat_at a (int i) (int k)) (\<lambda>y.
        bindE (vec_get tmp (j * n + k)) (\<lambda>z. bindE (int_mac x y z) (mat_set c (int i) (int j)))))) (?w xs) =
      map_sum id ?w (for_n n (\<lambda>k C. bindE (vec_get C (i * m + j)) (\<lambda>x. bindE (vec_get (melems a) (i * n + k)) (\<lambda>y.
        bindE (vec_get tmp (j * n + k)) (\<lambda>z. bindE (int_mac x y z) (vec_set C (i * m + j)))))) xs)" for i j xs
    by (rule for_n_lift)
      (auto simp: mat_at_row [OF c(1)] mat_at_row [OF a(2)] mat_at_row [of "c\<lparr>melems := _\<rparr>" m] c(1) mat_set_row [of _ m]
        vec_get_def bindE_def split: sum.split)
  have outer: "for_n n (\<lambda>i. for_n m (\<lambda>j c. bindE (mat_set c (int i) (int j) 0) (\<lambda>c.
        for_n n (\<lambda>k c. bindE (mat_at c (int i) (int j)) (\<lambda>x. bindE (mat_at a (int i) (int k)) (\<lambda>y.
          bindE (vec_get tmp (j * n + k)) (\<lambda>z. bindE (int_mac x y z) (mat_set c (int i) (int j)))))) c))) (?w (melems c)) =
      map_sum id ?w (for_n n (\<lambda>i. for_n m (\<lambda>j C. bindE (vec_set C (i * m + j) 0) (\<lambda>C.
        for_n n (\<lambda>k C. bindE (vec_get C (i * m + j)) (\<lambda>x. bindE (vec_get (melems a) (i * n + k)) (\<lambda>y.
          bindE (vec_get tmp (j * n + k)) (\<lambda>z. bindE (int_mac x y z) (vec_set C (i * m + j)))))) C))) (melems c))"
    by (intro for_n_lift) (simp add: mat_set_row [of _ m] c(1), rule bindE_lift, rule inner)
  have tl: "for_n n (\<lambda>i. for_n m (\<lambda>j tmp. bindE (mat_at b (int i) (int j)) (\<lambda>v. vec_set tmp (j * n + i) v))) (replicate (m * n) 0) = Inr tmp"
    using tmp(1) by (simp add: transpose_loop_def mat_at_row [OF b(2)])
  show ?thesis using a(1,2) b(1,2) tl outer product_in_place [OF a(3) c(2) tmp(2,3)] True
    by (simp add: cpp_transpose_mult_def Let_def resize_product)
next
  case False
  then show ?thesis using a(1,2) b(1,2) by (simp add: cpp_transpose_mult_def Let_def resize_product)
qed

lemma old_cpp_transpose_mult_eq:
  assumes "mcolumns a = int n" "mcolumns b = int m"
  shows "old_cpp_transpose_mult a b c = cpp_transpose_mult a b c"
proof (cases "m * n < 2 ^ 31")
  case True
  let ?w = "\<lambda>xs. \<lparr>mlines = int m, mcolumns = int n, melems = xs\<rparr>"
  have r: "bindE (int_mul (int m) (int n)) (resize []) = Inr (replicate (m * n) 0)"
    "mat_ctor (int m) (int n) = Inr (?w (replicate (m * n) 0))"
    using True by (simp_all add: mat_ctor_eq resize_product)
  have tr: "for_n n (\<lambda>i. for_n m (\<lambda>j tmp. bindE (mat_at b (int i) (int j)) (\<lambda>v. mat_set tmp (int j) (int i) v))) (?w xs) =
      map_sum id ?w (for_n n (\<lambda>i. for_n m (\<lambda>j tmp. bindE (mat_at b (int i) (int j)) (\<lambda>v. vec_set tmp (j * n + i) v))) xs)" for xs
    by (intro for_n_lift) (auto simp: mat_set_row [of _ n] bindE_def split: sum.split)
  have at: "mat_at (?w tmp) (int j) (int k) = vec_get tmp (j * n + k)" for tmp j k by (subst mat_at_row [of _ n]) simp_all
  have bind: "bindE (map_sum id ?w x) F = bindE x (\<lambda>xs. F (?w xs))" for x :: "int list res" and F :: "Matrix \<Rightarrow> Matrix res"
    by (cases x) simp_all
  show ?thesis unfolding old_cpp_transpose_mult_def cpp_transpose_mult_def Let_def assms nat_int r bindE_Inr tr bind at ..
next
  case False
  then show ?thesis using assms by (simp add: old_cpp_transpose_mult_def cpp_transpose_mult_def Let_def mat_ctor_eq resize_product)
qed

lemma divergences_none:
  assumes "mcolumns C = int n" "mcolumns D = int n" "melems C = melems D" "length (melems C) = l * n"
  shows "divergences C D (int l) (int n) = Inr []"
proof -
  have row: "for_n n (\<lambda>j ds. bindE (mat_at C (int i) (int j)) (\<lambda>c. bindE (mat_at D (int i) (int j)) (\<lambda>d.
      Inr (if c \<noteq> d then ds @ [(i, j)] else ds)))) [] = Inr []" if "i < l" for i
  proof -
    have "\<exists>r. for_n n (\<lambda>j ds. bindE (mat_at C (int i) (int j)) (\<lambda>c. bindE (mat_at D (int i) (int j)) (\<lambda>d.
        Inr (if c \<noteq> d then ds @ [(i, j)] else ds)))) [] = Inr r \<and> r = []"
      by (rule for_n_inv [where P = "\<lambda>_ r. r = []"])
        (use assms row_index [OF that] in \<open>auto simp: mat_at_row [OF assms(1)] mat_at_row [OF assms(2)]\<close>)
    then show ?thesis by simp
  qed
  have "\<exists>r. divergences C D (int l) (int n) = Inr r \<and> r = []" unfolding divergences_def nat_int
    by (rule for_n_inv [where P = "\<lambda>_ r. r = []"]) (use row in auto)
  then show ?thesis by simp
qed

text \<open>Every access error is the same one, and the result keeps its shape.\<close>

definition shape :: "nat \<Rightarrow> nat \<Rightarrow> Matrix \<Rightarrow> bool" where
  "shape l n c \<longleftrightarrow> mcolumns c = int n \<and> length (melems c) = l * n"

lemma mat_at_safe: "mat_at c x y = Inl Undefined_behaviour \<or> (\<exists>v. mat_at c x y = Inr v)"
  by (simp add: mat_at_def mat_index_def Let_def)

lemma mat_set_safe: "shape l n c \<Longrightarrow> mat_set c x y v = Inl Undefined_behaviour \<or> (\<exists>c'. mat_set c x y v = Inr c' \<and> shape l n c')"
  by (auto simp: mat_set_def mat_index_def Let_def shape_def)

lemma cell_safe:
  assumes "shape l n c"
  shows "bindE (mat_set c x y 0) (\<lambda>c. for_n ay (\<lambda>k c. bindE (mat_at c x y) (\<lambda>u. bindE (mat_at a x (int k)) (\<lambda>v.
      bindE (vec_get tmp (f k)) (\<lambda>z. bindE (int_mac u v z) (mat_set c x y))))) c) = Inl Undefined_behaviour \<or>
    (\<exists>c'. bindE (mat_set c x y 0) (\<lambda>c. for_n ay (\<lambda>k c. bindE (mat_at c x y) (\<lambda>u. bindE (mat_at a x (int k)) (\<lambda>v.
      bindE (vec_get tmp (f k)) (\<lambda>z. bindE (int_mac u v z) (mat_set c x y))))) c) = Inr c' \<and> shape l n c')"
proof -
  have step: "bindE (mat_at c x y) (\<lambda>u. bindE (mat_at a x (int k)) (\<lambda>v. bindE (vec_get tmp (f k)) (\<lambda>z.
      bindE (int_mac u v z) (mat_set c x y)))) = Inl Undefined_behaviour \<or>
    (\<exists>c'. bindE (mat_at c x y) (\<lambda>u. bindE (mat_at a x (int k)) (\<lambda>v. bindE (vec_get tmp (f k)) (\<lambda>z.
      bindE (int_mac u v z) (mat_set c x y)))) = Inr c' \<and> shape l n c')" if "shape l n c" for c k
    using mat_at_safe [of c x y] mat_at_safe [of a x "int k"]
    by (cases "f k < length tmp") (auto simp: vec_get_def int_mac_cases, metis mat_set_safe [OF that])
  show ?thesis using mat_set_safe [OF assms, of x y 0]
  proof (elim disjE exE conjE)
    fix c' assume "mat_set c x y 0 = Inr c'" "shape l n c'"
    then show ?thesis using for_n_safe [of "shape l n" c', OF _ step] by simp
  qed simp
qed

text \<open>A result with \<open>n\<close> columns has no place for an element at column \<open>n\<close> of its last row.\<close>

lemma cpp_transpose_mult_overflow:
  assumes a: "mlines a = int n" "mcolumns a = int n" and b: "mlines b = int n" "mcolumns b = int m" "length (melems b) = n * m"
    and c: "shape n n c" and nm: "0 < n" "n < m"
  shows "cpp_transpose_mult a b c = Inl Undefined_behaviour"
proof (cases "m * n < 2 ^ 31")
  case True
  obtain tmp where tmp: "transpose_loop (melems b) n m (replicate (m * n) 0) = Inr tmp"
    using transpose_loop_ok [OF b(3), of "replicate (m * n) 0"] by auto
  then have tl: "for_n n (\<lambda>i. for_n m (\<lambda>j tmp. bindE (mat_at b (int i) (int j)) (\<lambda>v. vec_set tmp (j * n + i) v))) (replicate (m * n) 0) = Inr tmp"
    by (simp add: transpose_loop_def mat_at_row [OF b(2)])
  let ?cell = "\<lambda>i j c. bindE (mat_set c (int i) (int j) 0) (\<lambda>c. for_n n (\<lambda>k c. bindE (mat_at c (int i) (int j)) (\<lambda>x.
      bindE (mat_at a (int i) (int k)) (\<lambda>y. bindE (vec_get tmp (j * n + k)) (\<lambda>z. bindE (int_mac x y z) (mat_set c (int i) (int j)))))) c)"
  have out: "?cell (n - 1) n c' = Inl Undefined_behaviour" if "shape n n c'" for c'
  proof -
    have "(n - 1) * n + n = n * n" using nm(1) by (cases n) simp_all
    then show ?thesis using that by (simp add: shape_def mat_set_row [of _ n] vec_set_def)
  qed
  have safe: "?cell i j c' = Inl Undefined_behaviour \<or> (\<exists>d. ?cell i j c' = Inr d \<and> shape n n d)" if "shape n n c'" for i j c'
    by (rule cell_safe [OF that])
  have row: "for_n m (?cell i) c' = Inl Undefined_behaviour \<or> (\<exists>d. for_n m (?cell i) c' = Inr d \<and> shape n n d)"
    if "shape n n c'" for i c'
    by (rule for_n_safe [where P = "shape n n" and f = "?cell i", OF that safe])
  have last_row: "for_n m (?cell (n - 1)) c' = Inl Undefined_behaviour" if "shape n n c'" for c'
    by (rule for_n_must_fail [where P = "shape n n" and f = "?cell (n - 1)", OF that safe nm(2) out])
  have "for_n n (\<lambda>i. for_n m (?cell i)) c = Inl Undefined_behaviour"
    by (rule for_n_must_fail [where P = "shape n n" and k = "n - 1" and f = "\<lambda>i. for_n m (?cell i)", OF c row _ last_row])
      (use nm(1) in auto)
  then show ?thesis using a b(1,2) tl True by (simp add: cpp_transpose_mult_def Let_def resize_product)
next
  case False
  then show ?thesis using a b(1,2) by (simp add: cpp_transpose_mult_def Let_def resize_product)
qed

text \<open>Square matrices: the two multiplications, and the two programs.\<close>

definition zero_square :: "nat \<Rightarrow> Matrix" where
  "zero_square n = \<lparr>mlines = int n, mcolumns = int n, melems = replicate (n * n) 0\<rparr>"

lemma square_multiplications:
  assumes "0 < n" "mlines A = int n" "mcolumns A = int n" "length (melems A) = n * n"
    and "mlines B = int n" "mcolumns B = int n" "length (melems B) = n * n"
  shows "cpp_transpose_mult A B (zero_square n) = (if n * n < 2 ^ 31 \<and> product_fits (melems A) (melems B) n n n
      then Inr ((zero_square n)\<lparr>melems := kernel_simple (melems A) (melems B) n n n\<rparr>) else Inl Undefined_behaviour)"
    "iter_transpose_mult (melems A) (melems B) (melems (zero_square n)) (int n) (int n) (int n) = (if n * n < 2 ^ 31 \<and> product_fits (melems A) (melems B) n n n
      then Inr (kernel_simple (melems A) (melems B) n n n) else Inl Undefined_behaviour)"
proof -
  show "cpp_transpose_mult A B (zero_square n) = (if n * n < 2 ^ 31 \<and> product_fits (melems A) (melems B) n n n
      then Inr ((zero_square n)\<lparr>melems := kernel_simple (melems A) (melems B) n n n\<rparr>) else Inl Undefined_behaviour)"
    using assms by (subst cpp_transpose_mult_ok [where n = n and m = n]) (simp_all add: zero_square_def)
  show "iter_transpose_mult (melems A) (melems B) (melems (zero_square n)) (int n) (int n) (int n) = (if n * n < 2 ^ 31 \<and> product_fits (melems A) (melems B) n n n
      then Inr (kernel_simple (melems A) (melems B) n n n) else Inl Undefined_behaviour)"
    using assms by (subst iter_transpose_mult_ok) (simp_all add: zero_square_def)
qed

lemma square_programs:
  assumes "0 < n" "mlines A = int n" "mcolumns A = int n" "length (melems A) = n * n"
    and "mlines B = int n" "mcolumns B = int n" "length (melems B) = n * n"
  shows "matrix_body A B = (if n * n < 2 ^ 31 \<and> product_fits (melems A) (melems B) n n n then Inr [] else Inl Undefined_behaviour)" "old_matrix_body A B = matrix_body A B"
proof -
  let ?P = "kernel_simple (melems A) (melems B) n n n"
  have Z: "resizeto (int n) (int n) empty_matrix = (if n * n < 2 ^ 31 then Inr (zero_square n) else Inl Undefined_behaviour)"
    by (simp add: resizeto_empty zero_square_def)
  note mult = square_multiplications [OF assms]
  have d: "divergences ((zero_square n)\<lparr>melems := ?P\<rparr>) ((zero_square n)\<lparr>melems := ?P\<rparr>) (int n) (int n) = Inr []"
    by (rule divergences_none [where n = n and l = n]) (simp_all add: zero_square_def)
  show "matrix_body A B = (if n * n < 2 ^ 31 \<and> product_fits (melems A) (melems B) n n n then Inr [] else Inl Undefined_behaviour)"
    using mult Z d by (auto simp: matrix_body_def assms)
  then show "old_matrix_body A B = matrix_body A B"
    using mult Z d old_cpp_transpose_mult_eq [OF assms(3,6), of "zero_square n"]
    by (auto simp: old_matrix_body_def c_transpose_mult_eq assms)
qed

text \<open>
  C38. The matrix programs, for a square matrix with \<open>n\<close> lines and a matrix with as many lines. When the second has \<open>n\<close> columns too, and no
  number of elements, product of two elements or partial sum overflows \<^verbatim>\<open>int\<close>, both multiplications of \<^verbatim>\<open>14-iterators\<close> give
  the product of the matrices, and both programs report no divergence; with an overflow both have undefined behaviour. A second
  matrix with more columns passes the
  assertion too, but the result was given as many columns as the first matrix has, and the
  multiplication writes past its end.
\<close>

theorem matrix_programs:
  assumes "0 < n" "mlines A = int n" "mcolumns A = int n" "length (melems A) = n * n"
    and "mlines B = int n" "mcolumns B = int m" "length (melems B) = n * m"
  shows "(m = n \<longrightarrow>
      (if n * n < 2 ^ 31 \<and> product_fits (melems A) (melems B) n n n
       then (\<exists>Z C. resizeto (int n) (int n) empty_matrix = Inr Z \<and> cpp_transpose_mult A B Z = Inr C \<and>
           iter_transpose_mult (melems A) (melems B) (melems Z) (int n) (int n) (int n) = Inr (melems C) \<and>
           (\<forall>i < n. \<forall>j < n. melems C ! (i * n + j) = (\<Sum>k < n. melems A ! (i * n + k) * melems B ! (k * n + j)))) \<and>
         matrix_body A B = Inr [] \<and> old_matrix_body A B = Inr []
       else matrix_body A B = Inl Undefined_behaviour \<and> old_matrix_body A B = Inl Undefined_behaviour)) \<and>
    (n < m \<longrightarrow> matrix_body A B = Inl Undefined_behaviour)"
proof -
  have "\<exists>Z C. resizeto (int n) (int n) empty_matrix = Inr Z \<and> cpp_transpose_mult A B Z = Inr C \<and>
      iter_transpose_mult (melems A) (melems B) (melems Z) (int n) (int n) (int n) = Inr (melems C) \<and>
      (\<forall>i < n. \<forall>j < n. melems C ! (i * n + j) = (\<Sum>k < n. melems A ! (i * n + k) * melems B ! (k * n + j)))"
    if "m = n" "n * n < 2 ^ 31 \<and> product_fits (melems A) (melems B) n n n"
    using square_multiplications [OF assms(1-6) [unfolded that(1)]] that assms(7)
    by (intro exI [of _ "zero_square n"] exI [of _ "(zero_square n)\<lparr>melems := kernel_simple (melems A) (melems B) n n n\<rparr>"])
      (simp add: kernel_simple_nth entry_sum resizeto_empty zero_square_def)
  moreover have "matrix_body A B = (if n * n < 2 ^ 31 \<and> product_fits (melems A) (melems B) n n n then Inr [] else Inl Undefined_behaviour) \<and> old_matrix_body A B = matrix_body A B" if "m = n"
    using square_programs [of n A B] assms that by simp
  moreover have "matrix_body A B = Inl Undefined_behaviour" if "n < m"
    using cpp_transpose_mult_overflow [OF assms(2,3,5,6,7), of "zero_square n"] assms(1,2,3) that
    by (simp add: matrix_body_def shape_def resizeto_empty zero_square_def)
  ultimately show ?thesis by auto
qed

text \<open>A product, the overflow of \<open>65536 * 65536\<close>, and a second matrix with more columns.\<close>

theorem matrix_programs_witness:
  "matrix_body \<lparr>mlines = 2, mcolumns = 2, melems = [1, 2, 3, 4]\<rparr> \<lparr>mlines = 2, mcolumns = 2, melems = [5, 6, 7, 8]\<rparr> = Inr [] \<and>
   matrix_body \<lparr>mlines = 1, mcolumns = 1, melems = [65536]\<rparr> \<lparr>mlines = 1, mcolumns = 1, melems = [65536]\<rparr> = Inl Undefined_behaviour \<and>
   matrix_body \<lparr>mlines = 1, mcolumns = 1, melems = [1]\<rparr> \<lparr>mlines = 1, mcolumns = 2, melems = [5, 6]\<rparr> = Inl Undefined_behaviour"
proof -
  have "product_fits [1, 2, 3, 4] [5, 6, 7, 8] 2 2 2"
    by (simp add: product_fits_def numeral_2_eq_2 All_less_Suc int_ok_def)
  moreover have "\<not> product_fits [65536] [65536] 1 1 1" by (simp add: product_fits_def int_ok_def)
  ultimately show ?thesis
    using matrix_programs [of 2 "\<lparr>mlines = 2, mcolumns = 2, melems = [1, 2, 3, 4]\<rparr>" "\<lparr>mlines = 2, mcolumns = 2, melems = [5, 6, 7, 8]\<rparr>" 2]
      matrix_programs [of 1 "\<lparr>mlines = 1, mcolumns = 1, melems = [65536]\<rparr>" "\<lparr>mlines = 1, mcolumns = 1, melems = [65536]\<rparr>" 1]
      matrix_programs [of 1 "\<lparr>mlines = 1, mcolumns = 1, melems = [1]\<rparr>" "\<lparr>mlines = 1, mcolumns = 2, melems = [5, 6]\<rparr>" 2]
    by simp
qed

end
