(* ===== verification/Hist.thy ===== *)
theory Hist
  imports Gemm
begin

text \<open>
  \<^verbatim>\<open>11-compute/cl_hist.cc\<close>: options, the reference histogram, the offloading method and the comparison. The data
  are bytes, the counters are 32 bits wide, and the additions of the device wrap around. The data are at most as many as an \<^verbatim>\<open>int\<close> can
  count, so the counters of the reference do not reach their largest value. OpenCL is a parameter: what copying to a buffer gives,
  what a buffer holds when it was created, and what running the kernel makes of it.
\<close>

section \<open>Options\<close>

record hist_cfg =
  DataSize :: int
  GlobalSize :: int
  HistSize :: int
  HLSZ :: int
  HPATH :: string


definition DATABLOCK :: int where
  "DATABLOCK = 256"

fun hist_readCfg :: "string list \<Rightarrow> hist_cfg \<Rightarrow> string \<Rightarrow> hist_cfg res \<times> string" where
  "hist_readCfg [] Cfg err = (Inr Cfg, err)"
| "hist_readCfg (Argvi # rest) Cfg err =
     (if starts_with Argvi ''-dsz='' then
        (let (v, bad) = from_chars_int (drop 5 Argvi) (DataSize Cfg) in
         hist_readCfg rest (Cfg\<lparr>DataSize := v\<rparr>) (err @ no_parse bad ''-dsz''))
      else if starts_with Argvi ''-gsz='' then
        (let (v, bad) = from_chars_int (drop 5 Argvi) (GlobalSize Cfg) in
         hist_readCfg rest (Cfg\<lparr>GlobalSize := v\<rparr>) (err @ no_parse bad ''-gsz''))
      else if starts_with Argvi ''-hsz='' then
        (let (v, bad) = from_chars_int (drop 5 Argvi) (HistSize Cfg) in
         hist_readCfg rest (Cfg\<lparr>HistSize := v\<rparr>) (err @ no_parse bad ''-hsz''))
      else if starts_with Argvi ''-lsz='' then
        (let (v, bad) = from_chars_int (drop 5 Argvi) (HLSZ Cfg) in
         hist_readCfg rest (Cfg\<lparr>HLSZ := v\<rparr>) (err @ no_parse bad ''-lsz''))
      else if starts_with Argvi ''-kernel='' then
        hist_readCfg rest (Cfg\<lparr>HPATH := drop 8 Argvi\<rparr>) err
      else (Inl (Option_error Argvi), err))"

definition hist_dump :: "hist_cfg \<Rightarrow> string" where
  "hist_dump Cfg =
     ''data size = '' @ string_of_int (DataSize Cfg) @ endl @
     ''hist size = '' @ string_of_int (HistSize Cfg) @ endl @
     ''global size = '' @ string_of_int (GlobalSize Cfg) @ endl @
     ''local size = '' @ string_of_int (HLSZ Cfg) @ endl @
     ''kernel path = '' @ HPATH Cfg"

section \<open>The histogram\<close>

definition hist_ref :: "8 word list \<Rightarrow> nat \<Rightarrow> 32 word list \<Rightarrow> int \<Rightarrow> 32 word list res" where
  "hist_ref Data dsz Hist hsz =
     for_n dsz (\<lambda>i Hist.
       bindE (vec_get Data i) (\<lambda>d.
       if \<not> (uint d < hsz \<and> uint d \<ge> 0) then Inl Assertion_failed
       else bindE (vec_get Hist (unat d)) (\<lambda>h. vec_set Hist (unat d) (h + 1)))) Hist"

text \<open>
  The offloading method. \<open>copy_to\<close> is \<^verbatim>\<open>cl::copy\<close> to a buffer, \<open>fresh_buf n\<close> the contents of a new buffer of \<open>n\<close> numbers,
  \<open>run\<close> the kernel on the global and local ranges: it gets the data, their number, the contents of the
  histogram buffer and the number of bins.
\<close>

definition hist :: "(8 word list \<Rightarrow> nat \<Rightarrow> 8 word list res) \<Rightarrow> (nat \<Rightarrow> 32 word list) \<Rightarrow>
    (string \<Rightarrow> int \<Rightarrow> int \<Rightarrow> 8 word list \<Rightarrow> nat \<Rightarrow> 32 word list \<Rightarrow> nat \<Rightarrow> 32 word list res) \<Rightarrow>
    string \<Rightarrow> hist_cfg \<Rightarrow> 8 word list \<Rightarrow> nat \<Rightarrow> nat \<Rightarrow> 32 word list res" where
  "hist copy_to fresh_buf run K Cfg Data dsz hsz =
     bindE (bindE (host_range Data dsz) (\<lambda>xs. copy_to xs dsz)) (\<lambda>D.
     bindE (run K (GlobalSize Cfg * DATABLOCK) (HLSZ Cfg) D dsz (fresh_buf hsz) hsz) (\<lambda>H. host_range H hsz))"







text \<open>Every bin increased by the number of its data.\<close>

definition add_counts :: "8 word list \<Rightarrow> 32 word list \<Rightarrow> 32 word list" where
  "add_counts D H = map (\<lambda>b. H ! b + of_nat (count_list D (of_nat b))) [0..<length H]"

section \<open>Properties\<close>

lemma hist_ref_prefix:
  assumes "\<forall>d \<in> set Data. unat d < n" "n \<le> 256" "k \<le> length Data"
  shows "for_n k (\<lambda>i Hist. bindE (vec_get Data i) (\<lambda>d. if \<not> (uint d < int n \<and> uint d \<ge> 0) then Inl Assertion_failed
       else bindE (vec_get Hist (unat d)) (\<lambda>h. vec_set Hist (unat d) (h + 1)))) (replicate n 0) =
     Inr (add_counts (take k Data) (replicate n 0))"
  using assms(3)
proof (induction k)
  case 0
  then show ?case by (auto simp: add_counts_def intro!: nth_equalityI)
next
  case (Suc k)
  let ?d = "Data ! k" and ?H = "add_counts (take k Data) (replicate n 0)"
  have d: "unat ?d < n" using assms(1) Suc.prems by simp
  then have u: "uint ?d < int n" using of_nat_less_iff [of "unat ?d" n, where 'a = int] by simp
  have len: "length ?H = n" by (simp add: add_counts_def)
  have "?H[unat ?d := ?H ! unat ?d + 1] = add_counts (take (Suc k) Data) (replicate n 0)"
  proof (rule nth_equalityI)
    fix b assume "b < length (?H[unat ?d := ?H ! unat ?d + 1])"
    then have b: "b < n" using len by simp
    have "unat (of_nat b :: 8 word) = b" using b assms(2) by (simp add: unat_of_nat)
    then have "(of_nat b :: 8 word) = ?d \<longleftrightarrow> b = unat ?d" by (simp add: word_unat_eq_iff)
    then show "?H[unat ?d := ?H ! unat ?d + 1] ! b = add_counts (take (Suc k) Data) (replicate n 0) ! b"
      using b d Suc.prems by (auto simp: add_counts_def take_Suc_conv_app_nth nth_list_update)
  qed (simp add: add_counts_def)
  then show ?case using Suc u d len by simp
qed


lemma sum_list_counts: "sum_list (map f [0..<n]) = sum f {..<n}" for f :: "nat \<Rightarrow> 32 word"
  by (simp add: interv_sum_list_conv_sum_set_nat atLeast0LessThan)

lemma of_nat_byte: "b < n \<Longrightarrow> n \<le> 256 \<Longrightarrow> (of_nat b :: 8 word) = d \<longleftrightarrow> b = unat d"
  by (simp add: word_unat_eq_iff unat_of_nat)

lemma bins_sum:
  assumes "\<forall>d \<in> set D. unat d < n" "n \<le> 256"
  shows "(\<Sum>b < n. of_nat (count_list D (of_nat b :: 8 word))) = (of_nat (length D) :: 32 word)"
  using assms(1)
proof (induction D)
  case (Cons d D)
  have "(\<Sum>b < n. (of_nat (count_list (d # D) (of_nat b)) :: 32 word)) = (\<Sum>b < n. of_nat (count_list D (of_nat b)) + (if b = unat d then 1 else 0))"
    by (rule sum.cong) (use of_nat_byte [OF _ assms(2)] in auto)
  also have "\<dots> = (\<Sum>b < n. of_nat (count_list D (of_nat b))) + (if unat d < n then 1 else 0)"
    by (simp add: sum.distrib sum.delta)
  finally show ?case using Cons by simp
qed simp

lemma hist_ref_out_of_range:
  assumes "\<exists>d \<in> set Data. n \<le> unat d" "n \<le> 256"
  shows "hist_ref Data (length Data) (replicate n 0) (int n) = Inl Assertion_failed"
proof -
  obtain k where k: "k < length Data" "n \<le> unat (Data ! k)" using assms(1) by (auto simp: in_set_conv_nth)
  have big: "\<not> uint (Data ! k) < int n" using k(2) of_nat_less_iff [of "unat (Data ! k)" n, where 'a = int] by simp
  show ?thesis unfolding hist_ref_def
  proof (rule for_n_must_fail [where P = "\<lambda>H. length H = n", OF _ _ k(1)])
    fix i H assume "i < length Data" "length (H :: 32 word list) = n"
    then show "bindE (vec_get Data i) (\<lambda>d. if \<not> (uint d < int n \<and> uint d \<ge> 0) then Inl Assertion_failed
         else bindE (vec_get H (unat d)) (\<lambda>h. vec_set H (unat d) (h + 1))) = Inl Assertion_failed \<or>
       (\<exists>s'. bindE (vec_get Data i) (\<lambda>d. if \<not> (uint d < int n \<and> uint d \<ge> 0) then Inl Assertion_failed
         else bindE (vec_get H (unat d)) (\<lambda>h. vec_set H (unat d) (h + 1))) = Inr s' \<and> length s' = n)"
      using of_nat_less_iff [of "unat (Data ! i)" n, where 'a = int] by auto
  qed (use k big in simp_all)
qed

text \<open>
  The reference histogram of \<^verbatim>\<open>cl_hist.cc\<close>: when every byte is below the number of bins (at most 256), it
  returns without an assertion failure or an access out of bounds, and bin \<open>b\<close> of the result is the number of bytes with
  the value \<open>b\<close>; the bins add up to the number of data. A byte at or above the number of bins makes
  the assertion fail.
\<close>

theorem hist_ref_correct:
  assumes "0 < n" "n \<le> 256"
  shows "((\<forall>d \<in> set Data. unat d < n) \<longrightarrow>
      (\<exists>H. hist_ref Data (length Data) (replicate n 0) (int n) = Inr H \<and> length H = n \<and>
         (\<forall>b < n. H ! b = of_nat (count_list Data (of_nat b))) \<and> sum_list H = of_nat (length Data))) \<and>
    ((\<exists>d \<in> set Data. n \<le> unat d) \<longrightarrow> hist_ref Data (length Data) (replicate n 0) (int n) = Inl Assertion_failed)"
proof -
  have "hist_ref Data (length Data) (replicate n 0) (int n) = Inr (add_counts Data (replicate n 0))"
    if "\<forall>d \<in> set Data. unat d < n"
    using hist_ref_prefix [OF that assms(2), of "length Data"] by (simp add: hist_ref_def)
  moreover have "sum_list (add_counts Data (replicate n 0)) = of_nat (length Data)" if "\<forall>d \<in> set Data. unat d < n"
    using bins_sum [OF that assms(2)] by (simp add: add_counts_def sum_list_counts)
  moreover have "hist_ref Data (length Data) (replicate n 0) (int n) = Inl Assertion_failed"
    if "\<exists>d \<in> set Data. n \<le> unat d"
    by (rule hist_ref_out_of_range [OF that assms(2)])
  ultimately show ?thesis by (simp add: add_counts_def)
qed

theorem hist_ref_correct_witness:
  "(\<exists>H. hist_ref [1, 0, 1] (length [1, 0, 1 :: 8 word]) (replicate 2 0) (int 2) = Inr H \<and> H ! 1 = of_nat (count_list [1, 0, 1 :: 8 word] (of_nat 1))) \<and>
   hist_ref [1, 7, 1] (length [1, 7, 1 :: 8 word]) (replicate 2 0) (int 2) = Inl Assertion_failed"
proof
  show "\<exists>H. hist_ref [1, 0, 1] (length [1, 0, 1 :: 8 word]) (replicate 2 0) (int 2) = Inr H \<and> H ! 1 = of_nat (count_list [1, 0, 1 :: 8 word] (of_nat 1))"
    using conjunct1 [OF hist_ref_correct [of 2 "[1, 0, 1]"]] by force
  show "hist_ref [1, 7, 1] (length [1, 7, 1 :: 8 word]) (replicate 2 0) (int 2) = Inl Assertion_failed"
    using conjunct2 [OF hist_ref_correct [of 2 "[1, 7, 1]"]] by simp
qed

section \<open>The kernel\<close>















section \<open>The offloaded histogram\<close>



end
