(* ===== verification/Linked.thy ===== *)
theory Linked
  imports Prelude
begin

text \<open>
  Linked structures, independent of how a program stores its pointers: circular doubly linked lists given by a
  successor and a predecessor function, and bucket arrays of singly linked chains. The C programs keep their
  recency lists and hash tables in these shapes. A list that ends in null pointers and keeps its ends in a
  header is a ring too, with the header as the sentinel.
\<close>

named_theorems ring_intros "operations on rings and tables"

section \<open>Paths\<close>

primrec path :: "('a \<Rightarrow> 'a) \<Rightarrow> 'a \<Rightarrow> 'a list \<Rightarrow> 'a \<Rightarrow> bool" where
  "path f a [] b \<longleftrightarrow> f a = b"
| "path f a (x # xs) b \<longleftrightarrow> f a = x \<and> path f x xs b"

lemma path_append: "path f a (xs @ y # ys) b \<longleftrightarrow> path f a xs y \<and> path f y ys b"
  by (induction xs arbitrary: a) auto

lemma path_upd_other: "c \<notin> set (a # xs) \<Longrightarrow> path (f(c := v)) a xs b = path f a xs b"
  by (induction xs arbitrary: a) auto

lemma path_cong: "(\<And>x. x \<in> set (a # xs) \<Longrightarrow> f x = g x) \<Longrightarrow> path f a xs b = path g a xs b"
  by (induction xs arbitrary: a) auto

lemma path_last: "path f a xs b \<Longrightarrow> f (last (a # xs)) = b"
  by (induction xs arbitrary: a) auto

lemma path_redirect: "distinct (a # xs) \<Longrightarrow> path f a xs b \<Longrightarrow> path (f(last (a # xs) := c)) a xs c"
proof (induction xs arbitrary: a)
  case (Cons x xs)
  then have "a \<noteq> last (x # xs)" by (metis distinct.simps(2) last_in_set list.distinct(1))
  then show ?case using Cons by simp
qed simp

lemma path_skip:
  assumes "path f a (xs @ n # ys) b" "distinct (a # xs @ n # ys)"
  shows "path (f(last (a # xs) := f n)) a (xs @ ys) b"
proof -
  have p: "path f a xs n" "path f n ys b" using assms(1) by (auto simp: path_append)
  have d: "distinct (a # xs)" "last (a # xs) \<notin> set (n # ys)"
    using assms(2) last_in_set [of "a # xs"] by auto
  show ?thesis
  proof (cases ys)
    case Nil
    then show ?thesis using p path_redirect [OF d(1) p(1)] by simp
  next
    case (Cons y zs)
    then have "path (f(last (a # xs) := f n)) y zs b" using p(2) d(2) by (subst path_upd_other) auto
    then show ?thesis using p(2) Cons path_redirect [OF d(1) p(1), of "f n"] by (simp add: path_append)
  qed
qed

section \<open>Rings\<close>

definition ring :: "('a \<Rightarrow> 'a) \<Rightarrow> ('a \<Rightarrow> 'a) \<Rightarrow> 'a \<Rightarrow> 'a list \<Rightarrow> bool" where
  "ring nxt prv h ns \<longleftrightarrow> distinct (h # ns) \<and> path nxt h ns h \<and> path prv h (rev ns) h"

lemma ring_Nil [ring_intros]: "nxt h = h \<Longrightarrow> prv h = h \<Longrightarrow> ring nxt prv h []"
  by (simp add: ring_def)

lemma ring_cong: "(\<And>x. x \<in> set (h # ns) \<Longrightarrow> nxt x = nxt' x \<and> prv x = prv' x) \<Longrightarrow> ring nxt prv h ns = ring nxt' prv' h ns"
  using path_cong [of h ns nxt nxt' h] path_cong [of h "rev ns" prv prv' h] by (auto simp: ring_def)

lemma ring_next: "ring nxt prv h ns \<Longrightarrow> nxt h = hd (ns @ [h])"
  by (cases ns) (auto simp: ring_def)

lemma ring_prev: "ring nxt prv h ns \<Longrightarrow> prv h = last (h # ns)"
  by (cases ns rule: rev_cases) (auto simp: ring_def)

lemma ring_empty: "ring nxt prv h ns \<Longrightarrow> nxt h = h \<longleftrightarrow> ns = []"
  by (cases ns) (auto simp: ring_def)

text \<open>The neighbours of a member.\<close>

lemma ring_neighbours:
  assumes "ring nxt prv h (xs @ n # ys)"
  shows "nxt n = hd (ys @ [h])" "prv n = last (h # xs)"
proof -
  have "path nxt n ys h" "path prv n (rev xs) h" using assms by (auto simp: ring_def path_append)
  then show "nxt n = hd (ys @ [h])" "prv n = last (h # xs)" by (cases ys, auto) (cases xs rule: rev_cases, auto)
qed

lemma ring_closed:
  assumes "ring nxt prv h ns" "n \<in> set (h # ns)"
  shows "nxt n \<in> set (h # ns)" "prv n \<in> set (h # ns)"
proof -
  have "nxt n \<in> set (h # ns) \<and> prv n \<in> set (h # ns)"
  proof (cases "n = h")
    case True
    then show ?thesis using ring_next [OF assms(1)] ring_prev [OF assms(1)] by (cases ns) auto
  next
    case False
    then obtain xs ys where ns: "ns = xs @ n # ys" using assms(2) by (auto dest: split_list)
    show ?thesis using ring_neighbours [OF assms(1) [unfolded ns]] last_in_set [of "h # xs"] ns by (cases ys) auto
  qed
  then show "nxt n \<in> set (h # ns)" "prv n \<in> set (h # ns)" by auto
qed

lemma ring_detach [ring_intros]:
  assumes "ring nxt prv h (xs @ n # ys)"
  shows "ring (nxt(prv n := nxt n)) (prv(nxt n := prv n)) h (xs @ ys)"
proof -
  have d: "distinct (h # xs @ n # ys)" "distinct (h # rev ys @ n # rev xs)" using assms by (auto simp: ring_def)
  have p: "path nxt h (xs @ n # ys) h" "path prv h (rev ys @ n # rev xs) h" using assms by (auto simp: ring_def)
  have "nxt n = last (h # rev ys)" "prv n = last (h # xs)" using ring_neighbours [OF assms] by (cases ys; simp)+
  then show ?thesis using path_skip [OF p(1) d(1)] path_skip [OF p(2) d(2)] d(1) by (simp add: ring_def)
qed

lemma ring_prepend [ring_intros]:
  assumes "ring nxt prv h ns" "n \<notin> set (h # ns)"
  shows "ring (nxt(n := nxt h, h := n)) (prv(n := h, nxt h := n)) h (n # ns)"
proof -
  have d: "distinct (h # ns)" "path nxt h ns h" "path prv h (rev ns) h" using assms by (auto simp: ring_def)
  have l: "nxt h = last (h # rev ns)" using ring_next [OF assms(1)] by (cases ns) auto
  have "path (prv(n := h)) h (rev ns) h" using d(3) assms(2) by (subst path_upd_other) auto
  from path_redirect [OF _ this, of n] have "path (prv(n := h, nxt h := n)) h (rev ns) n" using d(1) l by simp
  moreover have "nxt h \<noteq> n" using ring_closed(1) [OF assms(1), of h] assms(2) by auto
  moreover have "path (nxt(n := nxt h, h := n)) n ns h"
    using d(1,2) assms(2) by (cases ns) (auto simp: path_upd_other)
  ultimately show ?thesis using assms d(1) by (auto simp: ring_def path_append)
qed

text \<open>
  What a program has to offer so that its list operations work on rings: it reads and writes the two pointers of the places
  that are \<open>ok\<close>; a write changes one pointer and nothing of the \<open>rest\<close> of the state.
\<close>

locale links =
  fixes nx pv :: "'s \<Rightarrow> 'p \<Rightarrow> 'p"
    and unx upv :: "'p \<Rightarrow> 'p \<Rightarrow> 's \<Rightarrow> 's"
    and ok :: "'s \<Rightarrow> 'p \<Rightarrow> bool"
    and rest :: "'s \<Rightarrow> 'r"
  assumes write_next: "ok s p \<Longrightarrow> nx (unx p v s) = (nx s)(p := v)" "ok s p \<Longrightarrow> pv (unx p v s) = pv s"
      "ok s p \<Longrightarrow> ok (unx p v s) = ok s" "ok s p \<Longrightarrow> rest (unx p v s) = rest s"
    and write_prev: "ok s p \<Longrightarrow> pv (upv p v s) = (pv s)(p := v)" "ok s p \<Longrightarrow> nx (upv p v s) = nx s"
      "ok s p \<Longrightarrow> ok (upv p v s) = ok s" "ok s p \<Longrightarrow> rest (upv p v s) = rest s"
begin

lemma detach_ring:
  assumes "ring (nx s) (pv s) h (xs @ n # ys)" "\<forall>p \<in> set (h # xs @ n # ys). ok s p"
  shows "ring (nx (upv (nx s n) (pv s n) (unx (pv s n) (nx s n) s))) (pv (upv (nx s n) (pv s n) (unx (pv s n) (nx s n) s))) h (xs @ ys)"
    "ok (upv (nx s n) (pv s n) (unx (pv s n) (nx s n) s)) = ok s" "rest (upv (nx s n) (pv s n) (unx (pv s n) (nx s n) s)) = rest s"
    "ok s (nx s n)" "ok s (pv s n)" "pv s n \<noteq> n"
proof -
  have ok: "ok s (nx s n)" "ok s (pv s n)" using ring_closed [OF assms(1), of n] assms(2) by auto
  then show "ok s (nx s n)" "ok s (pv s n)" by auto
  show "ring (nx (upv (nx s n) (pv s n) (unx (pv s n) (nx s n) s))) (pv (upv (nx s n) (pv s n) (unx (pv s n) (nx s n) s))) h (xs @ ys)"
    using ring_detach [OF assms(1)] ok by (simp add: write_next write_prev)
  show "ok (upv (nx s n) (pv s n) (unx (pv s n) (nx s n) s)) = ok s" "rest (upv (nx s n) (pv s n) (unx (pv s n) (nx s n) s)) = rest s"
    using ok by (simp_all add: write_next write_prev)
  show "pv s n \<noteq> n" using ring_neighbours(2) [OF assms(1)] last_in_set [of "h # xs"] assms(1) by (auto simp: ring_def)
qed

lemma prepend_ring:
  assumes "ring (nx s) (pv s) h ns" "\<forall>p \<in> set (h # ns). ok s p" "n \<notin> set (h # ns)" "ok s n"
  shows "ring (nx (unx h n (upv (nx s h) n (unx n (nx s h) (upv n h s))))) (pv (unx h n (upv (nx s h) n (unx n (nx s h) (upv n h s))))) h (n # ns)"
    "ok (unx h n (upv (nx s h) n (unx n (nx s h) (upv n h s)))) = ok s" "rest (unx h n (upv (nx s h) n (unx n (nx s h) (upv n h s)))) = rest s"
    "ok s (nx s h)" "ok s h"
proof -
  have ok: "ok s h" "ok s (nx s h)" using ring_closed(1) [OF assms(1), of h] assms(2) by auto
  then show "ok s (nx s h)" "ok s h" by auto
  show "ring (nx (unx h n (upv (nx s h) n (unx n (nx s h) (upv n h s))))) (pv (unx h n (upv (nx s h) n (unx n (nx s h) (upv n h s))))) h (n # ns)"
    using ring_prepend [OF assms(1,3)] ok assms(4) by (simp add: write_next write_prev)
  show "ok (unx h n (upv (nx s h) n (unx n (nx s h) (upv n h s)))) = ok s" "rest (unx h n (upv (nx s h) n (unx n (nx s h) (upv n h s)))) = rest s"
    using ok assms(4) by (simp_all add: write_next write_prev)
qed

end

section \<open>Chains and bucket arrays\<close>

primrec chain :: "('a \<Rightarrow> 'a option) \<Rightarrow> 'a option \<Rightarrow> 'a list \<Rightarrow> bool" where
  "chain nxt p [] \<longleftrightarrow> p = None"
| "chain nxt p (e # es) \<longleftrightarrow> p = Some e \<and> chain nxt (nxt e) es"

lemma chain_upd_other: "c \<notin> set es \<Longrightarrow> chain (nxt(c := v)) p es = chain nxt p es"
  by (induction es arbitrary: p) auto

lemma chain_cong: "(\<And>e. e \<in> set es \<Longrightarrow> nxt e = nxt' e) \<Longrightarrow> chain nxt p es = chain nxt' p es"
  by (induction es arbitrary: p) auto

lemma chain_skip:
  "chain nxt p (xs @ e # ys) \<Longrightarrow> distinct (xs @ e # ys) \<Longrightarrow> xs \<noteq> [] \<Longrightarrow> chain (nxt(last xs := nxt e)) p (xs @ ys)"
proof (induction xs arbitrary: p)
  case (Cons x xs)
  show ?case
  proof (cases "xs = []")
    case True
    then show ?thesis using Cons.prems chain_upd_other [of x ys nxt "nxt e" "nxt e"] by (simp del: fun_upd_apply) simp
  next
    case False
    then have "last xs \<noteq> x" using Cons.prems(2) last_in_set by fastforce
    then show ?thesis using Cons False by simp
  qed
qed simp

lemma chain_suffix: "chain nxt p (xs @ e # ys) \<Longrightarrow> chain nxt (Some e) (e # ys)"
  by (induction xs arbitrary: p) auto

text \<open>A place that holds a chain pointer: an element of the bucket array, or the link of an element.\<close>

datatype 'a slot = Bucket nat | Next_of 'a

definition slot_at :: "nat \<Rightarrow> 'a list \<Rightarrow> 'a slot" where
  "slot_at i xs = (if xs = [] then Bucket i else Next_of (last xs))"

definition table :: "('a \<Rightarrow> 'a option) \<Rightarrow> 'a option list \<Rightarrow> 'a list list \<Rightarrow> bool" where
  "table nxt bs cs \<longleftrightarrow> length cs = length bs \<and> (\<forall>i < length bs. chain nxt (bs ! i) (cs ! i)) \<and> distinct (concat cs)"

text \<open>Storing a pointer in a slot.\<close>

definition slot_next :: "'a slot \<Rightarrow> 'a option \<Rightarrow> ('a \<Rightarrow> 'a option) \<Rightarrow> 'a \<Rightarrow> 'a option" where
  "slot_next s v nxt = (case s of Bucket i \<Rightarrow> nxt | Next_of e \<Rightarrow> nxt(e := v))"

definition slot_bucket :: "'a slot \<Rightarrow> 'a option \<Rightarrow> 'a option list \<Rightarrow> 'a option list" where
  "slot_bucket s v bs = (case s of Bucket i \<Rightarrow> bs[i := v] | Next_of e \<Rightarrow> bs)"

lemma mset_concat_update:
  "i < length cs \<Longrightarrow> mset (concat (cs[i := c])) + mset (cs ! i) = mset (concat cs) + mset c"
proof (induction cs arbitrary: i)
  case (Cons a cs)
  then show ?case by (cases i) (auto simp: ac_simps)
qed simp

lemma table_disjoint:
  assumes "distinct (concat cs)" "i < length cs" "j < length cs" "x \<in> set (cs ! i)" "x \<in> set (cs ! j)"
  shows "i = j"
proof (rule ccontr)
  have *: "set (cs ! i) \<inter> set (cs ! j) = {}" if "i < j" "j < length cs" "distinct (concat cs)" for i j
    using that
  proof (induction cs arbitrary: i j)
    case (Cons a cs)
    then obtain j' where j: "j = Suc j'" "j' < length cs" by (cases j) auto
    then have "set (cs ! j') \<subseteq> set (concat cs)" using nth_mem [OF j(2)] by fastforce
    then show ?case using Cons j by (cases i) auto
  qed simp
  assume "i \<noteq> j"
  then show False using * [of i j] * [of j i] assms by (cases "i < j") auto
qed

lemma table_remove_mset:
  assumes "i < length cs" "cs ! i = xs @ e # ys"
  shows "mset (concat cs) = add_mset e (mset (concat (cs[i := xs @ ys])))"
  using mset_concat_update [OF assms(1), of "xs @ ys"] assms(2) by simp

lemma table_replicate [ring_intros]: "table nxt (replicate n None) (replicate n [])"
  by (simp add: table_def)

lemma table_chain: "table nxt bs cs \<Longrightarrow> i < length bs \<Longrightarrow> chain nxt (bs ! i) (cs ! i)"
  by (simp add: table_def)

lemma table_insert [ring_intros]:
  assumes t: "table nxt bs cs" and e: "e \<notin> set (concat cs)" and i: "i < length bs"
  shows "table (nxt(e := bs ! i)) (bs[i := Some e]) (cs[i := e # cs ! i])"
proof -
  have len: "length cs = length bs" using t by (simp add: table_def)
  have nin: "e \<notin> set (cs ! j)" if "j < length bs" for j using e that len nth_mem [of j cs] by auto
  have ms: "mset (concat (cs[i := e # cs ! i])) = add_mset e (mset (concat cs))"
    using mset_concat_update [of i cs "e # cs ! i"] i len by simp
  then have "distinct (concat (cs[i := e # cs ! i]))"
    using t e by (metis distinct.simps(2) mset.simps(2) mset_eq_imp_distinct_iff table_def)
  moreover have "chain (nxt(e := bs ! i)) (bs[i := Some e] ! j) (cs[i := e # cs ! i] ! j)" if "j < length bs" for j
    using t that nin len by (cases "j = i") (auto simp: table_def chain_upd_other)
  ultimately show ?thesis using len by (simp add: table_def)
qed

lemma table_remove [ring_intros]:
  assumes t: "table nxt bs cs" and i: "i < length bs" and c: "cs ! i = xs @ e # ys"
  shows "table (slot_next (slot_at i xs) (nxt e) nxt) (slot_bucket (slot_at i xs) (nxt e) bs) (cs[i := xs @ ys])"
proof -
  have len: "length cs = length bs" and d: "distinct (concat cs)" using t by (auto simp: table_def)
  have ch: "chain nxt (bs ! i) (xs @ e # ys)" using t i c by (auto simp: table_def)
  have di: "distinct (xs @ e # ys)" using d i len c by (metis distinct_concat_iff in_set_conv_nth)
  have "mset (e # concat (cs[i := xs @ ys])) = mset (concat cs)" using table_remove_mset [of i cs, OF _ c] i len by simp
  then have "distinct (concat (cs[i := xs @ ys]))" using d by (metis distinct.simps(2) mset_eq_imp_distinct_iff)
  moreover have "chain (slot_next (slot_at i xs) (nxt e) nxt) (slot_bucket (slot_at i xs) (nxt e) bs ! j) (cs[i := xs @ ys] ! j)"
    if "j < length bs" for j
  proof (cases "j = i")
    case True
    show ?thesis
    proof (cases "xs = []")
      case True
      then show ?thesis using \<open>j = i\<close> ch i len by (simp add: slot_at_def slot_next_def slot_bucket_def)
    next
      case False
      then show ?thesis using \<open>j = i\<close> chain_skip [OF ch di False] i len
        by (simp add: slot_at_def slot_next_def slot_bucket_def)
    qed
  next
    case False
    have "last xs \<notin> set (cs ! j)" if "xs \<noteq> []"
      using table_disjoint [OF d, of i j "last xs"] False \<open>j < length bs\<close> i len c last_in_set [OF that] by auto
    then show ?thesis using False t \<open>j < length bs\<close>
      by (simp add: slot_at_def slot_next_def slot_bucket_def table_def chain_upd_other)
  qed
  moreover have "length (slot_bucket (slot_at i xs) (nxt e) bs) = length bs" by (simp add: slot_bucket_def split: slot.split)
  ultimately show ?thesis using len by (simp add: table_def)
qed

lemma table_cong:
  assumes "\<And>e. e \<in> set (concat cs) \<Longrightarrow> nxt e = nxt' e"
  shows "table nxt bs cs = table nxt' bs cs"
proof -
  have "chain nxt p (cs ! i) = chain nxt' p (cs ! i)" if "i < length cs" for i p
    using nth_mem [OF that] by (intro chain_cong assms) auto
  then show ?thesis by (auto simp: table_def)
qed

section \<open>Chains with pointers back\<close>

text \<open>Every element of a chain knows the slot that points to it.\<close>

primrec chain_back :: "('a \<Rightarrow> 'a slot option) \<Rightarrow> 'a slot \<Rightarrow> 'a list \<Rightarrow> bool" where
  "chain_back pn s [] \<longleftrightarrow> True"
| "chain_back pn s (e # es) \<longleftrightarrow> pn e = Some s \<and> chain_back pn (Next_of e) es"

definition backs :: "('a \<Rightarrow> 'a slot option) \<Rightarrow> 'a list list \<Rightarrow> bool" where
  "backs pn cs \<longleftrightarrow> (\<forall>i < length cs. chain_back pn (Bucket i) (cs ! i))"

definition repoint :: "'a list \<Rightarrow> 'a slot option \<Rightarrow> ('a \<Rightarrow> 'a slot option) \<Rightarrow> 'a \<Rightarrow> 'a slot option" where
  "repoint es s pn = (case es of [] \<Rightarrow> pn | e # _ \<Rightarrow> pn(e := s))"

lemma repoint_simps [simp]: "repoint [] s pn = pn" "repoint (e # es) s pn = pn(e := s)"
  by (simp_all add: repoint_def)

lemma chain_back_cong: "(\<And>e. e \<in> set es \<Longrightarrow> pn e = pn' e) \<Longrightarrow> chain_back pn s es = chain_back pn' s es"
  by (induction es arbitrary: s) auto

lemma chain_back_upd_other: "c \<notin> set es \<Longrightarrow> chain_back (pn(c := v)) s es = chain_back pn s es"
  by (induction es arbitrary: s) auto

lemma chain_back_append:
  "chain_back pn s (xs @ ys) \<longleftrightarrow> chain_back pn s xs \<and> chain_back pn (if xs = [] then s else Next_of (last xs)) ys"
  by (induction xs arbitrary: s) auto

lemma chain_back_repoint: "distinct es \<Longrightarrow> chain_back pn s es \<Longrightarrow> chain_back (repoint es (Some s') pn) s' es"
  by (cases es) (simp_all add: chain_back_upd_other)

lemma slot_at_alt: "slot_at i xs = (if xs = [] then Bucket i else Next_of (last xs))"
  by (simp add: slot_at_def)

lemma backs_slot:
  assumes "backs pn cs" "i < length cs" "cs ! i = xs @ e # ys"
  shows "pn e = Some (slot_at i xs)"
  using assms by (auto simp: backs_def slot_at_alt chain_back_append dest!: spec [of _ i])

lemma backs_insert [ring_intros]:
  assumes b: "backs pn cs" and e: "e \<notin> set (concat cs)" and i: "i < length cs" and d: "distinct (concat cs)"
  shows "backs ((repoint (cs ! i) (Some (Next_of e)) pn)(e := Some (Bucket i))) (cs[i := e # cs ! i])"
proof -
  let ?pn = "(repoint (cs ! i) (Some (Next_of e)) pn)(e := Some (Bucket i))"
  have nin: "e \<notin> set (cs ! j)" if "j < length cs" for j using e that nth_mem [of j cs] by auto
  have "chain_back ?pn (Bucket j) (cs[i := e # cs ! i] ! j)" if j: "j < length cs" for j
  proof (cases "j = i")
    case True
    have "distinct (cs ! i)" using d i by (metis distinct_concat_iff nth_mem)
    then have "chain_back (repoint (cs ! i) (Some (Next_of e)) pn) (Next_of e) (cs ! i)"
      using b i by (intro chain_back_repoint) (auto simp: backs_def)
    then show ?thesis using True i nin [OF i] by (simp add: chain_back_upd_other)
  next
    case False
    have "?pn x = pn x" if "x \<in> set (cs ! j)" for x
    proof (cases "cs ! i")
      case (Cons h hs)
      then have "x \<noteq> h" using table_disjoint [OF d i j, of h] that False by auto
      then show ?thesis using Cons that nin [OF j] by auto
    qed (use that nin [OF j] in auto)
    then show ?thesis using False b j chain_back_cong [of "cs ! j" ?pn pn "Bucket j"] by (auto simp: backs_def)
  qed
  then show ?thesis by (simp add: backs_def)
qed

lemma backs_remove [ring_intros]:
  assumes b: "backs pn cs" and i: "i < length cs" and d: "distinct (concat cs)" and c: "cs ! i = xs @ e # ys"
  shows "backs ((repoint ys (pn e) pn)(e := None)) (cs[i := xs @ ys])"
proof -
  let ?pn = "(repoint ys (pn e) pn)(e := None)"
  have di: "distinct (xs @ e # ys)" using d i c by (metis distinct_concat_iff nth_mem)
  have bi: "chain_back pn (Bucket i) xs" "chain_back pn (Next_of e) ys" using b i c by (auto simp: backs_def chain_back_append dest!: spec [of _ i])
  have hit: "?pn x = pn x" if "x \<notin> set (e # take 1 ys)" for x using that by (cases ys) auto
  have "chain_back ?pn (Bucket j) (cs[i := xs @ ys] ! j)" if j: "j < length cs" for j
  proof (cases "j = i")
    case True
    have "?pn x = pn x" if "x \<in> set xs" for x
      by (rule hit) (use that di in \<open>auto dest: in_set_takeD\<close>)
    then have "chain_back ?pn (Bucket i) xs" using bi(1) chain_back_cong [of xs ?pn pn] by metis
    moreover have "chain_back (repoint ys (Some (slot_at i xs)) pn) (slot_at i xs) ys" using bi(2) di by (intro chain_back_repoint) auto
    then have "chain_back ?pn (slot_at i xs) ys" unfolding backs_slot [OF b i c]
      using di by (subst chain_back_cong [of ys _ "repoint ys (Some (slot_at i xs)) pn"]) auto
    ultimately show ?thesis using True i by (simp add: chain_back_append slot_at_alt)
  next
    case False
    have "?pn x = pn x" if "x \<in> set (cs ! j)" for x
    proof (rule hit)
      have "x \<notin> set (cs ! i)" using table_disjoint [OF d i j, of x] that False by auto
      then show "x \<notin> set (e # take 1 ys)" using c by (auto dest: in_set_takeD)
    qed
    then show ?thesis using False b j chain_back_cong [of "cs ! j" ?pn pn "Bucket j"] by (auto simp: backs_def)
  qed
  then show ?thesis by (simp add: backs_def)
qed

end
