(* ===== verification/C_Common.thy ===== *)
theory C_Common
  imports Linked Lru
begin

text \<open>
  What the C programs of \<^verbatim>\<open>01-basics\<close> share: the hash function, the reader of decimal numbers, and the two loops
  that walk a hash chain. A loop over a chain gets as fuel the number of elements there can be; walking in
  a cycle without end is undefined behaviour in C, and so is running out of fuel.
\<close>

unbundle bit_operations_syntax

section \<open>Hash function\<close>

definition mix64 :: "64 word \<Rightarrow> 64 word" where
  "mix64 key =
     (let hash = key;
          hash = hash XOR drop_bit 30 hash;
          hash = hash * 0xbf58476d1ce4e5b9;
          hash = hash XOR drop_bit 27 hash;
          hash = hash * 0x94d049bb133111eb;
          hash = hash XOR drop_bit 31 hash in
      hash)"

definition bucket_for :: "nat \<Rightarrow> int \<Rightarrow> nat" where
  "bucket_for bucket_count key = unat (mix64 (word_of_int key)) mod bucket_count"

lemma bucket_for_less [simp]: "0 < n \<Longrightarrow> bucket_for n k < n"
  by (simp add: bucket_for_def)

section \<open>Walking a chain\<close>

text \<open>\<open>get e\<close> is the key and the link of the element \<open>e\<close>, if it is allocated.\<close>

fun chain_find :: "nat \<Rightarrow> ('e \<Rightarrow> ('k \<times> 'e option) option) \<Rightarrow> 'k \<Rightarrow> 'e option \<Rightarrow> 'e option res" where
  "chain_find fuel get k None = Inr None"
| "chain_find 0 get k (Some e) = Inl Undefined_behaviour"
| "chain_find (Suc fuel) get k (Some e) =
     (case get e of
        None \<Rightarrow> Inl Undefined_behaviour
      | Some (k', p) \<Rightarrow> if k' = k then Inr (Some e) else chain_find fuel get k p)"

text \<open>The loop that ends with the slot that points to the element.\<close>

fun chain_link :: "nat \<Rightarrow> ('e \<Rightarrow> ('k \<times> 'e option) option) \<Rightarrow> 'k \<Rightarrow> 'e slot \<Rightarrow> 'e option \<Rightarrow> ('e slot \<times> 'e option) res" where
  "chain_link fuel get k link None = Inr (link, None)"
| "chain_link 0 get k link (Some e) = Inl Undefined_behaviour"
| "chain_link (Suc fuel) get k link (Some e) =
     (case get e of
        None \<Rightarrow> Inl Undefined_behaviour
      | Some (k', p) \<Rightarrow> if k' = k then Inr (link, Some e) else chain_link fuel get k (Next_of e) p)"

lemma chain_find_eq:
  assumes "chain nxt p es" "\<And>e. e \<in> set es \<Longrightarrow> get e = Some (key e, nxt e)" "length es \<le> fuel"
  shows "chain_find fuel get k p = Inr (find (\<lambda>e. key e = k) es)"
  using assms
proof (induction es arbitrary: p fuel)
  case (Cons e es)
  then obtain f where f: "fuel = Suc f" "length es \<le> f" by (cases fuel) auto
  have "get e = Some (key e, nxt e)" "chain nxt (nxt e) es" "p = Some e" using Cons.prems(1) Cons.prems(2) [of e] by simp_all
  then show ?case using Cons.IH [of "nxt e" f] Cons.prems(2) f by simp
qed simp

lemma chain_link_eq:
  assumes "chain nxt p (xs @ e # ys)" "\<And>x. x \<in> set (xs @ e # ys) \<Longrightarrow> get x = Some (key x, nxt x)"
    and "length (xs @ e # ys) \<le> fuel" "key e = k" "\<And>x. x \<in> set xs \<Longrightarrow> key x \<noteq> k"
  shows "chain_link fuel get k link p = Inr (if xs = [] then link else Next_of (last xs), Some e)"
  using assms
proof (induction xs arbitrary: p fuel link)
  case Nil
  then obtain f where f: "fuel = Suc f" by (cases fuel) auto
  then show ?case using Nil by simp
next
  case (Cons x xs)
  then obtain f where f: "fuel = Suc f" by (cases fuel) auto
  have "get x = Some (key x, nxt x)" "chain nxt (nxt x) (xs @ e # ys)" "p = Some x" "key x \<noteq> k"
    using Cons.prems(1,5) Cons.prems(2) [of x] by simp_all
  moreover have "chain_link f get k (Next_of x) (nxt x) = Inr (if xs = [] then Next_of x else Next_of (last xs), Some e)"
    using Cons.prems f calculation(2) by (intro Cons.IH) simp_all
  ultimately show ?case using f by simp
qed

section \<open>Reading a decimal number\<close>

text \<open>
  \<^verbatim>\<open>read_integer\<close>: the character after the number is consumed. The input is the rest of the standard
  input, whose end is \<^verbatim>\<open>EOF\<close>; reading is taken to work.
\<close>

definition c_digit :: "char \<Rightarrow> 64 word" where
  "c_digit ch = of_char ch - of_char (CHR ''0'')"

definition is_c_digit :: "char \<Rightarrow> bool" where
  "is_c_digit ch \<longleftrightarrow> \<not> (of_char ch < (of_char (CHR ''0'') :: nat) \<or> of_char ch > (of_char (CHR ''9'') :: nat))"

text \<open>The loop over the digits: \<open>None\<close> when it returns false.\<close>

fun read_digits :: "64 word \<Rightarrow> 64 word \<Rightarrow> string \<Rightarrow> (64 word \<times> string) option" where
  "read_digits limit magnitude [] = Some (magnitude, [])"
| "read_digits limit magnitude (ch # inp) =
     (if \<not> is_c_digit ch then Some (magnitude, ch # inp)
      else if magnitude > (limit - c_digit ch) div 10 then None
      else read_digits limit (magnitude * 10 + c_digit ch) inp)"

definition c_read_integer :: "string \<Rightarrow> (int \<times> string) option" where
  "c_read_integer inp =
     (let s = dropWhile isspace inp;
          negative = (s \<noteq> [] \<and> hd s = CHR ''-'');
          s = (if s \<noteq> [] \<and> (hd s = CHR ''-'' \<or> hd s = CHR ''+'') then tl s else s);
          limit = (if negative then 0x8000000000000000 else 0x7fffffffffffffff) in
      if s = [] \<or> \<not> is_c_digit (hd s) then None
      else (case read_digits limit 0 s of
          None \<Rightarrow> None
        | Some (magnitude, rest) \<Rightarrow>
            if rest \<noteq> [] \<and> \<not> isspace (hd rest) then None
            else Some (if negative \<and> magnitude = 0x8000000000000000 then - (2 ^ 63)
                       else if negative then - sint magnitude else sint magnitude, tl rest)))"

lemma is_c_digit_cases: "is_c_digit c \<longleftrightarrow> c \<in> set ''0123456789''"
proof
  assume "is_c_digit c"
  then have "48 \<le> (of_char c :: nat)" "(of_char c :: nat) \<le> 57" by (auto simp: is_c_digit_def)
  then have "(of_char c :: nat) \<in> {48, 49, 50, 51, 52, 53, 54, 55, 56, 57}"
    by (simp only: insert_iff empty_iff) presburger
  then have "\<exists>d \<in> set ''0123456789''. (of_char c :: nat) = of_char d" by (simp del: of_char_eq_iff)
  then show "c \<in> set ''0123456789''" by (metis of_char_eq_iff)
qed (auto simp: is_c_digit_def)

lemma is_c_digit_iff [simp]: "is_c_digit c = isdigit c"
  by (simp only: is_c_digit_cases isdigit_def)

lemma c_digit_value:
  assumes "isdigit c"
  shows "uint (c_digit c) = digit_val c" "digit_val c \<le> 9" "0 \<le> digit_val c"
  using assms by (simp_all add: isdigit_def) (elim disjE; simp add: c_digit_def digit_val_def)+

lemma digits_ge: "\<forall>d \<in> set ds. isdigit d \<Longrightarrow> 0 \<le> a \<Longrightarrow> a \<le> foldl (\<lambda>a d. 10 * a + digit_val d) a ds"
proof (induction ds arbitrary: a)
  case (Cons d ds)
  have "0 \<le> digit_val d" by (simp add: digit_val_def)
  then show ?case using Cons.IH [of "10 * a + digit_val d"] Cons.prems by auto
qed simp

text \<open>The loop computes the number, or stops when it exceeds the limit; it never wraps around.\<close>

lemma read_digits_eq:
  assumes "9 \<le> uint limit" "uint limit \<le> 2 ^ 63" "uint m \<le> uint limit"
  shows "read_digits limit m s =
    (let v = foldl (\<lambda>a d. 10 * a + digit_val d) (uint m) (takeWhile isdigit s) in
     if v \<le> uint limit then Some (word_of_int v, dropWhile isdigit s) else None)"
  using assms(3)
proof (induction s arbitrary: m)
  case (Cons c s)
  show ?case
  proof (cases "isdigit c")
    case True
    note d = c_digit_value [OF True]
    have "uint (limit - c_digit c) = uint limit - uint (c_digit c)"
      using d assms(1) by (intro uint_minus_simple_alt [THEN iffD1]) (simp add: word_le_def)
    then have "m > (limit - c_digit c) div 10 \<longleftrightarrow> uint m > (uint limit - digit_val c) div 10"
      by (simp add: word_less_def uint_div d)
    also have "\<dots> \<longleftrightarrow> 10 * uint m + digit_val c > uint limit" by presburger
    finally have test: "m > (limit - c_digit c) div 10 \<longleftrightarrow> 10 * uint m + digit_val c > uint limit" .
    show ?thesis
    proof (cases "10 * uint m + digit_val c > uint limit")
      case True
      have "10 * uint m + digit_val c \<le> foldl (\<lambda>a d. 10 * a + digit_val d) (10 * uint m + digit_val c) (takeWhile isdigit s)"
        by (rule digits_ge) (use d in \<open>auto dest: set_takeWhileD\<close>)
      then show ?thesis using True \<open>isdigit c\<close> test by (simp add: Let_def)
    next
      case False
      then have "uint (m * 10 + c_digit c) = 10 * uint m + digit_val c"
        using assms(2) d by (simp add: uint_word_ariths)
      then show ?thesis using False \<open>isdigit c\<close> test Cons.IH [of "m * 10 + c_digit c"] by (simp add: Let_def)
    qed
  next
    case False
    then show ?thesis using Cons.prems by simp
  qed
qed simp

text \<open>The C reader agrees with the one of the C++ program, except that it consumes the character after the number.\<close>

lemma c_read_integer_eq:
  "c_read_integer inp = map_option (\<lambda>(v, rest). (v, tl rest)) (read_integer inp)"
proof -
  define s where "s = dropWhile isspace inp"
  define neg where "neg \<longleftrightarrow> s \<noteq> [] \<and> hd s = CHR ''-''"
  define t where "t = (if s \<noteq> [] \<and> (hd s = CHR ''-'' \<or> hd s = CHR ''+'') then tl s else s)"
  define lim where "lim = (if neg then 0x8000000000000000 else 0x7fffffffffffffff :: 64 word)"
  define v where "v = foldl (\<lambda>a d. 10 * a + digit_val d) 0 (takeWhile isdigit t)"
  have rd: "read_digits lim 0 t = (if v \<le> uint lim then Some (word_of_int v, dropWhile isdigit t) else None)"
    using read_digits_eq [of lim 0 t] by (simp add: Let_def v_def lim_def)
  have v0: "0 \<le> v" unfolding v_def by (rule digits_ge) (auto dest: set_takeWhileD)
  have ds: "takeWhile isdigit t = [] \<longleftrightarrow> t = [] \<or> \<not> isdigit (hd t)" by (cases t) auto
  have sint: "sint (word_of_int v :: 64 word) = v" if "v < 2 ^ 63"
    using that v0 by (simp add: sint_sbintrunc' signed_take_bit_int_eq_self)
  have min: "(word_of_int v :: 64 word) = 0x8000000000000000 \<longleftrightarrow> v = 2 ^ 63" if "v \<le> 2 ^ 63"
    using that v0 by (simp add: word_uint_eq_iff uint_word_of_int)
  have scan: "scan_int inp = (if takeWhile isdigit t = [] then None else Some (if neg then - v else v, dropWhile isdigit t))"
    by (simp add: scan_int_def Let_def v_def neg_def t_def s_def)
  have c: "c_read_integer inp = (if t = [] \<or> \<not> isdigit (hd t) then None else
      case read_digits lim 0 t of None \<Rightarrow> None | Some (magnitude, rest) \<Rightarrow>
        if rest \<noteq> [] \<and> \<not> isspace (hd rest) then None
        else Some (if neg \<and> magnitude = 0x8000000000000000 then - (2 ^ 63)
                   else if neg then - sint magnitude else sint magnitude, tl rest))"
    unfolding c_read_integer_def Let_def is_c_digit_iff s_def [symmetric] neg_def [symmetric] t_def [symmetric] lim_def [symmetric] by (rule refl)
  show ?thesis
  proof (cases neg)
    case True
    then show ?thesis unfolding c rd read_integer_def read_ll_def scan ds using v0 sint min by (auto simp: llmax_def lim_def)
  next
    case False
    then show ?thesis unfolding c rd read_integer_def read_ll_def scan ds using v0 sint by (auto simp: llmax_def lim_def)
  qed
qed

lemma c_read_integer_show:
  assumes "- llmax - 1 \<le> v" "v \<le> llmax"
  shows "c_read_integer (show_ints (v # vs)) = Some (v, show_ints vs)"
  using read_integer_show [OF assms] by (simp add: c_read_integer_eq)

section \<open>Capacity and number of requests\<close>

text \<open>A stream of \<open>n\<close> requests cannot fill more than \<open>n\<close> slots.\<close>

lemma lru_hits_enough:
  "length R + length ks \<le> n \<Longrightarrow> length R + length ks \<le> m \<Longrightarrow> lru_hits n R ks = lru_hits m R ks"
proof (induction ks arbitrary: R)
  case (Cons k ks)
  have "length (touch k R) \<le> Suc (length R)" by (simp add: touch_def length_remove1)
  then show ?case using Cons.IH [of "touch k R"] Cons.prems by simp
qed simp

lemma lru_hits_min: "lru_hits (min m (length ks)) [] ks = lru_hits m [] ks"
  by (cases "m \<le> length ks") (use lru_hits_enough [of "[]" ks "length ks" m] in \<open>simp_all add: min_def\<close>)

section \<open>Properties\<close>

text \<open>
  \<^verbatim>\<open>read_integer\<close> of the C programs reads exactly the numbers of \<^verbatim>\<open>int64_t\<close>: every number in the range is
  read back from its decimal form, every number outside is refused, and the unsigned accumulator never wraps; on every
  input the answer is that of the C++ reader, and one more character is consumed.
\<close>

theorem c_read_integer_exact:
  "c_read_integer (string_of_int v @ CHR '' '' # rest) =
     (if - (2 ^ 63) \<le> v \<and> v < 2 ^ 63 then Some (v, rest) else None) \<and>
   c_read_integer inp = map_option (\<lambda>(v, rest). (v, tl rest)) (read_integer inp)"
  using scan_int_string_of_int [of "CHR '' ''" v rest]
  by (auto simp: c_read_integer_eq read_integer_def read_ll_def llmax_def)

end
