(* ===== verification/Lru_C.thy ===== *)
theory Lru_C
  imports C_Common
begin

text \<open>
  \<^verbatim>\<open>01-basics/lru-in-c\<close>: the list, the hash map, the cache that uses both, and the driver program. Every
  structure the program allocates is a block of a memory with one part per type; pointers are addresses, a null
  pointer is \<open>None\<close>. Using a pointer to a block that is not there, or freeing it, is undefined
  behaviour. Whether an allocation succeeds is up to the environment: \<open>avail s n\<close> says so for the \<open>n\<close>-th one.
  Addresses are not reused.
\<close>

section \<open>Memory\<close>

record ListNode =
  nprev :: nat
  nnext :: nat
  nvalue :: "nat option"

record HashMapEntry =
  hkey :: int
  hvalue :: nat
  hnext :: "nat option"

record HashMap =
  buckets :: nat
  bucket_count :: nat

record CacheEntry =
  ckey :: int
  cvalue :: int

record LruCache =
  recency :: nat
  index :: nat
  capacity :: nat
  csize :: nat

text \<open>A list is the address of its sentinel, the only member of \<^verbatim>\<open>struct List\<close>.\<close>

record cmem =
  nodes :: "nat \<Rightarrow> ListNode option"
  hents :: "nat \<Rightarrow> HashMapEntry option"
  arrays :: "nat \<Rightarrow> nat option list option"
  hmaps :: "nat \<Rightarrow> HashMap option"
  cents :: "nat \<Rightarrow> CacheEntry option"
  caches :: "nat \<Rightarrow> LruCache option"
  tick :: nat
  avail :: "nat \<Rightarrow> bool"

text \<open>\<^verbatim>\<open>malloc\<close> and \<^verbatim>\<open>calloc\<close>: an address for the new block, or none.\<close>

definition malloc :: "cmem \<Rightarrow> nat option \<times> cmem" where
  "malloc s = (if avail s (tick s) then Some (tick s) else None, s\<lparr>tick := Suc (tick s)\<rparr>)"

text \<open>The block at an address, and the part of the memory without it.\<close>

definition deref :: "('a \<Rightarrow> 'b option) \<Rightarrow> 'a \<Rightarrow> 'b res" where
  "deref h a = (case h a of None \<Rightarrow> Inl Undefined_behaviour | Some b \<Rightarrow> Inr b)"

definition c_free :: "('a \<Rightarrow> 'b option) \<Rightarrow> 'a \<Rightarrow> ('a \<Rightarrow> 'b option) res" where
  "c_free h a = (case h a of None \<Rightarrow> Inl Undefined_behaviour | Some b \<Rightarrow> Inr (h(a := None)))"

lemma deref_Some [simp]: "h a = Some b \<Longrightarrow> deref h a = Inr b"
  by (simp add: deref_def)

lemma c_free_Some [simp]: "h a = Some b \<Longrightarrow> c_free h a = Inr (h(a := None))"
  by (simp add: c_free_def)

section \<open>The list\<close>

type_synonym nheap = "nat \<Rightarrow> ListNode option"

definition set_prev :: "nat \<Rightarrow> nat \<Rightarrow> nheap \<Rightarrow> nheap res" where
  "set_prev a v N = bindE (deref N a) (\<lambda>r. Inr (N(a \<mapsto> r\<lparr>nprev := v\<rparr>)))"

definition set_next :: "nat \<Rightarrow> nat \<Rightarrow> nheap \<Rightarrow> nheap res" where
  "set_next a v N = bindE (deref N a) (\<lambda>r. Inr (N(a \<mapsto> r\<lparr>nnext := v\<rparr>)))"

definition list_create :: "cmem \<Rightarrow> nat option \<times> cmem" where
  "list_create s =
     (case malloc s of
        (None, s) \<Rightarrow> (None, s)
      | (Some l, s) \<Rightarrow> (Some l, s\<lparr>nodes := (nodes s)(l \<mapsto> \<lparr>nprev = l, nnext = l, nvalue = None\<rparr>)\<rparr>))"

definition list_empty :: "nat \<Rightarrow> cmem \<Rightarrow> bool res" where
  "list_empty l s = bindE (deref (nodes s) l) (\<lambda>h. Inr (nnext h = l))"

definition list_front :: "nat \<Rightarrow> cmem \<Rightarrow> nat option res" where
  "list_front l s =
     bindE (list_empty l s) (\<lambda>e. if e then Inr None else bindE (deref (nodes s) l) (\<lambda>h. Inr (Some (nnext h))))"

definition list_back :: "nat \<Rightarrow> cmem \<Rightarrow> nat option res" where
  "list_back l s =
     bindE (list_empty l s) (\<lambda>e. if e then Inr None else bindE (deref (nodes s) l) (\<lambda>h. Inr (Some (nprev h))))"

definition list_value :: "nat option \<Rightarrow> cmem \<Rightarrow> nat option res" where
  "list_value n s = (case n of None \<Rightarrow> Inl Undefined_behaviour | Some n \<Rightarrow> bindE (deref (nodes s) n) (\<lambda>r. Inr (nvalue r)))"

definition prepend :: "nat \<Rightarrow> nat \<Rightarrow> nheap \<Rightarrow> nheap res" where
  "prepend l n N =
     bindE (set_prev n l N) (\<lambda>N.
     bindE (bindE (deref N l) (\<lambda>h. set_next n (nnext h) N)) (\<lambda>N.
     bindE (bindE (deref N n) (\<lambda>r. set_prev (nnext r) n N)) (\<lambda>N.
     set_next l n N)))"

definition detach :: "nat \<Rightarrow> nheap \<Rightarrow> nheap res" where
  "detach n N =
     bindE (bindE (deref N n) (\<lambda>r. set_next (nprev r) (nnext r) N)) (\<lambda>N.
     bindE (deref N n) (\<lambda>r. set_prev (nnext r) (nprev r) N))"

definition list_push_front :: "nat \<Rightarrow> nat option \<Rightarrow> cmem \<Rightarrow> (nat option \<times> cmem) res" where
  "list_push_front l v s =
     (case malloc s of
        (None, s) \<Rightarrow> Inr (None, s)
      | (Some n, s) \<Rightarrow>
          bindE (prepend l n ((nodes s)(n \<mapsto> \<lparr>nprev = 0, nnext = 0, nvalue = v\<rparr>))) (\<lambda>N. Inr (Some n, s\<lparr>nodes := N\<rparr>)))"

definition list_move_front :: "nat \<Rightarrow> nat \<Rightarrow> cmem \<Rightarrow> cmem res" where
  "list_move_front l n s = bindE (detach n (nodes s)) (\<lambda>N. bindE (prepend l n N) (\<lambda>N. Inr (s\<lparr>nodes := N\<rparr>)))"

definition list_remove :: "nat \<Rightarrow> nat option \<Rightarrow> cmem \<Rightarrow> cmem res" where
  "list_remove l n s =
     (case n of
        None \<Rightarrow> Inl Undefined_behaviour
      | Some n \<Rightarrow> bindE (detach n (nodes s)) (\<lambda>N. bindE (c_free N n) (\<lambda>N. Inr (s\<lparr>nodes := N\<rparr>))))"

text \<open>The loop of \<^verbatim>\<open>list_destroy\<close>, with the number of allocations so far as fuel.\<close>

fun list_clear :: "nat \<Rightarrow> nat \<Rightarrow> cmem \<Rightarrow> cmem res" where
  "list_clear 0 l s = Inl Undefined_behaviour"
| "list_clear (Suc fuel) l s =
     bindE (list_empty l s) (\<lambda>e.
     if e then Inr s
     else bindE (list_front l s) (\<lambda>n. bindE (list_remove l n s) (list_clear fuel l)))"

definition list_destroy :: "nat option \<Rightarrow> cmem \<Rightarrow> cmem res" where
  "list_destroy l s =
     (case l of
        None \<Rightarrow> Inr s
      | Some l \<Rightarrow>
          bindE (list_clear (Suc (tick s)) l s) (\<lambda>s.
          bindE (c_free (nodes s) l) (\<lambda>N. Inr (s\<lparr>nodes := N\<rparr>))))"

section \<open>The hash map\<close>

datatype HashMapResult = HASH_MAP_INSERTED | HASH_MAP_DUPLICATE | HASH_MAP_NO_MEMORY

definition hash_map_create :: "nat \<Rightarrow> cmem \<Rightarrow> (nat option \<times> cmem) res" where
  "hash_map_create n s =
     (if n = 0 \<or> n > (2 ^ 64 - 1) div 8 then Inr (None, s)
      else (case malloc s of
          (None, s) \<Rightarrow> Inr (None, s)
        | (Some m, s) \<Rightarrow>
            let s = s\<lparr>hmaps := (hmaps s)(m \<mapsto> \<lparr>buckets = 0, bucket_count = 0\<rparr>)\<rparr> in
            (case malloc s of
               (None, s) \<Rightarrow> bindE (c_free (hmaps s) m) (\<lambda>H. Inr (None, s\<lparr>hmaps := H\<rparr>))
             | (Some b, s) \<Rightarrow>
                 Inr (Some m, s\<lparr>arrays := (arrays s)(b \<mapsto> replicate n None),
                   hmaps := (hmaps s)(m \<mapsto> \<lparr>buckets = b, bucket_count = n\<rparr>)\<rparr>))))"

text \<open>Freeing the entries of a chain.\<close>

fun free_chain :: "nat \<Rightarrow> nat option \<Rightarrow> cmem \<Rightarrow> cmem res" where
  "free_chain fuel None s = Inr s"
| "free_chain 0 (Some e) s = Inl Undefined_behaviour"
| "free_chain (Suc fuel) (Some e) s =
     bindE (deref (hents s) e) (\<lambda>r.
     bindE (c_free (hents s) e) (\<lambda>H. free_chain fuel (hnext r) (s\<lparr>hents := H\<rparr>)))"

fun free_chains :: "nat \<Rightarrow> nat option list \<Rightarrow> nat \<Rightarrow> cmem \<Rightarrow> cmem res" where
  "free_chains fuel bs 0 s = Inr s"
| "free_chains fuel bs (Suc n) s =
     bindE (free_chains fuel bs n s) (\<lambda>s. bindE (vec_get bs n) (\<lambda>p. free_chain fuel p s))"

definition hash_map_destroy :: "nat option \<Rightarrow> cmem \<Rightarrow> cmem res" where
  "hash_map_destroy m s =
     (case m of
        None \<Rightarrow> Inr s
      | Some m \<Rightarrow>
          bindE (deref (hmaps s) m) (\<lambda>M.
          bindE (deref (arrays s) (buckets M)) (\<lambda>bs.
          bindE (free_chains (tick s) bs (bucket_count M) s) (\<lambda>s.
          bindE (c_free (arrays s) (buckets M)) (\<lambda>A.
          bindE (c_free (hmaps s) m) (\<lambda>H. Inr (s\<lparr>arrays := A, hmaps := H\<rparr>)))))))"

definition entry_link :: "cmem \<Rightarrow> nat \<Rightarrow> (int \<times> nat option) option" where
  "entry_link s e = map_option (\<lambda>r. (hkey r, hnext r)) (hents s e)"

text \<open>\<^verbatim>\<open>hash_map_find\<close>: the value, if the key is found.\<close>

definition hash_map_find :: "nat \<Rightarrow> int \<Rightarrow> cmem \<Rightarrow> nat option res" where
  "hash_map_find m key s =
     bindE (deref (hmaps s) m) (\<lambda>M.
     bindE (deref (arrays s) (buckets M)) (\<lambda>bs.
     bindE (vec_get bs (bucket_for (bucket_count M) key)) (\<lambda>p.
     bindE (chain_find (tick s) (entry_link s) key p) (\<lambda>e.
     case e of None \<Rightarrow> Inr None | Some e \<Rightarrow> bindE (deref (hents s) e) (\<lambda>r. Inr (Some (hvalue r)))))))"

definition hash_map_insert :: "nat \<Rightarrow> int \<Rightarrow> nat \<Rightarrow> cmem \<Rightarrow> (HashMapResult \<times> cmem) res" where
  "hash_map_insert m key v s =
     bindE (hash_map_find m key s) (\<lambda>existing.
     if existing \<noteq> None then Inr (HASH_MAP_DUPLICATE, s)
     else (case malloc s of
         (None, s) \<Rightarrow> Inr (HASH_MAP_NO_MEMORY, s)
       | (Some e, s) \<Rightarrow>
           bindE (deref (hmaps s) m) (\<lambda>M.
           bindE (deref (arrays s) (buckets M)) (\<lambda>bs.
           let bucket = bucket_for (bucket_count M) key in
           bindE (vec_get bs bucket) (\<lambda>p.
           bindE (vec_set bs bucket (Some e)) (\<lambda>bs'.
           Inr (HASH_MAP_INSERTED, s\<lparr>hents := (hents s)(e \<mapsto> \<lparr>hkey = key, hvalue = v, hnext = p\<rparr>),
             arrays := (arrays s)(buckets M \<mapsto> bs')\<rparr>)))))))"

text \<open>Storing through a pointer to a pointer.\<close>

definition store_link :: "nat \<Rightarrow> nat slot \<Rightarrow> nat option \<Rightarrow> cmem \<Rightarrow> cmem res" where
  "store_link b link v s =
     (case link of
        Bucket i \<Rightarrow> bindE (deref (arrays s) b) (\<lambda>bs. bindE (vec_set bs i v) (\<lambda>bs. Inr (s\<lparr>arrays := (arrays s)(b \<mapsto> bs)\<rparr>)))
      | Next_of e \<Rightarrow> bindE (deref (hents s) e) (\<lambda>r. Inr (s\<lparr>hents := (hents s)(e \<mapsto> r\<lparr>hnext := v\<rparr>)\<rparr>)))"

definition hash_map_remove :: "nat \<Rightarrow> int \<Rightarrow> cmem \<Rightarrow> (bool \<times> cmem) res" where
  "hash_map_remove m key s =
     bindE (deref (hmaps s) m) (\<lambda>M.
     bindE (deref (arrays s) (buckets M)) (\<lambda>bs.
     let bucket = bucket_for (bucket_count M) key in
     bindE (vec_get bs bucket) (\<lambda>p.
     bindE (chain_link (tick s) (entry_link s) key (Bucket bucket) p) (\<lambda>(link, e).
     case e of
       None \<Rightarrow> Inr (False, s)
     | Some e \<Rightarrow>
         bindE (deref (hents s) e) (\<lambda>r.
         bindE (store_link (buckets M) link (hnext r) s) (\<lambda>s.
         bindE (c_free (hents s) e) (\<lambda>H. Inr (True, s\<lparr>hents := H\<rparr>))))))))"

section \<open>The cache\<close>

datatype LruResult = LRU_HIT | LRU_MISS | LRU_NO_MEMORY | LRU_INVALID_ARGUMENT | LRU_INDEX_ERROR

definition set_csize :: "nat \<Rightarrow> (nat \<Rightarrow> nat) \<Rightarrow> cmem \<Rightarrow> cmem res" where
  "set_csize c f s = bindE (deref (caches s) c) (\<lambda>r. Inr (s\<lparr>caches := (caches s)(c \<mapsto> r\<lparr>csize := f (csize r)\<rparr>)\<rparr>))"

definition deref_null :: "('a \<Rightarrow> 'b option) \<Rightarrow> 'a option \<Rightarrow> 'b res" where
  "deref_null h a = (case a of None \<Rightarrow> Inl Undefined_behaviour | Some a \<Rightarrow> deref h a)"

definition free_null :: "('a \<Rightarrow> 'b option) \<Rightarrow> 'a option \<Rightarrow> ('a \<Rightarrow> 'b option) res" where
  "free_null h a = (case a of None \<Rightarrow> Inr h | Some a \<Rightarrow> c_free h a)"

definition evict_oldest :: "nat \<Rightarrow> cmem \<Rightarrow> cmem res" where
  "evict_oldest c s =
     bindE (deref (caches s) c) (\<lambda>C.
     bindE (list_back (recency C) s) (\<lambda>node.
     bindE (list_value node s) (\<lambda>entry.
     bindE (deref_null (cents s) entry) (\<lambda>E.
     bindE (hash_map_remove (index C) (ckey E) s) (\<lambda>(_, s).
     bindE (list_remove (recency C) node s) (\<lambda>s.
     bindE (free_null (cents s) entry) (\<lambda>H.
     set_csize c (\<lambda>n. n - 1) (s\<lparr>cents := H\<rparr>))))))))"

text \<open>
  The loader \<open>get\<close> maps a key to its page. The result is the code, the value stored in \<^verbatim>\<open>*value\<close> (\<open>None\<close> when it is
  not assigned) and the memory.
\<close>

definition insert_page :: "nat \<Rightarrow> int \<Rightarrow> (int \<Rightarrow> int) \<Rightarrow> cmem \<Rightarrow> (LruResult \<times> int option \<times> cmem) res" where
  "insert_page c key get s =
     (case malloc s of
        (None, s) \<Rightarrow> Inr (LRU_NO_MEMORY, None, s)
      | (Some entry, s) \<Rightarrow>
          let s = s\<lparr>cents := (cents s)(entry \<mapsto> \<lparr>ckey = key, cvalue = 0\<rparr>)\<rparr> in
          bindE (deref (caches s) c) (\<lambda>C.
          bindE (list_push_front (recency C) (Some entry) s) (\<lambda>(node, s).
          case node of
            None \<Rightarrow> bindE (c_free (cents s) entry) (\<lambda>H. Inr (LRU_NO_MEMORY, None, s\<lparr>cents := H\<rparr>))
          | Some n \<Rightarrow>
              bindE (hash_map_insert (index C) key n s) (\<lambda>(result, s).
              if result \<noteq> HASH_MAP_INSERTED then
                bindE (list_remove (recency C) node s) (\<lambda>s.
                bindE (c_free (cents s) entry) (\<lambda>H.
                Inr (if result = HASH_MAP_NO_MEMORY then LRU_NO_MEMORY else LRU_INDEX_ERROR, None, s\<lparr>cents := H\<rparr>)))
              else
                bindE (deref (cents s) entry) (\<lambda>E.
                let s = s\<lparr>cents := (cents s)(entry \<mapsto> E\<lparr>cvalue := get key\<rparr>)\<rparr> in
                bindE (if csize C = capacity C then evict_oldest c s else Inr s) (\<lambda>s.
                bindE (set_csize c Suc s) (\<lambda>s.
                bindE (deref (cents s) entry) (\<lambda>E.
                Inr (LRU_MISS, Some (cvalue E), s)))))))))"

definition lru_create :: "nat \<Rightarrow> cmem \<Rightarrow> (nat option \<times> cmem) res" where
  "lru_create cap s =
     (case malloc s of
        (None, s) \<Rightarrow> Inr (None, s)
      | (Some c, s) \<Rightarrow>
          let s = s\<lparr>caches := (caches s)(c \<mapsto> \<lparr>recency = 0, index = 0, capacity = 0, csize = 0\<rparr>)\<rparr>;
              (l, s) = list_create s in
          bindE (hash_map_create (if cap \<noteq> 0 then cap else 1) s) (\<lambda>(m, s).
          case (l, m) of
            (Some l, Some m) \<Rightarrow>
              Inr (Some c, s\<lparr>caches := (caches s)(c \<mapsto> \<lparr>recency = l, index = m, capacity = cap, csize = 0\<rparr>)\<rparr>)
          | _ \<Rightarrow>
              bindE (list_destroy l s) (\<lambda>s.
              bindE (hash_map_destroy m s) (\<lambda>s.
              bindE (c_free (caches s) c) (\<lambda>H. Inr (None, s\<lparr>caches := H\<rparr>))))))"

fun lru_clear :: "nat \<Rightarrow> nat \<Rightarrow> cmem \<Rightarrow> cmem res" where
  "lru_clear 0 c s = Inl Undefined_behaviour"
| "lru_clear (Suc fuel) c s =
     bindE (deref (caches s) c) (\<lambda>C.
     bindE (list_empty (recency C) s) (\<lambda>e.
     if e then Inr s else bindE (evict_oldest c s) (lru_clear fuel c)))"

definition lru_destroy :: "nat option \<Rightarrow> cmem \<Rightarrow> cmem res" where
  "lru_destroy c s =
     (case c of
        None \<Rightarrow> Inr s
      | Some c \<Rightarrow>
          bindE (lru_clear (Suc (tick s)) c s) (\<lambda>s.
          bindE (deref (caches s) c) (\<lambda>C.
          bindE (list_destroy (Some (recency C)) s) (\<lambda>s.
          bindE (hash_map_destroy (Some (index C)) s) (\<lambda>s.
          bindE (c_free (caches s) c) (\<lambda>H. Inr (s\<lparr>caches := H\<rparr>)))))))"

text \<open>\<^verbatim>\<open>lookup_update\<close>; \<open>has_out\<close> says whether the pointer to the result is given.\<close>

definition c_lookup_update :: "nat option \<Rightarrow> int \<Rightarrow> (int \<Rightarrow> int) option \<Rightarrow> bool \<Rightarrow> cmem \<Rightarrow> (LruResult \<times> int option \<times> cmem) res" where
  "c_lookup_update cp key getter has_out s =
     (case (cp, getter, has_out) of
        (Some c, Some get, True) \<Rightarrow>
          bindE (deref (caches s) c) (\<lambda>C.
          if capacity C = 0 then Inr (LRU_MISS, Some (get key), s)
          else bindE (hash_map_find (index C) key s) (\<lambda>found.
            case found of
              Some node \<Rightarrow>
                bindE (list_move_front (recency C) node s) (\<lambda>s.
                bindE (list_value (Some node) s) (\<lambda>entry.
                bindE (deref_null (cents s) entry) (\<lambda>E.
                Inr (LRU_HIT, Some (cvalue E), s))))
            | None \<Rightarrow> insert_page c key get s))
      | _ \<Rightarrow> Inr (LRU_INVALID_ARGUMENT, None, s))"

section \<open>The driver\<close>

definition page_loader :: "int \<Rightarrow> int" where
  "page_loader key = key"

fun result_code :: "LruResult \<Rightarrow> nat" where
  "result_code LRU_HIT = 0"
| "result_code LRU_MISS = 1"
| "result_code LRU_NO_MEMORY = 2"
| "result_code LRU_INVALID_ARGUMENT = 3"
| "result_code LRU_INDEX_ERROR = 4"

definition c_fail :: "nat option \<Rightarrow> string \<Rightarrow> cmem \<Rightarrow> (outcome \<times> cmem) res" where
  "c_fail c msg s = bindE (lru_destroy c s) (\<lambda>s. Inr (\<lparr>code = 1, out = [], err = msg @ endl\<rparr>, s))"

fun c_main_loop :: "nat \<Rightarrow> nat \<Rightarrow> nat \<Rightarrow> nat \<Rightarrow> string \<Rightarrow> cmem \<Rightarrow> (outcome \<times> cmem) res" where
  "c_main_loop 0 i c hits inp s =
     bindE (lru_destroy (Some c) s) (\<lambda>s. Inr (\<lparr>code = 0, out = string_of_nat hits @ endl, err = []\<rparr>, s))"
| "c_main_loop (Suc n) i c hits inp s =
     (case c_read_integer inp of
        None \<Rightarrow> c_fail (Some c) (''Expected integer at position '' @ string_of_nat (i + 1) @ ''.'') s
      | Some (key, inp) \<Rightarrow>
          bindE (c_lookup_update (Some c) key (Some page_loader) True s) (\<lambda>(result, page, s).
          if result \<noteq> LRU_HIT \<and> result \<noteq> LRU_MISS then
            c_fail (Some c) (''Cannot fetch page (error '' @ string_of_nat (result_code result) @ '').'') s
          else c_main_loop n (i + 1) c (hits + (if result = LRU_HIT then 1 else 0)) inp s))"

definition c_main :: "string \<Rightarrow> cmem \<Rightarrow> (outcome \<times> cmem) res" where
  "c_main inp s =
     (let bad = c_fail None ''Expected nonnegative cache size and element count.'' s in
      case c_read_integer inp of
        None \<Rightarrow> bad
      | Some (cap, inp) \<Rightarrow>
          (case c_read_integer inp of
             None \<Rightarrow> bad
           | Some (cnt, inp) \<Rightarrow>
               if cap < 0 \<or> cnt < 0 then bad
               else
                 let limit = (if cap < cnt then cap else cnt) in
                 bindE (if limit \<le> 2 ^ 64 - 1 then lru_create (nat limit) s else Inr (None, s)) (\<lambda>(c, s).
                 case c of
                   None \<Rightarrow> c_fail None ''Cannot allocate cache.'' s
                 | Some c \<Rightarrow> c_main_loop (nat cnt) 0 c 0 inp s)))"

end
