(* ===== verification/Lru_C_Props.thy ===== *)
theory Lru_C_Props
  imports Lru_C
begin

text \<open>
  The C cache is correct: what its memory looks like when it is sound, that every operation keeps it so or reports
  why not, that it implements the recency stack, and that no block is leaked.
\<close>

section \<open>Nodes\<close>

definition nxt_of :: "nheap \<Rightarrow> nat \<Rightarrow> nat" where
  "nxt_of N a = nnext (the (N a))"

definition prv_of :: "nheap \<Rightarrow> nat \<Rightarrow> nat" where
  "prv_of N a = nprev (the (N a))"

definition val_of :: "nheap \<Rightarrow> nat \<Rightarrow> nat option" where
  "val_of N a = nvalue (the (N a))"

definition upd_next :: "nat \<Rightarrow> nat \<Rightarrow> nheap \<Rightarrow> nheap" where
  "upd_next a v N = N(a \<mapsto> (the (N a))\<lparr>nnext := v\<rparr>)"

definition upd_prev :: "nat \<Rightarrow> nat \<Rightarrow> nheap \<Rightarrow> nheap" where
  "upd_prev a v N = N(a \<mapsto> (the (N a))\<lparr>nprev := v\<rparr>)"

lemma upd_simps [simp]:
  "nxt_of (upd_next a v N) = (nxt_of N)(a := v)" "nxt_of (upd_prev a v N) = nxt_of N"
  "prv_of (upd_prev a v N) = (prv_of N)(a := v)" "prv_of (upd_next a v N) = prv_of N"
  "val_of (upd_prev a v N) = val_of N" "val_of (upd_next a v N) = val_of N"
  "dom (upd_next a v N) = insert a (dom N)" "dom (upd_prev a v N) = insert a (dom N)"
  by (auto simp: fun_eq_iff nxt_of_def prv_of_def val_of_def upd_next_def upd_prev_def)

lemma new_node_simps [simp]:
  "nxt_of (N(n \<mapsto> r)) = (nxt_of N)(n := nnext r)" "prv_of (N(n \<mapsto> r)) = (prv_of N)(n := nprev r)"
  "val_of (N(n \<mapsto> r)) = (val_of N)(n := nvalue r)"
  by (auto simp: fun_eq_iff nxt_of_def prv_of_def val_of_def)

lemma deref_dom: "a \<in> dom h \<Longrightarrow> deref h a = Inr (the (h a))"
  by (auto simp: deref_def)

lemma c_free_dom: "a \<in> dom h \<Longrightarrow> c_free h a = Inr (h(a := None))"
  by (auto simp: c_free_def)

lemma set_next_dom: "a \<in> dom N \<Longrightarrow> set_next a v N = Inr (upd_next a v N)"
  by (simp add: set_next_def deref_dom upd_next_def)

lemma set_prev_dom: "a \<in> dom N \<Longrightarrow> set_prev a v N = Inr (upd_prev a v N)"
  by (simp add: set_prev_def deref_dom upd_prev_def)

interpretation cl: links nxt_of prv_of upd_next upd_prev "\<lambda>N a. a \<in> dom N" "\<lambda>N. (val_of N, dom N)"
  by unfold_locales auto

definition list_rep :: "nat \<Rightarrow> nat list \<Rightarrow> nheap \<Rightarrow> bool" where
  "list_rep l ns N \<longleftrightarrow> set (l # ns) \<subseteq> dom N \<and> ring (nxt_of N) (prv_of N) l ns"

lemma list_rep_cong:
  "(\<And>a. a \<in> set (l # ns) \<Longrightarrow> N a = N' a) \<Longrightarrow> list_rep l ns N = list_rep l ns N'"
  using ring_cong [of l ns "nxt_of N" "nxt_of N'" "prv_of N" "prv_of N'"]
  by (auto simp: list_rep_def nxt_of_def prv_of_def subset_iff domIff)

lemma detach_ok:
  assumes "list_rep l (xs @ n # ys) N"
  obtains N' where "detach n N = Inr N'" "list_rep l (xs @ ys) N'" "dom N' = dom N" "val_of N' = val_of N"
proof -
  have r: "ring (nxt_of N) (prv_of N) l (xs @ n # ys)" and d: "\<forall>a \<in> set (l # xs @ n # ys). a \<in> dom N"
    using assms by (auto simp: list_rep_def)
  note ring = cl.detach_ring [OF r d]
  let ?N1 = "upd_next (prv_of N n) (nxt_of N n) N"
  let ?N2 = "upd_prev (nxt_of N n) (prv_of N n) ?N1"
  have n: "n \<in> dom N" using d by simp
  have 1: "bindE (deref N n) (\<lambda>r. set_next (nprev r) (nnext r) N) = Inr ?N1"
    using n ring(4,5) by (simp add: deref_dom set_next_dom nxt_of_def prv_of_def)
  have "nnext (the (?N1 n)) = nxt_of N n" "nprev (the (?N1 n)) = prv_of N n"
    using ring(6) by (simp_all add: upd_next_def nxt_of_def prv_of_def)
  then have "bindE (deref ?N1 n) (\<lambda>r. set_prev (nnext r) (nprev r) ?N1) = Inr ?N2"
    using n ring(4,5) by (simp add: deref_dom set_prev_dom)
  then have "detach n N = Inr ?N2" unfolding detach_def 1 by simp
  moreover have dv: "val_of ?N2 = val_of N" "dom ?N2 = dom N" using ring(3) by auto
  moreover have "list_rep l (xs @ ys) ?N2" unfolding list_rep_def dv(2) using ring(1) d by auto
  ultimately show ?thesis using that [of ?N2] by simp
qed

lemma prepend_ok:
  assumes "list_rep l ns N" "n \<in> dom N" "n \<notin> set (l # ns)"
  obtains N' where "prepend l n N = Inr N'" "list_rep l (n # ns) N'" "dom N' = dom N" "val_of N' = val_of N"
proof -
  have r: "ring (nxt_of N) (prv_of N) l ns" and d: "\<forall>a \<in> set (l # ns). a \<in> dom N" using assms(1) by (auto simp: list_rep_def)
  note ring = cl.prepend_ring [OF r d assms(3,2)]
  let ?N1 = "upd_prev n l N"
  let ?N2 = "upd_next n (nxt_of N l) ?N1"
  let ?N3 = "upd_prev (nxt_of N l) n ?N2"
  let ?N4 = "upd_next l n ?N3"
  have "nnext (the (?N1 l)) = nxt_of N l" using upd_simps(2) by (metis nxt_of_def)
  then have 2: "bindE (deref ?N1 l) (\<lambda>h. set_next n (nnext h) ?N1) = Inr ?N2"
    using ring(5) assms(2) by (simp add: deref_dom set_next_dom)
  have "nnext (the (?N2 n)) = nxt_of N l" by (simp add: upd_next_def)
  then have 3: "bindE (deref ?N2 n) (\<lambda>r. set_prev (nnext r) n ?N2) = Inr ?N3"
    using ring(4) assms(2) by (simp add: deref_dom set_prev_dom)
  have "prepend l n N = Inr ?N4"
    unfolding prepend_def set_prev_dom [OF assms(2)] bindE_Inr 2 3 using ring(5) by (simp add: set_next_dom)
  moreover have dv: "val_of ?N4 = val_of N" "dom ?N4 = dom N" using ring(3) by auto
  moreover have "list_rep l (n # ns) ?N4" unfolding list_rep_def dv(2) using ring(1) d assms(2) by auto
  ultimately show ?thesis using that [of ?N4] by simp
qed

lemma list_empty_ok: "list_rep l ns (nodes s) \<Longrightarrow> list_empty l s = Inr (ns = [])"
  using ring_empty [of "nxt_of (nodes s)" "prv_of (nodes s)" l ns]
  by (auto simp: list_rep_def list_empty_def deref_def nxt_of_def)

lemma list_front_ok: "list_rep l (n # ns) (nodes s) \<Longrightarrow> list_front l s = Inr (Some n)"
  using ring_next [of "nxt_of (nodes s)" "prv_of (nodes s)" l "n # ns"] list_empty_ok [of l "n # ns" s]
  by (simp add: list_front_def deref_dom list_rep_def) (simp add: nxt_of_def)

lemma list_back_ok: "list_rep l (ns @ [n]) (nodes s) \<Longrightarrow> list_back l s = Inr (Some n)"
  using ring_prev [of "nxt_of (nodes s)" "prv_of (nodes s)" l "ns @ [n]"] list_empty_ok [of l "ns @ [n]" s]
  by (simp add: list_back_def deref_dom list_rep_def) (simp add: prv_of_def)

lemma list_value_ok: "n \<in> dom (nodes s) \<Longrightarrow> list_value (Some n) s = Inr (val_of (nodes s) n)"
  by (simp add: list_value_def deref_dom val_of_def)

lemma list_push_front_ok:
  assumes "list_rep l ns (nodes s)" "tick s \<notin> dom (nodes s)" "avail s (tick s)"
  obtains N where "list_push_front l v s = Inr (Some (tick s), s\<lparr>nodes := N, tick := Suc (tick s)\<rparr>)"
    "list_rep l (tick s # ns) N" "dom N = insert (tick s) (dom (nodes s))" "val_of N = (val_of (nodes s))(tick s := v)"
proof -
  let ?n = "tick s"
  let ?N = "(nodes s)(?n \<mapsto> \<lparr>nprev = 0, nnext = 0, nvalue = v\<rparr>)"
  have "?n \<notin> set (l # ns)" using assms by (auto simp: list_rep_def)
  moreover from this have "list_rep l ns ?N" using assms(1) by (subst list_rep_cong [of l ns _ "nodes s"]) auto
  ultimately obtain N' where "prepend l ?n ?N = Inr N'" "list_rep l (?n # ns) N'" "dom N' = dom ?N" "val_of N' = val_of ?N"
    using prepend_ok [of l ns ?N ?n] by auto
  then show ?thesis using that [of N'] assms(3) by (simp add: list_push_front_def malloc_def)
qed

lemma list_push_front_fails:
  "\<not> avail s (tick s) \<Longrightarrow> list_push_front l v s = Inr (None, s\<lparr>tick := Suc (tick s)\<rparr>)"
  by (simp add: list_push_front_def malloc_def)

lemma list_move_front_ok:
  assumes "list_rep l (xs @ n # ys) (nodes s)"
  obtains N where "list_move_front l n s = Inr (s\<lparr>nodes := N\<rparr>)" "list_rep l (n # xs @ ys) N"
    "dom N = dom (nodes s)" "val_of N = val_of (nodes s)"
proof -
  obtain N1 where N1: "detach n (nodes s) = Inr N1" "list_rep l (xs @ ys) N1" "dom N1 = dom (nodes s)" "val_of N1 = val_of (nodes s)"
    using detach_ok [OF assms] .
  have "n \<in> dom N1" "n \<notin> set (l # xs @ ys)" using assms N1(3) by (auto simp: list_rep_def ring_def)
  then obtain N2 where "prepend l n N1 = Inr N2" "list_rep l (n # xs @ ys) N2" "dom N2 = dom N1" "val_of N2 = val_of N1"
    using prepend_ok [OF N1(2)] by blast
  then show ?thesis using that [of N2] N1 by (simp add: list_move_front_def)
qed

lemma list_remove_ok:
  assumes "list_rep l (xs @ n # ys) (nodes s)"
  obtains N where "list_remove l (Some n) s = Inr (s\<lparr>nodes := N\<rparr>)" "list_rep l (xs @ ys) N"
    "dom N = dom (nodes s) - {n}" "\<forall>a. a \<noteq> n \<longrightarrow> val_of N a = val_of (nodes s) a"
proof -
  obtain N1 where N1: "detach n (nodes s) = Inr N1" "list_rep l (xs @ ys) N1" "dom N1 = dom (nodes s)" "val_of N1 = val_of (nodes s)"
    using detach_ok [OF assms] .
  have "n \<in> dom N1" "n \<notin> set (l # xs @ ys)" using assms N1(3) by (auto simp: list_rep_def ring_def)
  moreover from this have "list_rep l (xs @ ys) (N1(n := None))"
    using N1(2) by (subst list_rep_cong [of _ _ _ N1]) auto
  moreover have "val_of (N1(n := None)) a = val_of N1 a" if "a \<noteq> n" for a using that by (simp add: val_of_def)
  ultimately show ?thesis using that [of "N1(n := None)"] N1 by (simp add: list_remove_def c_free_dom)
qed

text \<open>The loop of \<^verbatim>\<open>list_destroy\<close> ends, and only the sentinel is left of the list.\<close>

lemma list_clear_ok:
  "list_rep l ns (nodes s) \<Longrightarrow> length ns < fuel \<Longrightarrow>
   \<exists>N. list_clear fuel l s = Inr (s\<lparr>nodes := N\<rparr>) \<and> list_rep l [] N \<and> dom N = dom (nodes s) - set ns"
proof (induction ns arbitrary: s fuel)
  case Nil
  then obtain f where "fuel = Suc f" by (cases fuel) auto
  then show ?case using Nil list_empty_ok [OF Nil(1)] by (intro exI [of _ "nodes s"]) simp
next
  case (Cons n ns)
  then obtain f where f: "fuel = Suc f" by (cases fuel) auto
  obtain N where N: "list_remove l (Some n) s = Inr (s\<lparr>nodes := N\<rparr>)" "list_rep l ns N" "dom N = dom (nodes s) - {n}"
    using list_remove_ok [of l "[]" n ns s] Cons.prems(1) by (metis append_Nil)
  obtain N' where "list_clear f l (s\<lparr>nodes := N\<rparr>) = Inr (s\<lparr>nodes := N\<rparr>\<lparr>nodes := N'\<rparr>)" "list_rep l [] N'" "dom N' = dom N - set ns"
    using Cons.IH [of "s\<lparr>nodes := N\<rparr>" f] N(2) Cons.prems(2) f by auto
  then show ?case using f N list_empty_ok [OF Cons.prems(1)] list_front_ok [OF Cons.prems(1)]
    by (intro exI [of _ N']) auto
qed

lemma list_destroy_ok:
  assumes "list_rep l ns (nodes s)" "length ns \<le> tick s" "dom (nodes s) = set (l # ns)"
  shows "list_destroy (Some l) s = Inr (s\<lparr>nodes := (\<lambda>_. None)\<rparr>)"
proof -
  obtain N where N: "list_clear (Suc (tick s)) l s = Inr (s\<lparr>nodes := N\<rparr>)" "list_rep l [] N" "dom N = dom (nodes s) - set ns"
    using list_clear_ok [OF assms(1), of "Suc (tick s)"] assms(2) by auto
  then have "dom N = {l}" using assms(1,3) by (auto simp: list_rep_def ring_def)
  then have "N(l := None) = (\<lambda>_. None)" "l \<in> dom N" by (auto simp: fun_eq_iff domIff)
  then show ?thesis using N(1) by (simp add: list_destroy_def c_free_dom del: list_clear.simps)
qed

section \<open>The hash map\<close>

definition hk :: "cmem \<Rightarrow> nat \<Rightarrow> int" where
  "hk s e = hkey (the (hents s e))"

definition hv :: "cmem \<Rightarrow> nat \<Rightarrow> nat" where
  "hv s e = hvalue (the (hents s e))"

definition hn :: "cmem \<Rightarrow> nat \<Rightarrow> nat option" where
  "hn s e = hnext (the (hents s e))"

lemma find_mem: "find P xs = Some x \<Longrightarrow> x \<in> set xs \<and> P x"
  by (auto simp: find_Some_iff)

text \<open>
  The map at \<open>m\<close> with the bucket array \<open>bs\<close> at \<open>b\<close> and the chains \<open>cs\<close>: every entry is in the chain of its key, no
  two entries have the same key.
\<close>

definition map_rep :: "nat \<Rightarrow> nat \<Rightarrow> nat option list \<Rightarrow> nat list list \<Rightarrow> cmem \<Rightarrow> bool" where
  "map_rep m b bs cs s \<longleftrightarrow>
     hmaps s m = Some \<lparr>buckets = b, bucket_count = length bs\<rparr> \<and> arrays s b = Some bs \<and> 0 < length bs \<and>
     table (hn s) bs cs \<and> set (concat cs) \<subseteq> dom (hents s) \<and> set (concat cs) \<subseteq> {..<tick s} \<and>
     inj_on (hk s) (set (concat cs)) \<and> (\<forall>i < length bs. \<forall>e \<in> set (cs ! i). bucket_for (length bs) (hk s e) = i)"

lemma map_rep_chain:
  assumes "map_rep m b bs cs s" "i < length bs"
  shows "chain (hn s) (bs ! i) (cs ! i)" "set (cs ! i) \<subseteq> set (concat cs)" "distinct (cs ! i)" "length (cs ! i) \<le> tick s"
proof -
  have t: "table (hn s) bs cs" "set (concat cs) \<subseteq> {..<tick s}" using assms(1) by (auto simp: map_rep_def)
  then have len: "length cs = length bs" by (simp add: table_def)
  show "chain (hn s) (bs ! i) (cs ! i)" using t(1) assms(2) by (rule table_chain)
  show sub: "set (cs ! i) \<subseteq> set (concat cs)" using nth_mem [of i cs] assms(2) len by fastforce
  show d: "distinct (cs ! i)" using t(1) assms(2) len by (metis distinct_concat_iff nth_mem table_def)
  have "card (set (cs ! i)) \<le> card {..<tick s}" using sub t(2) by (intro card_mono) auto
  then show "length (cs ! i) \<le> tick s" using d by (simp add: distinct_card)
qed

lemma map_rep_member:
  assumes "map_rep m b bs cs s" "e \<in> set (concat cs)"
  shows "bucket_for (length bs) (hk s e) < length bs" "e \<in> set (cs ! bucket_for (length bs) (hk s e))"
proof -
  have pos: "0 < length bs" using assms(1) by (simp add: map_rep_def)
  obtain i where "i < length bs" "e \<in> set (cs ! i)" using assms by (auto simp: map_rep_def table_def in_set_conv_nth) (metis nth_mem)
  moreover from this have "bucket_for (length bs) (hk s e) = i" using assms(1) by (auto simp: map_rep_def)
  ultimately show "bucket_for (length bs) (hk s e) < length bs" "e \<in> set (cs ! bucket_for (length bs) (hk s e))" by auto
qed

lemma entry_link_ok: "e \<in> dom (hents s) \<Longrightarrow> entry_link s e = Some (hk s e, hn s e)"
  by (auto simp: entry_link_def hk_def hn_def)

lemma map_rep_find:
  assumes "map_rep m b bs cs s"
  shows "hash_map_find m k s = Inr (map_option (hv s) (find (\<lambda>e. hk s e = k) (cs ! bucket_for (length bs) k)))"
proof -
  let ?i = "bucket_for (length bs) k"
  have m: "hmaps s m = Some \<lparr>buckets = b, bucket_count = length bs\<rparr>" "arrays s b = Some bs" and i: "?i < length bs"
    and sub: "set (concat cs) \<subseteq> dom (hents s)"
    using assms by (auto simp: map_rep_def)
  note ch = map_rep_chain [OF assms i]
  have "chain_find (tick s) (entry_link s) k (bs ! ?i) = Inr (find (\<lambda>e. hk s e = k) (cs ! ?i))"
    using ch sub by (intro chain_find_eq [where nxt = "hn s"] entry_link_ok) (auto simp del: set_concat)
  moreover have "e \<in> dom (hents s)" if "find (\<lambda>e. hk s e = k) (cs ! ?i) = Some e" for e
    using find_mem [OF that] ch(2) sub by blast
  ultimately show ?thesis using m i by (auto simp: hash_map_find_def deref_dom hv_def split: option.split)
qed

lemma hash_map_find_hit:
  assumes "map_rep m b bs cs s" "e \<in> set (concat cs)" "hk s e = k"
  shows "hash_map_find m k s = Inr (Some (hv s e))"
proof -
  note mem = map_rep_member [OF assms(1,2)] and sub = map_rep_chain(2) [OF assms(1)]
  have "find (\<lambda>e. hk s e = k) (cs ! bucket_for (length bs) k) \<noteq> None" using mem assms(3) by (auto simp: find_None_iff)
  then obtain e' where e': "find (\<lambda>e. hk s e = k) (cs ! bucket_for (length bs) k) = Some e'" by blast
  then have "e' \<in> set (concat cs)" "hk s e' = k" using find_mem [OF e'] subsetD [OF sub [of "bucket_for (length bs) k"]] mem(1) assms(3) by (simp_all del: set_concat)
  then have "e' = e" using assms by (auto simp: map_rep_def dest: inj_onD)
  then show ?thesis using map_rep_find [OF assms(1)] e' by simp
qed

lemma hash_map_find_miss:
  assumes "map_rep m b bs cs s" "\<forall>e \<in> set (concat cs). hk s e \<noteq> k"
  shows "hash_map_find m k s = Inr None"
proof -
  have "0 < length bs" using assms(1) by (simp add: map_rep_def)
  then have "find (\<lambda>e. hk s e = k) (cs ! bucket_for (length bs) k) = None"
    using assms(2) map_rep_chain(2) [OF assms(1), of "bucket_for (length bs) k"] by (auto simp: find_None_iff)
  then show ?thesis using map_rep_find [OF assms(1)] by simp
qed

text \<open>What the operations of the map leave alone.\<close>

definition map_frame :: "cmem \<Rightarrow> cmem \<Rightarrow> bool" where
  "map_frame s s' \<longleftrightarrow> nodes s' = nodes s \<and> cents s' = cents s \<and> caches s' = caches s \<and> hmaps s' = hmaps s \<and>
     dom (arrays s') = dom (arrays s) \<and> avail s' = avail s"

lemma map_rep_fresh: "map_rep m b bs cs s \<Longrightarrow> tick s \<notin> set (concat cs)"
  by (auto simp: map_rep_def)

lemma hash_map_insert_ok:
  assumes rep: "map_rep m b bs cs s" and new: "\<forall>e \<in> set (concat cs). hk s e \<noteq> k" and av: "avail s (tick s)"
  obtains bs' cs' s' where "hash_map_insert m k v s = Inr (HASH_MAP_INSERTED, s')" "map_rep m b bs' cs' s'"
    "set (concat cs') = insert (tick s) (set (concat cs))" "hk s' = (hk s)(tick s := k)" "hv s' = (hv s)(tick s := v)"
    "dom (hents s') = insert (tick s) (dom (hents s))" "tick s' = Suc (tick s)" "map_frame s s'"
proof -
  let ?e = "tick s" and ?i = "bucket_for (length bs) k"
  let ?bs = "bs[?i := Some ?e]" and ?cs = "cs[?i := ?e # cs ! ?i]"
  let ?s = "s\<lparr>hents := (hents s)(?e \<mapsto> \<lparr>hkey = k, hvalue = v, hnext = bs ! ?i\<rparr>), arrays := (arrays s)(b \<mapsto> ?bs), tick := Suc ?e\<rparr>"
  have m: "hmaps s m = Some \<lparr>buckets = b, bucket_count = length bs\<rparr>" "arrays s b = Some bs" and i: "?i < length bs"
    and t: "table (hn s) bs cs" and inj: "inj_on (hk s) (set (concat cs))" and d: "set (concat cs) \<subseteq> dom (hents s)"
    and lt: "set (concat cs) \<subseteq> {..<?e}" and bk: "\<forall>i < length bs. \<forall>e \<in> set (cs ! i). bucket_for (length bs) (hk s e) = i"
    using rep by (auto simp: map_rep_def)
  have len: "length cs = length bs" and pos: "0 < length bs" using t i by (auto simp: table_def)
  have fresh: "?e \<notin> set (concat cs)" using rep by (rule map_rep_fresh)
  have ins: "hash_map_insert m k v s = Inr (HASH_MAP_INSERTED, ?s)"
    using hash_map_find_miss [OF rep new] av m i by (simp add: hash_map_insert_def malloc_def Let_def)
  have f: "hk ?s = (hk s)(?e := k)" "hv ?s = (hv s)(?e := v)" "hn ?s = (hn s)(?e := bs ! ?i)"
    by (auto simp: fun_eq_iff hk_def hv_def hn_def)
  have "mset (concat ?cs) = add_mset ?e (mset (concat cs))"
    using mset_concat_update [of ?i cs "?e # cs ! ?i"] i len by simp
  then have set': "set (concat ?cs) = insert ?e (set (concat cs))" by (metis set_mset_add_mset_insert set_mset_mset)
  have "e \<noteq> ?e" if "e \<in> set (cs ! j)" "j < length bs" for e j
    using map_rep_chain(2) [OF rep that(2)] that(1) fresh by blast
  then have "bucket_for (length bs) (hk ?s e) = j" if "j < length bs" "e \<in> set (?cs ! j)" for j e
    using that bk f(1) len by (cases "j = ?i") auto
  moreover have "inj_on (hk ?s) (set (concat ?cs))"
    unfolding set' f(1) using inj new fresh by (auto simp: inj_on_def simp del: set_concat)
  moreover have "table (hn ?s) ?bs ?cs" unfolding f(3) by (rule table_insert [OF t fresh i])
  moreover have "set (concat ?cs) \<subseteq> dom (hents ?s)" "set (concat ?cs) \<subseteq> {..<tick ?s}" unfolding set' using d lt by auto
  ultimately have "map_rep m b ?bs ?cs ?s" unfolding map_rep_def using m i pos by (simp del: set_concat)
  moreover have "map_frame s ?s" using m(2) by (auto simp: map_frame_def)
  ultimately show ?thesis using that [OF ins _ set' f(1,2)] by simp
qed

lemma hash_map_insert_fails:
  assumes "map_rep m b bs cs s" "\<forall>e \<in> set (concat cs). hk s e \<noteq> k" "\<not> avail s (tick s)"
  shows "hash_map_insert m k v s = Inr (HASH_MAP_NO_MEMORY, s\<lparr>tick := Suc (tick s)\<rparr>)"
  using hash_map_find_miss [OF assms(1,2)] assms(3) by (simp add: hash_map_insert_def malloc_def)

lemma map_rep_split:
  assumes rep: "map_rep m b bs cs s" and e: "e \<in> set (concat cs)"
  obtains xs ys where "cs ! bucket_for (length bs) (hk s e) = xs @ e # ys" "\<forall>x \<in> set xs. hk s x \<noteq> hk s e"
    "set (xs @ e # ys) \<subseteq> dom (hents s)" "e \<notin> set (xs @ ys)"
proof -
  let ?i = "bucket_for (length bs) (hk s e)"
  have i: "?i < length bs" by (rule map_rep_member [OF rep e])
  obtain xs ys where split: "cs ! ?i = xs @ e # ys" using map_rep_member(2) [OF rep e] by (auto dest: split_list)
  have sub: "set (xs @ e # ys) \<subseteq> set (concat cs)" and dist: "distinct (xs @ e # ys)"
    using map_rep_chain(2,3) [OF rep i] split by (simp_all del: set_concat)
  have "hk s x \<noteq> hk s e" if "x \<in> set xs" for x
  proof -
    have "x \<in> set (concat cs)" "x \<noteq> e" using that sub dist by auto
    then show ?thesis using rep e by (auto simp: map_rep_def inj_on_def simp del: set_concat)
  qed
  moreover have "set (xs @ e # ys) \<subseteq> dom (hents s)" using rep sub by (auto simp: map_rep_def simp del: set_append set_concat)
  moreover have "e \<notin> set (xs @ ys)" using dist by auto
  ultimately show ?thesis using that [OF split] by blast
qed

text \<open>Unlinking an entry and freeing it.\<close>

definition unlinked :: "nat \<Rightarrow> nat option list \<Rightarrow> nat slot \<Rightarrow> nat \<Rightarrow> cmem \<Rightarrow> cmem" where
  "unlinked b bs link e s = s\<lparr>arrays := (arrays s)(b \<mapsto> slot_bucket link (hn s e) bs),
     hents := (case link of Bucket i \<Rightarrow> hents s | Next_of x \<Rightarrow> (hents s)(x \<mapsto> (the (hents s x))\<lparr>hnext := hn s e\<rparr>))(e := None)\<rparr>"

lemma unlinked_fields:
  assumes "link \<noteq> Next_of e" "x \<noteq> e"
  shows "hk (unlinked b bs link e s) x = hk s x" "hv (unlinked b bs link e s) x = hv s x"
    "hn (unlinked b bs link e s) x = slot_next link (hn s e) (hn s) x"
  using assms by (auto simp: unlinked_def hk_def hv_def hn_def slot_next_def split: slot.split)

lemma hash_map_remove_eq:
  assumes rep: "map_rep m b bs cs s" and e: "e \<in> set (concat cs)"
    and split: "cs ! bucket_for (length bs) (hk s e) = xs @ e # ys" "\<forall>x \<in> set xs. hk s x \<noteq> hk s e"
      "set (xs @ e # ys) \<subseteq> dom (hents s)" "e \<notin> set (xs @ ys)"
  shows "hash_map_remove m (hk s e) s = Inr (True, unlinked b bs (slot_at (bucket_for (length bs) (hk s e)) xs) e s)"
proof -
  let ?i = "bucket_for (length bs) (hk s e)"
  have i: "?i < length bs" by (rule map_rep_member [OF rep e])
  have m: "hmaps s m = Some \<lparr>buckets = b, bucket_count = length bs\<rparr>" "arrays s b = Some bs"
    using rep by (auto simp: map_rep_def)
  note ch = map_rep_chain [OF rep i, unfolded split(1)]
  have link: "chain_link (tick s) (entry_link s) (hk s e) (Bucket ?i) (bs ! ?i) = Inr (slot_at ?i xs, Some e)"
    unfolding slot_at_def
    by (rule chain_link_eq [OF ch(1)]) (use ch(4) split entry_link_ok subsetD [OF split(3)] in \<open>auto simp del: set_append\<close>)
  have de: "deref (hents s) e = Inr (the (hents s e))" using split(3) by (intro deref_dom) auto
  have store: "store_link b (slot_at ?i xs) (hnext (the (hents s e))) s =
      Inr (s\<lparr>arrays := (arrays s)(b \<mapsto> slot_bucket (slot_at ?i xs) (hn s e) bs),
       hents := (case slot_at ?i xs of Bucket i \<Rightarrow> hents s | Next_of x \<Rightarrow> (hents s)(x \<mapsto> (the (hents s x))\<lparr>hnext := hn s e\<rparr>))\<rparr>)"
  proof (cases "xs = []")
    case True
    then show ?thesis using m(2) i by (simp add: store_link_def slot_at_def slot_bucket_def hn_def)
  next
    case False
    then have "last xs \<in> dom (hents s)" using split(3) last_in_set [OF False] by (auto simp del: last_in_set)
    moreover have "(arrays s)(b \<mapsto> bs) = arrays s" using m(2) by auto
    ultimately show ?thesis using False by (simp add: store_link_def slot_at_def slot_bucket_def deref_dom hn_def)
  qed
  have "e \<in> dom (case slot_at ?i xs of Bucket i \<Rightarrow> hents s | Next_of x \<Rightarrow> (hents s)(x \<mapsto> (the (hents s x))\<lparr>hnext := hn s e\<rparr>))"
    using split(3) by (auto split: slot.split)
  then show ?thesis using m i link de store
    by (simp add: hash_map_remove_def Let_def c_free_dom unlinked_def del: fun_upd_apply)
qed

lemma hash_map_remove_ok:
  assumes rep: "map_rep m b bs cs s" and e: "e \<in> set (concat cs)"
  obtains bs' cs' s' where "hash_map_remove m (hk s e) s = Inr (True, s')" "map_rep m b bs' cs' s'"
    "set (concat cs') = set (concat cs) - {e}" "\<forall>x. x \<noteq> e \<longrightarrow> hk s' x = hk s x \<and> hv s' x = hv s x"
    "dom (hents s') = dom (hents s) - {e}" "tick s' = tick s" "map_frame s s'"
proof -
  let ?i = "bucket_for (length bs) (hk s e)"
  have i: "?i < length bs" by (rule map_rep_member [OF rep e])
  have m: "hmaps s m = Some \<lparr>buckets = b, bucket_count = length bs\<rparr>" "arrays s b = Some bs" and t: "table (hn s) bs cs"
    and inj: "inj_on (hk s) (set (concat cs))" and d: "set (concat cs) \<subseteq> dom (hents s)"
    and lt: "set (concat cs) \<subseteq> {..<tick s}" and bk: "\<forall>i < length bs. \<forall>e \<in> set (cs ! i). bucket_for (length bs) (hk s e) = i"
    using rep by (auto simp: map_rep_def)
  have len: "length cs = length bs" "distinct (concat cs)" using t by (auto simp: table_def)
  obtain xs ys where split: "cs ! ?i = xs @ e # ys" "\<forall>x \<in> set xs. hk s x \<noteq> hk s e" "set (xs @ e # ys) \<subseteq> dom (hents s)" "e \<notin> set (xs @ ys)"
    using map_rep_split [OF rep e] by blast
  let ?l = "slot_at ?i xs" and ?cs = "cs[?i := xs @ ys]"
  let ?s = "unlinked b bs ?l e s" and ?bs = "slot_bucket ?l (hn s e) bs"
  have le: "?l \<noteq> Next_of e" using split(4) last_in_set [of xs] by (auto simp: slot_at_def)
  note f = unlinked_fields [OF le, of _ b bs s]
  have "mset (concat cs) = add_mset e (mset (concat ?cs))" by (rule table_remove_mset) (use i len split in auto)
  then have set': "set (concat ?cs) = set (concat cs) - {e}" using len(2)
    by (metis Diff_insert_absorb distinct.simps(2) list.simps(15) mset.simps(2) mset_eq_imp_distinct_iff mset_eq_setD)
  have "table (slot_next ?l (hn s e) (hn s)) ?bs ?cs" by (rule table_remove [OF t i split(1)])
  moreover have "table (hn ?s) ?bs ?cs = table (slot_next ?l (hn s e) (hn s)) ?bs ?cs"
    by (rule table_cong) (use set' f in auto)
  moreover have lb: "length ?bs = length bs" by (simp add: slot_bucket_def split: slot.split)
  moreover have "bucket_for (length bs) (hk ?s x) = j" if j: "j < length bs" and x: "x \<in> set (?cs ! j)" for j x
  proof -
    have "x \<in> set (concat ?cs)" using nth_mem [of j ?cs] j x len(1) by fastforce
    then have "x \<noteq> e" unfolding set' by simp
    moreover have "x \<in> set (cs ! j)" using x j len(1) split(1) by (cases "j = ?i") simp_all
    ultimately show ?thesis using bk j f(1) by simp
  qed
  moreover have "inj_on (hk ?s) (set (concat ?cs))"
    unfolding set' using inj f(1) by (auto simp: inj_on_def simp del: set_concat)
  moreover have dom': "dom (hents ?s) = dom (hents s) - {e}"
    using split(3) last_in_set [of xs] by (cases "xs = []") (auto simp: unlinked_def slot_at_def simp del: last_in_set)
  moreover have "hmaps ?s = hmaps s" "arrays ?s b = Some ?bs" "tick ?s = tick s" by (simp_all add: unlinked_def)
  ultimately have "map_rep m b ?bs ?cs ?s"
    unfolding map_rep_def set' using m i d lt by (auto simp del: set_concat)
  moreover have "map_frame s ?s" using m(2) by (auto simp: map_frame_def unlinked_def)
  ultimately show ?thesis using that [OF hash_map_remove_eq [OF rep e split] _ set' _ dom'] f by (simp add: unlinked_def)
qed

text \<open>Freeing the map frees all its entries.\<close>

lemma free_chain_ok:
  "chain (hn s) p es \<Longrightarrow> set es \<subseteq> dom (hents s) \<Longrightarrow> distinct es \<Longrightarrow> length es \<le> fuel \<Longrightarrow>
   free_chain fuel p s = Inr (s\<lparr>hents := hents s |` (- set es)\<rparr>)"
proof (induction es arbitrary: p s fuel)
  case (Cons e es)
  then obtain f where f: "fuel = Suc f" by (cases fuel) auto
  let ?s = "s\<lparr>hents := (hents s)(e := None)\<rparr>"
  have "chain (hn ?s) (hn s e) es = chain (hn s) (hn s e) es"
    using Cons.prems(3) by (intro chain_cong) (auto simp: hn_def)
  then have "free_chain f (hn s e) ?s = Inr (?s\<lparr>hents := hents ?s |` (- set es)\<rparr>)"
    using Cons.prems f by (intro Cons.IH) auto
  moreover have "hents ?s |` (- set es) = hents s |` (- set (e # es))" by (auto simp: restrict_map_def fun_eq_iff)
  ultimately show ?case using Cons.prems f by (simp add: deref_dom c_free_dom hn_def)
qed (simp add: restrict_map_def)

lemma free_chains_ok:
  assumes "table (hn s) bs cs" "set (concat cs) \<subseteq> dom (hents s)" "\<forall>c \<in> set cs. length c \<le> fuel" "n \<le> length bs"
  shows "free_chains fuel bs n s = Inr (s\<lparr>hents := hents s |` (- set (concat (take n cs)))\<rparr>)"
  using assms(4)
proof (induction n)
  case 0
  then show ?case by (simp add: restrict_map_def)
next
  case (Suc n)
  let ?s = "s\<lparr>hents := hents s |` (- set (concat (take n cs)))\<rparr>"
  have len: "length cs = length bs" and d: "distinct (concat cs)" using assms(1) by (auto simp: table_def)
  have n: "n < length cs" using Suc len by simp
  have "set (cs ! n) \<inter> set (concat (take n cs)) = {}"
  proof -
    have "distinct (concat (take n cs @ cs ! n # drop (Suc n) cs))" using d id_take_nth_drop [OF n] by metis
    then show ?thesis by auto
  qed
  then have out: "e \<notin> set (concat (take n cs))" if "e \<in> set (cs ! n)" for e using that by blast
  have "chain (hn ?s) (bs ! n) (cs ! n) = chain (hn s) (bs ! n) (cs ! n)"
    using out by (intro chain_cong) (auto simp: hn_def restrict_map_def)
  then have "chain (hn ?s) (bs ! n) (cs ! n)" using table_chain [OF assms(1), of n] Suc by simp
  moreover have "set (cs ! n) \<subseteq> dom (hents s)" using assms(2) nth_mem [OF n] by auto
  then have "set (cs ! n) \<subseteq> dom (hents ?s)" using out by (auto simp del: set_concat)
  moreover have "distinct (cs ! n)" using d n by (metis distinct_concat_iff nth_mem)
  ultimately have "free_chain fuel (bs ! n) ?s = Inr (?s\<lparr>hents := hents ?s |` (- set (cs ! n))\<rparr>)"
    using assms(3) n by (intro free_chain_ok) simp_all
  moreover have "hents ?s |` (- set (cs ! n)) = hents s |` (- set (concat (take (Suc n) cs)))"
    using n by (auto simp: restrict_map_def fun_eq_iff take_Suc_conv_app_nth)
  ultimately show ?case using Suc by simp
qed

section \<open>The index\<close>

text \<open>A memory whose only map has the pairs \<open>P\<close> of keys and values.\<close>

definition mpart :: "nat \<Rightarrow> nat \<Rightarrow> (int \<times> nat) set \<Rightarrow> cmem \<Rightarrow> bool" where
  "mpart m b P s \<longleftrightarrow> (\<exists>bs cs. map_rep m b bs cs s \<and> dom (hents s) = set (concat cs) \<and> dom (hmaps s) = {m} \<and>
     dom (arrays s) = {b} \<and> (\<lambda>e. (hk s e, hv s e)) ` set (concat cs) = P)"

definition other_parts :: "cmem \<Rightarrow> cmem \<Rightarrow> bool" where
  "other_parts s s' \<longleftrightarrow> nodes s' = nodes s \<and> cents s' = cents s \<and> caches s' = caches s \<and> avail s' = avail s"

lemma map_frame_other: "map_frame s s' \<Longrightarrow> other_parts s s'"
  by (simp add: map_frame_def other_parts_def)

lemma mpart_find_hit:
  assumes "mpart m b P s" "(k, n) \<in> P"
  shows "hash_map_find m k s = Inr (Some n)"
proof -
  obtain bs cs e where "map_rep m b bs cs s" "e \<in> set (concat cs)" "hk s e = k" "hv s e = n"
    using assms by (auto simp: mpart_def simp del: set_concat)
  then show ?thesis using hash_map_find_hit by metis
qed

lemma mpart_find_miss:
  assumes "mpart m b P s" "k \<notin> fst ` P"
  shows "hash_map_find m k s = Inr None"
proof -
  obtain bs cs where "map_rep m b bs cs s" "(\<lambda>e. (hk s e, hv s e)) ` set (concat cs) = P"
    using assms by (auto simp: mpart_def)
  moreover from this have "\<forall>e \<in> set (concat cs). hk s e \<noteq> k" using assms(2) by force
  ultimately show ?thesis using hash_map_find_miss by metis
qed

lemma mpart_insert:
  assumes "mpart m b P s" "k \<notin> fst ` P" "avail s (tick s)"
  obtains s' where "hash_map_insert m k n s = Inr (HASH_MAP_INSERTED, s')" "mpart m b (insert (k, n) P) s'"
    "tick s' = Suc (tick s)" "other_parts s s'"
proof -
  obtain bs cs where r: "map_rep m b bs cs s" "dom (hents s) = set (concat cs)" "dom (hmaps s) = {m}" "dom (arrays s) = {b}"
    "(\<lambda>e. (hk s e, hv s e)) ` set (concat cs) = P" using assms by (auto simp: mpart_def)
  have "\<forall>e \<in> set (concat cs). hk s e \<noteq> k" using assms(2) r(5) by force
  then obtain bs' cs' s' where s': "hash_map_insert m k n s = Inr (HASH_MAP_INSERTED, s')" "map_rep m b bs' cs' s'"
    "set (concat cs') = insert (tick s) (set (concat cs))" "hk s' = (hk s)(tick s := k)" "hv s' = (hv s)(tick s := n)"
    "dom (hents s') = insert (tick s) (dom (hents s))" "tick s' = Suc (tick s)" "map_frame s s'"
    using hash_map_insert_ok [OF r(1) _ assms(3)] by metis
  have "(\<lambda>e. (hk s' e, hv s' e)) ` set (concat cs) = (\<lambda>e. (hk s e, hv s e)) ` set (concat cs)"
    unfolding s'(4,5) using map_rep_fresh [OF r(1)] by (intro image_cong) (auto simp del: set_concat)
  then have "(\<lambda>e. (hk s' e, hv s' e)) ` set (concat cs') = insert (k, n) P" unfolding s'(3) using r(5) s'(4,5) by simp
  then have "mpart m b (insert (k, n) P) s'" unfolding mpart_def using s' r
    by (intro exI [of _ bs'] exI [of _ cs']) (simp add: map_frame_def del: set_concat)
  then show ?thesis using that [OF s'(1) _ s'(7)] map_frame_other [OF s'(8)] by simp
qed

lemma mpart_insert_fails:
  assumes "mpart m b P s" "k \<notin> fst ` P" "\<not> avail s (tick s)"
  shows "hash_map_insert m k n s = Inr (HASH_MAP_NO_MEMORY, s\<lparr>tick := Suc (tick s)\<rparr>)"
  using mpart_find_miss [OF assms(1,2)] assms(3) by (simp add: hash_map_insert_def malloc_def)

lemma mpart_remove:
  assumes "mpart m b P s" "(k, n) \<in> P"
  obtains s' where "hash_map_remove m k s = Inr (True, s')" "mpart m b (P - {(k, n)}) s'"
    "tick s' = tick s" "other_parts s s'"
proof -
  obtain bs cs where r: "map_rep m b bs cs s" "dom (hents s) = set (concat cs)" "dom (hmaps s) = {m}" "dom (arrays s) = {b}"
    "(\<lambda>e. (hk s e, hv s e)) ` set (concat cs) = P" using assms by (auto simp: mpart_def)
  obtain e where e: "e \<in> set (concat cs)" "hk s e = k" "hv s e = n" using assms(2) r(5) by (auto simp del: set_concat)
  obtain bs' cs' s' where s': "hash_map_remove m (hk s e) s = Inr (True, s')" "map_rep m b bs' cs' s'"
    "set (concat cs') = set (concat cs) - {e}" "\<forall>x. x \<noteq> e \<longrightarrow> hk s' x = hk s x \<and> hv s' x = hv s x"
    "dom (hents s') = dom (hents s) - {e}" "tick s' = tick s" "map_frame s s'"
    using hash_map_remove_ok [OF r(1) e(1)] by metis
  have inj: "inj_on (\<lambda>e. (hk s e, hv s e)) (set (concat cs))" using r(1) by (auto simp: map_rep_def inj_on_def)
  have "(\<lambda>e. (hk s' e, hv s' e)) ` (set (concat cs) - {e}) = (\<lambda>e. (hk s e, hv s e)) ` (set (concat cs) - {e})"
    using s'(4) by (intro image_cong) auto
  also have "\<dots> = P - {(k, n)}" using inj_on_image_set_diff [OF inj, of "set (concat cs)" "{e}"] e r(5) by simp
  finally have "mpart m b (P - {(k, n)}) s'" unfolding mpart_def using s' r
    by (intro exI [of _ bs'] exI [of _ cs']) (simp add: map_frame_def del: set_concat)
  then show ?thesis using that [of s'] s'(1,6) e(2) map_frame_other [OF s'(7)] by simp
qed

lemma mpart_destroy:
  assumes "mpart m b P s"
  shows "hash_map_destroy (Some m) s = Inr (s\<lparr>hents := (\<lambda>_. None), arrays := (\<lambda>_. None), hmaps := (\<lambda>_. None)\<rparr>)"
proof -
  obtain bs cs where r: "map_rep m b bs cs s" "dom (hents s) = set (concat cs)" "dom (hmaps s) = {m}" "dom (arrays s) = {b}"
    using assms by (auto simp: mpart_def)
  then have m: "hmaps s m = Some \<lparr>buckets = b, bucket_count = length bs\<rparr>" "arrays s b = Some bs" "table (hn s) bs cs"
    by (auto simp: map_rep_def)
  have len: "length cs = length bs" using m(3) by (simp add: table_def)
  have "\<forall>c \<in> set cs. length c \<le> tick s" using map_rep_chain(4) [OF r(1)] len by (auto simp: in_set_conv_nth)
  then have "free_chains (tick s) bs (length bs) s = Inr (s\<lparr>hents := hents s |` (- set (concat (take (length bs) cs)))\<rparr>)"
    using r(2) by (intro free_chains_ok [OF m(3)]) auto
  moreover have "hents s |` (- set (concat (take (length bs) cs))) = (\<lambda>_. None)"
    using r(2) len by (auto simp: restrict_map_def fun_eq_iff simp del: set_concat)
  moreover have "(arrays s)(b := None) = (\<lambda>_. None)" "(hmaps s)(m := None) = (\<lambda>_. None)" using r(3,4) by (auto simp: fun_eq_iff domIff)
  ultimately show ?thesis using m by (simp add: hash_map_destroy_def)
qed

end
