(* ===== verification/Lru_C_Cache.thy ===== *)
theory Lru_C_Cache
  imports Lru_C_Props
begin

text \<open>
  The cache of \<^verbatim>\<open>01-basics/lru-in-c\<close> on top of its list and its map: the memory of a sound cache, and what
  every operation makes of it.
\<close>

section \<open>The memory of a cache\<close>

text \<open>
  The list at \<open>l\<close> has the nodes \<open>ns\<close> with the payloads \<open>es\<close>; the payloads hold the keys and pages \<open>ps\<close>. All blocks of the
  memory belong to the cache.
\<close>

definition lpart :: "nat \<Rightarrow> nat list \<Rightarrow> nat list \<Rightarrow> cmem \<Rightarrow> bool" where
  "lpart l ns es s \<longleftrightarrow> list_rep l ns (nodes s) \<and> dom (nodes s) = set (l # ns) \<and> set (l # ns) \<subseteq> {..<tick s} \<and>
     map (val_of (nodes s)) ns = map Some es"

definition page_at :: "cmem \<Rightarrow> nat \<Rightarrow> int \<times> int" where
  "page_at s e = (ckey (the (cents s e)), cvalue (the (cents s e)))"

definition epart :: "nat list \<Rightarrow> (int \<times> int) list \<Rightarrow> cmem \<Rightarrow> bool" where
  "epart es ps s \<longleftrightarrow> distinct es \<and> dom (cents s) = set es \<and> set es \<subseteq> {..<tick s} \<and> map (page_at s) es = ps"

definition pairs :: "(int \<times> int) list \<Rightarrow> nat list \<Rightarrow> (int \<times> nat) set" where
  "pairs ps ns = set (zip (map fst ps) ns)"

definition rep :: "nat \<Rightarrow> nat \<Rightarrow> nat \<Rightarrow> nat \<Rightarrow> nat \<Rightarrow> nat \<Rightarrow> nat list \<Rightarrow> nat list \<Rightarrow> (int \<times> int) list \<Rightarrow> cmem \<Rightarrow> bool" where
  "rep c l m b cap z ns es ps s \<longleftrightarrow>
     caches s = [c \<mapsto> \<lparr>recency = l, index = m, capacity = cap, csize = z\<rparr>] \<and>
     lpart l ns es s \<and> epart es ps s \<and> mpart m b (pairs ps ns) s \<and> distinct (map fst ps)"

lemma mpart_upd [simp]:
  "mpart m b P (s\<lparr>nodes := N\<rparr>) = mpart m b P s" "mpart m b P (s\<lparr>cents := E\<rparr>) = mpart m b P s"
  "mpart m b P (s\<lparr>caches := C\<rparr>) = mpart m b P s"
  by (simp_all add: mpart_def map_rep_def hk_def [abs_def] hv_def [abs_def] hn_def [abs_def])

lemma mpart_tick: "mpart m b P s \<Longrightarrow> tick s \<le> t \<Longrightarrow> mpart m b P (s\<lparr>tick := t\<rparr>)"
proof -
  assume "mpart m b P s" "tick s \<le> t"
  then obtain bs cs where "map_rep m b bs cs s" "dom (hents s) = set (concat cs)" "dom (hmaps s) = {m}" "dom (arrays s) = {b}"
    "(\<lambda>e. (hk s e, hv s e)) ` set (concat cs) = P" "{..<tick s} \<subseteq> {..<t}" by (auto simp: mpart_def)
  then have "map_rep m b bs cs (s\<lparr>tick := t\<rparr>) \<and> dom (hents (s\<lparr>tick := t\<rparr>)) = set (concat cs) \<and>
    (\<lambda>e. (hk (s\<lparr>tick := t\<rparr>) e, hv (s\<lparr>tick := t\<rparr>) e)) ` set (concat cs) = P"
    by (auto simp: map_rep_def hk_def [abs_def] hv_def [abs_def] hn_def [abs_def] simp del: set_concat)
  then show ?thesis unfolding mpart_def using \<open>dom (hmaps s) = {m}\<close> \<open>dom (arrays s) = {b}\<close>
    by (intro exI [of _ bs] exI [of _ cs]) simp
qed

lemma rep_lengths:
  assumes "rep c l m b cap z ns es ps s"
  shows "length ns = length es" "length ps = length es"
  using assms by (auto simp: rep_def lpart_def epart_def dest: map_eq_imp_length_eq)

lemma fst_pairs: "length ps = length ns \<Longrightarrow> fst ` pairs ps ns = fst ` set ps"
proof -
  assume "length ps = length ns"
  then have "map fst (zip (map fst ps) ns) = map fst ps" by simp
  then show ?thesis unfolding pairs_def by (metis list.set_map)
qed

lemma pairs_append: "length ps = length ns \<Longrightarrow> pairs (ps @ [p]) (ns @ [n]) = insert (fst p, n) (pairs ps ns)"
  by (auto simp: pairs_def)

lemma pairs_Cons [simp]: "pairs (p # ps) (n # ns) = insert (fst p, n) (pairs ps ns)"
  by (simp add: pairs_def)

section \<open>Eviction\<close>

lemma evict_oldest_ok:
  assumes r: "rep c l m b cap z (ns @ [n]) (es @ [e]) (ps @ [p]) s"
  obtains s' where "evict_oldest c s = Inr s'" "rep c l m b cap (z - 1) ns es ps s'" "tick s' = tick s" "avail s' = avail s"
proof -
  have lp: "list_rep l (ns @ [n]) (nodes s)" "dom (nodes s) = insert l (insert n (set ns))" "insert l (insert n (set ns)) \<subseteq> {..<tick s}"
    "map (val_of (nodes s)) ns = map Some es" "val_of (nodes s) n = Some e"
    using r by (auto simp: rep_def lpart_def)
  have ep: "distinct es" "e \<notin> set es" "dom (cents s) = insert e (set es)" "insert e (set es) \<subseteq> {..<tick s}" "map (page_at s) es = ps" "page_at s e = p"
    using r by (auto simp: rep_def epart_def)
  have kp: "ckey (the (cents s e)) = fst p" using ep(6) by (auto simp: page_at_def)
  have C: "caches s = [c \<mapsto> \<lparr>recency = l, index = m, capacity = cap, csize = z\<rparr>]" using r by (simp add: rep_def)
  have len: "length ps = length ns" using rep_lengths [OF r] by simp
  have key: "fst p \<notin> fst ` set ps" "distinct (map fst ps)" using r by (auto simp: rep_def)
  have mp: "mpart m b (insert (fst p, n) (pairs ps ns)) s" using r len by (simp add: rep_def pairs_append)
  obtain s1 where s1: "hash_map_remove m (fst p) s = Inr (True, s1)" "mpart m b (insert (fst p, n) (pairs ps ns) - {(fst p, n)}) s1"
    "tick s1 = tick s" "other_parts s s1" using mpart_remove [OF mp] by blast
  have "(fst p, n) \<notin> pairs ps ns" using key(1) fst_pairs [OF len] by force
  then have mp1: "mpart m b (pairs ps ns) s1" using s1(2) by simp
  have o: "nodes s1 = nodes s" "cents s1 = cents s" "caches s1 = caches s" "avail s1 = avail s" using s1(4) by (auto simp: other_parts_def)
  obtain N where N: "list_remove l (Some n) s1 = Inr (s1\<lparr>nodes := N\<rparr>)" "list_rep l ns N" "dom N = dom (nodes s) - {n}"
    "\<forall>a. a \<noteq> n \<longrightarrow> val_of N a = val_of (nodes s) a"
    using list_remove_ok [of l ns n "[]" s1] lp(1) o(1) by (metis append_Nil2)
  have nl: "n \<noteq> l" "n \<notin> set ns" "l \<notin> set ns" using lp(1) by (auto simp: list_rep_def ring_def)
  let ?C = "[c \<mapsto> \<lparr>recency = l, index = m, capacity = cap, csize = z - 1\<rparr>]"
  let ?s = "s1\<lparr>nodes := N, cents := (cents s)(e := None), caches := ?C\<rparr>"
  have "evict_oldest c s = Inr ?s"
    using C lp ep(3) kp s1(1) o N(1) list_back_ok [OF lp(1)]
    by (simp add: evict_oldest_def list_value_ok deref_null_def deref_dom free_null_def c_free_dom set_csize_def)
  moreover have "map (val_of N) ns = map (val_of (nodes s)) ns" using N(4) nl(2) by (intro map_cong) auto
  then have "lpart l ns es ?s" unfolding lpart_def using N(2,3) lp(2-4) nl s1(3) by auto
  moreover have "epart es ps ?s"
  proof -
    have "map (page_at ?s) es = map (page_at s) es" using ep(2) by (auto simp: page_at_def)
    then show ?thesis using ep s1(3) by (auto simp: epart_def)
  qed
  ultimately show ?thesis using that [of ?s] mp1 key(2) s1(3) o by (simp add: rep_def)
qed

lemma lpart_upd [simp]: "lpart l ns es (s\<lparr>cents := E\<rparr>) = lpart l ns es s" "lpart l ns es (s\<lparr>caches := C\<rparr>) = lpart l ns es s"
  by (simp_all add: lpart_def)

lemma epart_upd [simp]: "epart es ps (s\<lparr>nodes := N\<rparr>) = epart es ps s" "epart es ps (s\<lparr>caches := C\<rparr>) = epart es ps s"
  by (simp_all add: epart_def page_at_def [abs_def])

lemma parts_tick: "lpart l ns es s \<Longrightarrow> tick s \<le> t \<Longrightarrow> lpart l ns es (s\<lparr>tick := t\<rparr>)"
  "epart es ps s \<Longrightarrow> tick s \<le> t \<Longrightarrow> epart es ps (s\<lparr>tick := t\<rparr>)"
  by (auto simp: lpart_def epart_def page_at_def [abs_def])

lemma parts_other:
  assumes "other_parts s s'" "tick s \<le> tick s'"
  shows "lpart l ns es s \<Longrightarrow> lpart l ns es s'" "epart es ps s \<Longrightarrow> epart es ps s'"
  using assms by (auto simp: other_parts_def lpart_def epart_def page_at_def [abs_def])

lemma rep_tick: "rep c l m b cap z ns es ps s \<Longrightarrow> tick s \<le> t \<Longrightarrow> rep c l m b cap z ns es ps (s\<lparr>tick := t\<rparr>)"
  using parts_tick mpart_tick by (simp add: rep_def)

lemma set_csize_ok:
  assumes "rep c l m b cap z ns es ps s"
  obtains s' where "set_csize c f s = Inr s'" "rep c l m b cap (f z) ns es ps s'" "tick s' = tick s" "avail s' = avail s" "cents s' = cents s"
proof -
  let ?s = "s\<lparr>caches := [c \<mapsto> \<lparr>recency = l, index = m, capacity = cap, csize = f z\<rparr>]\<rparr>"
  have "set_csize c f s = Inr ?s" using assms by (simp add: set_csize_def rep_def)
  then show ?thesis using that [of ?s] assms by (simp add: rep_def)
qed

section \<open>Insertion\<close>

lemma lpart_push:
  assumes "lpart l ns es s" "avail s (tick s)"
  obtains N where "list_push_front l (Some e) s = Inr (Some (tick s), s\<lparr>nodes := N, tick := Suc (tick s)\<rparr>)"
    "lpart l (tick s # ns) (e # es) (s\<lparr>nodes := N, tick := Suc (tick s)\<rparr>)"
proof -
  have l: "list_rep l ns (nodes s)" "dom (nodes s) = set (l # ns)" "set (l # ns) \<subseteq> {..<tick s}" "map (val_of (nodes s)) ns = map Some es"
    using assms(1) by (auto simp: lpart_def)
  have new: "tick s \<notin> set (l # ns)" using l(3) by auto
  then have "tick s \<notin> dom (nodes s)" using l(2) by simp
  then obtain N where N: "list_push_front l (Some e) s = Inr (Some (tick s), s\<lparr>nodes := N, tick := Suc (tick s)\<rparr>)"
    "list_rep l (tick s # ns) N" "dom N = insert (tick s) (dom (nodes s))" "val_of N = (val_of (nodes s))(tick s := Some e)"
    using list_push_front_ok [OF l(1) _ assms(2)] by blast
  have "map (val_of N) ns = map (val_of (nodes s)) ns" using N(4) new by (intro map_cong) auto
  then have "lpart l (tick s # ns) (e # es) (s\<lparr>nodes := N, tick := Suc (tick s)\<rparr>)"
    unfolding lpart_def using N(2-4) l(2-4) by auto
  then show ?thesis using that [OF N(1)] by simp
qed

lemma epart_new:
  assumes "epart es ps s" "tick s \<notin> set es"
  shows "epart (tick s # es) ((k, v) # ps) (s\<lparr>tick := Suc (tick s), cents := (cents s)(tick s \<mapsto> \<lparr>ckey = k, cvalue = v\<rparr>)\<rparr>)"
proof -
  let ?s = "s\<lparr>tick := Suc (tick s), cents := (cents s)(tick s \<mapsto> \<lparr>ckey = k, cvalue = v\<rparr>)\<rparr>"
  have "map (page_at ?s) es = map (page_at s) es" using assms(2) by (intro map_cong) (auto simp: page_at_def)
  moreover have "page_at ?s (tick s) = (k, v)" by (simp add: page_at_def)
  ultimately show ?thesis using assms by (auto simp: epart_def)
qed

text \<open>Replacing the payload's page.\<close>

lemma epart_page:
  assumes "epart (e # es) ((k, v) # ps) s"
  shows "epart (e # es) ((k, w) # ps) (s\<lparr>cents := (cents s)(e \<mapsto> (the (cents s e))\<lparr>cvalue := w\<rparr>)\<rparr>)"
proof -
  let ?s = "s\<lparr>cents := (cents s)(e \<mapsto> (the (cents s e))\<lparr>cvalue := w\<rparr>)\<rparr>"
  have "map (page_at ?s) es = map (page_at s) es" using assms by (intro map_cong) (auto simp: page_at_def epart_def)
  moreover have "page_at ?s e = (k, w)" using assms by (auto simp: page_at_def epart_def)
  ultimately show ?thesis using assms by (auto simp: epart_def)
qed

definition cache_mem :: "nat \<Rightarrow> nat \<Rightarrow> (int \<times> int) list \<Rightarrow> cmem \<Rightarrow> bool" where
  "cache_mem c cap ps s \<longleftrightarrow> length ps \<le> cap \<and> (\<exists>l m b ns es. rep c l m b cap (length ps) ns es ps s)"

text \<open>The end of \<^verbatim>\<open>insert_page\<close>: eviction of the oldest page when the cache was full.\<close>

lemma insert_page_end:
  assumes r: "rep c l m b cap (length ps) (n # ns) (e # es) ((k, v) # ps) s" and len: "length ps \<le> cap" "0 < cap"
  obtains s' where "bindE (if length ps = cap then evict_oldest c s else Inr s) (\<lambda>s. bindE (set_csize c Suc s)
      (\<lambda>s. bindE (deref (cents s) e) (\<lambda>E. Inr (LRU_MISS, Some (cvalue E), s)))) = Inr (LRU_MISS, Some v, s')"
    "cache_mem c cap (take cap ((k, v) # ps)) s'" "tick s' = tick s" "avail s' = avail s"
proof -
  obtain ns1 es1 s1 z where s1: "(if length ps = cap then evict_oldest c s else Inr s) = Inr s1"
    "rep c l m b cap z ns1 (e # es1) ((k, v) # take (cap - 1) ps) s1" "tick s1 = tick s" "avail s1 = avail s" "Suc z = Suc (length (take (cap - 1) ps))"
  proof (cases "length ps = cap")
    case True
    have lens: "length ns = cap" "length es = cap" using rep_lengths [OF r] True by auto
    then obtain ns1 n' es1 e' ps1 p' where sp: "ns = ns1 @ [n']" "es = es1 @ [e']" "ps = ps1 @ [p']"
      using len(2) True by (metis length_0_conv less_nat_zero_code rev_exhaust)
    then have "rep c l m b cap cap ((n # ns1) @ [n']) ((e # es1) @ [e']) (((k, v) # ps1) @ [p']) s" using r True by simp
    then obtain s' where "evict_oldest c s = Inr s'" "rep c l m b cap (cap - 1) (n # ns1) (e # es1) ((k, v) # ps1) s'" "tick s' = tick s" "avail s' = avail s"
      by (rule evict_oldest_ok)
    then show ?thesis using that [of s' "cap - 1" "n # ns1" es1] sp(3) True len(2) by simp
  next
    case False
    then have "take (cap - 1) ps = ps" using len(1) by simp
    then show ?thesis using that [of s "length ps" "n # ns" es] False r by simp
  qed
  obtain s' where s': "set_csize c Suc s1 = Inr s'" "rep c l m b cap (Suc z) ns1 (e # es1) ((k, v) # take (cap - 1) ps) s'"
    "tick s' = tick s1" "avail s' = avail s1" by (rule set_csize_ok [OF s1(2)])
  have "e \<in> dom (cents s')" "cvalue (the (cents s' e)) = v" using s'(2) by (auto simp: rep_def epart_def page_at_def)
  then have "bindE (deref (cents s') e) (\<lambda>E. Inr (LRU_MISS, Some (cvalue E), s')) = Inr (LRU_MISS, Some v, s')" by (simp add: deref_dom)
  moreover have "take cap ((k, v) # ps) = (k, v) # take (cap - 1) ps" "length ((k, v) # take (cap - 1) ps) = Suc z"
    "length ((k, v) # take (cap - 1) ps) \<le> cap" using s1(5) len by (auto simp: take_Cons')
  then have "cache_mem c cap (take cap ((k, v) # ps)) s'" unfolding cache_mem_def using s'(2) by metis
  ultimately show ?thesis using that [of s'] s1 s' by simp
qed

lemma insert_page_ok:
  assumes r: "rep c l m b cap (length ps) ns es ps s" and len: "length ps \<le> cap" "0 < cap" and k: "k \<notin> fst ` set ps"
  shows "\<exists>s'. tick s \<le> tick s' \<and> avail s' = avail s \<and>
    (if avail s (tick s) \<and> avail s (Suc (tick s)) \<and> avail s (Suc (Suc (tick s)))
     then insert_page c k get s = Inr (LRU_MISS, Some (get k), s') \<and> cache_mem c cap (take cap ((k, get k) # ps)) s'
     else insert_page c k get s = Inr (LRU_NO_MEMORY, None, s') \<and> cache_mem c cap ps s')"
proof -
  let ?t = "tick s"
  have C: "caches s = [c \<mapsto> \<lparr>recency = l, index = m, capacity = cap, csize = length ps\<rparr>]" and lp: "lpart l ns es s"
    and ep: "epart es ps s" and mp: "mpart m b (pairs ps ns) s" and d: "distinct (map fst ps)" using r by (auto simp: rep_def)
  have kp: "k \<notin> fst ` pairs ps ns" using k fst_pairs rep_lengths [OF r] by simp
  have new: "?t \<notin> set es" "?t \<notin> dom (cents s)" using ep by (auto simp: epart_def)
  have keep: "cache_mem c cap ps s'" if "rep c l m b cap (length ps) ns es ps s'" for s' unfolding cache_mem_def using that len(1) by metis
  let ?s1 = "s\<lparr>tick := Suc ?t, cents := (cents s)(?t \<mapsto> \<lparr>ckey = k, cvalue = 0\<rparr>)\<rparr>"
  have lp1: "lpart l ns es ?s1" using lp by (auto intro: parts_tick)
  have restore: "(cents s)(?t := None) = cents s" using new(2) by (auto simp: fun_eq_iff domIff)
  consider (a) "\<not> avail s ?t" | (b) "avail s ?t" "\<not> avail s (Suc ?t)" | (c) "avail s ?t" "avail s (Suc ?t)" by blast
  then show ?thesis
  proof cases
    case a
    then have "insert_page c k get s = Inr (LRU_NO_MEMORY, None, s\<lparr>tick := Suc ?t\<rparr>)" by (simp add: insert_page_def malloc_def)
    then show ?thesis using a keep [OF rep_tick [OF r, of "Suc ?t"]] by (intro exI [of _ "s\<lparr>tick := Suc ?t\<rparr>"]) simp
  next
    case b
    then have "insert_page c k get s = Inr (LRU_NO_MEMORY, None, s\<lparr>tick := Suc (Suc ?t)\<rparr>)"
      using C restore by (simp add: insert_page_def malloc_def Let_def list_push_front_fails)
    then show ?thesis using b keep [OF rep_tick [OF r, of "Suc (Suc ?t)"]] by (intro exI [of _ "s\<lparr>tick := Suc (Suc ?t)\<rparr>"]) simp
  next
    case c
    obtain N where N: "list_push_front l (Some ?t) ?s1 = Inr (Some (Suc ?t), ?s1\<lparr>nodes := N, tick := Suc (Suc ?t)\<rparr>)"
      "lpart l (Suc ?t # ns) (?t # es) (?s1\<lparr>nodes := N, tick := Suc (Suc ?t)\<rparr>)"
      using lpart_push [OF lp1, of ?t] c by auto
    let ?s2 = "?s1\<lparr>nodes := N, tick := Suc (Suc ?t)\<rparr>"
    have mp2: "mpart m b (pairs ps ns) ?s2" by (rule mpart_tick) (use mpart_tick [OF mp, of "Suc ?t"] in simp_all)
    have ep2: "epart (?t # es) ((k, 0) # ps) ?s2"
      by (rule parts_tick(2)) (use epart_new [OF ep new(1), of k 0] in simp_all)
    show ?thesis
    proof (cases "avail s (Suc (Suc ?t))")
      case False
      have "list_rep l ([] @ Suc ?t # ns) N" using N(2) by (simp add: lpart_def)
      then obtain N' where N': "list_remove l (Some (Suc ?t)) (?s2\<lparr>tick := Suc (Suc (Suc ?t))\<rparr>) = Inr (?s2\<lparr>tick := Suc (Suc (Suc ?t)), nodes := N'\<rparr>)"
        "list_rep l ns N'" "dom N' = dom N - {Suc ?t}" "\<forall>a. a \<noteq> Suc ?t \<longrightarrow> val_of N' a = val_of N a"
        using list_remove_ok [of l "[]" "Suc ?t" ns "?s2\<lparr>tick := Suc (Suc (Suc ?t))\<rparr>"] by auto
      let ?s = "s\<lparr>nodes := N', tick := Suc (Suc (Suc ?t))\<rparr>"
      have "hash_map_insert m k (Suc ?t) ?s2 = Inr (HASH_MAP_NO_MEMORY, ?s2\<lparr>tick := Suc (Suc (Suc ?t))\<rparr>)"
        using mpart_insert_fails [OF mp2 kp] False by simp
      then have "insert_page c k get s = Inr (LRU_NO_MEMORY, None, ?s)"
        using C restore c N(1) N'(1) by (simp add: insert_page_def malloc_def Let_def)
      moreover have "lpart l ns es ?s"
      proof -
        have "Suc ?t \<notin> set (l # ns)" using lp by (auto simp: lpart_def)
        moreover from this have "map (val_of N') ns = map (val_of N) ns" using N'(4) by (intro map_cong refl) (metis list.set_intros(2))
        ultimately show ?thesis unfolding lpart_def using N(2) [unfolded lpart_def] N'(2,3) by (auto simp del: map_eq_conv)
      qed
      then have "rep c l m b cap (length ps) ns es ps ?s"
        using C d parts_tick(2) [of es ps "s\<lparr>nodes := N'\<rparr>"] mpart_tick [of m b _ "s\<lparr>nodes := N'\<rparr>"] ep mp by (simp add: rep_def)
      ultimately show ?thesis using False keep by (intro exI [of _ ?s]) simp
    next
      case True
      obtain s3 where s3: "hash_map_insert m k (Suc ?t) ?s2 = Inr (HASH_MAP_INSERTED, s3)" "mpart m b (insert (k, Suc ?t) (pairs ps ns)) s3"
        "tick s3 = Suc (tick ?s2)" "other_parts ?s2 s3" using mpart_insert [OF mp2 kp, of "Suc ?t"] True by auto
      note o = parts_other [OF s3(4)]
      let ?s4 = "s3\<lparr>cents := (cents s3)(?t \<mapsto> (the (cents s3 ?t))\<lparr>cvalue := get k\<rparr>)\<rparr>"
      have e3: "epart (?t # es) ((k, 0) # ps) s3" using o(2) ep2 s3(3) by simp
      then have t3: "?t \<in> dom (cents s3)" by (auto simp: epart_def)
      have "epart (?t # es) ((k, get k) # ps) ?s4" by (rule epart_page [OF e3])
      moreover have "caches s3 = caches s" "avail s3 = avail s" using s3(4) by (simp_all add: other_parts_def)
      ultimately have "rep c l m b cap (length ps) (Suc ?t # ns) (?t # es) ((k, get k) # ps) ?s4"
        unfolding rep_def using C o(1) N(2) s3(2,3) k d by simp
      from insert_page_end [OF this len] obtain s' where s': "bindE (if length ps = cap then evict_oldest c ?s4 else Inr ?s4) (\<lambda>s. bindE (set_csize c Suc s)
          (\<lambda>s. bindE (deref (cents s) ?t) (\<lambda>E. Inr (LRU_MISS, Some (cvalue E), s)))) = Inr (LRU_MISS, Some (get k), s')"
        "cache_mem c cap (take cap ((k, get k) # ps)) s'" "tick s' = tick ?s4" "avail s' = avail ?s4" by blast
      have "insert_page c k get s = Inr (LRU_MISS, Some (get k), s')"
        using C c N(1) s3(1) t3 s'(1) by (simp add: insert_page_def malloc_def Let_def deref_dom)
      then show ?thesis using c True s'(2-4) s3(3) \<open>avail s3 = avail s\<close> by (intro exI [of _ s']) simp
    qed
  qed
qed

section \<open>Lookup\<close>

lemma c_lookup_hit:
  assumes r: "rep c l m b cap z ns es (xs @ (k, v) # ys) s" and cap: "0 < cap"
  obtains s' ns' es' where "c_lookup_update (Some c) k (Some get) True s = Inr (LRU_HIT, Some v, s')"
    "rep c l m b cap z ns' es' ((k, v) # xs @ ys) s'" "tick s' = tick s" "avail s' = avail s"
proof -
  have len: "length ns = length (xs @ (k, v) # ys)" "length es = length (xs @ (k, v) # ys)" using rep_lengths [OF r] by auto
  obtain n1 n n2 where ns: "ns = n1 @ n # n2" "length n1 = length xs"
    using len(1) id_take_nth_drop [of "length xs" ns] by force
  obtain e1 e e2 where es: "es = e1 @ e # e2" "length e1 = length xs"
    using len(2) id_take_nth_drop [of "length xs" es] by force
  have C: "caches s = [c \<mapsto> \<lparr>recency = l, index = m, capacity = cap, csize = z\<rparr>]" and mp: "mpart m b (pairs (xs @ (k, v) # ys) ns) s"
    and d: "distinct (map fst (xs @ (k, v) # ys))" using r by (auto simp: rep_def)
  have pr: "pairs (xs @ (k, v) # ys) ns = pairs ((k, v) # xs @ ys) (n # n1 @ n2)" using ns len by (auto simp: pairs_def)
  have find: "hash_map_find m k s = Inr (Some n)" using mpart_find_hit [OF mp] pr by simp
  have lp: "list_rep l (n1 @ n # n2) (nodes s)" "dom (nodes s) = set (l # ns)" "set (l # ns) \<subseteq> {..<tick s}" "map (val_of (nodes s)) ns = map Some es"
    using r ns by (auto simp: rep_def lpart_def)
  obtain N where N: "list_move_front l n s = Inr (s\<lparr>nodes := N\<rparr>)" "list_rep l (n # n1 @ n2) N" "dom N = dom (nodes s)" "val_of N = val_of (nodes s)"
    using list_move_front_ok [OF lp(1)] by blast
  have vals: "map (val_of (nodes s)) n1 = map Some e1" "val_of (nodes s) n = Some e" "map (val_of (nodes s)) n2 = map Some e2"
    using lp(4) unfolding ns(1) es(1) using ns(2) es(2) by auto
  have ep: "distinct es" "dom (cents s) = set es" "set es \<subseteq> {..<tick s}" "map (page_at s) es = xs @ (k, v) # ys"
    using r by (auto simp: rep_def epart_def)
  then have pages: "map (page_at s) e1 = xs" "page_at s e = (k, v)" "map (page_at s) e2 = ys" using es by auto
  let ?s = "s\<lparr>nodes := N\<rparr>"
  have "e \<in> dom (cents s)" "n \<in> dom N" "cvalue (the (cents s e)) = v" using ep(2) es(1) N(3) lp(2) ns(1) pages(2) by (auto simp: page_at_def)
  then have "c_lookup_update (Some c) k (Some get) True s = Inr (LRU_HIT, Some v, ?s)"
    using C cap find N(1,4) vals(2) by (simp add: c_lookup_update_def list_value_ok deref_null_def deref_dom)
  moreover have "lpart l (n # n1 @ n2) (e # e1 @ e2) ?s"
    unfolding lpart_def using N vals lp(2,3) ns(1) by auto
  moreover have "epart (e # e1 @ e2) ((k, v) # xs @ ys) s"
    unfolding epart_def using ep(1-3) pages es(1) by auto
  moreover have "distinct (map fst ((k, v) # xs @ ys))" using d by auto
  ultimately show ?thesis using that [of ?s "n # n1 @ n2" "e # e1 @ e2"] C mp pr by (simp add: rep_def)
qed

text \<open>A request on the abstract contents: keys and pages, most recently used first.\<close>

fun serve :: "nat \<Rightarrow> (int \<Rightarrow> int) \<Rightarrow> int \<Rightarrow> (int \<times> int) list \<Rightarrow> (int \<times> int) list" where
  "serve cap get k ps =
     (case map_of ps k of
        Some v \<Rightarrow> (k, v) # filter (\<lambda>p. fst p \<noteq> k) ps
      | None \<Rightarrow> take cap ((k, get k) # ps))"

declare serve.simps [simp del]

lemma serve_hit: "distinct (map fst (xs @ (k, v) # ys)) \<Longrightarrow> serve cap get k (xs @ (k, v) # ys) = (k, v) # xs @ ys"
proof -
  assume d: "distinct (map fst (xs @ (k, v) # ys))"
  then have "filter (\<lambda>p. fst p \<noteq> k) xs = xs" "filter (\<lambda>p. fst p \<noteq> k) ys = ys" by (auto simp: filter_id_conv)
  moreover have "map_of (xs @ (k, v) # ys) k = Some v" using d by (intro map_of_is_SomeI) auto
  ultimately show ?thesis by (simp add: serve.simps)
qed

lemma serve_miss: "k \<notin> fst ` set ps \<Longrightarrow> serve cap get k ps = take cap ((k, get k) # ps)"
  by (simp add: serve.simps map_of_eq_None_iff [THEN iffD2])

lemma cache_memI: "rep c l m b cap (length ps) ns es ps s \<Longrightarrow> length ps \<le> cap \<Longrightarrow> cache_mem c cap ps s"
  unfolding cache_mem_def by metis

lemma cache_memE:
  assumes "cache_mem c cap ps s"
  obtains l m b ns es where "rep c l m b cap (length ps) ns es ps s" "length ps \<le> cap"
  using assms unfolding cache_mem_def by metis

text \<open>A lookup, whatever allocations succeed.\<close>

lemma c_lookup_ok:
  assumes mem: "cache_mem c cap ps s"
  shows "\<exists>r v s'. c_lookup_update (Some c) k (Some get) True s = Inr (r, v, s') \<and> tick s \<le> tick s' \<and> avail s' = avail s \<and>
    (r = LRU_HIT \<and> (\<exists>p. v = Some p \<and> (k, p) \<in> set ps) \<and> cache_mem c cap (serve cap get k ps) s' \<or>
     r = LRU_MISS \<and> k \<notin> fst ` set ps \<and> v = Some (get k) \<and> cache_mem c cap (serve cap get k ps) s' \<or>
     r = LRU_NO_MEMORY \<and> k \<notin> fst ` set ps \<and> v = None \<and> cache_mem c cap ps s' \<and>
       (\<exists>i \<in> {tick s, Suc (tick s), Suc (Suc (tick s))}. \<not> avail s i))"
proof -
  obtain l m b ns es where r: "rep c l m b cap (length ps) ns es ps s" and len: "length ps \<le> cap" using cache_memE [OF mem] .
  have C: "caches s = [c \<mapsto> \<lparr>recency = l, index = m, capacity = cap, csize = length ps\<rparr>]" and mp: "mpart m b (pairs ps ns) s"
    and d: "distinct (map fst ps)" using r by (auto simp: rep_def)
  show ?thesis
  proof (cases "k \<in> fst ` set ps")
    case True
    then obtain v where "(k, v) \<in> set ps" by force
    then obtain xs ys where ps: "ps = xs @ (k, v) # ys" by (auto dest: split_list)
    have cap: "0 < cap" using len ps by auto
    obtain s' ns' es' where s': "c_lookup_update (Some c) k (Some get) True s = Inr (LRU_HIT, Some v, s')"
      "rep c l m b cap (length ps) ns' es' ((k, v) # xs @ ys) s'" "tick s' = tick s" "avail s' = avail s"
      using c_lookup_hit [OF r [unfolded ps] cap, of get] unfolding ps by blast
    have "cache_mem c cap (serve cap get k ps) s'"
      unfolding ps serve_hit [OF d [unfolded ps]] using s'(2) len ps by (intro cache_memI) simp_all
    then show ?thesis using s' \<open>(k, v) \<in> set ps\<close> by auto
  next
    case False
    show ?thesis
    proof (cases "cap = 0")
      case True
      then have "c_lookup_update (Some c) k (Some get) True s = Inr (LRU_MISS, Some (get k), s)" using C by (simp add: c_lookup_update_def)
      then show ?thesis using False True len mem by (auto simp: serve_miss)
    next
      case pos: False
      have "hash_map_find m k s = Inr None" using mpart_find_miss [OF mp] False fst_pairs rep_lengths [OF r] by simp
      then have "c_lookup_update (Some c) k (Some get) True s = insert_page c k get s" using C pos by (simp add: c_lookup_update_def)
      then show ?thesis using insert_page_ok [OF r len _ False, of get] pos False
        by (auto simp: serve_miss split: if_splits)
    qed
  qed
qed

end
