(* ===== verification/Lru_C_Main.thy ===== *)
theory Lru_C_Main
  imports Lru_C_Cache
begin

text \<open>
  The C cache from creation to destruction: it implements the interface of an LRU cache as long as memory is available,
  it reports every failed allocation and keeps its contents then, and nothing is left of it in the memory
  after its destruction. The driver program on top of it.
\<close>

section \<open>Destruction\<close>

definition empty_mem :: "cmem \<Rightarrow> bool" where
  "empty_mem s \<longleftrightarrow> nodes s = (\<lambda>_. None) \<and> hents s = (\<lambda>_. None) \<and> arrays s = (\<lambda>_. None) \<and> hmaps s = (\<lambda>_. None) \<and>
     cents s = (\<lambda>_. None) \<and> caches s = (\<lambda>_. None)"

lemma lru_clear_ok:
  "rep c l m b cap z ns es ps s \<Longrightarrow> length ps < fuel \<Longrightarrow>
   \<exists>s' z'. lru_clear fuel c s = Inr s' \<and> rep c l m b cap z' [] [] [] s' \<and> tick s' = tick s \<and> avail s' = avail s"
proof (induction ps arbitrary: ns es z s fuel rule: rev_induct)
  case Nil
  then obtain f where f: "fuel = Suc f" by (cases fuel) auto
  have "ns = []" "es = []" using rep_lengths [OF Nil(1)] by auto
  moreover have "list_empty l s = Inr (ns = [])" using Nil(1) list_empty_ok by (auto simp: rep_def lpart_def)
  ultimately show ?case using f Nil(1) by (auto simp: rep_def)
next
  case (snoc p ps)
  then obtain f where f: "fuel = Suc f" "length ps < f" by (cases fuel) auto
  have len: "length ns = Suc (length ps)" "length es = Suc (length ps)" using rep_lengths [OF snoc.prems(1)] by auto
  then obtain ns1 n es1 e where sp: "ns = ns1 @ [n]" "es = es1 @ [e]" by (metis length_Suc_conv_rev)
  obtain s1 where s1: "evict_oldest c s = Inr s1" "rep c l m b cap (z - 1) ns1 es1 ps s1" "tick s1 = tick s" "avail s1 = avail s"
    using evict_oldest_ok [of c l m b cap z ns1 n es1 e ps p s] snoc.prems(1) sp by metis
  have "list_empty l s = Inr (ns = [])" using snoc.prems(1) list_empty_ok by (auto simp: rep_def lpart_def)
  moreover have "caches s c = Some \<lparr>recency = l, index = m, capacity = cap, csize = z\<rparr>" using snoc.prems(1) by (simp add: rep_def)
  ultimately have "lru_clear fuel c s = lru_clear f c s1" using f(1) sp s1(1) by simp
  then show ?case using snoc.IH [OF s1(2) f(2)] s1(3,4) by simp
qed

lemma lru_destroy_ok:
  assumes "cache_mem c cap ps s"
  obtains s' where "lru_destroy (Some c) s = Inr s'" "empty_mem s'" "avail s' = avail s"
proof -
  obtain l m b ns es where r: "rep c l m b cap (length ps) ns es ps s" using cache_memE [OF assms] .
  have "set es \<subseteq> {..<tick s}" "distinct es" using r by (auto simp: rep_def epart_def)
  then have "length ps \<le> tick s" using rep_lengths [OF r] card_mono [of "{..<tick s}" "set es"] by (simp add: distinct_card)
  then obtain s1 z where s1: "lru_clear (Suc (tick s)) c s = Inr s1" "rep c l m b cap z [] [] [] s1" "tick s1 = tick s" "avail s1 = avail s"
    using lru_clear_ok [OF r, of "Suc (tick s)"] by auto
  have C: "caches s1 = [c \<mapsto> \<lparr>recency = l, index = m, capacity = cap, csize = z\<rparr>]" and mp: "mpart m b (pairs [] []) s1"
    using s1(2) by (auto simp: rep_def)
  have "list_rep l [] (nodes s1)" "dom (nodes s1) = set [l]" using s1(2) by (auto simp: rep_def lpart_def)
  then have 1: "list_destroy (Some l) s1 = Inr (s1\<lparr>nodes := (\<lambda>_. None)\<rparr>)" by (intro list_destroy_ok [where ns = "[]"]) auto
  let ?s2 = "s1\<lparr>nodes := (\<lambda>_. None)\<rparr>"
  have 2: "hash_map_destroy (Some m) ?s2 = Inr (?s2\<lparr>hents := (\<lambda>_. None), arrays := (\<lambda>_. None), hmaps := (\<lambda>_. None)\<rparr>)"
    by (rule mpart_destroy [where P = "pairs [] []" and b = b]) (use mp in simp)
  have "cents s1 = (\<lambda>_. None)" using s1(2) by (auto simp: rep_def epart_def)
  moreover have "[c \<mapsto> \<lparr>recency = l, index = m, capacity = cap, csize = z\<rparr>](c := None) = (\<lambda>_. None)" by (simp add: fun_eq_iff)
  ultimately show ?thesis
    using that [of "?s2\<lparr>hents := (\<lambda>_. None), arrays := (\<lambda>_. None), hmaps := (\<lambda>_. None), caches := (\<lambda>_. None)\<rparr>"] s1 C 1 2
    by (simp add: lru_destroy_def empty_mem_def del: lru_clear.simps)
qed

section \<open>Creation\<close>

definition map_none :: "cmem \<Rightarrow> bool" where
  "map_none s \<longleftrightarrow> hents s = (\<lambda>_. None) \<and> arrays s = (\<lambda>_. None) \<and> hmaps s = (\<lambda>_. None)"

definition fits :: "nat \<Rightarrow> bool" where
  "fits n \<longleftrightarrow> n \<le> (2 ^ 64 - 1) div 8"

lemma hash_map_create_ok:
  assumes "map_none s" "0 < n"
  obtains r s' where "hash_map_create n s = Inr (r, s')" "other_parts s s'" "tick s \<le> tick s'"
    "r \<noteq> None \<longleftrightarrow> fits n \<and> avail s (tick s) \<and> avail s (Suc (tick s))"
    "case r of None \<Rightarrow> map_none s' | Some m \<Rightarrow> \<exists>b. mpart m b {} s'"
proof -
  let ?t = "tick s"
  have e: "hents s = (\<lambda>_. None)" "arrays s = (\<lambda>_. None)" "hmaps s = (\<lambda>_. None)" using assms(1) by (auto simp: map_none_def)
  consider (a) "\<not> fits n" | (b) "fits n" "\<not> avail s ?t" | (c) "fits n" "avail s ?t" "\<not> avail s (Suc ?t)"
    | (d) "fits n" "avail s ?t" "avail s (Suc ?t)" by blast
  then show ?thesis
  proof cases
    case a
    then show ?thesis using that [of None s] assms by (simp add: hash_map_create_def fits_def other_parts_def)
  next
    case b
    then show ?thesis using that [of None "s\<lparr>tick := Suc ?t\<rparr>"] assms
      by (simp add: hash_map_create_def fits_def malloc_def other_parts_def map_none_def)
  next
    case c
    have "([?t \<mapsto> \<lparr>buckets = 0, bucket_count = 0\<rparr>](?t := None)) = (\<lambda>_. None)" by (simp add: fun_eq_iff)
    then show ?thesis using that [of None "s\<lparr>tick := Suc (Suc ?t), hmaps := (\<lambda>_. None)\<rparr>"] c assms e
      by (simp add: hash_map_create_def fits_def malloc_def other_parts_def map_none_def Let_def)
  next
    case d
    let ?s = "s\<lparr>tick := Suc (Suc ?t), arrays := [Suc ?t \<mapsto> replicate n None], hmaps := [?t \<mapsto> \<lparr>buckets = Suc ?t, bucket_count = n\<rparr>]\<rparr>"
    have "hash_map_create n s = Inr (Some ?t, ?s)"
      using d assms e by (simp add: hash_map_create_def fits_def malloc_def Let_def)
    moreover have "map_rep ?t (Suc ?t) (replicate n None) (replicate n []) ?s"
      unfolding map_rep_def using assms(2) table_replicate by simp
    then have "mpart ?t (Suc ?t) {} ?s"
      unfolding mpart_def using e by (intro exI [of _ "replicate n None"] exI [of _ "replicate n []"]) simp
    ultimately show ?thesis using that [of "Some ?t" ?s] d by (auto simp: other_parts_def)
  qed
qed

lemma lru_create_ok:
  assumes "empty_mem s"
  obtains r s' where "lru_create cap s = Inr (r, s')" "avail s' = avail s"
    "r \<noteq> None \<longleftrightarrow> fits (max cap 1) \<and> (\<forall>i < 4. avail s (tick s + i))"
    "case r of None \<Rightarrow> empty_mem s' | Some c \<Rightarrow> cache_mem c cap [] s'"
proof (cases "avail s (tick s)")
  case False
  have "\<not> (\<forall>i < 4. avail s (tick s + i))" using False by (auto intro!: exI [of _ 0])
  then show ?thesis using that [of None "s\<lparr>tick := Suc (tick s)\<rparr>"] False assms
    by (simp add: lru_create_def malloc_def empty_mem_def)
next
  case c: True
  let ?t = "tick s" and ?n = "max cap 1"
  have n: "(if cap \<noteq> 0 then cap else 1) = ?n" "0 < ?n" by auto
  have four: "(\<forall>i < 4. avail s (?t + i)) \<longleftrightarrow> avail s ?t \<and> avail s (Suc ?t) \<and> avail s (Suc (Suc ?t)) \<and> avail s (Suc (Suc (Suc ?t)))"
    by (auto simp: eval_nat_numeral less_Suc_eq)
  let ?s1 = "s\<lparr>tick := Suc ?t, caches := [?t \<mapsto> \<lparr>recency = 0, index = 0, capacity = 0, csize = 0\<rparr>]\<rparr>"
  let ?N = "[Suc ?t \<mapsto> \<lparr>nprev = Suc ?t, nnext = Suc ?t, nvalue = None\<rparr>]"
  let ?l = "if avail s (Suc ?t) then Some (Suc ?t) else None"
  let ?s2 = "?s1\<lparr>tick := Suc (Suc ?t), nodes := (if avail s (Suc ?t) then ?N else (\<lambda>_. None))\<rparr>"
  have lc: "list_create ?s1 = (?l, ?s2)" using assms by (simp add: list_create_def malloc_def empty_mem_def)
  have "map_none ?s2" using assms by (simp add: map_none_def empty_mem_def)
  from hash_map_create_ok [OF this n(2)] obtain r s3 where s3: "hash_map_create ?n ?s2 = Inr (r, s3)" "other_parts ?s2 s3" "tick ?s2 \<le> tick s3"
    "r \<noteq> None \<longleftrightarrow> fits ?n \<and> avail s (Suc (Suc ?t)) \<and> avail s (Suc (Suc (Suc ?t)))"
    "case r of None \<Rightarrow> map_none s3 | Some m \<Rightarrow> \<exists>b. mpart m b {} s3" by auto
  have o: "nodes s3 = (if avail s (Suc ?t) then ?N else (\<lambda>_. None))" "cents s3 = (\<lambda>_. None)"
    "caches s3 = [?t \<mapsto> \<lparr>recency = 0, index = 0, capacity = 0, csize = 0\<rparr>]" "avail s3 = avail s"
    using s3(2) assms by (auto simp: other_parts_def empty_mem_def)
  have ring: "list_rep (Suc ?t) [] ?N" by (simp add: list_rep_def ring_def nxt_of_def prv_of_def)
  have gone: "([?t \<mapsto> \<lparr>recency = 0, index = 0, capacity = 0, csize = 0\<rparr>](?t := None)) = (\<lambda>_. None)" by (simp add: fun_eq_iff)
  have cr: "lru_create cap s = (case (?l, r) of (Some l, Some m) \<Rightarrow>
      Inr (Some ?t, s3\<lparr>caches := (caches s3)(?t \<mapsto> \<lparr>recency = l, index = m, capacity = cap, csize = 0\<rparr>)\<rparr>)
    | _ \<Rightarrow> bindE (list_destroy ?l s3) (\<lambda>s. bindE (hash_map_destroy r s) (\<lambda>s. bindE (c_free (caches s) ?t) (\<lambda>H. Inr (None, s\<lparr>caches := H\<rparr>)))))"
    unfolding lru_create_def n(1) using c s3(1) lc assms by (simp add: malloc_def Let_def empty_mem_def split: option.split)
  have ld: "list_destroy ?l s3 = Inr (s3\<lparr>nodes := (\<lambda>_. None)\<rparr>)"
  proof (cases "avail s (Suc ?t)")
    case True
    then show ?thesis using list_destroy_ok [of "Suc ?t" "[]" s3] ring o(1) by simp
  next
    case False
    then have "s3\<lparr>nodes := (\<lambda>_. None)\<rparr> = s3" using o(1) by (simp add: cmem.equality)
    then show ?thesis using False by (simp add: list_destroy_def)
  qed
  show ?thesis
  proof (cases "avail s (Suc ?t) \<and> r \<noteq> None")
    case True
    then obtain m b where m: "r = Some m" "mpart m b {} s3" using s3(5) by auto
    let ?s = "s3\<lparr>caches := [?t \<mapsto> \<lparr>recency = Suc ?t, index = m, capacity = cap, csize = 0\<rparr>]\<rparr>"
    have "lpart (Suc ?t) [] [] s3" using True o(1) ring s3(3) by (simp add: lpart_def)
    moreover have "epart [] [] s3" using o(2) by (simp add: epart_def)
    ultimately have "rep ?t (Suc ?t) m b cap 0 [] [] [] ?s" using m(2) by (simp add: rep_def pairs_def)
    then have "cache_mem ?t cap [] ?s" by (intro cache_memI) simp_all
    then show ?thesis using that [of "Some ?t" ?s] cr True m(1) o(3,4) s3(4) four c by simp
  next
    case False
    let ?s = "s3\<lparr>nodes := (\<lambda>_. None), hents := (\<lambda>_. None), arrays := (\<lambda>_. None), hmaps := (\<lambda>_. None), caches := (\<lambda>_. None)\<rparr>"
    have md: "hash_map_destroy r (s3\<lparr>nodes := (\<lambda>_. None)\<rparr>) = Inr (s3\<lparr>nodes := (\<lambda>_. None), hents := (\<lambda>_. None), arrays := (\<lambda>_. None), hmaps := (\<lambda>_. None)\<rparr>)"
    proof (cases r)
      case None
      then have "s3\<lparr>nodes := (\<lambda>_. None), hents := (\<lambda>_. None), arrays := (\<lambda>_. None), hmaps := (\<lambda>_. None)\<rparr> = s3\<lparr>nodes := (\<lambda>_. None)\<rparr>"
        using s3(5) by (simp add: map_none_def cmem.equality)
      then show ?thesis using None by (simp add: hash_map_destroy_def)
    next
      case (Some m)
      then obtain b where "mpart m b {} (s3\<lparr>nodes := (\<lambda>_. None)\<rparr>)" using s3(5) by auto
      then show ?thesis using Some mpart_destroy by simp
    qed
    have "lru_create cap s = bindE (list_destroy ?l s3) (\<lambda>s. bindE (hash_map_destroy r s) (\<lambda>s. bindE (c_free (caches s) ?t) (\<lambda>H. Inr (None, s\<lparr>caches := H\<rparr>))))"
      unfolding cr using False by (auto split: option.split)
    then have "lru_create cap s = Inr (None, ?s)" unfolding ld using md o(3) gone by simp
    then show ?thesis using that [of None ?s] False four s3(4) o by (auto simp: empty_mem_def)
  qed
qed

section \<open>The interface\<close>

text \<open>The contents of a cache, read from its memory.\<close>

fun walk :: "nat \<Rightarrow> nheap \<Rightarrow> nat \<Rightarrow> nat \<Rightarrow> nat list" where
  "walk 0 N l a = []"
| "walk (Suc fuel) N l a = (if a = l then [] else a # walk fuel N l (nxt_of N a))"

definition contents :: "nat \<Rightarrow> cmem \<Rightarrow> (int \<times> int) list" where
  "contents c s =
     (let l = recency (the (caches s c)) in
      map (\<lambda>n. page_at s (the (val_of (nodes s) n))) (walk (tick s) (nodes s) l (nxt_of (nodes s) l)))"

definition c_capacity :: "nat \<Rightarrow> cmem \<Rightarrow> nat" where
  "c_capacity c s = capacity (the (caches s c))"

lemma walk_path:
  "path (nxt_of N) a ns l \<Longrightarrow> l \<notin> set ns \<Longrightarrow> length ns \<le> fuel \<Longrightarrow> walk fuel N l (nxt_of N a) = ns"
proof (induction ns arbitrary: a fuel)
  case Nil
  then show ?case by (cases fuel) auto
next
  case (Cons n ns)
  then obtain f where "fuel = Suc f" by (cases fuel) auto
  then show ?case using Cons by simp
qed

lemma contents_eq:
  assumes "cache_mem c cap ps s"
  shows "contents c s = ps" "c_capacity c s = cap" "length ps \<le> cap" "distinct (map fst ps)"
proof -
  obtain l m b ns es where r: "rep c l m b cap (length ps) ns es ps s" "length ps \<le> cap" using cache_memE [OF assms] .
  then have C: "caches s = [c \<mapsto> \<lparr>recency = l, index = m, capacity = cap, csize = length ps\<rparr>]"
    and lp: "list_rep l ns (nodes s)" "set (l # ns) \<subseteq> {..<tick s}" "map (val_of (nodes s)) ns = map Some es"
    and ep: "map (page_at s) es = ps" and d: "distinct (map fst ps)" by (auto simp: rep_def lpart_def epart_def)
  have ring: "distinct (l # ns)" "path (nxt_of (nodes s)) l ns l" using lp(1) by (auto simp: list_rep_def ring_def)
  have "card (set ns) \<le> card {..<tick s}" using lp(2) by (intro card_mono) auto
  then have "walk (tick s) (nodes s) l (nxt_of (nodes s) l) = ns" using ring by (intro walk_path) (auto simp: distinct_card)
  moreover have "map (\<lambda>n. page_at s (the (val_of (nodes s) n))) ns = map (page_at s) (map the (map (val_of (nodes s)) ns))" by simp
  ultimately show "contents c s = ps" unfolding contents_def Let_def using C lp(3) ep by (simp add: comp_def)
  show "c_capacity c s = cap" "length ps \<le> cap" "distinct (map fst ps)" using C r(2) d by (auto simp: c_capacity_def)
qed

lemma map_fst_serve:
  assumes "distinct (map fst ps)" "length ps \<le> cap"
  shows "map fst (serve cap get k ps) = take cap (touch k (map fst ps))"
proof (cases "k \<in> fst ` set ps")
  case True
  then obtain v where "(k, v) \<in> set ps" by force
  then obtain xs ys where ps: "ps = xs @ (k, v) # ys" by (auto dest: split_list)
  have "remove1 k (map fst ps) = map fst (xs @ ys)" using assms(1) unfolding ps by (auto simp: remove1_append remove1_idem)
  then show ?thesis using assms serve_hit [of xs k v ys] ps by (simp add: touch_def)
next
  case False
  then show ?thesis by (simp add: serve_miss touch_def remove1_idem take_map [symmetric])
qed

text \<open>A lookup that is not refused.\<close>

definition c_lookup :: "(int \<Rightarrow> int) \<Rightarrow> int \<Rightarrow> nat \<times> cmem \<Rightarrow> (bool \<times> nat \<times> cmem) res" where
  "c_lookup get k = (\<lambda>(c, s). bindE (c_lookup_update (Some c) k (Some get) True s) (\<lambda>(r, v, s).
     if r = LRU_HIT \<or> r = LRU_MISS then Inr (r = LRU_HIT, (c, s)) else Inl Bad_alloc))"

definition c_inv :: "nat \<times> cmem \<Rightarrow> bool" where
  "c_inv = (\<lambda>(c, s). cache_mem c (c_capacity c s) (contents c s) s \<and> (\<forall>i. avail s i))"

lemma c_invI: "cache_mem c cap ps s \<Longrightarrow> \<forall>i. avail s i \<Longrightarrow> c_inv (c, s)"
  using contents_eq [of c cap ps s] by (simp add: c_inv_def)

interpretation clru: lru_cache c_inv "\<lambda>(c, s). map fst (contents c s)" "\<lambda>(c, s). c_capacity c s" "c_lookup get" for get
proof (unfold_locales, goal_cases)
  case (1 x k)
  obtain c s where x: "x = (c, s)" by (cases x)
  let ?ps = "contents c s" and ?cap = "c_capacity c s"
  have mem: "cache_mem c ?cap ?ps s" and av: "\<forall>i. avail s i" using 1 x by (auto simp: c_inv_def)
  have hit: "k \<in> fst ` set ?ps" if "(k, p) \<in> set ?ps" for p using that by force
  obtain r v s' where s': "c_lookup_update (Some c) k (Some get) True s = Inr (r, v, s')" "avail s' = avail s"
    "cache_mem c ?cap (serve ?cap get k ?ps) s'" "r = LRU_HIT \<and> k \<in> fst ` set ?ps \<or> r = LRU_MISS \<and> k \<notin> fst ` set ?ps"
    using c_lookup_ok [OF mem, of k get] av hit by (elim exE conjE disjE) auto
  have "c_lookup get k (c, s) = Inr (k \<in> set (map fst ?ps), (c, s'))" using s'(1,4) by (auto simp: c_lookup_def)
  moreover have "c_inv (c, s')" using s'(2,3) av by (intro c_invI) auto
  moreover have "c_capacity c s' = ?cap" "contents c s' = serve ?cap get k ?ps" using contents_eq [OF s'(3)] by auto
  ultimately show ?case using x map_fst_serve [of ?ps ?cap get k] contents_eq(3,4) [OF mem] by auto
qed

section \<open>The driver\<close>

lemma c_fail_ok:
  assumes "case c of None \<Rightarrow> empty_mem s | Some c \<Rightarrow> \<exists>cap ps. cache_mem c cap ps s"
  shows "\<exists>s'. c_fail c msg s = Inr (\<lparr>code = 1, out = [], err = msg @ endl\<rparr>, s') \<and> empty_mem s'"
proof (cases c)
  case None
  then show ?thesis using assms by (simp add: c_fail_def lru_destroy_def)
next
  case (Some a)
  then obtain cap ps where "cache_mem a cap ps s" using assms by auto
  then show ?thesis using Some lru_destroy_ok by (metis bindE_Inr c_fail_def)
qed

text \<open>How the program can end.\<close>

definition proper_end :: "outcome \<Rightarrow> bool" where
  "proper_end r \<longleftrightarrow> code r = 0 \<and> err r = [] \<or> code r = 1 \<and> out r = [] \<and> err r \<noteq> []"

lemma c_fail_end:
  assumes "case c of None \<Rightarrow> empty_mem s | Some c \<Rightarrow> \<exists>cap ps. cache_mem c cap ps s"
  shows "\<exists>r s'. c_fail c msg s = Inr (r, s') \<and> proper_end r \<and> empty_mem s'"
  using c_fail_ok [OF assms, of msg] by (auto simp: proper_end_def endl_def)

lemma c_fail_cache: "cache_mem c cap ps s \<Longrightarrow> \<exists>r s'. c_fail (Some c) msg s = Inr (r, s') \<and> proper_end r \<and> empty_mem s'"
  by (rule c_fail_end) (simp, metis)

lemma c_main_loop_total:
  "cache_mem c cap ps s \<Longrightarrow> \<exists>r s'. c_main_loop n i c h inp s = Inr (r, s') \<and> proper_end r \<and> empty_mem s'"
proof (induction n arbitrary: i h inp ps s)
  case 0
  then obtain s' where "lru_destroy (Some c) s = Inr s'" "empty_mem s'" using lru_destroy_ok by blast
  then show ?case by (simp add: proper_end_def)
next
  case (Suc n)
  show ?case
  proof (cases "c_read_integer inp")
    case None
    then show ?thesis using c_fail_cache [OF Suc.prems] by simp
  next
    case (Some ki)
    obtain key rest where ki: "ki = (key, rest)" by (cases ki)
    obtain r v s1 ps1 where s1: "c_lookup_update (Some c) key (Some page_loader) True s = Inr (r, v, s1)" "cache_mem c cap ps1 s1"
      using c_lookup_ok [OF Suc.prems, of key page_loader] by (elim exE conjE disjE) auto
    show ?thesis
    proof (cases "r \<noteq> LRU_HIT \<and> r \<noteq> LRU_MISS")
      case True
      then show ?thesis using c_fail_cache [OF s1(2)] Some ki s1(1) by simp
    next
      case False
      then show ?thesis using Suc.IH [OF s1(2)] Some ki s1(1) by auto
    qed
  qed
qed

lemma c_main_total:
  assumes "empty_mem s"
  shows "\<exists>r s'. c_main inp s = Inr (r, s') \<and> proper_end r \<and> empty_mem s'"
proof -
  have bad: "\<exists>r s'. c_fail None msg s = Inr (r, s') \<and> proper_end r \<and> empty_mem s'" if "empty_mem s" for msg s
    using c_fail_end [of s None msg] that by simp
  have run: "\<exists>r s'. bindE (lru_create n s) (\<lambda>(c, s). case c of None \<Rightarrow> c_fail None msg s | Some c \<Rightarrow> c_main_loop cnt 0 c 0 inp s) = Inr (r, s') \<and>
      proper_end r \<and> empty_mem s'" for n cnt inp msg
  proof -
    obtain r s1 where s1: "lru_create n s = Inr (r, s1)" "case r of None \<Rightarrow> empty_mem s1 | Some c \<Rightarrow> cache_mem c n [] s1"
      using lru_create_ok [OF assms, of n] by blast
    then show ?thesis using bad [of s1] c_main_loop_total by (cases r) auto
  qed
  have "\<exists>r s'. bindE (if l \<le> (2 :: int) ^ 64 - 1 then lru_create (nat l) s else Inr (None, s))
      (\<lambda>(c, s). case c of None \<Rightarrow> c_fail None msg s | Some c \<Rightarrow> c_main_loop cnt 0 c 0 inp s) = Inr (r, s') \<and> proper_end r \<and> empty_mem s'" for l cnt inp msg
    using run [of "nat l" msg cnt inp] bad [OF assms, of msg] by (cases "l \<le> 2 ^ 64 - 1") auto
  then show ?thesis using bad [OF assms] by (auto simp: c_main_def Let_def split: option.split)
qed

text \<open>The loop of the driver serves the requests one after the other.\<close>

lemma c_lookup_Inr:
  assumes "c_lookup get k (c, s) = Inr (hit, x)"
  obtains r v s1 where "c_lookup_update (Some c) k (Some get) True s = Inr (r, v, s1)" "x = (c, s1)"
    "r = LRU_HIT \<and> hit \<or> r = LRU_MISS \<and> \<not> hit"
  using assms by (auto simp: c_lookup_def bindE_eq_Inr_iff split: if_splits)

lemma c_main_loop_requests:
  assumes "\<forall>k \<in> set ks. - llmax - 1 \<le> k \<and> k \<le> llmax"
    and "run_requests (c_lookup page_loader) ks (c, s) h = Inr (h', (c', s'))"
  shows "c' = c" and "c_main_loop (length ks) i c h (show_ints ks) s =
    bindE (lru_destroy (Some c) s') (\<lambda>s. Inr (\<lparr>code = 0, out = string_of_nat h' @ endl, err = []\<rparr>, s))"
proof -
  have "c' = c \<and> c_main_loop (length ks) i c h (show_ints ks) s =
    bindE (lru_destroy (Some c) s') (\<lambda>s. Inr (\<lparr>code = 0, out = string_of_nat h' @ endl, err = []\<rparr>, s))"
    using assms
  proof (induction ks arbitrary: i h s)
    case (Cons k ks)
    then obtain hit x where x: "c_lookup page_loader k (c, s) = Inr (hit, x)"
      "run_requests (c_lookup page_loader) ks x (h + (if hit then 1 else 0)) = Inr (h', (c', s'))"
      by (auto simp: bindE_eq_Inr_iff)
    obtain r v s1 where s1: "c_lookup_update (Some c) k (Some page_loader) True s = Inr (r, v, s1)" "x = (c, s1)"
      "r = LRU_HIT \<and> hit \<or> r = LRU_MISS \<and> \<not> hit" using c_lookup_Inr [OF x(1)] .
    have "c_read_integer (show_ints (k # ks)) = Some (k, show_ints ks)" using Cons.prems(1) by (intro c_read_integer_show) auto
    then have "c_main_loop (length (k # ks)) i c h (show_ints (k # ks)) s = c_main_loop (length ks) (i + 1) c (h + (if hit then 1 else 0)) (show_ints ks) s1"
      using s1(1,3) by auto
    then show ?case using Cons.IH [OF _ x(2) [unfolded s1(2)], of "i + 1"] Cons.prems(1) by (simp del: c_main_loop.simps)
  qed simp
  then show "c' = c" and "c_main_loop (length ks) i c h (show_ints ks) s =
    bindE (lru_destroy (Some c) s') (\<lambda>s. Inr (\<lparr>code = 0, out = string_of_nat h' @ endl, err = []\<rparr>, s))" by auto
qed

section \<open>Properties\<close>

text \<open>
  C2. The contract of \<^verbatim>\<open>lookup_update\<close> in \<^verbatim>\<open>lru.h\<close>, for every sound cache and whatever allocations fail: no
  undefined behaviour; a cached key is a hit that yields its page; another key is loaded and stored, evicting the
  least recently used one from a full cache; or the call reports that memory is exhausted, which
  happens only when one of its three allocations failed, and neither the contents nor the result
  change then. Missing arguments are reported and change nothing.
\<close>

theorem c_lookup_contract:
  assumes "cache_mem c cap ps s"
  shows "(\<exists>r v s'. c_lookup_update (Some c) k (Some get) True s = Inr (r, v, s') \<and>
      (r = LRU_HIT \<and> (\<exists>p. v = Some p \<and> (k, p) \<in> set ps) \<and> contents c s' = serve cap get k ps \<and> cache_mem c cap (serve cap get k ps) s' \<or>
       r = LRU_MISS \<and> k \<notin> fst ` set ps \<and> v = Some (get k) \<and> contents c s' = serve cap get k ps \<and> cache_mem c cap (serve cap get k ps) s' \<or>
       r = LRU_NO_MEMORY \<and> k \<notin> fst ` set ps \<and> v = None \<and> contents c s' = contents c s \<and> cache_mem c cap ps s' \<and>
         (\<exists>i \<in> {tick s, Suc (tick s), Suc (Suc (tick s))}. \<not> avail s i))) \<and>
    c_lookup_update None k (Some get) True s = Inr (LRU_INVALID_ARGUMENT, None, s) \<and>
    c_lookup_update (Some c) k None True s = Inr (LRU_INVALID_ARGUMENT, None, s) \<and>
    c_lookup_update (Some c) k (Some get) False s = Inr (LRU_INVALID_ARGUMENT, None, s)"
proof -
  obtain r v s' where s': "c_lookup_update (Some c) k (Some get) True s = Inr (r, v, s')"
    "r = LRU_HIT \<and> (\<exists>p. v = Some p \<and> (k, p) \<in> set ps) \<and> cache_mem c cap (serve cap get k ps) s' \<or>
     r = LRU_MISS \<and> k \<notin> fst ` set ps \<and> v = Some (get k) \<and> cache_mem c cap (serve cap get k ps) s' \<or>
     r = LRU_NO_MEMORY \<and> k \<notin> fst ` set ps \<and> v = None \<and> cache_mem c cap ps s' \<and>
       (\<exists>i \<in> {tick s, Suc (tick s), Suc (Suc (tick s))}. \<not> avail s i)"
    using c_lookup_ok [OF assms, of k get] by blast
  have "contents c s' = qs" if "cache_mem c cap qs s'" for qs using contents_eq(1) [OF that] .
  then show ?thesis using s' contents_eq(1) [OF assms]
    by (intro conjI exI [of _ r] exI [of _ v] exI [of _ s']) (auto simp: c_lookup_update_def)
qed

definition blank_mem :: "(nat \<Rightarrow> bool) \<Rightarrow> cmem" where
  "blank_mem av = \<lparr>nodes = (\<lambda>_. None), hents = (\<lambda>_. None), arrays = (\<lambda>_. None), hmaps = (\<lambda>_. None),
     cents = (\<lambda>_. None), caches = (\<lambda>_. None), tick = 0, avail = av\<rparr>"

lemma blank_mem [simp]: "empty_mem (blank_mem av)" "avail (blank_mem av) = av" "tick (blank_mem av) = 0"
  by (simp_all add: blank_mem_def empty_mem_def)

theorem c_lookup_contract_witness:
  "\<exists>c s s'. cache_mem c 2 [] s \<and> c_lookup_update (Some c) 7 (Some (\<lambda>k. k * 10)) True s = Inr (LRU_MISS, Some 70, s') \<and>
     contents c s' = [(7, 70)]"
proof -
  obtain r s where s: "lru_create 2 (blank_mem (\<lambda>_. True)) = Inr (r, s)" "avail s = (\<lambda>_. True)" "r \<noteq> None"
    "case r of None \<Rightarrow> empty_mem s | Some c \<Rightarrow> cache_mem c 2 [] s"
    using lru_create_ok [of "blank_mem (\<lambda>_. True)" 2] by (auto simp: fits_def)
  then obtain c where c: "cache_mem c 2 [] s" by auto
  have "serve 2 (\<lambda>k. k * 10) 7 [] = [(7, 70)]" by (simp add: serve_miss)
  then show ?thesis using c_lookup_contract [OF c, of 7 "\<lambda>k. k * 10"] c s(2) by auto
qed

text \<open>
  C17. The C driver is safe on every input and for every behaviour of \<^verbatim>\<open>malloc\<close>: started with an empty memory it ends without
  undefined behaviour, with exit code 0 and no message or with exit code 1, a message and no output,
  and every block it allocated has been freed.
\<close>

theorem c_main_safe:
  assumes "empty_mem s"
  shows "\<exists>r s'. c_main inp s = Inr (r, s') \<and> empty_mem s' \<and>
    (code r = 0 \<and> err r = [] \<or> code r = 1 \<and> out r = [] \<and> err r \<noteq> [])"
  using c_main_total [OF assms, of inp] by (auto simp: proper_end_def)

theorem c_main_safe_witness:
  "\<exists>r s'. c_main (show_ints [2, 3, 1, 2]) (blank_mem (\<lambda>i. i < 6)) = Inr (r, s') \<and> empty_mem s'"
  using c_main_safe [of "blank_mem (\<lambda>i. i < 6)" "show_ints [2, 3, 1, 2]"] by auto

text \<open>
  The C program and the C++ program agree: with enough memory, both print the number of hits of the recency
  stack and exit with 0. The C program makes its cache no larger than the number of requests, which
  changes nothing.
\<close>

theorem c_main_agrees:
  assumes "empty_mem s" "\<forall>i. avail s i" "\<forall>k \<in> set ks. - llmax - 1 \<le> k \<and> k \<le> llmax"
    and "int (length ks) \<le> llmax" "int m \<le> llmax" "min m (length ks) \<le> (2 ^ 64 - 1) div 8"
  shows "\<exists>r s'. c_main (show_ints (int m # int (length ks) # ks)) s = Inr (r, s') \<and> empty_mem s' \<and>
    cache_main (show_ints (int m # int (length ks) # ks)) = Inr r \<and>
    r = \<lparr>code = 0, out = string_of_nat (lru_hits m [] ks) @ endl, err = []\<rparr>"
proof -
  let ?n = "min m (length ks)"
  obtain r s1 where s1: "lru_create ?n s = Inr (r, s1)" "avail s1 = avail s" "r \<noteq> None"
    "case r of None \<Rightarrow> empty_mem s1 | Some c \<Rightarrow> cache_mem c ?n [] s1"
    using lru_create_ok [OF assms(1), of ?n] assms(2,6) by (auto simp: fits_def)
  then obtain c where c: "r = Some c" "cache_mem c ?n [] s1" by auto
  have ce: "contents c s1 = []" "c_capacity c s1 = ?n" using contents_eq [OF c(2)] by auto
  have "c_inv (c, s1)" using c(2) s1(2) assms(2) by (intro c_invI) auto
  from clru.run_hits [OF this, of "[]" page_loader ks 0] ce obtain c' s2 where
    run: "run_requests (c_lookup page_loader) ks (c, s1) 0 = Inr (lru_hits ?n [] ks, (c', s2))" and inv: "c_inv (c', s2)"
    by auto
  note loop = c_main_loop_requests [OF assms(3) run]
  have "cache_mem c (c_capacity c s2) (contents c s2) s2" using inv loop(1) by (simp add: c_inv_def)
  then obtain s3 where s3: "lru_destroy (Some c) s2 = Inr s3" "empty_mem s3" using lru_destroy_ok by blast
  let ?r = "\<lparr>code = 0, out = string_of_nat (lru_hits m [] ks) @ endl, err = []\<rparr>"
  have lim: "(if int m < int (length ks) then int m else int (length ks)) = int ?n" by auto
  have small: "int ?n \<le> 2 ^ 64 - 1" using assms(5) by (simp add: llmax_def min_def)
  have rd: "c_read_integer (show_ints (int m # int (length ks) # ks)) = Some (int m, show_ints (int (length ks) # ks))"
    "c_read_integer (show_ints (int (length ks) # ks)) = Some (int (length ks), show_ints ks)"
    using assms(4,5) by (intro c_read_integer_show; simp add: llmax_def)+
  have "c_main (show_ints (int m # int (length ks) # ks)) s = Inr (?r, s3)"
    unfolding c_main_def Let_def rd(1) option.case prod.case rd(2) lim
    using small s1(1) c(1) loop(2) [of 0] s3(1) lru_hits_min [of m ks] by (simp del: of_nat_min)
  then show ?thesis using s3(2) cache_main_output [OF assms(3,4,5)] by auto
qed

theorem c_main_agrees_witness:
  "\<exists>s'. c_main (show_ints [2, 4, 1, 2, 1, 3]) (blank_mem (\<lambda>_. True)) = Inr (\<lparr>code = 0, out = ''1'' @ endl, err = []\<rparr>, s') \<and>
     cache_main (show_ints [2, 4, 1, 2, 1, 3]) = Inr \<lparr>code = 0, out = ''1'' @ endl, err = []\<rparr>"
proof -
  have "string_of_nat 1 = ''1''" by code_simp
  moreover have "lru_hits 2 [] [1, 2, 1, 3 :: int] = 1" by (simp add: touch_def eval_nat_numeral)
  moreover have "min 2 (length [1, 2, 1, 3 :: int]) \<le> (2 ^ 64 - 1) div 8" by simp
  ultimately show ?thesis using c_main_agrees [of "blank_mem (\<lambda>_. True)" "[1, 2, 1, 3]" 2] by (auto simp: llmax_def)
qed

end
