(* ===== verification/Lru_C_Ds.thy ===== *)
theory Lru_C_Ds
  imports C_Common
begin

text \<open>
  \<^verbatim>\<open>01-basics/lru-in-c-datastructs\<close>: the cache on intrusive structures. Its entries are an array allocated once; each
  holds the link of the recency list and the entry of the map. A pointer to a link is \<open>None\<close> for the
  sentinel in the cache and \<open>Some i\<close> for the link in the entry number \<open>i\<close>; a pointer to a map entry is the number of
  its cache entry, with \<open>None\<close> for the null pointer. An index outside the array is undefined behaviour.
\<close>

section \<open>Structures\<close>

record DsEntry =
  lprev :: "nat option"
  lnext :: "nat option"
  ekey :: int
  evalue :: nat
  enext :: "nat option"
  eprev_next :: "nat slot option"

text \<open>The blocks a cache may own.\<close>

datatype ds_block = Cache_block | Entries_block | Buckets_block

record DsCache =
  head_prev :: "nat option"
  head_next :: "nat option"
  ibuckets :: "nat option list"
  entries :: "DsEntry list"
  dcapacity :: nat
  used :: nat

definition entry_upd :: "nat \<Rightarrow> (DsEntry \<Rightarrow> DsEntry) \<Rightarrow> DsCache \<Rightarrow> DsCache res" where
  "entry_upd i f D = bindE (vec_get (entries D) i) (\<lambda>e. Inr (D\<lparr>entries := (entries D)[i := f e]\<rparr>))"

section \<open>The list\<close>

definition link_prev :: "nat option \<Rightarrow> DsCache \<Rightarrow> nat option res" where
  "link_prev p D = (case p of None \<Rightarrow> Inr (head_prev D) | Some i \<Rightarrow> bindE (vec_get (entries D) i) (\<lambda>e. Inr (lprev e)))"

definition link_next :: "nat option \<Rightarrow> DsCache \<Rightarrow> nat option res" where
  "link_next p D = (case p of None \<Rightarrow> Inr (head_next D) | Some i \<Rightarrow> bindE (vec_get (entries D) i) (\<lambda>e. Inr (lnext e)))"

definition set_link_prev :: "nat option \<Rightarrow> nat option \<Rightarrow> DsCache \<Rightarrow> DsCache res" where
  "set_link_prev p v D =
     (case p of None \<Rightarrow> Inr (D\<lparr>head_prev := v\<rparr>) | Some i \<Rightarrow> entry_upd i (\<lambda>e. e\<lparr>lprev := v\<rparr>) D)"

definition set_link_next :: "nat option \<Rightarrow> nat option \<Rightarrow> DsCache \<Rightarrow> DsCache res" where
  "set_link_next p v D =
     (case p of None \<Rightarrow> Inr (D\<lparr>head_next := v\<rparr>) | Some i \<Rightarrow> entry_upd i (\<lambda>e. e\<lparr>lnext := v\<rparr>) D)"

definition list_init :: "nat option \<Rightarrow> DsCache \<Rightarrow> DsCache res" where
  "list_init link D = bindE (set_link_next link link D) (set_link_prev link link)"

definition ds_list_push_front :: "nat option \<Rightarrow> nat option \<Rightarrow> DsCache \<Rightarrow> DsCache res" where
  "ds_list_push_front hd_link link D =
     bindE (set_link_prev link hd_link D) (\<lambda>D.
     bindE (bindE (link_next hd_link D) (\<lambda>n. set_link_next link n D)) (\<lambda>D.
     bindE (bindE (link_next hd_link D) (\<lambda>n. set_link_prev n link D)) (\<lambda>D.
     set_link_next hd_link link D)))"

definition ds_list_remove :: "nat option \<Rightarrow> DsCache \<Rightarrow> DsCache res" where
  "ds_list_remove link D =
     bindE (bindE (link_prev link D) (\<lambda>p. bindE (link_next link D) (\<lambda>n. set_link_next p n D))) (\<lambda>D.
     bindE (bindE (link_next link D) (\<lambda>n. bindE (link_prev link D) (\<lambda>p. set_link_prev n p D))) (\<lambda>D.
     list_init link D))"

section \<open>The map\<close>

definition ds_bucket_for :: "nat \<Rightarrow> int \<Rightarrow> nat" where
  "ds_bucket_for bucket_count key = unat (mix64 (word_of_int key)) mod bucket_count"

text \<open>\<^verbatim>\<open>int_map_init\<close>: whether it succeeds, with the array of buckets; \<open>av\<close> says whether memory is available.\<close>

definition int_map_init :: "bool \<Rightarrow> nat \<Rightarrow> nat option list option" where
  "int_map_init av bucket_count =
     (if bucket_count = 0 \<or> bucket_count > (2 ^ 64 - 1) div 8 then None
      else if \<not> av then None else Some (replicate bucket_count None))"

definition ds_store :: "nat slot option \<Rightarrow> nat option \<Rightarrow> DsCache \<Rightarrow> DsCache res" where
  "ds_store s v D =
     (case s of
        None \<Rightarrow> Inl Undefined_behaviour
      | Some (Bucket i) \<Rightarrow> bindE (vec_set (ibuckets D) i v) (\<lambda>bs. Inr (D\<lparr>ibuckets := bs\<rparr>))
      | Some (Next_of i) \<Rightarrow> entry_upd i (\<lambda>e. e\<lparr>enext := v\<rparr>) D)"

definition int_map_remove :: "nat \<Rightarrow> DsCache \<Rightarrow> DsCache res" where
  "int_map_remove i D =
     bindE (bindE (vec_get (entries D) i) (\<lambda>e. ds_store (eprev_next e) (enext e) D)) (\<lambda>D.
     bindE (vec_get (entries D) i) (\<lambda>e.
     bindE (case enext e of None \<Rightarrow> Inr D | Some n \<Rightarrow> entry_upd n (\<lambda>x. x\<lparr>eprev_next := eprev_next e\<rparr>) D) (\<lambda>D.
     entry_upd i (\<lambda>e. e\<lparr>enext := None, eprev_next := None\<rparr>) D)))"

definition ds_link :: "DsCache \<Rightarrow> nat \<Rightarrow> (int \<times> nat option) option" where
  "ds_link D i = (if i < length (entries D) then Some (ekey (entries D ! i), enext (entries D ! i)) else None)"

definition int_map_find :: "int \<Rightarrow> DsCache \<Rightarrow> nat option res" where
  "int_map_find key D =
     (if ibuckets D = [] then Inr None
      else bindE (vec_get (ibuckets D) (ds_bucket_for (length (ibuckets D)) key)) (\<lambda>p.
           chain_find (length (entries D)) (ds_link D) key p))"

definition int_map_insert :: "nat \<Rightarrow> DsCache \<Rightarrow> (bool \<times> DsCache) res" where
  "int_map_insert i D =
     bindE (vec_get (entries D) i) (\<lambda>e.
     if ibuckets D = [] \<or> eprev_next e \<noteq> None then Inr (False, D)
     else bindE (int_map_find (ekey e) D) (\<lambda>found.
       if found \<noteq> None then Inr (False, D)
       else
         let b = ds_bucket_for (length (ibuckets D)) (ekey e) in
         bindE (vec_get (ibuckets D) b) (\<lambda>h.
         bindE (entry_upd i (\<lambda>e. e\<lparr>enext := h, eprev_next := Some (Bucket b)\<rparr>) D) (\<lambda>D.
         bindE (case h of None \<Rightarrow> Inr D | Some n \<Rightarrow> entry_upd n (\<lambda>x. x\<lparr>eprev_next := Some (Next_of i)\<rparr>) D) (\<lambda>D.
         bindE (vec_set (ibuckets D) b (Some i)) (\<lambda>bs. Inr (True, D\<lparr>ibuckets := bs\<rparr>)))))))"

text \<open>The loops of \<^verbatim>\<open>int_map_destroy\<close>; the number of entries is enough fuel for the inner one.\<close>

fun clear_bucket :: "nat \<Rightarrow> nat \<Rightarrow> DsCache \<Rightarrow> DsCache res" where
  "clear_bucket 0 b D = Inl Undefined_behaviour"
| "clear_bucket (Suc fuel) b D =
     bindE (vec_get (ibuckets D) b) (\<lambda>p.
     case p of None \<Rightarrow> Inr D | Some i \<Rightarrow> bindE (int_map_remove i D) (clear_bucket fuel b))"

fun clear_buckets :: "nat \<Rightarrow> DsCache \<Rightarrow> DsCache res" where
  "clear_buckets 0 D = Inr D"
| "clear_buckets (Suc n) D = bindE (clear_buckets n D) (\<lambda>D. clear_bucket (Suc (length (entries D))) n D)"

definition ds_free :: "ds_block \<Rightarrow> ds_block set \<Rightarrow> ds_block set res" where
  "ds_free x live = (if x \<in> live then Inr (live - {x}) else Inl Undefined_behaviour)"

text \<open>Freeing the array of a map without buckets frees a null pointer, which has no effect.\<close>

definition int_map_destroy :: "DsCache \<Rightarrow> ds_block set \<Rightarrow> (DsCache \<times> ds_block set) res" where
  "int_map_destroy D live =
     bindE (clear_buckets (length (ibuckets D)) D) (\<lambda>D.
     bindE (if ibuckets D = [] then Inr live else ds_free Buckets_block live) (\<lambda>live.
     Inr (D\<lparr>ibuckets := []\<rparr>, live)))"

section \<open>The cache\<close>

definition zero_entry :: DsEntry where
  "zero_entry = \<lparr>lprev = None, lnext = None, ekey = 0, evalue = 0, enext = None, eprev_next = None\<rparr>"

definition ds_lru_destroy :: "DsCache option \<Rightarrow> ds_block set \<Rightarrow> ds_block set res" where
  "ds_lru_destroy c live =
     (case c of
        None \<Rightarrow> Inr live
      | Some D \<Rightarrow>
          bindE (int_map_destroy D live) (\<lambda>(D, live).
          bindE (if entries D = [] then Inr live else ds_free Entries_block live) (\<lambda>live.
          ds_free Cache_block live)))"

text \<open>\<^verbatim>\<open>lru_create\<close>; \<open>av n\<close> says whether the \<open>n\<close>-th of its allocations succeeds. An entry takes 48 bytes.\<close>

definition ds_lru_create :: "(nat \<Rightarrow> bool) \<Rightarrow> nat \<Rightarrow> (DsCache option \<times> ds_block set) res" where
  "ds_lru_create av cap =
     (if cap > (2 ^ 64 - 1) div 48 \<or> \<not> av 0 then Inr (None, {})
      else
        let D = \<lparr>head_prev = None, head_next = None, ibuckets = [], entries = [], dcapacity = 0, used = 0\<rparr>;
            live = {Cache_block} in
        if cap = 0 then Inr (Some D, live)
        else if \<not> av 1 then bindE (ds_lru_destroy (Some D) live) (\<lambda>live. Inr (None, live))
        else
          let D = D\<lparr>entries := replicate cap zero_entry\<rparr>; live = insert Entries_block live in
          (case int_map_init (av 2) cap of
             None \<Rightarrow> bindE (ds_lru_destroy (Some D) live) (\<lambda>live. Inr (None, live))
           | Some bs \<Rightarrow> Inr (Some (D\<lparr>ibuckets := bs, dcapacity := cap\<rparr>), insert Buckets_block live)))"

definition lru_access :: "int \<Rightarrow> DsCache \<Rightarrow> (bool \<times> DsCache) res" where
  "lru_access key D =
     (if dcapacity D = 0 then Inr (False, D)
      else bindE (int_map_find key D) (\<lambda>found.
        bindE (case found of
            Some f \<Rightarrow>
              bindE (vec_get (entries D) f) (\<lambda>e.
              bindE (ds_list_remove (Some (evalue e)) D) (\<lambda>D. Inr (evalue e, D)))
          | None \<Rightarrow>
              bindE (if used D < dcapacity D then
                       bindE (list_init (Some (used D)) (D\<lparr>used := Suc (used D)\<rparr>)) (\<lambda>D'. Inr (used D, D'))
                     else
                       (case head_prev D of
                          None \<Rightarrow> Inl Undefined_behaviour
                        | Some i \<Rightarrow> bindE (ds_list_remove (Some i) D) (\<lambda>D. bindE (int_map_remove i D) (\<lambda>D. Inr (i, D))))) (\<lambda>(i, D).
              bindE (entry_upd i (\<lambda>e. e\<lparr>ekey := key, evalue := i\<rparr>) D) (\<lambda>D.
              bindE (int_map_insert i D) (\<lambda>(inserted, D).
              if \<not> inserted then Inl Assertion_failed else Inr (i, D))))) (\<lambda>(i, D).
        bindE (ds_list_push_front None (Some i) D) (\<lambda>D. Inr (found \<noteq> None, D)))))"

section \<open>The driver\<close>

text \<open>The reader of numbers is the same text as in the other C program.\<close>

definition ds_read_integer :: "string \<Rightarrow> (int \<times> string) option" where
  "ds_read_integer inp = c_read_integer inp"

definition ds_fail :: "DsCache option \<Rightarrow> ds_block set \<Rightarrow> string \<Rightarrow> (outcome \<times> ds_block set) res" where
  "ds_fail c live msg = bindE (ds_lru_destroy c live) (\<lambda>live. Inr (\<lparr>code = 1, out = [], err = msg @ endl\<rparr>, live))"

fun ds_main_loop :: "nat \<Rightarrow> nat \<Rightarrow> DsCache \<Rightarrow> ds_block set \<Rightarrow> nat \<Rightarrow> string \<Rightarrow> (outcome \<times> ds_block set) res" where
  "ds_main_loop 0 i D live hits inp =
     bindE (ds_lru_destroy (Some D) live) (\<lambda>live. Inr (\<lparr>code = 0, out = string_of_nat hits @ endl, err = []\<rparr>, live))"
| "ds_main_loop (Suc n) i D live hits inp =
     (case ds_read_integer inp of
        None \<Rightarrow> ds_fail (Some D) live (''Expected integer at position '' @ string_of_nat (i + 1) @ ''.'')
      | Some (key, inp) \<Rightarrow>
          bindE (lru_access key D) (\<lambda>(hit, D).
          ds_main_loop n (i + 1) D live (hits + (if hit then 1 else 0)) inp))"

definition ds_main :: "(nat \<Rightarrow> bool) \<Rightarrow> string \<Rightarrow> (outcome \<times> ds_block set) res" where
  "ds_main av inp =
     (let bad = ds_fail None {} ''Expected nonnegative cache size and element count.'' in
      case ds_read_integer inp of
        None \<Rightarrow> bad
      | Some (cap, inp) \<Rightarrow>
          (case ds_read_integer inp of
             None \<Rightarrow> bad
           | Some (cnt, inp) \<Rightarrow>
               if cap < 0 \<or> cnt < 0 then bad
               else
                 let limit = (if cap < cnt then cap else cnt) in
                 bindE (if limit \<le> 2 ^ 64 - 1 then ds_lru_create av (nat limit) else Inr (None, {})) (\<lambda>(c, live).
                 case c of
                   None \<Rightarrow> ds_fail None live ''Cannot allocate cache.''
                 | Some D \<Rightarrow> ds_main_loop (nat cnt) 0 D live 0 inp)))"

end
