(* ===== verification/Lru_C_Ds_Props.thy ===== *)
theory Lru_C_Ds_Props
  imports Lru_C_Ds
begin

text \<open>The cache on intrusive structures is correct: its list and map work, and it implements an LRU cache.\<close>

section \<open>Fields\<close>

definition dn :: "DsCache \<Rightarrow> nat option \<Rightarrow> nat option" where
  "dn D p = (case p of None \<Rightarrow> head_next D | Some i \<Rightarrow> lnext (entries D ! i))"

definition dp :: "DsCache \<Rightarrow> nat option \<Rightarrow> nat option" where
  "dp D p = (case p of None \<Rightarrow> head_prev D | Some i \<Rightarrow> lprev (entries D ! i))"

definition ek :: "DsCache \<Rightarrow> nat \<Rightarrow> int" where
  "ek D i = ekey (entries D ! i)"

definition ev :: "DsCache \<Rightarrow> nat \<Rightarrow> nat" where
  "ev D i = evalue (entries D ! i)"

definition en :: "DsCache \<Rightarrow> nat \<Rightarrow> nat option" where
  "en D i = enext (entries D ! i)"

definition epn :: "DsCache \<Rightarrow> nat \<Rightarrow> nat slot option" where
  "epn D i = eprev_next (entries D ! i)"

definition valid :: "DsCache \<Rightarrow> nat option \<Rightarrow> bool" where
  "valid D p \<longleftrightarrow> (case p of None \<Rightarrow> True | Some i \<Rightarrow> i < length (entries D))"

definition upd :: "nat \<Rightarrow> (DsEntry \<Rightarrow> DsEntry) \<Rightarrow> DsCache \<Rightarrow> DsCache" where
  "upd i f D = D\<lparr>entries := (entries D)[i := f (entries D ! i)]\<rparr>"

definition unext :: "nat option \<Rightarrow> nat option \<Rightarrow> DsCache \<Rightarrow> DsCache" where
  "unext p v D = (case p of None \<Rightarrow> D\<lparr>head_next := v\<rparr> | Some i \<Rightarrow> upd i (\<lambda>e. e\<lparr>lnext := v\<rparr>) D)"

definition uprev :: "nat option \<Rightarrow> nat option \<Rightarrow> DsCache \<Rightarrow> DsCache" where
  "uprev p v D = (case p of None \<Rightarrow> D\<lparr>head_prev := v\<rparr> | Some i \<Rightarrow> upd i (\<lambda>e. e\<lparr>lprev := v\<rparr>) D)"

lemmas fields = dn_def dp_def ek_def ev_def en_def epn_def

text \<open>What the operations of the list and of the map leave alone.\<close>

definition same_map :: "DsCache \<Rightarrow> DsCache \<Rightarrow> bool" where
  "same_map D D' \<longleftrightarrow> ek D' = ek D \<and> ev D' = ev D \<and> en D' = en D \<and> epn D' = epn D \<and> ibuckets D' = ibuckets D \<and>
     length (entries D') = length (entries D) \<and> dcapacity D' = dcapacity D \<and> used D' = used D"

definition same_list :: "DsCache \<Rightarrow> DsCache \<Rightarrow> bool" where
  "same_list D D' \<longleftrightarrow> dn D' = dn D \<and> dp D' = dp D \<and> ek D' = ek D \<and> ev D' = ev D \<and>
     length (ibuckets D') = length (ibuckets D) \<and>
     length (entries D') = length (entries D) \<and> dcapacity D' = dcapacity D \<and> used D' = used D"

lemma same_map_trans: "same_map D D' \<Longrightarrow> same_map D' D'' \<Longrightarrow> same_map D D''"
  by (simp add: same_map_def)

lemma entry_upd_ok: "i < length (entries D) \<Longrightarrow> entry_upd i f D = Inr (upd i f D)"
  by (simp add: entry_upd_def upd_def)

lemma upd_fields [simp]:
  "ibuckets (upd i f D) = ibuckets D" "length (entries (upd i f D)) = length (entries D)" "dcapacity (upd i f D) = dcapacity D"
  "used (upd i f D) = used D" "head_prev (upd i f D) = head_prev D" "head_next (upd i f D) = head_next D"
  by (simp_all add: upd_def)

lemma upd_nth: "i < length (entries D) \<Longrightarrow> entries (upd i f D) ! j = (if j = i then f (entries D ! i) else entries D ! j)"
  by (simp add: upd_def nth_list_update)

lemma unext_ok [simp]:
  assumes "valid D p"
  shows "dn (unext p v D) = (dn D)(p := v)" "dp (unext p v D) = dp D" "same_map D (unext p v D)" "valid (unext p v D) = valid D"
    "set_link_next p v D = Inr (unext p v D)"
  using assms by (auto simp: fun_eq_iff fields unext_def valid_def same_map_def upd_nth set_link_next_def entry_upd_ok split: option.split)

lemma uprev_ok [simp]:
  assumes "valid D p"
  shows "dp (uprev p v D) = (dp D)(p := v)" "dn (uprev p v D) = dn D" "same_map D (uprev p v D)" "valid (uprev p v D) = valid D"
    "set_link_prev p v D = Inr (uprev p v D)"
  using assms by (auto simp: fun_eq_iff fields uprev_def valid_def same_map_def upd_nth set_link_prev_def entry_upd_ok split: option.split)

lemma link_get_ok [simp]: "valid D p \<Longrightarrow> link_next p D = Inr (dn D p)" "valid D p \<Longrightarrow> link_prev p D = Inr (dp D p)"
  by (auto simp: fields valid_def link_next_def link_prev_def split: option.split)

interpretation dl: links dn dp unext uprev valid "\<lambda>D. (ek D, ev D, en D, epn D, ibuckets D, length (entries D), dcapacity D, used D)"
  by unfold_locales (auto simp: same_map_def dest: unext_ok(3) uprev_ok(3))

section \<open>The list\<close>

definition lrep :: "DsCache \<Rightarrow> nat list \<Rightarrow> bool" where
  "lrep D ns \<longleftrightarrow> ring (dn D) (dp D) None (map Some ns) \<and> set ns \<subseteq> {..<length (entries D)}"

lemma list_init_ok:
  assumes "valid D p"
  obtains D' where "list_init p D = Inr D'" "dn D' = (dn D)(p := p)" "dp D' = (dp D)(p := p)" "same_map D D'"
proof -
  have "list_init p D = Inr (uprev p p (unext p p D))" using assms by (simp add: list_init_def)
  moreover have "same_map D (uprev p p (unext p p D))" using assms unext_ok(3) uprev_ok(3) same_map_trans by (metis unext_ok(4))
  ultimately show ?thesis using assms by (intro that [of "uprev p p (unext p p D)"]) simp_all
qed

lemma ds_list_remove_ok:
  assumes "lrep D (xs @ i # ys)"
  obtains D' where "ds_list_remove (Some i) D = Inr D'" "lrep D' (xs @ ys)" "same_map D D'"
proof -
  let ?i = "Some i"
  have r: "ring (dn D) (dp D) None (map Some xs @ ?i # map Some ys)" and sub: "set (xs @ i # ys) \<subseteq> {..<length (entries D)}"
    using assms by (auto simp: lrep_def)
  have v: "\<forall>p \<in> set (None # map Some xs @ ?i # map Some ys). valid D p" using sub by (auto simp: valid_def)
  note ring = dl.detach_ring [OF r v]
  let ?D2 = "uprev (dn D ?i) (dp D ?i) (unext (dp D ?i) (dn D ?i) D)"
  obtain D3 where D3: "list_init ?i ?D2 = Inr D3" "dn D3 = (dn ?D2)(?i := ?i)" "dp D3 = (dp ?D2)(?i := ?i)" "same_map ?D2 D3"
    by (rule list_init_ok [of ?D2 ?i]) (use v ring(2) in simp_all)
  have "ds_list_remove ?i D = Inr D3" using v ring(4-6) D3(1) by (simp add: ds_list_remove_def)
  moreover have "ring (dn D3) (dp D3) None (map Some xs @ map Some ys) = ring (dn ?D2) (dp ?D2) None (map Some xs @ map Some ys)"
    using r unfolding D3(2,3) by (intro ring_cong) (auto simp: ring_def)
  then have "ring (dn D3) (dp D3) None (map Some xs @ map Some ys)" using ring(1) by simp
  moreover have sm: "same_map D D3" using ring(3) D3(4) by (simp add: same_map_def)
  ultimately show ?thesis using that [of D3] sub by (simp add: lrep_def same_map_def)
qed

lemma ds_list_push_front_ok:
  assumes "lrep D ns" "i \<notin> set ns" "i < length (entries D)"
  obtains D' where "ds_list_push_front None (Some i) D = Inr D'" "lrep D' (i # ns)" "same_map D D'"
proof -
  let ?i = "Some i"
  have r: "ring (dn D) (dp D) None (map Some ns)" and sub: "set ns \<subseteq> {..<length (entries D)}" using assms by (auto simp: lrep_def)
  have v: "\<forall>p \<in> set (None # map Some ns). valid D p" "valid D ?i" "?i \<notin> set (None # map Some ns)"
    using sub assms(2,3) by (auto simp: valid_def)
  note ring = dl.prepend_ring [OF r v(1,3,2)]
  let ?D4 = "unext None ?i (uprev (dn D None) ?i (unext ?i (dn D None) (uprev ?i None D)))"
  have "ds_list_push_front None ?i D = Inr ?D4" using v ring(4,5) by (simp add: ds_list_push_front_def)
  moreover have sm: "same_map D ?D4" using ring(3) by (simp add: same_map_def)
  ultimately show ?thesis using that [of ?D4] ring(1) sub assms(3) by (simp add: lrep_def same_map_def)
qed

section \<open>The map\<close>

lemma ds_bucket_for_eq: "ds_bucket_for = bucket_for"
  by (simp add: fun_eq_iff ds_bucket_for_def bucket_for_def)

text \<open>The entries \<open>U\<close> are linked in the chains \<open>cs\<close>.\<close>

definition mrep :: "DsCache \<Rightarrow> nat list list \<Rightarrow> nat set \<Rightarrow> bool" where
  "mrep D cs U \<longleftrightarrow> table (en D) (ibuckets D) cs \<and> backs (epn D) cs \<and> set (concat cs) = U \<and> U \<subseteq> {..<length (entries D)} \<and>
     inj_on (ek D) U \<and> (\<forall>b < length (ibuckets D). \<forall>e \<in> set (cs ! b). bucket_for (length (ibuckets D)) (ek D e) = b) \<and>
     ibuckets D \<noteq> [] \<and> (\<forall>e < length (entries D). e \<notin> U \<longrightarrow> epn D e = None)"

lemma mrep_cong:
  "en D' = en D \<Longrightarrow> epn D' = epn D \<Longrightarrow> ibuckets D' = ibuckets D \<Longrightarrow> length (entries D') = length (entries D) \<Longrightarrow>
   (\<And>e. e \<in> U \<Longrightarrow> ek D' e = ek D e) \<Longrightarrow> mrep D' cs U = mrep D cs U"
proof -
  assume same: "en D' = en D" "epn D' = epn D" "ibuckets D' = ibuckets D" "length (entries D') = length (entries D)"
    and k: "\<And>e. e \<in> U \<Longrightarrow> ek D' e = ek D e"
  have "inj_on (ek D') U = inj_on (ek D) U" using k by (rule inj_on_cong)
  moreover have "(\<forall>b < length (ibuckets D). \<forall>e \<in> set (cs ! b). bucket_for (length (ibuckets D)) (ek D' e) = b) =
      (\<forall>b < length (ibuckets D). \<forall>e \<in> set (cs ! b). bucket_for (length (ibuckets D)) (ek D e) = b)"
    if "length cs = length (ibuckets D)" "set (concat cs) = U"
  proof -
    have "e \<in> U" if "b < length (ibuckets D)" "e \<in> set (cs ! b)" for b e
      using that \<open>length cs = _\<close> \<open>set (concat cs) = U\<close> nth_mem [of b cs] by auto
    then show ?thesis using k by metis
  qed
  ultimately show ?thesis unfolding mrep_def same by (auto simp: table_def)
qed

lemma mrep_same_map: "same_map D D' \<Longrightarrow> mrep D' cs U = mrep D cs U"
  by (rule mrep_cong) (auto simp: same_map_def)

lemma mrep_chain:
  assumes "mrep D cs U" "b < length (ibuckets D)"
  shows "chain (en D) (ibuckets D ! b) (cs ! b)" "set (cs ! b) \<subseteq> U" "distinct (cs ! b)" "length (cs ! b) \<le> length (entries D)"
proof -
  have t: "table (en D) (ibuckets D) cs" "set (concat cs) = U" "U \<subseteq> {..<length (entries D)}" using assms(1) by (auto simp: mrep_def)
  then have len: "length cs = length (ibuckets D)" "distinct (concat cs)" by (auto simp: table_def)
  show "chain (en D) (ibuckets D ! b) (cs ! b)" using t(1) assms(2) by (rule table_chain)
  show sub: "set (cs ! b) \<subseteq> U" using nth_mem [of b cs] assms(2) len t(2) by fastforce
  show d: "distinct (cs ! b)" using len assms(2) by (metis distinct_concat_iff nth_mem)
  have "card (set (cs ! b)) \<le> card {..<length (entries D)}" using sub t(3) by (intro card_mono) auto
  then show "length (cs ! b) \<le> length (entries D)" using d by (simp add: distinct_card)
qed

lemma mrep_member:
  assumes "mrep D cs U" "e \<in> U"
  shows "bucket_for (length (ibuckets D)) (ek D e) < length (ibuckets D)" "e \<in> set (cs ! bucket_for (length (ibuckets D)) (ek D e))"
proof -
  have "e \<in> set (concat cs)" "length cs = length (ibuckets D)" using assms by (auto simp: mrep_def table_def)
  then obtain b where b: "b < length (ibuckets D)" "e \<in> set (cs ! b)" by (auto simp: in_set_conv_nth) (metis nth_mem)
  moreover from this have "bucket_for (length (ibuckets D)) (ek D e) = b" using assms(1) by (auto simp: mrep_def)
  ultimately show "bucket_for (length (ibuckets D)) (ek D e) < length (ibuckets D)" "e \<in> set (cs ! bucket_for (length (ibuckets D)) (ek D e))" by auto
qed

lemma int_map_find_eq:
  assumes "mrep D cs U"
  shows "int_map_find k D = Inr (find (\<lambda>e. ek D e = k) (cs ! bucket_for (length (ibuckets D)) k))"
proof -
  let ?b = "bucket_for (length (ibuckets D)) k"
  have ne: "ibuckets D \<noteq> []" and U: "U \<subseteq> {..<length (entries D)}" using assms by (auto simp: mrep_def)
  then have b: "?b < length (ibuckets D)" by simp
  note ch = mrep_chain [OF assms b]
  have "chain_find (length (entries D)) (ds_link D) k (ibuckets D ! ?b) = Inr (find (\<lambda>e. ek D e = k) (cs ! ?b))"
  proof (rule chain_find_eq [OF ch(1) _ ch(4)])
    show "ds_link D e = Some (ek D e, en D e)" if "e \<in> set (cs ! ?b)" for e
    proof -
      have "e < length (entries D)" using that ch(2) U by auto
      then show ?thesis by (simp add: ds_link_def fields)
    qed
  qed
  then show ?thesis using ne b by (simp add: int_map_find_def ds_bucket_for_eq)
qed

lemma int_map_find_hit:
  assumes "mrep D cs U" "e \<in> U" "ek D e = k"
  shows "int_map_find k D = Inr (Some e)"
proof -
  let ?b = "bucket_for (length (ibuckets D)) k"
  note mem = mrep_member [OF assms(1,2), unfolded assms(3)]
  have "find (\<lambda>e. ek D e = k) (cs ! ?b) \<noteq> None" using mem assms(3) by (auto simp: find_None_iff)
  then obtain e' where e': "find (\<lambda>e. ek D e = k) (cs ! ?b) = Some e'" by blast
  then have "e' \<in> set (cs ! ?b)" "ek D e' = k" by (auto simp: find_Some_iff)
  then have "e' = e" using assms mrep_chain(2) [OF assms(1) mem(1)] by (auto simp: mrep_def dest!: inj_onD)
  then show ?thesis using int_map_find_eq [OF assms(1)] e' by simp
qed

lemma int_map_find_miss:
  assumes "mrep D cs U" "k \<notin> ek D ` U"
  shows "int_map_find k D = Inr None"
proof -
  let ?b = "bucket_for (length (ibuckets D)) k"
  have "?b < length (ibuckets D)" using assms(1) by (simp add: mrep_def)
  then have "find (\<lambda>e. ek D e = k) (cs ! ?b) = None"
    using assms(2) mrep_chain(2) [OF assms(1), of ?b] by (auto simp: find_None_iff)
  then show ?thesis using int_map_find_eq [OF assms(1)] by simp
qed

definition first_of :: "'a list \<Rightarrow> 'a option" where
  "first_of xs = (case xs of [] \<Rightarrow> None | x # _ \<Rightarrow> Some x)"

lemma chain_first: "chain nxt p es \<Longrightarrow> p = first_of es"
  by (cases es) (auto simp: first_of_def)

lemma chain_next_first: "chain nxt p (xs @ e # ys) \<Longrightarrow> nxt e = first_of ys"
  using chain_suffix [of nxt p xs e ys] chain_first [of nxt "nxt e" ys] by simp

text \<open>The effect of storing in a slot, and of changing the slot stored in the first element of a list.\<close>

lemma ds_store_ok:
  assumes "case s of Bucket b \<Rightarrow> b < length (ibuckets D) | Next_of i \<Rightarrow> i < length (entries D)"
  obtains D' where "ds_store (Some s) v D = Inr D'" "en D' = slot_next s v (en D)" "ibuckets D' = slot_bucket s v (ibuckets D)"
    "epn D' = epn D" "same_list D D'"
proof (cases s)
  case (Bucket b)
  then show ?thesis using that [of "D\<lparr>ibuckets := (ibuckets D)[b := v]\<rparr>"] assms
    by (simp add: ds_store_def slot_next_def slot_bucket_def same_list_def fields [abs_def])
next
  case (Next_of i)
  then show ?thesis using that [of "upd i (\<lambda>e. e\<lparr>enext := v\<rparr>) D"] assms
    by (simp add: ds_store_def slot_next_def slot_bucket_def same_list_def entry_upd_ok fields fun_eq_iff upd_nth split: option.split)
qed

lemma repoint_ok:
  assumes "set es \<subseteq> {..<length (entries D)}"
  obtains D' where "(case first_of es of None \<Rightarrow> Inr D | Some n \<Rightarrow> entry_upd n (\<lambda>x. x\<lparr>eprev_next := s\<rparr>) D) = Inr D'"
    "en D' = en D" "ibuckets D' = ibuckets D" "epn D' = repoint es s (epn D)" "same_list D D'"
proof (cases es)
  case Nil
  then show ?thesis using that [of D] by (simp add: first_of_def same_list_def)
next
  case (Cons n ns)
  then show ?thesis using that [of "upd n (\<lambda>x. x\<lparr>eprev_next := s\<rparr>) D"] assms
    by (simp add: first_of_def same_list_def entry_upd_ok fields fun_eq_iff upd_nth split: option.split)
qed

lemma relink_ok:
  assumes "i < length (entries D)"
  shows "entry_upd i (\<lambda>e. e\<lparr>enext := v, eprev_next := s\<rparr>) D = Inr (upd i (\<lambda>e. e\<lparr>enext := v, eprev_next := s\<rparr>) D)"
    "en (upd i (\<lambda>e. e\<lparr>enext := v, eprev_next := s\<rparr>) D) = (en D)(i := v)"
    "epn (upd i (\<lambda>e. e\<lparr>enext := v, eprev_next := s\<rparr>) D) = (epn D)(i := s)"
    "same_list D (upd i (\<lambda>e. e\<lparr>enext := v, eprev_next := s\<rparr>) D)"
  using assms by (simp_all add: same_list_def entry_upd_ok fields fun_eq_iff upd_nth split: option.split)

lemma same_list_trans: "same_list D D' \<Longrightarrow> same_list D' D'' \<Longrightarrow> same_list D D''"
  by (simp add: same_list_def)

lemma int_map_remove_eq:
  assumes rep: "mrep D cs U" and i: "i \<in> U" and c: "cs ! bucket_for (length (ibuckets D)) (ek D i) = xs @ i # ys"
  obtains D' where "int_map_remove i D = Inr D'" "same_list D D'"
    "en D' = (slot_next (slot_at (bucket_for (length (ibuckets D)) (ek D i)) xs) (en D i) (en D))(i := None)"
    "epn D' = (repoint ys (epn D i) (epn D))(i := None)"
    "ibuckets D' = slot_bucket (slot_at (bucket_for (length (ibuckets D)) (ek D i)) xs) (en D i) (ibuckets D)"
proof -
  let ?b = "bucket_for (length (ibuckets D)) (ek D i)"
  let ?s = "slot_at ?b xs"
  have b: "?b < length (ibuckets D)" by (rule mrep_member [OF rep i])
  have U: "U \<subseteq> {..<length (entries D)}" "length cs = length (ibuckets D)" "backs (epn D) cs" using rep by (auto simp: mrep_def table_def)
  note ch = mrep_chain [OF rep b, unfolded c]
  have in_i: "i < length (entries D)" and sub: "set (xs @ i # ys) \<subseteq> {..<length (entries D)}" using ch(2) U(1) by auto
  have slot: "epn D i = Some ?s" using backs_slot [OF U(3) _ c] b U(2) by simp
  have si: "?s \<noteq> Next_of i" using ch(3) last_in_set [of xs] by (auto simp: slot_at_def)
  have "case ?s of Bucket b \<Rightarrow> b < length (ibuckets D) | Next_of i \<Rightarrow> i < length (entries D)"
    using b sub subsetD [OF sub, of "last xs"] by (auto simp: slot_at_def)
  then obtain D1 where D1: "ds_store (Some ?s) (en D i) D = Inr D1" "en D1 = slot_next ?s (en D i) (en D)" "ibuckets D1 = slot_bucket ?s (en D i) (ibuckets D)"
    "epn D1 = epn D" "same_list D D1" by (rule ds_store_ok)
  have len: "length (entries D1) = length (entries D)" using D1(5) by (simp add: same_list_def)
  have e1: "enext (entries D1 ! i) = first_of ys" "eprev_next (entries D1 ! i) = epn D i"
    using fun_cong [OF D1(2), of i] fun_cong [OF D1(4), of i] si chain_next_first [OF ch(1)]
    by (auto simp: slot_next_def en_def epn_def split: slot.splits)
  obtain D2 where D2: "(case first_of ys of None \<Rightarrow> Inr D1 | Some n \<Rightarrow> entry_upd n (\<lambda>x. x\<lparr>eprev_next := epn D i\<rparr>) D1) = Inr D2"
    "en D2 = en D1" "ibuckets D2 = ibuckets D1" "epn D2 = repoint ys (epn D i) (epn D1)" "same_list D1 D2"
    using repoint_ok [of ys D1 "epn D i"] sub len by auto
  have in2: "i < length (entries D2)" using in_i len D2(5) by (simp add: same_list_def)
  note r = relink_ok [OF in2, of None None]
  have "int_map_remove i D = Inr (upd i (\<lambda>e. e\<lparr>enext := None, eprev_next := None\<rparr>) D2)"
  proof -
    have store: "bindE (vec_get (entries D) i) (\<lambda>e. ds_store (eprev_next e) (enext e) D) = Inr D1"
      using in_i slot D1(1) by (simp add: en_def epn_def)
    have get: "vec_get (entries D1) i = Inr (entries D1 ! i)" using in_i len by simp
    show ?thesis unfolding int_map_remove_def store bindE_Inr get e1 D2(1) by (rule r(1))
  qed
  moreover have "same_list D (upd i (\<lambda>e. e\<lparr>enext := None, eprev_next := None\<rparr>) D2)"
    using same_list_trans [OF same_list_trans [OF D1(5) D2(5)] r(4)] .
  ultimately show ?thesis using that r(2,3) D1 D2 by simp
qed

lemma int_map_remove_ok:
  assumes rep: "mrep D cs U" and i: "i \<in> U"
  obtains D' cs' where "int_map_remove i D = Inr D'" "same_list D D'" "mrep D' cs' (U - {i})" "epn D' i = None"
proof -
  let ?b = "bucket_for (length (ibuckets D)) (ek D i)"
  have b: "?b < length (ibuckets D)" by (rule mrep_member [OF rep i])
  have t: "table (en D) (ibuckets D) cs" "backs (epn D) cs" "set (concat cs) = U" "U \<subseteq> {..<length (entries D)}" "inj_on (ek D) U"
    "\<forall>b < length (ibuckets D). \<forall>e \<in> set (cs ! b). bucket_for (length (ibuckets D)) (ek D e) = b" "ibuckets D \<noteq> []"
    "\<forall>e < length (entries D). e \<notin> U \<longrightarrow> epn D e = None" using rep by (auto simp: mrep_def)
  have len: "length cs = length (ibuckets D)" "distinct (concat cs)" using t(1) by (auto simp: table_def)
  obtain xs ys where c: "cs ! ?b = xs @ i # ys" using mrep_member(2) [OF rep i] by (auto dest: split_list)
  let ?s = "slot_at ?b xs" and ?cs = "cs[?b := xs @ ys]"
  obtain D' where D': "int_map_remove i D = Inr D'" "same_list D D'" "en D' = (slot_next ?s (en D i) (en D))(i := None)"
    "epn D' = (repoint ys (epn D i) (epn D))(i := None)" "ibuckets D' = slot_bucket ?s (en D i) (ibuckets D)"
    using int_map_remove_eq [OF rep i c] .
  have "mset (concat cs) = add_mset i (mset (concat ?cs))" by (rule table_remove_mset) (use b len c in auto)
  then have set': "set (concat ?cs) = U - {i}" using len(2) t(3)
    by (metis Diff_insert_absorb distinct.simps(2) list.simps(15) mset.simps(2) mset_eq_imp_distinct_iff mset_eq_setD)
  have same: "ek D' = ek D" "length (entries D') = length (entries D)" "length (ibuckets D') = length (ibuckets D)" using D'(2) by (auto simp: same_list_def)
  have "table (slot_next ?s (en D i) (en D)) (slot_bucket ?s (en D i) (ibuckets D)) ?cs" by (rule table_remove [OF t(1) b c])
  moreover have "table (en D') (ibuckets D') ?cs = table (slot_next ?s (en D i) (en D)) (ibuckets D') ?cs"
    by (rule table_cong) (use set' D'(3) in auto)
  ultimately have "table (en D') (ibuckets D') ?cs" unfolding D'(5) by simp
  moreover have "backs (epn D') ?cs" unfolding D'(4) using b len by (intro backs_remove t(2) c) simp_all
  moreover have "bucket_for (length (ibuckets D)) (ek D e) = j" if "j < length (ibuckets D)" "e \<in> set (?cs ! j)" for j e
  proof -
    have "e \<in> set (cs ! j)" using that len(1) c by (cases "j = ?b") simp_all
    then show ?thesis using t(6) that(1) by blast
  qed
  moreover have "epn D' e = None" if "e < length (entries D)" "e \<notin> U - {i}" for e
  proof -
    have "set ys \<subseteq> U" using mrep_chain(2) [OF rep b] c by auto
    then show ?thesis unfolding D'(4) using that t(8) by (cases ys) auto
  qed
  moreover have "ibuckets D' \<noteq> []" "U - {i} \<subseteq> {..<length (entries D)}" using same(3) t(4,7) by auto
  moreover have "inj_on (ek D) (U - {i})" using t(5) by (rule inj_on_subset) simp
  ultimately have "mrep D' ?cs (U - {i})" unfolding mrep_def set' same by blast
  then show ?thesis using that [OF D'(1,2)] D'(4) by simp
qed

lemma int_map_insert_ok:
  assumes rep: "mrep D cs U" and i: "i \<notin> U" "i < length (entries D)" and k: "ek D i \<notin> ek D ` U"
  obtains D' cs' where "int_map_insert i D = Inr (True, D')" "same_list D D'" "mrep D' cs' (insert i U)"
proof -
  let ?b = "bucket_for (length (ibuckets D)) (ek D i)"
  have t: "table (en D) (ibuckets D) cs" "backs (epn D) cs" "set (concat cs) = U" "U \<subseteq> {..<length (entries D)}" "inj_on (ek D) U"
    "\<forall>b < length (ibuckets D). \<forall>e \<in> set (cs ! b). bucket_for (length (ibuckets D)) (ek D e) = b" "ibuckets D \<noteq> []"
    "\<forall>e < length (entries D). e \<notin> U \<longrightarrow> epn D e = None" using rep by (auto simp: mrep_def)
  have len: "length cs = length (ibuckets D)" "distinct (concat cs)" using t(1) by (auto simp: table_def)
  have b: "?b < length (ibuckets D)" using t(7) by simp
  note ch = mrep_chain [OF rep b]
  have h: "ibuckets D ! ?b = first_of (cs ! ?b)" using chain_first [OF ch(1)] .
  let ?D1 = "upd i (\<lambda>e. e\<lparr>enext := ibuckets D ! ?b, eprev_next := Some (Bucket ?b)\<rparr>) D"
  note D1 = relink_ok [OF i(2), where v = "ibuckets D ! ?b" and s = "Some (Bucket ?b)"]
  obtain D2 where D2: "(case ibuckets D ! ?b of None \<Rightarrow> Inr ?D1 | Some n \<Rightarrow> entry_upd n (\<lambda>x. x\<lparr>eprev_next := Some (Next_of i)\<rparr>) ?D1) = Inr D2"
    "en D2 = en ?D1" "ibuckets D2 = ibuckets ?D1" "epn D2 = repoint (cs ! ?b) (Some (Next_of i)) (epn ?D1)" "same_list ?D1 D2"
    by (rule repoint_ok [of "cs ! ?b" ?D1 "Some (Next_of i)", folded h]) (use ch(2) t(4) in auto)
  let ?bs = "(ibuckets D)[?b := Some i]" and ?cs = "cs[?b := i # cs ! ?b]"
  let ?D' = "D2\<lparr>ibuckets := ?bs\<rparr>"
  have ins: "int_map_insert i D = Inr (True, ?D')"
  proof -
    have "eprev_next (entries D ! i) = None" "ekey (entries D ! i) = ek D i" using t(8) i by (auto simp: epn_def ek_def)
    then show ?thesis unfolding int_map_insert_def using i(2) t(7) int_map_find_miss [OF rep k] b D1(1) D2(1,3)
      by (simp add: ds_bucket_for_eq Let_def)
  qed
  have f: "en ?D' = en D2" "epn ?D' = epn D2" "same_list D2 ?D'"
    using D2(3) by (auto simp: fields [abs_def] same_list_def)
  have sl: "same_list D ?D'" using same_list_trans [OF same_list_trans [OF D1(4) D2(5)] f(3)] .
  have "mset (concat ?cs) = add_mset i (mset (concat cs))"
    using mset_concat_update [of ?b cs "i # cs ! ?b"] b len by simp
  then have set': "set (concat ?cs) = insert i U" using t(3) by (metis set_mset_add_mset_insert set_mset_mset)
  have nin: "i \<notin> set (concat cs)" "i \<notin> set (cs ! ?b)" using i(1) t(3) ch(2) by auto
  have "table (en ?D') ?bs ?cs" unfolding f(1) D2(2) D1(2) by (rule table_insert [OF t(1) nin(1) b])
  moreover have "repoint (cs ! ?b) (Some (Next_of i)) ((epn D)(i := Some (Bucket ?b))) = (repoint (cs ! ?b) (Some (Next_of i)) (epn D))(i := Some (Bucket ?b))"
    using nin(2) by (cases "cs ! ?b") auto
  then have ep: "epn ?D' = (repoint (cs ! ?b) (Some (Next_of i)) (epn D))(i := Some (Bucket ?b))" unfolding f(2) D2(4) D1(3) by simp
  have "backs (epn ?D') ?cs" unfolding ep using b len(1) by (intro backs_insert [OF t(2) nin(1) _ len(2)]) simp
  moreover have same: "ek ?D' = ek D" "length (entries ?D') = length (entries D)" using sl by (simp_all only: same_list_def)
  moreover have "bucket_for (length (ibuckets D)) (ek D e) = j" if "j < length (ibuckets D)" "e \<in> set (?cs ! j)" for j e
    using that len(1) t(6) by (cases "j = ?b") auto
  moreover have "epn ?D' e = None" if "e < length (entries D)" "e \<notin> insert i U" for e
    unfolding ep using that t(8) ch(2) by (cases "cs ! ?b") auto
  moreover have "insert i U \<subseteq> {..<length (entries D)}" "inj_on (ek D) (insert i U)" using t(4,5) i k by auto
  moreover have "?bs \<noteq> []" using t(7) by simp
  moreover have ib: "ibuckets ?D' = ?bs" "length ?bs = length (ibuckets D)" by simp_all
  ultimately have "mrep ?D' ?cs (insert i U)" unfolding mrep_def set' same(1,2) ib by blast
  then show ?thesis by (rule that [OF ins sl])
qed

section \<open>The cache\<close>

text \<open>Sizes that no operation but the use of a new entry changes.\<close>

definition same_size :: "DsCache \<Rightarrow> DsCache \<Rightarrow> bool" where
  "same_size D D' \<longleftrightarrow> length (entries D') = length (entries D) \<and> length (ibuckets D') = length (ibuckets D) \<and> dcapacity D' = dcapacity D \<and> used D' = used D"

lemma same_size_map: "same_map D D' \<Longrightarrow> same_size D D'"
  by (simp add: same_map_def same_size_def)

lemma same_size_list: "same_list D D' \<Longrightarrow> same_size D D'"
  by (simp add: same_list_def same_size_def)

lemma lrep_same_list: "same_list D D' \<Longrightarrow> lrep D' ns = lrep D ns"
  by (simp add: same_list_def lrep_def)

lemma store_key_ok:
  assumes l: "lrep D ns" and m: "mrep D cs (set ns)" and i: "i \<notin> set ns" "i < length (entries D)" and k: "k \<notin> ek D ` set ns"
  obtains D' cs' where "bindE (entry_upd i (\<lambda>e. e\<lparr>ekey := k, evalue := i\<rparr>) D) (\<lambda>D. bindE (int_map_insert i D) (\<lambda>(inserted, D).
      if \<not> inserted then Inl Assertion_failed else Inr (i, D))) = Inr (i, D')"
    "lrep D' ns" "mrep D' cs' (insert i (set ns))" "ek D' = (ek D)(i := k)" "ev D' = (ev D)(i := i)" "same_size D D'"
proof -
  let ?D1 = "upd i (\<lambda>e. e\<lparr>ekey := k, evalue := i\<rparr>) D"
  have f: "dn ?D1 = dn D" "dp ?D1 = dp D" "en ?D1 = en D" "epn ?D1 = epn D" "ek ?D1 = (ek D)(i := k)" "ev ?D1 = (ev D)(i := i)"
    using i(2) by (simp_all add: fun_eq_iff fields upd_nth split: option.split)
  have "mrep ?D1 cs (set ns) = mrep D cs (set ns)" by (rule mrep_cong) (use f i(1) in auto)
  then have m1: "mrep ?D1 cs (set ns)" using m by simp
  have "ek ?D1 i \<notin> ek ?D1 ` set ns" unfolding f(5) using k i(1) by auto
  then obtain D2 cs' where D2: "int_map_insert i ?D1 = Inr (True, D2)" "same_list ?D1 D2" "mrep D2 cs' (insert i (set ns))"
    using int_map_insert_ok [OF m1 i(1)] i(2) by auto
  have "lrep D2 ns" using l D2(2) f by (simp add: lrep_same_list) (simp add: lrep_def)
  moreover have "ek D2 = (ek D)(i := k)" "ev D2 = (ev D)(i := i)" "same_size D D2"
    using D2(2) f by (auto simp: same_list_def same_size_def)
  ultimately show ?thesis using that [of D2 cs'] D2 i(2) by (simp add: entry_upd_ok)
qed

definition ds_rep :: "DsCache \<Rightarrow> nat list \<Rightarrow> bool" where
  "ds_rep D ns \<longleftrightarrow> 0 < dcapacity D \<and> length (entries D) = dcapacity D \<and> length (ibuckets D) = dcapacity D \<and>
     set ns = {..<used D} \<and> length ns = used D \<and> used D \<le> dcapacity D \<and> lrep D ns \<and> (\<exists>cs. mrep D cs (set ns)) \<and> (\<forall>i \<in> set ns. ev D i = i)"

lemma ds_rep_push:
  assumes l: "lrep D ns" and m: "mrep D cs (insert i (set ns))" and i: "i \<notin> set ns" "i < length (entries D)"
    and sz: "0 < dcapacity D" "length (entries D) = dcapacity D" "length (ibuckets D) = dcapacity D" "insert i (set ns) = {..<used D}"
      "Suc (length ns) = used D" "used D \<le> dcapacity D" and v: "\<forall>j \<in> insert i (set ns). ev D j = j"
  obtains D' where "ds_list_push_front None (Some i) D = Inr D'" "ds_rep D' (i # ns)" "ek D' = ek D" "dcapacity D' = dcapacity D"
proof -
  obtain D' where D': "ds_list_push_front None (Some i) D = Inr D'" "lrep D' (i # ns)" "same_map D D'" using ds_list_push_front_ok [OF l i] .
  have "mrep D' cs (set (i # ns))" using m mrep_same_map [OF D'(3)] by simp
  then have "ds_rep D' (i # ns)" using D'(2,3) sz v by (auto simp: ds_rep_def same_map_def)
  then show ?thesis using that D' by (simp add: same_map_def)
qed

lemma lru_access_hit:
  assumes r: "ds_rep D (xs @ i # ys)"
  obtains D' where "lru_access (ek D i) D = Inr (True, D')" "ds_rep D' (i # xs @ ys)" "ek D' = ek D" "dcapacity D' = dcapacity D"
proof -
  obtain cs where R: "0 < dcapacity D" "length (entries D) = dcapacity D" "length (ibuckets D) = dcapacity D" "set (xs @ i # ys) = {..<used D}"
    "length (xs @ i # ys) = used D" "used D \<le> dcapacity D" "lrep D (xs @ i # ys)" "mrep D cs (set (xs @ i # ys))"
    "\<forall>j \<in> set (xs @ i # ys). ev D j = j" using r unfolding ds_rep_def by blast
  have i: "i < length (entries D)" "i \<notin> set (xs @ ys)" "evalue (entries D ! i) = i"
    using R(7,9) by (auto simp: lrep_def ring_def ev_def)
  obtain D1 where D1: "ds_list_remove (Some i) D = Inr D1" "lrep D1 (xs @ ys)" "same_map D D1" using ds_list_remove_ok [OF R(7)] .
  have m1: "mrep D1 cs (insert i (set (xs @ ys)))" using R(8) mrep_same_map [OF D1(3)] by simp
  obtain D2 where D2: "ds_list_push_front None (Some i) D1 = Inr D2" "ds_rep D2 (i # xs @ ys)" "ek D2 = ek D1" "dcapacity D2 = dcapacity D1"
    by (rule ds_rep_push [OF D1(2) m1]) (use R D1(3) i in \<open>auto simp: same_map_def\<close>)
  have find: "int_map_find (ek D i) D = Inr (Some i)" using int_map_find_hit [OF R(8)] by simp
  have "lru_access (ek D i) D = Inr (True, D2)" using R(1) i find D1(1) D2(1) by (simp add: lru_access_def)
  then show ?thesis using that [of D2] D2 D1(3) by (simp add: same_map_def)
qed

lemma ds_repE:
  assumes "ds_rep D ns"
  obtains cs where "0 < dcapacity D" "length (entries D) = dcapacity D" "length (ibuckets D) = dcapacity D" "set ns = {..<used D}"
    "length ns = used D" "used D \<le> dcapacity D" "lrep D ns" "mrep D cs (set ns)" "\<forall>j \<in> set ns. ev D j = j"
  using assms unfolding ds_rep_def by blast

text \<open>A miss: the new entry \<open>i\<close> of the cache \<open>D1\<close> gets the key and goes to the front.\<close>

lemma lru_access_miss_end:
  assumes l: "lrep D1 ns" and m: "mrep D1 cs (set ns)" and i: "i \<notin> set ns" "i < length (entries D1)" and k: "k \<notin> ek D1 ` set ns"
    and sz: "0 < dcapacity D1" "length (entries D1) = dcapacity D1" "length (ibuckets D1) = dcapacity D1" "insert i (set ns) = {..<used D1}"
      "Suc (length ns) = used D1" "used D1 \<le> dcapacity D1" and v: "\<forall>j \<in> set ns. ev D1 j = j"
  obtains D' where "bindE (bindE (entry_upd i (\<lambda>e. e\<lparr>ekey := k, evalue := i\<rparr>) D1) (\<lambda>D. bindE (int_map_insert i D) (\<lambda>(inserted, D).
      if \<not> inserted then Inl Assertion_failed else Inr (i, D)))) (\<lambda>(i, D).
      bindE (ds_list_push_front None (Some i) D) (\<lambda>D. Inr (found, D))) = Inr (found, D')"
    "ds_rep D' (i # ns)" "map (ek D') (i # ns) = k # map (ek D1) ns" "dcapacity D' = dcapacity D1"
proof -
  obtain D2 cs2 where D2: "bindE (entry_upd i (\<lambda>e. e\<lparr>ekey := k, evalue := i\<rparr>) D1) (\<lambda>D. bindE (int_map_insert i D) (\<lambda>(inserted, D).
      if \<not> inserted then Inl Assertion_failed else Inr (i, D))) = Inr (i, D2)"
    "lrep D2 ns" "mrep D2 cs2 (insert i (set ns))" "ek D2 = (ek D1)(i := k)" "ev D2 = (ev D1)(i := i)" "same_size D1 D2"
    by (rule store_key_ok [OF l m i k])
  obtain D3 where D3: "ds_list_push_front None (Some i) D2 = Inr D3" "ds_rep D3 (i # ns)" "ek D3 = ek D2" "dcapacity D3 = dcapacity D2"
    by (rule ds_rep_push [OF D2(2,3) i(1)]) (use D2(5,6) sz i(2) v in \<open>auto simp: same_size_def\<close>)
  have "map (ek D3) (i # ns) = k # map (ek D1) ns" using D3(3) D2(4) i(1) by auto
  then show ?thesis using that [of D3] D2(1,6) D3 by (simp add: same_size_def)
qed

lemma lru_access_miss:
  assumes r: "ds_rep D ns" and k: "k \<notin> ek D ` set ns"
  obtains D' ns' where "lru_access k D = Inr (False, D')" "ds_rep D' ns'"
    "map (ek D') ns' = take (dcapacity D) (k # map (ek D) ns)" "dcapacity D' = dcapacity D"
proof -
  obtain cs where R: "0 < dcapacity D" "length (entries D) = dcapacity D" "length (ibuckets D) = dcapacity D" "set ns = {..<used D}"
    "length ns = used D" "used D \<le> dcapacity D" "lrep D ns" "mrep D cs (set ns)" "\<forall>j \<in> set ns. ev D j = j" by (rule ds_repE [OF r])
  have find: "int_map_find k D = Inr None" by (rule int_map_find_miss [OF R(8) k])
  show ?thesis
  proof (cases "used D < dcapacity D")
    case True
    let ?i = "used D" and ?D0 = "D\<lparr>used := Suc (used D)\<rparr>"
    have v0: "valid ?D0 (Some ?i)" using True R(2) by (simp add: valid_def)
    obtain D1 where D1: "list_init (Some ?i) ?D0 = Inr D1" "dn D1 = (dn ?D0)(Some ?i := Some ?i)" "dp D1 = (dp ?D0)(Some ?i := Some ?i)" "same_map ?D0 D1"
      using list_init_ok [OF v0] .
    have f0: "dn ?D0 = dn D" "dp ?D0 = dp D" "ek ?D0 = ek D" "ev ?D0 = ev D" "en ?D0 = en D" "epn ?D0 = epn D" by (simp_all add: fields [abs_def])
    have l1: "lrep D1 ns"
    proof -
      have "ring (dn D1) (dp D1) None (map Some ns) = ring (dn D) (dp D) None (map Some ns)"
        unfolding D1(2,3) f0 using R(4) by (intro ring_cong) auto
      then show ?thesis using R(7) D1(4) by (simp add: lrep_def same_map_def)
    qed
    have "mrep D1 cs (set ns) = mrep D cs (set ns)" by (rule mrep_cong) (use D1(4) f0 in \<open>auto simp: same_map_def\<close>)
    then have m1: "mrep D1 cs (set ns)" using R(8) by simp
    obtain D' where D': "bindE (bindE (entry_upd ?i (\<lambda>e. e\<lparr>ekey := k, evalue := ?i\<rparr>) D1) (\<lambda>D. bindE (int_map_insert ?i D) (\<lambda>(inserted, D).
        if \<not> inserted then Inl Assertion_failed else Inr (?i, D)))) (\<lambda>(i, D).
        bindE (ds_list_push_front None (Some i) D) (\<lambda>D. Inr (False, D))) = Inr (False, D')"
      "ds_rep D' (?i # ns)" "map (ek D') (?i # ns) = k # map (ek D1) ns" "dcapacity D' = dcapacity D1"
      by (rule lru_access_miss_end [OF l1 m1, where found = False])
        (use D1(4) f0 R(1-6,9) True k in \<open>auto simp: same_map_def lessThan_Suc\<close>)
    have "lru_access k D = Inr (False, D')" using R(1) find True D1(1) D'(1) by (simp add: lru_access_def)
    moreover have "map (ek D') (?i # ns) = take (dcapacity D) (k # map (ek D) ns)"
      unfolding D'(3) using D1(4) f0 R(5) True by (simp add: same_map_def)
    ultimately show ?thesis using that [of D' "?i # ns"] D'(2,4) D1(4) by (simp add: same_map_def)
  next
    case False
    then have full: "used D = dcapacity D" using R(6) by simp
    then obtain ns1 i where ns: "ns = ns1 @ [i]" using R(1,5) by (metis length_0_conv less_nat_zero_code rev_exhaust)
    have hp: "head_prev D = Some i" using ring_prev [of "dn D" "dp D" None "map Some ns"] R(7) ns by (simp add: lrep_def dp_def)
    have i: "i \<notin> set ns1" "i < length (entries D)" using R(7) ns by (auto simp: lrep_def ring_def)
    obtain D1 where D1: "ds_list_remove (Some i) D = Inr D1" "lrep D1 ns1" "same_map D D1"
      using ds_list_remove_ok [of D ns1 i "[]"] R(7) ns by (metis append_Nil2)
    have m1: "mrep D1 cs (set ns)" using R(8) mrep_same_map [OF D1(3)] by simp
    obtain D2 cs2 where D2: "int_map_remove i D1 = Inr D2" "same_list D1 D2" "mrep D2 cs2 (set ns - {i})"
      by (rule int_map_remove_ok [OF m1, of i]) (use ns in auto)
    have l2: "lrep D2 ns1" using D1(2) lrep_same_list [OF D2(2)] by simp
    have "set ns - {i} = set ns1" using ns i(1) by auto
    then have m2: "mrep D2 cs2 (set ns1)" using D2(3) by simp
    have f2: "ek D2 = ek D" "ev D2 = ev D" "same_size D D2" using D1(3) D2(2) by (auto simp: same_map_def same_list_def same_size_def)
    obtain D' where D': "bindE (bindE (entry_upd i (\<lambda>e. e\<lparr>ekey := k, evalue := i\<rparr>) D2) (\<lambda>D. bindE (int_map_insert i D) (\<lambda>(inserted, D).
        if \<not> inserted then Inl Assertion_failed else Inr (i, D)))) (\<lambda>(i, D).
        bindE (ds_list_push_front None (Some i) D) (\<lambda>D. Inr (False, D))) = Inr (False, D')"
      "ds_rep D' (i # ns1)" "map (ek D') (i # ns1) = k # map (ek D2) ns1" "dcapacity D' = dcapacity D2"
      by (rule lru_access_miss_end [OF l2 m2, where found = False])
        (use f2 R(1-6,9) full k i ns in \<open>auto simp: same_size_def\<close>)
    have "lru_access k D = Inr (False, D')" using R(1) find False hp D1(1) D2(1) D'(1) by (simp add: lru_access_def)
    moreover have "map (ek D') (i # ns1) = take (dcapacity D) (k # map (ek D) ns)"
      unfolding D'(3) using f2 R(5) full ns by (cases "dcapacity D") auto
    ultimately show ?thesis using that [of D' "i # ns1"] D'(2,4) f2(3) by (simp add: same_size_def)
  qed
qed

end
