(* ===== verification/Lru_C_Ds_Main.thy ===== *)
theory Lru_C_Ds_Main
  imports Lru_C_Ds_Props
begin

text \<open>
  The cache on intrusive structures from creation to destruction, and its driver program. After its creation it never
  allocates, so it implements the interface of an LRU cache without conditions.
\<close>

section \<open>The interface\<close>

definition ds_inv :: "DsCache \<Rightarrow> bool" where
  "ds_inv D \<longleftrightarrow> dcapacity D = 0 \<and> entries D = [] \<and> ibuckets D = [] \<or> (\<exists>ns. ds_rep D ns)"

fun ds_walk :: "nat \<Rightarrow> DsCache \<Rightarrow> nat option \<Rightarrow> nat list" where
  "ds_walk 0 D p = []"
| "ds_walk (Suc fuel) D p = (case p of None \<Rightarrow> [] | Some i \<Rightarrow> i # ds_walk fuel D (lnext (entries D ! i)))"

definition ds_keys :: "DsCache \<Rightarrow> int list" where
  "ds_keys D = map (\<lambda>i. ekey (entries D ! i)) (ds_walk (length (entries D)) D (head_next D))"

lemma ds_walk_path: "path (dn D) p (map Some ns) None \<Longrightarrow> length ns \<le> fuel \<Longrightarrow> ds_walk fuel D (dn D p) = ns"
proof (induction ns arbitrary: p fuel)
  case Nil
  then show ?case by (cases fuel) auto
next
  case (Cons i ns)
  then obtain f where f: "fuel = Suc f" by (cases fuel) auto
  have "ds_walk f D (dn D (Some i)) = ns" using Cons f by simp
  then show ?case using f Cons.prems(1) by (simp add: dn_def [of D "Some i"])
qed

lemma ds_keys_eq: "ds_rep D ns \<Longrightarrow> ds_keys D = map (ek D) ns"
proof -
  assume "ds_rep D ns"
  then have "ring (dn D) (dp D) None (map Some ns)" "length ns \<le> length (entries D)" by (auto simp: ds_rep_def lrep_def)
  then have "ds_walk (length (entries D)) D (dn D None) = ns" by (intro ds_walk_path) (auto simp: ring_def)
  then show ?thesis by (simp add: ds_keys_def dn_def ek_def [abs_def])
qed

lemma lru_access_ok:
  assumes "ds_inv D"
  shows "\<exists>D'. lru_access k D = Inr (k \<in> set (ds_keys D), D') \<and> ds_inv D' \<and> dcapacity D' = dcapacity D \<and>
    ds_keys D' = take (dcapacity D) (touch k (ds_keys D))"
proof (cases "dcapacity D = 0")
  case True
  then have "entries D = []" using assms by (auto simp: ds_inv_def ds_rep_def)
  then show ?thesis using True assms by (simp add: lru_access_def ds_keys_def)
next
  case False
  then obtain ns where ns: "ds_rep D ns" using assms by (auto simp: ds_inv_def)
  have len: "length ns \<le> dcapacity D" and inj: "inj_on (ek D) (set ns)" and d: "distinct ns"
    using ns by (auto simp: ds_rep_def mrep_def lrep_def ring_def distinct_map)
  note keys = ds_keys_eq [OF ns]
  show ?thesis
  proof (cases "k \<in> ek D ` set ns")
    case True
    then obtain i where "i \<in> set ns" "ek D i = k" by auto
    then obtain xs ys where sp: "ns = xs @ i # ys" by (auto dest: split_list)
    obtain D' where D': "lru_access (ek D i) D = Inr (True, D')" "ds_rep D' (i # xs @ ys)" "ek D' = ek D" "dcapacity D' = dcapacity D"
      using lru_access_hit ns sp by blast
    have "remove1 k (map (ek D) ns) = map (ek D) (xs @ ys)"
    proof -
      have "k \<notin> ek D ` set xs" using inj d sp \<open>ek D i = k\<close> by (auto simp: inj_on_def)
      then show ?thesis using sp \<open>ek D i = k\<close> by (simp add: remove1_append)
    qed
    moreover have "length (map (ek D) (i # xs @ ys)) \<le> dcapacity D" using len sp by simp
    ultimately have "ds_keys D' = take (dcapacity D) (touch k (ds_keys D))"
      using ds_keys_eq [OF D'(2)] keys D'(3) \<open>ek D i = k\<close> by (simp add: touch_def)
    then show ?thesis using D' True keys \<open>ek D i = k\<close> by (auto simp: ds_inv_def)
  next
    case False
    obtain D' ns' where D': "lru_access k D = Inr (False, D')" "ds_rep D' ns'"
      "map (ek D') ns' = take (dcapacity D) (k # map (ek D) ns)" "dcapacity D' = dcapacity D"
      using lru_access_miss [OF ns False] .
    have "touch k (ds_keys D) = k # map (ek D) ns" using False keys by (simp add: touch_def remove1_idem)
    then show ?thesis using D' False keys ds_keys_eq [OF D'(2)] by (auto simp: ds_inv_def)
  qed
qed

interpretation dslru: lru_cache ds_inv ds_keys dcapacity lru_access
  by unfold_locales (rule lru_access_ok)

section \<open>Creation and destruction\<close>

text \<open>The blocks of a cache.\<close>

definition owned :: "DsCache \<Rightarrow> ds_block set" where
  "owned D = {Cache_block} \<union> (if entries D = [] then {} else {Entries_block}) \<union> (if ibuckets D = [] then {} else {Buckets_block})"

lemma clear_bucket_ok:
  "mrep D cs U \<Longrightarrow> b < length (ibuckets D) \<Longrightarrow> card U < fuel \<Longrightarrow>
   \<exists>D' cs' U'. clear_bucket fuel b D = Inr D' \<and> mrep D' cs' U' \<and> same_size D D' \<and> ibuckets D' ! b = None"
proof (induction fuel arbitrary: D cs U)
  case (Suc fuel)
  show ?case
  proof (cases "ibuckets D ! b")
    case None
    then show ?thesis using Suc.prems by (auto simp: same_size_def)
  next
    case (Some i)
    have "i \<in> set (cs ! b)" using mrep_chain(1) [OF Suc.prems(1,2)] Some by (cases "cs ! b") auto
    then have i: "i \<in> U" using mrep_chain(2) [OF Suc.prems(1,2)] by auto
    obtain D1 cs1 where D1: "int_map_remove i D = Inr D1" "same_list D D1" "mrep D1 cs1 (U - {i})"
      using int_map_remove_ok [OF Suc.prems(1) i] .
    have "finite U" using Suc.prems(1) by (auto simp: mrep_def)
    then have "card (U - {i}) < fuel" using card_Diff1_less [of U i] i Suc.prems(3) by linarith
    then obtain D' cs' U' where "clear_bucket fuel b D1 = Inr D'" "mrep D' cs' U'" "same_size D1 D'" "ibuckets D' ! b = None"
      using Suc.IH [OF D1(3)] Suc.prems(2) D1(2) by (auto simp: same_list_def)
    then show ?thesis using Some Suc.prems(2) D1(1,2) by (auto simp: same_list_def same_size_def)
  qed
qed simp

lemma clear_buckets_ok:
  "mrep D cs U \<Longrightarrow> n \<le> length (ibuckets D) \<Longrightarrow> \<exists>D' cs' U'. clear_buckets n D = Inr D' \<and> mrep D' cs' U' \<and> same_size D D'"
proof (induction n)
  case 0
  then show ?case by (auto simp: same_size_def)
next
  case (Suc n)
  then obtain D1 cs1 U1 where D1: "clear_buckets n D = Inr D1" "mrep D1 cs1 U1" "same_size D D1" by auto
  have "U1 \<subseteq> {..<length (entries D1)}" using D1(2) by (simp add: mrep_def)
  then have "card U1 < Suc (length (entries D1))" using card_mono [of "{..<length (entries D1)}" U1] by simp
  then obtain D' cs' U' where "clear_bucket (Suc (length (entries D1))) n D1 = Inr D'" "mrep D' cs' U'" "same_size D1 D'"
    using clear_bucket_ok [OF D1(2), of n] D1(3) Suc.prems(2) by (metis Suc_le_lessD same_size_def)
  then show ?case using D1 by (auto simp: same_size_def simp del: clear_bucket.simps)
qed

lemma ds_lru_destroy_ok:
  assumes "ds_inv D \<or> ibuckets D = []"
  shows "ds_lru_destroy (Some D) (owned D) = Inr {}"
proof -
  obtain D1 where D1: "clear_buckets (length (ibuckets D)) D = Inr D1" "same_size D D1"
  proof (cases "ibuckets D = []")
    case True
    then show ?thesis using that [of D] by (simp add: same_size_def)
  next
    case False
    then obtain ns cs where "mrep D cs (set ns)" using assms by (auto simp: ds_inv_def ds_rep_def)
    then show ?thesis using clear_buckets_ok [of D cs "set ns" "length (ibuckets D)"] that by auto
  qed
  have "ibuckets D1 = [] \<longleftrightarrow> ibuckets D = []" "entries D1 = [] \<longleftrightarrow> entries D = []"
    using D1(2) by (metis length_0_conv same_size_def)+
  then show ?thesis using D1(1)
    by (auto simp: ds_lru_destroy_def int_map_destroy_def owned_def ds_free_def)
qed

definition ds_fits :: "nat \<Rightarrow> bool" where
  "ds_fits cap \<longleftrightarrow> cap \<le> (2 ^ 64 - 1) div 48"

lemma ds_lru_create_ok:
  obtains r live where "ds_lru_create av cap = Inr (r, live)"
    "r \<noteq> None \<longleftrightarrow> ds_fits cap \<and> av 0 \<and> (cap = 0 \<or> av 1 \<and> av 2)"
    "case r of None \<Rightarrow> live = {} | Some D \<Rightarrow> ds_inv D \<and> live = owned D \<and> dcapacity D = cap \<and> ds_keys D = []"
proof -
  let ?D = "\<lparr>head_prev = None, head_next = None, ibuckets = [], entries = [], dcapacity = 0, used = 0\<rparr>"
  let ?E = "?D\<lparr>entries := replicate cap zero_entry\<rparr>" and ?F = "?D\<lparr>ibuckets := replicate cap None, entries := replicate cap zero_entry, dcapacity := cap\<rparr>"
  have owned: "owned ?D = {Cache_block}" "0 < cap \<Longrightarrow> owned ?E = {Entries_block, Cache_block}" "0 < cap \<Longrightarrow> owned ?F = {Buckets_block, Entries_block, Cache_block}"
    by (auto simp: owned_def)
  have destroy: "ds_lru_destroy (Some ?D) {Cache_block} = Inr {}" "0 < cap \<Longrightarrow> ds_lru_destroy (Some ?E) {Entries_block, Cache_block} = Inr {}"
    using ds_lru_destroy_ok [of ?D] ds_lru_destroy_ok [of ?E] owned by auto
  have init: "int_map_init (av 2) cap = (if av 2 then Some (replicate cap None) else None)" if "0 < cap" "ds_fits cap"
    using that by (auto simp: int_map_init_def ds_fits_def)
  have "ds_inv ?D" "ds_keys ?D = []" by (auto simp: ds_inv_def ds_keys_def)
  moreover have "ds_rep ?F []" if "0 < cap"
  proof -
    have "mrep ?F (replicate cap []) {}" using that table_replicate by (auto simp: mrep_def backs_def epn_def zero_entry_def)
    moreover have "lrep ?F []" by (simp add: lrep_def ring_def dn_def dp_def)
    ultimately show ?thesis using that by (auto simp: ds_rep_def)
  qed
  then have "ds_inv ?F" "ds_keys ?F = []" if "0 < cap" using that ds_keys_eq by (auto simp: ds_inv_def)
  moreover consider (a) "\<not> ds_fits cap \<or> \<not> av 0" | (b) "ds_fits cap" "av 0" "cap = 0" | (c) "ds_fits cap" "av 0" "0 < cap" "\<not> av 1"
    | (d) "ds_fits cap" "av 0" "0 < cap" "av 1" "\<not> av 2" | (e) "ds_fits cap" "av 0" "0 < cap" "av 1" "av 2" by blast
  then have "\<exists>r live. ds_lru_create av cap = Inr (r, live) \<and> (r \<noteq> None \<longleftrightarrow> ds_fits cap \<and> av 0 \<and> (cap = 0 \<or> av 1 \<and> av 2)) \<and>
     (r = None \<and> live = {} \<or> cap = 0 \<and> r = Some ?D \<and> live = owned ?D \<or> 0 < cap \<and> r = Some ?F \<and> live = owned ?F)"
  proof cases
    case a
    then show ?thesis by (auto simp: ds_lru_create_def ds_fits_def)
  next
    case b
    then show ?thesis using owned by (simp add: ds_lru_create_def ds_fits_def)
  next
    case c
    then show ?thesis using destroy by (simp add: ds_lru_create_def ds_fits_def Let_def)
  next
    case d
    then show ?thesis using destroy init by (simp add: ds_lru_create_def ds_fits_def Let_def)
  next
    case e
    then show ?thesis using owned init by (simp add: ds_lru_create_def ds_fits_def Let_def)
  qed
  ultimately show ?thesis using that by (elim exE conjE disjE) auto
qed

section \<open>The driver\<close>


text \<open>What an access keeps of the blocks: it neither allocates nor frees.\<close>

lemma ds_inv_owned: "ds_inv D \<Longrightarrow> owned D = (if dcapacity D = 0 then {Cache_block} else {Cache_block, Entries_block, Buckets_block})"
  by (auto simp: ds_inv_def ds_rep_def owned_def)




section \<open>Properties\<close>

text \<open>
  C7. An access to the cache on intrusive structures keeps its invariant without undefined behaviour and without its
  assertion failing: it answers whether the key is cached, and the cache then holds the most recently used keys.
  It never allocates or frees; freeing the cache gives back every block it owns.
\<close>

theorem ds_access_refines:
  assumes "ds_inv D"
  shows "\<exists>D'. lru_access k D = Inr (k \<in> set (ds_keys D), D') \<and> ds_inv D' \<and> dcapacity D' = dcapacity D \<and>
    ds_keys D' = take (dcapacity D) (touch k (ds_keys D)) \<and> owned D' = owned D \<and> ds_lru_destroy (Some D') (owned D') = Inr {}"
proof -
  obtain D' where D': "lru_access k D = Inr (k \<in> set (ds_keys D), D')" "ds_inv D'" "dcapacity D' = dcapacity D"
    "ds_keys D' = take (dcapacity D) (touch k (ds_keys D))" using dslru.lookup_ok [OF assms] by blast
  moreover have "owned D' = owned D" using D'(2,3) assms by (simp add: ds_inv_owned)
  moreover have "ds_lru_destroy (Some D') (owned D') = Inr {}" using D'(2) by (intro ds_lru_destroy_ok) simp
  ultimately show ?thesis by blast
qed

theorem ds_access_refines_witness:
  "\<exists>D D'. ds_lru_create (\<lambda>_. True) 2 = Inr (Some D, owned D) \<and> lru_access 7 D = Inr (False, D') \<and> ds_keys D' = [7]"
proof -
  obtain r live where r: "ds_lru_create (\<lambda>_. True) 2 = Inr (r, live)" "r \<noteq> None"
    "case r of None \<Rightarrow> live = {} | Some D \<Rightarrow> ds_inv D \<and> live = owned D \<and> dcapacity D = 2 \<and> ds_keys D = []"
    using ds_lru_create_ok [of "\<lambda>_. True" 2] by (auto simp: ds_fits_def)
  then obtain D where D: "r = Some D" "ds_inv D" "live = owned D" "dcapacity D = 2" "ds_keys D = []" by auto
  then show ?thesis using ds_access_refines [OF D(2), of 7] r(1) by (auto simp: touch_def)
qed



end
