(* ===== verification/Lru_C_Naive.thy ===== *)
theory Lru_C_Naive
  imports C_Common
begin

text \<open>
  \<^verbatim>\<open>01-basics/lru-in-c-naive/main.c\<close>: the whole cache in one function, on an array of nodes with null pointers at the ends of
  the recency list. A pointer to a node is its number in the array, \<open>None\<close> the null pointer. The numbers are
  read with \<^verbatim>\<open>scanf\<close>, which leaves a number out of range undefined.
\<close>

section \<open>Structures\<close>

record Node =
  nval :: int
  prev :: "nat option"
  nxt :: "nat option"
  hash_next :: "nat option"

record Cache =
  chead :: "nat option"
  ctail :: "nat option"
  cbuckets :: "nat option list"
  ccapacity :: nat
  pool :: "Node list"

definition nv_bucket_for :: "int \<Rightarrow> nat \<Rightarrow> nat" where
  "nv_bucket_for v cap = unat (mix64 (word_of_int v)) mod cap"

definition node_upd :: "nat \<Rightarrow> (Node \<Rightarrow> Node) \<Rightarrow> Cache \<Rightarrow> Cache res" where
  "node_upd i f C = bindE (vec_get (pool C) i) (\<lambda>n. Inr (C\<lparr>pool := (pool C)[i := f n]\<rparr>))"

definition unlink_node :: "nat \<Rightarrow> Cache \<Rightarrow> Cache res" where
  "unlink_node i C =
     bindE (bindE (vec_get (pool C) i) (\<lambda>n.
       case prev n of Some p \<Rightarrow> node_upd p (\<lambda>x. x\<lparr>nxt := nxt n\<rparr>) C | None \<Rightarrow> Inr (C\<lparr>chead := nxt n\<rparr>))) (\<lambda>C.
     bindE (vec_get (pool C) i) (\<lambda>n.
       case nxt n of Some q \<Rightarrow> node_upd q (\<lambda>x. x\<lparr>prev := prev n\<rparr>) C | None \<Rightarrow> Inr (C\<lparr>ctail := prev n\<rparr>)))"

definition nv_prepend :: "nat \<Rightarrow> Cache \<Rightarrow> Cache res" where
  "nv_prepend i C =
     bindE (node_upd i (\<lambda>n. n\<lparr>prev := None\<rparr>) C) (\<lambda>C.
     bindE (node_upd i (\<lambda>n. n\<lparr>nxt := chead C\<rparr>) C) (\<lambda>C.
     bindE (case chead C of Some h \<Rightarrow> node_upd h (\<lambda>x. x\<lparr>prev := Some i\<rparr>) C | None \<Rightarrow> Inr (C\<lparr>ctail := Some i\<rparr>)) (\<lambda>C.
     Inr (C\<lparr>chead := Some i\<rparr>))))"

section \<open>The loop\<close>

definition nv_link :: "Cache \<Rightarrow> nat \<Rightarrow> (int \<times> nat option) option" where
  "nv_link C i = (if i < length (pool C) then Some (nval (pool C ! i), hash_next (pool C ! i)) else None)"

text \<open>The loop \<^verbatim>\<open>while (*link != node) link = &(*link)->hash_next\<close> and the assignment after it.\<close>

fun find_link :: "nat \<Rightarrow> Cache \<Rightarrow> nat \<Rightarrow> nat slot \<Rightarrow> nat option \<Rightarrow> nat slot res" where
  "find_link 0 C node link p = Inl Undefined_behaviour"
| "find_link (Suc fuel) C node link p =
     (case p of
        None \<Rightarrow> Inl Undefined_behaviour
      | Some e \<Rightarrow> if e = node then Inr link
                  else bindE (vec_get (pool C) e) (\<lambda>n. find_link fuel C node (Next_of e) (hash_next n)))"

definition nv_store :: "nat slot \<Rightarrow> nat option \<Rightarrow> Cache \<Rightarrow> Cache res" where
  "nv_store s v C =
     (case s of
        Bucket b \<Rightarrow> bindE (vec_set (cbuckets C) b v) (\<lambda>bs. Inr (C\<lparr>cbuckets := bs\<rparr>))
      | Next_of i \<Rightarrow> node_upd i (\<lambda>n. n\<lparr>hash_next := v\<rparr>) C)"

text \<open>Taking the least recently used node out of its chain and of the list.\<close>

definition reuse_tail :: "Cache \<Rightarrow> (nat \<times> Cache) res" where
  "reuse_tail C =
     (case ctail C of
        None \<Rightarrow> Inl Undefined_behaviour
      | Some node \<Rightarrow>
          bindE (vec_get (pool C) node) (\<lambda>n.
          let old_bucket = nv_bucket_for (nval n) (ccapacity C) in
          bindE (vec_get (cbuckets C) old_bucket) (\<lambda>p.
          bindE (find_link (Suc (length (pool C))) C node (Bucket old_bucket) p) (\<lambda>link.
          bindE (nv_store link (hash_next n) C) (\<lambda>C.
          bindE (unlink_node node C) (\<lambda>C. Inr (node, C)))))))"

text \<open>One round for a cache of positive capacity; the state is the cache, \<^verbatim>\<open>used\<close> and whether it was a hit.\<close>

definition nv_access :: "int \<Rightarrow> Cache \<times> nat \<Rightarrow> (bool \<times> Cache \<times> nat) res" where
  "nv_access v = (\<lambda>(C, used).
     if ccapacity C = 0 then Inr (False, (C, used))
     else
       let bucket = nv_bucket_for v (ccapacity C) in
       bindE (bindE (vec_get (cbuckets C) bucket) (\<lambda>p. chain_find (length (pool C)) (nv_link C) v p)) (\<lambda>found.
       bindE (case found of
           Some node \<Rightarrow> bindE (unlink_node node C) (\<lambda>C. Inr (node, C, used))
         | None \<Rightarrow>
             bindE (if used < ccapacity C then Inr (used, C, Suc used)
                    else bindE (reuse_tail C) (\<lambda>(node, C). Inr (node, C, used))) (\<lambda>(node, C, used).
             bindE (node_upd node (\<lambda>n. n\<lparr>nval := v\<rparr>) C) (\<lambda>C.
             bindE (vec_get (cbuckets C) bucket) (\<lambda>h.
             bindE (node_upd node (\<lambda>n. n\<lparr>hash_next := h\<rparr>) C) (\<lambda>C.
             bindE (vec_set (cbuckets C) bucket (Some node)) (\<lambda>bs.
             Inr (node, C\<lparr>cbuckets := bs\<rparr>, used))))))) (\<lambda>(node, C, used).
       bindE (nv_prepend node C) (\<lambda>C. Inr (found \<noteq> None, (C, used))))))"

section \<open>The program\<close>

text \<open>\<^verbatim>\<open>scanf("%" SCNd64, &value)\<close>: \<open>None\<close> when no number is there.\<close>

definition scanf_d64 :: "string \<Rightarrow> (int \<times> string) option res" where
  "scanf_d64 inp =
     (case scan_int inp of
        None \<Rightarrow> Inr None
      | Some (v, rest) \<Rightarrow> if - (2 ^ 63) \<le> v \<and> v < 2 ^ 63 then Inr (Some (v, rest)) else Inl Undefined_behaviour)"

definition nv_error :: "string \<Rightarrow> outcome res" where
  "nv_error msg = Inr \<lparr>code = 1, out = [], err = msg @ endl\<rparr>"

fun nv_loop :: "nat \<Rightarrow> nat \<Rightarrow> Cache \<times> nat \<Rightarrow> nat \<Rightarrow> string \<Rightarrow> outcome res" where
  "nv_loop 0 i S hits inp = Inr \<lparr>code = 0, out = string_of_nat hits @ endl, err = []\<rparr>"
| "nv_loop (Suc n) i S hits inp =
     bindE (scanf_d64 inp) (\<lambda>r.
     case r of
       None \<Rightarrow> nv_error (''Expected element at position '' @ string_of_nat (i + 1) @ ''.'')
     | Some (v, inp) \<Rightarrow>
         bindE (nv_access v S) (\<lambda>(hit, S). nv_loop n (i + 1) S (hits + (if hit then 1 else 0)) inp))"

definition zero_node :: Node where
  "zero_node = \<lparr>nval = 0, prev = None, nxt = None, hash_next = None\<rparr>"

text \<open>
  \<open>av\<close> says whether the two allocations succeed. A node takes 32 bytes, a pointer 8. The blocks that are allocated are a list of their numbers;
  \<^verbatim>\<open>free\<close> of a null pointer does nothing, and of a block that is not allocated is undefined.
\<close>

definition nv_calloc :: "(nat \<Rightarrow> bool) \<Rightarrow> nat \<Rightarrow> nat list \<Rightarrow> nat option \<times> nat list" where
  "nv_calloc av k live = (if av k then (Some k, k # live) else (None, live))"

definition nv_free :: "nat option \<Rightarrow> nat list \<Rightarrow> nat list res" where
  "nv_free p live = (case p of
      None \<Rightarrow> Inr live
    | Some b \<Rightarrow> if b \<in> set live then Inr (remove1 b live) else Inl Undefined_behaviour)"

text \<open>The two calls of \<^verbatim>\<open>free\<close> before a \<^verbatim>\<open>return\<close>.\<close>

definition nv_return :: "nat option \<Rightarrow> nat option \<Rightarrow> nat list \<Rightarrow> outcome \<Rightarrow> (outcome \<times> nat list) res" where
  "nv_return nodes buckets live r =
     bindE (nv_free nodes live) (\<lambda>live. bindE (nv_free buckets live) (\<lambda>live. Inr (r, live)))"

definition nv_main_mem :: "(nat \<Rightarrow> bool) \<Rightarrow> string \<Rightarrow> (outcome \<times> nat list) res" where
  "nv_main_mem av inp =
     (let exit_with = \<lambda>msg. bindE (nv_error msg) (\<lambda>r. Inr (r, []));
          bad = exit_with ''Expected nonnegative cache size and element count.'' in
      bindE (scanf_d64 inp) (\<lambda>r.
      case r of
        None \<Rightarrow> bad
      | Some (requested_capacity, inp) \<Rightarrow>
          bindE (scanf_d64 inp) (\<lambda>r.
          case r of
            None \<Rightarrow> bad
          | Some (cnt, inp) \<Rightarrow>
              if requested_capacity < 0 \<or> cnt < 0 then bad
              else
                let limit = nat (if requested_capacity < cnt then requested_capacity else cnt) in
                if limit > (2 ^ 64 - 1) div 32 \<or> limit > (2 ^ 64 - 1) div 8 then exit_with ''Cache is too large.''
                else
                  let (nodes, live) = (if limit \<noteq> 0 then nv_calloc av 0 [] else (None, []));
                      (buckets, live) = (if limit \<noteq> 0 then nv_calloc av 1 live else (None, live)) in
                  if limit \<noteq> 0 \<and> (nodes = None \<or> buckets = None)
                  then bindE (nv_error ''Cannot allocate cache.'') (nv_return nodes buckets live)
                  else bindE (nv_loop (nat cnt) 0
                      (\<lparr>chead = None, ctail = None, cbuckets = replicate limit None, ccapacity = limit, pool = replicate limit zero_node\<rparr>, 0) 0 inp)
                    (nv_return nodes buckets live))))"

text \<open>What the user sees of it.\<close>

definition nv_main :: "(nat \<Rightarrow> bool) \<Rightarrow> string \<Rightarrow> outcome res" where
  "nv_main av inp = bindE (nv_main_mem av inp) (\<lambda>(r, live). Inr r)"

end
