(* ===== verification/Lru_C_Naive_Props.thy ===== *)
theory Lru_C_Naive_Props
  imports Lru_C_Naive
begin

text \<open>The naive cache is correct: its list with null pointers is a ring around the header, and it implements an LRU cache.\<close>

section \<open>Fields\<close>

definition nn :: "Cache \<Rightarrow> nat option \<Rightarrow> nat option" where
  "nn C p = (case p of None \<Rightarrow> chead C | Some i \<Rightarrow> nxt (pool C ! i))"

definition np :: "Cache \<Rightarrow> nat option \<Rightarrow> nat option" where
  "np C p = (case p of None \<Rightarrow> ctail C | Some i \<Rightarrow> prev (pool C ! i))"

definition nk :: "Cache \<Rightarrow> nat \<Rightarrow> int" where
  "nk C i = nval (pool C ! i)"

definition nh :: "Cache \<Rightarrow> nat \<Rightarrow> nat option" where
  "nh C i = hash_next (pool C ! i)"

definition nvalid :: "Cache \<Rightarrow> nat option \<Rightarrow> bool" where
  "nvalid C p \<longleftrightarrow> (case p of None \<Rightarrow> True | Some i \<Rightarrow> i < length (pool C))"

definition nupd :: "nat \<Rightarrow> (Node \<Rightarrow> Node) \<Rightarrow> Cache \<Rightarrow> Cache" where
  "nupd i f C = C\<lparr>pool := (pool C)[i := f (pool C ! i)]\<rparr>"

definition unn :: "nat option \<Rightarrow> nat option \<Rightarrow> Cache \<Rightarrow> Cache" where
  "unn p v C = (case p of None \<Rightarrow> C\<lparr>chead := v\<rparr> | Some i \<Rightarrow> nupd i (\<lambda>n. n\<lparr>nxt := v\<rparr>) C)"

definition unp :: "nat option \<Rightarrow> nat option \<Rightarrow> Cache \<Rightarrow> Cache" where
  "unp p v C = (case p of None \<Rightarrow> C\<lparr>ctail := v\<rparr> | Some i \<Rightarrow> nupd i (\<lambda>n. n\<lparr>prev := v\<rparr>) C)"

lemmas nfields = nn_def np_def nk_def nh_def

definition nrest :: "Cache \<Rightarrow> (nat \<Rightarrow> int) \<times> (nat \<Rightarrow> nat option) \<times> nat option list \<times> nat \<times> nat" where
  "nrest C = (nk C, nh C, cbuckets C, length (pool C), ccapacity C)"

lemma node_upd_ok: "i < length (pool C) \<Longrightarrow> node_upd i f C = Inr (nupd i f C)"
  by (simp add: node_upd_def nupd_def)

lemma nupd_fields [simp]:
  "chead (nupd i f C) = chead C" "ctail (nupd i f C) = ctail C" "cbuckets (nupd i f C) = cbuckets C"
  "ccapacity (nupd i f C) = ccapacity C" "length (pool (nupd i f C)) = length (pool C)"
  by (simp_all add: nupd_def)

lemma nupd_nth: "i < length (pool C) \<Longrightarrow> pool (nupd i f C) ! j = (if j = i then f (pool C ! i) else pool C ! j)"
  by (simp add: nupd_def nth_list_update)

interpretation nl: links nn np unn unp nvalid nrest
  by unfold_locales
    (auto simp: fun_eq_iff nfields unn_def unp_def nvalid_def nrest_def nupd_nth split: option.split)

section \<open>The list\<close>

definition nlrep :: "Cache \<Rightarrow> nat list \<Rightarrow> bool" where
  "nlrep C ns \<longleftrightarrow> ring (nn C) (np C) None (map Some ns) \<and> set ns \<subseteq> {..<length (pool C)}"

lemma unlink_node_ok:
  assumes "nlrep C (xs @ i # ys)"
  obtains C' where "unlink_node i C = Inr C'" "nlrep C' (xs @ ys)" "nrest C' = nrest C"
proof -
  let ?i = "Some i"
  have r: "ring (nn C) (np C) None (map Some xs @ ?i # map Some ys)" and sub: "set (xs @ i # ys) \<subseteq> {..<length (pool C)}"
    using assms by (auto simp: nlrep_def)
  have v: "\<forall>p \<in> set (None # map Some xs @ ?i # map Some ys). nvalid C p" using sub by (auto simp: nvalid_def)
  note ring = nl.detach_ring [OF r v]
  let ?C1 = "unn (np C ?i) (nn C ?i) C"
  let ?C2 = "unp (nn C ?i) (np C ?i) ?C1"
  have i: "i < length (pool C)" using sub by simp
  have 1: "bindE (vec_get (pool C) i) (\<lambda>n. case prev n of Some p \<Rightarrow> node_upd p (\<lambda>x. x\<lparr>nxt := nxt n\<rparr>) C | None \<Rightarrow> Inr (C\<lparr>chead := nxt n\<rparr>)) = Inr ?C1"
    using i ring(5) by (auto simp: nn_def np_def nvalid_def unn_def node_upd_ok split: option.split)
  have len: "length (pool ?C1) = length (pool C)" by (simp add: unn_def split: option.split)
  have "nxt (pool ?C1 ! i) = nn C ?i" "prev (pool ?C1 ! i) = np C ?i"
    using ring(5,6) i by (auto simp: nn_def np_def unn_def nvalid_def nupd_nth split: option.splits)
  then have "bindE (vec_get (pool ?C1) i) (\<lambda>n. case nxt n of Some q \<Rightarrow> node_upd q (\<lambda>x. x\<lparr>prev := prev n\<rparr>) ?C1 | None \<Rightarrow> Inr (?C1\<lparr>ctail := prev n\<rparr>)) = Inr ?C2"
    using i len ring(4) by (auto simp: unp_def nvalid_def node_upd_ok split: option.split)
  then have "unlink_node i C = Inr ?C2" unfolding unlink_node_def 1 by simp
  then show ?thesis using that [of ?C2] ring(1,3) sub by (simp add: nlrep_def nrest_def)
qed

lemma nv_prepend_ok:
  assumes "nlrep C ns" "i \<notin> set ns" "i < length (pool C)"
  obtains C' where "nv_prepend i C = Inr C'" "nlrep C' (i # ns)" "nrest C' = nrest C"
proof -
  let ?i = "Some i"
  have r: "ring (nn C) (np C) None (map Some ns)" and sub: "set ns \<subseteq> {..<length (pool C)}" using assms by (auto simp: nlrep_def)
  have v: "\<forall>p \<in> set (None # map Some ns). nvalid C p" "nvalid C ?i" "?i \<notin> set (None # map Some ns)"
    using sub assms(2,3) by (auto simp: nvalid_def)
  note ring = nl.prepend_ring [OF r v(1,3,2)]
  let ?C = "unn None ?i (unp (nn C None) ?i (unn ?i (nn C None) (unp ?i None C)))"
  have "nv_prepend i C = Inr ?C"
    using assms(3) ring(4) by (auto simp: nv_prepend_def node_upd_ok unn_def unp_def nn_def nvalid_def split: option.split)
  then show ?thesis using that [of ?C] ring(1,3) sub assms(3) by (simp add: nlrep_def nrest_def)
qed

section \<open>The chains\<close>

lemma nv_bucket_for_eq: "nv_bucket_for v n = bucket_for n v"
  by (simp add: nv_bucket_for_def bucket_for_def)

definition nmrep :: "Cache \<Rightarrow> nat list list \<Rightarrow> nat set \<Rightarrow> bool" where
  "nmrep C cs U \<longleftrightarrow> table (nh C) (cbuckets C) cs \<and> set (concat cs) = U \<and> U \<subseteq> {..<length (pool C)} \<and> inj_on (nk C) U \<and>
     (\<forall>b < ccapacity C. \<forall>e \<in> set (cs ! b). bucket_for (ccapacity C) (nk C e) = b) \<and> length (cbuckets C) = ccapacity C \<and> 0 < ccapacity C"

lemma nmrep_rest: "nrest C' = nrest C \<Longrightarrow> nmrep C' cs U = nmrep C cs U"
  by (simp add: nrest_def nmrep_def)

lemma nmrep_chain:
  assumes "nmrep C cs U" "b < ccapacity C"
  shows "chain (nh C) (cbuckets C ! b) (cs ! b)" "set (cs ! b) \<subseteq> U" "distinct (cs ! b)" "length (cs ! b) \<le> length (pool C)"
    "set (cs ! b) \<subseteq> {..<length (pool C)}"
proof -
  have t: "table (nh C) (cbuckets C) cs" "set (concat cs) = U" "U \<subseteq> {..<length (pool C)}" "length (cbuckets C) = ccapacity C"
    using assms(1) by (auto simp: nmrep_def)
  then have len: "length cs = ccapacity C" "distinct (concat cs)" by (auto simp: table_def)
  show "chain (nh C) (cbuckets C ! b) (cs ! b)" using t(1,4) assms(2) by (intro table_chain) simp_all
  show sub: "set (cs ! b) \<subseteq> U" using nth_mem [of b cs] assms(2) len t(2) by fastforce
  show d: "distinct (cs ! b)" using len assms(2) by (metis distinct_concat_iff nth_mem)
  show sub': "set (cs ! b) \<subseteq> {..<length (pool C)}" using sub t(3) by (rule subset_trans)
  have "card (set (cs ! b)) \<le> card {..<length (pool C)}" using sub' by (intro card_mono) auto
  then show "length (cs ! b) \<le> length (pool C)" using d by (simp add: distinct_card)
qed

lemma nmrep_member:
  assumes "nmrep C cs U" "e \<in> U"
  shows "e \<in> set (cs ! bucket_for (ccapacity C) (nk C e))"
proof -
  have "e \<in> set (concat cs)" "length cs = ccapacity C" using assms by (auto simp: nmrep_def table_def)
  then obtain b where b: "b < ccapacity C" "e \<in> set (cs ! b)" by (auto simp: in_set_conv_nth) (metis nth_mem)
  moreover from this have "bucket_for (ccapacity C) (nk C e) = b" using assms(1) by (auto simp: nmrep_def)
  ultimately show ?thesis by simp
qed

lemma nv_find_eq:
  assumes "nmrep C cs U"
  shows "bindE (vec_get (cbuckets C) (bucket_for (ccapacity C) v)) (\<lambda>p. chain_find (length (pool C)) (nv_link C) v p) =
    Inr (find (\<lambda>e. nk C e = v) (cs ! bucket_for (ccapacity C) v))"
proof -
  let ?b = "bucket_for (ccapacity C) v"
  have b: "?b < ccapacity C" "length (cbuckets C) = ccapacity C" using assms by (auto simp: nmrep_def)
  note ch = nmrep_chain [OF assms b(1)]
  have "nv_link C e = Some (nk C e, nh C e)" if "e \<in> set (cs ! ?b)" for e
  proof -
    have "e < length (pool C)" using that ch(5) by auto
    then show ?thesis by (simp add: nv_link_def nfields)
  qed
  then have "chain_find (length (pool C)) (nv_link C) v (cbuckets C ! ?b) = Inr (find (\<lambda>e. nk C e = v) (cs ! ?b))"
    by (rule chain_find_eq [OF ch(1) _ ch(4)])
  then show ?thesis using b by simp
qed

lemma nv_find_hit:
  assumes "nmrep C cs U" "e \<in> U" "nk C e = v"
  shows "find (\<lambda>e. nk C e = v) (cs ! bucket_for (ccapacity C) v) = Some e"
proof -
  let ?b = "bucket_for (ccapacity C) v"
  have "e \<in> set (cs ! ?b)" using nmrep_member [OF assms(1,2)] assms(3) by simp
  then obtain e' where e': "find (\<lambda>e. nk C e = v) (cs ! ?b) = Some e'" using assms(3) by (metis (mono_tags, lifting) find_None_iff not_None_eq)
  then have "e' \<in> set (cs ! ?b)" "nk C e' = v" by (auto simp: find_Some_iff)
  moreover have "?b < ccapacity C" using assms(1) by (simp add: nmrep_def)
  ultimately have "e' = e" using assms nmrep_chain(2) [OF assms(1), of ?b] by (auto simp: nmrep_def dest!: inj_onD)
  then show ?thesis using e' by simp
qed

lemma nv_find_miss:
  assumes "nmrep C cs U" "v \<notin> nk C ` U"
  shows "find (\<lambda>e. nk C e = v) (cs ! bucket_for (ccapacity C) v) = None"
proof -
  let ?b = "bucket_for (ccapacity C) v"
  have "?b < ccapacity C" using assms(1) by (simp add: nmrep_def)
  then show ?thesis using assms(2) nmrep_chain(2) [OF assms(1), of ?b] by (auto simp: find_None_iff)
qed

lemma find_link_eq:
  assumes "chain (nh C) p (xs @ e # ys)" "distinct (xs @ e # ys)" "set (xs @ e # ys) \<subseteq> {..<length (pool C)}" "length (xs @ e # ys) \<le> fuel"
  shows "find_link fuel C e link p = Inr (if xs = [] then link else Next_of (last xs))"
  using assms
proof (induction xs arbitrary: p fuel link)
  case Nil
  then show ?case by (cases fuel) auto
next
  case (Cons x xs)
  then obtain f where f: "fuel = Suc f" by (cases fuel) auto
  have "x \<noteq> e" "p = Some x" "chain (nh C) (nh C x) (xs @ e # ys)" "x < length (pool C)" using Cons.prems by auto
  then show ?case using Cons.IH [of "nh C x" f "Next_of x"] Cons.prems f by (simp add: nh_def)
qed

text \<open>Storing in a slot.\<close>

lemma nv_store_ok:
  assumes "case s of Bucket b \<Rightarrow> b < length (cbuckets C) | Next_of i \<Rightarrow> i < length (pool C)"
  obtains C' where "nv_store s v C = Inr C'" "nh C' = slot_next s v (nh C)" "cbuckets C' = slot_bucket s v (cbuckets C)"
    "nk C' = nk C" "nn C' = nn C" "np C' = np C" "length (pool C') = length (pool C)" "ccapacity C' = ccapacity C"
proof (cases s)
  case (Bucket b)
  then show ?thesis using that [of "C\<lparr>cbuckets := (cbuckets C)[b := v]\<rparr>"] assms
    by (simp add: nv_store_def slot_next_def slot_bucket_def nfields [abs_def])
next
  case (Next_of i)
  then show ?thesis using that [of "nupd i (\<lambda>n. n\<lparr>hash_next := v\<rparr>) C"] assms
    by (simp add: nv_store_def slot_next_def slot_bucket_def node_upd_ok nfields fun_eq_iff nupd_nth split: option.split)
qed

lemma reuse_tail_ok:
  assumes l: "nlrep C (ns @ [i])" and m: "nmrep C cs (set (ns @ [i]))"
  obtains C' cs' where "reuse_tail C = Inr (i, C')" "nlrep C' ns" "nmrep C' cs' (set ns)" "nk C' = nk C" "length (pool C') = length (pool C)" "ccapacity C' = ccapacity C"
proof -
  let ?U = "set (ns @ [i])" and ?b = "bucket_for (ccapacity C) (nk C i)"
  have t: "table (nh C) (cbuckets C) cs" "set (concat cs) = ?U" "?U \<subseteq> {..<length (pool C)}" "inj_on (nk C) ?U"
    "\<forall>b < ccapacity C. \<forall>e \<in> set (cs ! b). bucket_for (ccapacity C) (nk C e) = b" "length (cbuckets C) = ccapacity C" "0 < ccapacity C"
    using m unfolding nmrep_def by blast+
  have len: "length cs = ccapacity C" "distinct (concat cs)" using t(1,6) by (auto simp: table_def)
  have b: "?b < ccapacity C" using t(7) by simp
  have i: "i < length (pool C)" "i \<notin> set ns" using l by (auto simp: nlrep_def ring_def)
  have tail: "ctail C = Some i" using ring_prev [of "nn C" "np C" None "map Some (ns @ [i])"] l by (simp add: nlrep_def np_def)
  have "i \<in> ?U" by simp
  then obtain xs ys where c: "cs ! ?b = xs @ i # ys" using nmrep_member [OF m] by (meson split_list)
  note ch = nmrep_chain [OF m b, unfolded c]
  let ?s = "slot_at ?b xs" and ?cs = "cs[?b := xs @ ys]"
  have link: "find_link (Suc (length (pool C))) C i (Bucket ?b) (cbuckets C ! ?b) = Inr ?s"
    using find_link_eq [OF ch(1,3,5), of "Suc (length (pool C))" "Bucket ?b"] ch(4) by (simp add: slot_at_def)
  have "case ?s of Bucket b \<Rightarrow> b < length (cbuckets C) | Next_of i \<Rightarrow> i < length (pool C)"
    using b t(6) subsetD [OF ch(5), of "last xs"] by (auto simp: slot_at_def)
  then obtain C1 where C1: "nv_store ?s (nh C i) C = Inr C1" "nh C1 = slot_next ?s (nh C i) (nh C)" "cbuckets C1 = slot_bucket ?s (nh C i) (cbuckets C)"
    "nk C1 = nk C" "nn C1 = nn C" "np C1 = np C" "length (pool C1) = length (pool C)" "ccapacity C1 = ccapacity C" by (rule nv_store_ok)
  have "nlrep C1 (ns @ [i])" using l C1 by (simp add: nlrep_def)
  then obtain C2 where C2: "unlink_node i C1 = Inr C2" "nlrep C2 ns" "nrest C2 = nrest C1"
    using unlink_node_ok [of C1 ns i "[]"] by (metis append_Nil2)
  have "mset (concat cs) = add_mset i (mset (concat ?cs))" by (rule table_remove_mset) (use b len c in auto)
  then have "set (concat ?cs) = ?U - {i}" using len(2) t(2)
    by (metis Diff_insert_absorb distinct.simps(2) list.simps(15) mset.simps(2) mset_eq_imp_distinct_iff mset_eq_setD)
  then have set': "set (concat ?cs) = set ns" using i(2) by auto
  have "table (nh C1) (cbuckets C1) ?cs" unfolding C1(2,3) using b t(6) by (intro table_remove [OF t(1) _ c]) simp
  moreover have "bucket_for (ccapacity C) (nk C e) = j" if "j < ccapacity C" "e \<in> set (?cs ! j)" for j e
  proof -
    have "e \<in> set (cs ! j)" using that len(1) c by (cases "j = ?b") simp_all
    then show ?thesis using t(5) that(1) by blast
  qed
  moreover have "length (cbuckets C1) = ccapacity C" using C1(3) t(6) by (simp add: slot_bucket_def split: slot.split)
  moreover have "inj_on (nk C) (set ns)" using t(4) by (rule inj_on_subset) auto
  moreover have "set ns \<subseteq> {..<length (pool C)}" using t(3) by auto
  ultimately have "nmrep C1 ?cs (set ns)" unfolding nmrep_def set' C1(4,7,8) using t(7) by blast
  then have "nmrep C2 ?cs (set ns)" using nmrep_rest [OF C2(3)] by simp
  moreover have "reuse_tail C = Inr (i, C2)"
    using tail i(1) b t(6) link C1(1) C2(1) by (simp add: reuse_tail_def nv_bucket_for_eq Let_def nk_def nh_def)
  ultimately show ?thesis using that [of C2 ?cs] C2(2,3) C1 by (simp add: nrest_def)
qed

lemma nv_insert_ok:
  assumes l: "nlrep C ns" and m: "nmrep C cs (set ns)" and i: "i \<notin> set ns" "i < length (pool C)" and v: "v \<notin> nk C ` set ns"
  obtains C' cs' where "bindE (node_upd i (\<lambda>n. n\<lparr>nval := v\<rparr>) C) (\<lambda>C. bindE (vec_get (cbuckets C) (bucket_for (ccapacity C) v)) (\<lambda>h.
      bindE (node_upd i (\<lambda>n. n\<lparr>hash_next := h\<rparr>) C) (\<lambda>C. bindE (vec_set (cbuckets C) (bucket_for (ccapacity C) v) (Some i)) (\<lambda>bs.
      Inr (i, C\<lparr>cbuckets := bs\<rparr>, u :: nat))))) = Inr (i, C', u)"
    "nlrep C' ns" "nmrep C' cs' (insert i (set ns))" "nk C' = (nk C)(i := v)" "length (pool C') = length (pool C)" "ccapacity C' = ccapacity C"
proof -
  let ?b = "bucket_for (ccapacity C) v" and ?U = "set ns"
  have t: "table (nh C) (cbuckets C) cs" "set (concat cs) = ?U" "?U \<subseteq> {..<length (pool C)}" "inj_on (nk C) ?U"
    "\<forall>b < ccapacity C. \<forall>e \<in> set (cs ! b). bucket_for (ccapacity C) (nk C e) = b" "length (cbuckets C) = ccapacity C" "0 < ccapacity C"
    using m unfolding nmrep_def by blast+
  have len: "length cs = ccapacity C" using t(1,6) by (auto simp: table_def)
  have b: "?b < ccapacity C" using t(7) by simp
  let ?h = "cbuckets C ! ?b" and ?bs = "(cbuckets C)[?b := Some i]" and ?cs = "cs[?b := i # cs ! ?b]"
  let ?C = "(nupd i (\<lambda>n. n\<lparr>hash_next := ?h\<rparr>) (nupd i (\<lambda>n. n\<lparr>nval := v\<rparr>) C))\<lparr>cbuckets := ?bs\<rparr>"
  have run: "bindE (node_upd i (\<lambda>n. n\<lparr>nval := v\<rparr>) C) (\<lambda>C. bindE (vec_get (cbuckets C) (bucket_for (ccapacity C) v)) (\<lambda>h.
      bindE (node_upd i (\<lambda>n. n\<lparr>hash_next := h\<rparr>) C) (\<lambda>C. bindE (vec_set (cbuckets C) (bucket_for (ccapacity C) v) (Some i)) (\<lambda>bs.
      Inr (i, C\<lparr>cbuckets := bs\<rparr>, u))))) = Inr (i, ?C, u)"
    using i(2) b t(6) by (simp add: node_upd_ok)
  have f: "nn ?C = nn C" "np ?C = np C" "nk ?C = (nk C)(i := v)" "nh ?C = (nh C)(i := ?h)"
    using i(2) by (auto simp: fun_eq_iff nfields nupd_nth split: option.split)
  have size: "length (pool ?C) = length (pool C)" "ccapacity ?C = ccapacity C" "cbuckets ?C = ?bs" "length ?bs = ccapacity C" using t(6) by simp_all
  have "mset (concat ?cs) = add_mset i (mset (concat cs))" using mset_concat_update [of ?b cs "i # cs ! ?b"] b len by simp
  then have set': "set (concat ?cs) = insert i ?U" using t(2) by (metis set_mset_add_mset_insert set_mset_mset)
  have nin: "i \<notin> set (concat cs)" using i(1) t(2) by simp
  have "table (nh ?C) ?bs ?cs" unfolding f(4) using b t(6) by (intro table_insert [OF t(1) nin]) simp
  moreover have "bucket_for (ccapacity C) (nk ?C e) = j" if "j < ccapacity C" "e \<in> set (?cs ! j)" for j e
  proof (cases "e = i")
    case True
    then have "j = ?b" using that nmrep_chain(2) [OF m that(1)] i(1) len by (cases "j = ?b") auto
    then show ?thesis using True f(3) by simp
  next
    case False
    then have "e \<in> set (cs ! j)" using that len by (cases "j = ?b") auto
    then show ?thesis using t(5) that(1) False f(3) by simp
  qed
  moreover have "inj_on (nk ?C) (insert i ?U)" unfolding f(3) using t(4) i(1) v by (auto simp: inj_on_def)
  moreover have "insert i ?U \<subseteq> {..<length (pool C)}" using t(3) i(2) by auto
  ultimately have "nmrep ?C ?cs (insert i ?U)" unfolding nmrep_def set' size using t(7) by blast
  moreover have "nlrep ?C ns" using l size(1) unfolding nlrep_def f(1,2) by simp
  ultimately show ?thesis using that [OF run _ _ f(3) size(1,2)] by blast
qed

section \<open>The interface\<close>

definition nv_rep :: "Cache \<Rightarrow> nat \<Rightarrow> nat list \<Rightarrow> bool" where
  "nv_rep C u ns \<longleftrightarrow> 0 < ccapacity C \<and> length (pool C) = ccapacity C \<and> set ns = {..<u} \<and> length ns = u \<and> u \<le> ccapacity C \<and>
     nlrep C ns \<and> (\<exists>cs. nmrep C cs (set ns))"

lemma nv_repI:
  assumes "nlrep C ns" "nmrep C cs (insert i (set ns))" "i \<notin> set ns" "i < length (pool C)"
    and "length (pool C) = ccapacity C" "insert i (set ns) = {..<u}" "Suc (length ns) = u" "u \<le> ccapacity C"
  obtains C' where "nv_prepend i C = Inr C'" "nv_rep C' u (i # ns)" "nk C' = nk C" "ccapacity C' = ccapacity C"
proof -
  obtain C' where C': "nv_prepend i C = Inr C'" "nlrep C' (i # ns)" "nrest C' = nrest C" using nv_prepend_ok [OF assms(1,3,4)] .
  have "nmrep C' cs (set (i # ns))" using assms(2) nmrep_rest [OF C'(3)] by simp
  then have "nv_rep C' u (i # ns)" using C'(2,3) assms(5-8) unfolding nv_rep_def by (auto simp: nrest_def nmrep_def)
  then show ?thesis using that C'(1,3) by (simp add: nrest_def)
qed

lemma nv_access_ok:
  assumes r: "nv_rep C u ns"
  shows "\<exists>C' u' ns'. nv_access v (C, u) = Inr (v \<in> nk C ` set ns, (C', u')) \<and> nv_rep C' u' ns' \<and> ccapacity C' = ccapacity C \<and>
    map (nk C') ns' = take (ccapacity C) (touch v (map (nk C) ns))"
proof -
  obtain cs where R: "0 < ccapacity C" "length (pool C) = ccapacity C" "set ns = {..<u}" "length ns = u" "u \<le> ccapacity C"
    "nlrep C ns" "nmrep C cs (set ns)" using r unfolding nv_rep_def by blast
  have d: "distinct ns" "inj_on (nk C) (set ns)" using R(6,7) by (auto simp: nlrep_def ring_def nmrep_def distinct_map)
  note find = nv_find_eq [OF R(7), of v]
  show ?thesis
  proof (cases "v \<in> nk C ` set ns")
    case True
    then obtain i where i: "i \<in> set ns" "nk C i = v" by auto
    then obtain xs ys where sp: "ns = xs @ i # ys" by (auto dest: split_list)
    have f: "find (\<lambda>e. nk C e = v) (cs ! bucket_for (ccapacity C) v) = Some i" by (rule nv_find_hit [OF R(7) i])
    obtain C1 where C1: "unlink_node i C = Inr C1" "nlrep C1 (xs @ ys)" "nrest C1 = nrest C" using unlink_node_ok R(6) sp by blast
    have m1: "nmrep C1 cs (insert i (set (xs @ ys)))" using R(7) nmrep_rest [OF C1(3)] sp by simp
    have il: "i < length (pool C)" using R(6) i(1) by (auto simp: nlrep_def)
    have pre: "i \<notin> set (xs @ ys)" "i < length (pool C1)" "length (pool C1) = ccapacity C1" "insert i (set (xs @ ys)) = {..<u}"
      "Suc (length (xs @ ys)) = u" "u \<le> ccapacity C1" using d(1) il R(2-5) C1(3) sp by (simp_all add: nrest_def)
    obtain C2 where C2: "nv_prepend i C1 = Inr C2" "nv_rep C2 u (i # xs @ ys)" "nk C2 = nk C1" "ccapacity C2 = ccapacity C1"
      using nv_repI [OF C1(2) m1 pre] .
    have "nv_access v (C, u) = Inr (True, (C2, u))"
      unfolding nv_access_def prod.case Let_def nv_bucket_for_eq find f using R(1) C1(1) C2(1) by simp
    moreover have "v \<notin> nk C ` set xs" using d sp i(2) by (auto simp: inj_on_def)
    then have "touch v (map (nk C) ns) = map (nk C) (i # xs @ ys)" using sp i(2) by (simp add: touch_def remove1_append)
    then have "map (nk C2) (i # xs @ ys) = take (ccapacity C) (touch v (map (nk C) ns))" using C2(3) C1(3) R(4,5) sp by (simp add: nrest_def)
    ultimately show ?thesis using True C2(2,4) C1(3) by (intro exI [of _ C2] exI [of _ u] exI [of _ "i # xs @ ys"]) (simp add: nrest_def)
  next
    case False
    have f: "find (\<lambda>e. nk C e = v) (cs ! bucket_for (ccapacity C) v) = None" by (rule nv_find_miss [OF R(7) False])
    have tch: "touch v (map (nk C) ns) = v # map (nk C) ns" using False by (simp add: touch_def remove1_idem)
    obtain i C1 u1 ns1 cs1 where C1: "(if u < ccapacity C then Inr (u, C, Suc u) else bindE (reuse_tail C) (\<lambda>(node, C). Inr (node, C, u))) = Inr (i, C1, u1)"
      "nlrep C1 ns1" "nmrep C1 cs1 (set ns1)" "i \<notin> set ns1" "i < length (pool C1)" "nk C1 = nk C" "ns1 = take (ccapacity C - 1) ns"
      "length (pool C1) = ccapacity C1" "ccapacity C1 = ccapacity C" "insert i (set ns1) = {..<u1}" "Suc (length ns1) = u1" "u1 \<le> ccapacity C1"
    proof (cases "u < ccapacity C")
      case True
      then have "ns = take (ccapacity C - 1) ns" using R(4) by simp
      then show ?thesis using that [of u C "Suc u" ns cs] True R by (auto simp: lessThan_Suc)
    next
      case full: False
      then have u: "u = ccapacity C" using R(5) by simp
      then obtain ns1 i where sp: "ns = ns1 @ [i]" using R(1,4) by (metis length_0_conv less_nat_zero_code rev_exhaust)
      obtain C1 cs1 where C1: "reuse_tail C = Inr (i, C1)" "nlrep C1 ns1" "nmrep C1 cs1 (set ns1)" "nk C1 = nk C" "length (pool C1) = length (pool C)" "ccapacity C1 = ccapacity C"
        using reuse_tail_ok [OF R(6) [unfolded sp] R(7) [unfolded sp]] .
      have "i \<in> set ns" using sp by simp
      then have il: "i < length (pool C1)" "insert i (set ns1) = {..<u}" using R(2,3,5) sp C1(5) u by auto
      have "i \<notin> set ns1" "ns1 = take (ccapacity C - 1) ns" "Suc (length ns1) = u" using sp d(1) R(4) u by auto
      then show ?thesis using full C1 R(2) il u by (intro that [of i C1 u ns1 cs1]) simp_all
    qed
    have v1: "v \<notin> nk C1 ` set ns1" using False C1(6,7) by (auto dest: in_set_takeD)
    obtain C2 cs2 where C2: "bindE (node_upd i (\<lambda>n. n\<lparr>nval := v\<rparr>) C1) (\<lambda>C. bindE (vec_get (cbuckets C) (bucket_for (ccapacity C) v)) (\<lambda>h.
        bindE (node_upd i (\<lambda>n. n\<lparr>hash_next := h\<rparr>) C) (\<lambda>C. bindE (vec_set (cbuckets C) (bucket_for (ccapacity C) v) (Some i)) (\<lambda>bs.
        Inr (i, C\<lparr>cbuckets := bs\<rparr>, u1))))) = Inr (i, C2, u1)"
      "nlrep C2 ns1" "nmrep C2 cs2 (insert i (set ns1))" "nk C2 = (nk C1)(i := v)" "length (pool C2) = length (pool C1)" "ccapacity C2 = ccapacity C1"
      using nv_insert_ok [OF C1(2,3,4,5) v1] .
    obtain C3 where C3: "nv_prepend i C2 = Inr C3" "nv_rep C3 u1 (i # ns1)" "nk C3 = nk C2" "ccapacity C3 = ccapacity C2"
      by (rule nv_repI [OF C2(2,3) C1(4), of u1]) (use C1 C2 in auto)
    have b: "bindE (node_upd i (\<lambda>n. n\<lparr>nval := v\<rparr>) C1) (\<lambda>C'. bindE (vec_get (cbuckets C') (bucket_for (ccapacity C) v)) (\<lambda>h.
        bindE (node_upd i (\<lambda>n. n\<lparr>hash_next := h\<rparr>) C') (\<lambda>C'. bindE (vec_set (cbuckets C') (bucket_for (ccapacity C) v) (Some i)) (\<lambda>bs.
        Inr (i, C'\<lparr>cbuckets := bs\<rparr>, u1))))) = Inr (i, C2, u1)"
      using C2(1) C1(5,9) by (simp add: node_upd_ok)
    have "nv_access v (C, u) = Inr (False, (C3, u1))"
      unfolding nv_access_def prod.case Let_def nv_bucket_for_eq find f bindE_Inr option.case C1(1) b using R(1) C3(1) by simp
    moreover have "map (nk C3) (i # ns1) = take (ccapacity C) (touch v (map (nk C) ns))"
    proof -
      have "map (nk C3) ns1 = map (nk C) ns1" unfolding C3(3) C2(4) C1(6) using C1(4) by (intro map_cong) auto
      then show ?thesis unfolding tch C1(7) using C3(3) C2(4) R(1) by (cases "ccapacity C") (simp_all add: take_map)
    qed
    ultimately show ?thesis using False C3(2,4) C2(6) C1(9) by (intro exI [of _ C3] exI [of _ u1] exI [of _ "i # ns1"]) simp
  qed
qed

definition nv_inv :: "Cache \<times> nat \<Rightarrow> bool" where
  "nv_inv = (\<lambda>(C, u). ccapacity C = 0 \<and> pool C = [] \<or> (\<exists>ns. nv_rep C u ns))"

fun nv_walk :: "nat \<Rightarrow> Cache \<Rightarrow> nat option \<Rightarrow> nat list" where
  "nv_walk 0 C p = []"
| "nv_walk (Suc fuel) C p = (case p of None \<Rightarrow> [] | Some i \<Rightarrow> i # nv_walk fuel C (nxt (pool C ! i)))"

definition nv_keys :: "Cache \<times> nat \<Rightarrow> int list" where
  "nv_keys = (\<lambda>(C, u). map (\<lambda>i. nval (pool C ! i)) (nv_walk (length (pool C)) C (chead C)))"

lemma nv_walk_path: "path (nn C) p (map Some ns) None \<Longrightarrow> length ns \<le> fuel \<Longrightarrow> nv_walk fuel C (nn C p) = ns"
proof (induction ns arbitrary: p fuel)
  case Nil
  then show ?case by (cases fuel) auto
next
  case (Cons i ns)
  then obtain f where f: "fuel = Suc f" by (cases fuel) auto
  have "nv_walk f C (nn C (Some i)) = ns" using Cons f by simp
  then show ?case using f Cons.prems(1) by (simp add: nn_def [of C "Some i"])
qed

lemma nv_keys_eq: "nv_rep C u ns \<Longrightarrow> nv_keys (C, u) = map (nk C) ns"
proof -
  assume "nv_rep C u ns"
  then have "ring (nn C) (np C) None (map Some ns)" "length ns \<le> length (pool C)" by (auto simp: nv_rep_def nlrep_def)
  then have "nv_walk (length (pool C)) C (nn C None) = ns" by (intro nv_walk_path) (auto simp: ring_def)
  then show ?thesis by (simp add: nv_keys_def nn_def nk_def [abs_def])
qed

interpretation nvlru: lru_cache nv_inv nv_keys "\<lambda>(C, u). ccapacity C" nv_access
proof (unfold_locales, goal_cases)
  case (1 x k)
  obtain C u where x: "x = (C, u)" by (cases x)
  show ?case
  proof (cases "ccapacity C = 0")
    case True
    then have "pool C = []" using 1 x by (auto simp: nv_inv_def nv_rep_def)
    then show ?thesis using True x 1 by (simp add: nv_access_def nv_keys_def)
  next
    case False
    then obtain ns where ns: "nv_rep C u ns" using 1 x by (auto simp: nv_inv_def)
    obtain C' u' ns' where C': "nv_access k (C, u) = Inr (k \<in> nk C ` set ns, (C', u'))" "nv_rep C' u' ns'" "ccapacity C' = ccapacity C"
      "map (nk C') ns' = take (ccapacity C) (touch k (map (nk C) ns))" using nv_access_ok [OF ns, of k] by blast
    then show ?thesis using x nv_keys_eq [OF ns] nv_keys_eq [OF C'(2)]
      by (intro exI [of _ "(C', u')"]) (auto simp: nv_inv_def)
  qed
qed

section \<open>The program\<close>

lemma scanf_show:
  assumes "- llmax - 1 \<le> v" "v \<le> llmax"
  shows "scanf_d64 (show_ints (v # vs)) = Inr (Some (v, CHR '' '' # show_ints vs))"
    and "scanf_d64 (CHR '' '' # show_ints (v # vs)) = Inr (Some (v, CHR '' '' # show_ints vs))"
  using assms scan_int_string_of_int [of "CHR '' ''" v "show_ints vs"] scan_int_skip [of "CHR '' ''"]
  by (simp_all add: scanf_d64_def llmax_def show_ints_def)

lemma nv_loop_requests:
  assumes "\<forall>k \<in> set ks. - llmax - 1 \<le> k \<and> k \<le> llmax" "run_requests nv_access ks S h = Inr (h', S')"
  shows "nv_loop (length ks) i S h (CHR '' '' # show_ints ks) = Inr \<lparr>code = 0, out = string_of_nat h' @ endl, err = []\<rparr>"
  using assms
proof (induction ks arbitrary: i h S)
  case (Cons k ks)
  obtain hit S1 where S1: "nv_access k S = Inr (hit, S1)" "run_requests nv_access ks S1 (h + (if hit then 1 else 0)) = Inr (h', S')"
    using Cons.prems(2) by (auto simp: bindE_eq_Inr_iff)
  show ?case using Cons.IH [OF _ S1(2), of "i + 1"] Cons.prems(1) S1(1) scanf_show(2) [of k ks] by simp
qed simp

text \<open>An input in which some number is outside the range of \<^verbatim>\<open>int64_t\<close>.\<close>

definition out_of_range :: "string \<Rightarrow> bool" where
  "out_of_range inp \<longleftrightarrow> (\<exists>p q v rest. inp = p @ q \<and> scan_int q = Some (v, rest) \<and> (v < - (2 ^ 63) \<or> 2 ^ 63 \<le> v))"

lemma scanf_rest:
  assumes "scanf_d64 inp = Inr (Some (v, rest))" "out_of_range rest"
  shows "out_of_range inp"
proof -
  have "scan_int inp = Some (v, rest)" using assms(1) by (auto simp: scanf_d64_def split: option.splits if_splits)
  then obtain s where "rest = dropWhile isdigit s" "s = dropWhile isspace inp \<or> s = tl (dropWhile isspace inp)"
    by (auto simp: scan_int_def Let_def split: if_splits)
  then obtain p where "inp = p @ rest" by (metis append.assoc append_Nil drop_Suc_Cons list.exhaust_sel takeWhile_dropWhile_id append_Cons tl_Nil)
  then show ?thesis using assms(2) unfolding out_of_range_def by (metis append.assoc)
qed

lemma scanf_error: "scanf_d64 inp = Inl e \<Longrightarrow> e = Undefined_behaviour \<and> out_of_range inp"
proof -
  assume "scanf_d64 inp = Inl e"
  then obtain v rest where "scan_int inp = Some (v, rest)" "v < - (2 ^ 63) \<or> 2 ^ 63 \<le> v" "e = Undefined_behaviour"
    by (auto simp: scanf_d64_def not_le not_less split: option.splits if_splits)
  then show ?thesis unfolding out_of_range_def by (metis append_Nil)
qed

lemma nv_loop_total:
  "nv_inv S \<Longrightarrow> (\<exists>r. nv_loop n i S h inp = Inr r \<and> (code r = 0 \<and> err r = [] \<or> code r = 1 \<and> out r = [] \<and> err r \<noteq> [])) \<or>
     nv_loop n i S h inp = Inl Undefined_behaviour \<and> out_of_range inp"
proof (induction n arbitrary: S i h inp)
  case (Suc n)
  show ?case
  proof (cases "scanf_d64 inp")
    case (Inl e)
    then show ?thesis using scanf_error [OF Inl] by simp
  next
    case (Inr r)
    show ?thesis
    proof (cases r)
      case None
      then show ?thesis using Inr by (simp add: nv_error_def)
    next
      case (Some vr)
      obtain v rest where vr: "vr = (v, rest)" by (cases vr)
      obtain S1 where S1: "nv_access v S = Inr (v \<in> set (nv_keys S), S1)" "nv_inv S1" using nvlru.lookup_ok [OF Suc.prems, of v] by blast
      define h1 where "h1 = h + (if v \<in> set (nv_keys S) then 1 else 0)"
      have loop: "nv_loop (Suc n) i S h inp = nv_loop n (i + 1) S1 h1 rest" using Inr Some vr S1(1) by (simp add: h1_def)
      have "out_of_range rest \<Longrightarrow> out_of_range inp" using scanf_rest [of inp v rest] Inr Some vr by simp
      then show ?thesis unfolding loop using Suc.IH [OF S1(2), of "i + 1" h1 rest] by blast
    qed
  qed
qed simp

definition nv_start :: "nat \<Rightarrow> Cache \<times> nat" where
  "nv_start limit = (\<lparr>chead = None, ctail = None, cbuckets = replicate limit None, ccapacity = limit, pool = replicate limit zero_node\<rparr>, 0)"

lemma nv_start_ok: "nv_inv (nv_start n)" "nv_keys (nv_start n) = []" "(\<lambda>(C, u). ccapacity C) (nv_start n) = n"
proof -
  let ?C = "fst (nv_start n)"
  have "nlrep ?C []" by (simp add: nv_start_def nlrep_def ring_def nn_def np_def)
  moreover have "nmrep ?C (replicate n []) (set [])" if "n > 0"
    using that by (simp add: nv_start_def nmrep_def table_def)
  ultimately have "nv_rep ?C 0 []" if "n > 0" using that unfolding nv_rep_def by (auto simp: nv_start_def)
  then show "nv_inv (nv_start n)" by (cases "n = 0") (auto simp: nv_inv_def nv_start_def)
  show "nv_keys (nv_start n) = []" by (cases n) (simp_all add: nv_keys_def nv_start_def)
qed (simp add: nv_start_def)

section \<open>Memory\<close>

text \<open>Every way out of the program frees what was allocated, and nothing else.\<close>

lemma nv_return_frees:
  "nv_return None None [] r = Inr (r, [])" "nv_return (Some a) None [a] r = Inr (r, [])"
  "nv_return None (Some b) [b] r = Inr (r, [])" "a \<noteq> b \<Longrightarrow> nv_return (Some a) (Some b) [b, a] r = Inr (r, [])"
  by (simp_all add: nv_return_def nv_free_def)

lemma nv_alloc_run:
  "(let (nodes, live) = (if limit \<noteq> 0 then nv_calloc av 0 [] else (None, []));
        (buckets, live) = (if limit \<noteq> 0 then nv_calloc av 1 live else (None, live)) in
     if limit \<noteq> 0 \<and> (nodes = None \<or> buckets = None) then bindE fail (nv_return nodes buckets live)
     else bindE run (nv_return nodes buckets live)) =
   bindE (if limit \<noteq> (0::nat) \<and> \<not> (av 0 \<and> av 1) then fail else run) (\<lambda>r. Inr (r, []))"
proof -
  have "nv_return (Some 0) None [0] = (\<lambda>r. Inr (r, []))" "nv_return None (Some 1) [1] = (\<lambda>r. Inr (r, []))"
    "nv_return (Some 0) (Some 1) [1, 0] = (\<lambda>r. Inr (r, []))" "nv_return None None [] = (\<lambda>r. Inr (r, []))"
    by (auto simp: nv_return_frees)
  then show ?thesis by (cases "limit = 0"; cases "av 0"; cases "av 1") (simp_all add: nv_calloc_def)
qed

text \<open>What the program computes, with the memory left out.\<close>

definition nv_run :: "(nat \<Rightarrow> bool) \<Rightarrow> string \<Rightarrow> outcome res" where
  "nv_run av inp =
     (let bad = nv_error ''Expected nonnegative cache size and element count.'' in
      bindE (scanf_d64 inp) (\<lambda>r.
      case r of
        None \<Rightarrow> bad
      | Some (requested_capacity, inp) \<Rightarrow>
          bindE (scanf_d64 inp) (\<lambda>r.
          case r of
            None \<Rightarrow> bad
          | Some (cnt, inp) \<Rightarrow>
              if requested_capacity < 0 \<or> cnt < 0 then bad
              else
                let limit = nat (if requested_capacity < cnt then requested_capacity else cnt) in
                if limit > (2 ^ 64 - 1) div 32 \<or> limit > (2 ^ 64 - 1) div 8 then nv_error ''Cache is too large.''
                else if limit \<noteq> 0 \<and> \<not> (av 0 \<and> av 1) then nv_error ''Cannot allocate cache.''
                else nv_loop (nat cnt) 0
                  (\<lparr>chead = None, ctail = None, cbuckets = replicate limit None, ccapacity = limit, pool = replicate limit zero_node\<rparr>, 0) 0 inp)))"

lemma bindE_then: "bindE (bindE x f) g = bindE x (\<lambda>y. bindE (f y) g)"
  by (cases x) simp_all

lemma bindE_option: "bindE (case r of None \<Rightarrow> a | Some p \<Rightarrow> f p) g = (case r of None \<Rightarrow> bindE a g | Some p \<Rightarrow> bindE (f p) g)"
  by (cases r) simp_all

lemma bindE_prod: "bindE (case p of (a, b) \<Rightarrow> f a b) g = (case p of (a, b) \<Rightarrow> bindE (f a b) g)"
  by (cases p) simp_all

lemma nv_main_mem_run: "nv_main_mem av inp = bindE (nv_run av inp) (\<lambda>r. Inr (r, []))"
  unfolding nv_main_mem_def nv_run_def nv_alloc_run Let_def [where s = "nv_error _"] Let_def [where s = "nat _"] Let_def [where s = "\<lambda>msg. _ msg"]
  unfolding Let_def [where s = "bindE _ _"] bindE_then bindE_option bindE_prod if_distrib [of "\<lambda>x. bindE x _"] ..

lemma nv_main_eq: "nv_main = nv_run"
proof (intro ext)
  show "nv_main av inp = nv_run av inp" for av inp
    unfolding nv_main_def nv_main_mem_run by (cases "nv_run av inp") simp_all
qed

lemma nv_main_mem_no_leak: "nv_main_mem av inp = bindE (nv_main av inp) (\<lambda>r. Inr (r, []))"
  by (simp only: nv_main_eq nv_main_mem_run)

section \<open>Properties\<close>

text \<open>
  C10. The naive program: on every input, and whatever allocations fail, it ends properly, or the input has a number
  outside the range of \<^verbatim>\<open>int64_t\<close> and \<^verbatim>\<open>scanf\<close> makes its behaviour undefined, as it does when the first number is such;
  every way out frees what was allocated, and nothing twice. On an input made of a capacity, a length and as many keys, all in
  the range of \<^verbatim>\<open>int64_t\<close>, it prints what the C++ program prints, provided that the allocations succeed and the table fits memory.
\<close>

theorem nv_main_correct:
  assumes "\<forall>k \<in> set ks. - llmax - 1 \<le> k \<and> k \<le> llmax" "int (length ks) \<le> llmax" "int m \<le> llmax"
    and "min m (length ks) \<le> (2 ^ 64 - 1) div 32"
  shows "((\<exists>r. nv_main av inp = Inr r \<and> (code r = 0 \<and> err r = [] \<or> code r = 1 \<and> out r = [] \<and> err r \<noteq> [])) \<or>
      nv_main av inp = Inl Undefined_behaviour \<and> out_of_range inp) \<and>
    nv_main av (show_ints ((llmax + 1) # js)) = Inl Undefined_behaviour \<and>
    nv_main_mem av inp = bindE (nv_main av inp) (\<lambda>r. Inr (r, [])) \<and>
    cache_main (show_ints (int m # int (length ks) # ks)) = nv_main (\<lambda>_. True) (show_ints (int m # int (length ks) # ks)) \<and>
    nv_main (\<lambda>_. True) (show_ints (int m # int (length ks) # ks)) = Inr \<lparr>code = 0, out = string_of_nat (lru_hits m [] ks) @ endl, err = []\<rparr>"
proof (intro conjI)
  let ?proper = "\<lambda>r. code r = 0 \<and> err r = [] \<or> code r = 1 \<and> out r = [] \<and> err r \<noteq> []"
  have bad: "\<exists>r. nv_error msg = Inr r \<and> ?proper r" for msg by (simp add: nv_error_def endl_def)
  show "(\<exists>r. nv_main av inp = Inr r \<and> ?proper r) \<or> nv_main av inp = Inl Undefined_behaviour \<and> out_of_range inp"
  proof (cases "\<exists>v rest w rest'. scanf_d64 inp = Inr (Some (v, rest)) \<and> scanf_d64 rest = Inr (Some (w, rest'))")
    case True
    then obtain v rest w rest' where r: "scanf_d64 inp = Inr (Some (v, rest))" "scanf_d64 rest = Inr (Some (w, rest'))" by blast
    have "out_of_range rest' \<Longrightarrow> out_of_range inp" using r by (blast intro: scanf_rest)
    then have loop: "(\<exists>r. nv_loop n 0 (nv_start l) 0 rest' = Inr r \<and> ?proper r) \<or> nv_loop n 0 (nv_start l) 0 rest' = Inl Undefined_behaviour \<and> out_of_range inp"
      for n l using nv_loop_total [OF nv_start_ok(1), of n 0 l 0 rest'] by blast
    show ?thesis using r bad loop unfolding nv_main_eq nv_run_def Let_def nv_start_def by simp
  next
    case False
    then consider e where "scanf_d64 inp = Inl e" | "scanf_d64 inp = Inr None"
      | v rest e where "scanf_d64 inp = Inr (Some (v, rest))" "scanf_d64 rest = Inl e"
      | v rest where "scanf_d64 inp = Inr (Some (v, rest))" "scanf_d64 rest = Inr None"
      by (metis (no_types, opaque_lifting) option.exhaust prod.exhaust sum.exhaust)
    then show ?thesis
    proof cases
      case 3
      then show ?thesis using scanf_error scanf_rest by (simp add: nv_main_eq nv_run_def)
    qed (use bad scanf_error in \<open>simp_all add: nv_main_eq nv_run_def Let_def\<close>)
  qed
  have "scan_int (show_ints ((llmax + 1) # js)) = Some (llmax + 1, CHR '' '' # show_ints js)"
    using scan_int_string_of_int [of "CHR '' ''" "llmax + 1" "show_ints js"] by (simp add: show_ints_def)
  then show "nv_main av (show_ints ((llmax + 1) # js)) = Inl Undefined_behaviour"
    by (simp add: nv_main_eq nv_run_def scanf_d64_def llmax_def)
  show "nv_main_mem av inp = bindE (nv_main av inp) (\<lambda>r. Inr (r, []))" by (rule nv_main_mem_no_leak)
  let ?n = "min m (length ks)"
  obtain S' where run: "run_requests nv_access ks (nv_start ?n) 0 = Inr (lru_hits ?n [] ks, S')"
    using nvlru.run_hits [OF nv_start_ok(1), of ?n "[]" ks 0] unfolding nv_start_ok(2,3) by auto
  show main: "nv_main (\<lambda>_. True) (show_ints (int m # int (length ks) # ks)) = Inr \<lparr>code = 0, out = string_of_nat (lru_hits m [] ks) @ endl, err = []\<rparr>"
    unfolding nv_main_eq nv_run_def Let_def
    using scanf_show [of "int m" "int (length ks) # ks"] scanf_show [of "int (length ks)" ks] assms
      nv_loop_requests [OF assms(1) run, of 0] lru_hits_min [of m ks]
    by (cases "m < length ks") (simp_all add: nv_start_def llmax_def min_absorb1 min_absorb2)
  then show "cache_main (show_ints (int m # int (length ks) # ks)) = nv_main (\<lambda>_. True) (show_ints (int m # int (length ks) # ks))"
    using cache_main_output [OF assms(1,2,3)] by simp
qed

theorem nv_main_correct_witness:
  "nv_main (\<lambda>_. True) (show_ints [2, 4, 1, 2, 1, 3]) = Inr \<lparr>code = 0, out = ''1'' @ endl, err = []\<rparr>"
proof -
  have "string_of_nat 1 = ''1''" by code_simp
  moreover have "lru_hits 2 [] [1, 2, 1, 3 :: int] = 1" by (simp add: touch_def eval_nat_numeral)
  moreover have "min 2 (length [1, 2, 1, 3 :: int]) \<le> (2 ^ 64 - 1) div 32" by simp
  ultimately show ?thesis using nv_main_correct [of "[1, 2, 1, 3]" 2 "\<lambda>_. True" "[]" "[]"] by (auto simp: llmax_def)
qed

end
