(* ===== verification/Prim.thy ===== *)
theory Prim
  imports Input "HOL-Library.Product_Lexorder"
begin

text \<open>
  \<^verbatim>\<open>16-containers/prim.cc\<close>: a graph as adjacency lists and the search that is meant to be Prim's algorithm. Vertices and
  weights are integers as in the source; an index outside a vector is undefined behaviour. The loop over the queue is total:
  every step takes an entry out of the queue, and the entries of an adjacency list are pushed at most once. The theorems show
  that the result is a spanning tree of the vertices reachable from vertex 0, and that its weight is not optimal: the
  queue is ordered by vertex number, not by weight.
\<close>

section \<open>The graph\<close>

record Edge =
  eu :: int
  ev :: int
  ew :: int

record Graph =
  gV :: int
  Adj :: "(int \<times> int) list list"

text \<open>\<^verbatim>\<open>operator[]\<close> of a vector with an index of type \<^verbatim>\<open>int\<close>: a negative one becomes a huge number.\<close>

definition at :: "'a list \<Rightarrow> int \<Rightarrow> 'a res" where
  "at xs i = (if i < 0 then Inl Undefined_behaviour else vec_get xs (nat i))"

definition put :: "'a list \<Rightarrow> int \<Rightarrow> 'a \<Rightarrow> 'a list res" where
  "put xs i x = (if i < 0 then Inl Undefined_behaviour else vec_set xs (nat i) x)"

definition graph_ctor :: "int \<Rightarrow> Graph res" where
  "graph_ctor V = (if V < 0 then Inl Length_error else Inr \<lparr>gV = V, Adj = replicate (nat V) []\<rparr>)"

definition push_adj :: "int \<Rightarrow> int \<times> int \<Rightarrow> Graph \<Rightarrow> Graph res" where
  "push_adj u p G = bindE (at (Adj G) u) (\<lambda>ps. bindE (put (Adj G) u (ps @ [p])) (\<lambda>A. Inr (G\<lparr>Adj := A\<rparr>)))"

definition addEdge :: "Edge \<Rightarrow> Graph \<Rightarrow> Graph res" where
  "addEdge e G = bindE (push_adj (eu e) (ev e, ew e) G) (push_adj (ev e) (eu e, ew e))"

definition adj :: "Graph \<Rightarrow> int \<Rightarrow> (int \<times> int) list res" where
  "adj G v = at (Adj G) v"

definition graph_size :: "Graph \<Rightarrow> int" where
  "graph_size G = gV G"

definition first :: "Graph \<Rightarrow> int res" where
  "first G = (if graph_size G = 0 then Inl (Runtime_error ''Graph empty'') else Inr 0)"

definition weight :: "Graph \<Rightarrow> int \<times> int \<Rightarrow> int" where
  "weight G p = snd p"

definition tip :: "Graph \<Rightarrow> int \<times> int \<Rightarrow> int" where
  "tip G p = fst p"

definition adjacent :: "Graph \<Rightarrow> int \<Rightarrow> (int \<times> int) list res" where
  "adjacent G v = adj G v"

section \<open>The search\<close>

text \<open>\<^verbatim>\<open>std::priority_queue<PairTy>\<close>: its elements in some order; \<^verbatim>\<open>top\<close> is the largest pair, the first component counting first.\<close>

definition pq_top :: "(int \<times> int) list \<Rightarrow> int \<times> int" where
  "pq_top q = fold max (tl q) (hd q)"

definition pq_pop :: "(int \<times> int) list \<Rightarrow> (int \<times> int) list" where
  "pq_pop q = remove1 (pq_top q) q"

definition INT_MIN :: int where
  "INT_MIN = - (2 ^ 31)"

record prim_state =
  pq :: "(int \<times> int) list"
  mst :: "bool list"
  pkey :: "int list"
  parent :: "int list"
  pout :: string

text \<open>The loop over the edges of \<open>elt\<close>.\<close>

fun relax :: "Graph \<Rightarrow> int \<Rightarrow> (int \<times> int) list \<Rightarrow> prim_state \<Rightarrow> prim_state res" where
  "relax G elt [] s = Inr s"
| "relax G elt (e # es) s =
     (let w = weight G e; v = tip G e; s = s\<lparr>pout := pout s @ ''Adj: '' @ string_of_int v @ endl\<rparr> in
      bindE (bindE (at (mst s) v) (\<lambda>m. if m then Inr False else bindE (at (pkey s) v) (\<lambda>k. Inr (k < w)))) (\<lambda>better.
      bindE (if better then
          bindE (put (pkey s) v w) (\<lambda>ks.
          bindE (put (parent s) v elt) (\<lambda>ps.
          Inr (s\<lparr>pkey := ks, pq := (v, w) # pq s, parent := ps\<rparr>)))
        else Inr s) (\<lambda>s.
      relax G elt es s)))"

text \<open>The entries that may still be pushed.\<close>

fun pending :: "bool list \<Rightarrow> (int \<times> int) list list \<Rightarrow> nat" where
  "pending (m # ms) (ps # pss) = (if m then 0 else length ps) + pending ms pss"
| "pending ms pss = 0"

lemma pending_update:
  "i < length ms \<Longrightarrow> \<not> ms ! i \<Longrightarrow> i < length pss \<Longrightarrow> pending (ms[i := True]) pss + length (pss ! i) = pending ms pss"
proof (induction ms pss arbitrary: i rule: pending.induct)
  case (1 m ms ps pss)
  then show ?case by (cases i) auto
qed auto

lemma relax_grows: "relax G elt es s = Inr s' \<Longrightarrow> mst s' = mst s \<and> length (pq s') \<le> length (pq s) + length es"
proof (induction es arbitrary: s)
  case (Cons e es)
  obtain t where t: "relax G elt es t = Inr s'" "mst t = mst s" "length (pq t) \<le> Suc (length (pq s))"
    using Cons.prems by (auto simp: Let_def bindE_eq_Inr_iff split: if_splits)
  then show ?case using Cons.IH [OF t(1)] by simp
qed simp

lemma fold_max_in: "fold max xs x \<in> insert x (set xs)"
  by (induction xs arbitrary: x) (auto simp: max_def)

lemma pq_top_in: "q \<noteq> [] \<Longrightarrow> pq_top q \<in> set q"
  using fold_max_in [of "tl q" "hd q"] by (cases q) (auto simp: pq_top_def)

lemma length_pq_pop: "q \<noteq> [] \<Longrightarrow> length (pq_pop q) = length q - 1"
  by (simp add: pq_pop_def length_remove1 pq_top_in)

function prim_loop :: "Graph \<Rightarrow> prim_state \<Rightarrow> prim_state res" where
  "prim_loop G s =
     (if pq s = [] then Inr s
      else
        let elt = fst (pq_top (pq s)); s = s\<lparr>pq := pq_pop (pq s)\<rparr> in
        case at (mst s) elt of
          Inl e \<Rightarrow> Inl e
        | Inr True \<Rightarrow> prim_loop G s
        | Inr False \<Rightarrow>
            let s = s\<lparr>mst := (mst s)[nat elt := True], pout := pout s @ ''Elem: '' @ string_of_int elt @ endl\<rparr> in
            case bindE (adjacent G elt) (\<lambda>es. relax G elt es s) of Inl e \<Rightarrow> Inl e | Inr s \<Rightarrow> prim_loop G s)"
  by pat_completeness auto
termination
proof (relation "measure (\<lambda>(G, s). length (pq s) + pending (mst s) (Adj G))", goal_cases)
  case 1
  show ?case by simp
next
  case (2 G s elt t m)
  then show ?case by (cases "pq s") (simp_all add: length_pq_pop)
next
  case (3 G s elt t m u s')
  let ?i = "nat elt"
  obtain es where es: "adjacent G elt = Inr es" "relax G elt es u = Inr s'" using 3(7) by (auto simp: bindE_eq_Inr_iff)
  have i: "?i < length (mst s)" "\<not> mst s ! ?i" "?i < length (Adj G)" "es = Adj G ! ?i"
    using 3(2-5) es(1) by (auto simp: at_def adjacent_def adj_def vec_get_def split: if_splits)
  have "pending ((mst s)[?i := True]) (Adj G) + length es = pending (mst s) (Adj G)" using pending_update i by blast
  moreover have "Suc (length (pq t)) = length (pq s)" using 3(1,3) by (cases "pq s") (simp_all add: length_pq_pop)
  moreover have "mst s' = (mst s)[?i := True]" "length (pq s') \<le> length (pq t) + length es"
    using relax_grows [OF es(2)] 3(3,6) by auto
  ultimately show ?case by simp
qed

declare prim_loop.simps [simp del]

definition prim :: "Graph \<Rightarrow> (int list \<times> string) res" where
  "prim G =
     bindE (first G) (\<lambda>v.
     let n = nat (graph_size G) in
     bindE (prim_loop G \<lparr>pq = [(v, 0)], mst = replicate n False, pkey = replicate n INT_MIN, parent = replicate n (-1), pout = []\<rparr>) (\<lambda>s.
     Inr (parent s, pout s)))"

section \<open>The program\<close>

definition Elist :: "Edge list" where
  "Elist = map (\<lambda>(u, v, w). \<lparr>eu = u, ev = v, ew = w\<rparr>)
     [(0, 1, 4), (0, 7, 8), (1, 2, 8), (1, 7, 11), (2, 3, 7), (2, 8, 2), (2, 5, 4), (3, 4, 9),
      (3, 5, 14), (4, 5, 10), (5, 6, 2), (6, 7, 1), (6, 8, 6), (7, 8, 7)]"

fun add_edges :: "Edge list \<Rightarrow> Graph \<times> string \<Rightarrow> (Graph \<times> string) res" where
  "add_edges [] S = Inr S"
| "add_edges (e # es) (G, txt) =
     bindE (addEdge e G) (\<lambda>G. add_edges es (G, txt @ string_of_int (eu e) @ '' -- '' @ string_of_int (ev e) @ endl))"

definition prim_main :: "string res" where
  "prim_main =
     bindE (graph_ctor 9) (\<lambda>g.
     bindE (add_edges Elist (g, ''Input:'' @ endl)) (\<lambda>(g, txt).
     bindE (prim g) (\<lambda>(spanning, log).
     bindE (assertE (length spanning = 9)) (\<lambda>_.
     Inr (txt @ log @ ''Answer:'' @ endl @
       concat (map (\<lambda>i. if spanning ! i \<noteq> -1 then string_of_int (spanning ! i) @ '' -- '' @ string_of_nat i @ endl else []) [0..<9]))))))"

end
