(* ===== verification/Prim_Props.thy ===== *)
theory Prim_Props
  imports Prim
begin

text \<open>
  What the search of \<^verbatim>\<open>prim.cc\<close> computes. The invariant is stated on sets: the vertices of the queue, the vertices taken,
  their parents, the vertices with a key and the edges still to be looked at.
\<close>

section \<open>The invariant\<close>

text \<open>The parents of the vertices taken lead to vertex 0 along edges.\<close>

inductive rooted :: "(int \<Rightarrow> int \<Rightarrow> bool) \<Rightarrow> int set \<Rightarrow> (int \<Rightarrow> int) \<Rightarrow> int \<Rightarrow> bool" for N M P where
  root: "rooted N M P 0"
| child: "rooted N M P p \<Longrightarrow> v \<in> M \<Longrightarrow> P v = p \<Longrightarrow> v \<noteq> 0 \<Longrightarrow> N p v \<Longrightarrow> rooted N M P v"

lemma rooted_mono:
  assumes "rooted N M P v" "M \<subseteq> M'" "\<And>v. v \<in> M \<Longrightarrow> P' v = P v"
  shows "rooted N M' P' v"
  using assms by (induction rule: rooted.induct) (auto intro: rooted.intros)

lemma rooted_reachable: "rooted N M P v \<Longrightarrow> N\<^sup>*\<^sup>* 0 v"
  by (induction rule: rooted.induct) auto

definition prim_inv :: "(int \<Rightarrow> int \<Rightarrow> bool) \<Rightarrow> int set \<Rightarrow> int set \<Rightarrow> int set \<Rightarrow> (int \<Rightarrow> int) \<Rightarrow> int set \<Rightarrow> (int \<times> int) set \<Rightarrow> bool" where
  "prim_inv N W Q M P S E \<longleftrightarrow>
     M \<subseteq> W \<and> Q \<subseteq> W \<and> (\<forall>v \<in> M. rooted N M P v) \<and>
     (\<forall>v \<in> W. P v \<noteq> -1 \<longrightarrow> v \<noteq> 0 \<and> P v \<in> M \<and> N (P v) v) \<and>
     (\<forall>v \<in> Q - M. v = 0 \<or> P v \<noteq> -1) \<and> S - M \<subseteq> Q \<and>
     (\<forall>u \<in> M. \<forall>v. N u v \<longrightarrow> v \<in> M \<union> S \<or> (u, v) \<in> E) \<and>
     (0 \<in> M \<or> 0 \<in> Q \<and> M = {}) \<and> (\<forall>v \<in> M - {0}. P v \<noteq> -1)"

lemma prim_invD:
  assumes "prim_inv N W Q M P S E"
  shows "M \<subseteq> W" "Q \<subseteq> W" "\<And>v. v \<in> M \<Longrightarrow> rooted N M P v" "\<And>v. v \<in> W \<Longrightarrow> P v \<noteq> -1 \<Longrightarrow> v \<noteq> 0 \<and> P v \<in> M \<and> N (P v) v"
    "\<And>v. v \<in> Q \<Longrightarrow> v \<notin> M \<Longrightarrow> v = 0 \<or> P v \<noteq> -1" "S - M \<subseteq> Q" "\<And>u v. u \<in> M \<Longrightarrow> N u v \<Longrightarrow> v \<in> M \<union> S \<or> (u, v) \<in> E"
    "0 \<in> M \<or> 0 \<in> Q \<and> M = {}" "\<And>v. v \<in> M \<Longrightarrow> v \<noteq> 0 \<Longrightarrow> P v \<noteq> -1"
  using assms unfolding prim_inv_def by blast+

lemma prim_inv_pop:
  assumes "prim_inv N W Q M P S {}" "v \<in> M" "Q - {v} \<subseteq> Q'" "Q' \<subseteq> Q"
  shows "prim_inv N W Q' M P S {}"
proof -
  note D = prim_invD [OF assms(1)]
  have "u = 0 \<or> P u \<noteq> -1" if "u \<in> Q'" "u \<notin> M" for u using D(5) [of u] that assms(4) by blast
  moreover have "Q' \<subseteq> W" "S - M \<subseteq> Q'" "0 \<in> M" using D(2,6,8) assms(2-4) by auto
  ultimately show ?thesis using assms(1) unfolding prim_inv_def by simp
qed

lemma prim_inv_take:
  assumes I: "prim_inv N W Q M P S {}" and v: "v \<in> Q" "v \<notin> M" and Q: "Q - {v} \<subseteq> Q'" "Q' \<subseteq> Q"
  shows "prim_inv N W Q' (insert v M) P S {(v, u) |u. N v u}"
proof -
  note D = prim_invD [OF I]
  have r: "rooted N (insert v M) P u" if "u \<in> M" for u using D(3) [OF that] by (rule rooted_mono) auto
  have "rooted N (insert v M) P v"
  proof (cases "v = 0")
    case False
    then have "P v \<in> M" "N (P v) v" using D(4) [of v] D(5) [of v] D(2) v by auto
    then show ?thesis using r False by (blast intro: rooted.child)
  qed (simp add: rooted.root)
  then have "\<forall>u \<in> insert v M. rooted N (insert v M) P u" using r by simp
  moreover have "0 \<in> insert v M \<or> 0 \<in> Q' \<and> insert v M = {}" using D(4) [of v] D(5) [of v] D(2,8) v by auto
  moreover have "\<forall>u \<in> Q' - insert v M. u = 0 \<or> P u \<noteq> -1" "\<forall>u \<in> insert v M - {0}. P u \<noteq> -1" using D(5,9) v Q(2) by auto
  moreover have "\<forall>x \<in> W. P x \<noteq> -1 \<longrightarrow> x \<noteq> 0 \<and> P x \<in> insert v M \<and> N (P x) x" using D(4) by simp
  moreover have "\<forall>x \<in> insert v M. \<forall>y. N x y \<longrightarrow> y \<in> insert v M \<union> S \<or> (x, y) \<in> {(v, u) |u. N v u}" using D(7) by blast
  moreover have "insert v M \<subseteq> W" "Q' \<subseteq> W" "S - insert v M \<subseteq> Q'" using D(1,2,6) v Q by auto
  ultimately show ?thesis unfolding prim_inv_def by - (intro conjI; assumption)
qed

lemma prim_inv_better:
  assumes I: "prim_inv N W Q M P S E" and u: "u \<in> M" "u \<noteq> -1" and v: "v \<in> W" "v \<notin> M" "N u v"
  shows "prim_inv N W (insert v Q) M (P(v := u)) (insert v S) (E - {(u, v)})"
proof -
  note D = prim_invD [OF I]
  have r: "rooted N M (P(v := u)) x" if "x \<in> M" for x using D(3) [OF that] by (rule rooted_mono) (use v(2) in auto)
  have v0: "v \<noteq> 0" "0 \<in> M" using D(8) u v by auto
  have "\<forall>x \<in> W. (P(v := u)) x \<noteq> -1 \<longrightarrow> x \<noteq> 0 \<and> (P(v := u)) x \<in> M \<and> N ((P(v := u)) x) x" using D(4) v0 u v by simp
  moreover have "\<forall>x \<in> insert v Q - M. x = 0 \<or> (P(v := u)) x \<noteq> -1" using D(5) u(2) by auto
  moreover have "\<forall>x \<in> M - {0}. (P(v := u)) x \<noteq> -1" using D(9) v(2) by auto
  moreover have "\<forall>x \<in> M. \<forall>y. N x y \<longrightarrow> y \<in> M \<union> insert v S \<or> (x, y) \<in> E - {(u, v)}" using D(7) by blast
  ultimately show ?thesis using D(1,2,6) r v(1) v0 unfolding prim_inv_def by (intro conjI; blast)
qed

lemma prim_inv_skip: "prim_inv N W Q M P S E \<Longrightarrow> v \<in> M \<union> S \<Longrightarrow> prim_inv N W Q M P S (E - {(u, v)})"
  unfolding prim_inv_def by blast

lemma prim_inv_end:
  assumes I: "prim_inv N W {} M P S {}"
  shows "v \<in> M \<longleftrightarrow> N\<^sup>*\<^sup>* 0 v" "v \<in> W \<Longrightarrow> P v \<noteq> -1 \<longleftrightarrow> v \<in> M - {0}"
proof -
  have closed: "x \<in> M" if "u \<in> M" "N u x" for u x using I that unfolding prim_inv_def by blast
  have "v \<in> M" if "N\<^sup>*\<^sup>* 0 v" using that
    by (induction rule: rtranclp_induct) (use I closed in \<open>auto simp: prim_inv_def\<close>)
  then show "v \<in> M \<longleftrightarrow> N\<^sup>*\<^sup>* 0 v" using I by (auto simp: prim_inv_def intro: rooted_reachable)
  show "P v \<noteq> -1 \<longleftrightarrow> v \<in> M - {0}" if "v \<in> W" using I closed that unfolding prim_inv_def by blast
qed

section \<open>The state of the program\<close>

definition verts :: "nat \<Rightarrow> int set" where
  "verts n = {v. 0 \<le> v \<and> v < int n}"

definition nbr :: "Graph \<Rightarrow> int \<Rightarrow> int \<Rightarrow> bool" where
  "nbr G u v \<longleftrightarrow> u \<in> verts (length (Adj G)) \<and> v \<in> fst ` set (Adj G ! nat u)"

definition graph_ok :: "Graph \<Rightarrow> bool" where
  "graph_ok G \<longleftrightarrow> gV G = int (length (Adj G)) \<and>
     (\<forall>es \<in> set (Adj G). \<forall>(v, w) \<in> set es. v \<in> verts (length (Adj G)) \<and> INT_MIN < w)"

definition prim_ok :: "Graph \<Rightarrow> prim_state \<Rightarrow> (int \<times> int) set \<Rightarrow> bool" where
  "prim_ok G s E \<longleftrightarrow> (let n = length (Adj G) in
     length (mst s) = n \<and> length (pkey s) = n \<and> length (parent s) = n \<and>
     prim_inv (nbr G) (verts n) (fst ` set (pq s)) {v \<in> verts n. mst s ! nat v} (\<lambda>v. parent s ! nat v)
       {v \<in> verts n. pkey s ! nat v \<noteq> INT_MIN} E)"

lemma at_ok [simp]: "v \<in> verts n \<Longrightarrow> length xs = n \<Longrightarrow> at xs v = Inr (xs ! nat v)"
  by (auto simp: verts_def at_def)

lemma put_ok [simp]: "v \<in> verts n \<Longrightarrow> length xs = n \<Longrightarrow> put xs v x = Inr (xs[nat v := x])"
  by (auto simp: verts_def put_def)

lemma nth_vert: "v \<in> verts n \<Longrightarrow> u \<in> verts n \<Longrightarrow> length xs = n \<Longrightarrow> xs[nat v := x] ! nat u = (if u = v then x else xs ! nat u)"
  by (auto simp: verts_def nth_list_update)

lemma pq_pop_range: "q \<noteq> [] \<Longrightarrow> fst ` set q - {fst (pq_top q)} \<subseteq> fst ` set (pq_pop q)" "fst ` set (pq_pop q) \<subseteq> fst ` set q"
proof -
  assume "q \<noteq> []"
  have "set q \<subseteq> insert (pq_top q) (set (pq_pop q))" unfolding pq_pop_def by (metis in_set_remove1 insertCI subsetI)
  then show "fst ` set q - {fst (pq_top q)} \<subseteq> fst ` set (pq_pop q)" by auto
next
  show "fst ` set (pq_pop q) \<subseteq> fst ` set q" using set_remove1_subset [of "pq_top q" q] by (auto simp: pq_pop_def)
qed

lemma prim_inv_cong:
  assumes "prim_inv N W Q M P S E" "\<And>v. v \<in> W \<Longrightarrow> P' v = P v"
  shows "prim_inv N W Q M P' S E"
proof -
  note D = prim_invD [OF assms(1)]
  have eq: "P' v = P v" if "v \<in> M \<or> v \<in> Q \<or> v \<in> W" for v using that D(1,2) assms(2) by blast
  have "rooted N M P' v" if "v \<in> M" for v using D(3) [OF that] by (rule rooted_mono) (simp_all add: eq)
  then show ?thesis using assms(1) unfolding prim_inv_def by (simp add: eq)
qed

lemma prim_inv_edges: "prim_inv N W Q M P S E \<Longrightarrow> E \<subseteq> E' \<Longrightarrow> prim_inv N W Q M P S E'"
  unfolding prim_inv_def by blast

lemma prim_ok_better:
  assumes s: "prim_ok G s E" and u: "u \<in> verts (length (Adj G))" "mst s ! nat u" and v: "\<not> mst s ! nat v" "nbr G u v" "v \<in> verts (length (Adj G))"
    and w: "w \<noteq> INT_MIN"
  shows "prim_ok G (s\<lparr>pkey := (pkey s)[nat v := w], pq := (v, w) # pq s, parent := (parent s)[nat v := u]\<rparr>) (E - {(u, v)})"
proof -
  let ?W = "verts (length (Adj G))"
  let ?M = "{v \<in> ?W. mst s ! nat v}" and ?S = "{v \<in> ?W. pkey s ! nat v \<noteq> INT_MIN}" and ?P = "\<lambda>v. parent s ! nat v"
  have len: "length (mst s) = length (Adj G)" "length (pkey s) = length (Adj G)" "length (parent s) = length (Adj G)"
    and I: "prim_inv (nbr G) ?W (fst ` set (pq s)) ?M ?P ?S E" using s by (auto simp: prim_ok_def Let_def)
  have "u \<in> ?M" "u \<noteq> -1" "v \<notin> ?M" using u v by (auto simp: verts_def)
  then have "prim_inv (nbr G) ?W (insert v (fst ` set (pq s))) ?M (?P(v := u)) (insert v ?S) (E - {(u, v)})"
    using v I by (intro prim_inv_better)
  moreover have "insert v ?S = {x \<in> ?W. (pkey s)[nat v := w] ! nat x \<noteq> INT_MIN}" using v(3) len w by (auto simp: nth_vert split: if_splits)
  ultimately have "prim_inv (nbr G) ?W (insert v (fst ` set (pq s))) ?M (\<lambda>x. (parent s)[nat v := u] ! nat x)
      {x \<in> ?W. (pkey s)[nat v := w] ! nat x \<noteq> INT_MIN} (E - {(u, v)})"
    using v(3) len by (auto intro: prim_inv_cong simp: nth_vert)
  then show ?thesis using len by (simp add: prim_ok_def Let_def)
qed

lemma prim_ok_skip:
  assumes "prim_ok G s E" "v \<in> verts (length (Adj G))" "mst s ! nat v \<or> pkey s ! nat v \<noteq> INT_MIN"
  shows "prim_ok G s (E - {(u, v)})"
  using assms prim_inv_skip unfolding prim_ok_def Let_def by auto

lemma relax_ok:
  assumes "prim_ok G s ({u} \<times> fst ` set es)" "u \<in> verts (length (Adj G))" "mst s ! nat u"
    and "\<forall>(v, w) \<in> set es. nbr G u v \<and> v \<in> verts (length (Adj G)) \<and> INT_MIN < w"
  shows "\<exists>s'. relax G u es s = Inr s' \<and> prim_ok G s' {}"
  using assms
proof (induction es arbitrary: s)
  case (Cons e es)
  obtain v w where e: "e = (v, w)" by (cases e)
  let ?s = "s\<lparr>pout := pout s @ ''Adj: '' @ string_of_int v @ endl\<rparr>"
  have v: "nbr G u v" "v \<in> verts (length (Adj G))" "INT_MIN < w" using Cons.prems(4) e by auto
  have ok: "prim_ok G ?s ({u} \<times> fst ` set (e # es))" using Cons.prems(1) by (simp add: prim_ok_def Let_def)
  have len: "length (mst s) = length (Adj G)" "length (pkey s) = length (Adj G)" "length (parent s) = length (Adj G)"
    using Cons.prems(1) by (auto simp: prim_ok_def Let_def)
  have E: "{u} \<times> fst ` set (e # es) - {(u, v)} \<subseteq> {u} \<times> fst ` set es" using e by auto
  have weaken: "prim_ok G t ({u} \<times> fst ` set (e # es) - {(u, v)}) \<Longrightarrow> prim_ok G t ({u} \<times> fst ` set es)" for t
    using E by (auto simp: prim_ok_def Let_def intro: prim_inv_edges)
  show ?case
  proof (cases "\<not> mst s ! nat v \<and> pkey s ! nat v < w")
    case True
    let ?t = "?s\<lparr>pkey := (pkey ?s)[nat v := w], pq := (v, w) # pq ?s, parent := (parent ?s)[nat v := u]\<rparr>"
    have "prim_ok G ?t ({u} \<times> fst ` set (e # es) - {(u, v)})"
      by (rule prim_ok_better [OF ok]) (use Cons.prems(2,3) v True in auto)
    then have "\<exists>s'. relax G u es ?t = Inr s' \<and> prim_ok G s' {}"
      using Cons.IH [OF weaken] Cons.prems by simp
    then show ?thesis using True v(2) len e by (simp add: Let_def weight_def tip_def)
  next
    case False
    then have "prim_ok G ?s ({u} \<times> fst ` set (e # es) - {(u, v)})" by (intro prim_ok_skip [OF ok v(2)]) (use v(3) in auto)
    then have "\<exists>s'. relax G u es ?s = Inr s' \<and> prim_ok G s' {}"
      using Cons.IH [OF weaken] Cons.prems by simp
    then show ?thesis using False v(2) len e by (cases "mst s ! nat v") (simp_all add: Let_def weight_def tip_def)
  qed
qed simp

lemma prim_loop_ok:
  "graph_ok G \<Longrightarrow> prim_ok G s {} \<Longrightarrow> \<exists>s'. prim_loop G s = Inr s' \<and> prim_ok G s' {} \<and> pq s' = []"
proof (induction G s rule: prim_loop.induct)
  case (1 G s)
  show ?case
  proof (cases "pq s = []")
    case True
    then show ?thesis using 1 by (simp add: prim_loop.simps)
  next
    case ne: False
    let ?W = "verts (length (Adj G))" and ?u = "fst (pq_top (pq s))"
    let ?M = "{v \<in> ?W. mst s ! nat v}" and ?S = "{v \<in> ?W. pkey s ! nat v \<noteq> INT_MIN}" and ?P = "\<lambda>v. parent s ! nat v"
    let ?s = "s\<lparr>pq := pq_pop (pq s)\<rparr>"
    have len: "length (mst s) = length (Adj G)" "length (pkey s) = length (Adj G)" "length (parent s) = length (Adj G)"
      and I: "prim_inv (nbr G) ?W (fst ` set (pq s)) ?M ?P ?S {}" using 1(4) by (auto simp: prim_ok_def Let_def)
    have u: "?u \<in> ?W" "?u \<in> fst ` set (pq s)" using prim_invD(2) [OF I] pq_top_in [OF ne] by auto
    note pop = pq_pop_range(1) [OF ne] pq_pop_range(2) [of "pq s"]
    show ?thesis
    proof (cases "mst s ! nat ?u")
      case True
      have "prim_inv (nbr G) ?W (fst ` set (pq_pop (pq s))) ?M ?P ?S {}"
        using I True u pop by (intro prim_inv_pop [OF I]) auto
      then have "prim_ok G ?s {}" using len by (simp add: prim_ok_def Let_def)
      then have "\<exists>s'. prim_loop G ?s = Inr s' \<and> prim_ok G s' {} \<and> pq s' = []"
        using 1(1) [OF ne refl refl, of True] 1(3) u len True by simp
      then show ?thesis unfolding prim_loop.simps [of G s] using ne u len True by (simp add: Let_def)
    next
      case False
      let ?t = "?s\<lparr>mst := (mst ?s)[nat ?u := True], pout := pout ?s @ ''Elem: '' @ string_of_int ?u @ endl\<rparr>"
      let ?es = "Adj G ! nat ?u"
      have "{(?u, x) |x. nbr G ?u x} = {?u} \<times> fst ` set ?es" using u(1) by (auto simp: nbr_def)
      then have "prim_inv (nbr G) ?W (fst ` set (pq_pop (pq s))) (insert ?u ?M) ?P ?S ({?u} \<times> fst ` set ?es)"
        using prim_inv_take [OF I u(2) _ pop] False by auto
      moreover have "insert ?u ?M = {v \<in> ?W. (mst s)[nat ?u := True] ! nat v}" using u(1) len by (auto simp: nth_vert)
      ultimately have ok: "prim_ok G ?t ({?u} \<times> fst ` set ?es)" using len by (simp add: prim_ok_def Let_def)
      have "nat ?u < length (Adj G)" using u(1) by (auto simp: verts_def)
      then have "?es \<in> set (Adj G)" by simp
      then have "\<forall>(v, w) \<in> set ?es. nbr G ?u v \<and> v \<in> ?W \<and> INT_MIN < w" using 1(3) u(1) by (force simp: graph_ok_def nbr_def)
      then obtain s' where s': "relax G ?u ?es ?t = Inr s'" "prim_ok G s' {}"
        using relax_ok [OF ok u(1)] u(1) len by (auto simp: verts_def)
      have adj: "adjacent G ?u = Inr ?es" using u(1) by (simp add: adjacent_def adj_def)
      then have "\<exists>s''. prim_loop G s' = Inr s'' \<and> prim_ok G s'' {} \<and> pq s'' = []"
        using 1(2) [OF ne refl refl, of False ?t s'] 1(3) s' u len False by simp
      then show ?thesis unfolding prim_loop.simps [of G s] using ne u len False adj s'(1) by (simp add: Let_def)
    qed
  qed
qed

section \<open>Building the graph\<close>

definition joined :: "Edge list \<Rightarrow> int \<Rightarrow> int \<Rightarrow> bool" where
  "joined es u v \<longleftrightarrow> (\<exists>e \<in> set es. eu e = u \<and> ev e = v \<or> ev e = u \<and> eu e = v)"

lemma joined_simps: "\<not> joined [] u v" "joined (e # es) u v \<longleftrightarrow> eu e = u \<and> ev e = v \<or> ev e = u \<and> eu e = v \<or> joined es u v"
  by (auto simp: joined_def)

lemma push_adj_ok:
  assumes "graph_ok G" "u \<in> verts (length (Adj G))" "v \<in> verts (length (Adj G))" "INT_MIN < w"
  obtains G' where "push_adj u (v, w) G = Inr G'" "graph_ok G'" "length (Adj G') = length (Adj G)"
    "\<forall>x y. nbr G' x y \<longleftrightarrow> nbr G x y \<or> x = u \<and> y = v"
proof -
  let ?A = "(Adj G)[nat u := Adj G ! nat u @ [(v, w)]]"
  have u: "nat u < length (Adj G)" using assms(2) by (auto simp: verts_def)
  have "es \<in> set (Adj G) \<or> es = Adj G ! nat u @ [(v, w)]" if "es \<in> set ?A" for es
    using that u by (auto dest: set_update_subset_insert [THEN subsetD])
  moreover have "Adj G ! nat u \<in> set (Adj G)" using u by simp
  ultimately have "graph_ok (G\<lparr>Adj := ?A\<rparr>)" using assms by (fastforce simp: graph_ok_def)
  moreover have "nbr (G\<lparr>Adj := ?A\<rparr>) x y \<longleftrightarrow> nbr G x y \<or> x = u \<and> y = v" for x y
    using assms(2) u by (auto simp: nbr_def verts_def nth_list_update)
  ultimately show ?thesis using that [of "G\<lparr>Adj := ?A\<rparr>"] assms(2) by (simp add: push_adj_def)
qed

lemma add_edges_ok:
  assumes "graph_ok G" "\<forall>e \<in> set es. eu e \<in> verts (length (Adj G)) \<and> ev e \<in> verts (length (Adj G)) \<and> INT_MIN < ew e"
  shows "\<exists>G' t. add_edges es (G, tx) = Inr (G', t) \<and> graph_ok G' \<and> length (Adj G') = length (Adj G) \<and>
    (\<forall>u v. nbr G' u v \<longleftrightarrow> nbr G u v \<or> joined es u v)"
  using assms
proof (induction es arbitrary: G tx)
  case (Cons e es)
  have e: "eu e \<in> verts (length (Adj G))" "ev e \<in> verts (length (Adj G))" "INT_MIN < ew e" using Cons.prems(2) by auto
  obtain G1 where G1: "push_adj (eu e) (ev e, ew e) G = Inr G1" "graph_ok G1" "length (Adj G1) = length (Adj G)"
    "\<forall>x y. nbr G1 x y \<longleftrightarrow> nbr G x y \<or> x = eu e \<and> y = ev e" using push_adj_ok [OF Cons.prems(1) e(1,2,3)] .
  obtain G2 where G2: "push_adj (ev e) (eu e, ew e) G1 = Inr G2" "graph_ok G2" "length (Adj G2) = length (Adj G1)"
    "\<forall>x y. nbr G2 x y \<longleftrightarrow> nbr G1 x y \<or> x = ev e \<and> y = eu e" using push_adj_ok [OF G1(2), of "ev e" "eu e" "ew e"] e G1(3) by auto
  show ?case using Cons.IH [OF G2(2), of "tx @ string_of_int (eu e) @ '' -- '' @ string_of_int (ev e) @ endl"]
      Cons.prems(2) G1 G2 by (auto simp: addEdge_def joined_simps)
qed (simp add: joined_simps)

lemma graph_ctor_ok:
  assumes "0 \<le> V"
  obtains G where "graph_ctor V = Inr G" "graph_ok G" "length (Adj G) = nat V" "\<And>u v. \<not> nbr G u v"
  using assms that [of "\<lparr>gV = V, Adj = replicate (nat V) []\<rparr>"] by (auto simp: graph_ctor_def graph_ok_def nbr_def verts_def)

section \<open>Properties\<close>

text \<open>Following the parents from a vertex leads to vertex 0.\<close>

fun root_within :: "int list \<Rightarrow> nat \<Rightarrow> int \<Rightarrow> bool" where
  "root_within par 0 v \<longleftrightarrow> v = 0"
| "root_within par (Suc k) v \<longleftrightarrow> v = 0 \<or> 0 \<le> v \<and> nat v < length par \<and> root_within par k (par ! nat v)"

lemma rooted_within:
  assumes "rooted N M (\<lambda>v. par ! nat v) v" "M \<subseteq> verts (length par)"
  shows "\<exists>k. root_within par k v"
  using assms
proof (induction rule: rooted.induct)
  case root
  show ?case by (intro exI [of _ 0]) simp
next
  case (child p v)
  then obtain k where "root_within par k p" by blast
  then show ?case using child by (intro exI [of _ "Suc k"]) (auto simp: verts_def)
qed

definition spanning_tree :: "Edge list \<Rightarrow> nat \<Rightarrow> int list \<Rightarrow> bool" where
  "spanning_tree es n par \<longleftrightarrow> length par = n \<and> par ! 0 = -1 \<and>
     (\<forall>v \<in> {1..<n}. joined es (par ! v) (int v) \<and> (\<exists>k. root_within par k (int v)))"

text \<open>The weight of the edges from the vertices to their parents.\<close>

definition tree_weight :: "Edge list \<Rightarrow> int list \<Rightarrow> int" where
  "tree_weight es par = (\<Sum>v \<leftarrow> [1..<length par].
     case find (\<lambda>e. eu e = par ! v \<and> ev e = int v \<or> ev e = par ! v \<and> eu e = int v) es of Some e \<Rightarrow> ew e | None \<Rightarrow> 0)"

lemma prim_result:
  assumes "graph_ok G" "0 < length (Adj G)"
  shows "\<exists>par log. prim G = Inr (par, log) \<and> length par = length (Adj G) \<and> par ! 0 = -1 \<and>
    (\<forall>v \<in> verts (length (Adj G)). ((nbr G)\<^sup>*\<^sup>* 0 v \<longleftrightarrow> v = 0 \<or> par ! nat v \<noteq> -1) \<and>
      (par ! nat v \<noteq> -1 \<longrightarrow> nbr G (par ! nat v) v \<and> (\<exists>k. root_within par k v)))"
proof -
  let ?n = "length (Adj G)"
  let ?s = "\<lparr>pq = [(0, 0)], mst = replicate ?n False, pkey = replicate ?n INT_MIN, parent = replicate ?n (-1), pout = []\<rparr>"
  let ?W = "verts ?n"
  have V: "gV G = int ?n" using assms(1) by (simp add: graph_ok_def)
  have "nat v < ?n" if "v \<in> ?W" for v using that by (auto simp: verts_def)
  then have empty: "{v \<in> ?W. replicate ?n False ! nat v} = {}" "{v \<in> ?W. replicate ?n INT_MIN ! nat v \<noteq> INT_MIN} = {}"
    "\<forall>v \<in> ?W. replicate ?n (-1) ! nat v = (-1 :: int)" by auto
  have W0: "0 \<in> ?W" using assms(2) by (simp add: verts_def)
  have "prim_inv (nbr G) ?W {0} {} (\<lambda>v. replicate ?n (-1) ! nat v) {} {}" using empty(3) W0 by (simp add: prim_inv_def)
  then have "prim_ok G ?s {}" unfolding prim_ok_def Let_def prim_state.simps empty by simp
  then obtain s where s: "prim_loop G ?s = Inr s" "prim_ok G s {}" "pq s = []" using prim_loop_ok [OF assms(1)] by blast
  let ?M = "{v \<in> ?W. mst s ! nat v}" and ?P = "\<lambda>v. parent s ! nat v"
  have len: "length (parent s) = ?n" and I: "prim_inv (nbr G) ?W {} ?M ?P {v \<in> ?W. pkey s ! nat v \<noteq> INT_MIN} {}"
    using s(2,3) by (auto simp: prim_ok_def Let_def)
  note D = prim_invD [OF I] and fin = prim_inv_end [OF I]
  have "(\<exists>k. root_within (parent s) k v)" if "v \<in> ?M" for v using rooted_within [OF D(3) [OF that]] len D(1) by simp
  then have *: "((nbr G)\<^sup>*\<^sup>* 0 v \<longleftrightarrow> v = 0 \<or> ?P v \<noteq> -1) \<and> (?P v \<noteq> -1 \<longrightarrow> nbr G (?P v) v \<and> (\<exists>k. root_within (parent s) k v))" if "v \<in> ?W" for v
    using fin(1) [of v] fin(2) [OF that] D(4) [OF that] D(8) by blast
  have "prim G = Inr (parent s, pout s)"
    unfolding prim_def first_def graph_size_def V using assms(2) s(1) by (simp add: Let_def)
  moreover have "parent s ! 0 = -1" using fin(2) [OF W0] by simp
  ultimately show ?thesis using len * by blast
qed

text \<open>
  C9. For every list of edges between the vertices 0 to V - 1 with weights above \<^verbatim>\<open>INT_MIN\<close>, the graph is built and the
  search ends without undefined behaviour. The parents it returns are a tree rooted in vertex 0 along edges of the
  graph, and it holds exactly the vertices that can be reached from vertex 0; on a connected graph it is a spanning tree.
\<close>

theorem prim_spanning_tree:
  assumes "0 < V" "\<forall>e \<in> set es. 0 \<le> eu e \<and> eu e < V \<and> 0 \<le> ev e \<and> ev e < V \<and> INT_MIN < ew e"
  shows "\<exists>G t par log. bindE (graph_ctor V) (\<lambda>g. add_edges es (g, tx)) = Inr (G, t) \<and> prim G = Inr (par, log) \<and>
    length par = nat V \<and> par ! 0 = -1 \<and>
    (\<forall>v. 0 \<le> v \<and> v < V \<longrightarrow> ((joined es)\<^sup>*\<^sup>* 0 v \<longleftrightarrow> v = 0 \<or> par ! nat v \<noteq> -1) \<and>
      (par ! nat v \<noteq> -1 \<longrightarrow> joined es (par ! nat v) v \<and> (\<exists>k. root_within par k v))) \<and>
    ((\<forall>v. 0 \<le> v \<and> v < V \<longrightarrow> (joined es)\<^sup>*\<^sup>* 0 v) \<longrightarrow> spanning_tree es (nat V) par)"
proof -
  have W: "v \<in> verts (nat V) \<longleftrightarrow> 0 \<le> v \<and> v < V" for v using assms(1) by (auto simp: verts_def)
  obtain G0 where G0: "graph_ctor V = Inr G0" "graph_ok G0" "length (Adj G0) = nat V" "\<And>u v. \<not> nbr G0 u v"
    using graph_ctor_ok [of V] assms(1) by auto
  then obtain G t where G: "add_edges es (G0, tx) = Inr (G, t)" "graph_ok G" "length (Adj G) = nat V" "\<forall>u v. nbr G u v \<longleftrightarrow> joined es u v"
    using add_edges_ok [OF G0(2), of es tx] assms(2) W by auto
  have N: "nbr G = joined es" using G(4) by (simp add: fun_eq_iff)
  obtain par log where p: "prim G = Inr (par, log)" "length par = nat V" "par ! 0 = -1"
    "\<forall>v \<in> verts (nat V). ((joined es)\<^sup>*\<^sup>* 0 v \<longleftrightarrow> v = 0 \<or> par ! nat v \<noteq> -1) \<and>
      (par ! nat v \<noteq> -1 \<longrightarrow> joined es (par ! nat v) v \<and> (\<exists>k. root_within par k v))"
    using prim_result [OF G(2)] G(3) assms(1) unfolding N by auto
  have "joined es (par ! v) (int v) \<and> (\<exists>k. root_within par k (int v))"
    if "\<forall>v. 0 \<le> v \<and> v < V \<longrightarrow> (joined es)\<^sup>*\<^sup>* 0 v" "v \<in> {1..<nat V}" for v
    using p(4) [rule_format, of "int v"] that W [of "int v"] by auto
  then have "(\<forall>v. 0 \<le> v \<and> v < V \<longrightarrow> (joined es)\<^sup>*\<^sup>* 0 v) \<longrightarrow> spanning_tree es (nat V) par"
    using p(2,3) by (auto simp: spanning_tree_def)
  then show ?thesis using G0(1) G(1) p W by auto
qed

theorem prim_spanning_tree_witness:
  "\<exists>G t par log. bindE (graph_ctor 2) (\<lambda>g. add_edges [\<lparr>eu = 0, ev = 1, ew = 4\<rparr>] (g, [])) = Inr (G, t) \<and> prim G = Inr (par, log) \<and>
     par ! 0 = -1 \<and> par ! 1 = 0"
proof -
  let ?es = "[\<lparr>eu = 0, ev = 1, ew = 4\<rparr>]"
  have "joined ?es 0 1" by (simp add: joined_def)
  then have r: "(joined ?es)\<^sup>*\<^sup>* 0 1" by blast
  obtain G t par log where p: "bindE (graph_ctor 2) (\<lambda>g. add_edges ?es (g, [])) = Inr (G, t)" "prim G = Inr (par, log)" "par ! 0 = -1"
    "\<forall>v. 0 \<le> v \<and> v < 2 \<longrightarrow> ((joined ?es)\<^sup>*\<^sup>* 0 v \<longleftrightarrow> v = 0 \<or> par ! nat v \<noteq> -1) \<and>
      (par ! nat v \<noteq> -1 \<longrightarrow> joined ?es (par ! nat v) v \<and> (\<exists>k. root_within par k v))"
    using prim_spanning_tree [of 2 ?es "[]"] by (auto simp: INT_MIN_def)
  have "joined ?es (par ! 1) 1" using p(4) [rule_format, of 1] r by simp
  then have "par ! 1 = 0" by (simp add: joined_def)
  then show ?thesis using p by blast
qed

lemma spanning_treeI:
  assumes "length par = n" "par ! 0 = -1" "\<forall>v \<in> set [1..<n]. joined es (par ! v) (int v) \<and> root_within par n (int v)"
  shows "spanning_tree es n par"
  unfolding spanning_tree_def using assms by auto

lemma prim_Elist:
  "bindE (graph_ctor 9) (\<lambda>g. bindE (add_edges Elist (g, [])) (\<lambda>(g, t). bindE (prim g) (\<lambda>(par, log). Inr par))) =
     Inr [-1, 7, 3, 5, 5, 6, 8, 0, 7]"
  by code_simp

lemma Elist_trees:
  "spanning_tree Elist 9 [-1, 7, 3, 5, 5, 6, 8, 0, 7]" "spanning_tree Elist 9 [-1, 7, 1, 2, 5, 3, 8, 0, 7]"
  "spanning_tree Elist 9 [-1, 0, 5, 2, 3, 6, 7, 0, 2]"
  by (rule spanning_treeI; code_simp)+

lemma Elist_weights:
  "tree_weight Elist [-1, 7, 3, 5, 5, 6, 8, 0, 7] = 65" "tree_weight Elist [-1, 7, 1, 2, 5, 3, 8, 0, 7] = 71"
  "tree_weight Elist [-1, 0, 5, 2, 3, 6, 7, 0, 2] = 37"
  by code_simp+

text \<open>
  On the graph of the program itself the spanning tree is optimal in neither sense: there is a spanning tree of greater weight,
  which is what the comparison of the keys asks for, and one of smaller weight. The queue holds pairs of a vertex and a weight,
  in this order, so that its top is the largest vertex and not the best edge.
\<close>

theorem prim_not_optimal:
  "\<exists>G t par log heavy light. bindE (graph_ctor 9) (\<lambda>g. add_edges Elist (g, [])) = Inr (G, t) \<and> prim G = Inr (par, log) \<and>
     spanning_tree Elist 9 par \<and> spanning_tree Elist 9 heavy \<and> spanning_tree Elist 9 light \<and>
     tree_weight Elist light < tree_weight Elist par \<and> tree_weight Elist par < tree_weight Elist heavy"
proof -
  obtain G t log where "bindE (graph_ctor 9) (\<lambda>g. add_edges Elist (g, [])) = Inr (G, t)" "prim G = Inr ([-1, 7, 3, 5, 5, 6, 8, 0, 7], log)"
    using prim_Elist by (auto simp: bindE_eq_Inr_iff)
  moreover have "tree_weight Elist [-1, 0, 5, 2, 3, 6, 7, 0, 2] < tree_weight Elist [-1, 7, 3, 5, 5, 6, 8, 0, 7]"
    "tree_weight Elist [-1, 7, 3, 5, 5, 6, 8, 0, 7] < tree_weight Elist [-1, 7, 1, 2, 5, 3, 8, 0, 7]"
    unfolding Elist_weights by simp_all
  ultimately show ?thesis using Elist_trees by blast
qed

text \<open>The answer the program prints.\<close>

lemma prim_main_answer:
  "\<exists>log. prim_main = Inr (log @ concat (map (\<lambda>line. line @ endl)
     [''Answer:'', ''7 -- 1'', ''3 -- 2'', ''5 -- 3'', ''5 -- 4'', ''6 -- 5'', ''8 -- 6'', ''0 -- 7'', ''7 -- 8'']))"
proof -
  have *: "bindE prim_main (\<lambda>t. Inr (drop (length t - 64) t)) = Inr (concat (map (\<lambda>line. line @ endl)
      [''Answer:'', ''7 -- 1'', ''3 -- 2'', ''5 -- 3'', ''5 -- 4'', ''6 -- 5'', ''8 -- 6'', ''0 -- 7'', ''7 -- 8'']))" by code_simp
  obtain t where t: "prim_main = Inr t" "drop (length t - 64) t = concat (map (\<lambda>line. line @ endl)
      [''Answer:'', ''7 -- 1'', ''3 -- 2'', ''5 -- 3'', ''5 -- 4'', ''6 -- 5'', ''8 -- 6'', ''0 -- 7'', ''7 -- 8''])"
    using * unfolding bindE_eq_Inr_iff by blast
  show ?thesis using append_take_drop_id [of "length t - 64" t] t(1) unfolding t(2) by metis
qed

end
