(* ===== verification/Lingeo.thy ===== *)
theory Lingeo
  imports Input
begin

text \<open>
  \<^verbatim>\<open>02-lrefs/triangles\<close>: points, lines and polygons, and the program that prints the area two triangles share. The precision of
  floating-point operations, of the elementary functions, and the conversion of numbers from and to text are up to the
  implementation: the definitions take them as a record \<open>arith\<close>, with \<open>'f\<close> for \<^verbatim>\<open>float\<close> and \<open>'d\<close> for \<^verbatim>\<open>double\<close>,
  and the theorems hold for all of them.
  An expression that mixes the two types is written with its conversions.
\<close>

section \<open>Arithmetic\<close>

record ('f, 'd) arith =
  fadd :: "'f \<Rightarrow> 'f \<Rightarrow> 'f"
  fsub :: "'f \<Rightarrow> 'f \<Rightarrow> 'f"
  fmul :: "'f \<Rightarrow> 'f \<Rightarrow> 'f"
  fdiv :: "'f \<Rightarrow> 'f \<Rightarrow> 'f"
  fneg :: "'f \<Rightarrow> 'f"
  fabs :: "'f \<Rightarrow> 'f"
  fne :: "'f \<Rightarrow> 'f \<Rightarrow> bool"
  fatan :: "'f \<Rightarrow> 'f"
  fsin :: "'f \<Rightarrow> 'f"
  fnan :: 'f
  fzero :: 'f
  to_double :: "'f \<Rightarrow> 'd"
  to_float :: "'d \<Rightarrow> 'f"
  dlit :: "string \<Rightarrow> 'd"
  dadd :: "'d \<Rightarrow> 'd \<Rightarrow> 'd"
  dsub :: "'d \<Rightarrow> 'd \<Rightarrow> 'd"
  dmul :: "'d \<Rightarrow> 'd \<Rightarrow> 'd"
  ddiv :: "'d \<Rightarrow> 'd \<Rightarrow> 'd"
  dsqrt :: "'d \<Rightarrow> 'd"
  dless :: "'d \<Rightarrow> 'd \<Rightarrow> bool"
  dle :: "'d \<Rightarrow> 'd \<Rightarrow> bool"
  fshow :: "'f \<Rightarrow> string"
  fread :: "string \<Rightarrow> ('f \<times> string) option"

definition flt_tolerance :: "('f, 'd) arith \<Rightarrow> 'd" where
  "flt_tolerance A = dlit A ''0.00001''"

definition inter_area_width :: "('f, 'd) arith \<Rightarrow> 'd" where
  "inter_area_width A = dlit A ''100.0''"

datatype area_t = LEFT_SIDE | INTER_SIDE | RIGHT_SIDE

section \<open>Points\<close>

record 'f point_t =
  px :: 'f
  py :: 'f

definition nan_point :: "('f, 'd) arith \<Rightarrow> 'f point_t" where
  "nan_point A = \<lparr>px = fnan A, py = fnan A\<rparr>"

definition point_print :: "('f, 'd) arith \<Rightarrow> 'f point_t \<Rightarrow> string" where
  "point_print A p = ''('' @ fshow A (px p) @ '' ; '' @ fshow A (py p) @ '')''"

definition point_valid :: "('f, 'd) arith \<Rightarrow> 'f point_t \<Rightarrow> bool" where
  "point_valid A p \<longleftrightarrow> \<not> (fne A (px p) (px p) \<or> fne A (py p) (py p))"

definition point_equal :: "('f, 'd) arith \<Rightarrow> 'f point_t \<Rightarrow> 'f point_t \<Rightarrow> bool res" where
  "point_equal A p rhs =
     bindE (assertE (point_valid A p \<and> point_valid A rhs)) (\<lambda>_.
     Inr (dless A (to_double A (fabs A (fsub A (px p) (px rhs)))) (flt_tolerance A) \<and>
          dless A (to_double A (fabs A (fsub A (py p) (py rhs)))) (flt_tolerance A)))"

section \<open>Lines\<close>

record 'f line_t =
  la :: 'f
  lb :: 'f
  lc :: 'f

definition line_ctor :: "('f, 'd) arith \<Rightarrow> 'f point_t \<Rightarrow> 'f point_t \<Rightarrow> 'f line_t" where
  "line_ctor A p1 p2 =
     (let angle = fatan A (fdiv A (fsub A (py p2) (py p1)) (fsub A (px p2) (px p1)));
          sin_angle = fsin A angle;
          cos_angle = to_float A (dsqrt A (dsub A (dlit A ''1.0'') (to_double A (fmul A sin_angle sin_angle))));
          normal_vect = \<lparr>px = fneg A sin_angle, py = cos_angle\<rparr> in
      \<lparr>la = px normal_vect, lb = py normal_vect,
       lc = fneg A (fadd A (fmul A (px p1) (px normal_vect)) (fmul A (py p1) (py normal_vect)))\<rparr>)"

definition get_side_area :: "('f, 'd) arith \<Rightarrow> 'f line_t \<Rightarrow> 'f point_t \<Rightarrow> area_t" where
  "get_side_area A l p =
     (let side_offset = to_double A (fadd A (fadd A (fmul A (la l) (px p)) (fmul A (lb l) (py p))) (lc l));
          width = dmul A (flt_tolerance A) (inter_area_width A) in
      if dless A (dadd A (dlit A ''0.0'') width) side_offset then LEFT_SIDE
      else if dless A (dsub A (dlit A ''0.0'') width) side_offset then INTER_SIDE
      else RIGHT_SIDE)"

definition separates :: "('f, 'd) arith \<Rightarrow> 'f line_t \<Rightarrow> 'f point_t \<Rightarrow> 'f point_t \<Rightarrow> bool" where
  "separates A l pnt1 pnt2 =
     (let side1 = get_side_area A l pnt1; side2 = get_side_area A l pnt2 in
      if side1 = INTER_SIDE \<or> side2 = INTER_SIDE then False else \<not> side1 = side2)"

definition line_valid :: "('f, 'd) arith \<Rightarrow> 'f line_t \<Rightarrow> bool" where
  "line_valid A l \<longleftrightarrow> \<not> (fne A (la l) (la l) \<or> fne A (lb l) (lb l) \<or> fne A (lc l) (lc l))"

definition line_intersect :: "('f, 'd) arith \<Rightarrow> 'f line_t \<Rightarrow> 'f line_t \<Rightarrow> bool" where
  "line_intersect A l another =
     dle A (flt_tolerance A) (to_double A (fabs A (fsub A (fmul A (la l) (lb another)) (fmul A (la another) (lb l)))))"

definition point_of_intersect :: "('f, 'd) arith \<Rightarrow> 'f line_t \<Rightarrow> 'f line_t \<Rightarrow> 'f point_t" where
  "point_of_intersect A l another =
     (if \<not> line_intersect A l another then nan_point A
      else
        let det = fsub A (fmul A (la l) (lb another)) (fmul A (la another) (lb l));
            det1 = fsub A (fmul A (fneg A (lc l)) (lb another)) (fmul A (fneg A (lc another)) (lb l));
            det2 = fsub A (fmul A (la l) (fneg A (lc another))) (fmul A (la another) (fneg A (lc l))) in
        \<lparr>px = fdiv A det1 det, py = fdiv A det2 det\<rparr>)"

definition line_print :: "('f, 'd) arith \<Rightarrow> 'f line_t \<Rightarrow> string" where
  "line_print A l =
     (let signb = (if dless A (dlit A ''0.0'') (to_double A (lb l)) then ''+'' else '''');
          signc = (if dless A (dlit A ''0.0'') (to_double A (lc l)) then ''+'' else '''') in
      fshow A (la l) @ ''x '' @ signb @ fshow A (lb l) @ ''y '' @ signc @ fshow A (lc l) @ '' = 0'')"

section \<open>Polygons\<close>

type_synonym 'f polygon_t = "'f point_t list"

text \<open>\<^verbatim>\<open>square\<close>: the two sums, from vertex \<open>i\<close> on.\<close>

fun square_sums :: "('f, 'd) arith \<Rightarrow> 'f polygon_t \<Rightarrow> nat list \<Rightarrow> 'f \<times> 'f \<Rightarrow> 'f \<times> 'f" where
  "square_sums A vs [] S = S"
| "square_sums A vs (i # is) (sum1, sum2) =
     square_sums A vs is
       (fadd A sum1 (fmul A (px (vs ! i)) (py (vs ! ((i + 1) mod length vs)))),
        fsub A sum2 (fmul A (px (vs ! ((i + 1) mod length vs))) (py (vs ! i))))"

definition square :: "('f, 'd) arith \<Rightarrow> 'f polygon_t \<Rightarrow> 'f" where
  "square A vs =
     (if length vs < 3 then fzero A
      else
        let (sum1, sum2) = square_sums A vs [0..<length vs] (fzero A, fzero A);
            result = to_float A (ddiv A (to_double A (fadd A sum1 sum2)) (dlit A ''2.0'')) in
        if dless A (to_double A result) (dlit A ''0.0'') then fneg A result else result)"

definition polygon_print :: "('f, 'd) arith \<Rightarrow> 'f polygon_t \<Rightarrow> string" where
  "polygon_print A vs =
     ''Polygon has '' @ string_of_nat (length vs) @ '' vertices: '' @
     concat (map (\<lambda>i. (if i \<noteq> 0 then '', '' else '''') @ point_print A (vs ! i)) [0..<length vs]) @ endl"

text \<open>Conversions between \<^verbatim>\<open>int\<close> and \<^verbatim>\<open>size_t\<close>.\<close>

definition as_size :: "int \<Rightarrow> nat" where
  "as_size i = nat (i mod 2 ^ 64)"

definition as_int :: "nat \<Rightarrow> int" where
  "as_int n = (int n + 2 ^ 31) mod 2 ^ 32 - 2 ^ 31"

text \<open>The index of a side: \<^verbatim>\<open>index / vsz\<close> and the sum are computed in \<^verbatim>\<open>size_t\<close>.\<close>

definition side_index :: "nat \<Rightarrow> int \<Rightarrow> int" where
  "side_index vsz index =
     (if index < 0 then as_int ((as_size index + ((1 + as_size index div vsz) * vsz) mod 2 ^ 64) mod 2 ^ 64) else index)"

definition index_mod :: "int \<Rightarrow> nat \<Rightarrow> nat res" where
  "index_mod i vsz = (if i > 2 ^ 31 - 1 \<or> vsz = 0 then Inl Undefined_behaviour else Inr (as_size i mod vsz))"

definition get_side :: "('f, 'd) arith \<Rightarrow> 'f polygon_t \<Rightarrow> int \<Rightarrow> 'f line_t res" where
  "get_side A vs index =
     bindE (assertE (vs \<noteq> [])) (\<lambda>_.
     let vsz = length vs; index = side_index vsz index in
     bindE (index_mod index vsz) (\<lambda>i.
     bindE (index_mod (index + 1) vsz) (\<lambda>j.
     Inr (line_ctor A (vs ! i) (vs ! j)))))"

definition polygon_valid :: "('f, 'd) arith \<Rightarrow> 'f polygon_t \<Rightarrow> bool" where
  "polygon_valid A vs = (if length vs = 0 then False else list_all (point_valid A) vs)"

fun separable_loop :: "('f, 'd) arith \<Rightarrow> 'f polygon_t \<Rightarrow> 'f polygon_t \<Rightarrow> nat list \<Rightarrow> bool res" where
  "separable_loop A vs another [] = Inr False"
| "separable_loop A vs another (i # is) =
     bindE (get_side A vs (as_int i)) (\<lambda>div_line.
     let half_space = get_side_area A div_line (vs ! ((i + 2) mod length vs)) in
     if half_space = INTER_SIDE then separable_loop A vs another is
     else if \<not> list_ex (\<lambda>vertex. half_space = get_side_area A div_line vertex) another then Inr True
     else separable_loop A vs another is)"

definition separable_from :: "('f, 'd) arith \<Rightarrow> 'f polygon_t \<Rightarrow> 'f polygon_t \<Rightarrow> bool res" where
  "separable_from A vs another = separable_loop A vs another [0..<length vs]"

definition side_line_intersect :: "('f, 'd) arith \<Rightarrow> 'f polygon_t \<Rightarrow> int \<Rightarrow> 'f line_t \<Rightarrow> 'f point_t res" where
  "side_line_intersect A vs index line =
     (let vsz = length vs in
      if index < 0 \<and> vsz = 0 then Inl Undefined_behaviour
      else
        let index = side_index vsz index in
        bindE (index_mod index vsz) (\<lambda>i.
        bindE (index_mod (index + 1) vsz) (\<lambda>j.
        if \<not> separates A line (vs ! i) (vs ! j) then Inr (nan_point A)
        else bindE (get_side A vs index) (\<lambda>poly_side. Inr (point_of_intersect A line poly_side)))))"

fun holding :: "('f, 'd) arith \<Rightarrow> 'f polygon_t \<Rightarrow> 'f point_t \<Rightarrow> bool res" where
  "holding A [] vert = Inr False"
| "holding A (v # vs) vert = bindE (point_equal A vert v) (\<lambda>b. if b then Inr True else holding A vs vert)"

definition add :: "('f, 'd) arith \<Rightarrow> 'f polygon_t \<Rightarrow> 'f point_t \<Rightarrow> 'f polygon_t res" where
  "add A vs vert = bindE (holding A vs vert) (\<lambda>h. Inr (if \<not> h then vs @ [vert] else vs))"

fun cut_loop :: "('f, 'd) arith \<Rightarrow> 'f polygon_t \<Rightarrow> 'f line_t \<Rightarrow> area_t \<Rightarrow> nat list \<Rightarrow> 'f polygon_t \<Rightarrow> 'f polygon_t res" where
  "cut_loop A vs line side [] ret = Inr ret"
| "cut_loop A vs line side (i # is) ret =
     (let vert_side = get_side_area A line (vs ! i) in
      bindE (if side = vert_side \<or> vert_side = INTER_SIDE
             then bindE (holding A ret (vs ! i)) (\<lambda>h. if \<not> h then add A ret (vs ! i) else Inr ret)
             else Inr ret) (\<lambda>ret.
      bindE (side_line_intersect A vs (as_int i) line) (\<lambda>pintersect.
      bindE (if point_valid A pintersect then add A ret pintersect else Inr ret) (\<lambda>ret.
      cut_loop A vs line side is ret))))"

definition cut_poly_by_line :: "('f, 'd) arith \<Rightarrow> 'f polygon_t \<Rightarrow> 'f line_t \<Rightarrow> 'f point_t \<Rightarrow> 'f polygon_t res" where
  "cut_poly_by_line A vs line half_space_pt =
     (let side = get_side_area A line half_space_pt in
      bindE (assertE (side \<noteq> INTER_SIDE)) (\<lambda>_. cut_loop A vs line side [0..<length vs] []))"

definition polygon_intersect :: "('f, 'd) arith \<Rightarrow> 'f polygon_t \<Rightarrow> 'f polygon_t \<Rightarrow> bool res" where
  "polygon_intersect A vs another =
     bindE (separable_from A vs another) (\<lambda>b.
     if b then Inr False else bindE (separable_from A another vs) (\<lambda>b. Inr (\<not> b)))"

fun intersection_loop :: "('f, 'd) arith \<Rightarrow> 'f polygon_t \<Rightarrow> nat list \<Rightarrow> 'f polygon_t \<Rightarrow> 'f polygon_t res" where
  "intersection_loop A vs [] another = Inr another"
| "intersection_loop A vs (i # is) another =
     bindE (get_side A vs (as_int i)) (\<lambda>side.
     bindE (cut_poly_by_line A another side (vs ! ((i + 2) mod length vs))) (intersection_loop A vs is))"

definition get_poly_intersection :: "('f, 'd) arith \<Rightarrow> 'f polygon_t \<Rightarrow> 'f polygon_t \<Rightarrow> 'f polygon_t res" where
  "get_poly_intersection A vs rhs =
     bindE (polygon_intersect A vs rhs) (\<lambda>b. if \<not> b then Inr [] else intersection_loop A vs [0..<length vs] rhs)"

section \<open>The program\<close>

text \<open>
  Reading a number leaves the stream good unless none was there or the end of the input was reached.
\<close>

definition read_good :: "('f, 'd) arith \<Rightarrow> string \<Rightarrow> ('f \<times> string) res" where
  "read_good A inp =
     (case fread A inp of None \<Rightarrow> Inl Assertion_failed
      | Some (v, rest) \<Rightarrow> bindE (assertE (rest \<noteq> [])) (\<lambda>_. Inr (v, rest)))"

fun read_points :: "('f, 'd) arith \<Rightarrow> nat \<Rightarrow> string \<Rightarrow> ('f polygon_t \<times> string) res" where
  "read_points A 0 inp = Inr ([], inp)"
| "read_points A (Suc n) inp =
     bindE (read_good A inp) (\<lambda>(x, inp).
     bindE (read_good A inp) (\<lambda>(y, inp).
     bindE (read_points A n inp) (\<lambda>(ps, inp). Inr (\<lparr>px = x, py = y\<rparr> # ps, inp))))"

definition input_triangle :: "('f, 'd) arith \<Rightarrow> string \<Rightarrow> ('f polygon_t \<times> string) res" where
  "input_triangle A inp = read_points A 3 inp"

definition square_main :: "('f, 'd) arith \<Rightarrow> string \<Rightarrow> string res" where
  "square_main A inp =
     bindE (input_triangle A inp) (\<lambda>(triangle1, inp).
     bindE (input_triangle A inp) (\<lambda>(triangle2, inp).
     bindE (get_poly_intersection A triangle1 triangle2) (\<lambda>inter.
     Inr (fshow A (square A inter) @ endl))))"

end
