(* ===== verification/Lingeo_Props.thy ===== *)
theory Lingeo_Props
  imports Lingeo Complex_Main
begin

text \<open>
  Properties of the polygons for every floating-point arithmetic: the sides are addressed without undefined behaviour, the separation
  test is what its comment says, and cutting keeps the vertices valid and apart from each other.
\<close>

section \<open>Sides\<close>

definition small :: "nat \<Rightarrow> bool" where
  "small n \<longleftrightarrow> n < 2 ^ 31"

lemma as_int_small [simp]: "small n \<Longrightarrow> as_int n = int n"
  by (simp add: small_def as_int_def)

definition side :: "('f, 'd) arith \<Rightarrow> 'f polygon_t \<Rightarrow> nat \<Rightarrow> 'f line_t" where
  "side A vs i = line_ctor A (vs ! i) (vs ! ((i + 1) mod length vs))"

lemma index_mod_small:
  assumes "small n" "i \<le> n" "0 < n"
  shows "index_mod (int i) n = Inr (i mod n)"
  using assms by (simp add: index_mod_def small_def as_size_def)

lemma side_indices:
  assumes "small (length vs)" "i < length vs"
  shows "side_index (length vs) (as_int i) = int i" "index_mod (int i) (length vs) = Inr i"
    "index_mod (int i + 1) (length vs) = Inr ((i + 1) mod length vs)"
proof -
  have vs: "vs \<noteq> []" using assms(2) by auto
  have "small i" using assms by (simp add: small_def)
  then show "side_index (length vs) (as_int i) = int i" by (simp add: side_index_def)
  show "index_mod (int i) (length vs) = Inr i" using index_mod_small [of "length vs" i] assms vs by simp
  show "index_mod (int i + 1) (length vs) = Inr ((i + 1) mod length vs)"
    using index_mod_small [of "length vs" "i + 1"] assms vs by (simp add: add.commute)
qed

lemma get_side_ok:
  assumes "small (length vs)" "i < length vs"
  shows "get_side A vs (as_int i) = Inr (side A vs i)" "get_side A vs (int i) = Inr (side A vs i)"
proof -
  have vs: "vs \<noteq> []" "as_int i = int i" using assms by (auto simp: small_def as_int_def)
  show "get_side A vs (as_int i) = Inr (side A vs i)"
    using side_indices [OF assms] vs(1) by (simp add: get_side_def side_def)
  then show "get_side A vs (int i) = Inr (side A vs i)" by (simp add: vs(2))
qed

lemma side_line_intersect_ok:
  assumes "small (length vs)" "i < length vs"
  shows "side_line_intersect A vs (as_int i) line =
    Inr (if separates A line (vs ! i) (vs ! ((i + 1) mod length vs)) then point_of_intersect A line (side A vs i) else nan_point A)"
proof -
  have "vs \<noteq> []" using assms(2) by auto
  then show ?thesis using side_indices [OF assms] get_side_ok(2) [OF assms, of A] by (simp add: side_line_intersect_def Let_def)
qed

section \<open>Separation\<close>

text \<open>Side \<open>i\<close> has the third vertex on one side and all of \<open>ws\<close> elsewhere.\<close>

definition cuts_off :: "('f, 'd) arith \<Rightarrow> 'f polygon_t \<Rightarrow> 'f polygon_t \<Rightarrow> nat \<Rightarrow> bool" where
  "cuts_off A vs ws i \<longleftrightarrow>
     (let h = get_side_area A (side A vs i) (vs ! ((i + 2) mod length vs)) in
      h \<noteq> INTER_SIDE \<and> (\<forall>v \<in> set ws. get_side_area A (side A vs i) v \<noteq> h))"

lemma separable_loop_ok:
  assumes "small (length vs)" "\<forall>i \<in> set is. i < length vs"
  shows "separable_loop A vs ws is = Inr (\<exists>i \<in> set is. cuts_off A vs ws i)"
  using assms(2)
proof (induction "is")
  case (Cons i "is")
  then have "get_side A vs (as_int i) = Inr (side A vs i)" using get_side_ok(1) [OF assms(1), of i A] by simp
  then show ?case using Cons by (auto simp: Let_def cuts_off_def list_ex_iff)
qed simp

lemma separable_from_ok:
  "small (length vs) \<Longrightarrow> separable_from A vs ws = Inr (\<exists>i < length vs. cuts_off A vs ws i)"
  using separable_loop_ok [of vs "[0..<length vs]" A ws] by (auto simp: separable_from_def)

lemma polygon_intersect_ok:
  assumes "small (length vs)" "small (length ws)"
  shows "polygon_intersect A vs ws = Inr (\<not> ((\<exists>i < length vs. cuts_off A vs ws i) \<or> (\<exists>i < length ws. cuts_off A ws vs i)))"
  using separable_from_ok [OF assms(1), of A ws] separable_from_ok [OF assms(2), of A vs] by (simp add: polygon_intersect_def)

section \<open>Cutting\<close>

definition close :: "('f, 'd) arith \<Rightarrow> 'f point_t \<Rightarrow> 'f point_t \<Rightarrow> bool" where
  "close A p q \<longleftrightarrow> dless A (to_double A (fabs A (fsub A (px p) (px q)))) (flt_tolerance A) \<and>
     dless A (to_double A (fabs A (fsub A (py p) (py q)))) (flt_tolerance A)"

lemma holding_ok:
  "point_valid A v \<Longrightarrow> list_all (point_valid A) vs \<Longrightarrow> holding A vs v = Inr (\<exists>u \<in> set vs. close A v u)"
  by (induction vs) (auto simp: point_equal_def close_def)

text \<open>The vertices are valid, and each is apart from those before it.\<close>

definition apart :: "('f, 'd) arith \<Rightarrow> 'f polygon_t \<Rightarrow> bool" where
  "apart A vs \<longleftrightarrow> list_all (point_valid A) vs \<and> sorted_wrt (\<lambda>u v. \<not> close A v u) vs"

lemma add_ok:
  assumes "point_valid A v" "apart A vs"
  obtains ws where "add A vs v = Inr ws" "apart A ws" "set vs \<subseteq> set ws" "set ws \<subseteq> insert v (set vs)" "length ws \<le> Suc (length vs)"
    "v \<in> set ws \<or> (\<exists>u \<in> set ws. close A v u)"
proof -
  let ?ws = "if \<exists>u \<in> set vs. close A v u then vs else vs @ [v]"
  have "add A vs v = Inr ?ws" using assms holding_ok [of A v vs] by (simp add: add_def apart_def)
  moreover have "apart A ?ws" using assms by (auto simp: apart_def sorted_wrt_append)
  ultimately show ?thesis using that [of ?ws] by (auto split: if_splits)
qed

definition covered :: "('f, 'd) arith \<Rightarrow> 'f polygon_t \<Rightarrow> 'f point_t \<Rightarrow> bool" where
  "covered A vs q \<longleftrightarrow> q \<in> set vs \<or> (\<exists>u \<in> set vs. close A q u)"

lemma covered_mono: "covered A vs q \<Longrightarrow> set vs \<subseteq> set ws \<Longrightarrow> covered A ws q"
  by (auto simp: covered_def)

definition kept :: "('f, 'd) arith \<Rightarrow> 'f line_t \<Rightarrow> area_t \<Rightarrow> 'f point_t \<Rightarrow> bool" where
  "kept A line s p \<longleftrightarrow> get_side_area A line p = s \<or> get_side_area A line p = INTER_SIDE"

definition crossing :: "('f, 'd) arith \<Rightarrow> 'f polygon_t \<Rightarrow> 'f line_t \<Rightarrow> 'f point_t \<Rightarrow> bool" where
  "crossing A vs line p \<longleftrightarrow> (\<exists>i < length vs. p = point_of_intersect A line (side A vs i) \<and>
     separates A line (vs ! i) (vs ! ((i + 1) mod length vs)))"

text \<open>
  What cutting \<open>vs\<close> gives, when the side \<open>s\<close> of the line is kept: the vertices come from the polygon or are crossings, and those that are kept and
  all crossings that are points at all are there, or another vertex within the tolerance is.
\<close>

definition cut_result :: "('f, 'd) arith \<Rightarrow> 'f polygon_t \<Rightarrow> 'f line_t \<Rightarrow> area_t \<Rightarrow> 'f polygon_t \<Rightarrow> bool" where
  "cut_result A vs line s ws \<longleftrightarrow> apart A ws \<and> length ws \<le> 2 * length vs \<and>
     (\<forall>q \<in> set ws. q \<in> set vs \<and> kept A line s q \<or> crossing A vs line q) \<and>
     (\<forall>q. (q \<in> set vs \<and> kept A line s q) \<or> (crossing A vs line q \<and> point_valid A q) \<longrightarrow> covered A ws q)"

text \<open>One vertex of the loop.\<close>

lemma cut_vertex:
  assumes "apart A ret" "point_valid A v"
  obtains ret' where "(if s = get_side_area A line v \<or> get_side_area A line v = INTER_SIDE
      then bindE (holding A ret v) (\<lambda>h. if \<not> h then add A ret v else Inr ret) else Inr ret) = Inr ret'"
    "apart A ret'" "set ret \<subseteq> set ret'" "\<forall>p \<in> set ret' - set ret. p = v \<and> kept A line s v" "length ret' \<le> Suc (length ret)"
    "kept A line s v \<longrightarrow> covered A ret' v"
proof (cases "kept A line s v \<and> \<not> (\<exists>u \<in> set ret. close A v u)")
  case True
  obtain ws where ws: "add A ret v = Inr ws" "apart A ws" "set ret \<subseteq> set ws" "set ws \<subseteq> insert v (set ret)" "length ws \<le> Suc (length ret)"
    "v \<in> set ws \<or> (\<exists>u \<in> set ws. close A v u)" using add_ok [OF assms(2,1)] .
  have h: "holding A ret v = Inr False" using True assms holding_ok [of A v ret] by (simp add: apart_def)
  show ?thesis by (rule that [of ws]) (use True ws h in \<open>auto simp: kept_def covered_def\<close>)
next
  case False
  have h: "holding A ret v = Inr (\<exists>u \<in> set ret. close A v u)" using assms holding_ok [of A v ret] by (simp add: apart_def)
  show ?thesis by (rule that [of ret]) (use False h assms in \<open>auto simp: kept_def covered_def\<close>)
qed

lemma cut_crossing:
  assumes "small (length vs)" "i < length vs" "apart A ret" "\<not> point_valid A (nan_point A)"
  obtains p ret' where "side_line_intersect A vs (as_int i) line = Inr p"
    "(if point_valid A p then add A ret p else Inr ret) = Inr ret'"
    "apart A ret'" "set ret \<subseteq> set ret'" "\<forall>p \<in> set ret' - set ret. crossing A vs line p" "length ret' \<le> Suc (length ret)"
    "separates A line (vs ! i) (vs ! ((i + 1) mod length vs)) \<and> point_valid A (point_of_intersect A line (side A vs i)) \<longrightarrow>
      covered A ret' (point_of_intersect A line (side A vs i))"
proof -
  let ?p = "if separates A line (vs ! i) (vs ! ((i + 1) mod length vs)) then point_of_intersect A line (side A vs i) else nan_point A"
  note p = side_line_intersect_ok [OF assms(1,2), of A line]
  show ?thesis
  proof (cases "point_valid A ?p")
    case True
    obtain ws where ws: "add A ret ?p = Inr ws" "apart A ws" "set ret \<subseteq> set ws" "set ws \<subseteq> insert ?p (set ret)" "length ws \<le> Suc (length ret)" "?p \<in> set ws \<or> (\<exists>u \<in> set ws. close A ?p u)"
      using add_ok [OF True assms(3)] .
    from ws(6) have cov: "covered A ws ?p" by (simp only: covered_def)
    have "crossing A vs line ?p" using True assms(2,4) by (auto simp: crossing_def split: if_splits)
    then have "\<forall>p \<in> set ws - set ret. crossing A vs line p" using ws(4) by auto
    moreover have "separates A line (vs ! i) (vs ! ((i + 1) mod length vs)) \<and> point_valid A (point_of_intersect A line (side A vs i)) \<longrightarrow>
        covered A ws (point_of_intersect A line (side A vs i))" using cov by (simp split: if_splits)
    moreover have "(if point_valid A ?p then add A ret ?p else Inr ret) = Inr ws" by (simp only: True if_True ws(1))
    ultimately show ?thesis by (intro that [OF p _ ws(2,3) _ ws(5)])
  next
    case False
    then have "separates A line (vs ! i) (vs ! ((i + 1) mod length vs)) \<and> point_valid A (point_of_intersect A line (side A vs i)) \<longrightarrow>
        covered A ret (point_of_intersect A line (side A vs i))"
      by (cases "separates A line (vs ! i) (vs ! ((i + 1) mod length vs))") simp_all
    then show ?thesis by (intro that [OF p _ assms(3)]) (use False in simp_all)
  qed
qed

lemma cut_loop_ok:
  assumes "small (length vs)" "list_all (point_valid A) vs" "\<not> point_valid A (nan_point A)" "\<forall>i \<in> set is. i < length vs" "apart A ret"
  shows "\<exists>ret'. cut_loop A vs line s is ret = Inr ret' \<and> apart A ret' \<and> set ret \<subseteq> set ret' \<and>
    (\<forall>p \<in> set ret' - set ret. p \<in> set vs \<and> kept A line s p \<or> crossing A vs line p) \<and> length ret' \<le> length ret + 2 * length is \<and>
    (\<forall>i \<in> set is. (kept A line s (vs ! i) \<longrightarrow> covered A ret' (vs ! i)) \<and>
      (separates A line (vs ! i) (vs ! ((i + 1) mod length vs)) \<and> point_valid A (point_of_intersect A line (side A vs i)) \<longrightarrow>
        covered A ret' (point_of_intersect A line (side A vs i))))"
  using assms(4,5)
proof (induction "is" arbitrary: ret)
  case (Cons i "is")
  have i: "i < length vs" "point_valid A (vs ! i)" "vs ! i \<in> set vs" using Cons.prems(1) assms(2) by (auto simp: list_all_length)
  obtain r1 where r1: "(if s = get_side_area A line (vs ! i) \<or> get_side_area A line (vs ! i) = INTER_SIDE
      then bindE (holding A ret (vs ! i)) (\<lambda>h. if \<not> h then add A ret (vs ! i) else Inr ret) else Inr ret) = Inr r1"
    "apart A r1" "set ret \<subseteq> set r1" "\<forall>p \<in> set r1 - set ret. p = vs ! i \<and> kept A line s (vs ! i)" "length r1 \<le> Suc (length ret)"
    "kept A line s (vs ! i) \<longrightarrow> covered A r1 (vs ! i)" using cut_vertex [OF Cons.prems(2) i(2)] .
  obtain p r2 where r2: "side_line_intersect A vs (as_int i) line = Inr p" "(if point_valid A p then add A r1 p else Inr r1) = Inr r2"
    "apart A r2" "set r1 \<subseteq> set r2" "\<forall>p \<in> set r2 - set r1. crossing A vs line p" "length r2 \<le> Suc (length r1)"
    "separates A line (vs ! i) (vs ! ((i + 1) mod length vs)) \<and> point_valid A (point_of_intersect A line (side A vs i)) \<longrightarrow>
      covered A r2 (point_of_intersect A line (side A vs i))"
    using cut_crossing [OF assms(1) i(1) r1(2) assms(3)] .
  obtain ret' where r: "cut_loop A vs line s is r2 = Inr ret'" "apart A ret'" "set r2 \<subseteq> set ret'"
    "\<forall>p \<in> set ret' - set r2. p \<in> set vs \<and> kept A line s p \<or> crossing A vs line p" "length ret' \<le> length r2 + 2 * length is"
    "\<forall>i \<in> set is. (kept A line s (vs ! i) \<longrightarrow> covered A ret' (vs ! i)) \<and>
      (separates A line (vs ! i) (vs ! ((i + 1) mod length vs)) \<and> point_valid A (point_of_intersect A line (side A vs i)) \<longrightarrow>
        covered A ret' (point_of_intersect A line (side A vs i)))"
    using Cons.IH [OF _ r2(3)] Cons.prems(1) by auto
  have "cut_loop A vs line s (i # is) ret = Inr ret'" by (simp only: cut_loop.simps Let_def r1(1) r2(1,2) bindE_Inr r(1))
  moreover have "length ret' \<le> length ret + 2 * length (i # is)" using r(5) r1(5) r2(6) by simp
  moreover have "\<forall>p \<in> set ret' - set ret. p \<in> set vs \<and> kept A line s p \<or> crossing A vs line p"
  proof
    fix q assume "q \<in> set ret' - set ret"
    then consider "q \<in> set ret' - set r2" | "q \<in> set r2 - set r1" | "q \<in> set r1 - set ret" by blast
    then show "q \<in> set vs \<and> kept A line s q \<or> crossing A vs line q" using r(4) r1(4) r2(5) i(3) by cases metis+
  qed
  moreover have "\<forall>j \<in> set (i # is). (kept A line s (vs ! j) \<longrightarrow> covered A ret' (vs ! j)) \<and>
      (separates A line (vs ! j) (vs ! ((j + 1) mod length vs)) \<and> point_valid A (point_of_intersect A line (side A vs j)) \<longrightarrow>
        covered A ret' (point_of_intersect A line (side A vs j)))"
    using r(6) covered_mono [OF _ subset_trans [OF r2(4) r(3)]] r1(6) covered_mono [OF _ r(3)] r2(7) by auto
  ultimately show ?case using r(2,3) r1(3) r2(4) by blast
qed simp

lemma cut_poly_ok:
  assumes "fne A (fnan A) (fnan A)" "list_all (point_valid A) vs" "length vs < 2 ^ 31"
  shows "if get_side_area A line p = INTER_SIDE then cut_poly_by_line A vs line p = Inl Assertion_failed
    else \<exists>ws. cut_poly_by_line A vs line p = Inr ws \<and> cut_result A vs line (get_side_area A line p) ws"
proof -
  let ?s = "get_side_area A line p"
  have "\<not> point_valid A (nan_point A)" using assms(1) by (simp add: point_valid_def nan_point_def)
  then obtain ws where ws: "cut_loop A vs line ?s [0..<length vs] [] = Inr ws" "apart A ws" "length ws \<le> 2 * length vs"
    "\<forall>q \<in> set ws. q \<in> set vs \<and> kept A line ?s q \<or> crossing A vs line q"
    and cov: "\<forall>i < length vs. (kept A line ?s (vs ! i) \<longrightarrow> covered A ws (vs ! i)) \<and>
      (separates A line (vs ! i) (vs ! ((i + 1) mod length vs)) \<and> point_valid A (point_of_intersect A line (side A vs i)) \<longrightarrow>
        covered A ws (point_of_intersect A line (side A vs i)))"
    using cut_loop_ok [of vs A "[0..<length vs]" "[]" line ?s] assms(2,3) by (auto simp: small_def apart_def)
  have "covered A ws q" if "q \<in> set vs \<and> kept A line ?s q \<or> crossing A vs line q \<and> point_valid A q" for q
    using that cov by (auto simp: crossing_def in_set_conv_nth)
  then show ?thesis using ws by (simp add: cut_poly_by_line_def cut_result_def Let_def)
qed

text \<open>Without a condition on the vertices, only an assertion can fail.\<close>

lemma holding_safe: "holding A vs v = Inl Assertion_failed \<or> (\<exists>b. holding A vs v = Inr b)"
  by (induction vs) (auto simp: point_equal_def assertE_def)

lemma add_safe: "add A vs v = Inl Assertion_failed \<or> (\<exists>ws. add A vs v = Inr ws \<and> length ws \<le> Suc (length vs))"
  using holding_safe [of A vs v] by (auto simp: add_def)

lemma cut_loop_safe:
  assumes "small (length vs)" "\<forall>i \<in> set is. i < length vs"
  shows "cut_loop A vs line s is ret = Inl Assertion_failed \<or> (\<exists>ws. cut_loop A vs line s is ret = Inr ws \<and> length ws \<le> length ret + 2 * length is)"
  using assms(2)
proof (induction "is" arbitrary: ret)
  case (Cons i "is")
  let ?m1 = "if s = get_side_area A line (vs ! i) \<or> get_side_area A line (vs ! i) = INTER_SIDE
      then bindE (holding A ret (vs ! i)) (\<lambda>h. if \<not> h then add A ret (vs ! i) else Inr ret) else Inr ret"
  let ?p = "if separates A line (vs ! i) (vs ! ((i + 1) mod length vs)) then point_of_intersect A line (side A vs i) else nan_point A"
  have p: "side_line_intersect A vs (as_int i) line = Inr ?p" using side_line_intersect_ok [OF assms(1), of i A line] Cons.prems by simp
  have 1: "?m1 = Inl Assertion_failed \<or> (\<exists>r. ?m1 = Inr r \<and> length r \<le> Suc (length ret))"
  proof -
    consider "holding A ret (vs ! i) = Inl Assertion_failed" | "holding A ret (vs ! i) = Inr True" | "holding A ret (vs ! i) = Inr False"
      using holding_safe [of A ret "vs ! i"] by (metis (full_types))
    then show ?thesis using add_safe [of A ret "vs ! i"] by cases auto
  qed
  have 2: "(if point_valid A ?p then add A r ?p else Inr r) = Inl Assertion_failed \<or>
      (\<exists>r'. (if point_valid A ?p then add A r ?p else Inr r) = Inr r' \<and> length r' \<le> Suc (length r))" for r
    using add_safe [of A r ?p] by auto
  show ?case
  proof (cases ?m1)
    case (Inl e)
    then show ?thesis using 1 by (simp only: cut_loop.simps Let_def) simp
  next
    case (Inr r1)
    then have r1: "length r1 \<le> Suc (length ret)" using 1 by auto
    show ?thesis
    proof (cases "if point_valid A ?p then add A r1 ?p else Inr r1")
      case (Inl e)
      then have "e = Assertion_failed" using 2 [of r1] by auto
      then have "cut_loop A vs line s (i # is) ret = Inl Assertion_failed"
        unfolding cut_loop.simps Let_def Inr p bindE_Inr Inl by simp
      then show ?thesis ..
    next
      case r2: (Inr r2)
      then have "length r2 \<le> Suc (length r1)" using 2 [of r1] by auto
      moreover have "cut_loop A vs line s (i # is) ret = cut_loop A vs line s is r2"
        unfolding cut_loop.simps Let_def Inr p bindE_Inr r2 by simp
      ultimately show ?thesis using Cons.IH [of r2] Cons.prems r1 by auto
    qed
  qed
qed simp

lemma cut_poly_safe:
  assumes "small (length vs)"
  shows "cut_poly_by_line A vs line p = Inl Assertion_failed \<or> (\<exists>ws. cut_poly_by_line A vs line p = Inr ws \<and> length ws \<le> 2 * length vs)"
  using cut_loop_safe [OF assms, of "[0..<length vs]" A line "get_side_area A line p" "[]"]
  by (auto simp: cut_poly_by_line_def assertE_def Let_def)

lemma intersection_loop_safe:
  assumes "small (length vs)" "\<forall>i \<in> set is. i < length vs" "small (2 ^ length is * length ws)"
  shows "intersection_loop A vs is ws = Inl Assertion_failed \<or> (\<exists>r. intersection_loop A vs is ws = Inr r)"
  using assms(2,3)
proof (induction "is" arbitrary: ws)
  case (Cons i "is")
  have side: "get_side A vs (as_int i) = Inr (side A vs i)" using get_side_ok(1) [OF assms(1), of i A] Cons.prems(1) by simp
  have "length ws \<le> 2 ^ length (i # is) * length ws" by simp
  then have "small (length ws)" using Cons.prems(2) unfolding small_def by (rule le_less_trans)
  note cut = cut_poly_safe [OF this, of A "side A vs i" "vs ! ((i + 2) mod length vs)"]
  have "small (2 ^ length is * length r)" if "length r \<le> 2 * length ws" for r :: "'a polygon_t"
  proof -
    have "2 ^ length is * length r \<le> 2 ^ length (i # is) * length ws" using that by simp
    then show ?thesis using Cons.prems(2) unfolding small_def by (rule le_less_trans)
  qed
  then show ?case using cut side Cons.IH Cons.prems(1) by fastforce
qed simp

lemma get_poly_intersection_safe:
  assumes "small (length vs)" "small (2 ^ length vs * length ws)"
  shows "get_poly_intersection A vs ws = Inl Assertion_failed \<or> (\<exists>r. get_poly_intersection A vs ws = Inr r)"
proof -
  have "length ws \<le> 2 ^ length vs * length ws" by simp
  then have "small (length ws)" using assms(2) unfolding small_def by (rule le_less_trans)
  then show ?thesis using polygon_intersect_ok [OF assms(1), of ws A] intersection_loop_safe [OF assms(1), of "[0..<length vs]" ws A] assms(2)
    by (auto simp: get_poly_intersection_def)
qed

lemma read_good_safe: "read_good A inp = Inl Assertion_failed \<or> (\<exists>v rest. read_good A inp = Inr (v, rest))"
  by (auto simp: read_good_def assertE_def split: option.split)

lemma read_points_safe: "read_points A n inp = Inl Assertion_failed \<or> (\<exists>ps rest. read_points A n inp = Inr (ps, rest) \<and> length ps = n)"
proof (induction n arbitrary: inp)
  case (Suc n)
  show ?case
  proof (cases "\<exists>x r y r'. read_good A inp = Inr (x, r) \<and> read_good A r = Inr (y, r')")
    case True
    then obtain x r y r' where r: "read_good A inp = Inr (x, r)" "read_good A r = Inr (y, r')" by blast
    show ?thesis using Suc [of r'] r by auto
  next
    case False
    then consider "read_good A inp = Inl Assertion_failed" | x r where "read_good A inp = Inr (x, r)" "read_good A r = Inl Assertion_failed"
      using read_good_safe by metis
    then show ?thesis by cases auto
  qed
qed simp

section \<open>Properties\<close>

text \<open>
  The program that prints the area shared by two triangles never has undefined behaviour, whatever the input and the
  floating-point arithmetic: it prints the area of a polygon, or an assertion fails.
\<close>

theorem square_main_safe:
  "square_main A inp = Inl Assertion_failed \<or> (\<exists>inter. square_main A inp = Inr (fshow A (square A inter) @ endl))"
proof -
  have tri: "input_triangle A s = Inl Assertion_failed \<or> (\<exists>ps rest. input_triangle A s = Inr (ps, rest) \<and> length ps = 3)" for s
    using read_points_safe [of A 3 s] by (simp only: input_triangle_def)
  have inter: "get_poly_intersection A t u = Inl Assertion_failed \<or> (\<exists>r. get_poly_intersection A t u = Inr r)"
    if "length t = 3" "length u = 3" for t u
    using that by (intro get_poly_intersection_safe) (simp_all add: small_def)
  from tri [of inp] show ?thesis
  proof (elim disjE exE conjE)
    fix t rest assume t: "input_triangle A inp = Inr (t, rest)" "length t = 3"
    from tri [of rest] show ?thesis
    proof (elim disjE exE conjE)
      fix u rest' assume "input_triangle A rest = Inr (u, rest')" "length u = 3"
      then show ?thesis using inter [OF t(2), of u] t(1) by (auto simp: square_main_def)
    qed (simp add: square_main_def t(1))
  qed (simp add: square_main_def)
qed

text \<open>
  C11. Cutting a polygon of valid vertices by a line, when the point that chooses the half plane is not on the line: the result
  has valid vertices no two of which are within the tolerance; every vertex of the polygon in the half plane or on the line, and every
  intersection of the line with a side it separates, unless it is not a number, is a vertex of the result or within the tolerance
  of one; and the result has no other vertices. A point on the line fails the assertion.
\<close>

theorem cut_polygon_contract:
  assumes "fne A (fnan A) (fnan A)" "list_all (point_valid A) vs" "length vs < 2 ^ 31"
  shows "if get_side_area A line p = INTER_SIDE then cut_poly_by_line A vs line p = Inl Assertion_failed
    else \<exists>ws. cut_poly_by_line A vs line p = Inr ws \<and> apart A ws \<and> length ws \<le> 2 * length vs \<and>
      (\<forall>q \<in> set ws. q \<in> set vs \<and> kept A line (get_side_area A line p) q \<or> crossing A vs line q) \<and>
      (\<forall>q \<in> set vs. kept A line (get_side_area A line p) q \<longrightarrow> q \<in> set ws \<or> (\<exists>u \<in> set ws. close A q u)) \<and>
      (\<forall>q. crossing A vs line q \<and> point_valid A q \<longrightarrow> q \<in> set ws \<or> (\<exists>u \<in> set ws. close A q u))"
proof (cases "get_side_area A line p = INTER_SIDE")
  case False
  then obtain ws where "cut_poly_by_line A vs line p = Inr ws" "cut_result A vs line (get_side_area A line p) ws"
    using cut_poly_ok [OF assms, of line p] by auto
  then show ?thesis using False by (auto simp: cut_result_def covered_def)
qed (use cut_poly_ok [OF assms, of line p] in simp)

text \<open>
  A concrete arithmetic with a NaN: \<open>None\<close>. Its unit is the tolerance; a quotient by zero is huge, and the sine is rounded to a whole number, so that
  lines along the axes are exact.
\<close>

definition lift2 :: "(int \<Rightarrow> int \<Rightarrow> int) \<Rightarrow> int option \<Rightarrow> int option \<Rightarrow> int option" where
  "lift2 f x y = (case (x, y) of (Some a, Some b) \<Rightarrow> Some (f a b) | _ \<Rightarrow> None)"

definition compare2 :: "(int \<Rightarrow> int \<Rightarrow> bool) \<Rightarrow> int option \<Rightarrow> int option \<Rightarrow> bool" where
  "compare2 f x y = (case (x, y) of (Some a, Some b) \<Rightarrow> f a b | _ \<Rightarrow> False)"

definition sample_arith :: "(int option, int option) arith" where
  "sample_arith = \<lparr>fadd = lift2 (+), fsub = lift2 (-), fmul = lift2 (*), fdiv = lift2 (\<lambda>a b. if b = 0 then 1000000 * sgn a else a div b),
     fneg = map_option uminus, fabs = map_option abs,
     fne = (\<lambda>x y. \<not> compare2 (=) x y), fatan = (\<lambda>x. x), fsin = map_option (\<lambda>a. if a > 1000 then 1 else if a < - 1000 then - 1 else 0), fnan = None, fzero = Some 0, to_double = (\<lambda>x. x), to_float = (\<lambda>x. x),
     dlit = (\<lambda>s. Some (if s = ''0.0'' then 0 else if s = ''100.0'' then 100 else if s = ''2.0'' then 2 else 1)),
     dadd = lift2 (+), dsub = lift2 (-), dmul = lift2 (*), ddiv = lift2 (div), dsqrt = (\<lambda>x. x), dless = compare2 (<), dle = compare2 (\<le>),
     fshow = (\<lambda>x. case x of None \<Rightarrow> ''nan'' | Some i \<Rightarrow> string_of_int i), fread = (\<lambda>s. map_option (\<lambda>(i, r). (Some i, r)) (scan_int s))\<rparr>"

definition sample_point :: "int \<Rightarrow> int \<Rightarrow> int option point_t" where
  "sample_point x y = \<lparr>px = Some x, py = Some y\<rparr>"

text \<open>The line \<open>x = 300\<close> cuts a segment of the axis, and the crossing is there.\<close>

theorem cut_polygon_contract_witness:
  "\<exists>ws. cut_poly_by_line sample_arith [sample_point 0 0, sample_point 500 0] \<lparr>la = Some 1, lb = Some 0, lc = Some (- 300)\<rparr> (sample_point 900 0) = Inr ws \<and>
     apart sample_arith ws \<and> (sample_point 300 0 \<in> set ws \<or> (\<exists>u \<in> set ws. close sample_arith (sample_point 300 0) u))"
proof -
  let ?vs = "[sample_point 0 0, sample_point 500 0]" and ?l = "\<lparr>la = Some 1, lb = Some 0, lc = Some (- 300)\<rparr> :: int option line_t"
  have "fne sample_arith (fnan sample_arith) (fnan sample_arith)" "list_all (point_valid sample_arith) ?vs" "length ?vs < 2 ^ 31"
    by (simp_all add: sample_arith_def sample_point_def point_valid_def compare2_def)
  note cut = cut_polygon_contract [OF this, of ?l "sample_point 900 0"]
  have area: "get_side_area sample_arith ?l (sample_point 900 0) = LEFT_SIDE" by code_simp
  have "separates sample_arith ?l (sample_point 0 0) (sample_point 500 0)"
    "point_of_intersect sample_arith ?l (line_ctor sample_arith (sample_point 0 0) (sample_point 500 0)) = sample_point 300 0" by code_simp+
  then have "crossing sample_arith ?vs ?l (sample_point 300 0)"
    unfolding crossing_def side_def by (intro exI [of _ 0]) simp
  moreover have "point_valid sample_arith (sample_point 300 0)" by code_simp
  ultimately show ?thesis using cut by (auto simp: area)
qed






text \<open>
  \<^verbatim>\<open>get_side\<close> is right for indices from 0 on, which are taken modulo the number of vertices, and an empty polygon fails its assertion.
  The code for a negative index divides in the unsigned type: side -1 of a triangle is the side after
  vertex 1 instead of the one after vertex 2. With four vertices the result is right.
\<close>

theorem get_side_indices:
  assumes "vs \<noteq> []" "0 \<le> k" "k < 2 ^ 31 - 1"
  shows "get_side A vs k = Inr (line_ctor A (vs ! (nat k mod length vs)) (vs ! ((nat k + 1) mod length vs))) \<and>
    get_side A [] k = Inl Assertion_failed \<and>
    get_side A [u, v, w] (-1) = Inr (line_ctor A v w) \<and> get_side A [t, u, v, w] (-1) = Inr (line_ctor A w t)"
proof (intro conjI)
  have "nat (k + 1) = nat k + 1" using assms(2) by simp
  then show "get_side A vs k = Inr (line_ctor A (vs ! (nat k mod length vs)) (vs ! ((nat k + 1) mod length vs)))"
    using assms by (simp add: get_side_def side_index_def index_mod_def as_size_def Let_def)
  show "get_side A [] k = Inl Assertion_failed" by (simp add: get_side_def)
  have three: "side_index 3 (-1) = 1" "index_mod 1 3 = Inr 1" "index_mod (1 + 1) 3 = Inr 2"
    by (simp_all add: side_index_def as_size_def as_int_def index_mod_def)
  have l3: "length [u, v, w] = 3" by simp
  show "get_side A [u, v, w] (-1) = Inr (line_ctor A v w)" unfolding get_side_def Let_def l3 three by simp
  have four: "side_index 4 (-1) = -1" "index_mod (-1) 4 = Inr 3" "index_mod (-1 + 1) 4 = Inr 0"
    by (simp_all add: side_index_def as_size_def as_int_def index_mod_def)
  have l4: "length [t, u, v, w] = 4" by simp
  show "get_side A [t, u, v, w] (-1) = Inr (line_ctor A w t)" unfolding get_side_def Let_def l4 four by simp
qed

theorem get_side_indices_witness:
  "get_side sample_arith [sample_point 0 0, sample_point 5 5] 3 = Inr (line_ctor sample_arith (sample_point 5 5) (sample_point 0 0))"
  using get_side_indices [of "[sample_point 0 0, sample_point 5 5]" 3 sample_arith] by (simp add: numeral_2_eq_2 [symmetric])

text \<open>Arithmetic without rounding, as far as \<^verbatim>\<open>square\<close> uses it.\<close>

definition exact_arith :: "(rat, rat) arith \<Rightarrow> bool" where
  "exact_arith A \<longleftrightarrow> fadd A = (+) \<and> fsub A = (-) \<and> fmul A = (*) \<and> fneg A = uminus \<and> fzero A = 0 \<and> to_double A = id \<and> to_float A = id \<and>
     ddiv A = (/) \<and> dless A = (<) \<and> dlit A ''2.0'' = 2 \<and> dlit A ''0.0'' = 0"

lemma square_sums_exact:
  assumes "exact_arith A"
  shows "square_sums A vs is (a, b) = (a + (\<Sum>i \<leftarrow> is. px (vs ! i) * py (vs ! ((i + 1) mod length vs))),
    b - (\<Sum>i \<leftarrow> is. px (vs ! ((i + 1) mod length vs)) * py (vs ! i)))"
  using assms by (induction "is" arbitrary: a b) (simp_all add: exact_arith_def algebra_simps)

text \<open>
  Without rounding, \<^verbatim>\<open>square\<close> is the shoelace formula, and for a triangle half the absolute value of the cross product of two sides.
\<close>

theorem square_shoelace:
  assumes "exact_arith A"
  shows "(if length vs < 3 then square A vs = 0
     else square A vs = \<bar>\<Sum>i \<leftarrow> [0..<length vs]. px (vs ! i) * py (vs ! ((i + 1) mod length vs)) - px (vs ! ((i + 1) mod length vs)) * py (vs ! i)\<bar> / 2) \<and>
    square A [u, v, w] = \<bar>(px v - px u) * (py w - py u) - (py v - py u) * (px w - px u)\<bar> / 2"
proof
  have eq: "square A vs = \<bar>\<Sum>i \<leftarrow> [0..<length vs]. px (vs ! i) * py (vs ! ((i + 1) mod length vs)) - px (vs ! ((i + 1) mod length vs)) * py (vs ! i)\<bar> / 2"
    if "\<not> length vs < 3" for vs :: "rat polygon_t"
    using that square_sums_exact [OF assms, of vs "[0..<length vs]" 0 0] assms
    by (simp add: square_def exact_arith_def sum_list_subtractf Let_def abs_if diff_divide_distrib)
  show "if length vs < 3 then square A vs = 0
     else square A vs = \<bar>\<Sum>i \<leftarrow> [0..<length vs]. px (vs ! i) * py (vs ! ((i + 1) mod length vs)) - px (vs ! ((i + 1) mod length vs)) * py (vs ! i)\<bar> / 2"
    using assms eq [of vs] by (simp add: square_def exact_arith_def)
  have "[0..<length [u, v, w]] = [0, 1, 2]" by (simp add: upt_rec)
  then show "square A [u, v, w] = \<bar>(px v - px u) * (py w - py u) - (py v - py u) * (px w - px u)\<bar> / 2"
    using eq [of "[u, v, w]"] by (simp add: algebra_simps numeral_2_eq_2)
qed

definition rat_arith :: "(rat, rat) arith" where
  "rat_arith = \<lparr>fadd = (+), fsub = (-), fmul = (*), fdiv = (/), fneg = uminus, fabs = abs, fne = (\<noteq>), fatan = id, fsin = id, fnan = 0, fzero = 0,
     to_double = id, to_float = id, dlit = (\<lambda>s. if s = ''0.0'' then 0 else if s = ''2.0'' then 2 else 1), dadd = (+), dsub = (-), dmul = (*),
     ddiv = (/), dsqrt = id, dless = (<), dle = (\<le>), fshow = (\<lambda>x. []), fread = (\<lambda>s. None)\<rparr>"

theorem square_shoelace_witness:
  "square rat_arith [\<lparr>px = 0, py = 0\<rparr>, \<lparr>px = 0, py = 3\<rparr>, \<lparr>px = 4, py = 0\<rparr>] = 6"
proof -
  have "exact_arith rat_arith" by (simp add: exact_arith_def rat_arith_def)
  then show ?thesis using square_shoelace [of rat_arith "[]" "\<lparr>px = 0, py = 0\<rparr>" "\<lparr>px = 0, py = 3\<rparr>" "\<lparr>px = 4, py = 0\<rparr>"] by simp
qed

end
