(* ===== verification/Vector_Add.thy ===== *)
theory Vector_Add
  imports Gemm Lru
begin

text \<open>
  Programs that offload work on integer vectors: \<^verbatim>\<open>11-compute/cl_vectoradd.cc\<close>, \<^verbatim>\<open>11-compute/cl_justbuf.cc\<close> and the earlier
  \<^verbatim>\<open>archive/07-compute/cl_vectoradd.cc\<close>. OpenCL is a record: the platforms with their numbers of GPUs, the default
  context, what a copy to a buffer leaves there, what a fresh buffer holds, and what running a kernel gives for a context of
  the program, a context of the buffers, a global and a local size, and the work of one item.
  \<open>ocl_ok\<close> states what the specification of OpenCL promises: a copy arrives, and the items run once
  each, in an order of the device's choice, provided that the local size divides the global
  one and that the contexts agree.
\<close>

section \<open>The environment\<close>

text \<open>What may be thrown: a \<^verbatim>\<open>cl::Error\<close> with its code, or a \<^verbatim>\<open>std::runtime_error\<close>; and undefined behaviour.\<close>

datatype ocl_exn = Cl_error int string | Std_error string | Ocl_undefined

record platform =
  pname :: string
  pprofile :: string
  gpus :: nat

record ocl =
  platforms :: "platform list"
  default_context :: nat
  copy_in :: "nat \<Rightarrow> int list \<Rightarrow> nat \<Rightarrow> ocl_exn + int list"
  new_buffer :: "nat \<Rightarrow> int list"
  run_items :: "nat \<Rightarrow> nat \<Rightarrow> nat \<Rightarrow> nat \<Rightarrow> (nat \<Rightarrow> int list \<Rightarrow> ocl_exn + int list) \<Rightarrow> int list \<Rightarrow> ocl_exn + int list"

definition ocl_ok :: "ocl \<Rightarrow> bool" where
  "ocl_ok E \<longleftrightarrow> (\<forall>c xs. copy_in E c xs (length xs) = Inr xs) \<and> (\<forall>n. length (new_buffer E n) = n) \<and>
     (\<forall>pc bc gsz lsz item C. if pc \<noteq> bc then run_items E pc bc gsz lsz item C = Inl (Cl_error (-38) ''clSetKernelArg'')
        else 0 < lsz \<and> gsz mod lsz = 0 \<longrightarrow> (\<exists>ids. mset ids = mset [0..<gsz] \<and> run_items E pc bc gsz lsz item C = foldE item ids C))"

text \<open>Reading and writing elements of a buffer or a vector, and the range \<^verbatim>\<open>[p, p + n)\<close>.\<close>

definition elt :: "int list \<Rightarrow> nat \<Rightarrow> ocl_exn + int" where
  "elt xs i = (if i < length xs then Inr (xs ! i) else Inl Ocl_undefined)"

definition set_elt :: "int list \<Rightarrow> nat \<Rightarrow> int \<Rightarrow> ocl_exn + int list" where
  "set_elt xs i x = (if i < length xs then Inr (xs[i := x]) else Inl Ocl_undefined)"

definition elts :: "int list \<Rightarrow> nat \<Rightarrow> ocl_exn + int list" where
  "elts xs n = (if n \<le> length xs then Inr (take n xs) else Inl Ocl_undefined)"

definition plus_int :: "int \<Rightarrow> int \<Rightarrow> ocl_exn + int" where
  "plus_int a b = (if - (2 ^ 31) \<le> a + b \<and> a + b < 2 ^ 31 then Inr (a + b) else Inl Ocl_undefined)"

section \<open>Vector addition\<close>



text \<open>The kernel: the work of item \<open>i\<close>.\<close>

definition vakernel :: "int list \<Rightarrow> int list \<Rightarrow> nat \<Rightarrow> int list \<Rightarrow> ocl_exn + int list" where
  "vakernel A B i C = bindE (elt A i) (\<lambda>a. bindE (elt B i) (\<lambda>b. bindE (plus_int a b) (\<lambda>s. set_elt C i s)))"





text \<open>The first index where the result is not the sum, with the message.\<close>

fun check_sums :: "(nat \<Rightarrow> int \<Rightarrow> int \<Rightarrow> string) \<Rightarrow> int list \<Rightarrow> int list \<Rightarrow> int list \<Rightarrow> nat list \<Rightarrow> ocl_exn + string option" where
  "check_sums msg dst src1 src2 [] = Inr None"
| "check_sums msg dst src1 src2 (i # is) =
     bindE (elt dst i) (\<lambda>lhs. bindE (bindE (elt src1 i) (\<lambda>a. bindE (elt src2 i) (plus_int a))) (\<lambda>rhs.
     if lhs \<noteq> rhs then Inr (Some (msg i lhs rhs)) else check_sums msg dst src1 src2 is))"




section \<open>A buffer and back\<close>




section \<open>The earlier program\<close>

definition LIST_SIZE :: nat where "LIST_SIZE = 1024"

text \<open>
  The buffers belong to the context \<open>c\<close> of the object; the program is built without one, in the default context.
\<close>

definition process_buffers :: "ocl \<Rightarrow> nat \<Rightarrow> int list \<Rightarrow> int list \<Rightarrow> nat \<Rightarrow> ocl_exn + int list" where
  "process_buffers E c pa pb nn =
     bindE (bindE (elts pa nn) (\<lambda>xs. copy_in E c xs nn)) (\<lambda>abuf.
     bindE (bindE (elts pb nn) (\<lambda>xs. copy_in E c xs nn)) (\<lambda>bbuf.
     bindE (run_items E (default_context E) c nn 64 (vakernel abuf bbuf) (new_buffer E nn)) (\<lambda>cbuf. elts cbuf nn)))"

definition old_mismatch :: "nat \<Rightarrow> int \<Rightarrow> int \<Rightarrow> string" where
  "old_mismatch i lhs rhs = ''At index: '' @ string_of_nat i @ ''. '' @ string_of_int lhs @ '' != '' @ string_of_int rhs @ endl"

text \<open>\<^verbatim>\<open>abort\<close> after a mismatch is exit code 134; \<open>txt\<close> is what selecting the devices prints.\<close>

definition old_vadd_main :: "ocl \<Rightarrow> nat \<Rightarrow> string \<Rightarrow> outcome option" where
  "old_vadd_main E c txt =
     (let A = map int [0..<LIST_SIZE]; B = map (\<lambda>i. int (LIST_SIZE - i)) [0..<LIST_SIZE] in
      case bindE (process_buffers E c A B LIST_SIZE) (\<lambda>C. check_sums old_mismatch C A B [0..<LIST_SIZE]) of
        Inr None \<Rightarrow> Some \<lparr>code = 0, out = txt @ ''Everything is correct'' @ endl, err = []\<rparr>
      | Inr (Some msg) \<Rightarrow> Some \<lparr>code = 134, out = txt, err = msg\<rparr>
      | Inl (Cl_error n what) \<Rightarrow> Some \<lparr>code = -1, out = txt, err = ''ERROR: '' @ what @ '':'' @ endl\<rparr>
      | Inl _ \<Rightarrow> None)"

section \<open>Properties\<close>

lemma vakernel_fold:
  assumes "mset ids = mset [0..<n]" "length A = n" "length B = n" "length C = n"
    and "\<forall>i < n. - (2 ^ 31) \<le> A ! i + B ! i \<and> A ! i + B ! i < 2 ^ 31"
  shows "foldE (vakernel A B) ids C = Inr (map (\<lambda>i. A ! i + B ! i) [0..<n])"
proof -
  have *: "\<exists>D. foldE (vakernel A B) is D0 = Inr D \<and> length D = n \<and>
      (\<forall>i < n. D ! i = (if i \<in> set is then A ! i + B ! i else D0 ! i))"
    if "set is \<subseteq> {..<n}" "length D0 = n" for "is" D0
    using that
  proof (induction "is" arbitrary: D0)
    case (Cons i "is")
    let ?D = "D0[i := A ! i + B ! i]"
    have "vakernel A B i D0 = Inr ?D" using Cons.prems assms by (simp add: vakernel_def elt_def set_elt_def plus_int_def)
    moreover obtain D where "foldE (vakernel A B) is ?D = Inr D" "length D = n"
      "\<forall>j < n. D ! j = (if j \<in> set is then A ! j + B ! j else ?D ! j)" using Cons.IH [of ?D] Cons.prems by auto
    ultimately show ?case using Cons.prems by (auto simp: nth_list_update)
  qed simp
  have "set ids = {..<n}" unfolding mset_eq_setD [OF assms(1)] by (simp add: atLeast0LessThan)
  then obtain D where D: "foldE (vakernel A B) ids C = Inr D" "length D = n" "\<forall>i < n. D ! i = A ! i + B ! i" using * [of ids C] assms(4) by auto
  have "D = map (\<lambda>i. A ! i + B ! i) [0..<n]" by (rule nth_equalityI) (use D in simp_all)
  then show ?thesis using D(1) by simp
qed

lemma ocl_okD:
  assumes "ocl_ok E"
  shows "copy_in E c xs (length xs) = Inr xs" "length (new_buffer E n) = n"
    "pc \<noteq> bc \<Longrightarrow> run_items E pc bc gsz lsz item C = Inl (Cl_error (-38) ''clSetKernelArg'')"
    "0 < lsz \<Longrightarrow> gsz mod lsz = 0 \<Longrightarrow> \<exists>ids. mset ids = mset [0..<gsz] \<and> run_items E bc bc gsz lsz item C = foldE item ids C"
  using assms unfolding ocl_ok_def by (simp, simp, presburger, metis)


lemma check_sums_ok:
  assumes "\<forall>i \<in> set is. i < n" "length A = n" "length B = n" "\<forall>i < n. - (2 ^ 31) \<le> A ! i + B ! i \<and> A ! i + B ! i < 2 ^ 31"
  shows "check_sums msg (map (\<lambda>i. A ! i + B ! i) [0..<n]) A B is = Inr None"
  using assms(1) by (induction "is") (use assms(2-4) in \<open>simp_all add: elt_def plus_int_def\<close>)





definition sample_ocl :: ocl where
  "sample_ocl = \<lparr>platforms = [\<lparr>pname = ''A'', pprofile = ''P'', gpus = 0\<rparr>, \<lparr>pname = ''B'', pprofile = ''Q'', gpus = 2\<rparr>], default_context = 0,
     copy_in = (\<lambda>c xs n. Inr xs), new_buffer = (\<lambda>n. replicate n 0),
     run_items = (\<lambda>pc bc gsz lsz item C. if pc \<noteq> bc then Inl (Cl_error (-38) ''clSetKernelArg'') else foldE item [0..<gsz] C)\<rparr>"

lemma sample_ocl_ok: "ocl_ok sample_ocl"
  by (auto simp: ocl_ok_def sample_ocl_def) (metis mset_upt)


text \<open>
  The earlier vector addition builds its program in the default context and its buffers in another: it ends with the error of \<^verbatim>\<open>clSetKernelArg\<close>
  whenever the two differ, and would succeed if they were the same.
\<close>

theorem old_vadd_context:
  assumes "ocl_ok E"
  shows "old_vadd_main E c t =
    (if default_context E \<noteq> c then Some \<lparr>code = -1, out = t, err = ''ERROR: clSetKernelArg:'' @ endl\<rparr>
     else Some \<lparr>code = 0, out = t @ ''Everything is correct'' @ endl, err = []\<rparr>)"
proof -
  let ?n = LIST_SIZE
  let ?A = "map int [0..<?n]" and ?B = "map (\<lambda>i. int (?n - i)) [0..<?n]"
  have len: "length ?A = ?n" "length ?B = ?n" by simp_all
  have sum: "\<forall>i < ?n. - (2 ^ 31) \<le> ?A ! i + ?B ! i \<and> ?A ! i + ?B ! i < 2 ^ 31" by (simp add: LIST_SIZE_def)
  note D = ocl_okD [OF assms]
  have copies: "copy_in E c ?A ?n = Inr ?A" "copy_in E c ?B ?n = Inr ?B" using D(1) [of c ?A] D(1) [of c ?B] by simp_all
  show ?thesis
  proof (cases "default_context E = c")
    case True
    obtain ids where ids: "mset ids = mset [0..<?n]"
      "run_items E c c ?n 64 (vakernel ?A ?B) (new_buffer E ?n) = foldE (vakernel ?A ?B) ids (new_buffer E ?n)"
      using D(4) [of 64 ?n c "vakernel ?A ?B" "new_buffer E ?n"] by (auto simp: LIST_SIZE_def)
    let ?C = "map (\<lambda>i. ?A ! i + ?B ! i) [0..<?n]"
    have "process_buffers E c ?A ?B ?n = Inr ?C"
      using ids(2) vakernel_fold [OF ids(1) len D(2) sum] copies True by (simp add: process_buffers_def elts_def)
    moreover have "check_sums old_mismatch ?C ?A ?B [0..<?n] = Inr None" by (rule check_sums_ok [OF _ len sum]) simp
    ultimately have "bindE (process_buffers E c ?A ?B ?n) (\<lambda>C. check_sums old_mismatch C ?A ?B [0..<?n]) = Inr None" by simp
    then show ?thesis unfolding old_vadd_main_def Let_def using True by simp
  next
    case False
    then have "process_buffers E c ?A ?B ?n = Inl (Cl_error (-38) ''clSetKernelArg'')"
      using copies D(3) [of "default_context E" c] by (simp add: process_buffers_def elts_def)
    then have "bindE (process_buffers E c ?A ?B ?n) (\<lambda>C. check_sums old_mismatch C ?A ?B [0..<?n]) = Inl (Cl_error (-38) ''clSetKernelArg'')" by simp
    then show ?thesis unfolding old_vadd_main_def Let_def using False by simp
  qed
qed

theorem old_vadd_context_witness:
  "old_vadd_main sample_ocl 1 [] = Some \<lparr>code = -1, out = [], err = ''ERROR: clSetKernelArg:'' @ endl\<rparr>"
proof -
  have "default_context sample_ocl \<noteq> 1" by (simp add: sample_ocl_def)
  then show ?thesis using old_vadd_context [OF sample_ocl_ok, of 1 "[]"] by simp
qed

end
