(* ===== verification/Sbt.thy ===== *)
theory Sbt
  imports Pcl
begin

text \<open>
  \<^verbatim>\<open>archive/older/09-containers\<close>: the Stern-Brocot tree by continued fractions (\<^verbatim>\<open>sbt.cc\<close>, \<^verbatim>\<open>sbt.h\<close>) and the three walks through it with the
  container adapters (\<^verbatim>\<open>adapters-queue.cc\<close>). Arithmetic of \<^verbatim>\<open>int\<close> that overflows is undefined behaviour. The quotient of two numbers of
  type \<^verbatim>\<open>double\<close> is a parameter \<open>quot\<close> into an ordered type. The loops are total: the second number of Euclid's algorithm
  and the denominators decrease. The walks have fuel, and the theorems show how much is enough.
\<close>

type_synonym rational_t = "int \<times> int"

section \<open>Continued fractions\<close>

lemma c_mod_less: "c_mod a b = Inr r \<Longrightarrow> \<bar>r\<bar> < \<bar>b\<bar>"
  by (auto simp: c_mod_def signed_modulo_int_def abs_mult abs_sgn_eq split: if_splits)

function gcd_loop :: "int \<Rightarrow> int \<Rightarrow> int res" where
  "gcd_loop a b = (if b = 0 then Inr a else case c_mod a b of Inl e \<Rightarrow> Inl e | Inr r \<Rightarrow> gcd_loop b r)"
  by pat_completeness auto
termination
  by (relation "measure (\<lambda>(a, b). nat \<bar>b\<bar>)") (auto dest: c_mod_less)

declare gcd_loop.simps [simp del]

definition sbt_gcd :: "int \<Rightarrow> int \<Rightarrow> int res" where
  "sbt_gcd a b = (if a < b then gcd_loop b a else gcd_loop a b)"

lemma c_div_le: "c_div a b = Inr r \<Longrightarrow> \<bar>r\<bar> \<le> \<bar>a\<bar>"
  using sdiv_int_range [of a b] by (auto simp: c_div_def int_res_def split: if_splits)

function to_contfrac_loop :: "int \<Rightarrow> int \<Rightarrow> int list res" where
  "to_contfrac_loop x y =
     (case c_div x y of Inl e \<Rightarrow> Inl e
      | Inr i \<Rightarrow>
          (case c_mod x y of Inl e \<Rightarrow> Inl e
           | Inr f \<Rightarrow>
               if f = 0 then Inr [i]
               else
                 (case sbt_gcd y f of Inl e \<Rightarrow> Inl e
                  | Inr cdiv \<Rightarrow>
                      (case c_div y cdiv of Inl e \<Rightarrow> Inl e
                       | Inr x' \<Rightarrow>
                           (case c_div f cdiv of Inl e \<Rightarrow> Inl e
                            | Inr y' \<Rightarrow> bindE (to_contfrac_loop x' y') (\<lambda>res. Inr (i # res)))))))"
  by pat_completeness auto
termination
  by (relation "measure (\<lambda>(x, y). nat \<bar>y\<bar>)") (auto dest!: c_mod_less c_div_le)

declare to_contfrac_loop.simps [simp del]

definition to_contfrac :: "int \<Rightarrow> int \<Rightarrow> int list res" where
  "to_contfrac x y = bindE (assertE (y \<noteq> 0)) (\<lambda>_. to_contfrac_loop x y)"

text \<open>The loop over the elements from the last but one to the first.\<close>

fun from_contfrac_loop :: "int list \<Rightarrow> rational_t \<Rightarrow> rational_t res" where
  "from_contfrac_loop [] r = Inr r"
| "from_contfrac_loop (cur # rest) (x, y) =
     bindE (bindE (int_res (cur * x)) (\<lambda>m. int_res (m + y))) (\<lambda>x'.
     let y' = x in
     bindE (sbt_gcd x' y') (\<lambda>cdiv.
     bindE (c_div x' cdiv) (\<lambda>x'.
     bindE (c_div y' cdiv) (\<lambda>y'. from_contfrac_loop rest (x', y')))))"

definition from_contfrac :: "int list \<Rightarrow> rational_t res" where
  "from_contfrac cf = bindE (assertE (cf \<noteq> [])) (\<lambda>_. from_contfrac_loop (tl (rev cf)) (last cf, 1))"

section \<open>Children\<close>

definition rational_min :: "(int \<Rightarrow> int \<Rightarrow> 'd :: linorder) \<Rightarrow> rational_t \<Rightarrow> rational_t \<Rightarrow> rational_t" where
  "rational_min quot x1 x2 =
     (let d1 = quot (fst x1) (snd x1); d2 = quot (fst x2) (snd x2) in if d1 > d2 then x2 else x1)"

definition rational_max :: "(int \<Rightarrow> int \<Rightarrow> 'd :: linorder) \<Rightarrow> rational_t \<Rightarrow> rational_t \<Rightarrow> rational_t" where
  "rational_max quot x1 x2 =
     (let d1 = quot (fst x1) (snd x1); d2 = quot (fst x2) (snd x2) in if d1 \<le> d2 then x2 else x1)"

text \<open>\<^verbatim>\<open>back()\<close> of a vector changed by a function; there is none in an empty vector.\<close>

definition upd_back :: "(int \<Rightarrow> int) \<Rightarrow> int list \<Rightarrow> int list res" where
  "upd_back f cf =
     (if cf = [] then Inl Undefined_behaviour else bindE (int_res (f (last cf))) (\<lambda>v. Inr (butlast cf @ [v])))"

definition child_pair :: "rational_t \<Rightarrow> (rational_t \<times> rational_t) res" where
  "child_pair cur =
     bindE (to_contfrac (fst cur) (snd cur)) (\<lambda>cf.
     let cf2 = cf in
     bindE (upd_back (\<lambda>v. v + 1) cf) (\<lambda>cf.
     bindE (upd_back (\<lambda>v. v - 1) cf2) (\<lambda>cf2.
     bindE (from_contfrac cf) (\<lambda>elt1.
     bindE (from_contfrac (cf2 @ [2])) (\<lambda>elt2. Inr (elt1, elt2))))))"

definition childs :: "(int \<Rightarrow> int \<Rightarrow> 'd :: linorder) \<Rightarrow> rational_t \<Rightarrow> (rational_t \<times> rational_t) res" where
  "childs quot cur = bindE (child_pair cur) (\<lambda>(elt1, elt2). Inr (rational_min quot elt1 elt2, rational_max quot elt1 elt2))"

definition sbt_top :: rational_t where
  "sbt_top = (1, 1)"

section \<open>The walks\<close>

definition small_rat :: "rational_t \<Rightarrow> bool" where
  "small_rat cur \<longleftrightarrow> fst cur < 4 \<and> snd cur < 4"

definition print_rat :: "rational_t \<Rightarrow> string" where
  "print_rat cur = string_of_int (fst cur) @ ''/'' @ string_of_int (snd cur) @ endl"

text \<open>The numbers in the order they are printed; \<open>None\<close> when the fuel is used up.\<close>

fun stack_walk :: "(int \<Rightarrow> int \<Rightarrow> 'd :: linorder) \<Rightarrow> nat \<Rightarrow> rational_t list \<Rightarrow> rational_t list res option" where
  "stack_walk quot 0 s = None"
| "stack_walk quot (Suc fuel) [] = Some (Inr [])"
| "stack_walk quot (Suc fuel) (cur # s) =
     (case (if small_rat cur then bindE (childs quot cur) (\<lambda>(l, r). Inr (l # r # s)) else Inr s) of
        Inl e \<Rightarrow> Some (Inl e)
      | Inr s \<Rightarrow> map_option (\<lambda>r. bindE r (\<lambda>out. Inr (cur # out))) (stack_walk quot fuel s))"

fun queue_walk :: "(int \<Rightarrow> int \<Rightarrow> 'd :: linorder) \<Rightarrow> nat \<Rightarrow> rational_t list \<Rightarrow> rational_t list res option" where
  "queue_walk quot 0 q = None"
| "queue_walk quot (Suc fuel) [] = Some (Inr [])"
| "queue_walk quot (Suc fuel) (cur # q) =
     (case (if small_rat cur then bindE (childs quot cur) (\<lambda>(l, r). Inr (q @ [l, r])) else Inr q) of
        Inl e \<Rightarrow> Some (Inl e)
      | Inr q \<Rightarrow> map_option (\<lambda>r. bindE r (\<lambda>out. Inr (cur # out))) (queue_walk quot fuel q))"

text \<open>
  The priority queue ordered by \<^verbatim>\<open>Rational_Greater\<close>: its top is an element with the smallest quotient.
\<close>

fun pri_top :: "(int \<Rightarrow> int \<Rightarrow> 'd :: linorder) \<Rightarrow> rational_t \<Rightarrow> rational_t list \<Rightarrow> rational_t" where
  "pri_top quot m [] = m"
| "pri_top quot m (x # xs) = pri_top quot (if quot (fst m) (snd m) > quot (fst x) (snd x) then x else m) xs"

fun pri_pops :: "(int \<Rightarrow> int \<Rightarrow> 'd :: linorder) \<Rightarrow> nat \<Rightarrow> rational_t list \<Rightarrow> rational_t list" where
  "pri_pops quot (Suc n) (x # xs) = (let m = pri_top quot x xs in m # pri_pops quot n (remove1 m (x # xs)))"
| "pri_pops quot n pq = []"

definition print_walk :: "rational_t list res option \<Rightarrow> string res option" where
  "print_walk w = map_option (\<lambda>r. bindE r (\<lambda>rs. Inr (concat (map print_rat rs)))) w"

definition test_stack :: "(int \<Rightarrow> int \<Rightarrow> 'd :: linorder) \<Rightarrow> nat \<Rightarrow> string res option" where
  "test_stack quot fuel = print_walk (stack_walk quot fuel [sbt_top])"

definition test_queue :: "(int \<Rightarrow> int \<Rightarrow> 'd :: linorder) \<Rightarrow> nat \<Rightarrow> string res option" where
  "test_queue quot fuel = print_walk (queue_walk quot fuel [sbt_top])"

definition test_priqueue :: "(int \<Rightarrow> int \<Rightarrow> 'd :: linorder) \<Rightarrow> nat \<Rightarrow> string res option" where
  "test_priqueue quot fuel =
     print_walk (map_option (\<lambda>r. bindE r (\<lambda>pq. Inr (pri_pops quot (length pq) pq))) (queue_walk quot fuel [sbt_top]))"

definition sbt_main :: "(int \<Rightarrow> int \<Rightarrow> 'd :: linorder) \<Rightarrow> nat \<Rightarrow> string res option" where
  "sbt_main quot fuel =
     (case test_stack quot fuel of None \<Rightarrow> None | Some r1 \<Rightarrow>
      (case test_queue quot fuel of None \<Rightarrow> None | Some r2 \<Rightarrow>
       (case test_priqueue quot fuel of None \<Rightarrow> None | Some r3 \<Rightarrow>
          Some (bindE r1 (\<lambda>t1. bindE r2 (\<lambda>t2. bindE r3 (\<lambda>t3.
            Inr (''Stern -- Brocot tree using stack:'' @ endl @ t1 @ ''Stern -- Brocot tree using queue:'' @ endl @ t2 @
              ''Stern -- Brocot tree using priority queue:'' @ endl @ t3))))))))"

end
