(* ===== verification/Sbt_Props.thy ===== *)
theory Sbt_Props
  imports Sbt Complex_Main
begin

text \<open>
  The continued fractions give their rational number back in lowest terms, and the children of a node are its children in the
  Stern-Brocot tree: they differ from it by determinant 1 on either side.
\<close>

section \<open>Arithmetic in range\<close>

lemma c_div_nonneg: "0 \<le> a \<Longrightarrow> 0 < b \<Longrightarrow> in_int a \<Longrightarrow> c_div a b = Inr (a div b)"
proof -
  assume "0 \<le> a" "0 < b" "in_int a"
  then have "a sdiv b = a div b" "0 \<le> a div b" "a div b \<le> a"
    using zdiv_mono2 [of a 1 b] by (auto simp: signed_divide_int_def pos_imp_zdiv_nonneg_iff sgn_if)
  then show ?thesis using \<open>0 < b\<close> \<open>in_int a\<close> by (simp add: c_div_def int_res_def in_int_def INT_MAX_def)
qed

lemma c_mod_nonneg: "0 \<le> a \<Longrightarrow> 0 < b \<Longrightarrow> in_int a \<Longrightarrow> c_mod a b = Inr (a mod b)"
  using c_div_nonneg [of a b] by (auto simp: c_mod_def c_div_def int_res_def smod_mod_positive split: if_splits)

lemma gcd_loop_ok: "0 \<le> a \<Longrightarrow> 0 \<le> b \<Longrightarrow> in_int a \<Longrightarrow> in_int b \<Longrightarrow> gcd_loop a b = Inr (gcd a b)"
proof (induction a b rule: gcd_loop.induct)
  case (1 a b)
  show ?case
  proof (cases "b = 0")
    case True
    then show ?thesis using 1 by (simp add: gcd_loop.simps)
  next
    case False
    then have m: "c_mod a b = Inr (a mod b)" using 1 by (intro c_mod_nonneg) auto
    have r: "0 \<le> a mod b" "a mod b < b" using False 1(3) by auto
    then have "in_int (a mod b)" using 1(5) by (auto simp: in_int_def INT_MAX_def)
    then have "gcd_loop b (a mod b) = Inr (gcd b (a mod b))" using 1(1) [OF False m] 1(3,5) r by blast
    then show ?thesis using False m gcd_red_int [of a b] by (simp add: gcd_loop.simps [of a b])
  qed
qed

lemma sbt_gcd_ok: "0 \<le> a \<Longrightarrow> 0 \<le> b \<Longrightarrow> in_int a \<Longrightarrow> in_int b \<Longrightarrow> sbt_gcd a b = Inr (gcd a b)"
  by (simp add: sbt_gcd_def gcd_loop_ok gcd.commute)

section \<open>Evaluation of continued fractions\<close>

definition cf_step :: "int \<Rightarrow> rational_t \<Rightarrow> rational_t" where
  "cf_step c r = (c * fst r + snd r, fst r)"

lemma fst_snd_cf_step [simp]: "fst (cf_step c r) = c * fst r + snd r" "snd (cf_step c r) = fst r"
  by (simp_all add: cf_step_def)

text \<open>Along the evaluation the numbers do not decrease.\<close>

lemma cf_fold_bounds:
  assumes "\<forall>c \<in> set cs. 0 \<le> c" "0 \<le> fst r" "0 \<le> snd r"
  shows "0 \<le> fst (fold cf_step cs r) \<and> 0 \<le> snd (fold cf_step cs r) \<and>
    max (fst r) (snd r) \<le> max (fst (fold cf_step cs r)) (snd (fold cf_step cs r))"
  using assms
proof (induction cs arbitrary: r)
  case (Cons c cs)
  have c: "0 \<le> c" "0 \<le> c * fst r" using Cons.prems by auto
  have "fst r \<le> c * fst r" if "c \<noteq> 0" using mult_right_mono [of 1 c "fst r"] Cons.prems that by simp
  moreover have "snd r \<le> c * fst r + snd r" using c(2) by simp
  ultimately have "max (fst r) (snd r) \<le> max (fst (cf_step c r)) (snd (cf_step c r))" using Cons.prems by (simp only: fst_snd_cf_step)
  then show ?case using Cons.IH [of "cf_step c r"] Cons.prems c by auto
qed simp

lemma from_contfrac_loop_ok:
  assumes "\<forall>c \<in> set cs. 0 \<le> c" "0 \<le> fst r" "0 \<le> snd r" "gcd (fst r) (snd r) = 1"
    and "fst (fold cf_step cs r) \<le> INT_MAX" "snd (fold cf_step cs r) \<le> INT_MAX"
  shows "from_contfrac_loop cs r = Inr (fold cf_step cs r)"
  using assms
proof (induction cs arbitrary: r)
  case (Cons c cs)
  obtain x y where r: "r = (x, y)" by (cases r)
  let ?x = "c * x + y"
  have nn: "0 \<le> c" "0 \<le> x" "0 \<le> y" "0 \<le> c * x" using Cons.prems r by auto
  have "max ?x x \<le> max (fst (fold cf_step (c # cs) r)) (snd (fold cf_step (c # cs) r))"
    using cf_fold_bounds [of cs "cf_step c r"] Cons.prems(1) nn r by auto
  then have le: "?x \<le> INT_MAX" "x \<le> INT_MAX" using Cons.prems(5,6) by auto
  have g: "gcd ?x x = 1" using Cons.prems(4) r by (simp add: gcd.commute gcd_add_mult)
  have "0 \<le> INT_MAX" by (simp add: INT_MAX_def)
  then have in1: "in_int (c * x)" "in_int ?x" "in_int x" using nn le unfolding in_int_def by linarith+
  have "sbt_gcd ?x x = Inr 1" using sbt_gcd_ok [of ?x x] nn in1 g by simp
  moreover have "c_div ?x 1 = Inr ?x" "c_div x 1 = Inr x" using in1 by (simp_all add: c_div_def int_res_def)
  ultimately have "from_contfrac_loop (c # cs) r = from_contfrac_loop cs (?x, x)" using r in1 by (simp add: int_res_def Let_def)
  also have st: "(?x, x) = cf_step c r" using r by (simp add: cf_step_def)
  also have "from_contfrac_loop cs (cf_step c r) = Inr (fold cf_step cs (cf_step c r))"
    using Cons.IH [of "cf_step c r"] Cons.prems nn g r by simp
  finally show ?case by simp
qed simp

definition cf_value :: "int list \<Rightarrow> rational_t" where
  "cf_value cf = foldr cf_step (butlast cf) (last cf, 1)"

lemma from_contfrac_ok:
  assumes "cf \<noteq> []" "\<forall>c \<in> set cf. 0 \<le> c" "fst (cf_value cf) \<le> INT_MAX" "snd (cf_value cf) \<le> INT_MAX"
  shows "from_contfrac cf = Inr (cf_value cf)"
proof -
  have ne: "cf = butlast cf @ [last cf]" using assms(1) by simp
  have v: "fold cf_step (rev (butlast cf)) (last cf, 1) = cf_value cf" by (simp add: cf_value_def foldr_conv_fold)
  have "tl (rev cf) = rev (butlast cf)" by (subst ne) simp
  moreover have "from_contfrac_loop (rev (butlast cf)) (last cf, 1) = Inr (cf_value cf)"
    using from_contfrac_loop_ok [of "rev (butlast cf)" "(last cf, 1)"] assms v by (auto dest: in_set_butlastD)
  ultimately show ?thesis using assms(1) by (simp add: from_contfrac_def)
qed

lemma to_contfrac_loop_ok:
  assumes "0 \<le> x" "0 < y" "in_int x" "in_int y"
  shows "\<exists>cf. to_contfrac_loop x y = Inr cf \<and> cf \<noteq> [] \<and> (\<forall>c \<in> set cf. 0 \<le> c) \<and> (0 < x \<longrightarrow> 1 \<le> last cf) \<and>
    cf_value cf = (x div gcd x y, y div gcd x y)"
  using assms
proof (induction x y rule: to_contfrac_loop.induct)
  case (1 x y)
  let ?i = "x div y" and ?f = "x mod y" and ?g = "gcd x y"
  have d: "c_div x y = Inr ?i" "c_mod x y = Inr ?f" using 1 by (auto intro: c_div_nonneg c_mod_nonneg)
  have f: "0 \<le> ?f" "?f < y" "0 \<le> ?i" using 1(2,3) by (auto simp: pos_imp_zdiv_nonneg_iff)
  show ?case
  proof (cases "?f = 0")
    case True
    then have "y dvd x" by auto
    then have "?g = y" "0 < x \<longrightarrow> 1 \<le> ?i" using 1(3) zdvd_imp_le [of y x] zdiv_mono1 [of y x y] by auto
    then show ?thesis using d True f(3) 1(3) by (intro exI [of _ "[?i]"]) (simp add: to_contfrac_loop.simps [of x y] cf_value_def)
  next
    case False
    have in_f: "in_int ?f" using f 1(5) by (auto simp: in_int_def INT_MAX_def)
    have g: "sbt_gcd y ?f = Inr ?g" using sbt_gcd_ok [of y ?f] 1(3,5) f(1) in_f gcd_red_int [of x y] by simp
    have g0: "0 < ?g" "?g dvd y" "?g dvd ?f" using 1(3) by (auto simp: dvd_mod)
    let ?x = "y div ?g" and ?y = "?f div ?g"
    have d2: "c_div y ?g = Inr ?x" "c_div ?f ?g = Inr ?y" using 1(3,5) g0(1) f(1) in_f by (auto intro: c_div_nonneg)
    have y0: "0 < ?y" using g0 f(1) False zdvd_imp_le [of ?g ?f] by (simp add: pos_imp_zdiv_pos_iff)
    have x0: "0 < ?x" using g0 1(3) zdvd_imp_le [of ?g y] by (simp add: pos_imp_zdiv_pos_iff)
    have "?x \<le> y" "?y \<le> ?f" using zdiv_mono2 [of y 1 ?g] zdiv_mono2 [of ?f 1 ?g] g0(1) 1(3) f(1) by auto
    then have in2: "in_int ?x" "in_int ?y" using x0 y0 1(5) in_f unfolding in_int_def INT_MAX_def by linarith+
    have "gcd y ?f = ?g" by (rule gcd_red_int [symmetric])
    then have "coprime ?x ?y" using div_gcd_coprime [of y ?f] 1(3) by fastforce
    then have cop: "gcd ?x ?y = 1" by (simp add: coprime_iff_gcd_eq_1)
    obtain cf where cf: "to_contfrac_loop ?x ?y = Inr cf" "cf \<noteq> []" "\<forall>c \<in> set cf. 0 \<le> c" "1 \<le> last cf" "cf_value cf = (?x, ?y)"
      using 1(1) [OF d False g d2] x0 y0 in2 cop by auto
    have "?i * ?x + ?y = x div ?g"
    proof -
      have "y = ?g * ?x" "?f = ?g * ?y" using g0(2,3) by simp_all
      then have "?i * y + ?f = ?g * (?i * ?x + ?y)" by (metis distrib_left mult.left_commute)
      moreover have "x = ?i * y + ?f" by simp
      ultimately have "x = ?g * (?i * ?x + ?y)" by simp
      then show ?thesis using g0(1) by (metis nonzero_mult_div_cancel_left less_irrefl)
    qed
    then have "cf_value (?i # cf) = (x div ?g, y div ?g)" using cf(2,5) by (simp add: cf_value_def cf_step_def)
    moreover have "to_contfrac_loop x y = Inr (?i # cf)" using d False g d2 cf(1) by (simp add: to_contfrac_loop.simps [of x y])
    ultimately show ?thesis using cf(2,3,4) f(3) by (intro exI [of _ "?i # cf"]) simp
  qed
qed

section \<open>Children\<close>

lemma cf_linear:
  "fst (foldr cf_step cs (a * x + b * u, a * y + b * v)) = a * fst (foldr cf_step cs (x, y)) + b * fst (foldr cf_step cs (u, v)) \<and>
   snd (foldr cf_step cs (a * x + b * u, a * y + b * v)) = a * snd (foldr cf_step cs (x, y)) + b * snd (foldr cf_step cs (u, v))"
  by (induction cs) (simp_all add: algebra_simps)

lemma cf_det:
  "fst (foldr cf_step cs (x, y)) * snd (foldr cf_step cs (u, v)) - fst (foldr cf_step cs (u, v)) * snd (foldr cf_step cs (x, y)) =
     (x * v - u * y) * (- 1) ^ length cs"
  by (induction cs) (simp_all add: algebra_simps)

lemma cf_nonneg:
  "\<forall>c \<in> set cs. 0 \<le> c \<Longrightarrow> 0 \<le> x \<Longrightarrow> 0 \<le> y \<Longrightarrow> 0 \<le> fst (foldr cf_step cs (x, y)) \<and> 0 \<le> snd (foldr cf_step cs (x, y))"
  by (induction cs) auto

text \<open>The two children, before they are ordered: the sum and the difference with the preceding convergent.\<close>

lemma child_pair_ok:
  assumes "0 < p" "0 < q" "gcd p q = 1" "2 * p \<le> INT_MAX" "2 * q \<le> INT_MAX"
  obtains A C where "child_pair (p, q) = Inr ((p + A, q + C), (2 * p - A, 2 * q - C))" "0 \<le> A" "A \<le> p" "0 \<le> C" "C \<le> q"
    "p * C - A * q = 1 \<or> p * C - A * q = -1"
proof -
  have in_pq: "in_int p" "in_int q" using assms unfolding in_int_def INT_MAX_def by linarith+
  obtain cf where cf: "to_contfrac_loop p q = Inr cf" "cf \<noteq> []" "\<forall>c \<in> set cf. 0 \<le> c" "1 \<le> last cf" "cf_value cf = (p, q)"
    using to_contfrac_loop_ok [of p q] assms in_pq by auto
  let ?cs = "butlast cf" and ?z = "last cf"
  define A where "A = fst (foldr cf_step ?cs (1, 0))"
  define C where "C = snd (foldr cf_step ?cs (1, 0))"
  define B where "B = fst (foldr cf_step ?cs (0, 1))"
  define D where "D = snd (foldr cf_step ?cs (0, 1))"
  have cs: "\<forall>c \<in> set ?cs. 0 \<le> c" using cf(3) by (auto dest: in_set_butlastD)
  then have nn: "0 \<le> A" "0 \<le> C" "0 \<le> B" "0 \<le> D" using cf_nonneg [OF cs, of 1 0] cf_nonneg [OF cs, of 0 1] by (auto simp: A_def B_def C_def D_def)
  have pq: "foldr cf_step ?cs (?z, 1) = (p, q)" using cf(5) by (simp add: cf_value_def)
  have "p = ?z * A + B" "q = ?z * C + D" using cf_linear [of ?cs ?z 1 1 0 0 1] pq by (auto simp: A_def B_def C_def D_def)
  then have le: "A \<le> p" "C \<le> q" using nn cf(4) mult_right_mono [of 1 ?z A] mult_right_mono [of 1 ?z C] by auto
  have det: "p * C - A * q = 1 \<or> p * C - A * q = -1"
    using cf_det [of ?cs ?z 1 1 0] pq by (cases "even (length ?cs)") (auto simp: A_def C_def)
  have e1: "foldr cf_step ?cs (?z + 1, 1) = (p + A, q + C)"
    using cf_linear [of ?cs 1 ?z 1 1 1 0] pq by (auto simp: A_def C_def prod_eq_iff)
  have e2: "foldr cf_step ?cs (2 * ?z - 1, 2) = (2 * p - A, 2 * q - C)"
    using cf_linear [of ?cs 2 ?z "-1" 1 1 0] pq by (auto simp: A_def C_def prod_eq_iff)
  let ?c1 = "?cs @ [?z + 1]" and ?c2 = "?cs @ [?z - 1, 2]"
  have v1: "cf_value ?c1 = (p + A, q + C)" using e1 by (simp add: cf_value_def)
  have v2: "cf_value ?c2 = (2 * p - A, 2 * q - C)" using e2 by (simp add: cf_value_def cf_step_def butlast_append algebra_simps)
  have f1: "from_contfrac ?c1 = Inr (p + A, q + C)" using from_contfrac_ok [of ?c1] v1 cs cf(4) le assms(4,5) by auto
  have f2: "from_contfrac ?c2 = Inr (2 * p - A, 2 * q - C)" using from_contfrac_ok [of ?c2] v2 cs cf(4) nn assms(4,5) by auto
  have z: "?z \<le> max p q"
    using cf_fold_bounds [of "rev ?cs" "(?z, 1)"] cs cf(4) pq by (simp add: foldr_conv_fold)
  then have "in_int (?z + 1)" "in_int (?z - 1)" using cf(4) assms unfolding in_int_def INT_MAX_def by linarith+
  then have "upd_back (\<lambda>v. v + 1) cf = Inr ?c1" "upd_back (\<lambda>v. v - 1) cf = Inr (?cs @ [?z - 1])"
    using cf(2) by (simp_all add: upd_back_def int_res_def)
  then have "child_pair (p, q) = Inr ((p + A, q + C), (2 * p - A, 2 * q - C))"
    using cf(1) assms(2) f1 f2 by (simp add: child_pair_def to_contfrac_def)
  then show ?thesis using that nn le det by blast
qed

text \<open>Comparing the quotients of positive numbers below \<open>N\<close> compares the rational numbers.\<close>

definition exact_quot :: "int \<Rightarrow> (int \<Rightarrow> int \<Rightarrow> 'd :: linorder) \<Rightarrow> bool" where
  "exact_quot N quot \<longleftrightarrow> (\<forall>a b c d. 0 < a \<and> a < N \<and> 0 < b \<and> b < N \<and> 0 < c \<and> c < N \<and> 0 < d \<and> d < N \<longrightarrow>
     (quot a b < quot c d \<longleftrightarrow> a * d < c * b))"

section \<open>Properties\<close>

text \<open>
  C12. For a nonnegative numerator and a positive denominator of type \<^verbatim>\<open>int\<close>, \<^verbatim>\<open>to_contfrac\<close> ends with a continued fraction of nonnegative numbers, and
  \<^verbatim>\<open>from_contfrac\<close> turns it back into the same rational number in lowest terms, without overflow. A zero denominator
  fails the assertion.
\<close>

theorem contfrac_roundtrip:
  assumes "0 \<le> x" "x \<le> INT_MAX" "0 < y" "y \<le> INT_MAX"
  shows "(\<exists>cf. to_contfrac x y = Inr cf \<and> (\<forall>c \<in> set cf. 0 \<le> c) \<and> from_contfrac cf = Inr (x div gcd x y, y div gcd x y)) \<and>
    to_contfrac x 0 = Inl Assertion_failed"
proof
  have g: "0 < gcd x y" using assms(3) by simp
  have "in_int x" "in_int y" using assms unfolding in_int_def INT_MAX_def by linarith+
  then obtain cf where cf: "to_contfrac_loop x y = Inr cf" "cf \<noteq> []" "\<forall>c \<in> set cf. 0 \<le> c" "cf_value cf = (x div gcd x y, y div gcd x y)"
    using to_contfrac_loop_ok [of x y] assms by auto
  moreover have "x div gcd x y \<le> x" "y div gcd x y \<le> y" using zdiv_mono2 [of x 1 "gcd x y"] zdiv_mono2 [of y 1 "gcd x y"] g assms by auto
  ultimately show "\<exists>cf. to_contfrac x y = Inr cf \<and> (\<forall>c \<in> set cf. 0 \<le> c) \<and> from_contfrac cf = Inr (x div gcd x y, y div gcd x y)"
    using from_contfrac_ok [of cf] assms by (intro exI [of _ cf]) (auto simp: to_contfrac_def)
qed (simp add: to_contfrac_def)

theorem contfrac_roundtrip_witness:
  "\<exists>cf. to_contfrac 6 4 = Inr cf \<and> from_contfrac cf = Inr (3, 2)"
proof -
  have g: "gcd 6 4 = (2 :: int)" by code_simp
  then show ?thesis using contfrac_roundtrip [of 6 4] unfolding g by (auto simp: INT_MAX_def)
qed

text \<open>
  \<^verbatim>\<open>childs\<close> computes the Stern-Brocot tree: for a positive rational number in lowest terms it returns two positive numbers in lowest terms, the first
  smaller and the second greater, each at determinant 1 from it, which add up to three times the number.
  The quotients only need to be exact for the numbers involved.
\<close>

theorem childs_stern_brocot:
  assumes "exact_quot N quot" "0 < p" "0 < q" "gcd p q = 1" "2 * p < N" "2 * q < N" "N \<le> INT_MAX"
  shows "\<exists>l r. childs quot (p, q) = Inr (l, r) \<and> 0 < fst l \<and> 0 < snd l \<and> 0 < fst r \<and> 0 < snd r \<and>
    p * snd l - fst l * q = 1 \<and> fst r * q - p * snd r = 1 \<and> gcd (fst l) (snd l) = 1 \<and> gcd (fst r) (snd r) = 1 \<and>
    fst l + fst r = 3 * p \<and> snd l + snd r = 3 * q"
proof -
  obtain A C where c: "child_pair (p, q) = Inr ((p + A, q + C), (2 * p - A, 2 * q - C))" "0 \<le> A" "A \<le> p" "0 \<le> C" "C \<le> q"
    "p * C - A * q = 1 \<or> p * C - A * q = -1" using child_pair_ok [of p q] assms by auto
  have lt: "quot (p + A) (q + C) < quot (2 * p - A) (2 * q - C) \<longleftrightarrow> (p + A) * (2 * q - C) < (2 * p - A) * (q + C)"
    "quot (2 * p - A) (2 * q - C) < quot (p + A) (q + C) \<longleftrightarrow> (2 * p - A) * (q + C) < (p + A) * (2 * q - C)"
    using assms(1,2,3,5,6) c(2-5) unfolding exact_quot_def by auto
  have d: "(2 * p - A) * (q + C) - (p + A) * (2 * q - C) = 3 * (p * C - A * q)" by (simp add: algebra_simps)
  have cop: "gcd a b = 1" if "p * b - a * q = 1 \<or> a * q - p * b = 1" for a b
  proof -
    have "gcd a b dvd 1" using that by (metis dvd_diff dvd_mult dvd_mult2 gcd_dvd1 gcd_dvd2)
    then show ?thesis by simp
  qed
  from c(6) show ?thesis
  proof
    assume 1: "p * C - A * q = 1"
    then have "childs quot (p, q) = Inr ((p + A, q + C), (2 * p - A, 2 * q - C))"
      using lt d c(1) by (auto simp: childs_def rational_min_def rational_max_def Let_def not_le)
    then show ?thesis using 1 c(2-5) assms(2,3) cop
      by (intro exI [of _ "(p + A, q + C)"] exI [of _ "(2 * p - A, 2 * q - C)"]) (auto simp: algebra_simps)
  next
    assume 1: "p * C - A * q = -1"
    then have "childs quot (p, q) = Inr ((2 * p - A, 2 * q - C), (p + A, q + C))"
      using lt d c(1) by (auto simp: childs_def rational_min_def rational_max_def Let_def not_le)
    then show ?thesis using 1 c(2-5) assms(2,3) cop
      by (intro exI [of _ "(2 * p - A, 2 * q - C)"] exI [of _ "(p + A, q + C)"]) (auto simp: algebra_simps)
  qed
qed

definition rat_quot :: "int \<Rightarrow> int \<Rightarrow> rat" where
  "rat_quot a b = of_int a / of_int b"

text \<open>Rational quotients are exact.\<close>

lemma rat_quot_exact: "exact_quot N rat_quot"
proof -
  have "(rat_quot a b < rat_quot c d) = (a * d < c * b)" if "0 < b" "0 < d" for a b c d
  proof -
    have "(rat_quot a b < rat_quot c d) = (of_int (a * d) < (of_int (c * b) :: rat))"
      using that by (simp add: rat_quot_def divide_less_eq less_divide_eq mult.commute field_simps)
    then show ?thesis by (simp only: of_int_less_iff)
  qed
  then show ?thesis unfolding exact_quot_def by blast
qed

theorem childs_stern_brocot_witness:
  "\<exists>l r. childs rat_quot (2, 3) = Inr (l, r) \<and> fst l + fst r = 6 \<and> snd l + snd r = 9"
proof -
  have "gcd 2 3 = (1 :: int)" by code_simp
  then show ?thesis using childs_stern_brocot [OF rat_quot_exact [of 8], of 2 3] by (auto simp: INT_MAX_def)
qed

lemma child_pair_small:
  "child_pair (1, 1) = Inr ((2, 1), (1, 2))" "child_pair (1, 2) = Inr ((1, 3), (2, 3))" "child_pair (1, 3) = Inr ((1, 4), (2, 5))"
  "child_pair (2, 1) = Inr ((3, 1), (3, 2))" "child_pair (2, 3) = Inr ((3, 4), (3, 5))" "child_pair (3, 1) = Inr ((4, 1), (5, 2))"
  "child_pair (3, 2) = Inr ((4, 3), (5, 3))"
  by code_simp+

lemma childs_small:
  assumes "exact_quot 8 quot"
  shows "childs quot (1, 1) = Inr ((1, 2), (2, 1))" "childs quot (1, 2) = Inr ((1, 3), (2, 3))" "childs quot (1, 3) = Inr ((1, 4), (2, 5))"
    "childs quot (2, 1) = Inr ((3, 2), (3, 1))" "childs quot (2, 3) = Inr ((3, 5), (3, 4))" "childs quot (3, 1) = Inr ((5, 2), (4, 1))"
    "childs quot (3, 2) = Inr ((4, 3), (5, 3))"
proof -
  have less: "quot a b < quot c d \<longleftrightarrow> a * d < c * b" if "0 < a" "a < 8" "0 < b" "b < 8" "0 < c" "c < 8" "0 < d" "d < 8" for a b c d
    using assms that unfolding exact_quot_def by blast
  have le: "quot a b \<le> quot c d \<longleftrightarrow> a * d \<le> c * b" if "0 < a" "a < 8" "0 < b" "b < 8" "0 < c" "c < 8" "0 < d" "d < 8" for a b c d
    using less [of c d a b] that by (auto simp: not_less [symmetric])
  show "childs quot (1, 1) = Inr ((1, 2), (2, 1))" "childs quot (1, 2) = Inr ((1, 3), (2, 3))" "childs quot (1, 3) = Inr ((1, 4), (2, 5))"
    "childs quot (2, 1) = Inr ((3, 2), (3, 1))" "childs quot (2, 3) = Inr ((3, 5), (3, 4))" "childs quot (3, 1) = Inr ((5, 2), (4, 1))"
    "childs quot (3, 2) = Inr ((4, 3), (5, 3))"
    by (simp_all add: childs_def child_pair_small rational_min_def rational_max_def less le)
qed

text \<open>The order of the pops only depends on comparisons of the elements.\<close>

lemma pri_top_cong:
  assumes "\<forall>x \<in> insert m (set xs). \<forall>y \<in> insert m (set xs). (quot (fst x) (snd x) < quot (fst y) (snd y)) = (quot' (fst x) (snd x) < quot' (fst y) (snd y))"
  shows "pri_top quot m xs = pri_top quot' m xs"
  using assms by (induction xs arbitrary: m) auto

lemma pri_pops_cong:
  assumes "\<forall>x \<in> set pq. \<forall>y \<in> set pq. (quot (fst x) (snd x) < quot (fst y) (snd y)) = (quot' (fst x) (snd x) < quot' (fst y) (snd y))"
  shows "pri_pops quot n pq = pri_pops quot' n pq"
  using assms
proof (induction n arbitrary: pq)
  case (Suc n)
  show ?case
  proof (cases pq)
    case (Cons x xs)
    have top: "pri_top quot x xs = pri_top quot' x xs" using Suc.prems Cons by (intro pri_top_cong) simp
    let ?r = "remove1 (pri_top quot' x xs) (x # xs)"
    have "set ?r \<subseteq> set pq" using Cons set_remove1_subset by fastforce
    then have "pri_pops quot n ?r = pri_pops quot' n ?r" using Suc.prems by (intro Suc.IH) blast
    then show ?thesis using Cons top by (simp add: Let_def del: remove1.simps)
  qed simp
qed simp

text \<open>
  The three walks end, within 16 rounds, and visit the same fifteen numbers: with the stack a number, then all smaller descendants, then
  the greater ones; with the queue level by level; with the priority queue in increasing order.
\<close>

theorem sbt_walks:
  assumes "exact_quot 8 quot"
  shows "stack_walk quot (k + 16) [sbt_top] = Some (Inr [(1, 1), (1, 2), (1, 3), (1, 4), (2, 5), (2, 3), (3, 5), (3, 4),
      (2, 1), (3, 2), (4, 3), (5, 3), (3, 1), (5, 2), (4, 1)]) \<and>
    queue_walk quot (k + 16) [sbt_top] = Some (Inr [(1, 1), (1, 2), (2, 1), (1, 3), (2, 3), (3, 2), (3, 1), (1, 4),
      (2, 5), (3, 5), (3, 4), (4, 3), (5, 3), (5, 2), (4, 1)]) \<and>
    test_priqueue quot (k + 16) = Some (Inr (concat (map print_rat [(1, 4), (1, 3), (2, 5), (1, 2), (3, 5), (2, 3), (3, 4), (1, 1),
      (4, 3), (3, 2), (5, 3), (2, 1), (5, 2), (3, 1), (4, 1)])))"
proof (intro conjI)
  note step = childs_small [OF assms] small_rat_def sbt_top_def
  show "stack_walk quot (k + 16) [sbt_top] = Some (Inr [(1, 1), (1, 2), (1, 3), (1, 4), (2, 5), (2, 3), (3, 5), (3, 4),
      (2, 1), (3, 2), (4, 3), (5, 3), (3, 1), (5, 2), (4, 1)])" by (simp add: step eval_nat_numeral)
  show q: "queue_walk quot (k + 16) [sbt_top] = Some (Inr [(1, 1), (1, 2), (2, 1), (1, 3), (2, 3), (3, 2), (3, 1), (1, 4),
      (2, 5), (3, 5), (3, 4), (4, 3), (5, 3), (5, 2), (4, 1)])" by (simp add: step eval_nat_numeral)
  let ?q = "[(1, 1), (1, 2), (2, 1), (1, 3), (2, 3), (3, 2), (3, 1), (1, 4), (2, 5), (3, 5), (3, 4), (4, 3), (5, 3), (5, 2), (4, 1)] :: rational_t list"
  have small: "\<forall>x \<in> set ?q. 0 < fst x \<and> fst x < 8 \<and> 0 < snd x \<and> snd x < 8" by simp
  have sixty: "\<forall>x \<in> set ?q. \<forall>y \<in> set ?q. (fst x * snd y < fst y * snd x) = (fst x * 60 div snd x < fst y * 60 div snd y)" by code_simp
  have "\<forall>x \<in> set ?q. \<forall>y \<in> set ?q. (quot (fst x) (snd x) < quot (fst y) (snd y)) = (fst x * 60 div snd x < fst y * 60 div snd y)"
  proof (intro ballI)
    fix x y assume xy: "x \<in> set ?q" "y \<in> set ?q"
    then have "(quot (fst x) (snd x) < quot (fst y) (snd y)) = (fst x * snd y < fst y * snd x)"
      using assms small unfolding exact_quot_def by blast
    then show "(quot (fst x) (snd x) < quot (fst y) (snd y)) = (fst x * 60 div snd x < fst y * 60 div snd y)" using sixty xy by blast
  qed
  then have "pri_pops quot 15 ?q = pri_pops (\<lambda>a b. a * 60 div b) 15 ?q" by (rule pri_pops_cong)
  also have "\<dots> = [(1, 4), (1, 3), (2, 5), (1, 2), (3, 5), (2, 3), (3, 4), (1, 1), (4, 3), (3, 2), (5, 3), (2, 1), (5, 2), (3, 1), (4, 1)]"
    by code_simp
  finally have pops: "pri_pops quot 15 ?q =
    [(1, 4), (1, 3), (2, 5), (1, 2), (3, 5), (2, 3), (3, 4), (1, 1), (4, 3), (3, 2), (5, 3), (2, 1), (5, 2), (3, 1), (4, 1)]" .
  have len: "length ?q = 15" by simp
  show "test_priqueue quot (k + 16) = Some (Inr (concat (map print_rat [(1, 4), (1, 3), (2, 5), (1, 2), (3, 5), (2, 3), (3, 4), (1, 1),
      (4, 3), (3, 2), (5, 3), (2, 1), (5, 2), (3, 1), (4, 1)])))"
    unfolding test_priqueue_def q print_walk_def option.map(2) bindE_Inr len pops ..
qed

theorem sbt_walks_witness: "\<exists>fuel t. sbt_main rat_quot fuel = Some (Inr t)"
  using sbt_walks [OF rat_quot_exact [of 8], of 0]
  by (intro exI [of _ "0 + 16"]) (simp add: sbt_main_def test_stack_def test_queue_def print_walk_def)

end
