(* ===== verification/Zip_Range.thy ===== *)
theory Zip_Range
  imports Prelude
begin

text \<open>
  \<^verbatim>\<open>14-iterators/ziprange.hpp\<close> and \<^verbatim>\<open>ziptests.cc\<close>: iterating two containers in parallel. An iterator of a container is a position, the end is
  the position after the last element, and reading there is undefined behaviour. The range-based \<^verbatim>\<open>for\<close> compares with the end before every
  round; it has fuel, and \<open>None\<close> says that it was used up.
\<close>

section \<open>The iterator\<close>

record zip_iterator_t =
  Kit :: nat
  Vit :: nat

definition make_zip_iterator :: "nat \<Rightarrow> nat \<Rightarrow> zip_iterator_t" where
  "make_zip_iterator K V = \<lparr>Kit = K, Vit = V\<rparr>"

definition zip_inc :: "zip_iterator_t \<Rightarrow> zip_iterator_t" where
  "zip_inc it = it\<lparr>Kit := Kit it + 1, Vit := Vit it + 1\<rparr>"

text \<open>
  \<^verbatim>\<open>operator++(int)\<close> is declared to return a reference and returns its local copy: the reference is dangling, and reading through
  it is undefined behaviour.
\<close>

definition zip_post_inc :: "zip_iterator_t \<Rightarrow> zip_iterator_t res \<times> zip_iterator_t" where
  "zip_post_inc it = (Inl Undefined_behaviour, zip_inc it)"

definition zip_equals :: "zip_iterator_t \<Rightarrow> zip_iterator_t \<Rightarrow> bool" where
  "zip_equals it Rhs \<longleftrightarrow> Kit it = Kit Rhs \<and> Vit it = Vit Rhs"

definition zip_deref :: "'k list \<Rightarrow> 'v list \<Rightarrow> zip_iterator_t \<Rightarrow> ('k \<times> 'v) res" where
  "zip_deref ks vs it = bindE (vec_get ks (Kit it)) (\<lambda>k. bindE (vec_get vs (Vit it)) (\<lambda>v. Inr (k, v)))"

text \<open>\<^verbatim>\<open>operator->\<close> returns a proxy that holds the pair of references.\<close>

definition zip_arrow :: "'k list \<Rightarrow> 'v list \<Rightarrow> zip_iterator_t \<Rightarrow> ('k \<times> 'v) res" where
  "zip_arrow ks vs it = bindE (vec_get ks (Kit it)) (\<lambda>k. bindE (vec_get vs (Vit it)) (\<lambda>v. Inr (k, v)))"

text \<open>Assignments through the references of the pair.\<close>

definition assign_first :: "'k list \<Rightarrow> zip_iterator_t \<Rightarrow> 'k \<Rightarrow> 'k list res" where
  "assign_first ks it x = vec_set ks (Kit it) x"

definition assign_second :: "'v list \<Rightarrow> zip_iterator_t \<Rightarrow> 'v \<Rightarrow> 'v list res" where
  "assign_second vs it x = vec_set vs (Vit it) x"

definition zip_eq :: "zip_iterator_t \<Rightarrow> zip_iterator_t \<Rightarrow> bool" where
  "zip_eq Lhs Rhs = zip_equals Lhs Rhs"

definition zip_ne :: "zip_iterator_t \<Rightarrow> zip_iterator_t \<Rightarrow> bool" where
  "zip_ne Lhs Rhs = (\<not> zip_equals Lhs Rhs)"

section \<open>The range\<close>

record ('k, 'v) zip_range_t =
  Keys :: "'k list"
  Values :: "'v list"

definition make_zip_range :: "'k list \<Rightarrow> 'v list \<Rightarrow> ('k, 'v) zip_range_t" where
  "make_zip_range K V = \<lparr>Keys = K, Values = V\<rparr>"

definition zip_begin :: "('k, 'v) zip_range_t \<Rightarrow> zip_iterator_t" where
  "zip_begin r = make_zip_iterator 0 0"

definition zip_end :: "('k, 'v) zip_range_t \<Rightarrow> zip_iterator_t" where
  "zip_end r = make_zip_iterator (length (Keys r)) (length (Values r))"

fun zip_for :: "nat \<Rightarrow> ('k, 'v) zip_range_t \<Rightarrow> zip_iterator_t \<Rightarrow> zip_iterator_t \<Rightarrow> ('k \<times> 'v) list res option" where
  "zip_for 0 r it fin = None"
| "zip_for (Suc n) r it fin =
     (if \<not> zip_ne it fin then Some (Inr [])
      else case zip_deref (Keys r) (Values r) it of
        Inl e \<Rightarrow> Some (Inl e)
      | Inr x \<Rightarrow> bindO (zip_for n r (zip_inc it) fin) (\<lambda>xs. Some (Inr (x # xs))))"

text \<open>The test program; the numbers of type \<^verbatim>\<open>double\<close> are given as they are printed.\<close>

definition zip_main :: "nat \<Rightarrow> string res option" where
  "zip_main fuel =
     (let b = [False, False, True, False]; k = [1, 2, 3, 4 :: int]; v = [''4.5'', ''3.5'', ''2.5'', ''1.5''];
          zit = make_zip_iterator 0 0 in
      case bindE (zip_arrow k b zit) (\<lambda>p. bindE (vec_get k 0) (\<lambda>front. bindE (assertE (fst p = front)) (\<lambda>_.
           bindE (assign_first k zit 42) (\<lambda>k. bindE (zip_arrow k b zit) (\<lambda>p. bindE (assertE (fst p = 42)) (\<lambda>_.
           bindE (assign_second b zit True) (\<lambda>b. bindE (vec_get b 0) (\<lambda>front. bindE (assertE (front = True)) (\<lambda>_. Inr k))))))))) of
        Inl e \<Rightarrow> Some (Inl e)
      | Inr k \<Rightarrow>
          let r = make_zip_range k v in
          bindO (zip_for fuel r (zip_begin r) (zip_end r)) (\<lambda>ps.
          Some (Inr (concat (map (\<lambda>both. string_of_int (fst both) @ '' '' @ snd both @ endl) ps)))))"

section \<open>Properties\<close>

lemma zip_for_equal:
  assumes "length ks = length vs" "i \<le> length ks" "length ks - i < fuel"
  shows "zip_for fuel (make_zip_range ks vs) (make_zip_iterator i i) (zip_end (make_zip_range ks vs)) = Some (Inr (zip (drop i ks) (drop i vs)))"
  using assms(2,3)
proof (induction fuel arbitrary: i)
  case (Suc fuel)
  let ?r = "make_zip_range ks vs"
  show ?case
  proof (cases "i = length ks")
    case False
    then have i: "i < length ks" "i < length vs" using Suc.prems assms(1) by auto
    have "zip_for fuel ?r (make_zip_iterator (Suc i) (Suc i)) (zip_end ?r) = Some (Inr (zip (drop (Suc i) ks) (drop (Suc i) vs)))"
      using i Suc.prems by (intro Suc.IH) auto
    moreover have "drop i ks = ks ! i # drop (Suc i) ks" "drop i vs = vs ! i # drop (Suc i) vs" using i by (simp_all add: Cons_nth_drop_Suc)
    ultimately show ?thesis using i
      by (simp add: zip_ne_def zip_equals_def zip_end_def make_zip_range_def make_zip_iterator_def zip_deref_def zip_inc_def)
  qed (use assms(1) in \<open>simp add: zip_ne_def zip_equals_def zip_end_def make_zip_range_def make_zip_iterator_def\<close>)
qed simp

lemma zip_for_different:
  assumes "length ks \<noteq> length vs" "i \<le> min (length ks) (length vs)" "min (length ks) (length vs) - i < fuel"
  shows "zip_for fuel (make_zip_range ks vs) (make_zip_iterator i i) (zip_end (make_zip_range ks vs)) = Some (Inl Undefined_behaviour)"
  using assms(2,3)
proof (induction fuel arbitrary: i)
  case (Suc fuel)
  let ?r = "make_zip_range ks vs"
  have ne: "zip_ne (make_zip_iterator i i) (zip_end ?r)"
    using assms(1) by (auto simp: zip_ne_def zip_equals_def zip_end_def make_zip_range_def make_zip_iterator_def)
  show ?case
  proof (cases "i < min (length ks) (length vs)")
    case True
    have "zip_for fuel ?r (make_zip_iterator (Suc i) (Suc i)) (zip_end ?r) = Some (Inl Undefined_behaviour)"
      using True Suc.prems by (intro Suc.IH) auto
    then show ?thesis using True ne by (simp add: zip_deref_def make_zip_range_def make_zip_iterator_def zip_inc_def)
  next
    case False
    then have "zip_deref ks vs (make_zip_iterator i i) = Inl Undefined_behaviour"
      using Suc.prems by (auto simp: zip_deref_def make_zip_iterator_def vec_get_def)
    then show ?thesis using ne by (simp add: make_zip_range_def)
  qed
qed simp

text \<open>
  Iterating two containers of the same size visits their elements in pairs, and the loop ends after as many rounds. When
  the sizes differ, the end is never reached, because both positions are compared, and the loop reads behind the shorter container.
\<close>

theorem zip_range_iterates:
  assumes "min (length ks) (length vs) < fuel"
  shows "zip_for fuel (make_zip_range ks vs) (zip_begin (make_zip_range ks vs)) (zip_end (make_zip_range ks vs)) =
    (if length ks = length vs then Some (Inr (zip ks vs)) else Some (Inl Undefined_behaviour))"
  using zip_for_equal [of ks vs 0 fuel] zip_for_different [of ks vs 0 fuel] assms by (simp add: zip_begin_def)

theorem zip_range_iterates_witness:
  "zip_for 3 (make_zip_range [1 :: int, 2] [True, False]) (zip_begin (make_zip_range [1 :: int, 2] [True, False]))
     (zip_end (make_zip_range [1 :: int, 2] [True, False])) = Some (Inr [(1, True), (2, False)])"
  using zip_range_iterates [of "[1 :: int, 2]" "[True, False]" 3] by simp

lemma zip_main_output:
  "zip_main 5 = Some (Inr (concat (map (\<lambda>l. l @ endl) [''42 4.5'', ''2 3.5'', ''3 2.5'', ''4 1.5''])))"
  by code_simp

end
