(* ===== verification/Pcl_Archive_Front.thy ===== *)
theory Pcl_Archive_Front
  imports Pcl_Archive_Codegen Pcl_Front_Props
begin

text \<open>
  The front end of the first version of ParaCL: the actions of the grammar \<^verbatim>\<open>archive/13-llvm/01-naive/compiler.y\<close>, which
  are performed on the scopes and the table of that version, the deletion of a tree, and \<^verbatim>\<open>main\<close> of \<^verbatim>\<open>driver.cc\<close>. The grammar has the derivations
  of the later one. A lookup may insert an empty table, so that building an expression changes the state, and an error calls
  \<^verbatim>\<open>exit\<close>. The theorems relate the programs to those of the later version.
\<close>

section \<open>The actions of the grammar\<close>

text \<open>\<^verbatim>\<open>PrintError\<close> prints a diagnostic, which is left out, and exits with status 1.\<close>

definition PrintError :: "'a res" where
  "PrintError = Inl (Exited 1)"

definition old_front_access :: "string \<Rightarrow> front \<Rightarrow> (nat \<times> front) res" where
  "old_front_access x st =
     (case st of (b, ns) \<Rightarrow>
       (case old_access x b of
          None \<Rightarrow> Inl Undefined_behaviour
        | Some (d, b') \<Rightarrow>
            Inr (d, b', if fst (old_visible (Tables b) (open_scopes b) x) = None then ns @ [x] else ns)))"

fun old_build_expr :: "expr \<Rightarrow> bld \<Rightarrow> (node \<times> bld) res" where
  "old_build_expr (EBin l op r) b =
     bindE (old_build_expr l b) (\<lambda>(x, b). bindE (old_build_expr r b) (\<lambda>(y, b). Inr (Operand (Some x) op (Some y), b)))"
| "old_build_expr (ENeg e) b =
     bindE (old_build_expr e b) (\<lambda>(y, b). Inr (Operand (Some (Val 0)) Minus (Some y), b))"
| "old_build_expr (EName x) b =
     (let (t, T1) = old_visible (Tables b) (open_scopes b) x in
      case t of None \<Rightarrow> PrintError | Some d \<Rightarrow> Inr (DeclRef d, b\<lparr>Tables := T1\<rparr>))"
| "old_build_expr (EValue v) b = Inr (Val v, b)"
| "old_build_expr EInput b = Inr (Operand None StdIn None, b)"

fun old_build_lexpr :: "lexpr \<Rightarrow> bld \<Rightarrow> (node \<times> bld) res" where
  "old_build_lexpr (LExpr e) b = old_build_expr e b"
| "old_build_lexpr (LRel l op r) b =
     bindE (old_build_expr l b) (\<lambda>(x, b). bindE (old_build_expr r b) (\<lambda>(y, b). Inr (Operand (Some x) op (Some y), b)))"
| "old_build_lexpr (LOr l r) b =
     bindE (old_build_lexpr l b) (\<lambda>(x, b). bindE (old_build_lexpr r b) (\<lambda>(y, b). Inr (Operand (Some x) Or (Some y), b)))"
| "old_build_lexpr (LAnd l r) b =
     bindE (old_build_lexpr l b) (\<lambda>(x, b). bindE (old_build_lexpr r b) (\<lambda>(y, b). Inr (Operand (Some x) And (Some y), b)))"
| "old_build_lexpr (LNot e) b = bindE (old_build_lexpr e b) (\<lambda>(y, b). Inr (Operand None Not (Some y), b))"

fun old_build_stm :: "statement \<Rightarrow> front \<Rightarrow> (node \<times> front) res" and
    old_build_item :: "item \<Rightarrow> front \<Rightarrow> (node \<times> front) res" and
    old_build_stms :: "item list \<Rightarrow> front \<Rightarrow> front res" where
  "old_build_stm (SAssign x e) st =
     bindE (old_front_access x st) (\<lambda>(d, b, ns).
     bindE (old_build_expr e b) (\<lambda>(y, b). Inr (Operand (Some (DeclRef d)) Assign (Some y), b, ns)))"
| "old_build_stm (SOutput e) st =
     bindE (old_build_expr e (fst st)) (\<lambda>(y, b). Inr (Operand None StdOut (Some y), b, snd st))"
| "old_build_stm (SIf c body) st =
     bindE (old_build_lexpr c (fst st)) (\<lambda>(x, b).
     bindE (old_build_item body (scope_push b, snd st)) (\<lambda>(n, st).
     bindE (add_branch n st) (\<lambda>st.
     bindE (close_scope st) (\<lambda>(scope, st). Inr (IfN x scope, st)))))"
| "old_build_stm (SWhile c body) st =
     bindE (old_build_lexpr c (fst st)) (\<lambda>(x, b).
     bindE (old_build_item body (scope_push b, snd st)) (\<lambda>(n, st).
     bindE (add_branch n st) (\<lambda>st.
     bindE (close_scope st) (\<lambda>(scope, st). Inr (While x scope, st)))))"
| "old_build_item (Stm s) st = old_build_stm s st"
| "old_build_item (Block items) st =
     bindE (old_build_stms items (scope_push (fst st), snd st)) (\<lambda>st. close_scope st)"
| "old_build_stms [] st = Inr st"
| "old_build_stms (i # items) st =
     bindE (old_build_item i st) (\<lambda>(n, st). bindE (add_branch n st) (\<lambda>st. old_build_stms items st))"

text \<open>\<^verbatim>\<open>wholeProgramAction\<close> works on \<^verbatim>\<open>currentScope\<close>, which is still open: the tree, the names of its declarations and the table.\<close>

definition old_front_end :: "item list \<Rightarrow> (node \<times> string list \<times> Symtab) res" where
  "old_front_end p =
     bindE (old_build_stms p (createScope, [])) (\<lambda>(b, names).
       case open_scopes b of [] \<Rightarrow> Inl Undefined_behaviour | (i, branches) # _ \<Rightarrow> Inr (Scope i branches, names, Tables b))"

section \<open>Deleting a tree\<close>

text \<open>The destructors of the nodes: the declarations they delete.\<close>

fun old_node_delete :: "node \<Rightarrow> Symtab \<Rightarrow> nat list \<times> Symtab" and
    old_delete_all :: "node list \<Rightarrow> Symtab \<Rightarrow> nat list \<times> Symtab" where
  "old_node_delete (Val v) T = ([], T)"
| "old_node_delete (DeclRef d) T = ([d], T)"
| "old_node_delete (Scope i branches) T =
     (let (ds, T1) = old_delete_all branches T; (fr, T2) = old_symtab_free i T1 in
      (ds @ sorted_list_of_set fr, T2))"
| "old_node_delete (Operand left op right) T =
     (let (d1, T1) = (case left of None \<Rightarrow> ([], T) | Some n \<Rightarrow> if is_decl n then ([], T) else old_node_delete n T);
          (d2, T2) = (case right of None \<Rightarrow> ([], T1) | Some n \<Rightarrow> if is_decl n then ([], T1) else old_node_delete n T1) in
      (d1 @ d2, T2))"
| "old_node_delete (While op scope) T =
     (let (d1, T1) = (if is_decl op then ([], T) else old_node_delete op T); (d2, T2) = old_node_delete scope T1 in
      (d1 @ d2, T2))"
| "old_node_delete (IfN op scope) T =
     (let (d1, T1) = (if is_decl op then ([], T) else old_node_delete op T); (d2, T2) = old_node_delete scope T1 in
      (d1 @ d2, T2))"
| "old_delete_all [] T = ([], T)"
| "old_delete_all (n # ns) T =
     (let (d1, T1) = old_node_delete n T; (d2, T2) = old_delete_all ns T1 in (d1 @ d2, T2))"

section \<open>driver.cc\<close>

text \<open>What \<^verbatim>\<open>main\<close> finds: no argument, a file it cannot open, a text without a derivation, or a program.\<close>

datatype arguments = No_argument | No_file | No_derivation | Program "item list"

text \<open>\<^verbatim>\<open>main\<close> of the interpreter: its exit status and its output. Deleting the tree at the end prints nothing.\<close>

definition old_interpreter_main :: "nat \<Rightarrow> (Operation \<Rightarrow> bool) \<Rightarrow> arguments \<Rightarrow> string \<Rightarrow> (nat \<times> string) res option" where
  "old_interpreter_main k ord arg inp =
     (case arg of
        No_argument \<Rightarrow> Some (Inr (0, []))
      | No_file \<Rightarrow> Some (Inr (1, []))
      | No_derivation \<Rightarrow> Some (Inr (1, []))
      | Program p \<Rightarrow>
          (case old_front_end p of
             Inl e \<Rightarrow> Some (case e of Exited c \<Rightarrow> Inr (c, []) | _ \<Rightarrow> Inl e)
           | Inr (tree, _) \<Rightarrow>
               (case old_calc k ord tree \<lparr>vals = (\<lambda>_. None), stdin = Some inp, stdout = []\<rparr> of
                  None \<Rightarrow> None
                | Some (Inr _, s) \<Rightarrow> Some (Inr (0, stdout s))
                | Some (Inl e, s) \<Rightarrow> Some (case e of Exited c \<Rightarrow> Inr (c, stdout s) | _ \<Rightarrow> Inl e))))"

text \<open>\<^verbatim>\<open>main\<close> of the compiler: its exit status, the module it saves and its output. An error of the output file is only reported.\<close>

definition old_compiler_main :: "bool \<Rightarrow> string \<Rightarrow> arguments \<Rightarrow> (nat \<times> CodeGen option \<times> string) res" where
  "old_compiler_main has_error filename arg =
     (case arg of
        No_argument \<Rightarrow> Inr (0, None, [])
      | No_file \<Rightarrow> Inr (1, None, [])
      | No_derivation \<Rightarrow> Inr (1, None, [])
      | Program p \<Rightarrow>
          (case old_front_end p of
             Inl e \<Rightarrow> (case e of Exited c \<Rightarrow> Inr (c, None, []) | _ \<Rightarrow> Inl e)
           | Inr (tree, names, _) \<Rightarrow>
               bindE (old_compile (decl_name names) names tree) (\<lambda>G.
                 Inr (0, if has_error then None else Some G, ''Saving module to: '' @ filename @ ''.ll'' @ [CHR 0x0A]))))"

end
