(* ===== verification/Pcl_Archive_Front_Props.thy ===== *)
theory Pcl_Archive_Front_Props
  imports Pcl_Archive_Front
begin

text \<open>
  The two front ends build the same trees, and the first interpreter does what the later one does, up to the way an error
  ends it. Deleting the tree of a program frees every declaration exactly once in both versions.
\<close>

section \<open>The actions agree\<close>

text \<open>A result of the later version and one of the first: an error of the grammar is an exit there, and values are related.\<close>

definition old_err :: "cxx_error \<Rightarrow> cxx_error" where
  "old_err e = (if e = parse_error then Exited 1 else e)"

definition agree :: "('a \<Rightarrow> 'b \<Rightarrow> bool) \<Rightarrow> 'a res \<Rightarrow> 'b res \<Rightarrow> bool" where
  "agree R r r' \<longleftrightarrow> rel_sum (\<lambda>e e'. e' = old_err e) R r r'"

lemma agree_simps [simp]:
  "agree R (Inr x) (Inr y) \<longleftrightarrow> R x y" "agree R (Inl e) (Inl e') \<longleftrightarrow> e' = old_err e"
  "\<not> agree R (Inr x) (Inl e')" "\<not> agree R (Inl e) (Inr y)"
  by (simp_all add: agree_def)

lemma old_err_simps [simp]:
  "old_err parse_error = Exited 1" "old_err Undefined_behaviour = Undefined_behaviour"
  by (simp_all add: old_err_def parse_error_def)

lemma agree_bind:
  "agree R r r' \<Longrightarrow> (\<And>x y. R x y \<Longrightarrow> agree S (f x) (g y)) \<Longrightarrow> agree S (bindE r f) (bindE r' g)"
  by (cases r; cases r') simp_all

lemma agree_mono: "agree R r r' \<Longrightarrow> (\<And>x y. R x y \<Longrightarrow> S x y) \<Longrightarrow> agree S r r'"
  by (cases r; cases r') simp_all

text \<open>States, and nodes with states.\<close>

fun st_sim :: "front \<Rightarrow> front \<Rightarrow> bool" where
  "st_sim (b', ns') (b, ns) \<longleftrightarrow> ns = ns' \<and> bld_sim b b'"

fun node_sim :: "node \<times> front \<Rightarrow> node \<times> front \<Rightarrow> bool" where
  "node_sim (n', st') (n, st) \<longleftrightarrow> n = n' \<and> st_sim st' st"

lemma bld_sim_visible:
  assumes "bld_sim b b'"
  shows "fst (old_visible (Tables b) (open_scopes b) x) = scope_visible x b'"
    "bld_sim (b\<lparr>Tables := snd (old_visible (Tables b) (open_scopes b) x)\<rparr>) b'"
proof -
  have "visible_in (Tables b) (open_scopes b) x = visible_in (Tables b') (open_scopes b') x"
    using assms by (auto simp: bld_sim_def intro!: visible_in_cong)
  then show "fst (old_visible (Tables b) (open_scopes b) x) = scope_visible x b'"
    using old_visible_correct by (simp add: scope_visible_def)
  show "bld_sim (b\<lparr>Tables := snd (old_visible (Tables b) (open_scopes b) x)\<rparr>) b'"
    using assms old_visible_correct by (simp add: bld_sim_def)
qed

lemma bld_sim_push: "bld_sim b b' \<Longrightarrow> bld_sim (scope_push b) (scope_push b')"
  by (simp add: bld_sim_def scope_push_def)

lemma build_expr_agrees:
  "bld_sim b b' \<Longrightarrow> agree (\<lambda>n' (n, c). n = n' \<and> bld_sim c b') (build_expr e b') (old_build_expr e b)"
proof (induction e arbitrary: b)
  case (EName x)
  obtain t T1 where t: "old_visible (Tables b) (open_scopes b) x = (t, T1)" by (cases "old_visible (Tables b) (open_scopes b) x")
  then show ?case using bld_sim_visible [OF EName, of x] by (auto simp: PrintError_def split: option.split)
qed (auto simp: makeOperand_def makeValue_def intro!: agree_bind)

lemma build_lexpr_agrees:
  "bld_sim b b' \<Longrightarrow> agree (\<lambda>n' (n, c). n = n' \<and> bld_sim c b') (build_lexpr e b') (old_build_lexpr e b)"
  by (induction e arbitrary: b) (auto simp: makeOperand_def intro!: agree_bind build_expr_agrees)

lemma front_access_agrees:
  "st_sim st' st \<Longrightarrow> agree (\<lambda>(d', st') (d, st). d = d' \<and> st_sim st' st) (front_access x st') (old_front_access x st)"
proof -
  obtain b' ns' b ns where st: "st' = (b', ns')" "st = (b, ns)" by (metis surj_pair)
  assume "st_sim st' st"
  then have sim: "ns = ns'" "bld_sim b b'" using st by simp_all
  show ?thesis using old_access_refines [OF sim(2), of x] bld_sim_visible(1) [OF sim(2), of x] sim(1) st
    by (auto simp: front_access_def old_front_access_def split: option.splits)
qed

lemma add_branch_agrees: "st_sim st' st \<Longrightarrow> agree st_sim (add_branch n st') (add_branch n st)"
  by (cases st'; cases st) (auto simp: add_branch_def scope_addBranch_def bld_sim_def split: list.split)

lemma close_scope_agrees: "st_sim st' st \<Longrightarrow> agree node_sim (close_scope st') (close_scope st)"
  by (cases st'; cases st) (auto simp: close_scope_def scope_reset_def bld_sim_def split: list.split)

lemma push_agrees: "st_sim st' st \<Longrightarrow> st_sim (scope_push (fst st'), snd st') (scope_push (fst st), snd st)"
  by (cases st'; cases st) (simp add: bld_sim_push)

text \<open>The end of an \<^verbatim>\<open>if\<close> or a \<^verbatim>\<open>while\<close>, after its body.\<close>

lemma end_agrees:
  assumes "agree node_sim r r'" "mk = mk'"
  shows "agree node_sim
    (bindE r (\<lambda>(n, st). bindE (add_branch n st) (\<lambda>st. bindE (close_scope st) (\<lambda>(scope, st). Inr (mk scope, st)))))
    (bindE r' (\<lambda>(n, st). bindE (add_branch n st) (\<lambda>st. bindE (close_scope st) (\<lambda>(scope, st). Inr (mk' scope, st)))))"
  using assms(2) by (auto intro!: agree_bind [OF assms(1)] agree_bind [OF add_branch_agrees] agree_bind [OF close_scope_agrees])

lemma build_agrees:
  "st_sim st' st \<Longrightarrow> agree node_sim (build_stm s st') (old_build_stm s st)"
  "st_sim st' st \<Longrightarrow> agree node_sim (build_item i st') (old_build_item i st)"
  "st_sim st' st \<Longrightarrow> agree st_sim (build_stms is st') (old_build_stms is st)"
proof (induction s st and i st and "is" st arbitrary: st' and st' and st' rule: old_build_stm_old_build_item_old_build_stms.induct)
  case (1 x e st)
  show ?case unfolding build_stm.simps old_build_stm.simps
    by (rule agree_bind [OF front_access_agrees [OF 1]])
      (auto simp: makeOperand_def intro!: agree_bind [OF build_expr_agrees])
next
  case (2 e st)
  obtain b' b ns where st: "st' = (b', ns)" "st = (b, ns)" "bld_sim b b'" using 2 by (cases st; cases st') auto
  then show ?case by (auto simp: makeOperand_def intro!: agree_bind [OF build_expr_agrees])
next
  case (3 c body st)
  have sim: "bld_sim (fst st) (fst st')" "snd st = snd st'" using 3(2) by (cases st; cases st'; simp)+
  show ?case unfolding build_stm.simps old_build_stm.simps
  proof (rule agree_bind [OF build_lexpr_agrees [OF sim(1)]], goal_cases)
    case (1 x y)
    then obtain b where y: "y = (x, b)" "bld_sim b (fst st')" by auto
    have "agree node_sim (build_item body (scope_push (fst st'), snd st')) (old_build_item body (scope_push b, snd st))"
      by (rule 3(1)) (use y sim(2) bld_sim_push in simp_all)
    then show ?case using end_agrees [where mk = "makeIf x" and mk' = "IfN x"] y(1) by (simp add: makeIf_def fun_eq_iff)
  qed
next
  case (4 c body st)
  have sim: "bld_sim (fst st) (fst st')" "snd st = snd st'" using 4(2) by (cases st; cases st'; simp)+
  show ?case unfolding build_stm.simps old_build_stm.simps
  proof (rule agree_bind [OF build_lexpr_agrees [OF sim(1)]], goal_cases)
    case (1 x y)
    then obtain b where y: "y = (x, b)" "bld_sim b (fst st')" by auto
    have "agree node_sim (build_item body (scope_push (fst st'), snd st')) (old_build_item body (scope_push b, snd st))"
      by (rule 4(1)) (use y sim(2) bld_sim_push in simp_all)
    then show ?case using end_agrees [where mk = "makeWhile x" and mk' = "While x"] y(1) by (simp add: makeWhile_def fun_eq_iff)
  qed
next
  case (6 items st)
  then show ?case by (auto intro!: agree_bind [OF 6(1)] push_agrees close_scope_agrees)
next
  case (8 i items st)
  show ?case unfolding build_stms.simps old_build_stms.simps
  proof (rule agree_bind [OF 8(1) [OF 8(3)]], goal_cases)
    case (1 x y)
    then obtain n s' s where xy: "x = (n, s')" "y = (n, s)" "st_sim s' s" by (cases x; cases y) auto
    show ?case using agree_bind [OF add_branch_agrees [OF xy(3)] 8(2)] xy(1,2) by simp
  qed
qed simp_all


lemma front_end_agrees: "agree (\<lambda>(t', ns') (t, ns, T). t = t' \<and> ns = ns') (front_end p) (old_front_end p)"
proof -
  have start: "st_sim (createScope, []) (createScope, [])" by (simp add: bld_sim_def)
  show ?thesis unfolding front_end_def old_front_end_def
  proof (rule agree_bind [OF build_agrees(3) [OF start]], goal_cases)
    case (1 x y)
    then show ?case by (cases x; cases y) (auto simp: close_scope_def scope_reset_def bld_sim_def split: list.split)
  qed
qed

section \<open>Trees of the grammar\<close>

text \<open>The operators the rules of the grammar have.\<close>

fun well_expr :: "expr \<Rightarrow> bool" where
  "well_expr (EBin l op r) = (well_expr l \<and> well_expr r \<and> op \<in> {Plus, Minus, Mul, Div, Mod})"
| "well_expr (ENeg e) = well_expr e"
| "well_expr _ = True"

fun well_lexpr :: "lexpr \<Rightarrow> bool" where
  "well_lexpr (LExpr e) = well_expr e"
| "well_lexpr (LRel l op r) = (well_expr l \<and> well_expr r \<and> is_rel op)"
| "well_lexpr (LOr l r) = (well_lexpr l \<and> well_lexpr r)"
| "well_lexpr (LAnd l r) = (well_lexpr l \<and> well_lexpr r)"
| "well_lexpr (LNot e) = well_lexpr e"

fun well :: "statement \<Rightarrow> bool" and well_item :: "item \<Rightarrow> bool" and well_items :: "item list \<Rightarrow> bool" where
  "well (SAssign x e) = well_expr e"
| "well (SOutput e) = well_expr e"
| "well (SIf c b) = (well_lexpr c \<and> well_item b)"
| "well (SWhile c b) = (well_lexpr c \<and> well_item b)"
| "well_item (Stm s) = well s"
| "well_item (Block is) = well_items is"
| "well_items [] = True"
| "well_items (i # is) = (well_item i \<and> well_items is)"

text \<open>The scopes of a tree in the order of their deletion, and trees in which no declaration is deleted as a node.\<close>

fun scopes_of :: "node \<Rightarrow> nat list" and scopes_opt :: "node option \<Rightarrow> nat list" where
  "scopes_of (Val v) = []"
| "scopes_of (DeclRef d) = []"
| "scopes_of (Scope i bs) = concat (map scopes_of bs) @ [i]"
| "scopes_of (Operand l op r) = scopes_opt l @ scopes_opt r"
| "scopes_of (While c b) = scopes_of c @ scopes_of b"
| "scopes_of (IfN c b) = scopes_of c @ scopes_of b"
| "scopes_opt None = []"
| "scopes_opt (Some n) = scopes_of n"

fun no_bare :: "node \<Rightarrow> bool" and no_bare_opt :: "node option \<Rightarrow> bool" where
  "no_bare (Val v) = True"
| "no_bare (DeclRef d) = False"
| "no_bare (Scope i bs) = (\<forall>b \<in> set bs. no_bare b)"
| "no_bare (Operand l op r) = (no_bare_opt l \<and> no_bare_opt r)"
| "no_bare (While c b) = ((is_decl c \<or> no_bare c) \<and> no_bare b)"
| "no_bare (IfN c b) = ((is_decl c \<or> no_bare c) \<and> no_bare b)"
| "no_bare_opt None = True"
| "no_bare_opt (Some n) = (is_decl n \<or> no_bare n)"

text \<open>What the rules of expressions build: no scopes, and no print statement when the operators are those of the grammar.\<close>

definition expr_tree :: "bool \<Rightarrow> node \<Rightarrow> bool" where
  "expr_tree w n \<longleftrightarrow> scopes_of n = [] \<and> (is_decl n \<or> no_bare n) \<and> (w \<longrightarrow> quiet n \<and> \<not> is_print n)"

lemma build_expr_tree: "build_expr e b = Inr n \<Longrightarrow> expr_tree (well_expr e) n"
  by (induction e arbitrary: n)
    (auto simp: bindE_eq_Inr_iff makeOperand_def makeValue_def expr_tree_def is_decl_def split: option.splits)

lemma build_lexpr_tree: "build_lexpr c b = Inr n \<Longrightarrow> expr_tree (well_lexpr c) n"
proof (induction c arbitrary: n)
  case (LRel l op r)
  then obtain x y where "build_expr l b = Inr x" "build_expr r b = Inr y" "n = Operand (Some x) op (Some y)"
    by (auto simp: bindE_eq_Inr_iff makeOperand_def)
  then show ?case using build_expr_tree [of l b x] build_expr_tree [of r b y]
    by (cases op) (auto simp: expr_tree_def is_decl_def is_rel_def)
qed (auto simp: bindE_eq_Inr_iff makeOperand_def expr_tree_def is_decl_def dest!: build_expr_tree)

section \<open>Every declaration has one place\<close>

text \<open>Every declaration made so far is in the tables under one scope and one name.\<close>

definition placed :: "Symtab \<Rightarrow> nat \<Rightarrow> bool" where
  "placed T n \<longleftrightarrow> (\<forall>d. (\<exists>i x. symtab_exists i x T = Some d) \<longleftrightarrow> d < n) \<and>
     (\<forall>i x j y d. symtab_exists i x T = Some d \<longrightarrow> symtab_exists j y T = Some d \<longrightarrow> i = j \<and> x = y)"

definition decl_inv :: "front \<Rightarrow> bool" where
  "decl_inv st \<longleftrightarrow> bld_inv (fst st) \<and> next_decl (fst st) = length (snd st) \<and> placed (Tables (fst st)) (length (snd st))"

lemma placed_add:
  assumes "placed T n" "symtab_exists i x T = None"
  shows "placed (symtab_add i x n T) (Suc n)"
proof -
  note t = st.lookup_add [of _ _ i x n T]
  have dom: "(\<exists>j y. symtab_exists j y T = Some e) \<longleftrightarrow> e < n" for e using assms(1) by (simp add: placed_def)
  have inj: "symtab_exists j y T = Some e \<Longrightarrow> symtab_exists k z T = Some e \<Longrightarrow> j = k \<and> y = z" for j y k z e
    using assms(1) unfolding placed_def by blast
  have "(\<exists>j y. symtab_exists j y (symtab_add i x n T) = Some e) \<longleftrightarrow> e < Suc n" for e
    using dom [of e] assms(2) unfolding t by (metis less_Suc_eq option.distinct(1) option.inject)
  moreover have "symtab_exists j y (symtab_add i x n T) = Some e \<Longrightarrow> symtab_exists k z (symtab_add i x n T) = Some e \<Longrightarrow> j = k \<and> y = z" for j y k z e
    using inj [of j y e k z] dom [of e] unfolding t by (auto split: if_splits)
  ultimately show ?thesis unfolding placed_def by blast
qed

lemma decl_inv_start: "decl_inv (createScope, [])"
  using bld_inv_create by (simp add: decl_inv_def createScope_def placed_def symtab_exists_def)

lemma decl_inv_push: "decl_inv st \<Longrightarrow> decl_inv (scope_push (fst st), snd st)"
  using bld_inv_push [of "fst st"] by (simp add: decl_inv_def scope_push_def)

lemma front_access_inv:
  assumes "decl_inv st" "front_access x st = Inr (d, st')"
  shows "decl_inv st' \<and> open_scopes (fst st') = open_scopes (fst st) \<and> next_scope (fst st') = next_scope (fst st)"
proof -
  obtain b ns where st: "st = (b, ns)" by (cases st)
  show ?thesis
  proof (cases "open_scopes b")
    case Nil
    then show ?thesis using assms(2) st by (simp add: front_access_def scope_access_def scope_visible_def)
  next
    case (Cons p outer)
    obtain i bs where o: "open_scopes b = (i, bs) # outer" using Cons by (cases p) simp
    have inv: "bld_inv b" using assms(1) st by (simp add: decl_inv_def)
    from inv o show ?thesis
    proof (cases rule: scope_access_cases [where x = x])
      case (old d)
      then show ?thesis using assms st by (auto simp: front_access_def)
    next
      case (new b')
      have n: "next_decl b = length ns" using assms(1) st by (simp add: decl_inv_def)
      have st': "st' = (b', ns @ [x])" using assms(2) st new(1,2) by (simp add: front_access_def)
      have none: "symtab_exists i x (Tables b) = None"
        using new(1) o by (simp add: scope_visible_def split: option.splits)
      have "placed (Tables b') (Suc (length ns))" unfolding new(7) n
        by (rule placed_add [OF _ none]) (use assms(1) st in \<open>simp add: decl_inv_def\<close>)
      then show ?thesis using st' new(3,4,5,6) n st by (simp add: decl_inv_def)
    qed
  qed
qed

section \<open>The trees of statements\<close>

text \<open>
  A statement or scope turns the state \<open>st\<close> into \<open>st'\<close> and becomes \<open>n\<close>: the scopes of \<open>n\<close> are those that were opened since, each once,
  and all are closed again.
\<close>

definition opens :: "bool \<Rightarrow> front \<Rightarrow> node list \<Rightarrow> front \<Rightarrow> bool" where
  "opens w st ns st' \<longleftrightarrow> decl_inv st' \<and> next_scope (fst st) \<le> next_scope (fst st') \<and>
     distinct (concat (map scopes_of ns)) \<and> set (concat (map scopes_of ns)) = {next_scope (fst st) ..< next_scope (fst st')} \<and>
     (\<forall>n \<in> set ns. no_bare n \<and> (w \<longrightarrow> quiet n))"

definition adds :: "node list \<Rightarrow> front \<Rightarrow> front \<Rightarrow> bool" where
  "adds ns st st' \<longleftrightarrow> (\<exists>i bs outer. open_scopes (fst st) = (i, bs) # outer \<and> open_scopes (fst st') = (i, bs @ ns) # outer)"

lemma bld_inv_top:
  assumes "bld_inv b" "open_scopes b = (i, bs) # outer"
  shows "bld_inv (b\<lparr>open_scopes := (i, bs') # outer\<rparr>)" "bld_inv (b\<lparr>open_scopes := outer\<rparr>)"
  using assms by (simp_all add: bld_inv_def)

lemma add_branch_inv:
  assumes "decl_inv st" "add_branch n st = Inr st'"
  shows "decl_inv st' \<and> next_scope (fst st') = next_scope (fst st) \<and> adds [n] st st'"
proof -
  obtain i bs outer where o: "open_scopes (fst st) = (i, bs) # outer" "st' = (fst st\<lparr>open_scopes := (i, bs @ [n]) # outer\<rparr>, snd st)"
    using assms(2) by (auto simp: add_branch_def scope_addBranch_def split: option.splits list.splits)
  then show ?thesis using assms(1) bld_inv_top(1) [of "fst st" i bs outer "bs @ [n]"] by (simp add: decl_inv_def adds_def)
qed

lemma close_scope_inv:
  assumes "decl_inv st" "close_scope st = Inr (n, st')"
  shows "decl_inv st' \<and> next_scope (fst st') = next_scope (fst st) \<and>
    (\<exists>i bs. n = Scope i bs \<and> open_scopes (fst st) = (i, bs) # open_scopes (fst st'))"
proof -
  obtain i bs outer where o: "open_scopes (fst st) = (i, bs) # outer" "n = Scope i bs" "st' = (fst st\<lparr>open_scopes := outer\<rparr>, snd st)"
    using assms(2) by (auto simp: close_scope_def scope_reset_def split: option.splits list.splits)
  then show ?thesis using assms(1) bld_inv_top(2) [of "fst st" i bs outer] by (simp add: decl_inv_def)
qed

text \<open>A scope that was opened, filled and closed.\<close>

lemma opens_scope:
  assumes "opens w (scope_push (fst st), snd st) ns st1" "adds ns (scope_push (fst st), snd st) st1" "close_scope st1 = Inr (n, st')"
  shows "opens w st [n] st' \<and> open_scopes (fst st') = open_scopes (fst st) \<and> n = Scope (next_scope (fst st)) ns"
proof -
  have inv: "decl_inv st1" using assms(1) by (simp add: opens_def)
  have o: "open_scopes (fst st1) = (next_scope (fst st), ns) # open_scopes (fst st)"
    using assms(2) by (auto simp: adds_def scope_push_def)
  have n: "n = Scope (next_scope (fst st)) ns" "open_scopes (fst st') = open_scopes (fst st)" "decl_inv st'" "next_scope (fst st') = next_scope (fst st1)"
    using close_scope_inv [OF inv assms(3)] o by auto
  have g: "distinct (concat (map scopes_of ns))" "set (concat (map scopes_of ns)) = {Suc (next_scope (fst st)) ..< next_scope (fst st1)}"
    "Suc (next_scope (fst st)) \<le> next_scope (fst st1)" "\<forall>n \<in> set ns. no_bare n \<and> (w \<longrightarrow> quiet n)"
    using assms(1) by (simp_all add: opens_def scope_push_def)
  have "set (concat (map scopes_of [n])) = {next_scope (fst st) ..< next_scope (fst st')}"
    using g(2,3) n(1,4) by auto
  moreover have "next_scope (fst st) \<notin> set (concat (map scopes_of ns))" using g(2) by simp
  ultimately show ?thesis using g n by (simp add: opens_def)
qed

text \<open>The end of an \<^verbatim>\<open>if\<close> or a \<^verbatim>\<open>while\<close>.\<close>

lemma opens_control:
  assumes "opens w (scope_push (fst st), snd st) [m] st1" "open_scopes (fst st1) = open_scopes (scope_push (fst st))"
    "add_branch m st1 = Inr st2" "close_scope st2 = Inr (sc, st')" "expr_tree v c" "mk = IfN \<or> mk = While"
  shows "opens (w \<and> v) st [mk c sc] st' \<and> open_scopes (fst st') = open_scopes (fst st)"
proof -
  have inv: "decl_inv st1" using assms(1) by (simp add: opens_def)
  note a = add_branch_inv [OF inv assms(3)]
  have g: "opens w (scope_push (fst st), snd st) [m] st2" using assms(1) a by (simp add: opens_def)
  have "adds [m] (scope_push (fst st), snd st) st2" using a assms(2) by (auto simp: adds_def)
  from opens_scope [OF g this assms(4)] obtain
    sc: "opens w st [sc] st'" "open_scopes (fst st') = open_scopes (fst st)" by blast
  have "scopes_of (mk c sc) = scopes_of sc" "no_bare (mk c sc) = no_bare sc" "w \<and> v \<longrightarrow> quiet (mk c sc) = quiet sc"
    using assms(5,6) by (auto simp: expr_tree_def)
  then show ?thesis using sc by (auto simp: opens_def)
qed

lemma opens_expr:
  assumes "decl_inv st'" "open_scopes (fst st') = open_scopes (fst st)" "next_scope (fst st') = next_scope (fst st)"
    "expr_tree w y" "op = Assign \<and> l = Some (DeclRef d) \<or> op = StdOut \<and> l = None"
  shows "opens w st [Operand l op (Some y)] st'"
  using assms by (auto simp: opens_def expr_tree_def is_decl_def)

lemma opens_append:
  assumes "opens w st [n] st1" "opens v st2 ns st'" "next_scope (fst st2) = next_scope (fst st1)"
  shows "opens (w \<and> v) st (n # ns) st'"
  using assms by (auto simp: opens_def)

lemma adds_append:
  assumes "open_scopes (fst st1) = open_scopes (fst st)" "adds [n] st1 st2" "adds ns st2 st'"
  shows "adds (n # ns) st st'"
  using assms by (auto simp: adds_def)

lemma build_opens:
  "decl_inv st \<Longrightarrow> build_stm s st = Inr (n, st') \<Longrightarrow> opens (well s) st [n] st' \<and> open_scopes (fst st') = open_scopes (fst st)"
  "decl_inv st \<Longrightarrow> build_item i st = Inr (n, st') \<Longrightarrow> opens (well_item i) st [n] st' \<and> open_scopes (fst st') = open_scopes (fst st)"
  "decl_inv st \<Longrightarrow> open_scopes (fst st) \<noteq> [] \<Longrightarrow> build_stms is st = Inr st' \<Longrightarrow>
     \<exists>ns. opens (well_items is) st ns st' \<and> adds ns st st'"
proof (induction s st and i st and "is" st arbitrary: n st' and n st' and st' rule: build_stm_build_item_build_stms.induct)
  case (1 x e st)
  obtain d st1 y where a: "front_access x st = Inr (d, st1)" "build_expr e (fst st1) = Inr y"
      "n = Operand (Some (DeclRef d)) Assign (Some y)" "st' = st1"
    using 1(2) by (auto simp: bindE_eq_Inr_iff makeOperand_def)
  have "opens (well (SAssign x e)) st [n] st'" unfolding a(3)
    by (rule opens_expr [where d = d]) (use front_access_inv [OF 1(1) a(1)] build_expr_tree [OF a(2)] a(4) in simp_all)
  then show ?case using front_access_inv [OF 1(1) a(1)] a(4) by simp
next
  case (2 e st)
  obtain y where a: "build_expr e (fst st) = Inr y" "n = Operand None StdOut (Some y)" "st' = st"
    using 2(2) by (auto simp: bindE_eq_Inr_iff makeOperand_def)
  have "opens (well (SOutput e)) st [n] st'" unfolding a(2)
    by (rule opens_expr) (use 2(1) build_expr_tree [OF a(1)] a(3) in simp_all)
  then show ?case using a(3) by simp
next
  case (3 c body st)
  obtain x m st1 st2 sc where a: "build_lexpr c (fst st) = Inr x" "build_item body (scope_push (fst st), snd st) = Inr (m, st1)"
      "add_branch m st1 = Inr st2" "close_scope st2 = Inr (sc, st')" "n = IfN x sc"
    using 3(3) by (auto simp: bindE_eq_Inr_iff makeIf_def)
  note IH = 3(1) [OF decl_inv_push [OF 3(2)] a(2)]
  show ?case using opens_control [OF conjunct1 [OF IH] _ a(3,4) build_lexpr_tree [OF a(1)], of IfN] IH a(5) by (simp add: conj_commute)
next
  case (4 c body st)
  obtain x m st1 st2 sc where a: "build_lexpr c (fst st) = Inr x" "build_item body (scope_push (fst st), snd st) = Inr (m, st1)"
      "add_branch m st1 = Inr st2" "close_scope st2 = Inr (sc, st')" "n = While x sc"
    using 4(3) by (auto simp: bindE_eq_Inr_iff makeWhile_def)
  note IH = 4(1) [OF decl_inv_push [OF 4(2)] a(2)]
  show ?case using opens_control [OF conjunct1 [OF IH] _ a(3,4) build_lexpr_tree [OF a(1)], of While] IH a(5) by (simp add: conj_commute)
next
  case (6 items st)
  obtain st1 where a: "build_stms items (scope_push (fst st), snd st) = Inr st1" "close_scope st1 = Inr (n, st')"
    using 6(3) by (auto simp: bindE_eq_Inr_iff)
  obtain ns where "opens (well_items items) (scope_push (fst st), snd st) ns st1" "adds ns (scope_push (fst st), snd st) st1"
    using 6(1) [OF decl_inv_push [OF 6(2)] _ a(1)] by (auto simp: scope_push_def)
  from opens_scope [OF this a(2)] show ?case unfolding well_item.simps by blast
next
  case (7 st)
  then have "opens True st [] st'" "adds [] st st'" by (auto simp: opens_def adds_def neq_Nil_conv)
  then show ?case by auto
next
  case (8 i items st)
  obtain n st1 st2 where a: "build_item i st = Inr (n, st1)" "add_branch n st1 = Inr st2" "build_stms items st2 = Inr st'"
    using 8(5) by (auto simp: bindE_eq_Inr_iff)
  have g: "opens (well_item i) st [n] st1" "open_scopes (fst st1) = open_scopes (fst st)" using 8(1) [OF 8(3) a(1)] by auto
  have b: "decl_inv st2" "next_scope (fst st2) = next_scope (fst st1)" "adds [n] st1 st2"
    using add_branch_inv [OF _ a(2)] g(1) by (auto simp: opens_def)
  have ne: "open_scopes (fst st2) \<noteq> []" using b(3) by (auto simp: adds_def)
  obtain ns where ns: "opens (well_items items) st2 ns st'" "adds ns st2 st'"
    using 8(2) [OF b(1) ne a(3)] by blast
  then show ?case using opens_append [OF g(1) ns(1) b(2)] adds_append [OF g(2) b(3) ns(2)] by auto
qed simp

section \<open>Deleting trees\<close>

text \<open>The declarations of a scope, in the order in which they are deleted.\<close>

definition table_decls :: "Symtab \<Rightarrow> nat \<Rightarrow> nat list" where
  "table_decls T i = sorted_list_of_set {d. \<exists>x. symtab_exists i x T = Some d}"

definition without :: "nat list \<Rightarrow> Symtab \<Rightarrow> Symtab \<Rightarrow> bool" where
  "without is T T' \<longleftrightarrow> (\<forall>i x. symtab_exists i x T' = (if i \<in> set is then None else symtab_exists i x T))"

lemma without_simps [simp]: "without [] T T"
  by (simp add: without_def)

lemma without_trans: "without is T T1 \<Longrightarrow> without js T1 T2 \<Longrightarrow> without (is @ js) T T2"
  by (auto simp: without_def)

lemma table_decls_without: "without is T T' \<Longrightarrow> i \<notin> set is \<Longrightarrow> table_decls T' i = table_decls T i"
  by (simp add: table_decls_def without_def)

lemma concat_without:
  assumes "without is T T'" "set is \<inter> set js = {}"
  shows "concat (map (table_decls T') js) = concat (map (table_decls T) js)"
proof -
  have "\<forall>i \<in> set js. table_decls T' i = table_decls T i" using table_decls_without [OF assms(1)] assms(2) by blast
  then show ?thesis by (simp cong: map_cong)
qed

text \<open>Both destructors delete the declarations of the scopes of the tree.\<close>

definition deletes :: "nat list \<times> Symtab \<Rightarrow> nat list \<Rightarrow> Symtab \<Rightarrow> bool" where
  "deletes r is T \<longleftrightarrow> fst r = concat (map (table_decls T) is) \<and> without is T (snd r)"

lemma deletes_nil [simp]: "deletes ([], T) [] T"
  by (simp add: deletes_def)

lemma deletes_append:
  assumes "deletes (d1, T1) is T" "deletes (d2, T2) js T1" "distinct (is @ js)"
  shows "deletes (d1 @ d2, T2) (is @ js) T"
  using assms concat_without [of "is" T T1 js] by (auto simp: deletes_def intro: without_trans)

lemma symtab_free_deletes: "symtab_free i T = (fr, T') \<Longrightarrow> deletes (sorted_list_of_set fr, T') [i] T"
  using st.released [of i T] st.lookup_release [of _ _ i T] by (auto simp: deletes_def table_decls_def without_def)

lemma old_symtab_free_deletes: "old_symtab_free i T = (fr, T') \<Longrightarrow> deletes (sorted_list_of_set fr, T') [i] T"
  using old_st.released [of i T] old_st.lookup_release [of _ _ i T]
  by (auto simp: deletes_def table_decls_def without_def old_exists_fst)

lemma is_decl_scopes: "is_decl n \<Longrightarrow> scopes_of n = []"
  by (simp add: is_decl_def split: node.splits)

lemma deletes_let:
  assumes "deletes X is T" "deletes (Y (snd X)) js (snd X)" "distinct (is @ js)"
  shows "deletes (let (d1, T1) = X; (d2, T2) = Y T1 in (d1 @ d2, T2)) (is @ js) T"
  using deletes_append [of "fst X" "snd X" "is" T "fst (Y (snd X))" "snd (Y (snd X))" js] assms by (simp add: case_prod_beta Let_def)

lemma deletes_scope:
  assumes "deletes X is T" "\<And>T fr T'. free T = (fr, T') \<Longrightarrow> deletes (sorted_list_of_set fr, T') [i] T" "distinct (is @ [i])"
  shows "deletes (let (ds, T1) = X; (fr, T2) = free T1 in (ds @ sorted_list_of_set fr, T2)) (is @ [i]) T"
  using deletes_append [of "fst X" "snd X" "is" T _ _ "[i]"] assms by (simp add: case_prod_beta Let_def)

lemma deletes_nodes:
  assumes "\<And>T. all [] T = ([], T)" "\<And>n ns T. all (n # ns) T = (let (d1, T1) = del n T; (d2, T2) = all ns T1 in (d1 @ d2, T2))"
    and "\<And>n T. n \<in> set ns \<Longrightarrow> distinct (scopes_of n) \<Longrightarrow> deletes (del n T) (scopes_of n) T" "distinct (concat (map scopes_of ns))"
  shows "deletes (all ns T) (concat (map scopes_of ns)) T"
  using assms(3,4)
proof (induction ns arbitrary: T)
  case (Cons n ns)
  show ?case unfolding assms(2) list.map concat.simps by (rule deletes_let) (use Cons in auto)
qed (simp add: assms(1))

lemma deletes_child:
  assumes "is_decl n \<or> no_bare n" "no_bare n \<Longrightarrow> deletes (del n T) (scopes_of n) T"
  shows "deletes (if is_decl n then ([], T) else del n T) (scopes_of n) T"
  using assms is_decl_scopes [of n] by auto

lemma deletes_option:
  assumes "no_bare_opt p" "\<And>n. n \<in> set_option p \<Longrightarrow> no_bare n \<Longrightarrow> deletes (del n T) (scopes_of n) T"
  shows "deletes (case p of None \<Rightarrow> ([], T) | Some n \<Rightarrow> if is_decl n then ([], T) else del n T) (scopes_opt p) T"
  using assms by (cases p) (auto simp: is_decl_scopes)

lemma distinct_opt: "distinct (scopes_opt p) \<Longrightarrow> n \<in> set_option p \<Longrightarrow> distinct (scopes_of n)"
  by (cases p) auto

lemma node_delete_deletes: "no_bare n \<Longrightarrow> distinct (scopes_of n) \<Longrightarrow> deletes (node_delete n T) (scopes_of n) T"
proof (induction n arbitrary: T)
  case (Scope i bs)
  have "deletes (delete_all bs T) (concat (map scopes_of bs)) T"
    by (rule deletes_nodes) (use Scope in simp_all)
  then show ?case unfolding node_delete.simps scopes_of.simps
    by (rule deletes_scope) (use Scope.prems symtab_free_deletes in auto)
next
  case (Operand l op r)
  show ?case unfolding node_delete.simps scopes_of.simps
  proof (rule deletes_let, goal_cases)
    case 1
    show ?case by (rule deletes_option) (use Operand distinct_opt [of l] in auto)
  next
    case 2
    show ?case by (rule deletes_option) (use Operand distinct_opt [of r] in auto)
  qed (use Operand.prems in simp)
next
  case (While c b)
  show ?case unfolding node_delete.simps scopes_of.simps
    by (rule deletes_let, rule deletes_child) (use While in auto)
next
  case (IfN c b)
  show ?case unfolding node_delete.simps scopes_of.simps
    by (rule deletes_let, rule deletes_child) (use IfN in auto)
qed simp_all

lemma old_node_delete_deletes: "no_bare n \<Longrightarrow> distinct (scopes_of n) \<Longrightarrow> deletes (old_node_delete n T) (scopes_of n) T"
proof (induction n arbitrary: T)
  case (Scope i bs)
  have "deletes (old_delete_all bs T) (concat (map scopes_of bs)) T"
    by (rule deletes_nodes) (use Scope in simp_all)
  then show ?case unfolding old_node_delete.simps scopes_of.simps
    by (rule deletes_scope) (use Scope.prems old_symtab_free_deletes in auto)
next
  case (Operand l op r)
  show ?case unfolding old_node_delete.simps scopes_of.simps
  proof (rule deletes_let, goal_cases)
    case 1
    show ?case by (rule deletes_option) (use Operand distinct_opt [of l] in auto)
  next
    case 2
    show ?case by (rule deletes_option) (use Operand distinct_opt [of r] in auto)
  qed (use Operand.prems in simp)
next
  case (While c b)
  show ?case unfolding old_node_delete.simps scopes_of.simps
    by (rule deletes_let, rule deletes_child) (use While in auto)
next
  case (IfN c b)
  show ?case unfolding old_node_delete.simps scopes_of.simps
    by (rule deletes_let, rule deletes_child) (use IfN in auto)
qed simp_all

section \<open>The errors of an evaluation\<close>

text \<open>The later interpreter never calls \<^verbatim>\<open>exit\<close>.\<close>

definition no_exit :: "('a res \<times> pst) option \<Rightarrow> bool" where
  "no_exit r \<longleftrightarrow> (\<forall>c s. r \<noteq> Some (Inl (Exited c), s))"

lemma no_exit_simps [simp]:
  "no_exit None" "no_exit (Some (Inr v, s))" "no_exit (Some (Inl e, s)) \<longleftrightarrow> (\<forall>c. e \<noteq> Exited c)"
  by (auto simp: no_exit_def)

lemma no_exit_bindP [intro]: "no_exit m \<Longrightarrow> (\<And>v s. no_exit (f v s)) \<Longrightarrow> no_exit (bindP m f)"
  by (cases m rule: bindP_cases) simp_all

lemma no_exit_values [simp]: "no_exit (Some (int_res v, s))" "no_exit (Some (c_div x y, s))" "no_exit (Some (c_mod x y, s))"
  by (simp_all add: int_res_def c_div_def c_mod_def)

lemma no_exit_ptr: "(\<And>n s. no_exit (f n s)) \<Longrightarrow> no_exit (call_ptr f p s)"
  by (simp add: call_ptr_def split: option.split)

lemma no_exit_both: "(\<And>n s. no_exit (f n s)) \<Longrightarrow> (\<And>x y s. no_exit (Some (g x y, s))) \<Longrightarrow> no_exit (both b f l r g s)"
  unfolding both_def by (auto intro!: no_exit_bindP no_exit_ptr)

lemma no_exit_operand: "(\<And>n s. no_exit (f n s)) \<Longrightarrow> no_exit (operand_calc ord f l op r s)"
  by (cases op) (auto simp: operand_calc_def case_prod_beta Let_def intro!: no_exit_bindP no_exit_ptr no_exit_both split: option.split node.split)

lemma no_exit_branches: "(\<And>n s. no_exit (f n s)) \<Longrightarrow> no_exit (run_branches f bs s)"
  by (induction bs arbitrary: s) auto

lemma calc_no_exit: "no_exit (calc k ord n s)"
proof (induction k arbitrary: n s)
  case (Suc k)
  then show ?case
    by (cases n) (auto simp: calc_node split: option.split intro!: no_exit_operand no_exit_branches no_exit_bindP)
qed simp

section \<open>Programs\<close>

definition front_tables :: "item list \<Rightarrow> Symtab" where
  "front_tables p = (case build_stms p (createScope, []) of Inl _ \<Rightarrow> (\<lambda>_. None) | Inr (b, _) \<Rightarrow> Tables b)"

lemma start_opens:
  assumes "build_stms p (createScope, []) = Inr (b, names)"
  shows "\<exists>ms. open_scopes b = [(0, ms)] \<and> opens (well_items p) (createScope, []) ms (b, names)"
  using build_opens(3) [OF decl_inv_start _ assms] by (auto simp: createScope_def adds_def)

lemma front_end_tree:
  assumes "front_end p = Inr (tree, names)"
  shows "decl_inv (createScope\<lparr>Tables := front_tables p, next_decl := length names, next_scope := length (scopes_of tree)\<rparr>, names) \<and>
    no_bare tree \<and> distinct (scopes_of tree) \<and> set (scopes_of tree) = {..< length (scopes_of tree)} \<and> (well_items p \<longrightarrow> quiet tree) \<and>
    (\<exists>b. build_stms p (createScope, []) = Inr (b, names) \<and> Tables b = front_tables p) \<and> \<not> is_print tree"
proof -
  obtain b where b: "build_stms p (createScope, []) = Inr (b, names)" "close_scope (b, names) = Inr (tree, b\<lparr>open_scopes := tl (open_scopes b)\<rparr>, names)"
    using assms by (auto simp: front_end_def bindE_eq_Inr_iff close_scope_def scope_reset_def split: option.splits list.splits)
  obtain ms where o: "open_scopes b = [(0, ms)]" "opens (well_items p) (createScope, []) ms (b, names)" using start_opens [OF b(1)] by blast
  have t: "tree = Scope 0 ms" using b(2) o(1) by (simp add: close_scope_def scope_reset_def)
  have s: "set (concat (map scopes_of ms)) = {1 ..< next_scope b}" "distinct (concat (map scopes_of ms))" "1 \<le> next_scope b"
    using o(2) by (simp_all add: opens_def createScope_def)
  have len: "length (scopes_of tree) = next_scope b"
    using distinct_card [OF s(2)] s(1,3) t by simp
  have "set (scopes_of tree) = {..< length (scopes_of tree)}" unfolding len using s(1,3) t by auto
  moreover have "distinct (scopes_of tree)" using s(1,2) t by simp
  moreover have "Tables b = front_tables p" using b(1) by (simp add: front_tables_def)
  moreover have "bld_inv b" "next_decl b = length names" "placed (Tables b) (length names)" using o(2) by (simp_all add: opens_def decl_inv_def)
  ultimately show ?thesis using b(1) o t len by (auto simp: opens_def decl_inv_def bld_inv_def createScope_def)
qed

lemma placed_once:
  assumes "placed T n" "distinct is" "\<And>i x d. symtab_exists i x T = Some d \<Longrightarrow> i \<in> set is"
  shows "mset (concat (map (table_decls T) is)) = mset [0 ..< n]"
proof -
  have dom: "(\<exists>i x. symtab_exists i x T = Some d) \<longleftrightarrow> d < n" for d using assms(1) by (simp add: placed_def)
  have inj: "symtab_exists i x T = Some d \<Longrightarrow> symtab_exists j y T = Some d \<Longrightarrow> i = j" for i x j y d
    using assms(1) unfolding placed_def by blast
  have "{d. \<exists>x. symtab_exists i x T = Some d} \<subseteq> {..< n}" for i using dom by blast
  then have fin: "finite {d. \<exists>x. symtab_exists i x T = Some d}" for i using finite_subset by blast
  then have tab: "set (table_decls T i) = {d. \<exists>x. symtab_exists i x T = Some d}" "distinct (table_decls T i)" for i
    by (simp_all add: table_decls_def)
  have "distinct (concat (map (table_decls T) js))" if "distinct js" for js
    using that inj by (induction js) (auto simp: tab, blast)
  moreover have "set (concat (map (table_decls T) is)) = {d. \<exists>i x. symtab_exists i x T = Some d}" using assms(3) by (auto simp: tab)
  then have "set (concat (map (table_decls T) is)) = {..< n}" using dom by auto
  ultimately show ?thesis using assms(2) set_eq_iff_mset_eq_distinct [of "concat (map (table_decls T) is)" "[0 ..< n]"]
    by (simp add: atLeast0LessThan del: set_concat)
qed

lemma deleted_once:
  assumes "front_end p = Inr (tree, names)" "\<And>i x. symtab_exists i x T = symtab_exists i x (front_tables p)" "deletes r (scopes_of tree) T"
  shows "mset (fst r) = mset [0 ..< length names] \<and> (\<forall>i x. symtab_exists i x (snd r) = None)"
proof -
  note t = front_end_tree [OF assms(1)]
  have "placed (front_tables p) (length names)" "\<And>i x. symtab_exists i x (front_tables p) \<noteq> None \<Longrightarrow> i < length (scopes_of tree)"
    using t by (auto simp: decl_inv_def bld_inv_def)
  then have T: "placed T (length names)" "\<And>i x d. symtab_exists i x T = Some d \<Longrightarrow> i \<in> set (scopes_of tree)"
    using t assms(2) by (auto simp: placed_def)
  have "mset (concat (map (table_decls T) (scopes_of tree))) = mset [0 ..< length names]"
    by (rule placed_once [OF T(1) _ T(2)]) (use t in simp)
  moreover have "symtab_exists i x (snd r) = None" for i x
    using assms(3) T(2) [of i x] by (cases "symtab_exists i x T") (simp_all add: deletes_def without_def)
  ultimately show ?thesis using assms(3) by (simp add: deletes_def)
qed

text \<open>
  C21. The two front ends and the memory of their trees. They accept the same programs and build the same tree for them, with the same
  declarations; and in both versions deleting that tree at the end of \<^verbatim>\<open>main\<close> deletes every declaration exactly once, although the nodes that use it
  share it, and leaves no entry in the table.
\<close>

theorem tree_freed_once:
  "(front_end p = Inr (tree, names) \<longleftrightarrow> (\<exists>T. old_front_end p = Inr (tree, names, T))) \<and>
   (\<forall>T. old_front_end p = Inr (tree, names, T) \<longrightarrow>
     (mset (fst (old_node_delete tree T)) = mset [0 ..< length names] \<and>
       (\<forall>i x. symtab_exists i x (snd (old_node_delete tree T)) = None)) \<and>
     mset (fst (node_delete tree (front_tables p))) = mset [0 ..< length names] \<and>
       (\<forall>i x. symtab_exists i x (snd (node_delete tree (front_tables p))) = None))"
proof -
  have iff: "front_end p = Inr (tree, names) \<longleftrightarrow> (\<exists>T. old_front_end p = Inr (tree, names, T))" for tree names
    using front_end_agrees [of p] by (cases "front_end p"; cases "old_front_end p") auto
  have T: "symtab_exists i x T = symtab_exists i x (front_tables p)"
    if old: "old_front_end p = Inr (tree, names, T)" for T i x
  proof -
    have start: "st_sim (createScope, []) (createScope, [])" by (simp add: bld_sim_def)
    obtain b c where "build_stms p (createScope, []) = Inr (b, names)" "Tables b = front_tables p"
        "old_build_stms p (createScope, []) = Inr (c, names)" "Tables c = T"
      using front_end_tree [of p tree names] iff [of tree names] old
      by (auto simp: old_front_end_def bindE_eq_Inr_iff split: list.splits)
    then show ?thesis using build_agrees(3) [OF start, of p] by (auto simp: bld_sim_def)
  qed
  have "(mset (fst (old_node_delete tree T)) = mset [0 ..< length names] \<and> (\<forall>i x. symtab_exists i x (snd (old_node_delete tree T)) = None)) \<and>
      mset (fst (node_delete tree (front_tables p))) = mset [0 ..< length names] \<and>
      (\<forall>i x. symtab_exists i x (snd (node_delete tree (front_tables p))) = None)" if "old_front_end p = Inr (tree, names, T)" for T
  proof -
    have f: "front_end p = Inr (tree, names)" using iff that by blast
    then have "no_bare tree" "distinct (scopes_of tree)" using front_end_tree by auto
    then show ?thesis using deleted_once [OF f T [OF that] old_node_delete_deletes] deleted_once [OF f refl node_delete_deletes] by blast
  qed
  then show ?thesis using iff by blast
qed

theorem tree_freed_once_witness:
  "\<exists>T. old_front_end fib_pcl = Inr (fib_program, [''n'', ''a'', ''b'', ''x'', ''tmp''], T) \<and>
     mset (fst (old_node_delete fib_program T)) = mset [0, 1, 2, 3, 4]"
proof -
  obtain T where "old_front_end fib_pcl = Inr (fib_program, [''n'', ''a'', ''b'', ''x'', ''tmp''], T)"
    using tree_freed_once [of fib_pcl fib_program "[''n'', ''a'', ''b'', ''x'', ''tmp'']"] fib_front by blast
  then show ?thesis using tree_freed_once [of fib_pcl fib_program "[''n'', ''a'', ''b'', ''x'', ''tmp'']"] by (auto simp: upt_rec numeral_eq_Suc)
qed

text \<open>
  C22. The two interpreters. Every program whose names are not declared where they are used ends the first version with status 1; for every
  other one it prints what the later version prints and ends with status 0, except that a division by zero, which the later version reports as
  an exception, ends it with a message on its output and status 1.
\<close>

theorem old_interpreter_agrees:
  assumes "well_items p"
  shows "old_interpreter_main k ord (Program p) inp =
    (if scoped_items [] p
     then (case interpreter_main k ord (Some (Some p)) inp of
         None \<Rightarrow> None
       | Some (Inl e) \<Rightarrow> Some (Inl e)
       | Some (Inr (out, err)) \<Rightarrow>
           Some (Inr (if err = [] then (0, out) else (1, out @ ''Division by zero!'' @ endl))))
     else Some (Inr (1, [])))"
proof (cases "scoped_items [] p")
  case True
  then obtain tree names where f: "front_end p = Inr (tree, names)" using front_end_built by blast
  then obtain T where o: "old_front_end p = Inr (tree, names, T)"
    using front_end_agrees [of p] by (cases "old_front_end p") auto
  have "quiet tree" "\<not> is_print tree" using front_end_tree [OF f] assms by auto
  then have c: "old_calc k ord tree s = as_exit (calc k ord tree s)" for s
    using old_calc_agrees as_old_exit by simp
  let ?s = "\<lparr>vals = (\<lambda>_. None), stdin = Some inp, stdout = []\<rparr>"
  show ?thesis
  proof (cases "calc k ord tree ?s" rule: bindP_cases)
    case (err e s)
    have "\<forall>c. e \<noteq> Exited c" using calc_no_exit [of k ord tree ?s] err by simp
    then show ?thesis using True f o c [of ?s] err
      by (cases e) (simp_all add: old_interpreter_main_def interpreter_main_def OpenFile_def yyparse_def main_catch_def as_exit_def)
  qed (use True f o c [of ?s] in \<open>simp_all add: old_interpreter_main_def interpreter_main_def OpenFile_def yyparse_def\<close>)
next
  case False
  then have "front_end p = Inl parse_error" using front_cases(3) [of "[]" p, rule_format, OF front_start(1)] front_start(2)
    unfolding front_end_def by (metis bindE_Inl fst_conv)
  then have "old_front_end p = Inl (Exited 1)" using front_end_agrees [of p] by (cases "old_front_end p") auto
  then show ?thesis using False by (simp add: old_interpreter_main_def)
qed

text \<open>A program that divides by the number it reads.\<close>

theorem old_interpreter_agrees_witness:
  "old_interpreter_main 9 left_first (Program [Stm (SAssign ''a'' EInput), Stm (SOutput (EBin (EValue 6) Div (EName ''a'')))]) ''0 '' =
    Some (Inr (1, ''Division by zero!'' @ endl))"
proof -
  let ?p = "[Stm (SAssign ''a'' EInput), Stm (SOutput (EBin (EValue 6) Div (EName ''a'')))]"
  have "interpreter_main 9 left_first (Some (Some ?p)) ''0 '' = Some (Inr ([], ''Exception: Division by zero'' @ endl))" by code_simp
  then show ?thesis using old_interpreter_agrees [of ?p 9 left_first "''0 ''"] by simp
qed

text \<open>The first compiler saves the module the later one saves for the program without its loops and conditionals.\<close>

lemma old_compiler_main_drops:
  assumes "front_end p = Inr (tree, names)" "compile_program (decl_name names) names (drop_control tree) = Inr G"
  shows "old_compiler_main False f (Program p) = Inr (0, Some G, ''Saving module to: '' @ f @ ''.ll'' @ [CHR 0x0A])"
proof -
  obtain T where "old_front_end p = Inr (tree, names, T)" using front_end_agrees [of p] assms(1) by (cases "old_front_end p") auto
  then show ?thesis using assms(2) by (simp add: old_compiler_main_def old_compile_drops)
qed

end
