(* ===== verification/Constexpr_Fns.thy ===== *)
theory Constexpr_Fns
  imports Prelude
begin

unbundle bit_operations_syntax

text \<open>
  The programs of \<^verbatim>\<open>18-constexpr\<close> and \<^verbatim>\<open>archive/14-constexpr\<close> that compute at compile time: the integer square root, the
  primes of Unruh, factorial and Fibonacci templates, the static logarithm and binary literals. A template is a
  function on its arguments; the number of nested instantiations the compiler accepts is the parameter \<open>depth\<close>,
  and an instantiation that fails ends with the reason. Template arguments and values of type \<open>int\<close>
  are checked integers (an overflow is no constant expression), those of type \<open>unsigned\<close> and \<open>size_t\<close> are words.
\<close>

section \<open>Constant expressions\<close>

datatype ce_error =
    Not_constant
  | Too_deep
  | Incomplete_type
  | Thrown string

definition ce_int :: "int \<Rightarrow> ce_error + int" where
  "ce_int x = (if - (2 ^ 31) \<le> x \<and> x < 2 ^ 31 then Inr x else Inl Not_constant)"

lemma ce_int_simps [simp]:
  "- (2 ^ 31) \<le> x \<Longrightarrow> x < 2 ^ 31 \<Longrightarrow> ce_int x = Inr x"
  "x \<ge> 2 ^ 31 \<Longrightarrow> ce_int x = Inl Not_constant"
  by (auto simp: ce_int_def)

text \<open>The quotient of C++ truncates.\<close>

definition ce_div :: "int \<Rightarrow> int \<Rightarrow> int" where
  "ce_div a b = sgn a * sgn b * (\<bar>a\<bar> div \<bar>b\<bar>)"

lemma ce_div_pos [simp]: "a \<ge> 0 \<Longrightarrow> b > 0 \<Longrightarrow> ce_div a b = a div b"
  by (cases "a = 0") (auto simp: ce_div_def sgn_if)

section \<open>Square root (\<^verbatim>\<open>isqrt.cc\<close>)\<close>

text \<open>The default argument \<^verbatim>\<open>mid\<close>, which is computed where a specialisation is named.\<close>

definition Sqrt_mid :: "int \<Rightarrow> int \<Rightarrow> ce_error + int" where
  "Sqrt_mid L H = bindE (ce_int (L + H)) (\<lambda>s. bindE (ce_int (s + 1)) (\<lambda>s1. Inr (ce_div s1 2)))"

text \<open>
  The general template names both specialisations in \<^verbatim>\<open>conditional_t\<close>, and instantiates the chosen one; when its arguments are those
  of the type that is being defined, that type is incomplete.
\<close>

fun Sqrt_range :: "nat \<Rightarrow> int \<Rightarrow> int \<Rightarrow> int \<Rightarrow> int \<Rightarrow> ce_error + int" where
  "Sqrt_range 0 N L H mid = Inl Too_deep"
| "Sqrt_range (Suc depth) N L H mid =
    (if L = H \<and> L = mid then Inr L
     else bindE (ce_int (mid * mid)) (\<lambda>sq. bindE (ce_int (mid - 1)) (\<lambda>m1.
       bindE (Sqrt_mid L m1) (\<lambda>mid1. bindE (Sqrt_mid mid H) (\<lambda>mid2.
         if N < sq then (if m1 = H then Inl Incomplete_type else Sqrt_range depth N L m1 mid1)
         else (if mid = L then Inl Incomplete_type else Sqrt_range depth N mid H mid2))))))"

definition Sqrt :: "nat \<Rightarrow> int \<Rightarrow> ce_error + int" where
  "Sqrt depth N = bindE (Sqrt_mid 1 N) (\<lambda>mid. Sqrt_range depth N 1 N mid)"

lemma Sqrt_16: "Sqrt 900 16 = Inr 4"
  by (simp add: Sqrt_def Sqrt_mid_def eval_nat_numeral)

section \<open>Primes (\<^verbatim>\<open>unruh.cc\<close>)\<close>

text \<open>
  \<^verbatim>\<open>is_prime<p, i>::prim\<close>. The operand on the right of \<^verbatim>\<open>&&\<close> is instantiated whatever the one on the left is.
\<close>

fun is_prime :: "nat \<Rightarrow> int \<Rightarrow> int \<Rightarrow> ce_error + bool" where
  "is_prime 0 p i = Inl Too_deep"
| "is_prime (Suc depth) p i =
    (if p = 0 \<and> (i = 0 \<or> i = 1) then Inr True
     else bindE (is_prime depth (if i > 2 then p else 0) (i - 1)) (\<lambda>b.
       if p = 2 then Inr True
       else if i = 0 then Inl Not_constant
       else Inr (p mod i \<noteq> 0 \<and> b)))"

text \<open>
  \<^verbatim>\<open>Prime_print<i>\<close>: its member \<open>a\<close> is instantiated first; \<open>f\<close> initialises an object of \<^verbatim>\<open>D<i>\<close> from an \<open>int\<close> when \<open>prim\<close> holds, which
  is an error that names \<open>i\<close>, and from a pointer otherwise. The value is the list of the errors, in the order in which \<open>f\<close> calls itself.
\<close>

fun Prime_print :: "nat \<Rightarrow> int \<Rightarrow> ce_error + int list" where
  "Prime_print 0 i = Inl Too_deep"
| "Prime_print (Suc depth) i =
    (if i = 1 then Inr []
     else bindE (Prime_print depth (i - 1)) (\<lambda>a.
       bindE (is_prime depth i (i - 1)) (\<lambda>prim. Inr ((if prim then [i] else []) @ a))))"

definition unruh_main :: "nat \<Rightarrow> ce_error + int list" where
  "unruh_main depth = Prime_print depth 70"

section \<open>Factorial and Fibonacci templates\<close>

fun fact_ct :: "nat \<Rightarrow> int \<Rightarrow> ce_error + int" where
  "fact_ct 0 N = Inl Too_deep"
| "fact_ct (Suc depth) N =
    (if N = 0 then Inr 1
     else bindE (ce_int (N - 1)) (\<lambda>m. bindE (fact_ct depth m) (\<lambda>f. ce_int (N * f))))"

fun fibonacci_ct :: "nat \<Rightarrow> int \<Rightarrow> ce_error + int" where
  "fibonacci_ct 0 N = Inl Too_deep"
| "fibonacci_ct (Suc depth) N =
    (if N = 1 then Inr 1 else if N = 0 then Inr 0
     else bindE (ce_int (N - 1)) (\<lambda>m. bindE (fibonacci_ct depth m) (\<lambda>f.
       bindE (ce_int (N - 2)) (\<lambda>m2. bindE (fibonacci_ct depth m2) (\<lambda>g. ce_int (f + g))))))"

text \<open>The earlier versions compute with \<open>unsigned\<close> values, which wrap.\<close>

fun factorial_ct :: "nat \<Rightarrow> 32 word \<Rightarrow> ce_error + 32 word" where
  "factorial_ct 0 N = Inl Too_deep"
| "factorial_ct (Suc depth) N =
    (if N = 0 then Inr 1 else bindE (factorial_ct depth (N - 1)) (\<lambda>f. Inr (N * f)))"

fun Fibonacci_ct :: "nat \<Rightarrow> 32 word \<Rightarrow> ce_error + 32 word" where
  "Fibonacci_ct 0 N = Inl Too_deep"
| "Fibonacci_ct (Suc depth) N =
    (if N = 0 then Inr 0 else if N = 1 then Inr 1
     else bindE (Fibonacci_ct depth (N - 1)) (\<lambda>f. bindE (Fibonacci_ct depth (N - 2)) (\<lambda>g. Inr (f + g))))"

text \<open>\<^verbatim>\<open>fibmodulo.cc\<close>: the template and the function with the same recursion.\<close>

fun Fibonacci_mod :: "nat \<Rightarrow> 32 word \<Rightarrow> 32 word \<Rightarrow> ce_error + 32 word" where
  "Fibonacci_mod 0 N Mod = Inl Too_deep"
| "Fibonacci_mod (Suc depth) N Mod =
    (if N = 0 then Inr 0 else if N = 1 then Inr 1
     else bindE (Fibonacci_mod depth (N - 1) Mod) (\<lambda>f. bindE (Fibonacci_mod depth (N - 2) Mod) (\<lambda>g.
       if Mod = 0 then Inl Not_constant else Inr ((f + g) mod Mod))))"

lemma word_two_le: "2 \<le> unat n" if "n \<noteq> 0" "n \<noteq> 1" for n :: "32 word"
proof -
  have "unat n \<noteq> 0" "unat n \<noteq> 1" using that by (metis unat_eq_zero, metis unat_1 word_unat_eq_iff)
  then show ?thesis by simp
qed

function fib_naive_mod :: "32 word \<Rightarrow> 32 word \<Rightarrow> ce_error + 32 word" where
  "fib_naive_mod n m =
    (if n = 0 then Inr 0 else if n = 1 then Inr 1
     else bindE (fib_naive_mod (n - 1) m) (\<lambda>f. bindE (fib_naive_mod (n - 2) m) (\<lambda>g.
       if m = 0 then Inl Not_constant else Inr ((f + g) mod m))))"
  by auto
termination
proof (relation "measure (\<lambda>(n, m). unat n)")
  fix n m :: "32 word" assume n: "n \<noteq> 0" "n \<noteq> 1"
  have n2: "2 \<le> unat n" using word_two_le [OF n] .
  show "((n - 1, m), (n, m)) \<in> measure (\<lambda>(n, m). unat n)" "((n - 2, m), (n, m)) \<in> measure (\<lambda>(n, m). unat n)"
    using n2 by (simp_all add: unat_sub_if')
qed simp

declare fib_naive_mod.simps [simp del]

section \<open>Static logarithm (\<^verbatim>\<open>static-log.cc\<close>)\<close>

text \<open>
  \<^verbatim>\<open>size_t\<close> has 64 bits. The loop runs before its condition is tested; with \<^verbatim>\<open>pos = 0\<close> the decrement would wrap and the shift
  would be undefined.
\<close>

fun static_log_loop :: "64 word \<Rightarrow> nat \<Rightarrow> ce_error + (nat \<times> 64 word)" where
  "static_log_loop N 0 = Inl Not_constant"
| "static_log_loop N (Suc pos) =
    (let mask = push_bit pos 1 in
     if N AND mask \<noteq> mask then static_log_loop N pos else Inr (pos, mask))"

definition static_log :: "64 word \<Rightarrow> ce_error + nat" where
  "static_log N =
    (if N = 0 then Inl (Thrown ''N == 0 not supported'')
     else bindE (static_log_loop N 64) (\<lambda>(pos, mask). Inr (if N \<noteq> mask then pos + 1 else pos)))"

section \<open>Binary literals (\<^verbatim>\<open>binsuffix_types.cc\<close>, \<^verbatim>\<open>binsuffix_ce.cc\<close>)\<close>

fun binparser :: "int \<Rightarrow> string \<Rightarrow> ce_error + int" where
  "binparser acc [] = Inr acc"
| "binparser acc (c # Rest) =
    (if c = CHR ''0'' then bindE (ce_int (acc * 2)) (\<lambda>s. binparser s Rest)
     else if c = CHR ''1'' then bindE (ce_int (acc * 2)) (\<lambda>s. bindE (ce_int (s + 1)) (\<lambda>s1. binparser s1 Rest))
     else Inl Incomplete_type)"

definition binary_types :: "string \<Rightarrow> ce_error + int" where
  "binary_types Chars = binparser 0 Chars"

definition binary_step :: "char \<Rightarrow> int \<Rightarrow> ce_error + int" where
  "binary_step c s =
    (if c = CHR ''0'' then ce_int (s * 2)
     else if c = CHR ''1'' then bindE (ce_int (s * 2)) (\<lambda>t. ce_int (t + 1))
     else Inl (Thrown ''Unexpected symbol''))"

fun binary_loop :: "string \<Rightarrow> int \<Rightarrow> ce_error + int" where
  "binary_loop [] s = Inr s"
| "binary_loop (c # arr) s = bindE (binary_step c s) (binary_loop arr)"

definition binary_ce :: "string \<Rightarrow> ce_error + int" where
  "binary_ce Chars = binary_loop Chars 0"

lemma binary_mains: "binary_types ''11001010'' = Inr 202" "binary_ce ''11001010'' = Inr 202"
  by (simp_all add: binary_types_def binary_ce_def binary_step_def)

end
