(* ===== verification/Constexpr_Props.thy ===== *)
theory Constexpr_Props
  imports Constexpr_Fns Fib_Numbers
begin

text \<open>
  The values the compile-time programs give, and where they give none: the square root is exact for the arguments whose middle
  can be squared and the template is ill-formed for all others, the errors of Unruh's program are the primes, the logarithm is rounded up,
  and both binary literals parse the digits they are given.
\<close>

section \<open>Square root\<close>

definition middle :: "int \<Rightarrow> int \<Rightarrow> int" where
  "middle L H = (L + H + 1) div 2"

lemma middle_between: "L < H \<Longrightarrow> L < middle L H \<and> middle L H \<le> H"
  unfolding middle_def by linarith

lemma middle_same [simp]: "middle L L = L"
  by (simp add: middle_def)

lemma middle_halves:
  assumes "H - L < 2 ^ Suc k" shows "middle L H - 1 - L < 2 ^ k" "H - middle L H < 2 ^ k"
proof -
  have "H - L < 2 * 2 ^ k" using assms by simp
  then show "middle L H - 1 - L < 2 ^ k" "H - middle L H < 2 ^ k" unfolding middle_def by linarith+
qed

lemma Sqrt_mid_pos: "0 < L \<Longrightarrow> 0 \<le> H \<Longrightarrow> L + H + 1 < 2 ^ 31 \<Longrightarrow> Sqrt_mid L H = Inr (middle L H)"
  by (simp add: Sqrt_mid_def middle_def)

lemma small_square: "ce_int (m * m) = Inr (m * m)" if "0 \<le> m" "m \<le> 46340" for m :: int
proof -
  have "m * m \<le> 46340 * 46340" using that by (intro mult_mono) auto
  then have "m * m < 2 ^ 31" by simp
  moreover have "- (2 ^ 31) \<le> m * m" by (rule order_trans [of _ 0]) simp_all
  ultimately show ?thesis by (intro ce_int_simps(1))
qed

text \<open>One instantiation of the general template, away from the limits of the type.\<close>

lemma Sqrt_range_step:
  assumes "0 < L" "L < mid" "mid \<le> H" "H < 2 ^ 30" "mid \<le> 46340"
  shows "Sqrt_range (Suc d) N L H mid =
    (if N < mid * mid then Sqrt_range d N L (mid - 1) (middle L (mid - 1)) else Sqrt_range d N mid H (middle mid H))"
  using assms small_square [of mid] Sqrt_mid_pos [of L "mid - 1"] Sqrt_mid_pos [of mid H] by simp

text \<open>The interval of the search halves, and keeps the root inside.\<close>

definition is_root :: "int \<Rightarrow> int \<Rightarrow> bool" where
  "is_root N r \<longleftrightarrow> 0 < r \<and> r * r \<le> N \<and> N < (r + 1) * (r + 1)"

lemma Sqrt_range_root:
  assumes "0 < L" "L \<le> H" "L * L \<le> N" "N < (H + 1) * (H + 1)" "H \<le> 46340" "H - L < 2 ^ k" "k < depth"
  shows "\<exists>r. Sqrt_range depth N L H (middle L H) = Inr r \<and> is_root N r"
  using assms
proof (induction k arbitrary: L H depth)
  case 0
  then obtain d where "depth = Suc d" "H = L" by (cases depth) auto
  then show ?case using 0 by (auto simp: is_root_def)
next
  case (Suc k)
  obtain d where d: "depth = Suc d" "k < d" using Suc.prems(7) by (cases depth) auto
  show ?case
  proof (cases "L = H")
    case True
    then show ?thesis using Suc.prems d by (auto simp: is_root_def)
  next
    case False
    obtain mid where mid: "mid = middle L H" by simp
    have m: "L < mid" "mid \<le> H" using False Suc.prems(2) middle_between [of L H] mid by auto
    note half = middle_halves [OF Suc.prems(6), folded mid]
    have step: "Sqrt_range depth N L H mid =
      (if N < mid * mid then Sqrt_range d N L (mid - 1) (middle L (mid - 1)) else Sqrt_range d N mid H (middle mid H))"
      unfolding d(1) by (rule Sqrt_range_step) (use Suc.prems m in auto)
    show ?thesis
    proof (cases "N < mid * mid")
      case True
      then show ?thesis using Suc.IH [of L "mid - 1" d] Suc.prems(1-5) m half(1) d(2) unfolding mid [symmetric] step by simp
    next
      case False
      then show ?thesis using Suc.IH [of mid H d] Suc.prems(1-5) m half(2) d(2) unfolding mid [symmetric] step by simp
    qed
  qed
qed

text \<open>The first step, for arguments above the interval of the lemma.\<close>

lemma Sqrt_large:
  assumes "46340 < N" "N \<le> 92679" "17 < depth"
  shows "\<exists>r. Sqrt depth N = Inr r \<and> is_root N r"
proof -
  obtain d where d: "depth = Suc d" "16 < d" using assms(3) by (cases depth) auto
  obtain m where m_def: "m = middle 1 N" by simp
  have m: "23170 < m" "m \<le> 46340" "m \<le> N" using assms(1,2) unfolding m_def middle_def by linarith+
  then have "23171 * 23171 \<le> m * m" by (intro mult_mono) auto
  then have lt: "N < m * m" using assms(2) by simp
  have "\<exists>r. Sqrt_range d N 1 (m - 1) (middle 1 (m - 1)) = Inr r \<and> is_root N r"
    by (rule Sqrt_range_root [where k = 16]) (use assms m d lt in auto)
  moreover have "Sqrt depth N = Sqrt_range d N 1 (m - 1) (middle 1 (m - 1))"
    using Sqrt_range_step [of 1 m N d N] Sqrt_mid_pos [of 1 N] assms m lt d(1) m_def by (simp add: Sqrt_def)
  ultimately show ?thesis by simp
qed

text \<open>Arguments for which the template is not well-formed.\<close>

lemma Sqrt_overflow:
  assumes "92680 \<le> N" "N < 2 ^ 31" shows "\<exists>e. Sqrt depth N = Inl e"
proof (cases "2 ^ 31 \<le> N + 2 \<or> depth = 0")
  case True
  then show ?thesis using assms by (auto simp: Sqrt_def Sqrt_mid_def ce_int_def bindE_def)
next
  case False
  then obtain d where d: "depth = Suc d" by (cases depth) auto
  obtain m where m_def: "m = middle 1 N" by simp
  have m: "46341 \<le> m" using assms(1) unfolding m_def middle_def by linarith
  then have "46341 * 46341 \<le> m * m" by (intro mult_mono) auto
  then have "ce_int (m * m) = Inl Not_constant" by (simp add: ce_int_def)
  then show ?thesis using Sqrt_mid_pos [of 1 N] assms False d m by (simp add: Sqrt_def m_def [symmetric])
qed

lemma ce_int_eq: "ce_int x = Inr y \<Longrightarrow> y = x"
  by (simp add: ce_int_def split: if_splits)

lemma Sqrt_negative:
  assumes "N < 0" "H \<le> 0" "Sqrt_mid 1 H = Inr mid" shows "\<exists>e. Sqrt_range depth N 1 H mid = Inl e"
  using assms
proof (induction depth arbitrary: H mid)
  case (Suc d)
  have "mid = ce_div (2 + H) 2" using Suc.prems(3) by (auto simp: Sqrt_mid_def bindE_eq_Inr_iff add.commute dest!: ce_int_eq)
  then have m: "mid - 1 \<le> 0" using Suc.prems(2) by (auto simp: ce_div_def sgn_if)
  have neg: "N < mid * mid" using Suc.prems(1) zero_le_square [of mid] by linarith
  show ?case
  proof (rule ccontr)
    assume "\<nexists>e. Sqrt_range (Suc d) N 1 H mid = Inl e"
    then obtain r where r: "Sqrt_range (Suc d) N 1 H mid = Inr r" by (metis sumE)
    have "1 \<noteq> H" using Suc.prems(2) by simp
    then obtain mid1 where "Sqrt_mid 1 (mid - 1) = Inr mid1" "Sqrt_range d N 1 (mid - 1) mid1 = Inr r"
      using r neg by (auto simp: bindE_eq_Inr_iff dest!: ce_int_eq split: if_splits)
    then show False using Suc.IH [of "mid - 1" mid1] Suc.prems(1) m by auto
  qed
qed simp

lemma Sqrt_nonpos: "N \<le> 0 \<Longrightarrow> \<exists>e. Sqrt depth N = Inl e"
proof (cases "N = 0")
  case True
  then show ?thesis by (cases depth) (auto simp: Sqrt_def Sqrt_mid_def)
next
  case False
  assume "N \<le> 0"
  then show ?thesis using False Sqrt_negative [of N N _ depth] by (cases "Sqrt_mid 1 N") (auto simp: Sqrt_def)
qed

text \<open>
  C31. For which integers the square root template has a value, and which one: it is the square root, rounded down, of
  the integers from 1 to 92679; for 0, negative integers and larger integers the template is ill-formed.
\<close>

theorem Sqrt_correct:
  assumes "17 < depth" "N < 2 ^ 31"
  shows "case Sqrt depth N of
    Inl e \<Rightarrow> N \<le> 0 \<or> 92680 \<le> N
  | Inr r \<Rightarrow> 1 \<le> N \<and> N \<le> 92679 \<and> 0 < r \<and> r * r \<le> N \<and> N < (r + 1) * (r + 1)"
proof -
  consider "N \<le> 0" | "1 \<le> N" "N \<le> 46340" | "46340 < N" "N \<le> 92679" | "92680 \<le> N" by linarith
  then show ?thesis
  proof cases
    case 2
    have "N < (N + 1) * (N + 1)" using 2(1) zero_le_square [of N] unfolding distrib_left distrib_right by linarith
    then have "\<exists>r. Sqrt_range depth N 1 N (middle 1 N) = Inr r \<and> is_root N r"
      by (intro Sqrt_range_root [where k = 16]) (use 2 assms(1) in auto)
    then show ?thesis using Sqrt_mid_pos [of 1 N] 2 by (auto simp: Sqrt_def is_root_def)
  next
    case 3
    then show ?thesis using Sqrt_large [OF 3 assms(1)] by (auto simp: is_root_def)
  qed (use Sqrt_nonpos [of N depth] Sqrt_overflow [of N depth] assms(2) in auto)
qed

text \<open>The argument of the program, with the depth that compilers accept.\<close>

theorem Sqrt_correct_witness: "Sqrt 900 16 = Inr 4 \<and> (1 :: int) \<le> 16 \<and> (4 :: int) * 4 \<le> 16 \<and> (16 :: int) < (4 + 1) * (4 + 1)"
  using Sqrt_correct [of 900 16] Sqrt_16 by simp


section \<open>Primes\<close>

definition prime_int :: "int \<Rightarrow> bool" where
  "prime_int p \<longleftrightarrow> 2 \<le> p \<and> (\<forall>d. d dvd p \<longrightarrow> d < 2 \<or> d \<ge> p)"

text \<open>The template tests all divisors from \<open>i\<close> down to 2.\<close>

lemma is_prime_tests:
  assumes "3 \<le> p" "2 \<le> i" "i < int depth"
  shows "is_prime depth p i = Inr (\<forall>d \<in> {2..i}. \<not> d dvd p)"
  using assms
proof (induction depth arbitrary: i)
  case (Suc depth)
  show ?case
  proof (cases "i = 2")
    case True
    then obtain d where "depth = Suc d" using Suc.prems(3) by (cases depth) auto
    then show ?thesis using True Suc.prems by (auto simp: dvd_eq_mod_eq_0)
  next
    case False
    have set: "{2..i} = insert i {2..i - 1}" using False Suc.prems(2) by auto
    have "is_prime depth p (i - 1) = Inr (\<forall>d \<in> {2..i - 1}. \<not> d dvd p)" using Suc False by simp
    then show ?thesis using False Suc.prems unfolding set by (auto simp: dvd_eq_mod_eq_0)
  qed
qed simp

lemma is_prime_decides:
  assumes "2 \<le> p" "p < int depth" shows "is_prime depth p (p - 1) = Inr (prime_int p)"
proof (cases "p = 2")
  case True
  then have depth: "Suc (Suc (depth - 2)) = depth" using assms(2) by simp
  have "is_prime (Suc (Suc k)) 2 1 = Inr True" for k by simp
  then have "is_prime depth 2 1 = Inr True" using depth by metis
  then show ?thesis using True by (auto simp: prime_int_def)
next
  case False
  then have "is_prime depth p (p - 1) = Inr (\<forall>d \<in> {2..p - 1}. \<not> d dvd p)" using assms is_prime_tests [of p "p - 1" depth] by simp
  moreover have "(\<forall>d \<in> {2..p - 1}. \<not> d dvd p) \<longleftrightarrow> prime_int p" using assms(1) by (force simp: prime_int_def)
  ultimately show ?thesis by simp
qed

lemma upto_snoc: "1 < n \<Longrightarrow> [1..n] = [1..n - 1] @ [n]" for n :: int
  using upto_rec2 [of 1 n] by simp

text \<open>
  The errors of the prime printer. When the compiler nests instantiations deeper than \<open>n + 1\<close>, instantiating \<^verbatim>\<open>Prime_print<n>\<close> and its \<open>f\<close> gives one
  error for every prime from \<open>n\<close> down, and no other.
\<close>

theorem Prime_print_correct:
  assumes "1 \<le> n" "n + 1 < int depth"
  shows "Prime_print depth n = Inr (rev (filter prime_int [1..n]))"
  using assms
proof (induction depth arbitrary: n)
  case (Suc depth)
  show ?case
  proof (cases "n = 1")
    case True
    then show ?thesis by (simp add: prime_int_def)
  next
    case False
    then have n: "1 < n" "n < int depth" using Suc.prems False by auto
    have "Prime_print depth (n - 1) = Inr (rev (filter prime_int [1..n - 1]))" using Suc.IH n by simp
    moreover have "is_prime depth n (n - 1) = Inr (prime_int n)" using n by (intro is_prime_decides) auto
    ultimately show ?thesis using False upto_snoc [OF n(1)] by simp
  qed
qed simp

text \<open>The first primes, with an error for each.\<close>

theorem Prime_print_correct_witness: "Prime_print 900 13 = Inr (rev (filter prime_int [1..13])) \<and> Prime_print 900 13 = Inr [13, 11, 7, 5, 3, 2]"
  using Prime_print_correct [of 13 900] by (simp add: eval_nat_numeral)


section \<open>Logarithm\<close>

lemma mask_test: "p < 64 \<Longrightarrow> (N AND push_bit p 1 = push_bit p 1) \<longleftrightarrow> bit N p" for N :: "64 word"
  unfolding bit_eq_iff [where 'a = "64 word"] by (auto simp: bit_simps)

lemma top_bit:
  fixes N :: "64 word"
  assumes "unat N < 2 ^ Suc p" shows "bit N p \<longleftrightarrow> 2 ^ p \<le> unat N"
proof -
  have "bit (unat N) p \<longleftrightarrow> odd (unat N div 2 ^ p)" by (simp add: bit_iff_odd)
  moreover have "bit (unat N) p \<longleftrightarrow> bit N p" by (simp add: bit_unsigned_iff)
  moreover have "unat N div 2 ^ p < 2" using assms by (simp add: div_less_iff_less_mult)
  moreover have "unat N div 2 ^ p = 0 \<longleftrightarrow> unat N < 2 ^ p" by (simp add: div_eq_0_iff)
  ultimately show ?thesis by (auto simp: less_2_cases_iff)
qed

lemma static_log_loop_spec:
  assumes "n \<le> 64" "N \<noteq> 0" "unat N < 2 ^ n"
  shows "\<exists>p. static_log_loop N n = Inr (p, push_bit p 1) \<and> p < n \<and> 2 ^ p \<le> unat N \<and> unat N < 2 ^ Suc p"
  using assms
proof (induction n)
  case 0
  then show ?case by (simp add: unat_eq_zero)
next
  case (Suc p)
  then show ?case using mask_test [of p N] top_bit [of N p] by (cases "bit N p") (auto simp: Let_def less_Suc_eq)
qed

lemma unat_push_bit_1: "unat (push_bit p 1 :: 64 word) = 2 ^ p" if "p < 64"
proof -
  have "(2 :: nat) ^ p < 2 ^ 64" using that by (intro power_strict_increasing) auto
  then show ?thesis
    using unsigned_push_bit_eq [of p "1 :: 64 word", where ?'a = nat] by (simp add: take_bit_eq_mod push_bit_eq_mult del: push_bit_of_1)
qed

text \<open>
  C32. The static logarithm: it is the logarithm rounded up, the least \<open>k\<close> with \<open>N \<le> 2 ^ k\<close>, for every number but 0, which throws.
\<close>

theorem static_log_correct:
  "case static_log N of
    Inl e \<Rightarrow> N = 0 \<and> e = Thrown ''N == 0 not supported''
  | Inr k \<Rightarrow> N \<noteq> 0 \<and> k \<le> 64 \<and> (\<forall>j. unat N \<le> 2 ^ j \<longleftrightarrow> k \<le> j)"
proof (cases "N = 0")
  case False
  obtain p where p: "static_log_loop N 64 = Inr (p, push_bit p 1)" "p < 64" "2 ^ p \<le> unat N" "unat N < 2 ^ Suc p"
    using static_log_loop_spec [of 64 N] False unsigned_less [of N] by auto
  have eq: "N = push_bit p 1 \<longleftrightarrow> unat N = 2 ^ p" using unat_push_bit_1 [OF p(2)] by (metis word_unat_eq_iff)
  have "unat N \<le> 2 ^ j \<longleftrightarrow> (if unat N = 2 ^ p then p \<le> j else p + 1 \<le> j)" for j
  proof (cases "p < j")
    case True
    then have "(2 :: nat) ^ Suc p \<le> 2 ^ j" by (intro power_increasing) auto
    then show ?thesis using p(4) True by simp
  next
    case False
    then have "(2 :: nat) ^ j \<le> 2 ^ p" by (intro power_increasing) auto
    then have "unat N \<le> 2 ^ j \<longleftrightarrow> unat N = 2 ^ p \<and> (2 :: nat) ^ p \<le> 2 ^ j" using p(3) by linarith
    then show ?thesis using False by auto
  qed
  then show ?thesis using p False eq by (auto simp: static_log_def)
qed (simp add: static_log_def)


section \<open>Binary literals\<close>

text \<open>The number a string of binary digits denotes.\<close>

definition bin_value :: "string \<Rightarrow> int" where
  "bin_value cs = foldl (\<lambda>s c. 2 * s + (if c = CHR ''1'' then 1 else 0)) 0 cs"

lemma bin_foldl_ge: "0 \<le> s \<Longrightarrow> s \<le> foldl (\<lambda>s c. 2 * s + (if c = CHR ''1'' then 1 else 0)) s cs" for s :: int
proof (induction cs arbitrary: s)
  case (Cons c cs)
  let ?s = "2 * s + (if c = CHR ''1'' then 1 else 0)"
  have "s \<le> ?s" "0 \<le> ?s" using Cons.prems by simp_all
  then show ?case using Cons.IH [of ?s] unfolding foldl.simps by (rule_tac order_trans [of s ?s]) auto
qed simp

lemma bin_value_nonneg: "0 \<le> bin_value cs"
  unfolding bin_value_def using bin_foldl_ge [of 0] by simp

lemma binparser_eq: "binparser s cs = Inr v \<longleftrightarrow> binary_loop cs s = Inr v"
  by (induction cs arbitrary: s) (auto simp: binary_step_def bindE_eq_Inr_iff)

lemma binary_loop_value:
  assumes "0 \<le> s" "s < 2 ^ 31"
  shows "binary_loop cs s = Inr v \<longleftrightarrow> set cs \<subseteq> {CHR ''0'', CHR ''1''} \<and> v < 2 ^ 31 \<and>
    v = foldl (\<lambda>s c. 2 * s + (if c = CHR ''1'' then 1 else 0)) s cs"
  using assms
proof (induction cs arbitrary: s)
  case (Cons c cs)
  let ?f = "\<lambda>s c. 2 * s + (if c = CHR ''1'' then 1 else 0) :: int"
  show ?case
  proof (cases "c \<in> {CHR ''0'', CHR ''1''} \<and> ?f s c < 2 ^ 31")
    case True
    then have "binary_step c s = Inr (?f s c)" using Cons.prems by (auto simp: binary_step_def ce_int_def mult.commute)
    then show ?thesis using Cons.IH [of "?f s c"] Cons.prems True by auto
  next
    case False
    then have "\<exists>e. binary_step c s = Inl e" using Cons.prems by (auto simp: binary_step_def ce_int_def mult.commute bindE_def)
    moreover have "2 ^ 31 \<le> foldl ?f s (c # cs)" if "c \<in> {CHR ''0'', CHR ''1''}"
      using that False bin_foldl_ge [of "?f s c" cs] Cons.prems(1) by (auto simp: not_less)
    ultimately show ?thesis by auto
  qed
qed auto

text \<open>
  Binary literals: the template and the loop agree, and give the number the digits denote, for every string of
  binary digits whose number has type \<open>int\<close>; for every other string neither has a value.
\<close>

theorem binary_literals_agree:
  "(binary_types cs = Inr v \<longleftrightarrow> binary_ce cs = Inr v) \<and>
   (binary_ce cs = Inr v \<longleftrightarrow> set cs \<subseteq> {CHR ''0'', CHR ''1''} \<and> bin_value cs < 2 ^ 31 \<and> v = bin_value cs)"
  unfolding binary_types_def binary_ce_def bin_value_def using binparser_eq [of 0 cs v] binary_loop_value [of 0 cs v] by auto

section \<open>Factorial and Fibonacci\<close>

lemma fact_13: "fact 12 = (479001600 :: int)" "fact 13 = (6227020800 :: int)"
  by (simp_all add: fact_numeral)

lemma fact_ct_value:
  assumes "0 \<le> N" "N < int depth" "N < 2 ^ 31"
  shows "fact_ct depth N = (if N \<le> 12 then Inr (fact (nat N)) else Inl Not_constant)"
  using assms
proof (induction depth arbitrary: N)
  case (Suc d)
  show ?case
  proof (cases "N = 0")
    case False
    then have IH: "fact_ct d (N - 1) = (if N - 1 \<le> 12 then Inr (fact (nat (N - 1))) else Inl Not_constant)"
      using Suc by simp
    have N: "nat N = Suc (nat (N - 1))" using False Suc.prems(1) by simp
    have prod: "N * fact (nat (N - 1)) = fact (nat N)" unfolding N using False Suc.prems(1) by simp
    consider "N \<le> 12" | "N = 13" | "13 < N" by linarith
    then show ?thesis
    proof cases
      case 1
      then have "(fact (nat N) :: int) \<le> fact 12" by (intro fact_mono) auto
      then have "ce_int (fact (nat N)) = Inr (fact (nat N))" by (intro ce_int_simps(1) order_trans [OF _ fact_ge_zero]) (simp_all add: fact_13)
      then show ?thesis using 1 False IH prod Suc.prems by simp
    next
      case 2
      have "nat N = 13" using 2 by simp
      then have "ce_int (fact (nat N)) = Inl Not_constant" by (simp only: fact_13) simp
      then show ?thesis using 2 False IH prod by simp
    qed (use IH False Suc.prems in simp)
  qed simp
qed simp

lemma fib_rec: "2 \<le> N \<Longrightarrow> fib (nat N) = fib (nat (N - 1)) + fib (nat (N - 2))"
  using fib.simps(3) [of "nat (N - 2)"] by (simp add: Suc_nat_eq_nat_zadd1 add.commute flip: nat_add_distrib)

lemma fibonacci_ct_value:
  assumes "0 \<le> N" "N < int depth" "N < 2 ^ 31"
  shows "fibonacci_ct depth N = (if N \<le> 46 then Inr (fib (nat N)) else Inl Not_constant)"
  using assms
proof (induction depth arbitrary: N)
  case (Suc d)
  show ?case
  proof (cases "N = 0 \<or> N = 1")
    case False
    then have IH: "fibonacci_ct d (N - 1) = (if N - 1 \<le> 46 then Inr (fib (nat (N - 1))) else Inl Not_constant)"
      "fibonacci_ct d (N - 2) = (if N - 2 \<le> 46 then Inr (fib (nat (N - 2))) else Inl Not_constant)"
      using Suc by simp_all
    have sum: "fib (nat (N - 1)) + fib (nat (N - 2)) = fib (nat N)" using fib_rec [of N] False Suc.prems(1) by simp
    consider "N \<le> 46" | "N = 47" | "47 < N" by linarith
    then show ?thesis
    proof cases
      case 1
      then have "ce_int (fib (nat N)) = Inr (fib (nat N))"
        using fib_mono [of "nat N" 46] fib_nonneg [of "nat N"] fib_46 by (intro ce_int_simps(1)) (simp_all add: nat_le_iff)
      then show ?thesis using 1 False IH sum Suc.prems by simp
    next
      case 2
      then show ?thesis using False IH Suc.prems fib_46 fib_45 by (simp add: ce_int_def)
    qed (use IH False Suc.prems in simp)
  qed auto
qed simp

text \<open>
  Factorial and Fibonacci numbers at compile time: with a depth above the argument the templates have the
  number as their value as long as it has type \<open>int\<close>, up to 12 and up to 46, and are ill-formed from there on.
\<close>

theorem number_templates:
  assumes "0 \<le> N" "N < int depth" "N < 2 ^ 31"
  shows "fact_ct depth N = (if N \<le> 12 then Inr (fact (nat N)) else Inl Not_constant) \<and>
    fibonacci_ct depth N = (if N \<le> 46 then Inr (fib (nat N)) else Inl Not_constant)"
  using fact_ct_value [OF assms] fibonacci_ct_value [OF assms] by simp

theorem number_templates_witness: "fact_ct 900 5 = Inr 120 \<and> fibonacci_ct 900 47 = Inl Not_constant"
  using number_templates [of 5 900] number_templates [of 47 900] by (simp add: fact_numeral)


section \<open>Unsigned values\<close>

lemma unat_minus: "N \<noteq> 0 \<Longrightarrow> unat (N - 1) = unat N - 1" for N :: "32 word"
  by (simp add: unat_minus_one)

lemma unat_minus2: "N \<noteq> 0 \<Longrightarrow> N \<noteq> 1 \<Longrightarrow> unat (N - 2) = unat N - 2" for N :: "32 word"
  using word_two_le [of N] by (simp add: unat_sub_if')

lemma fib_rec_nat: "2 \<le> n \<Longrightarrow> fib n = fib (n - 1) + fib (n - 2)"
  using fib.simps(3) [of "n - 2"] by (simp add: Suc_diff_Suc numeral_2_eq_2 flip: Suc_diff_le)

lemma factorial_ct_value:
  "unat N < depth \<Longrightarrow> factorial_ct depth N = Inr (of_nat (fact (unat N)))"
proof (induction depth arbitrary: N)
  case (Suc d)
  show ?case
  proof (cases "N = 0")
    case False
    then have IH: "factorial_ct d (N - 1) = Inr (of_nat (fact (unat N - 1)))" using Suc.IH [of "N - 1"] Suc.prems unat_eq_zero [of N] by (simp add: unat_minus)
    have "fact (unat N) = unat N * fact (unat N - 1)" using False unat_eq_zero [of N] fact_reduce [of "unat N", where 'a = nat] by simp
    then show ?thesis using False IH by simp
  qed simp
qed simp

lemma Fibonacci_ct_value:
  "unat N < depth \<Longrightarrow> Fibonacci_ct depth N = Inr (of_int (fib (unat N)))"
proof (induction depth arbitrary: N)
  case (Suc d)
  show ?case
  proof (cases "N = 0 \<or> N = 1")
    case False
    then have N: "2 \<le> unat N" using word_two_le by blast
    then have "Fibonacci_ct d (N - 1) = Inr (of_int (fib (unat N - 1)))" "Fibonacci_ct d (N - 2) = Inr (of_int (fib (unat N - 2)))"
      using Suc False by (simp_all add: unat_minus unat_minus2)
    then show ?thesis using False fib_rec_nat [OF N] by simp
  qed auto
qed simp

lemma Fibonacci_mod_naive:
  "unat N < depth \<Longrightarrow> Fibonacci_mod depth N m = fib_naive_mod N m"
proof (induction depth arbitrary: N)
  case (Suc d)
  show ?case
  proof (cases "N = 0 \<or> N = 1")
    case False
    then have N: "2 \<le> unat N" using word_two_le by blast
    then have "Fibonacci_mod d (N - 1) m = fib_naive_mod (N - 1) m" "Fibonacci_mod d (N - 2) m = fib_naive_mod (N - 2) m"
      using Suc False by (simp_all add: unat_minus unat_minus2)
    then show ?thesis using False by (simp add: fib_naive_mod.simps [of N])
  qed (auto simp: fib_naive_mod.simps [of N])
qed simp

lemma fib_naive_mod_value:
  assumes "0 < unat m" "unat m \<le> 2 ^ 31"
  shows "\<exists>w. fib_naive_mod N m = Inr w \<and> unat w \<le> max 1 (unat m - 1) \<and> uint w mod uint m = fib (unat N) mod uint m \<and>
    (2 \<le> unat N \<longrightarrow> uint w = fib (unat N) mod uint m)"
  using assms
proof (induction N m rule: fib_naive_mod.induct)
  case (1 n m)
  show ?case
  proof (cases "n = 0 \<or> n = 1")
    case True
    then show ?thesis by (auto simp: fib_naive_mod.simps [of n])
  next
    case False
    then have n: "2 \<le> unat n" using word_two_le by blast
    obtain f g where f: "fib_naive_mod (n - 1) m = Inr f" "unat f \<le> max 1 (unat m - 1)" "uint f mod uint m = fib (unat n - 1) mod uint m"
      and g: "fib_naive_mod (n - 2) m = Inr g" "unat g \<le> max 1 (unat m - 1)" "uint g mod uint m = fib (unat n - 2) mod uint m"
      using 1 False by (force simp: unat_minus unat_minus2)
    have "max 1 (unat m - 1) < 2 ^ 31" using 1(4) by simp
    then have "unat f < 2 ^ 31" "unat g < 2 ^ 31" using f(2) g(2) by (auto intro: le_less_trans)
    then have "unat (f + g) = unat f + unat g" unfolding unat_word_ariths(1) by (intro mod_less) simp
    then have sum: "uint (f + g) = uint f + uint g" by (metis of_nat_add uint_nat)
    have m: "m \<noteq> 0" using 1(3) by auto
    have "uint ((f + g) mod m) = fib (unat n) mod uint m"
      unfolding uint_mod sum fib_rec_nat [OF n] using f(3) g(3) by (metis mod_add_eq)
    moreover have "unat ((f + g) mod m) < unat m"
      using 1(3) by (simp add: unat_mod)
    then have "unat ((f + g) mod m) \<le> max 1 (unat m - 1)" by linarith
    ultimately show ?thesis using False f(1) g(1) m by (subst fib_naive_mod.simps) simp
  qed
qed

text \<open>
  Fibonacci numbers modulo a number: with a depth above the argument the template has the value the function computes;
  when the modulus is neither 0 nor above \<open>2 ^ 31\<close> no addition wraps, and the value from the second number on is the Fibonacci number modulo it.
\<close>

theorem fib_modulo_agrees:
  assumes "unat N < depth" "0 < unat m" "unat m \<le> 2 ^ 31" "2 \<le> unat N"
  shows "Fibonacci_mod depth N m = fib_naive_mod N m \<and> (\<exists>w. fib_naive_mod N m = Inr w \<and> uint w = fib (unat N) mod uint m)"
  using Fibonacci_mod_naive [OF assms(1)] fib_naive_mod_value [OF assms(2,3), of N] assms(4) by auto

text \<open>The argument of the program.\<close>

theorem fib_modulo_agrees_witness: "Fibonacci_mod 10000 44 1000 = fib_naive_mod 44 1000 \<and> fib_naive_mod 44 1000 = Inr 733"
proof -
  have "fib 44 = 701408733" using fib_rec_nat [of 46] fib_46 fib_45 by simp
  then have "Fibonacci_mod 10000 44 1000 = fib_naive_mod 44 1000 \<and> (\<exists>w. fib_naive_mod 44 1000 = Inr w \<and> uint w = uint (733 :: 32 word))"
    using fib_modulo_agrees [of 44 10000 1000] by simp
  then show ?thesis using word_uint_eqI by blast
qed

end
