(* ===== verification/Range_Algs.thy ===== *)
theory Range_Algs
  imports Input Fib_Numbers
begin

text \<open>
  Programs on ranges of a sequence: moving a block to another position (\<^verbatim>\<open>17-algorithms/repose.cc\<close> and \<^verbatim>\<open>rotates.cc\<close>), trimming a view
  (\<^verbatim>\<open>16-containers/sview.cc\<close>), counting the elements of a set in an interval (\<^verbatim>\<open>03-concrete/setsol.cc\<close>), the iterator over Fibonacci numbers
  (\<^verbatim>\<open>14-iterators/fibit.cc\<close>), the work of a benchmark (\<^verbatim>\<open>17-algorithms/bench-unseq.cc\<close>) and a conditional transformation in three versions (\<^verbatim>\<open>archive/15-algs\<close>).
  Iterators into a vector are positions; an algorithm of the library that is called outside its preconditions is undefined behaviour.
\<close>

section \<open>Moving a block (\<^verbatim>\<open>repose.cc\<close>, \<^verbatim>\<open>rotates.cc\<close>)\<close>

text \<open>\<^verbatim>\<open>std::rotate\<close> needs valid ranges \<open>[first, middle)\<close> and \<open>[middle, last)\<close>.\<close>

definition rotate_range :: "'a list \<Rightarrow> nat \<Rightarrow> nat \<Rightarrow> nat \<Rightarrow> 'a list res" where
  "rotate_range v first middle lst =
    (if first \<le> middle \<and> middle \<le> lst \<and> lst \<le> length v
     then Inr (take first v @ std_rotate (middle - first) (drop first (take lst v)) @ drop lst v)
     else Inl Undefined_behaviour)"

definition repose :: "'a list \<Rightarrow> nat \<Rightarrow> nat \<Rightarrow> nat \<Rightarrow> 'a list res" where
  "repose v first lst pos =
    (if first = pos \<or> lst = pos then Inr v
     else if lst < pos \<and> first > pos then Inl (Runtime_error ''Can not move to position inside interval'')
     else if first < pos then rotate_range v first lst pos
     else rotate_range v pos first lst)"

text \<open>\<^verbatim>\<open>std::copy\<close> to the output iterator, and the end of the line.\<close>

definition copy_osit :: "int list \<Rightarrow> string" where
  "copy_osit v = concat (map (\<lambda>x. string_of_int x @ '' '') v) @ endl"

definition repose_main :: "string res" where
  "repose_main =
    (let v = std_iota 1 10 in
     bindE (repose v (std_find 3 v) (std_find 6 v) (std_find 8 v)) (\<lambda>v1.
     bindE (repose v (std_find 7 v) (std_find 9 v) (std_find 2 v)) (\<lambda>v2.
     Inr (copy_osit v @ copy_osit v1 @ copy_osit v2))))"

definition rotates_main :: "string res" where
  "rotates_main =
    (let v = std_iota 1 10 in
     bindE (rotate_range v (std_find 3 v) (std_find 6 v) (std_find 8 v)) (\<lambda>v1.
     bindE (rotate_range v (std_find 2 v) (std_find 7 v) (std_find 9 v)) (\<lambda>v2.
     Inr (copy_osit v @ copy_osit v1 @ copy_osit v2))))"

section \<open>Trimming a view (\<^verbatim>\<open>sview.cc\<close>)\<close>

text \<open>Sizes and positions have 64 bits; \<open>npos\<close> is the greatest.\<close>

definition npos :: "64 word" where
  "npos = - 1"

definition view_size :: "string \<Rightarrow> 64 word" where
  "view_size sv = of_nat (length sv)"

definition find_first_not_of :: "char \<Rightarrow> string \<Rightarrow> 64 word" where
  "find_first_not_of c sv = (if set sv \<subseteq> {c} then npos else of_nat (length (takeWhile (\<lambda>x. x = c) sv)))"

definition find_last_not_of :: "char \<Rightarrow> string \<Rightarrow> 64 word" where
  "find_last_not_of c sv = (if set sv \<subseteq> {c} then npos else of_nat (length (dropWhile (\<lambda>x. x = c) (rev sv)) - 1))"

text \<open>Removing more characters than there are is undefined.\<close>

definition remove_prefix :: "64 word \<Rightarrow> string \<Rightarrow> string res" where
  "remove_prefix n sv = (if unat n \<le> length sv then Inr (drop (unat n) sv) else Inl Undefined_behaviour)"

definition remove_suffix :: "64 word \<Rightarrow> string \<Rightarrow> string res" where
  "remove_suffix n sv = (if unat n \<le> length sv then Inr (take (length sv - unat n) sv) else Inl Undefined_behaviour)"

definition trim :: "string \<Rightarrow> string res" where
  "trim sv =
    (let trimfst = find_first_not_of CHR '' '' sv in
     bindE (remove_prefix (min trimfst (view_size sv)) sv) (\<lambda>sv.
       let trimlst = find_last_not_of CHR '' '' sv; sz = view_size sv - 1; minsz = min trimlst sz in
       remove_suffix (sz - minsz) sv))"

section \<open>Queries on a set (\<^verbatim>\<open>setsol.cc\<close>)\<close>

text \<open>
  \<^verbatim>\<open>std::set\<close> keeps its elements in order without duplicates; an iterator is a position. \<^verbatim>\<open>mydistance\<close> is not part of the repository, it is
  a parameter.
\<close>

definition set_insert :: "int \<Rightarrow> int list \<Rightarrow> int list" where
  "set_insert x s = (if x \<in> set s then s else insort x s)"

definition lower_bound :: "int list \<Rightarrow> int \<Rightarrow> nat" where
  "lower_bound s x = length (takeWhile (\<lambda>y. y < x) s)"

definition upper_bound :: "int list \<Rightarrow> int \<Rightarrow> nat" where
  "upper_bound s x = length (takeWhile (\<lambda>y. y \<le> x) s)"

definition range_query :: "(int list \<Rightarrow> nat \<Rightarrow> nat \<Rightarrow> int res) \<Rightarrow> int list \<Rightarrow> int \<Rightarrow> int \<Rightarrow> int res" where
  "range_query mydistance s lo hi = mydistance s (lower_bound s lo) (upper_bound s hi)"

text \<open>
  Reading an integer and asserting \<^verbatim>\<open>std::cin.good()\<close>: the assertion also fails when the number is the last thing in
  the input, because then reading it reaches the end.
\<close>

definition read_int_good :: "string \<Rightarrow> (int \<times> string) res" where
  "read_int_good inp = (case scan_int inp of
      None \<Rightarrow> Inl Assertion_failed
    | Some (v, inp') \<Rightarrow> if - (2 ^ 31) \<le> v \<and> v < 2 ^ 31 \<and> inp' \<noteq> [] then Inr (v, inp') else Inl Assertion_failed)"

lemma scan_int_shorter: "scan_int inp = Some (v, inp') \<Longrightarrow> length inp' < length inp"
proof -
  assume a: "scan_int inp = Some (v, inp')"
  define s where "s = dropWhile isspace inp"
  define s1 where "s1 = (if s \<noteq> [] \<and> (hd s = CHR ''-'' \<or> hd s = CHR ''+'') then tl s else s)"
  have "takeWhile isdigit s1 \<noteq> []" "inp' = dropWhile isdigit s1"
    using a by (auto simp: scan_int_def Let_def s_def [symmetric] s1_def [symmetric] split: if_splits)
  moreover have "length s1 \<le> length s" by (auto simp: s1_def)
  moreover have "length s \<le> length inp" unfolding s_def by (rule length_dropWhile_le)
  moreover have "length s1 = length (takeWhile isdigit s1) + length (dropWhile isdigit s1)" by (metis length_append takeWhile_dropWhile_id)
  ultimately show "length inp' < length inp" by (cases "takeWhile isdigit s1") auto
qed

lemma read_int_good_shorter: "read_int_good inp = Inr (v, inp') \<Longrightarrow> length inp' < length inp"
  using scan_int_shorter [of inp] by (auto simp: read_int_good_def split: option.splits prod.splits if_splits)

text \<open>The loop; the output before an error is kept.\<close>

function setsol_loop :: "(int list \<Rightarrow> nat \<Rightarrow> nat \<Rightarrow> int res) \<Rightarrow> string \<Rightarrow> int list \<Rightarrow> string \<Rightarrow> string \<times> unit res" where
  "setsol_loop mydistance inp s out =
    (case dropWhile isspace inp of
       [] \<Rightarrow> (out @ endl, Inr ())
     | c # inp1 \<Rightarrow>
         if c = CHR ''k'' then (case read_int_good inp1 of
             Inl e \<Rightarrow> (out, Inl e)
           | Inr (v, inp2) \<Rightarrow> setsol_loop mydistance inp2 (set_insert v s) out)
         else if c = CHR ''q'' then (case read_int_good inp1 of
             Inl e \<Rightarrow> (out, Inl e)
           | Inr (lo, inp2) \<Rightarrow> (case read_int_good inp2 of
               Inl e \<Rightarrow> (out, Inl e)
             | Inr (hi, inp3) \<Rightarrow> (case range_query mydistance s lo hi of
                 Inl e \<Rightarrow> (out, Inl e)
               | Inr n \<Rightarrow> setsol_loop mydistance inp3 s (out @ string_of_int n @ '' ''))))
         else setsol_loop mydistance inp1 s out)"
  by auto
termination
proof (relation "measure (\<lambda>(d, inp, s, out). length inp)", goal_cases)
  case (2 d inp s out c inp1 p v inp2)
  then show ?case using read_int_good_shorter [of inp1 v inp2] length_dropWhile_le [of isspace inp] by auto
next
  case (3 d inp s out c inp1 p lo inp2 p' hi inp3 n)
  then show ?case using read_int_good_shorter [of inp1 lo inp2] read_int_good_shorter [of inp2 hi inp3] length_dropWhile_le [of isspace inp] by auto
next
  case (4 d inp s out c inp1)
  then show ?case using length_dropWhile_le [of isspace inp] by auto
qed simp

declare setsol_loop.simps [simp del]

definition setsol_main :: "(int list \<Rightarrow> nat \<Rightarrow> nat \<Rightarrow> int res) \<Rightarrow> string \<Rightarrow> string \<times> unit res" where
  "setsol_main mydistance inp = setsol_loop mydistance inp [] []"


section \<open>The iterator over Fibonacci numbers (\<^verbatim>\<open>fibit.cc\<close>)\<close>

record fibit =
  cur :: int
  prev :: int

definition cxx_int :: "int \<Rightarrow> int res" where
  "cxx_int x = (if - (2 ^ 31) \<le> x \<and> x < 2 ^ 31 then Inr x else Inl Undefined_behaviour)"

definition fibit_inc :: "fibit \<Rightarrow> fibit res" where
  "fibit_inc it = bindE (cxx_int (cur it + prev it)) (\<lambda>c. Inr \<lparr>cur = c, prev = cur it\<rparr>)"

definition fibit_begin :: fibit where
  "fibit_begin = \<lparr>cur = 1, prev = 0\<rparr>"

definition fibit_end :: fibit where
  "fibit_end = \<lparr>cur = 89, prev = 55\<rparr>"

text \<open>The range-based \<open>for\<close>; it ends with the end iterator, or with the overflow that comes after it.\<close>

partial_function (option) fibit_for :: "fibit \<Rightarrow> string \<Rightarrow> string res option" where
  "fibit_for it out =
    (if it = fibit_end then Some (Inr (out @ endl))
     else (case fibit_inc it of
         Inl e \<Rightarrow> Some (Inl e)
       | Inr it' \<Rightarrow> fibit_for it' (out @ string_of_int (cur it) @ '' '')))"

definition fibit_main :: "string res option" where
  "fibit_main = fibit_for fibit_begin []"

section \<open>The work of a benchmark (\<^verbatim>\<open>bench-unseq.cc\<close>)\<close>

text \<open>The loop returns when the sequence of its argument reaches 1, which no one knows for all arguments.\<close>

partial_function (option) collatz_loop :: "int \<Rightarrow> int \<Rightarrow> int res option" where
  "collatz_loop n c =
    (if n > 1
     then (case cxx_int (c + 1) of
         Inl e \<Rightarrow> Some (Inl e)
       | Inr c' \<Rightarrow>
           if n mod 2 = 0 then collatz_loop (n div 2) c'
           else (case bindE (cxx_int (3 * n)) (\<lambda>m. cxx_int (m + 1)) of
               Inl e \<Rightarrow> Some (Inl e)
             | Inr n' \<Rightarrow> collatz_loop n' c'))
     else Some (Inr c))"

definition collatz :: "int \<Rightarrow> int res option" where
  "collatz n = collatz_loop n 0"

section \<open>Filter and transform (\<^verbatim>\<open>archive/15-algs\<close>)\<close>

text \<open>
  An \<^verbatim>\<open>istream_iterator\<close> reads numbers until one cannot be read. The functions printed to are an \<^verbatim>\<open>ostream_iterator\<close>, which
  prints what is assigned to it and does nothing when incremented.
\<close>

function istream_numbers :: "string \<Rightarrow> int list" where
  "istream_numbers is = (case scan_int is of
     None \<Rightarrow> []
   | Some (v, is') \<Rightarrow> if - (2 ^ 31) \<le> v \<and> v < 2 ^ 31 then v # istream_numbers is' else [])"
  by auto
termination by (relation "measure length") (auto dest: scan_int_shorter)

declare istream_numbers.simps [simp del]

definition ostream_assign :: "int \<Rightarrow> string \<Rightarrow> string" where
  "ostream_assign x out = out @ string_of_int x @ '' ''"

definition times2 :: "int \<Rightarrow> int res" where
  "times2 n = cxx_int (n * 2)"

fun foreach01_loop :: "int list \<Rightarrow> string \<Rightarrow> string res" where
  "foreach01_loop [] out = Inr out"
| "foreach01_loop (d # ds) out =
    (if d < 5 then bindE (times2 d) (\<lambda>x. foreach01_loop ds (ostream_assign x out)) else foreach01_loop ds out)"

definition foreach01 :: "string \<Rightarrow> string res" where
  "foreach01 is = bindE (foreach01_loop (istream_numbers is) []) (\<lambda>out. Inr (out @ endl))"

fun transform_copy_if :: "int list \<Rightarrow> string \<Rightarrow> (int \<Rightarrow> bool) \<Rightarrow> (int \<Rightarrow> int res) \<Rightarrow> string res" where
  "transform_copy_if [] out pred func = Inr out"
| "transform_copy_if (x # xs) out pred func =
    bindE (if pred x then bindE (func x) (\<lambda>y. Inr (ostream_assign y out)) else Inr out) (\<lambda>out'.
      transform_copy_if xs out' pred func)"

definition foreach02 :: "string \<Rightarrow> string res" where
  "foreach02 is = bindE (transform_copy_if (istream_numbers is) [] (\<lambda>n. n < 5) times2) (\<lambda>out. Inr (out @ endl))"

fun std_transform :: "int list \<Rightarrow> string \<Rightarrow> (int \<Rightarrow> int res) \<Rightarrow> string res" where
  "std_transform [] out f = Inr out"
| "std_transform (x # xs) out f = bindE (f x) (\<lambda>y. std_transform xs (ostream_assign y out) f)"

definition foreach03 :: "string \<Rightarrow> string res" where
  "foreach03 is =
    (let v = filter (\<lambda>n. n < 5) (istream_numbers is) in bindE (std_transform v [] times2) (\<lambda>out. Inr (out @ endl)))"

end
