(* ===== verification/Range_Props.thy ===== *)
theory Range_Props
  imports Range_Algs
begin

text \<open>
  What the programs on ranges do: a block is moved to any position outside it and the check of a position inside it never applies; a view is
  trimmed on both sides, also when it is blank; queries count the keys of an interval; the iterator visits ten
  Fibonacci numbers; the benchmark overflows; and the three versions of filter and transform agree.
\<close>

section \<open>Moving a block\<close>

text \<open>The sequence with the block \<open>[a, b)\<close> before position \<open>p\<close>.\<close>

definition moved :: "'a list \<Rightarrow> nat \<Rightarrow> nat \<Rightarrow> nat \<Rightarrow> 'a list" where
  "moved v a b p =
    (let block = drop a (take b v) in
     if p \<le> a then take p v @ block @ drop p (take a v) @ drop b v
     else take a v @ drop b (take p v) @ block @ drop p v)"

lemma drop_split: "a \<le> b \<Longrightarrow> b \<le> c \<Longrightarrow> c \<le> length v \<Longrightarrow>
    drop (b - a) (drop a (take c v)) = drop b (take c v) \<and> take (b - a) (drop a (take c v)) = drop a (take b v)"
  by (simp add: take_drop min_def)

lemma rotate_range_blocks:
  "a \<le> b \<Longrightarrow> b \<le> c \<Longrightarrow> c \<le> length v \<Longrightarrow>
    rotate_range v a b c = Inr (take a v @ drop b (take c v) @ drop a (take b v) @ drop c v)"
  using drop_split [of a b c v] by (simp add: rotate_range_def std_rotate_def)

lemma whole: "a \<le> b \<Longrightarrow> b \<le> length v \<Longrightarrow> take a v @ drop a (take b v) @ drop b v = v"
  by (metis append.assoc append_take_drop_id take_add le_add_diff_inverse drop_take)

text \<open>
  C33. Moving a block: for valid iterators the block is put before the position when that is not inside the block; a
  position inside it is undefined behaviour, the exception is never thrown. Both programs print the same.
\<close>

theorem repose_contract:
  assumes "first \<le> lst" "lst \<le> length v" "pos \<le> length v"
  shows "repose v first lst pos = (if pos \<le> first \<or> lst \<le> pos then Inr (moved v first lst pos) else Inl Undefined_behaviour)"
proof -
  consider "first = pos" | "pos < first" | "first < pos" "pos < lst" | "first < pos" "lst = pos" | "first < pos" "lst < pos" by linarith
  then show ?thesis
  proof cases
    case 1
    then show ?thesis using whole [of first lst v] assms by (simp add: repose_def moved_def)
  next
    case 2
    then show ?thesis using assms by (simp add: repose_def moved_def rotate_range_blocks)
  next
    case 3
    then show ?thesis using assms by (simp add: repose_def rotate_range_def)
  next
    case 4
    then show ?thesis using whole [of first lst v] assms by (simp add: repose_def moved_def)
  next
    case 5
    then show ?thesis using assms by (simp add: repose_def moved_def rotate_range_blocks)
  qed
qed

theorem repose_contract_witness:
  "repose [1, 2, 3, 4, 5 :: int] 1 3 4 = Inr [1, 4, 2, 3, 5] \<and> repose [1, 2, 3, 4, 5 :: int] 1 4 2 = Inl Undefined_behaviour"
  using repose_contract [of 1 3 "[1, 2, 3, 4, 5 :: int]" 4] repose_contract [of 1 4 "[1, 2, 3, 4, 5 :: int]" 2]
  by (simp add: moved_def eval_nat_numeral)

lemma repose_rotates: "repose_main = rotates_main"
  by (simp add: repose_main_def rotates_main_def repose_def Let_def eval_nat_numeral)

section \<open>Trimming\<close>

lemma unat_small: "n < 2 ^ 64 \<Longrightarrow> unat (of_nat n :: 64 word) = n"
  by (simp add: unsigned_of_nat take_bit_nat_eq_self_iff)

lemma first_not_of:
  assumes "length sv < 2 ^ 64"
  shows "unat (min (find_first_not_of c sv) (view_size sv)) = length (takeWhile (\<lambda>x. x = c) sv)"
proof (cases "set sv \<subseteq> {c}")
  case True
  then have "length (takeWhile (\<lambda>x. x = c) sv) = length sv" by (auto simp: takeWhile_eq_all_conv subset_iff intro!: arg_cong [where f = length])
  moreover have "min npos (view_size sv) = view_size sv" by (simp add: npos_def min_def word_order.extremum_unique)
  ultimately show ?thesis using True unat_small [OF assms] by (simp add: find_first_not_of_def view_size_def)
next
  case False
  have le: "length (takeWhile (\<lambda>x. x = c) sv) \<le> length sv" by (rule length_takeWhile_le)
  then have "unat (of_nat (length (takeWhile (\<lambda>x. x = c) sv)) :: 64 word) = length (takeWhile (\<lambda>x. x = c) sv)"
    using assms by (intro unat_small) simp
  then show ?thesis using False le unat_small [OF assms] by (simp add: find_first_not_of_def view_size_def min_def word_le_nat_alt)
qed

definition blank :: "char \<Rightarrow> bool" where
  "blank x \<longleftrightarrow> x = CHR '' ''"

lemma remove_suffix_take: "unat w = length sv - m \<Longrightarrow> m \<le> length sv \<Longrightarrow> remove_suffix w sv = Inr (take m sv)"
  by (simp add: remove_suffix_def)

text \<open>The second half, for a view that is empty or starts with another character.\<close>

lemma trim_suffix:
  assumes "length sv < 2 ^ 64" "sv = [] \<or> \<not> blank (hd sv)"
  shows "remove_suffix ((view_size sv - 1) - min (find_last_not_of CHR '' '' sv) (view_size sv - 1)) sv = Inr (rev (dropWhile blank (rev sv)))"
proof (cases "sv = []")
  case True
  then show ?thesis by (simp add: view_size_def find_last_not_of_def npos_def remove_suffix_def)
next
  case False
  let ?d = "dropWhile blank (rev sv)" and ?n = "length sv"
  obtain k where k: "length ?d = Suc k" using False assms(2) by (cases "length ?d") (auto simp: blank_def)
  have le: "length ?d \<le> ?n" by (metis length_dropWhile_le length_rev)
  have nb: "\<not> set sv \<subseteq> {CHR '' ''}" using False assms(2) by (cases sv) (auto simp: blank_def)
  have last: "find_last_not_of CHR '' '' sv = of_nat k" using nb k by (simp add: find_last_not_of_def flip: blank_def)
  have sz: "view_size sv - 1 = of_nat (?n - 1)" using False by (cases sv) (simp_all add: view_size_def)
  have u: "unat (of_nat k :: 64 word) = k" "unat (of_nat (?n - 1) :: 64 word) = ?n - 1" using le k assms(1) by (simp_all only: unat_small)
  have "(of_nat k :: 64 word) \<le> of_nat (?n - 1)" unfolding word_le_nat_alt u using le k by simp
  then have "(view_size sv - 1) - min (find_last_not_of CHR '' '' sv) (view_size sv - 1) = of_nat (?n - 1 - k)"
    unfolding last sz using le k by (simp add: min_def of_nat_diff)
  moreover have "unat (of_nat (?n - 1 - k) :: 64 word) = ?n - 1 - k" using assms(1) by (intro unat_small) simp
  ultimately have "unat ((view_size sv - 1) - min (find_last_not_of CHR '' '' sv) (view_size sv - 1)) = ?n - 1 - k" by metis
  then have "remove_suffix ((view_size sv - 1) - min (find_last_not_of CHR '' '' sv) (view_size sv - 1)) sv = Inr (take (Suc k) sv)"
    using le k by (intro remove_suffix_take) simp_all
  moreover have "take (Suc k) sv = rev ?d" using k using dropWhile_eq_drop [of blank "rev sv"] le by (simp add: rev_drop)
  ultimately show ?thesis by simp
qed

text \<open>
  Trimming: for every view the spaces at both ends are removed and nothing else, although the size of an empty rest minus one wraps.
\<close>

theorem trim_correct:
  assumes "length sv < 2 ^ 64"
  shows "trim sv = Inr (rev (dropWhile blank (rev (dropWhile blank sv))))"
proof -
  let ?t = "takeWhile blank sv"
  have "unat (min (find_first_not_of CHR '' '' sv) (view_size sv)) = length ?t"
    using first_not_of [OF assms] by (simp flip: blank_def)
  then have "remove_prefix (min (find_first_not_of CHR '' '' sv) (view_size sv)) sv = Inr (dropWhile blank sv)"
    by (simp add: remove_prefix_def length_takeWhile_le dropWhile_eq_drop)
  moreover have "length (dropWhile blank sv) < 2 ^ 64" using assms length_dropWhile_le [of blank sv] by simp
  moreover have "dropWhile blank sv = [] \<or> \<not> blank (hd (dropWhile blank sv))" using hd_dropWhile [of blank sv] by blast
  ultimately show ?thesis using trim_suffix [of "dropWhile blank sv"] by (simp add: trim_def Let_def)
qed

theorem trim_correct_witness: "trim ''   trim me  '' = Inr ''trim me'' \<and> trim ''   '' = Inr []"
  using trim_correct [of "''   trim me  ''"] trim_correct [of "''   ''"] by (simp add: blank_def)


section \<open>Queries on a set\<close>

datatype request = Key int | Query int int

fun request_text :: "request \<Rightarrow> string" where
  "request_text (Key x) = ''k '' @ string_of_int x @ '' ''"
| "request_text (Query lo hi) = ''q '' @ string_of_int lo @ '' '' @ string_of_int hi @ '' ''"

definition int32 :: "int \<Rightarrow> bool" where
  "int32 x \<longleftrightarrow> - (2 ^ 31) \<le> x \<and> x < 2 ^ 31"

fun request_ok :: "request \<Rightarrow> bool" where
  "request_ok (Key x) = int32 x"
| "request_ok (Query lo hi) = (int32 lo \<and> int32 hi \<and> lo \<le> hi)"

text \<open>The numbers that are to be printed, for the set of keys given so far.\<close>

fun answers :: "int set \<Rightarrow> request list \<Rightarrow> int list" where
  "answers K [] = []"
| "answers K (Key x # rs) = answers (insert x K) rs"
| "answers K (Query lo hi # rs) = int (card {x \<in> K. lo \<le> x \<and> x \<le> hi}) # answers K rs"

lemma sorted_set_insert: "sorted s \<Longrightarrow> distinct s \<Longrightarrow> sorted (set_insert x s) \<and> distinct (set_insert x s) \<and> set (set_insert x s) = insert x (set s)"
  by (auto simp: set_insert_def sorted_insort distinct_insort set_insort_key)

lemma sorted_takeWhile_filter: "sorted s \<Longrightarrow> takeWhile (\<lambda>y. y < x) s = filter (\<lambda>y. y < x) s \<and> takeWhile (\<lambda>y. y \<le> x) s = filter (\<lambda>y. y \<le> x) s"
  for x :: int
  by (induction s) (auto intro!: filter_False [symmetric])

lemma bounds_card:
  assumes "sorted s" "distinct s" "lo \<le> hi"
  shows "lower_bound s lo + card {x \<in> set s. lo \<le> x \<and> x \<le> hi} = upper_bound s hi" "upper_bound s hi \<le> length s"
proof -
  have "lower_bound s lo = card {x \<in> set s. x < lo}" "upper_bound s hi = card {x \<in> set s. x \<le> hi}"
    using assms(1,2) sorted_takeWhile_filter [of s lo] sorted_takeWhile_filter [of s hi]
    by (simp_all add: lower_bound_def upper_bound_def flip: distinct_card)
  moreover have "{x \<in> set s. x \<le> hi} = {x \<in> set s. x < lo} \<union> {x \<in> set s. lo \<le> x \<and> x \<le> hi}" using assms(3) by auto
  moreover have "{x \<in> set s. x < lo} \<inter> {x \<in> set s. lo \<le> x \<and> x \<le> hi} = {}" by auto
  ultimately show "lower_bound s lo + card {x \<in> set s. lo \<le> x \<and> x \<le> hi} = upper_bound s hi"
    by (simp add: card_Un_disjoint)
  show "upper_bound s hi \<le> length s" by (simp add: upper_bound_def length_takeWhile_le)
qed

text \<open>What the missing function is to do: count the steps from one position to a later one.\<close>

definition counts_steps :: "(int list \<Rightarrow> nat \<Rightarrow> nat \<Rightarrow> int res) \<Rightarrow> bool" where
  "counts_steps mydistance \<longleftrightarrow> (\<forall>s i j. i \<le> j \<and> j \<le> length s \<longrightarrow> mydistance s i j = Inr (int (j - i)))"

lemma range_query_counts:
  assumes "counts_steps mydistance" "sorted s" "distinct s" "lo \<le> hi"
  shows "range_query mydistance s lo hi = Inr (int (card {x \<in> set s. lo \<le> x \<and> x \<le> hi}))"
  using assms(1) bounds_card [OF assms(2-4)] unfolding counts_steps_def range_query_def
  by (metis add_diff_cancel_left' le_add1)

lemma read_int_good_text: "int32 x \<Longrightarrow> read_int_good (CHR '' '' # string_of_int x @ CHR '' '' # inp) = Inr (x, CHR '' '' # inp)"
  by (simp add: read_int_good_def scan_int_skip scan_int_string_of_int int32_def)

lemma setsol_loop_space: "setsol_loop d (CHR '' '' # inp) s out = setsol_loop d inp s out"
  by (subst (1 2) setsol_loop.simps) simp

lemma request_char: "\<not> isspace CHR ''k''" "\<not> isspace CHR ''q''"
  by (auto simp: isspace_def)

definition print_answers :: "int list \<Rightarrow> string" where
  "print_answers ns = concat (map (\<lambda>n. string_of_int n @ '' '') ns)"

lemma setsol_loop_requests:
  assumes "counts_steps mydistance" "list_all request_ok rs" "sorted s" "distinct s"
  shows "setsol_loop mydistance (concat (map request_text rs)) s out = (out @ print_answers (answers (set s) rs) @ endl, Inr ())"
  using assms(2-)
proof (induction rs arbitrary: s out)
  case Nil
  then show ?case by (simp add: setsol_loop.simps print_answers_def)
next
  case (Cons r rs)
  show ?case
  proof (cases r)
    case (Key x)
    then show ?thesis using Cons sorted_set_insert [of s x]
      by (subst setsol_loop.simps) (simp add: request_char read_int_good_text setsol_loop_space)
  next
    case (Query lo hi)
    then show ?thesis using Cons range_query_counts [OF assms(1), of s lo hi]
      by (subst setsol_loop.simps) (simp add: request_char read_int_good_text setsol_loop_space print_answers_def)
  qed
qed

text \<open>
  Range queries: for every list of keys and queries, written as the input expects them and ended by a blank, the
  program prints for every query the number of different keys given before it that lie in its interval, if the function \<^verbatim>\<open>mydistance\<close>, which the
  repository does not have, counts the steps between two positions.
\<close>

theorem setsol_correct:
  assumes "counts_steps mydistance" "list_all request_ok rs"
  shows "setsol_main mydistance (concat (map request_text rs)) = (print_answers (answers {} rs) @ endl, Inr ())"
  using setsol_loop_requests [OF assms, of "[]" "[]"] by (simp add: setsol_main_def)

text \<open>The test input of the repository, with a function that counts steps.\<close>

theorem setsol_correct_witness:
  "setsol_main (\<lambda>s i j. Inr (int (j - i))) (concat (map request_text [Key 10, Key 20, Query 8 31, Query 6 9, Key 30, Key 40, Query 15 40])) =
    (''2 0 3 '' @ endl, Inr ())"
proof -
  have sets: "{x. (x = 20 \<or> x = 10) \<and> 8 \<le> x \<and> x \<le> (31 :: int)} = {10, 20}" "{x. (x = 20 \<or> x = 10) \<and> 6 \<le> x \<and> x \<le> (9 :: int)} = {}"
    "{x. (x = 40 \<or> x = 30 \<or> x = 20 \<or> x = 10) \<and> 15 \<le> x \<and> x \<le> (40 :: int)} = {20, 30, 40}" by auto
  let ?rs = "[Key 10, Key 20, Query 8 31, Query 6 9, Key 30, Key 40, Query 15 40]"
  have "answers {} ?rs = [2, 0, 3]" by (simp add: sets)
  moreover have "print_answers [2, 0, 3] = ''2 0 3 ''" by code_simp
  moreover have "counts_steps (\<lambda>s i j. Inr (int (j - i)))" by (simp add: counts_steps_def)
  moreover have "list_all request_ok ?rs" by (simp add: int32_def)
  ultimately show ?thesis using setsol_correct [of "\<lambda>s i j. Inr (int (j - i))" ?rs] by (simp only:)
qed

text \<open>Without a blank after the last number the assertion fails.\<close>

lemma setsol_no_blank: "setsol_main d ''k 1'' = ([], Inl Assertion_failed)"
proof -
  have "read_int_good '' 1'' = Inl Assertion_failed" by code_simp
  then show ?thesis by (simp add: setsol_main_def setsol_loop.simps request_char)
qed


section \<open>The iterator over Fibonacci numbers\<close>

lemma fib_small: "n \<le> 10 \<Longrightarrow> fib (Suc n) < 2 ^ 31 \<and> (fib (Suc n) = 89 \<and> fib n = 55 \<longleftrightarrow> n = 10)"
proof -
  assume "n \<le> 10"
  then have "n \<in> {0, 1, 2, 3, 4, 5, 6, 7, 8, 9, 10}" unfolding insert_iff empty_iff by presburger
  then show ?thesis by (auto simp: eval_nat_numeral)
qed

lemma fibit_for_from:
  assumes "n \<le> 10"
  shows "fibit_for \<lparr>cur = fib (Suc n), prev = fib n\<rparr> out = Some (Inr (out @ concat (map (\<lambda>i. string_of_int (fib (Suc i)) @ '' '') [n..<10]) @ endl))"
  using assms
proof (induction "10 - n" arbitrary: n out)
  case 0
  then show ?case using fib_small [of 10] by (subst fibit_for.simps) (simp add: fibit_end_def)
next
  case (Suc k)
  then have n: "n < 10" by simp
  have "fibit_inc \<lparr>cur = fib (Suc n), prev = fib n\<rparr> = Inr \<lparr>cur = fib (Suc (Suc n)), prev = fib (Suc n)\<rparr>"
    using fib_small [of "Suc n"] fib_nonneg [of n] fib_nonneg [of "Suc n"] n by (simp add: fibit_inc_def cxx_int_def)
  then show ?case using fib_small [of n] Suc.hyps(1) [of "Suc n"] Suc.hyps(2) n
    by (subst fibit_for.simps) (simp add: fibit_end_def upt_conv_Cons del: fib.simps)
qed

lemma fibit_main_prints: "fibit_main = Some (Inr (concat (map (\<lambda>i. string_of_int (fib i) @ '' '') [1..<11]) @ endl))"
proof -
  have "map (\<lambda>i. string_of_int (fib (Suc i)) @ '' '') [0..<10] = map (\<lambda>i. string_of_int (fib i) @ '' '') [1..<11]"
    by (simp add: upt_rec)
  then show ?thesis using fibit_for_from [of 0 "[]"] by (simp add: fibit_main_def fibit_begin_def)
qed

section \<open>The work of the benchmark\<close>

definition collatz_step :: "int \<Rightarrow> int" where
  "collatz_step n = (if n mod 2 = 0 then n div 2 else 3 * n + 1)"

lemma cxx_int_eq: "cxx_int x = Inr y \<Longrightarrow> y = x"
  by (simp add: cxx_int_def split: if_splits)

definition collatz_counted :: "int \<Rightarrow> int \<Rightarrow> int res \<Rightarrow> bool" where
  "collatz_counted n c r \<longleftrightarrow> (\<forall>d. r = Inr d \<longrightarrow>
    (\<exists>k. d = c + int k \<and> (collatz_step ^^ k) n \<le> 1 \<and> (\<forall>j < k. 1 < (collatz_step ^^ j) n)))"

lemma collatz_counted_step:
  assumes "1 < n" "collatz_counted (collatz_step n) (c + 1) r" shows "collatz_counted n c r"
  unfolding collatz_counted_def
proof (intro allI impI)
  fix d assume "r = Inr d"
  then obtain k where k: "d = c + 1 + int k" "(collatz_step ^^ k) (collatz_step n) \<le> 1" "\<forall>j < k. 1 < (collatz_step ^^ j) (collatz_step n)"
    using assms(2) unfolding collatz_counted_def by blast
  have "1 < (collatz_step ^^ j) n" if "j < Suc k" for j
    using k(3) assms(1) that by (cases j) (auto simp: funpow_Suc_right simp del: funpow.simps)
  then show "\<exists>k. d = c + int k \<and> (collatz_step ^^ k) n \<le> 1 \<and> (\<forall>j < k. 1 < (collatz_step ^^ j) n)"
    using k(1,2) by (intro exI [of _ "Suc k"]) (auto simp: funpow_Suc_right simp del: funpow.simps)
qed

lemma collatz_loop_counts: "collatz_loop n c = Some r \<Longrightarrow> collatz_counted n c r"
proof (induction n c r rule: collatz_loop.raw_induct [rotated, consumes 1, case_names step])
  case (step f n c r)
  show ?case
  proof (cases "n > 1")
    case False
    then show ?thesis using step(2) unfolding collatz_counted_def by (intro allI impI exI [of _ 0]) auto
  next
    case True
    show ?thesis
    proof (cases r)
      case (Inl e)
      then show ?thesis by (simp add: collatz_counted_def)
    next
      case (Inr d)
      then have "f (collatz_step n) (c + 1) = Some r"
        using step(2) True by (auto simp: collatz_step_def bindE_eq_Inr_iff split: sum.splits if_splits dest!: cxx_int_eq)
      then show ?thesis using step(1) True collatz_counted_step by blast
    qed
  qed
qed

text \<open>
  The work of the benchmark: a value it computes is the number of Collatz steps to 1; for 113383, one of the numbers the
  benchmark works on, the multiplication overflows.
\<close>

theorem collatz_counts:
  "(collatz n = Some (Inr d) \<longrightarrow> 0 \<le> d \<and> (collatz_step ^^ nat d) n \<le> 1 \<and> (\<forall>j < nat d. 1 < (collatz_step ^^ j) n)) \<and>
    collatz 113383 = Some (Inl Undefined_behaviour)"
proof
  show "collatz n = Some (Inr d) \<longrightarrow> 0 \<le> d \<and> (collatz_step ^^ nat d) n \<le> 1 \<and> (\<forall>j < nat d. 1 < (collatz_step ^^ j) n)"
    using collatz_loop_counts [of n 0 "Inr d"] by (auto simp: collatz_def collatz_counted_def)
  show "collatz 113383 = Some (Inl Undefined_behaviour)"
    unfolding collatz_def by (simp add: collatz_loop.simps cxx_int_def)
qed

theorem collatz_counts_witness: "collatz 6 = Some (Inr 8) \<and> (collatz_step ^^ 8) 6 = 1"
proof -
  have c: "collatz 6 = Some (Inr 8)" unfolding collatz_def by (simp add: collatz_loop.simps cxx_int_def)
  then show ?thesis using collatz_counts [of 6 8] by (simp add: collatz_step_def eval_nat_numeral)
qed

section \<open>Filter and transform\<close>

lemma foreach01_transform: "foreach01_loop ds out = transform_copy_if ds out (\<lambda>n. n < 5) times2"
  by (induction ds arbitrary: out) (auto simp: bindE_def split: sum.splits)

lemma transform_filter: "transform_copy_if ds out p f = std_transform (filter p ds) out f"
  by (induction ds arbitrary: out) (auto simp: bindE_def split: sum.splits)

text \<open>
  Filter and transform: the loop, the generic algorithm and the two algorithms of the library print the same for every input.
\<close>

theorem foreach_agree: "foreach01 is = foreach02 is \<and> foreach02 is = foreach03 is"
  by (simp add: foreach01_def foreach02_def foreach03_def foreach01_transform transform_filter)

end
