(* ===== verification/Drawing.thy ===== *)
theory Drawing
  imports Input
begin

text \<open>
  The drawing programs of \<^verbatim>\<open>09-solid\<close>: figures that are drawn by a screen that knows their shapes (\<^verbatim>\<open>ocp-bad.cc\<close>), by
  themselves (\<^verbatim>\<open>ocp-good.cc\<close>), by a method or by a function of a stream (\<^verbatim>\<open>srp-bad.cc\<close>, \<^verbatim>\<open>srp-good.cc\<close>), and documents of drawable
  values of any type (\<^verbatim>\<open>str-model.cc\<close>, \<^verbatim>\<open>common-model.cc\<close>). An object behind a \<^verbatim>\<open>unique_ptr\<close> has one owner, so it is a value, and a pointer that
  was moved from is \<open>None\<close>; objects reached by plain pointers are looked up in a store, where they may no longer be alive.
\<close>

section \<open>Vectors and polygons\<close>

record Vector3D =
  vx :: int
  vy :: int
  vz :: int

definition vec_plus :: "int \<Rightarrow> int \<Rightarrow> int res" where
  "vec_plus a b = (if - (2 ^ 31) \<le> a + b \<and> a + b < 2 ^ 31 then Inr (a + b) else Inl Undefined_behaviour)"

text \<open>\<^verbatim>\<open>operator+=\<close>.\<close>

definition vec_add :: "Vector3D \<Rightarrow> Vector3D \<Rightarrow> Vector3D res" where
  "vec_add v t =
    bindE (vec_plus (vx v) (vx t)) (\<lambda>x. bindE (vec_plus (vy v) (vy t)) (\<lambda>y. bindE (vec_plus (vz v) (vz t)) (\<lambda>z.
      Inr \<lparr>vx = x, vy = y, vz = z\<rparr>)))"

fun translate :: "Vector3D list \<Rightarrow> Vector3D \<Rightarrow> Vector3D list res" where
  "translate [] t = Inr []"
| "translate (v # vs) t = bindE (vec_add v t) (\<lambda>v'. bindE (translate vs t) (\<lambda>vs'. Inr (v' # vs')))"

definition vector_text :: "Vector3D \<Rightarrow> string" where
  "vector_text v = ''('' @ string_of_int (vx v) @ '', '' @ string_of_int (vy v) @ '', '' @ string_of_int (vz v) @ '')''"

section \<open>Single responsibility (\<^verbatim>\<open>srp-bad.cc\<close>, \<^verbatim>\<open>srp-good.cc\<close>)\<close>

text \<open>
  The stream a polygon is drawn to may be \<^verbatim>\<open>std::cout\<close> or another one; the state is what both have received. The line ends
  always go to \<^verbatim>\<open>std::cout\<close>.
\<close>

record streams =
  cout :: string
  other :: string

datatype stream = Cout | Other

fun put_text :: "stream \<Rightarrow> string \<Rightarrow> streams \<Rightarrow> streams" where
  "put_text Cout t s = s\<lparr>cout := cout s @ t\<rparr>"
| "put_text Other t s = s\<lparr>other := other s @ t\<rparr>"

definition srp_draw_vector :: "stream \<Rightarrow> Vector3D \<Rightarrow> streams \<Rightarrow> streams" where
  "srp_draw_vector os v s = put_text os (vector_text v) s"

text \<open>The method of \<^verbatim>\<open>srp-bad.cc\<close>.\<close>

fun Polygon3D_draw :: "Vector3D list \<Rightarrow> stream \<Rightarrow> streams \<Rightarrow> streams" where
  "Polygon3D_draw [] os s = s"
| "Polygon3D_draw (v # vs) os s = Polygon3D_draw vs os (put_text Cout [CHR 0x0A] (srp_draw_vector os v s))"

definition Polygon3D_serialize :: "Vector3D list \<Rightarrow> stream \<Rightarrow> streams \<Rightarrow> streams" where
  "Polygon3D_serialize vs bs s = Polygon3D_draw vs bs s"

text \<open>The function of \<^verbatim>\<open>srp-good.cc\<close>.\<close>

fun srp_draw :: "stream \<Rightarrow> Vector3D list \<Rightarrow> streams \<Rightarrow> streams" where
  "srp_draw os [] s = s"
| "srp_draw os (v # p) s = srp_draw os p (put_text Cout [CHR 0x0A] (srp_draw_vector os v s))"

definition srp_serialize :: "stream \<Rightarrow> Vector3D list \<Rightarrow> streams \<Rightarrow> streams" where
  "srp_serialize bs p s = srp_draw bs p s"

definition sample_polygon :: "Vector3D list" where
  "sample_polygon = [\<lparr>vx = 2, vy = 1, vz = 6\<rparr>, \<lparr>vx = -3, vy = 7, vz = 4\<rparr>]"

definition srp_bad_main :: string where
  "srp_bad_main = cout (Polygon3D_draw sample_polygon Cout \<lparr>cout = [], other = []\<rparr>)"

definition srp_good_main :: string where
  "srp_good_main = cout (srp_draw Cout sample_polygon \<lparr>cout = [], other = []\<rparr>)"

section \<open>Open and closed (\<^verbatim>\<open>ocp-bad.cc\<close>, \<^verbatim>\<open>ocp-good.cc\<close>)\<close>

datatype Shape = VECTOR | POLYGON | CIRCLE

text \<open>The figures of both programs. A figure may have the shape \<^verbatim>\<open>CIRCLE\<close> in \<^verbatim>\<open>ocp-bad.cc\<close>, but no class has it.\<close>

datatype figure = FVector Vector3D | FPolygon "Vector3D list"

fun figure_shape :: "figure \<Rightarrow> Shape" where
  "figure_shape (FVector v) = VECTOR"
| "figure_shape (FPolygon vs) = POLYGON"

fun polygon_text :: "Vector3D list \<Rightarrow> string" where
  "polygon_text [] = []"
| "polygon_text (v # vs) = vector_text v @ CHR 0x0A # polygon_text vs"

text \<open>
  \<^verbatim>\<open>Screen::draw\<close> of \<^verbatim>\<open>ocp-bad.cc\<close> stores the address of a figure; \<open>alive\<close> gives the figure at an address, if there is still one.
\<close>

type_synonym screen_bad = "nat list"

definition bad_draw :: "nat \<Rightarrow> screen_bad \<Rightarrow> screen_bad" where
  "bad_draw f figures = figures @ [f]"

definition bad_serialize :: "screen_bad \<Rightarrow> nat \<Rightarrow> screen_bad" where
  "bad_serialize bs p = bad_draw p bs"

definition bad_render_one :: "(nat \<Rightarrow> figure option) \<Rightarrow> nat \<Rightarrow> string res" where
  "bad_render_one alive f = (case alive f of
      None \<Rightarrow> Inl Undefined_behaviour
    | Some fig \<Rightarrow> (case figure_shape fig of
        POLYGON \<Rightarrow> (case fig of FPolygon vs \<Rightarrow> Inr (polygon_text vs) | _ \<Rightarrow> Inl Undefined_behaviour)
      | VECTOR \<Rightarrow> (case fig of FVector v \<Rightarrow> Inr (vector_text v) | _ \<Rightarrow> Inl Undefined_behaviour)
      | CIRCLE \<Rightarrow> Inr []))"

fun bad_render :: "(nat \<Rightarrow> figure option) \<Rightarrow> screen_bad \<Rightarrow> string res" where
  "bad_render alive [] = Inr []"
| "bad_render alive (f # fs) = bindE (bad_render_one alive f) (\<lambda>t. bindE (bad_render alive fs) (\<lambda>ts. Inr (t @ ts)))"

text \<open>The screen of \<^verbatim>\<open>ocp-good.cc\<close> shares its figures, so they live as long as it does; every figure draws itself.\<close>

fun figure_draw :: "figure \<Rightarrow> string" where
  "figure_draw (FVector v) = vector_text v"
| "figure_draw (FPolygon vs) = polygon_text vs"

type_synonym screen_good = "figure list"

definition good_draw :: "figure \<Rightarrow> screen_good \<Rightarrow> screen_good" where
  "good_draw f figures = figures @ [f]"

definition good_serialize :: "screen_good \<Rightarrow> figure \<Rightarrow> screen_good" where
  "good_serialize bs p = good_draw p bs"

fun good_render :: "screen_good \<Rightarrow> string" where
  "good_render [] = []"
| "good_render (f # fs) = figure_draw f @ good_render fs"

definition ocp_bad_main :: "string res" where
  "ocp_bad_main = bad_render [0 \<mapsto> FPolygon sample_polygon] (bad_draw 0 [])"

definition ocp_good_main :: string where
  "ocp_good_main = good_render (good_draw (FPolygon sample_polygon) [])"

section \<open>Documents (\<^verbatim>\<open>common-model.cc\<close>)\<close>

text \<open>The objects behind a \<^verbatim>\<open>Drawable\<close>; a model is a vector of them.\<close>

datatype object = ObjInt int | ObjVector Vector3D | ObjPolygon "Vector3D list" | ObjModel "object option list"

type_synonym Drawable = "object option"

definition spaces :: "nat \<Rightarrow> string" where
  "spaces position = replicate position CHR '' ''"

definition draw_int :: "int \<Rightarrow> nat \<Rightarrow> string" where
  "draw_int x position = spaces position @ string_of_int x @ [CHR 0x0A]"

definition draw_vector :: "Vector3D \<Rightarrow> nat \<Rightarrow> string" where
  "draw_vector v position = spaces position @ vector_text v @ [CHR 0x0A]"

definition draw_polygon :: "Vector3D list \<Rightarrow> nat \<Rightarrow> string" where
  "draw_polygon vs position =
    spaces position @ ''<polygon>'' @ endl @ concat (map (\<lambda>v. draw_vector v (position + 2)) vs) @
    spaces position @ ''</polygon>'' @ endl"

text \<open>\<^verbatim>\<open>draw_\<close> of an object, \<^verbatim>\<open>draw\<close> of a \<^verbatim>\<open>Drawable\<close> and of the elements of a model. A moved-from element has no object to call.\<close>

fun draw_obj :: "object \<Rightarrow> nat \<Rightarrow> string res" and draw_elems :: "Drawable list \<Rightarrow> nat \<Rightarrow> string res" where
  "draw_obj (ObjInt x) position = Inr (draw_int x position)"
| "draw_obj (ObjVector v) position = Inr (draw_vector v position)"
| "draw_obj (ObjPolygon vs) position = Inr (draw_polygon vs position)"
| "draw_obj (ObjModel es) position =
    bindE (draw_elems es (position + 2)) (\<lambda>t.
      Inr (spaces position @ ''<world>'' @ endl @ t @ spaces position @ ''</world>'' @ endl))"
| "draw_elems [] position = Inr []"
| "draw_elems (e # es) position =
    bindE (case e of None \<Rightarrow> Inl Undefined_behaviour | Some x \<Rightarrow> draw_obj x position) (\<lambda>t.
      bindE (draw_elems es position) (\<lambda>ts. Inr (t @ ts)))"

definition draw_model :: "Drawable list \<Rightarrow> nat \<Rightarrow> string res" where
  "draw_model es position = draw_obj (ObjModel es) position"

text \<open>\<^verbatim>\<open>copy_\<close>, the copy constructor, the move constructor (the new value and what is left) and the assignment.\<close>

fun copy_obj :: "object \<Rightarrow> object res" and copy_elems :: "Drawable list \<Rightarrow> Drawable list res" where
  "copy_obj (ObjInt x) = Inr (ObjInt x)"
| "copy_obj (ObjVector v) = Inr (ObjVector v)"
| "copy_obj (ObjPolygon vs) = Inr (ObjPolygon vs)"
| "copy_obj (ObjModel es) = bindE (copy_elems es) (\<lambda>es'. Inr (ObjModel es'))"
| "copy_elems [] = Inr []"
| "copy_elems (e # es) =
    bindE (case e of None \<Rightarrow> Inl Undefined_behaviour | Some x \<Rightarrow> copy_obj x) (\<lambda>x.
      bindE (copy_elems es) (\<lambda>es'. Inr (Some x # es')))"

definition Drawable_copy :: "Drawable \<Rightarrow> Drawable res" where
  "Drawable_copy x = (case x of None \<Rightarrow> Inl Undefined_behaviour | Some a \<Rightarrow> bindE (copy_obj a) (\<lambda>b. Inr (Some b)))"

definition Drawable_move :: "Drawable \<Rightarrow> Drawable \<times> Drawable" where
  "Drawable_move x = (x, None)"

text \<open>The argument of the assignment is a value: the left side gives up its object for that of the copy.\<close>

definition Drawable_assign :: "Drawable \<Rightarrow> Drawable \<Rightarrow> Drawable res" where
  "Drawable_assign this x = bindE (Drawable_copy x) (\<lambda>c. Inr (fst (Drawable_move c)))"

text \<open>\<^verbatim>\<open>push_back\<close> of something that converts to a \<^verbatim>\<open>Drawable\<close>, and of a copy of the document itself.\<close>

definition push_doc :: "Drawable list \<Rightarrow> object \<Rightarrow> Drawable list" where
  "push_doc document x = document @ [Some x]"

definition push_self :: "Drawable list \<Rightarrow> Drawable list res" where
  "push_self document = bindE (copy_elems document) (\<lambda>copy. Inr (push_doc document (ObjModel copy)))"

definition common_model_main :: "string res" where
  "common_model_main =
    bindE (push_self (push_doc (push_doc [] (ObjInt 0)) (ObjPolygon sample_polygon))) (\<lambda>document.
      draw_model (push_doc document (ObjVector \<lparr>vx = -3, vy = 7, vz = 4\<rparr>)) 0)"

text \<open>\<^verbatim>\<open>str-model.cc\<close>: the same with two classes of objects, written out.\<close>

datatype str_object = DrawableInt int | DrawableVector3D Vector3D

fun str_draw :: "str_object option list \<Rightarrow> nat \<Rightarrow> string res" where
  "str_draw [] position = Inr []"
| "str_draw (e # es) position =
    bindE (case e of None \<Rightarrow> Inl Undefined_behaviour
      | Some (DrawableInt x) \<Rightarrow> Inr (draw_int x position)
      | Some (DrawableVector3D v) \<Rightarrow> Inr (draw_vector v position)) (\<lambda>t.
      bindE (str_draw es position) (\<lambda>ts. Inr (t @ ts)))"

definition str_draw_model :: "str_object option list \<Rightarrow> nat \<Rightarrow> string res" where
  "str_draw_model es position =
    bindE (str_draw es (position + 2)) (\<lambda>t.
      Inr (spaces position @ ''<world>'' @ endl @ t @ spaces position @ ''</world>'' @ endl))"

definition str_copy :: "str_object option \<Rightarrow> str_object option res" where
  "str_copy x = (case x of None \<Rightarrow> Inl Undefined_behaviour
    | Some (DrawableInt i) \<Rightarrow> Inr (Some (DrawableInt i))
    | Some (DrawableVector3D v) \<Rightarrow> Inr (Some (DrawableVector3D v)))"

definition str_main :: "string res" where
  "str_main = str_draw_model
    ((([] @ [Some (DrawableInt 0)]) @ [Some (DrawableVector3D \<lparr>vx = 2, vy = 1, vz = 6\<rparr>)]) @
      [Some (DrawableVector3D \<lparr>vx = -3, vy = 7, vz = 4\<rparr>)] @ [Some (DrawableInt 3)]) 0"

end
