(* ===== verification/Drawing_Props.thy ===== *)
theory Drawing_Props
  imports Drawing
begin

text \<open>
  What the drawing programs show: the two designs of the screen print the same as long as the figures live, the method and the
  function on streams agree and both send line ends to the wrong stream, a document is copied exactly when nothing in it was moved
  from, and a drawing determines its document.
\<close>

section \<open>Screens\<close>

lemma bad_render_one_alive: "alive f = Some fig \<Longrightarrow> bad_render_one alive f = Inr (figure_draw fig)"
  by (cases fig) (simp_all add: bad_render_one_def)

text \<open>
  Open and closed: the screen that knows the shapes prints what the figures of the other screen print themselves, when
  every figure it was given is still alive; else it has undefined behaviour.
\<close>

theorem ocp_agree:
  "bad_render alive fs =
    (if \<forall>f \<in> set fs. alive f \<noteq> None then Inr (good_render (map (\<lambda>f. the (alive f)) fs)) else Inl Undefined_behaviour)"
proof (induction fs)
  case (Cons f fs)
  then show ?case using bad_render_one_alive [of alive f] by (cases "alive f") (auto simp: bad_render_one_def)
qed simp

theorem ocp_agree_witness: "ocp_bad_main = Inr ocp_good_main"
  using ocp_agree [of "[0 \<mapsto> FPolygon sample_polygon]" "[0]"] by (simp add: ocp_bad_main_def ocp_good_main_def bad_draw_def good_draw_def)

section \<open>Streams\<close>

lemma srp_same: "Polygon3D_draw vs os s = srp_draw os vs s"
  by (induction vs arbitrary: s) simp_all

lemma srp_draw_streams:
  "srp_draw Cout vs s = s\<lparr>cout := cout s @ polygon_text vs\<rparr>"
  "srp_draw Other vs s = s\<lparr>cout := cout s @ replicate (length vs) (CHR 0x0A), other := other s @ concat (map vector_text vs)\<rparr>"
  by (induction vs arbitrary: s) (simp_all add: srp_draw_vector_def)

text \<open>
  Single responsibility: the method and the function write the same; written to \<^verbatim>\<open>std::cout\<close> a polygon has one vector on a
  line, but serialised to another stream its vectors are not separated, and the line ends go to \<^verbatim>\<open>std::cout\<close>.
\<close>

theorem srp_agree:
  "Polygon3D_serialize vs os s = srp_serialize os vs s \<and>
   srp_serialize Cout vs s = s\<lparr>cout := cout s @ polygon_text vs\<rparr> \<and>
   srp_serialize Other vs s = s\<lparr>cout := cout s @ replicate (length vs) (CHR 0x0A), other := other s @ concat (map vector_text vs)\<rparr>"
  by (simp add: Polygon3D_serialize_def srp_serialize_def srp_same srp_draw_streams)

section \<open>Translation\<close>

definition vec_int :: "Vector3D \<Rightarrow> bool" where
  "vec_int v \<longleftrightarrow> (\<forall>a \<in> {vx v, vy v, vz v}. - (2 ^ 31) \<le> a \<and> a < 2 ^ 31)"

definition vec_neg :: "Vector3D \<Rightarrow> Vector3D" where
  "vec_neg t = \<lparr>vx = - vx t, vy = - vy t, vz = - vz t\<rparr>"

lemma translate_back: "list_all vec_int vs \<Longrightarrow> translate vs t = Inr ws \<Longrightarrow> translate ws (vec_neg t) = Inr vs"
  by (induction vs arbitrary: ws)
    (auto simp: vec_add_def vec_plus_def vec_int_def vec_neg_def bindE_eq_Inr_iff split: if_splits)

section \<open>Documents\<close>

text \<open>No element of the document, nor of a document in it, was moved from.\<close>

fun has_object :: "object \<Rightarrow> bool" where
  "has_object (ObjModel es) = list_all (\<lambda>e. case e of None \<Rightarrow> False | Some x \<Rightarrow> has_object x) es"
| "has_object _ = True"

lemma copy_full:
  "copy_obj x = (if has_object x then Inr x else Inl Undefined_behaviour)"
  "copy_elems es = (if has_object (ObjModel es) then Inr es else Inl Undefined_behaviour)"
  by (induction x and es rule: copy_obj_copy_elems.induct) (auto split: option.splits)

lemma draw_full:
  "(\<exists>t. draw_obj x p = Inr t) \<longleftrightarrow> has_object x" "(\<exists>t. draw_elems es p = Inr t) \<longleftrightarrow> has_object (ObjModel es)"
  by (induction x p and es p rule: draw_obj_draw_elems.induct) (auto simp: bindE_eq_Inr_iff split: option.splits)

lemma draw_error:
  "draw_obj x p = Inl e \<Longrightarrow> e = Undefined_behaviour" "draw_elems es p = Inl e \<Longrightarrow> e = Undefined_behaviour"
  by (induction x p and es p rule: draw_obj_draw_elems.induct) (auto simp: bindE_def split: option.splits sum.splits)

lemma draw_cases:
  "if has_object (ObjModel es) then \<exists>t. draw_model es p = Inr t else draw_model es p = Inl Undefined_behaviour"
  using draw_full(1) [of "ObjModel es" p] draw_error(1) [of "ObjModel es" p] by (cases "draw_model es p") (auto simp: draw_model_def)

text \<open>Printed numbers and vectors are read back from the front of any text.\<close>

lemma int_text_prefix:
  "string_of_int x @ c # r = string_of_int y @ c # r' \<Longrightarrow> \<not> isdigit c \<Longrightarrow> x = y \<and> r = r'"
  by (metis scan_int_string_of_int Pair_inject list.inject option.inject)

lemma sep_not_digit: "\<not> isdigit (CHR '','')" "\<not> isdigit (CHR '')'')" "\<not> isdigit (CHR 0x0A)"
  by (simp_all add: isdigit_def)

lemma vector_text_prefix: 
  assumes "vector_text v @ r = vector_text w @ r'" shows "v = w \<and> r = r'"
proof -
  have "string_of_int (vx v) @ CHR '','' # CHR '' '' # string_of_int (vy v) @ '', '' @ string_of_int (vz v) @ '')'' @ r =
    string_of_int (vx w) @ CHR '','' # CHR '' '' # string_of_int (vy w) @ '', '' @ string_of_int (vz w) @ '')'' @ r'"
    using assms by (simp add: vector_text_def)
  note x = int_text_prefix [OF this sep_not_digit(1)]
  have "string_of_int (vy v) @ CHR '','' # CHR '' '' # string_of_int (vz v) @ '')'' @ r =
    string_of_int (vy w) @ CHR '','' # CHR '' '' # string_of_int (vz w) @ '')'' @ r'" using x by simp
  note y = int_text_prefix [OF this sep_not_digit(1)]
  have "string_of_int (vz v) @ CHR '')'' # r = string_of_int (vz w) @ CHR '')'' # r'" using y by simp
  note z = int_text_prefix [OF this sep_not_digit(2)]
  show ?thesis using x y z by simp
qed

text \<open>An element starts two columns behind the line that closes its model.\<close>

lemma spaces_deeper: "spaces (Suc (Suc p)) @ r = spaces p @ CHR '' '' # CHR '' '' # r"
  by (simp add: spaces_def replicate_app_Cons_same)

lemma first_char_int: "string_of_int x \<noteq> [] \<and> (isdigit (hd (string_of_int x)) \<or> hd (string_of_int x) = CHR ''-'')"
proof -
  obtain d ds where "string_of_nat (nat \<bar>x\<bar>) = (''0123456789'' ! d) # ds" "d < 10" by (rule string_of_nat_Cons)
  then show ?thesis by (auto simp: string_of_int_def digit_char)
qed


text \<open>The first characters behind the blanks tell the type of an object.\<close>

fun tag :: "object \<Rightarrow> nat" where
  "tag (ObjInt x) = 0" | "tag (ObjVector v) = 1" | "tag (ObjPolygon vs) = 2" | "tag (ObjModel es) = 3"

definition kind :: "string \<Rightarrow> nat" where
  "kind b = (if hd b = CHR ''('' then 1 else if hd b = CHR ''<'' then (if hd (tl b) = CHR ''p'' then 2 else 3) else 0)"

lemma length_spaces [simp]: "length (spaces q) = q"
  by (simp add: spaces_def)

lemma kind_int: "kind (string_of_int x @ r) = 0"
  using first_char_int [of x] by (auto simp: kind_def isdigit_def)

lemma draw_obj_body: "draw_obj x q = Inr t \<Longrightarrow> t = spaces q @ drop q t \<and> kind (drop q t @ r) = tag x"
  by (cases x) (auto simp: draw_int_def draw_vector_def draw_polygon_def bindE_eq_Inr_iff kind_int, simp_all add: kind_def vector_text_def)

lemma draw_obj_kind: "draw_obj x q = Inr t \<Longrightarrow> \<exists>b. t = spaces q @ b \<and> kind (b @ r) = tag x"
  using draw_obj_body [of x q t r] by blast

lemma draw_obj_tag:
  assumes "draw_obj x q = Inr t" "draw_obj y q = Inr u" "t @ r = u @ r'" shows "tag x = tag y"
  using draw_obj_kind [OF assms(1), of r] draw_obj_kind [OF assms(2), of r'] assms(3) by auto

lemma draw_obj_deeper: "draw_obj x (Suc (Suc p)) = Inr t \<Longrightarrow> \<exists>t'. t = spaces p @ CHR '' '' # t'"
  using draw_obj_kind [of x "Suc (Suc p)" t "[]"] spaces_deeper [of p] by auto

lemma draw_vectors_prefix:
  "concat (map (\<lambda>v. draw_vector v (Suc (Suc p))) vs) @ spaces p @ CHR ''<'' # r =
     concat (map (\<lambda>v. draw_vector v (Suc (Suc p))) ws) @ spaces p @ CHR ''<'' # r' \<Longrightarrow> vs = ws \<and> r = r'"
proof (induction vs arbitrary: ws)
  case Nil
  then show ?case by (cases ws) (auto simp: draw_vector_def spaces_deeper)
next
  case (Cons v vs)
  show ?case
  proof (cases ws)
    case Nil
    then show ?thesis using Cons.prems by (auto simp: draw_vector_def spaces_deeper)
  next
    case ws: (Cons w ws')
    then have "vector_text v @ [CHR 0x0A] @ concat (map (\<lambda>v. draw_vector v (Suc (Suc p))) vs) @ spaces p @ CHR ''<'' # r =
      vector_text w @ [CHR 0x0A] @ concat (map (\<lambda>v. draw_vector v (Suc (Suc p))) ws') @ spaces p @ CHR ''<'' # r'"
      using Cons.prems by (simp add: draw_vector_def)
    note v = vector_text_prefix [OF this]
    show ?thesis using Cons.IH [of ws'] v ws by simp
  qed
qed

lemma draw_prefix:
  "draw_obj x q = Inr t \<Longrightarrow> draw_obj y q = Inr u \<Longrightarrow> t @ r = u @ r' \<Longrightarrow> x = y \<and> r = r'"
  "draw_elems es q = Inr t \<Longrightarrow> draw_elems fs q = Inr u \<Longrightarrow> q = Suc (Suc p) \<Longrightarrow>
     t @ spaces p @ CHR ''<'' # r = u @ spaces p @ CHR ''<'' # r' \<Longrightarrow> es = fs \<and> r = r'"
proof (induction x q and es q arbitrary: y t u r r' and fs t u r r' p rule: draw_obj_draw_elems.induct)
  case (1 x position)
  obtain z where y: "y = ObjInt z" using draw_obj_tag [OF 1] by (cases y) auto
  then have "string_of_int x @ CHR 0x0A # r = string_of_int z @ CHR 0x0A # r'" using 1 by (auto simp: draw_int_def)
  then show ?case using int_text_prefix [OF _ sep_not_digit(3)] y by blast
next
  case (2 v position)
  obtain w where y: "y = ObjVector w" using draw_obj_tag [OF 2] by (cases y) auto
  then have "vector_text v @ CHR 0x0A # r = vector_text w @ CHR 0x0A # r'" using 2 by (auto simp: draw_vector_def)
  then show ?case using vector_text_prefix y by blast
next
  case (3 vs position)
  obtain ws where y: "y = ObjPolygon ws" using draw_obj_tag [OF 3] by (cases y) auto
  then have "concat (map (\<lambda>v. draw_vector v (Suc (Suc position))) vs) @ spaces position @ CHR ''<'' # ''/polygon>'' @ endl @ r =
    concat (map (\<lambda>v. draw_vector v (Suc (Suc position))) ws) @ spaces position @ CHR ''<'' # ''/polygon>'' @ endl @ r'"
    using 3 by (auto simp: draw_polygon_def)
  from draw_vectors_prefix [OF this] y show ?case by simp
next
  case (4 es position)
  obtain fs where y: "y = ObjModel fs" using draw_obj_tag [OF 4(2-4)] by (cases y) auto
  obtain te tf where t: "draw_elems es (Suc (Suc position)) = Inr te" "draw_elems fs (Suc (Suc position)) = Inr tf"
    and "te @ spaces position @ CHR ''<'' # ''/world>'' @ endl @ r = tf @ spaces position @ CHR ''<'' # ''/world>'' @ endl @ r'"
    using 4(2-4) y by (auto simp: bindE_eq_Inr_iff)
  then show ?case using 4(1) [of te fs tf position "''/world>'' @ endl @ r" "''/world>'' @ endl @ r'"] y by simp
next
  case (5 position)
  show ?case
  proof (cases fs)
    case Nil
    then show ?thesis using 5 by auto
  next
    case (Cons f fs')
    then obtain a t1 t2 where "draw_obj a (Suc (Suc p)) = Inr t1" "u = t1 @ t2" using 5 by (auto simp: bindE_eq_Inr_iff split: option.splits)
    then show ?thesis using draw_obj_deeper [of a p t1] 5 by auto
  qed
next
  case (6 e es position)
  obtain a t1 t2 where e: "e = Some a" "draw_obj a position = Inr t1" "draw_elems es position = Inr t2" "t = t1 @ t2"
    using 6(3) by (auto simp: bindE_eq_Inr_iff split: option.splits)
  show ?case
  proof (cases fs)
    case Nil
    then show ?thesis using draw_obj_deeper [of a p t1] e 6(4-6) by auto
  next
    case (Cons f fs')
    then obtain b u1 u2 where f: "f = Some b" "draw_obj b position = Inr u1" "draw_elems fs' position = Inr u2" "u = u1 @ u2"
      using 6(4) by (auto simp: bindE_eq_Inr_iff split: option.splits)
    have eq: "t1 @ t2 @ spaces p @ CHR ''<'' # r = u1 @ u2 @ spaces p @ CHR ''<'' # r'" using 6(6) e f by simp
    have "a = b \<and> t2 @ spaces p @ CHR ''<'' # r = u2 @ spaces p @ CHR ''<'' # r'" using 6(1) [OF e(1) e(2) f(2) eq] .
    then show ?thesis using 6(2) e f Cons 6(5) by blast
  qed
qed

text \<open>
  C28. A drawing determines its document. When no element of the document, nor of a document inside it, was moved from, then the document is
  drawn and copying it gives the same document; otherwise both are undefined behaviour. No other document has the same drawing.
\<close>

theorem drawing_determines:
  "(if has_object (ObjModel es) then (\<exists>t. draw_model es p = Inr t) \<and> copy_elems es = Inr es
    else draw_model es p = Inl Undefined_behaviour \<and> copy_elems es = Inl Undefined_behaviour) \<and>
   (\<forall>t fs. draw_model es p = Inr t \<and> draw_model fs p = Inr t \<longrightarrow> es = fs)"
proof
  show "if has_object (ObjModel es) then (\<exists>t. draw_model es p = Inr t) \<and> copy_elems es = Inr es
    else draw_model es p = Inl Undefined_behaviour \<and> copy_elems es = Inl Undefined_behaviour"
    using draw_cases [of es p] by (simp add: copy_full(2))
  show "\<forall>t fs. draw_model es p = Inr t \<and> draw_model fs p = Inr t \<longrightarrow> es = fs"
    using draw_prefix(1) [of "ObjModel es" p _ "ObjModel _" _ "[]" "[]"] by (auto simp: draw_model_def)
qed

text \<open>A document with a polygon and a copy of it inside, one whose element was moved from, and two polygons that differ.\<close>

theorem drawing_determines_witness:
  "(\<exists>t. draw_model [Some (ObjPolygon sample_polygon), Some (ObjModel [Some (ObjPolygon sample_polygon)])] 0 = Inr t) \<and>
   copy_elems [Some (ObjPolygon sample_polygon), Some (ObjInt 0)] = Inr [Some (ObjPolygon sample_polygon), Some (ObjInt 0)] \<and>
   draw_model [Some (ObjPolygon sample_polygon), Some (ObjModel [None])] 0 = Inl Undefined_behaviour \<and>
   draw_model [Some (ObjPolygon sample_polygon)] 0 \<noteq> draw_model [Some (ObjPolygon [])] 0"
proof (intro conjI)
  show "\<exists>t. draw_model [Some (ObjPolygon sample_polygon), Some (ObjModel [Some (ObjPolygon sample_polygon)])] 0 = Inr t"
    using drawing_determines [of "[Some (ObjPolygon sample_polygon), Some (ObjModel [Some (ObjPolygon sample_polygon)])]" 0] by simp
  show "copy_elems [Some (ObjPolygon sample_polygon), Some (ObjInt 0)] = Inr [Some (ObjPolygon sample_polygon), Some (ObjInt 0)]"
    using drawing_determines [of "[Some (ObjPolygon sample_polygon), Some (ObjInt 0)]" 0] by simp
  show "draw_model [Some (ObjPolygon sample_polygon), Some (ObjModel [None])] 0 = Inl Undefined_behaviour"
    using drawing_determines [of "[Some (ObjPolygon sample_polygon), Some (ObjModel [None])]" 0] by simp
  obtain t where t: "draw_model [Some (ObjPolygon sample_polygon)] 0 = Inr t"
    using drawing_determines [of "[Some (ObjPolygon sample_polygon)]" 0] by auto
  show "draw_model [Some (ObjPolygon sample_polygon)] 0 \<noteq> draw_model [Some (ObjPolygon [])] 0"
  proof
    assume "draw_model [Some (ObjPolygon sample_polygon)] 0 = draw_model [Some (ObjPolygon [])] 0"
    with t have "[Some (ObjPolygon sample_polygon)] = [Some (ObjPolygon [])]"
      by (intro drawing_determines [THEN conjunct2, rule_format, of _ 0 t]) simp
    then show False by (simp add: sample_polygon_def)
  qed
qed

text \<open>The model that is written out draws what the generic one draws.\<close>

fun generic :: "str_object option \<Rightarrow> Drawable" where
  "generic None = None"
| "generic (Some (DrawableInt x)) = Some (ObjInt x)"
| "generic (Some (DrawableVector3D v)) = Some (ObjVector v)"

lemma str_draw_generic: "str_draw es p = draw_elems (map generic es) p"
proof (induction es)
  case (Cons e es)
  then show ?case by (cases e rule: generic.cases) simp_all
qed simp

lemma str_model_generic: "str_draw_model es p = draw_model (map generic es) p"
  by (simp add: str_draw_model_def draw_model_def str_draw_generic)

lemma str_copy_generic: "str_copy e = Inr c \<Longrightarrow> Drawable_copy (generic e) = Inr (generic c)"
  by (cases e rule: generic.cases) (auto simp: str_copy_def Drawable_copy_def)

text \<open>What the programs print.\<close>

definition line :: "string \<Rightarrow> string" where
  "line t = t @ endl"

lemma documents_printed:
  "common_model_main = Inr (line ''<world>'' @ line ''  0'' @ line ''  <polygon>'' @ line ''    (2, 1, 6)'' @ line ''    (-3, 7, 4)'' @
     line ''  </polygon>'' @ line ''  <world>'' @ line ''    0'' @ line ''    <polygon>'' @ line ''      (2, 1, 6)'' @ line ''      (-3, 7, 4)'' @
     line ''    </polygon>'' @ line ''  </world>'' @ line ''  (-3, 7, 4)'' @ line ''</world>'')"
  "str_main = Inr (line ''<world>'' @ line ''  0'' @ line ''  (2, 1, 6)'' @ line ''  (-3, 7, 4)'' @ line ''  3'' @ line ''</world>'')"
  "ocp_good_main = line ''(2, 1, 6)'' @ line ''(-3, 7, 4)''" "srp_good_main = srp_bad_main" "srp_bad_main = ocp_good_main"
  by code_simp+

end
