(* ===== verification/Grammar.thy ===== *)
theory Grammar
  imports Input
begin

text \<open>
  The grammars of \<^verbatim>\<open>07-parsers\<close>: comparisons of sums in three versions (\<^verbatim>\<open>numgrammar\<close>) and with a driver that keeps its
  results (\<^verbatim>\<open>advgrammar\<close>), and sums of products in four versions (\<^verbatim>\<open>simplest-arith\<close>). Every nonterminal is a data type with one constructor for
  each of its rules; the tokens of a derivation and the value its actions compute are functions on it. The parsers are generated by
  bison from the grammars; the choice of a derivation is theirs. The scanners are those of flex: the longest match of the rules, the first one
  among equals.
\<close>

section \<open>Tokens\<close>

datatype tok = EQUAL | MINUS | PLUS | SCOLON | MULT | LBRAC | RBRAC | ERR | NUMBER int

definition lex_space :: "char \<Rightarrow> bool" where
  "lex_space c \<longleftrightarrow> c \<in> {CHR '' '', CHR 0x09, CHR 0x0A, CHR 0x0B}"

definition text_value :: "string \<Rightarrow> int" where
  "text_value ds = foldl (\<lambda>a d. 10 * a + digit_val d) 0 ds"

text \<open>
  One call of the scanner and of \<^verbatim>\<open>yylex\<close> of a driver: the rest of the input and the token, \<open>None\<close> at the end. \<open>punct\<close> gives the tokens of
  single characters and \<open>starts\<close> the digits a number starts with. \<^verbatim>\<open>std::stoi\<close> throws when the number has not type \<open>int\<close>.
\<close>

definition yylex :: "(char \<Rightarrow> tok option) \<Rightarrow> (char \<Rightarrow> bool) \<Rightarrow> string \<Rightarrow> (tok \<times> string) option res" where
  "yylex punct starts inp = (case dropWhile lex_space inp of
      [] \<Rightarrow> Inr None
    | c # cs \<Rightarrow> (case punct c of
        Some t \<Rightarrow> Inr (Some (t, cs))
      | None \<Rightarrow>
          if starts c
          then (let n = text_value (c # takeWhile isdigit cs) in
            if n < 2 ^ 31 then Inr (Some (NUMBER n, dropWhile isdigit cs)) else Inl (Out_of_range ''stoi''))
          else Inr (Some (ERR, cs))))"

definition num_punct :: "char \<Rightarrow> tok option" where
  "num_punct c = (if c = CHR ''+'' then Some PLUS else if c = CHR ''-'' then Some MINUS
    else if c = CHR ''='' then Some EQUAL else if c = CHR '';'' then Some SCOLON else None)"

definition num_digit1 :: "char \<Rightarrow> bool" where
  "num_digit1 c \<longleftrightarrow> isdigit c \<and> c \<noteq> CHR ''0''"

definition num_yylex :: "string \<Rightarrow> (tok \<times> string) option res" where
  "num_yylex = yylex num_punct num_digit1"

definition arith_punct :: "char \<Rightarrow> tok option" where
  "arith_punct c = (if c = CHR ''+'' then Some PLUS else if c = CHR ''*'' then Some MULT
    else if c = CHR ''('' then Some LBRAC else if c = CHR '')'' then Some RBRAC else None)"

text \<open>The driver of the sums of products calls \<^verbatim>\<open>std::terminate\<close> for an unknown character, after a message.\<close>

definition arith_yylex :: "string \<Rightarrow> (tok \<times> string) option res" where
  "arith_yylex inp = bindE (yylex arith_punct isdigit inp) (\<lambda>r. case r of
      Some (ERR, _) \<Rightarrow> Inl (Runtime_error ''terminate'')
    | _ \<Rightarrow> Inr r)"

text \<open>The tokens of a whole input.\<close>

lemma yylex_shorter: "yylex punct starts inp = Inr (Some (t, inp')) \<Longrightarrow> length inp' < length inp"
  using length_dropWhile_le [of lex_space inp] length_dropWhile_le [of isdigit "tl (dropWhile lex_space inp)"]
  by (auto simp: yylex_def Let_def split: list.splits option.splits if_splits)

function tokens :: "(string \<Rightarrow> (tok \<times> string) option res) \<Rightarrow> string \<Rightarrow> tok list res" where
  "tokens lexer inp = bindE (lexer inp) (\<lambda>r. case r of
      None \<Rightarrow> Inr []
    | Some (t, inp') \<Rightarrow> if length inp' < length inp then bindE (tokens lexer inp') (\<lambda>ts. Inr (t # ts)) else Inl Undefined_behaviour)"
  by auto
termination by (relation "measure (\<lambda>(lexer, inp). length inp)") auto

declare tokens.simps [simp del]

text \<open>Values of the actions have type \<open>int\<close>.\<close>

definition ck :: "int \<Rightarrow> int res" where
  "ck x = (if - (2 ^ 31) \<le> x \<and> x < 2 ^ 31 then Inr x else Inl Undefined_behaviour)"

definition op2 :: "(int \<Rightarrow> int \<Rightarrow> int) \<Rightarrow> int res \<Rightarrow> int res \<Rightarrow> int res" where
  "op2 f a b = bindE a (\<lambda>x. bindE b (\<lambda>y. ck (f x y)))"

section \<open>Comparisons\<close>

datatype 'e equals = Equals 'e 'e

datatype 'e eqlist = EqCons "'e equals" "'e eqlist" | EqEmpty

fun equals_toks :: "('e \<Rightarrow> tok list) \<Rightarrow> 'e equals \<Rightarrow> tok list" where
  "equals_toks toks (Equals a b) = toks a @ EQUAL # toks b"

fun eqlist_toks :: "('e \<Rightarrow> tok list) \<Rightarrow> 'e eqlist \<Rightarrow> tok list" where
  "eqlist_toks toks (EqCons e es) = equals_toks toks e @ SCOLON # eqlist_toks toks es"
| "eqlist_toks toks EqEmpty = []"

definition checking_line :: "int \<Rightarrow> int \<Rightarrow> string" where
  "checking_line a b = ''Checking: '' @ string_of_int a @ '' vs '' @ string_of_int b @ ''; Result: '' @ string_of_int (if a = b then 1 else 0) @ endl"

text \<open>The action of \<open>equals\<close> prints; the rules of the list reduce their comparisons in the order of the input.\<close>

fun equals_act :: "('e \<Rightarrow> int res) \<Rightarrow> 'e equals \<Rightarrow> string res" where
  "equals_act val (Equals a b) = bindE (val a) (\<lambda>x. bindE (val b) (\<lambda>y. Inr (checking_line x y)))"

fun eqlist_act :: "('e \<Rightarrow> int res) \<Rightarrow> 'e eqlist \<Rightarrow> string res" where
  "eqlist_act val (EqCons e es) = bindE (equals_act val e) (\<lambda>t. bindE (eqlist_act val es) (\<lambda>ts. Inr (t @ ts)))"
| "eqlist_act val EqEmpty = Inr []"

text \<open>\<^verbatim>\<open>numgrammar-sr-fixed.y\<close>: the second operand is a number.\<close>

datatype fexpr = FPlus fexpr int | FMinus fexpr int | FNumber int

fun f_toks :: "fexpr \<Rightarrow> tok list" where
  "f_toks (FPlus e n) = f_toks e @ [PLUS, NUMBER n]"
| "f_toks (FMinus e n) = f_toks e @ [MINUS, NUMBER n]"
| "f_toks (FNumber n) = [NUMBER n]"

fun f_val :: "fexpr \<Rightarrow> int res" where
  "f_val (FPlus e n) = op2 (+) (f_val e) (Inr n)"
| "f_val (FMinus e n) = op2 (-) (f_val e) (Inr n)"
| "f_val (FNumber n) = Inr n"

text \<open>\<^verbatim>\<open>numgrammar.y\<close>: a number and the rest.\<close>

datatype arith_rest = APlus int arith_rest | AMinus int arith_rest | AEmpty

datatype nexpr = NExpr int arith_rest

fun a_toks :: "arith_rest \<Rightarrow> tok list" where
  "a_toks (APlus n a) = PLUS # NUMBER n # a_toks a"
| "a_toks (AMinus n a) = MINUS # NUMBER n # a_toks a"
| "a_toks AEmpty = []"

fun a_val :: "arith_rest \<Rightarrow> int res" where
  "a_val (APlus n a) = op2 (+) (Inr n) (a_val a)"
| "a_val (AMinus n a) = op2 (\<lambda>x y. - x + y) (Inr n) (a_val a)"
| "a_val AEmpty = Inr 0"

fun n_toks :: "nexpr \<Rightarrow> tok list" where
  "n_toks (NExpr n a) = NUMBER n # a_toks a"

fun n_val :: "nexpr \<Rightarrow> int res" where
  "n_val (NExpr n a) = op2 (+) (Inr n) (a_val a)"

text \<open>\<^verbatim>\<open>numgrammar-sr.y\<close>: both operands are expressions.\<close>

datatype sexpr = SPlus sexpr sexpr | SMinus sexpr sexpr | SNumber int

fun s_toks :: "sexpr \<Rightarrow> tok list" where
  "s_toks (SPlus a b) = s_toks a @ PLUS # s_toks b"
| "s_toks (SMinus a b) = s_toks a @ MINUS # s_toks b"
| "s_toks (SNumber n) = [NUMBER n]"

fun s_val :: "sexpr \<Rightarrow> int res" where
  "s_val (SPlus a b) = op2 (+) (s_val a) (s_val b)"
| "s_val (SMinus a b) = op2 (-) (s_val a) (s_val b)"
| "s_val (SNumber n) = Inr n"

text \<open>
  \<^verbatim>\<open>advgrammar\<close>: the expression is that of the fixed grammar, its value is a vector; the list is not empty, and its vector is in the
  reverse order of the input. \<open>insert\<close> reverses it, \<open>printout\<close> adds up.
\<close>

fun v_val :: "fexpr \<Rightarrow> int list res" where
  "v_val (FNumber n) = Inr [n]"
| "v_val (FPlus e n) = bindE (v_val e) (\<lambda>v. Inr (v @ [n]))"
| "v_val (FMinus e n) = bindE (v_val e) (\<lambda>v. bindE (ck (- n)) (\<lambda>m. Inr (v @ [m])))"

fun v_equals :: "fexpr equals \<Rightarrow> (int list \<times> int list) res" where
  "v_equals (Equals a b) = bindE (v_val a) (\<lambda>x. bindE (v_val b) (\<lambda>y. Inr (x, y)))"

datatype advlist = AdvCons "fexpr equals" advlist | AdvOne "fexpr equals"

fun adv_toks :: "advlist \<Rightarrow> tok list" where
  "adv_toks (AdvCons e es) = equals_toks f_toks e @ SCOLON # adv_toks es"
| "adv_toks (AdvOne e) = equals_toks f_toks e @ [SCOLON]"

fun adv_val :: "advlist \<Rightarrow> (int list \<times> int list) list res" where
  "adv_val (AdvCons e es) = bindE (v_equals e) (\<lambda>p. bindE (adv_val es) (\<lambda>v. Inr (v @ [p])))"
| "adv_val (AdvOne e) = bindE (v_equals e) (\<lambda>p. Inr [p])"

definition NumDriver_insert :: "(int list \<times> int list) list \<Rightarrow> (int list \<times> int list) list" where
  "NumDriver_insert v = rev v"

fun accumulate :: "int list \<Rightarrow> int \<Rightarrow> int res" where
  "accumulate [] s = Inr s"
| "accumulate (x # xs) s = bindE (ck (s + x)) (accumulate xs)"

fun printout :: "(int list \<times> int list) list \<Rightarrow> string res" where
  "printout [] = Inr []"
| "printout (vv # vvv) =
    bindE (accumulate (fst vv) 0) (\<lambda>sumleft. bindE (accumulate (snd vv) 0) (\<lambda>sumright.
      bindE (printout vvv) (\<lambda>ts. Inr (checking_line sumleft sumright @ ts))))"

definition adv_program :: "advlist \<Rightarrow> string res" where
  "adv_program es = bindE (adv_val es) (\<lambda>v. printout (NumDriver_insert v))"

section \<open>Sums of products\<close>

text \<open>\<^verbatim>\<open>simplest-lr.yy\<close>.\<close>

datatype EN = EN_plus EN TN | EN_TN TN
  and TN = TN_mult TN FN | TN_FN FN
  and FN = FN_brac EN | FN_number int

fun EN_toks :: "EN \<Rightarrow> tok list" and TN_toks :: "TN \<Rightarrow> tok list" and FN_toks :: "FN \<Rightarrow> tok list" where
  "EN_toks (EN_plus e t) = EN_toks e @ PLUS # TN_toks t"
| "EN_toks (EN_TN t) = TN_toks t"
| "TN_toks (TN_mult t f) = TN_toks t @ MULT # FN_toks f"
| "TN_toks (TN_FN f) = FN_toks f"
| "FN_toks (FN_brac e) = LBRAC # EN_toks e @ [RBRAC]"
| "FN_toks (FN_number n) = [NUMBER n]"

fun EN_val :: "EN \<Rightarrow> int res" and TN_val :: "TN \<Rightarrow> int res" and FN_val :: "FN \<Rightarrow> int res" where
  "EN_val (EN_plus e t) = op2 (+) (EN_val e) (TN_val t)"
| "EN_val (EN_TN t) = TN_val t"
| "TN_val (TN_mult t f) = op2 (*) (TN_val t) (FN_val f)"
| "TN_val (TN_FN f) = FN_val f"
| "FN_val (FN_brac e) = EN_val e"
| "FN_val (FN_number n) = Inr n"

text \<open>\<^verbatim>\<open>simplest-nlr.yy\<close>.\<close>

datatype REN = REN RTN EPN
  and EPN = EPN_plus RTN EPN | EPN_empty
  and RTN = RTN RFN TPN
  and TPN = TPN_mult RFN TPN | TPN_empty
  and RFN = RFN_brac REN | RFN_number int

fun REN_toks :: "REN \<Rightarrow> tok list" and EPN_toks :: "EPN \<Rightarrow> tok list" and RTN_toks :: "RTN \<Rightarrow> tok list"
  and TPN_toks :: "TPN \<Rightarrow> tok list" and RFN_toks :: "RFN \<Rightarrow> tok list" where
  "REN_toks (REN t ep) = RTN_toks t @ EPN_toks ep"
| "EPN_toks (EPN_plus t ep) = PLUS # RTN_toks t @ EPN_toks ep"
| "EPN_toks EPN_empty = []"
| "RTN_toks (RTN f tp) = RFN_toks f @ TPN_toks tp"
| "TPN_toks (TPN_mult f tp) = MULT # RFN_toks f @ TPN_toks tp"
| "TPN_toks TPN_empty = []"
| "RFN_toks (RFN_brac e) = LBRAC # REN_toks e @ [RBRAC]"
| "RFN_toks (RFN_number n) = [NUMBER n]"

fun REN_val :: "REN \<Rightarrow> int res" and EPN_val :: "EPN \<Rightarrow> int res" and RTN_val :: "RTN \<Rightarrow> int res"
  and TPN_val :: "TPN \<Rightarrow> int res" and RFN_val :: "RFN \<Rightarrow> int res" where
  "REN_val (REN t ep) = op2 (+) (RTN_val t) (EPN_val ep)"
| "EPN_val (EPN_plus t ep) = op2 (+) (RTN_val t) (EPN_val ep)"
| "EPN_val EPN_empty = Inr 0"
| "RTN_val (RTN f tp) = op2 (*) (RFN_val f) (TPN_val tp)"
| "TPN_val (TPN_mult f tp) = op2 (*) (RFN_val f) (TPN_val tp)"
| "TPN_val TPN_empty = Inr 1"
| "RFN_val (RFN_brac e) = REN_val e"
| "RFN_val (RFN_number n) = Inr n"

text \<open>\<^verbatim>\<open>simplest-amb.yy\<close>.\<close>

datatype AEN = AEN_plus AEN AEN | AEN_mult AEN AEN | AEN_brac AEN | AEN_number int

fun AEN_toks :: "AEN \<Rightarrow> tok list" where
  "AEN_toks (AEN_plus a b) = AEN_toks a @ PLUS # AEN_toks b"
| "AEN_toks (AEN_mult a b) = AEN_toks a @ MULT # AEN_toks b"
| "AEN_toks (AEN_brac e) = LBRAC # AEN_toks e @ [RBRAC]"
| "AEN_toks (AEN_number n) = [NUMBER n]"

fun AEN_val :: "AEN \<Rightarrow> int res" where
  "AEN_val (AEN_plus a b) = op2 (+) (AEN_val a) (AEN_val b)"
| "AEN_val (AEN_mult a b) = op2 (*) (AEN_val a) (AEN_val b)"
| "AEN_val (AEN_brac e) = AEN_val e"
| "AEN_val (AEN_number n) = Inr n"

text \<open>\<^verbatim>\<open>simplest-bad.yy\<close>: a factor may be any expression.\<close>

datatype BEN = BEN_TN BTN | BEN_plus BEN BTN
  and BTN = BTN_mult BTN BFN | BTN_FN BFN
  and BFN = BFN_EN BEN | BFN_brac BEN | BFN_number int

fun BEN_toks :: "BEN \<Rightarrow> tok list" and BTN_toks :: "BTN \<Rightarrow> tok list" and BFN_toks :: "BFN \<Rightarrow> tok list" where
  "BEN_toks (BEN_TN t) = BTN_toks t"
| "BEN_toks (BEN_plus e t) = BEN_toks e @ PLUS # BTN_toks t"
| "BTN_toks (BTN_mult t f) = BTN_toks t @ MULT # BFN_toks f"
| "BTN_toks (BTN_FN f) = BFN_toks f"
| "BFN_toks (BFN_EN e) = BEN_toks e"
| "BFN_toks (BFN_brac e) = LBRAC # BEN_toks e @ [RBRAC]"
| "BFN_toks (BFN_number n) = [NUMBER n]"

fun BEN_val :: "BEN \<Rightarrow> int res" and BTN_val :: "BTN \<Rightarrow> int res" and BFN_val :: "BFN \<Rightarrow> int res" where
  "BEN_val (BEN_TN t) = BTN_val t"
| "BEN_val (BEN_plus e t) = op2 (+) (BEN_val e) (BTN_val t)"
| "BTN_val (BTN_mult t f) = op2 (*) (BTN_val t) (BFN_val f)"
| "BTN_val (BTN_FN f) = BFN_val f"
| "BFN_val (BFN_EN e) = BEN_val e"
| "BFN_val (BFN_brac e) = BEN_val e"
| "BFN_val (BFN_number n) = Inr n"

text \<open>The action of \<open>program\<close>.\<close>

definition program_act :: "int res \<Rightarrow> string res" where
  "program_act v = bindE v (\<lambda>x. Inr (string_of_int x @ endl))"

end
