(* ===== verification/Grammar_Props.thy ===== *)
theory Grammar_Props
  imports Grammar
begin

text \<open>
  What the grammars have in common: the two right grammars of comparisons are unambiguous, have the same sentences and the
  same results, and the driver that keeps its results prints the same; the third is ambiguous, and a sentence has different results in
  it. Of the grammars of sums of products the left-recursive one and the one without left recursion are unambiguous and agree, the others are not.
\<close>

section \<open>Scanning\<close>

fun num_text :: "tok \<Rightarrow> string" where
  "num_text PLUS = ''+''" | "num_text MINUS = ''-''" | "num_text EQUAL = ''=''" | "num_text SCOLON = '';''"
| "num_text (NUMBER n) = string_of_int n" | "num_text _ = []"

fun num_tok :: "tok \<Rightarrow> bool" where
  "num_tok (NUMBER n) = (0 < n \<and> n < 2 ^ 31)" | "num_tok t = (t \<in> {PLUS, MINUS, EQUAL, SCOLON})"

lemma string_of_nat_first: "0 < n \<Longrightarrow> num_digit1 (hd (string_of_nat n))"
proof (induction n rule: dec_digits.induct)
  case (1 n)
  show ?case
  proof (cases "10 \<le> n")
    case True
    have "string_of_nat n = string_of_nat (n div 10) @ [''0123456789'' ! (n mod 10)]"
      using True by (subst string_of_nat_def, subst dec_digits.simps) (simp add: string_of_nat_def)
    moreover have "string_of_nat (n div 10) \<noteq> []" by (simp add: string_of_nat_def dec_digits_nonempty)
    ultimately show ?thesis using 1 True by (simp add: div_greater_zero_iff)
  next
    case False
    then have "string_of_nat n = [''0123456789'' ! n]" by (subst string_of_nat_def, subst dec_digits.simps) simp
    then show ?thesis using digit_cases [of n] False 1(2) by (auto simp: num_digit1_def isdigit_def)
  qed
qed

lemma digit_not_lex: "isdigit c \<Longrightarrow> \<not> lex_space c" "isdigit c \<Longrightarrow> num_punct c = None" "isdigit c \<Longrightarrow> arith_punct c = None"
  by (auto simp: isdigit_def lex_space_def num_punct_def arith_punct_def)

lemma num_yylex_tok: "num_tok t \<Longrightarrow> num_yylex (num_text t @ CHR '' '' # inp) = Inr (Some (t, CHR '' '' # inp))"
proof (cases t)
  case (NUMBER n)
  assume "num_tok t"
  then have n: "0 < nat n" "n < 2 ^ 31" "string_of_int n = string_of_nat (nat n)" using NUMBER by (auto simp: string_of_int_def)
  obtain c cs where c: "string_of_nat (nat n) = c # cs" by (meson string_of_nat_Cons)
  have d: "num_digit1 c" using string_of_nat_first [OF n(1)] c by simp
  then have dig: "isdigit c" by (simp add: num_digit1_def)
  have "takeWhile isdigit (cs @ CHR '' '' # inp) = cs" "dropWhile isdigit (cs @ CHR '' '' # inp) = CHR '' '' # inp"
    using takeWhile_digits [of "CHR '' ''" "nat n" inp] dig unfolding c by simp_all
  moreover have "text_value (c # cs) = n" using string_of_nat_value [of "nat n"] n(1) unfolding c text_value_def by simp
  ultimately show ?thesis using NUMBER n c d dig by (simp add: num_yylex_def yylex_def digit_not_lex)
qed (auto simp: num_yylex_def yylex_def num_punct_def lex_space_def)

lemma num_yylex_space: "num_yylex (CHR '' '' # inp) = num_yylex inp"
  by (simp add: num_yylex_def yylex_def lex_space_def)

lemma tokens_space: "tokens num_yylex (CHR '' '' # inp) = tokens num_yylex inp"
proof -
  have "length i < Suc (length inp) \<longleftrightarrow> length i < length inp" if "num_yylex inp = Inr (Some (t, i))" for t i
    using yylex_shorter [of num_punct num_digit1 inp t i] that by (simp add: num_yylex_def less_SucI)
  then show ?thesis by (subst (1 2) tokens.simps) (auto simp: num_yylex_space bindE_def split: sum.splits option.splits)
qed

text \<open>
  Scanning: the tokens of the comparisons, written with blanks behind them, are read back; a number is read back when it is
  positive and has type \<open>int\<close>.
\<close>

theorem scan_roundtrip:
  assumes "list_all num_tok ts"
  shows "tokens num_yylex (concat (map (\<lambda>t. num_text t @ '' '') ts)) = Inr ts"
  using assms
proof (induction ts)
  case Nil
  then show ?case by (simp add: tokens.simps num_yylex_def yylex_def)
next
  case (Cons t ts)
  let ?rest = "CHR '' '' # concat (map (\<lambda>t. num_text t @ '' '') ts)"
  have l: "num_yylex (num_text t @ ?rest) = Inr (Some (t, ?rest))" using Cons.prems num_yylex_tok by simp
  then have "length ?rest < length (num_text t @ ?rest)" unfolding num_yylex_def by (rule yylex_shorter)
  then show ?case using l Cons tokens_space by (simp add: tokens.simps [of num_yylex "num_text t @ ?rest"])
qed

theorem scan_roundtrip_witness: "tokens num_yylex ''100 + 1 = 100 - 2 ; '' = Inr [NUMBER 100, PLUS, NUMBER 1, EQUAL, NUMBER 100, MINUS, NUMBER 2, SCOLON]"
proof -
  have "concat (map (\<lambda>t. num_text t @ '' '') [NUMBER 100, PLUS, NUMBER 1, EQUAL, NUMBER 100, MINUS, NUMBER 2, SCOLON]) = ''100 + 1 = 100 - 2 ; ''"
    by code_simp
  moreover have "list_all num_tok [NUMBER 100, PLUS, NUMBER 1, EQUAL, NUMBER 100, MINUS, NUMBER 2, SCOLON]" by simp
  ultimately show ?thesis using scan_roundtrip by metis
qed


section \<open>Expressions of numbers\<close>

text \<open>The first number, and the numbers behind it with their signs.\<close>

fun ops_toks :: "(bool \<times> int) list \<Rightarrow> tok list" where
  "ops_toks [] = []"
| "ops_toks ((pos, n) # ops) = (if pos then PLUS else MINUS) # NUMBER n # ops_toks ops"

definition ops_sum :: "(bool \<times> int) list \<Rightarrow> int" where
  "ops_sum ops = (\<Sum>(pos, n) \<leftarrow> ops. if pos then n else - n)"

fun f_first :: "fexpr \<Rightarrow> int" and f_ops :: "fexpr \<Rightarrow> (bool \<times> int) list" where
  "f_first (FPlus e n) = f_first e" | "f_first (FMinus e n) = f_first e" | "f_first (FNumber n) = n"
| "f_ops (FPlus e n) = f_ops e @ [(True, n)]" | "f_ops (FMinus e n) = f_ops e @ [(False, n)]" | "f_ops (FNumber n) = []"

fun a_ops :: "arith_rest \<Rightarrow> (bool \<times> int) list" where
  "a_ops (APlus n a) = (True, n) # a_ops a" | "a_ops (AMinus n a) = (False, n) # a_ops a" | "a_ops AEmpty = []"

fun arith_of :: "(bool \<times> int) list \<Rightarrow> arith_rest" where
  "arith_of [] = AEmpty"
| "arith_of ((pos, n) # ops) = (if pos then APlus n (arith_of ops) else AMinus n (arith_of ops))"

fun f_app :: "fexpr \<Rightarrow> (bool \<times> int) list \<Rightarrow> fexpr" where
  "f_app e [] = e"
| "f_app e ((pos, n) # ops) = f_app (if pos then FPlus e n else FMinus e n) ops"

lemma ops_toks_append: "ops_toks (xs @ ys) = ops_toks xs @ ops_toks ys"
  by (induction xs rule: ops_toks.induct) simp_all

lemma ops_sum_simps [simp]: "ops_sum [] = 0" "ops_sum ((p, n) # ops) = (if p then n else - n) + ops_sum ops" "ops_sum (xs @ ys) = ops_sum xs + ops_sum ys"
  by (simp_all add: ops_sum_def)

lemma f_toks_ops: "f_toks e = NUMBER (f_first e) # ops_toks (f_ops e)"
  by (induction e) (simp_all add: ops_toks_append)

lemma a_toks_ops: "a_toks a = ops_toks (a_ops a)"
  by (induction a) simp_all

lemma a_ops_of: "a_ops (arith_of ops) = ops"
  by (induction ops rule: arith_of.induct) simp_all

lemma arith_of_ops: "arith_of (a_ops a) = a"
  by (induction a) simp_all

lemma f_app_ops: "f_first (f_app e ops) = f_first e" "f_ops (f_app e ops) = f_ops e @ ops"
  by (induction e ops rule: f_app.induct) simp_all

lemma f_app_append: "f_app e (xs @ ys) = f_app (f_app e xs) ys"
  by (induction e xs rule: f_app.induct) simp_all

lemma f_app_self: "f_app (FNumber (f_first e)) (f_ops e) = e"
  by (induction e) (simp_all add: f_app_append)

definition op_free :: "tok list \<Rightarrow> bool" where
  "op_free r \<longleftrightarrow> r = [] \<or> hd r \<noteq> PLUS \<and> hd r \<noteq> MINUS"

lemma ops_toks_prefix: "ops_toks xs @ r = ops_toks ys @ r' \<Longrightarrow> op_free r \<Longrightarrow> op_free r' \<Longrightarrow> xs = ys \<and> r = r'"
proof (induction xs arbitrary: ys rule: ops_toks.induct)
  case 1
  then show ?case by (cases ys rule: ops_toks.cases) (auto simp: op_free_def split: if_splits)
next
  case (2 pos n ops)
  then show ?case by (cases ys rule: ops_toks.cases) (auto simp: op_free_def split: if_splits)
qed

section \<open>Unambiguous comparisons\<close>

text \<open>
  What the rules for lists and comparisons need from the rules for expressions: the tokens of an expression end where one of the two
  separators comes.
\<close>

locale expression_grammar =
  fixes toks :: "'e \<Rightarrow> tok list"
  assumes ends: "toks a @ s # r = toks b @ s' # r' \<Longrightarrow> s \<in> {EQUAL, SCOLON} \<Longrightarrow> s' \<in> {EQUAL, SCOLON} \<Longrightarrow> a = b \<and> s = s' \<and> r = r'"
begin

lemma equals_ends: "equals_toks toks e @ SCOLON # r = equals_toks toks e' @ SCOLON # r' \<Longrightarrow> e = e' \<and> r = r'"
proof (cases e; cases e')
  fix a b a' b'
  assume e: "e = Equals a b" "e' = Equals a' b'" and eq: "equals_toks toks e @ SCOLON # r = equals_toks toks e' @ SCOLON # r'"
  have "toks a @ EQUAL # (toks b @ SCOLON # r) = toks a' @ EQUAL # (toks b' @ SCOLON # r')" using e eq by simp
  from ends [OF this] have "a = a'" "toks b @ SCOLON # r = toks b' @ SCOLON # r'" by simp_all
  then show ?thesis using ends [of b SCOLON r b' SCOLON r'] e by simp
qed

lemma equals_nonempty: "equals_toks toks e @ r \<noteq> []"
  by (cases e) simp

lemma unambiguous: "eqlist_toks toks es = eqlist_toks toks es' \<Longrightarrow> es = es'"
proof (induction es arbitrary: es')
  case (EqCons e es)
  then obtain e' es'' where es': "es' = EqCons e' es''" by (cases es') (auto simp: equals_nonempty)
  then have "e = e'" "eqlist_toks toks es = eqlist_toks toks es''"
    using equals_ends [of e "eqlist_toks toks es" e' "eqlist_toks toks es''"] EqCons.prems by simp_all
  then show ?case using EqCons.IH es' by simp
next
  case EqEmpty
  then show ?case by (cases es') (auto simp: equals_nonempty)
qed

end

interpretation fixed: expression_grammar f_toks
proof
  fix a b s s' r r'
  assume "f_toks a @ s # r = f_toks b @ s' # r'" "s \<in> {EQUAL, SCOLON}" "s' \<in> {EQUAL, SCOLON}"
  then have "f_first a = f_first b" "f_ops a = f_ops b \<and> s # r = s' # r'"
    using ops_toks_prefix [of "f_ops a" "s # r" "f_ops b" "s' # r'"] by (auto simp: f_toks_ops op_free_def)
  then show "a = b \<and> s = s' \<and> r = r'" using f_app_self by (metis list.inject)
qed

interpretation number_first: expression_grammar n_toks
proof
  fix a b s s' r r'
  assume "n_toks a @ s # r = n_toks b @ s' # r'" "s \<in> {EQUAL, SCOLON}" "s' \<in> {EQUAL, SCOLON}"
  then show "a = b \<and> s = s' \<and> r = r'"
    using ops_toks_prefix [of "a_ops _" "s # r" "a_ops _" "s' # r'"] arith_of_ops
    by (cases a; cases b) (auto simp: a_toks_ops op_free_def, metis+)
qed


section \<open>The right grammars agree\<close>

definition n_of :: "fexpr \<Rightarrow> nexpr" where
  "n_of e = NExpr (f_first e) (arith_of (f_ops e))"

fun f_of :: "nexpr \<Rightarrow> fexpr" where
  "f_of (NExpr n a) = f_app (FNumber n) (a_ops a)"

lemma n_of_toks: "n_toks (n_of e) = f_toks e"
  by (simp add: n_of_def a_toks_ops f_toks_ops a_ops_of)

lemma f_of_toks: "f_toks (f_of e) = n_toks e"
  by (cases e) (simp add: a_toks_ops f_toks_ops f_app_ops)

lemma eqlist_toks_map: "eqlist_toks toks (map_eqlist f es) = eqlist_toks (\<lambda>e. toks (f e)) es"
proof (induction es)
  case (EqCons e es)
  then show ?case by (cases e) simp
qed simp

lemma ck_eq: "ck x = Inr v \<Longrightarrow> v = x"
  by (simp add: ck_def split: if_splits)

lemma f_val_sum: "f_val e = Inr v \<Longrightarrow> v = f_first e + ops_sum (f_ops e)"
  by (induction e arbitrary: v) (auto simp: op2_def bindE_eq_Inr_iff dest!: ck_eq)

lemma a_val_sum: "a_val a = Inr v \<Longrightarrow> v = ops_sum (a_ops a)"
  by (induction a arbitrary: v) (auto simp: op2_def bindE_eq_Inr_iff dest!: ck_eq)

lemma n_val_sum: "n_val (n_of e) = Inr v \<Longrightarrow> v = f_first e + ops_sum (f_ops e)"
  by (auto simp: n_of_def op2_def bindE_eq_Inr_iff a_ops_of dest!: ck_eq a_val_sum)

lemma eqlist_act_same:
  assumes "\<And>e v w. val e = Inr v \<Longrightarrow> val' (f e) = Inr w \<Longrightarrow> v = w"
  shows "eqlist_act val es = Inr t \<Longrightarrow> eqlist_act val' (map_eqlist f es) = Inr u \<Longrightarrow> t = u"
proof (induction es arbitrary: t u)
  case (EqCons e es)
  have "x = y" if "equals_act val e = Inr x" "equals_act val' (map_equals f e) = Inr y" for x y
    using that assms by (cases e) (auto simp: bindE_eq_Inr_iff, blast+)
  then show ?case using EqCons by (auto simp: bindE_eq_Inr_iff)
qed simp

text \<open>The absolute values of the numbers of an expression add up to an \<open>int\<close>: then no order of the additions overflows.\<close>

definition small_sums :: "fexpr \<Rightarrow> bool" where
  "small_sums e \<longleftrightarrow> \<bar>f_first e\<bar> + (\<Sum>(pos, n) \<leftarrow> f_ops e. \<bar>n\<bar>) < 2 ^ 31"

lemma ops_abs: "\<bar>ops_sum ops\<bar> \<le> (\<Sum>(pos, n) \<leftarrow> ops. \<bar>n\<bar>)"
  by (induction ops) (auto simp: case_prod_beta)

lemma ops_abs_nonneg: "0 \<le> (\<Sum>(pos, n) \<leftarrow> ops. \<bar>n\<bar>)" for ops :: "(bool \<times> int) list"
  using ops_abs [of ops] by linarith

lemma ck_small: "\<bar>x\<bar> < 2 ^ 31 \<Longrightarrow> ck x = Inr x"
  unfolding abs_less_iff ck_def by simp

lemma f_val_small: "small_sums e \<Longrightarrow> f_val e = Inr (f_first e + ops_sum (f_ops e))"
proof (induction e)
  case (FPlus e n)
  then have "small_sums e" "\<bar>f_first e + ops_sum (f_ops e) + n\<bar> < 2 ^ 31" using ops_abs [of "f_ops e"] by (auto simp: small_sums_def)
  then show ?case using FPlus.IH by (simp add: op2_def ck_small add.assoc)
next
  case (FMinus e n)
  then have "small_sums e" "\<bar>f_first e + ops_sum (f_ops e) - n\<bar> < 2 ^ 31" using ops_abs [of "f_ops e"] by (auto simp: small_sums_def)
  then show ?case using FMinus.IH by (simp add: op2_def ck_small)
qed simp

lemma a_val_small: "(\<Sum>(pos, n) \<leftarrow> a_ops a. \<bar>n\<bar>) < 2 ^ 31 \<Longrightarrow> a_val a = Inr (ops_sum (a_ops a))"
proof (induction a)
  case (APlus n a)
  then have "\<bar>n + ops_sum (a_ops a)\<bar> < 2 ^ 31" using ops_abs [of "a_ops a"] by auto
  then show ?case using APlus by (simp add: op2_def ck_small)
next
  case (AMinus n a)
  then have "\<bar>- n + ops_sum (a_ops a)\<bar> < 2 ^ 31" using ops_abs [of "a_ops a"] by auto
  then show ?case using AMinus by (simp add: op2_def ck_small)
qed simp

lemma n_val_small: "small_sums e \<Longrightarrow> n_val (n_of e) = Inr (f_first e + ops_sum (f_ops e))"
proof -
  assume e: "small_sums e"
  then have "\<bar>f_first e + ops_sum (f_ops e)\<bar> < 2 ^ 31" using ops_abs [of "f_ops e"] by (auto simp: small_sums_def)
  then show ?thesis using e a_val_small [of "arith_of (f_ops e)"] by (simp add: n_of_def a_ops_of small_sums_def op2_def ck_small)
qed

lemma eqlist_act_small:
  assumes "\<forall>e \<in> set_eqlist es. small_sums e" shows "eqlist_act n_val (map_eqlist n_of es) = eqlist_act f_val es"
  using assms
proof (induction es)
  case (EqCons e es)
  then show ?case by (cases e) (simp add: f_val_small n_val_small)
qed simp

text \<open>
  C30. The right grammars of comparisons have the same sentences, and every sentence has one derivation in each. What the actions print for it
  is the same in both when no sum overflows, and no sum does when the numbers of every expression add up to an \<open>int\<close>.
\<close>

theorem comparison_grammars_agree:
  "(\<exists>!fs. eqlist_toks f_toks fs = eqlist_toks f_toks es) \<and> (\<exists>!ns. eqlist_toks n_toks ns = eqlist_toks f_toks es) \<and>
   (\<forall>ms. \<exists>fs. eqlist_toks f_toks fs = eqlist_toks n_toks ms) \<and>
   (\<forall>ns. eqlist_toks n_toks ns = eqlist_toks f_toks es \<longrightarrow>
     (\<forall>t u. eqlist_act f_val es = Inr t \<and> eqlist_act n_val ns = Inr u \<longrightarrow> t = u) \<and>
     ((\<forall>e \<in> set_eqlist es. small_sums e) \<longrightarrow> eqlist_act n_val ns = eqlist_act f_val es))"
proof -
  have toks: "eqlist_toks n_toks (map_eqlist n_of es) = eqlist_toks f_toks es"
    using n_of_toks by (simp add: eqlist_toks_map)
  have "eqlist_toks f_toks (map_eqlist f_of ms) = eqlist_toks n_toks ms" for ms
    using f_of_toks by (simp add: eqlist_toks_map)
  note from_n = this
  have only: "ns = map_eqlist n_of es" if "eqlist_toks n_toks ns = eqlist_toks f_toks es" for ns
    using that toks number_first.unambiguous by metis
  have same: "t = u" if "eqlist_act f_val es = Inr t" "eqlist_act n_val (map_eqlist n_of es) = Inr u" for t u
    using eqlist_act_same [OF _ that] f_val_sum n_val_sum by metis
  show ?thesis
  proof (intro conjI allI impI)
    show "\<exists>!fs. eqlist_toks f_toks fs = eqlist_toks f_toks es" using fixed.unambiguous by blast
    show "\<exists>!ns. eqlist_toks n_toks ns = eqlist_toks f_toks es" using toks only by blast
    show "\<exists>fs. eqlist_toks f_toks fs = eqlist_toks n_toks ms" for ms using from_n by blast
    show "t = u" if "eqlist_toks n_toks ns = eqlist_toks f_toks es" "eqlist_act f_val es = Inr t \<and> eqlist_act n_val ns = Inr u" for ns t u
      using that only same by blast
    show "eqlist_act n_val ns = eqlist_act f_val es" if "eqlist_toks n_toks ns = eqlist_toks f_toks es" "\<forall>e \<in> set_eqlist es. small_sums e" for ns
      using that only eqlist_act_small by blast
  qed
qed

text \<open>A comparison of the test data.\<close>

theorem comparison_grammars_agree_witness:
  "eqlist_act n_val (EqCons (Equals (NExpr 6 AEmpty) (NExpr 10 (AMinus 1 (AMinus 4 AEmpty)))) EqEmpty) =
   eqlist_act f_val (EqCons (Equals (FNumber 6) (FMinus (FMinus (FNumber 10) 1) 4)) EqEmpty)"
proof -
  let ?es = "EqCons (Equals (FNumber 6) (FMinus (FMinus (FNumber 10) 1) 4)) EqEmpty"
  let ?ns = "EqCons (Equals (NExpr 6 AEmpty) (NExpr 10 (AMinus 1 (AMinus 4 AEmpty)))) EqEmpty"
  have "eqlist_toks n_toks ?ns = eqlist_toks f_toks ?es" "\<forall>e \<in> set_eqlist ?es. small_sums e" by (simp_all add: small_sums_def)
  with comparison_grammars_agree [of ?es, THEN conjunct2, THEN conjunct2, THEN conjunct2, THEN spec, of ?ns] show ?thesis by blast
qed

section \<open>The driver that keeps its results\<close>

fun adv_list :: "advlist \<Rightarrow> fexpr eqlist" where
  "adv_list (AdvCons e es) = EqCons e (adv_list es)"
| "adv_list (AdvOne e) = EqCons e EqEmpty"

lemma adv_list_toks: "eqlist_toks f_toks (adv_list es) = adv_toks es"
  by (induction es) simp_all

text \<open>The numbers a scanner gives.\<close>

definition numbers_ok :: "tok list \<Rightarrow> bool" where
  "numbers_ok ts \<longleftrightarrow> (\<forall>n. NUMBER n \<in> set ts \<longrightarrow> 0 \<le> n \<and> n < 2 ^ 31)"

lemma numbers_ok_simps [simp]:
  "numbers_ok (xs @ ys) \<longleftrightarrow> numbers_ok xs \<and> numbers_ok ys" "numbers_ok []"
  "numbers_ok (t # ts) \<longleftrightarrow> (\<forall>n. t = NUMBER n \<longrightarrow> 0 \<le> n \<and> n < 2 ^ 31) \<and> numbers_ok ts"
  by (auto simp: numbers_ok_def)

lemma accumulate_snoc: "accumulate (xs @ [x]) s = bindE (accumulate xs s) (\<lambda>t. ck (t + x))"
  by (induction xs arbitrary: s) (auto simp: bindE_def split: sum.splits)

lemma v_val_accumulate: "numbers_ok (f_toks e) \<Longrightarrow> \<exists>v. v_val e = Inr v \<and> accumulate v 0 = f_val e"
proof (induction e)
  case (FPlus e n)
  then show ?case by (auto simp: accumulate_snoc op2_def)
next
  case (FMinus e n)
  then have "ck (- n) = Inr (- n)" by (simp add: ck_def)
  then show ?case using FMinus by (auto simp: accumulate_snoc op2_def)
next
  case (FNumber n)
  then show ?case by (simp add: ck_def bindE_def)
qed

lemma v_equals_print:
  "numbers_ok (equals_toks f_toks e) \<Longrightarrow> \<exists>p. v_equals e = Inr p \<and>
    bindE (accumulate (fst p) 0) (\<lambda>x. bindE (accumulate (snd p) 0) (\<lambda>y. bindE q (\<lambda>ts. Inr (checking_line x y @ ts)))) =
    bindE (equals_act f_val e) (\<lambda>t. bindE q (\<lambda>ts. Inr (t @ ts)))"
proof (cases e)
  case (Equals a b)
  assume "numbers_ok (equals_toks f_toks e)"
  then obtain x y where "v_val a = Inr x" "accumulate x 0 = f_val a" "v_val b = Inr y" "accumulate y 0 = f_val b"
    using v_val_accumulate [of a] v_val_accumulate [of b] Equals by auto
  then show ?thesis using Equals by (auto simp: bindE_def split: sum.splits)
qed

lemma adv_prints:
  "numbers_ok (adv_toks es) \<Longrightarrow> \<exists>v. adv_val es = Inr v \<and> printout (rev v) = eqlist_act f_val (adv_list es)"
proof (induction es)
  case (AdvCons e es)
  then obtain v where "adv_val es = Inr v" "printout (rev v) = eqlist_act f_val (adv_list es)" by auto
  moreover obtain p where "v_equals e = Inr p"
    "bindE (accumulate (fst p) 0) (\<lambda>x. bindE (accumulate (snd p) 0) (\<lambda>y. bindE (printout (rev v)) (\<lambda>ts. Inr (checking_line x y @ ts)))) =
     bindE (equals_act f_val e) (\<lambda>t. bindE (printout (rev v)) (\<lambda>ts. Inr (t @ ts)))"
    using v_equals_print [of e "printout (rev v)"] AdvCons.prems by auto
  ultimately show ?case by simp
next
  case (AdvOne e)
  then show ?case using v_equals_print [of e "Inr []"] by auto
qed

text \<open>
  The driver that keeps its results: for every sentence of its grammar, it prints what the actions of the other
  grammar print for the same tokens, in the order of the input, although it collects the comparisons backwards.
\<close>

theorem adv_agrees:
  assumes "numbers_ok (adv_toks es)" "eqlist_toks f_toks fs = adv_toks es"
  shows "adv_program es = eqlist_act f_val fs"
proof -
  have "fs = adv_list es" using assms(2) adv_list_toks fixed.unambiguous by metis
  then show ?thesis using adv_prints [OF assms(1)] by (auto simp: adv_program_def NumDriver_insert_def)
qed

theorem adv_agrees_witness:
  "adv_program (AdvCons (Equals (FNumber 5) (FPlus (FNumber 2) 3)) (AdvOne (Equals (FNumber 1) (FNumber 2)))) =
   Inr (''Checking: 5 vs 5; Result: 1'' @ endl @ ''Checking: 1 vs 2; Result: 0'' @ endl)"
proof -
  let ?es = "AdvCons (Equals (FNumber 5) (FPlus (FNumber 2) 3)) (AdvOne (Equals (FNumber 1) (FNumber 2)))"
  let ?fs = "EqCons (Equals (FNumber 5) (FPlus (FNumber 2) 3)) (EqCons (Equals (FNumber 1) (FNumber 2)) EqEmpty)"
  have "eqlist_act f_val ?fs = Inr (''Checking: 5 vs 5; Result: 1'' @ endl @ ''Checking: 1 vs 2; Result: 0'' @ endl)" by code_simp
  then show ?thesis using adv_agrees [of ?es ?fs] by simp
qed


section \<open>The ambiguous comparisons\<close>

fun s_left :: "fexpr \<Rightarrow> sexpr" where
  "s_left (FPlus e n) = SPlus (s_left e) (SNumber n)"
| "s_left (FMinus e n) = SMinus (s_left e) (SNumber n)"
| "s_left (FNumber n) = SNumber n"

fun s_right :: "int \<Rightarrow> (bool \<times> int) list \<Rightarrow> sexpr" where
  "s_right n [] = SNumber n"
| "s_right n ((pos, m) # ops) = (if pos then SPlus (SNumber n) (s_right m ops) else SMinus (SNumber n) (s_right m ops))"

fun f_join :: "fexpr \<Rightarrow> bool \<Rightarrow> fexpr \<Rightarrow> fexpr" where
  "f_join a pos b = f_app a ((pos, f_first b) # f_ops b)"

fun f_of_s :: "sexpr \<Rightarrow> fexpr" where
  "f_of_s (SPlus a b) = f_join (f_of_s a) True (f_of_s b)"
| "f_of_s (SMinus a b) = f_join (f_of_s a) False (f_of_s b)"
| "f_of_s (SNumber n) = FNumber n"

lemma s_left_toks: "s_toks (s_left e) = f_toks e" "s_val (s_left e) = f_val e"
  by (induction e) simp_all

lemma s_right_toks: "s_toks (s_right n ops) = NUMBER n # ops_toks ops"
  by (induction n ops rule: s_right.induct) simp_all

lemma f_join_toks: "f_toks (f_join a pos b) = f_toks a @ (if pos then PLUS else MINUS) # f_toks b"
proof -
  have "f_first (f_join a pos b) = f_first a" "f_ops (f_join a pos b) = f_ops a @ (pos, f_first b) # f_ops b"
    unfolding f_join.simps f_app_ops by simp_all
  then show ?thesis by (simp add: f_toks_ops ops_toks_append del: f_join.simps)
qed

lemma f_of_s_toks: "f_toks (f_of_s e) = s_toks e"
  by (induction e) (simp_all add: f_join_toks del: f_join.simps)

lemma s_left_number: "s_left e = SNumber n \<Longrightarrow> f_ops e = []"
  by (cases e) simp_all

lemma s_left_right: "2 \<le> length (f_ops e) \<Longrightarrow> s_left e \<noteq> s_right (f_first e) (f_ops e)"
proof -
  assume len: "2 \<le> length (f_ops e)"
  then obtain p m q k ops where ops: "f_ops e = (p, m) # (q, k) # ops" by (cases "f_ops e" rule: remdups_adj.cases) auto
  show ?thesis
  proof
    assume "s_left e = s_right (f_first e) (f_ops e)"
    then have "\<exists>a. s_left e = SPlus (SNumber (f_first e)) a \<and> a \<noteq> SNumber k' \<or> s_left e = SMinus (SNumber (f_first e)) a \<and> a \<noteq> SNumber k'" for k'
      unfolding ops by (cases p; cases q) simp_all
    then show False by (cases e) (simp_all, blast+)
  qed
qed

text \<open>
  The ambiguous grammar of comparisons has the sentences of the right ones: every expression has a derivation with the
  right value, but as soon as it has two operators it has another one, and then values differ: \<open>1 - 1 - 1\<close> is \<open>-1\<close> in one and \<open>1\<close> in the other.
\<close>

theorem shift_reduce_ambiguous:
  "(\<exists>!e. f_toks e = s_toks s) \<and> (\<exists>l. s_toks l = f_toks e \<and> s_val l = f_val e \<and>
     (2 \<le> length (f_ops e) \<longrightarrow> (\<exists>r. r \<noteq> l \<and> s_toks r = f_toks e))) \<and>
   (\<exists>l r. s_toks l = s_toks r \<and> s_toks l = f_toks (FMinus (FMinus (FNumber 1) 1) 1) \<and> s_val l = Inr (-1) \<and> s_val r = Inr 1)"
proof (intro conjI)
  have "a = b" if "f_toks a = f_toks b" for a b using fixed.ends [of a EQUAL "[]" b EQUAL "[]"] that by simp
  then show "\<exists>!e. f_toks e = s_toks s" using f_of_s_toks by metis
  show "\<exists>l. s_toks l = f_toks e \<and> s_val l = f_val e \<and> (2 \<le> length (f_ops e) \<longrightarrow> (\<exists>r. r \<noteq> l \<and> s_toks r = f_toks e))"
    using s_left_toks [of e] s_left_right [of e] s_right_toks [of "f_first e" "f_ops e"] f_toks_ops [of e] by metis
  show "\<exists>l r. s_toks l = s_toks r \<and> s_toks l = f_toks (FMinus (FMinus (FNumber 1) 1) 1) \<and> s_val l = Inr (-1) \<and> s_val r = Inr 1"
    by (intro exI [of _ "SMinus (SMinus (SNumber 1) (SNumber 1)) (SNumber 1)"] exI [of _ "SMinus (SNumber 1) (SMinus (SNumber 1) (SNumber 1))"])
      (simp add: op2_def ck_def)
qed

theorem shift_reduce_ambiguous_witness:
  "2 \<le> length (f_ops (FPlus (FMinus (FNumber 5) 2) 1)) \<and> (\<exists>l r. r \<noteq> l \<and> s_toks l = s_toks r \<and> s_toks l = f_toks (FPlus (FMinus (FNumber 5) 2) 1))"
proof
  show len: "2 \<le> length (f_ops (FPlus (FMinus (FNumber 5) 2) 1))" by simp
  show "\<exists>l r. r \<noteq> l \<and> s_toks l = s_toks r \<and> s_toks l = f_toks (FPlus (FMinus (FNumber 5) 2) 1)"
    using shift_reduce_ambiguous [of "SNumber 0" "FPlus (FMinus (FNumber 5) 2) 1"] len by metis
qed

end
