(* ===== verification/Grammar_Arith.thy ===== *)
theory Grammar_Arith
  imports Grammar
begin

text \<open>
  Sums of products: derivations of the left-recursive grammar correspond to those of the one without left recursion, with the same tokens and the same
  value; the second one is read from left to right without a choice, so both are unambiguous. The other two grammars have the same sentences and more than one derivation for them.
\<close>

section \<open>Left recursion and no left recursion\<close>

fun REN_of :: "EN \<Rightarrow> EPN \<Rightarrow> REN" and RTN_of :: "TN \<Rightarrow> TPN \<Rightarrow> RTN" and RFN_of :: "FN \<Rightarrow> RFN" where
  "REN_of (EN_plus e t) ep = REN_of e (EPN_plus (RTN_of t TPN_empty) ep)"
| "REN_of (EN_TN t) ep = REN (RTN_of t TPN_empty) ep"
| "RTN_of (TN_mult t f) tp = RTN_of t (TPN_mult (RFN_of f) tp)"
| "RTN_of (TN_FN f) tp = RTN (RFN_of f) tp"
| "RFN_of (FN_brac e) = RFN_brac (REN_of e EPN_empty)"
| "RFN_of (FN_number n) = RFN_number n"

fun EN_of :: "REN \<Rightarrow> EN" and EN_app :: "EN \<Rightarrow> EPN \<Rightarrow> EN" and TN_of :: "RTN \<Rightarrow> TN" and TN_app :: "TN \<Rightarrow> TPN \<Rightarrow> TN" and FN_of :: "RFN \<Rightarrow> FN" where
  "EN_of (REN t ep) = EN_app (EN_TN (TN_of t)) ep"
| "EN_app e (EPN_plus t ep) = EN_app (EN_plus e (TN_of t)) ep"
| "EN_app e EPN_empty = e"
| "TN_of (RTN f tp) = TN_app (TN_FN (FN_of f)) tp"
| "TN_app t (TPN_mult f tp) = TN_app (TN_mult t (FN_of f)) tp"
| "TN_app t TPN_empty = t"
| "FN_of (RFN_brac e) = FN_brac (EN_of e)"
| "FN_of (RFN_number n) = FN_number n"

lemma of_toks:
  "REN_toks (REN_of e ep) = EN_toks e @ EPN_toks ep"
  "RTN_toks (RTN_of t tp) = TN_toks t @ TPN_toks tp"
  "RFN_toks (RFN_of f) = FN_toks f"
  by (induction e ep and t tp and f rule: REN_of_RTN_of_RFN_of.induct) simp_all

lemma of_back:
  "EN_of (REN_of e ep) = EN_app e ep" "TN_of (RTN_of t tp) = TN_app t tp" "FN_of (RFN_of f) = f"
  by (induction e ep and t tp and f rule: REN_of_RTN_of_RFN_of.induct) simp_all

lemma back_of:
  "REN_of (EN_of x) EPN_empty = x" "REN_of (EN_app e ep) EPN_empty = REN_of e ep"
  "RTN_of (TN_of y) TPN_empty = y" "RTN_of (TN_app t tp) TPN_empty = RTN_of t tp" "RFN_of (FN_of z) = z"
  by (induction x and e ep and y and t tp and z rule: EN_of_EN_app_TN_of_TN_app_FN_of.induct) simp_all

text \<open>The values without the limits of the type.\<close>

fun EN_sem :: "EN \<Rightarrow> int" and TN_sem :: "TN \<Rightarrow> int" and FN_sem :: "FN \<Rightarrow> int" where
  "EN_sem (EN_plus e t) = EN_sem e + TN_sem t"
| "EN_sem (EN_TN t) = TN_sem t"
| "TN_sem (TN_mult t f) = TN_sem t * FN_sem f"
| "TN_sem (TN_FN f) = FN_sem f"
| "FN_sem (FN_brac e) = EN_sem e"
| "FN_sem (FN_number n) = n"

lemma op2_eq: "op2 f a b = Inr v \<Longrightarrow> \<exists>x y. a = Inr x \<and> b = Inr y \<and> v = f x y"
  by (auto simp: op2_def bindE_eq_Inr_iff ck_def split: if_splits)

lemma EN_val_sem:
  "EN_val e = Inr v \<Longrightarrow> v = EN_sem e" "TN_val t = Inr v \<Longrightarrow> v = TN_sem t" "FN_val f = Inr v \<Longrightarrow> v = FN_sem f"
  by (induction e and t and f arbitrary: v and v and v rule: EN_val_TN_val_FN_val.induct) (auto dest!: op2_eq)

fun REN_sem :: "REN \<Rightarrow> int" and EPN_sem :: "EPN \<Rightarrow> int" and RTN_sem :: "RTN \<Rightarrow> int" and TPN_sem :: "TPN \<Rightarrow> int" and RFN_sem :: "RFN \<Rightarrow> int" where
  "REN_sem (REN t ep) = RTN_sem t + EPN_sem ep"
| "EPN_sem (EPN_plus t ep) = RTN_sem t + EPN_sem ep"
| "EPN_sem EPN_empty = 0"
| "RTN_sem (RTN f tp) = RFN_sem f * TPN_sem tp"
| "TPN_sem (TPN_mult f tp) = RFN_sem f * TPN_sem tp"
| "TPN_sem TPN_empty = 1"
| "RFN_sem (RFN_brac e) = REN_sem e"
| "RFN_sem (RFN_number n) = n"

lemma REN_val_sem:
  "REN_val e = Inr v \<Longrightarrow> v = REN_sem e" "EPN_val ep = Inr v \<Longrightarrow> v = EPN_sem ep" "RTN_val t = Inr v \<Longrightarrow> v = RTN_sem t"
  "TPN_val tp = Inr v \<Longrightarrow> v = TPN_sem tp" "RFN_val f = Inr v \<Longrightarrow> v = RFN_sem f"
  by (induction e and ep and t and tp and f arbitrary: v and v and v and v and v rule: REN_val_EPN_val_RTN_val_TPN_val_RFN_val.induct)
    (auto dest!: op2_eq)

lemma of_sem:
  "REN_sem (REN_of e ep) = EN_sem e + EPN_sem ep" "RTN_sem (RTN_of t tp) = TN_sem t * TPN_sem tp" "RFN_sem (RFN_of f) = FN_sem f"
  by (induction e ep and t tp and f rule: REN_of_RTN_of_RFN_of.induct) (simp_all add: algebra_simps)

section \<open>Reading without a choice\<close>

text \<open>What may follow an expression and a product.\<close>

definition follow_E :: "tok list \<Rightarrow> bool" where
  "follow_E r \<longleftrightarrow> r = [] \<or> hd r = RBRAC"

definition follow_T :: "tok list \<Rightarrow> bool" where
  "follow_T r \<longleftrightarrow> r = [] \<or> hd r = RBRAC \<or> hd r = PLUS"

lemma follow_simps [simp]:
  "follow_E []" "follow_E (RBRAC # r)" "\<not> follow_E (PLUS # r)" "follow_T (PLUS # r)" "\<not> follow_T (MULT # r)"
  "follow_E r \<Longrightarrow> follow_T r"
  by (auto simp: follow_E_def follow_T_def)

lemma follow_EPN: "follow_E r \<Longrightarrow> follow_T (EPN_toks ep @ r)"
  by (cases ep) simp_all

lemma read_unique:
  "\<And>r r' x'. REN_toks x @ r = REN_toks x' @ r' \<Longrightarrow> follow_E r \<Longrightarrow> follow_E r' \<Longrightarrow> x = x' \<and> r = r'"
  "\<And>r r' ep'. EPN_toks ep @ r = EPN_toks ep' @ r' \<Longrightarrow> follow_E r \<Longrightarrow> follow_E r' \<Longrightarrow> ep = ep' \<and> r = r'"
  "\<And>r r' t'. RTN_toks t @ r = RTN_toks t' @ r' \<Longrightarrow> follow_T r \<Longrightarrow> follow_T r' \<Longrightarrow> t = t' \<and> r = r'"
  "\<And>r r' tp'. TPN_toks tp @ r = TPN_toks tp' @ r' \<Longrightarrow> follow_T r \<Longrightarrow> follow_T r' \<Longrightarrow> tp = tp' \<and> r = r'"
  "\<And>r r' f'. RFN_toks f @ r = RFN_toks f' @ r' \<Longrightarrow> f = f' \<and> r = r'"
proof (induction x and ep and t and tp and f rule: REN_toks_EPN_toks_RTN_toks_TPN_toks_RFN_toks.induct)
  case (1 t ep)
  obtain t' ep' where x': "x' = REN t' ep'" by (cases x')
  then have "RTN_toks t @ (EPN_toks ep @ r) = RTN_toks t' @ (EPN_toks ep' @ r')" using 1(3) by simp
  from 1(1) [OF this follow_EPN [OF 1(4)] follow_EPN [OF 1(5)]] 1(2) [OF _ 1(4,5)] x' show ?case by simp
next
  case (2 t ep)
  show ?case
  proof (cases ep')
    case (EPN_plus t' ep'')
    then have "RTN_toks t @ (EPN_toks ep @ r) = RTN_toks t' @ (EPN_toks ep'' @ r')" using 2(3) by simp
    from 2(1) [OF this follow_EPN [OF 2(4)] follow_EPN [OF 2(5)]] 2(2) [OF _ 2(4,5)] EPN_plus show ?thesis by simp
  next
    case EPN_empty
    then show ?thesis using 2(3,5) by (auto simp: follow_E_def)
  qed
next
  case 3
  then show ?case by (cases ep') (auto simp: follow_E_def)
next
  case (4 f tp)
  obtain f' tp' where t': "t' = RTN f' tp'" by (cases t')
  then have "RFN_toks f @ (TPN_toks tp @ r) = RFN_toks f' @ (TPN_toks tp' @ r')" using 4(3) by simp
  from 4(1) [OF this] 4(2) [OF _ 4(4,5)] t' show ?case by simp
next
  case (5 f tp)
  show ?case
  proof (cases tp')
    case (TPN_mult f' tp'')
    then have "RFN_toks f @ (TPN_toks tp @ r) = RFN_toks f' @ (TPN_toks tp'' @ r')" using 5(3) by simp
    from 5(1) [OF this] 5(2) [OF _ 5(4,5)] TPN_mult show ?thesis by simp
  next
    case TPN_empty
    then show ?thesis using 5(3,5) by (auto simp: follow_T_def)
  qed
next
  case 6
  then show ?case by (cases tp') (auto simp: follow_T_def)
next
  case (7 e)
  show ?case
  proof (cases f')
    case (RFN_brac e')
    then have "REN_toks e @ RBRAC # r = REN_toks e' @ RBRAC # r'" using 7(2) by simp
    then show ?thesis using 7(1) RFN_brac by fastforce
  qed (use 7(2) in simp)
next
  case (8 n)
  then show ?case by (cases f') simp_all
qed

lemma REN_unambiguous: "REN_toks x = REN_toks x' \<Longrightarrow> x = x'"
  using read_unique(1) [of x "[]" x' "[]"] by simp

lemma EN_unambiguous: "EN_toks e = EN_toks e' \<Longrightarrow> e = e'"
  using REN_unambiguous [of "REN_of e EPN_empty" "REN_of e' EPN_empty"] of_toks(1) [of _ EPN_empty] of_back(1) [of _ EPN_empty]
  by (metis EN_app.simps(2) EPN_toks.simps(2) append_Nil2)

text \<open>
  C27. The left-recursive grammar and the one without left recursion: they have the same sentences, every sentence has one derivation in
  each, and when neither computation overflows both have the same value.
\<close>

theorem arith_grammars_agree:
  "(\<exists>!e'. EN_toks e' = EN_toks e) \<and> (\<exists>!x. REN_toks x = EN_toks e) \<and> (\<forall>x. \<exists>e. EN_toks e = REN_toks x) \<and>
   (\<forall>x v w. REN_toks x = EN_toks e \<and> EN_val e = Inr v \<and> REN_val x = Inr w \<longrightarrow> v = w)"
proof (intro conjI allI impI)
  have toks: "REN_toks (REN_of e EPN_empty) = EN_toks e" for e using of_toks(1) [of e EPN_empty] by simp
  show "\<exists>!e'. EN_toks e' = EN_toks e" using EN_unambiguous by blast
  show "\<exists>!x. REN_toks x = EN_toks e" using toks REN_unambiguous by metis
  show "\<exists>e. EN_toks e = REN_toks x" for x using toks back_of(1) by metis
  fix x v w assume a: "REN_toks x = EN_toks e \<and> EN_val e = Inr v \<and> REN_val x = Inr w"
  then have "x = REN_of e EPN_empty" using toks REN_unambiguous by metis
  then show "v = w" using a EN_val_sem(1) REN_val_sem(1) of_sem(1) [of e EPN_empty] by simp
qed

text \<open>The first test of the repository.\<close>

theorem arith_grammars_agree_witness:
  "EN_val (EN_plus (EN_TN (TN_FN (FN_number 2))) (TN_mult (TN_FN (FN_number 3)) (FN_number 5))) = Inr 17 \<and>
   REN_val (REN (RTN (RFN_number 2) TPN_empty) (EPN_plus (RTN (RFN_number 3) (TPN_mult (RFN_number 5) TPN_empty)) EPN_empty)) = Inr 17"
proof -
  let ?e = "EN_plus (EN_TN (TN_FN (FN_number 2))) (TN_mult (TN_FN (FN_number 3)) (FN_number 5))"
  let ?x = "REN (RTN (RFN_number 2) TPN_empty) (EPN_plus (RTN (RFN_number 3) (TPN_mult (RFN_number 5) TPN_empty)) EPN_empty)"
  have "EN_val ?e = Inr 17" by (simp add: op2_def ck_def)
  moreover have "\<exists>w. REN_val ?x = Inr w" by (simp add: op2_def ck_def)
  moreover have "REN_toks ?x = EN_toks ?e" by simp
  ultimately show ?thesis using arith_grammars_agree [of ?e] by metis
qed

text \<open>Without the limit that neither computation overflows, the values differ: a product with a factor 0.\<close>

lemma arith_overflow_differs:
  "EN_val (EN_TN (TN_mult (TN_mult (TN_FN (FN_number 65536)) (FN_number 65536)) (FN_number 0))) = Inl Undefined_behaviour \<and>
   REN_val (REN_of (EN_TN (TN_mult (TN_mult (TN_FN (FN_number 65536)) (FN_number 65536)) (FN_number 0))) EPN_empty) = Inr 0"
  by (simp add: op2_def ck_def)

section \<open>The ambiguous grammars\<close>

fun AEN_of :: "EN \<Rightarrow> AEN" and AEN_of_T :: "TN \<Rightarrow> AEN" and AEN_of_F :: "FN \<Rightarrow> AEN" where
  "AEN_of (EN_plus e t) = AEN_plus (AEN_of e) (AEN_of_T t)"
| "AEN_of (EN_TN t) = AEN_of_T t"
| "AEN_of_T (TN_mult t f) = AEN_mult (AEN_of_T t) (AEN_of_F f)"
| "AEN_of_T (TN_FN f) = AEN_of_F f"
| "AEN_of_F (FN_brac e) = AEN_brac (AEN_of e)"
| "AEN_of_F (FN_number n) = AEN_number n"

lemma AEN_of_toks:
  "AEN_toks (AEN_of e) = EN_toks e \<and> AEN_val (AEN_of e) = EN_val e" "AEN_toks (AEN_of_T t) = TN_toks t \<and> AEN_val (AEN_of_T t) = TN_val t"
  "AEN_toks (AEN_of_F f) = FN_toks f \<and> AEN_val (AEN_of_F f) = FN_val f"
  by (induction e and t and f rule: AEN_of_AEN_of_T_AEN_of_F.induct) simp_all

text \<open>Sums and products of expressions, read again as the grammar has them.\<close>

fun EN_add :: "EN \<Rightarrow> EN \<Rightarrow> EN" where
  "EN_add a (EN_TN t) = EN_plus a t"
| "EN_add a (EN_plus e t) = EN_plus (EN_add a e) t"

fun TN_times :: "TN \<Rightarrow> TN \<Rightarrow> TN" where
  "TN_times s (TN_FN f) = TN_mult s f"
| "TN_times s (TN_mult t f) = TN_mult (TN_times s t) f"

fun EN_times_T :: "EN \<Rightarrow> TN \<Rightarrow> EN" where
  "EN_times_T (EN_TN s) t = EN_TN (TN_times s t)"
| "EN_times_T (EN_plus e s) t = EN_plus e (TN_times s t)"

fun EN_times :: "EN \<Rightarrow> EN \<Rightarrow> EN" where
  "EN_times a (EN_TN t) = EN_times_T a t"
| "EN_times a (EN_plus e t) = EN_plus (EN_times a e) t"

fun EN_of_A :: "AEN \<Rightarrow> EN" where
  "EN_of_A (AEN_plus a b) = EN_add (EN_of_A a) (EN_of_A b)"
| "EN_of_A (AEN_mult a b) = EN_times (EN_of_A a) (EN_of_A b)"
| "EN_of_A (AEN_brac e) = EN_TN (TN_FN (FN_brac (EN_of_A e)))"
| "EN_of_A (AEN_number n) = EN_TN (TN_FN (FN_number n))"

lemma add_toks: "EN_toks (EN_add a b) = EN_toks a @ PLUS # EN_toks b"
  by (induction a b rule: EN_add.induct) simp_all

lemma times_toks: "TN_toks (TN_times s t) = TN_toks s @ MULT # TN_toks t"
  by (induction s t rule: TN_times.induct) simp_all

lemma times_T_toks: "EN_toks (EN_times_T a t) = EN_toks a @ MULT # TN_toks t"
  by (cases a) (simp_all add: times_toks)

lemma EN_times_toks: "EN_toks (EN_times a b) = EN_toks a @ MULT # EN_toks b"
  by (induction a b rule: EN_times.induct) (simp_all add: times_T_toks)

lemma EN_of_A_toks: "EN_toks (EN_of_A a) = AEN_toks a"
  by (induction a) (simp_all add: add_toks EN_times_toks)

fun AEN_of_B :: "BEN \<Rightarrow> AEN" and AEN_of_BT :: "BTN \<Rightarrow> AEN" and AEN_of_BF :: "BFN \<Rightarrow> AEN" where
  "AEN_of_B (BEN_TN t) = AEN_of_BT t"
| "AEN_of_B (BEN_plus e t) = AEN_plus (AEN_of_B e) (AEN_of_BT t)"
| "AEN_of_BT (BTN_mult t f) = AEN_mult (AEN_of_BT t) (AEN_of_BF f)"
| "AEN_of_BT (BTN_FN f) = AEN_of_BF f"
| "AEN_of_BF (BFN_EN e) = AEN_of_B e"
| "AEN_of_BF (BFN_brac e) = AEN_brac (AEN_of_B e)"
| "AEN_of_BF (BFN_number n) = AEN_number n"

lemma AEN_of_B_toks: "AEN_toks (AEN_of_B e) = BEN_toks e" "AEN_toks (AEN_of_BT t) = BTN_toks t" "AEN_toks (AEN_of_BF f) = BFN_toks f"
  by (induction e and t and f rule: AEN_of_B_AEN_of_BT_AEN_of_BF.induct) simp_all

text \<open>A derivation of the last grammar can be wrapped as often as one likes.\<close>

definition wrap :: "BEN \<Rightarrow> BEN" where
  "wrap e = BEN_TN (BTN_FN (BFN_EN e))"

lemma wrap_simps: "BEN_toks (wrap e) = BEN_toks e" "BEN_val (wrap e) = BEN_val e" "size (wrap e) > size e"
  by (simp_all add: wrap_def)

lemma wrap_infinite: "infinite {x. BEN_toks x = BEN_toks e \<and> BEN_val x = BEN_val e}"
proof
  assume fin: "finite {x. BEN_toks x = BEN_toks e \<and> BEN_val x = BEN_val e}" (is "finite ?D")
  have "(wrap ^^ n) e \<in> ?D \<and> n \<le> size ((wrap ^^ n) e)" for n
    using wrap_simps by (induction n) (auto simp: Suc_le_eq intro: le_less_trans)
  moreover have "size x \<le> Max (size ` ?D)" if "x \<in> ?D" for x using fin that by (intro Max_ge) auto
  ultimately have "n \<le> Max (size ` ?D)" for n by (meson order_trans)
  then show False using Suc_n_not_le_n by blast
qed

text \<open>
  The other grammars of sums of products: a sentence of either is a sentence of the right ones, and every sentence of those has a derivation in
  the ambiguous one with its value; but \<open>2 * 3 + 5\<close> has also one that adds first. In the last grammar every sentence has infinitely many derivations.
\<close>

theorem arith_grammars_ambiguous:
  "(\<exists>!e. EN_toks e = AEN_toks a) \<and> (\<exists>!e. EN_toks e = BEN_toks b) \<and> (\<exists>a. AEN_toks a = EN_toks e \<and> AEN_val a = EN_val e) \<and>
   (\<exists>a a'. AEN_toks a = [NUMBER 2, MULT, NUMBER 3, PLUS, NUMBER 5] \<and> AEN_toks a' = AEN_toks a \<and> AEN_val a = Inr 11 \<and> AEN_val a' = Inr 16) \<and>
   infinite {x. BEN_toks x = BEN_toks b \<and> BEN_val x = BEN_val b}"
proof (intro conjI)
  show "\<exists>!e. EN_toks e = AEN_toks a" using EN_of_A_toks EN_unambiguous by metis
  show "\<exists>!e. EN_toks e = BEN_toks b" using EN_of_A_toks AEN_of_B_toks(1) EN_unambiguous by metis
  show "\<exists>a. AEN_toks a = EN_toks e \<and> AEN_val a = EN_val e" using AEN_of_toks(1) by blast
  show "\<exists>a a'. AEN_toks a = [NUMBER 2, MULT, NUMBER 3, PLUS, NUMBER 5] \<and> AEN_toks a' = AEN_toks a \<and> AEN_val a = Inr 11 \<and> AEN_val a' = Inr 16"
    by (intro exI [of _ "AEN_plus (AEN_mult (AEN_number 2) (AEN_number 3)) (AEN_number 5)"]
        exI [of _ "AEN_mult (AEN_number 2) (AEN_plus (AEN_number 3) (AEN_number 5))"]) (simp add: op2_def ck_def)
  show "infinite {x. BEN_toks x = BEN_toks b \<and> BEN_val x = BEN_val b}" by (rule wrap_infinite)
qed

end
