(* ===== verification/Ownership.thy ===== *)
theory Ownership
  imports Prelude
begin

text \<open>
  Programs about the ownership of objects: the scoped pointers of \<^verbatim>\<open>04-raii/scopeswap.cc\<close> and \<^verbatim>\<open>drilldown.cc\<close>, and the stacks of heavy objects that are
  pushed or constructed in place (\<^verbatim>\<open>13-sfinae/empl-bench-eff.cc\<close>, \<^verbatim>\<open>empl-bench-ineff.cc\<close> and \<^verbatim>\<open>archive/older/emplace\<close>). The heap is explicit; every allocation
  has a number, which is its address, and the function \<open>fails\<close> says which ones throw. Deleting what is not allocated is undefined behaviour. The memory of an object
  whose constructor throws is released by the \<^verbatim>\<open>new\<close> expression and is not recorded.
\<close>

section \<open>Scoped pointers (\<^verbatim>\<open>scopeswap.cc\<close>)\<close>

text \<open>The cells allocated by \<^verbatim>\<open>new\<close>, the pointer \<^verbatim>\<open>ptr_\<close> of every object, the number of the next allocation, the output.\<close>

record pmem =
  cells :: "nat \<Rightarrow> int option"
  ptr :: "nat \<Rightarrow> nat option"
  news :: nat
  pout :: string

definition printS :: "string \<Rightarrow> (pmem, unit) stm" where
  "printS t m = (Inr (), m\<lparr>pout := pout m @ t\<rparr>)"

definition new_int :: "(nat \<Rightarrow> bool) \<Rightarrow> int \<Rightarrow> (pmem, nat) stm" where
  "new_int fails v m =
    (let a = news m; m' = m\<lparr>news := Suc a\<rparr> in
     if fails a then (Inl Bad_alloc, m') else (Inr a, m'\<lparr>cells := (cells m)(a \<mapsto> v)\<rparr>))"

definition delete_int :: "nat option \<Rightarrow> (pmem, unit) stm" where
  "delete_int p m = (case p of
      None \<Rightarrow> (Inr (), m)
    | Some a \<Rightarrow> if cells m a = None then (Inl Undefined_behaviour, m) else (Inr (), m\<lparr>cells := (cells m)(a := None)\<rparr>))"

definition load_int :: "nat option \<Rightarrow> (pmem, int) stm" where
  "load_int p m = (case p of
      None \<Rightarrow> (Inl Undefined_behaviour, m)
    | Some a \<Rightarrow> (case cells m a of None \<Rightarrow> (Inl Undefined_behaviour, m) | Some v \<Rightarrow> (Inr v, m)))"

definition get_ptr :: "nat \<Rightarrow> (pmem, nat option) stm" where
  "get_ptr x m = (Inr (ptr m x), m)"

definition set_ptr :: "nat \<Rightarrow> nat option \<Rightarrow> (pmem, unit) stm" where
  "set_ptr x p m = (Inr (), m\<lparr>ptr := (ptr m)(x := p)\<rparr>)"

text \<open>Constructor from a pointer and destructor, which both classes share; objects are named by their addresses.\<close>

definition scoped_ctor :: "(nat \<Rightarrow> bool) \<Rightarrow> nat \<Rightarrow> int \<Rightarrow> (pmem, unit) stm" where
  "scoped_ctor fails x v = bindS (new_int fails v) (\<lambda>a. set_ptr x (Some a))"

definition scoped_dtor :: "nat \<Rightarrow> (pmem, unit) stm" where
  "scoped_dtor x = bindS (get_ptr x) delete_int"

definition scoped_copy :: "(nat \<Rightarrow> bool) \<Rightarrow> nat \<Rightarrow> nat \<Rightarrow> (pmem, unit) stm" where
  "scoped_copy fails this rhs =
    bindS (get_ptr rhs) (\<lambda>p. bindS (load_int p) (\<lambda>v. bindS (new_int fails v) (\<lambda>a. bindS (set_ptr this (Some a)) (\<lambda>_.
      printS (''copy ctor'' @ endl)))))"

definition scoped_copy_assign :: "(nat \<Rightarrow> bool) \<Rightarrow> nat \<Rightarrow> nat \<Rightarrow> (pmem, unit) stm" where
  "scoped_copy_assign fails this rhs =
    bindS (printS (''copy assign'' @ endl)) (\<lambda>_.
      if this = rhs then retS ()
      else bindS (get_ptr this) (\<lambda>q. bindS (delete_int q) (\<lambda>_.
        bindS (get_ptr rhs) (\<lambda>p. bindS (load_int p) (\<lambda>v. bindS (new_int fails v) (\<lambda>a. set_ptr this (Some a)))))))"

definition scoped_move_ctor :: "nat \<Rightarrow> nat \<Rightarrow> (pmem, unit) stm" where
  "scoped_move_ctor this rhs =
    bindS (get_ptr rhs) (\<lambda>p. bindS (set_ptr this p) (\<lambda>_. bindS (printS (''move ctor'' @ endl)) (\<lambda>_. set_ptr rhs None)))"

definition scoped_move_assign :: "nat \<Rightarrow> nat \<Rightarrow> (pmem, unit) stm" where
  "scoped_move_assign this rhs =
    bindS (printS (''move assign'' @ endl)) (\<lambda>_.
      if this = rhs then retS ()
      else bindS (get_ptr this) (\<lambda>p. bindS (get_ptr rhs) (\<lambda>q. bindS (set_ptr this q) (\<lambda>_. set_ptr rhs p))))"

text \<open>\<^verbatim>\<open>std::swap\<close> with the temporary \<open>tmp\<close>: a class without move operations is copied.\<close>

definition swap_nomove :: "(nat \<Rightarrow> bool) \<Rightarrow> nat \<Rightarrow> nat \<Rightarrow> nat \<Rightarrow> (pmem, unit) stm" where
  "swap_nomove fails tmp a b =
    bindS (scoped_copy fails tmp a) (\<lambda>_.
    bindS (cleanupS (bindS (scoped_copy_assign fails a b) (\<lambda>_. scoped_copy_assign fails b tmp)) (scoped_dtor tmp)) (\<lambda>_.
      scoped_dtor tmp))"

definition swap_move :: "nat \<Rightarrow> nat \<Rightarrow> nat \<Rightarrow> (pmem, unit) stm" where
  "swap_move tmp a b =
    bindS (scoped_move_ctor tmp a) (\<lambda>_.
    bindS (cleanupS (bindS (scoped_move_assign a b) (\<lambda>_. scoped_move_assign b tmp)) (scoped_dtor tmp)) (\<lambda>_.
      scoped_dtor tmp))"

text \<open>The objects of \<^verbatim>\<open>main\<close>: \<^verbatim>\<open>sn1\<close>, \<^verbatim>\<open>sn2\<close>, \<^verbatim>\<open>sm1\<close>, \<^verbatim>\<open>sm2\<close>, and the temporary.\<close>

definition scopeswap_main :: "(nat \<Rightarrow> bool) \<Rightarrow> (pmem, unit) stm" where
  "scopeswap_main fails =
    bindS (scoped_ctor fails 1 10) (\<lambda>_. bindS (scoped_ctor fails 2 11) (\<lambda>_.
    bindS (scoped_ctor fails 3 12) (\<lambda>_. bindS (scoped_ctor fails 4 13) (\<lambda>_.
    bindS (swap_nomove fails 0 1 2) (\<lambda>_. bindS (printS (''---'' @ endl)) (\<lambda>_.
    bindS (swap_move 0 3 4) (\<lambda>_.
    bindS (scoped_dtor 4) (\<lambda>_. bindS (scoped_dtor 3) (\<lambda>_. bindS (scoped_dtor 2) (\<lambda>_. scoped_dtor 1))))))))))"

definition empty_pmem :: pmem where
  "empty_pmem = \<lparr>cells = \<lambda>_. None, ptr = \<lambda>_. None, news = 0, pout = []\<rparr>"

text \<open>\<^verbatim>\<open>drilldown.cc\<close>: copying the pointer shares the object; \<^verbatim>\<open>operator->\<close> gives the pointer.\<close>

definition scoped_ptr_copy :: "nat \<Rightarrow> nat \<Rightarrow> (pmem, unit) stm" where
  "scoped_ptr_copy this rhs = bindS (get_ptr rhs) (set_ptr this)"

definition drill_down :: "nat \<Rightarrow> (pmem, int) stm" where
  "drill_down x = bindS (get_ptr x) load_int"

definition drilldown_main :: "(nat \<Rightarrow> bool) \<Rightarrow> (pmem, unit) stm" where
  "drilldown_main fails =
    bindS (scoped_ctor fails 1 2) (\<lambda>_. bindS (drill_down 1) (\<lambda>v. bindS (printS (string_of_int v @ endl)) (\<lambda>_.
    bindS (scoped_ctor fails 2 2) (\<lambda>_. bindS (drill_down 2) (\<lambda>w. bindS (printS (string_of_int w @ endl)) (\<lambda>_.
    bindS (scoped_dtor 2) (\<lambda>_. scoped_dtor 1)))))))"

section \<open>Stacks of heavy objects\<close>

record Heavy =
  hn :: int
  ht :: nat

text \<open>The arrays and the elements of the stack that are allocated. The elements of a new array are indeterminate.\<close>

record hmem =
  arrays :: "nat \<Rightarrow> int option list option"
  elems :: "nat \<Rightarrow> (Heavy \<times> nat option) option"
  allocs :: nat
  hout :: string

definition sayS :: "string \<Rightarrow> (hmem, unit) stm" where
  "sayS t m = (Inr (), m\<lparr>hout := hout m @ t\<rparr>)"

definition allocS :: "(nat \<Rightarrow> bool) \<Rightarrow> (hmem, nat) stm" where
  "allocS fails m =
    (let a = allocs m; m' = m\<lparr>allocs := Suc a\<rparr> in if fails a then (Inl Bad_alloc, m') else (Inr a, m'))"

definition new_ints :: "(nat \<Rightarrow> bool) \<Rightarrow> int \<Rightarrow> (hmem, nat) stm" where
  "new_ints fails n =
    (if n < 0 then throwS Bad_alloc
     else bindS (allocS fails) (\<lambda>a m. (Inr a, m\<lparr>arrays := (arrays m)(a \<mapsto> replicate (nat n) None)\<rparr>)))"

definition Heavy_ctor :: "(nat \<Rightarrow> bool) \<Rightarrow> int \<Rightarrow> (hmem, Heavy) stm" where
  "Heavy_ctor fails sz = bindS (new_ints fails sz) (\<lambda>a. bindS (sayS (''Heavy created'' @ endl)) (\<lambda>_. retS \<lparr>hn = sz, ht = a\<rparr>))"

definition memcpyS :: "nat \<Rightarrow> nat \<Rightarrow> (hmem, unit) stm" where
  "memcpyS dst src m = (case (arrays m dst, arrays m src) of
      (Some d, Some s) \<Rightarrow> if length s \<le> length d then (Inr (), m\<lparr>arrays := (arrays m)(dst \<mapsto> s @ drop (length s) d)\<rparr>) else (Inl Undefined_behaviour, m)
    | _ \<Rightarrow> (Inl Undefined_behaviour, m))"

definition Heavy_copy :: "(nat \<Rightarrow> bool) \<Rightarrow> Heavy \<Rightarrow> (hmem, Heavy) stm" where
  "Heavy_copy fails rhs =
    bindS (new_ints fails (hn rhs)) (\<lambda>a. bindS (sayS (''Heavy copied'' @ endl)) (\<lambda>_.
      bindS (memcpyS a (ht rhs)) (\<lambda>_. retS \<lparr>hn = hn rhs, ht = a\<rparr>)))"

definition Heavy_dtor :: "Heavy \<Rightarrow> (hmem, unit) stm" where
  "Heavy_dtor h =
    bindS (sayS (''Heavy destroyed'' @ endl)) (\<lambda>_ m.
      if arrays m (ht h) = None then (Inl Undefined_behaviour, m) else (Inr (), m\<lparr>arrays := (arrays m)(ht h := None)\<rparr>))"

text \<open>A \<^verbatim>\<open>new\<close> expression for an element: allocation, then the constructor, which makes the object \<^verbatim>\<open>elem\<close>.\<close>

definition new_elem :: "(nat \<Rightarrow> bool) \<Rightarrow> nat option \<Rightarrow> (hmem, Heavy) stm \<Rightarrow> (hmem, nat option) stm" where
  "new_elem fails nxt mk =
    bindS (allocS fails) (\<lambda>a. bindS mk (\<lambda>h m. (Inr (Some a), m\<lparr>elems := (elems m)(a \<mapsto> (h, nxt))\<rparr>)))"

text \<open>The constructor with an argument by value: the argument is copied to it, it is copied to the element, and it is destroyed.\<close>

definition elem_by_value :: "(nat \<Rightarrow> bool) \<Rightarrow> Heavy \<Rightarrow> (hmem, Heavy) stm" where
  "elem_by_value fails src =
    bindS (Heavy_copy fails src) (\<lambda>e. bindS (cleanupS (Heavy_copy fails e) (Heavy_dtor e)) (\<lambda>h. bindS (Heavy_dtor e) (\<lambda>_. retS h)))"

text \<open>Both give the new top of the stack.\<close>

definition push_back :: "(nat \<Rightarrow> bool) \<Rightarrow> Heavy \<Rightarrow> nat option \<Rightarrow> (hmem, nat option) stm" where
  "push_back fails x tp = new_elem fails tp (elem_by_value fails x)"

definition emplace_back :: "(nat \<Rightarrow> bool) \<Rightarrow> int \<Rightarrow> nat option \<Rightarrow> (hmem, nat option) stm" where
  "emplace_back fails arg tp = new_elem fails tp (Heavy_ctor fails arg)"

text \<open>The destructor of the stack: the loop ends when the chain of elements does.\<close>

partial_function (option) Stack_dtor :: "nat option \<Rightarrow> hmem \<Rightarrow> (unit res \<times> hmem) option" where
  "Stack_dtor nxt m = (case nxt of
      None \<Rightarrow> Some (Inr (), m)
    | Some a \<Rightarrow> (case elems m a of
        None \<Rightarrow> Some (Inl Undefined_behaviour, m)
      | Some (h, tmp) \<Rightarrow> (case Heavy_dtor h m of
          (Inl e, m') \<Rightarrow> Some (Inl e, m')
        | (Inr _, m') \<Rightarrow> Stack_dtor tmp (m'\<lparr>elems := (elems m')(a := None)\<rparr>))))"

text \<open>The loops of the programs; in the first one the object that is pushed is a temporary.\<close>

fun push_loop :: "(nat \<Rightarrow> bool) \<Rightarrow> string \<Rightarrow> int \<Rightarrow> nat \<Rightarrow> nat option \<Rightarrow> (hmem, nat option) stm" where
  "push_loop fails nxt sz 0 tp = retS tp"
| "push_loop fails nxt sz (Suc n) tp =
    bindS (sayS nxt) (\<lambda>_. bindS (Heavy_ctor fails sz) (\<lambda>t.
      bindS (cleanupS (push_back fails t tp) (Heavy_dtor t)) (\<lambda>tp'. bindS (Heavy_dtor t) (\<lambda>_. push_loop fails nxt sz n tp'))))"

fun emplace_loop :: "(nat \<Rightarrow> bool) \<Rightarrow> string \<Rightarrow> int \<Rightarrow> nat \<Rightarrow> nat option \<Rightarrow> (hmem, nat option) stm" where
  "emplace_loop fails nxt sz 0 tp = retS tp"
| "emplace_loop fails nxt sz (Suc n) tp =
    bindS (sayS nxt) (\<lambda>_. bindS (emplace_back fails sz tp) (emplace_loop fails nxt sz n))"

definition stack_program :: "(nat option \<Rightarrow> (hmem, nat option) stm) \<Rightarrow> string \<Rightarrow> hmem \<Rightarrow> (unit res \<times> hmem) option" where
  "stack_program loop fin m = (case bindS (loop None) (\<lambda>tp. bindS (sayS fin) (\<lambda>_. retS tp)) m of
      (Inl e, m') \<Rightarrow> Some (Inl e, m')
    | (Inr tp, m') \<Rightarrow> Stack_dtor tp m')"

definition ineff_main :: "(nat \<Rightarrow> bool) \<Rightarrow> hmem \<Rightarrow> (unit res \<times> hmem) option" where
  "ineff_main fails = stack_program (push_loop fails (endl @ ''next'' @ endl) 100 5) (endl @ ''we are done'' @ endl @ endl)"

definition eff_main :: "(nat \<Rightarrow> bool) \<Rightarrow> hmem \<Rightarrow> (unit res \<times> hmem) option" where
  "eff_main fails = stack_program (emplace_loop fails (endl @ ''next'' @ endl) 100 10) (endl @ ''we are done'' @ endl @ endl)"

definition old_ineff_main :: "(nat \<Rightarrow> bool) \<Rightarrow> hmem \<Rightarrow> (unit res \<times> hmem) option" where
  "old_ineff_main fails = stack_program (push_loop fails (''--- next ---'' @ endl) 100 10) (''done'' @ endl)"

definition old_emplace_main :: "(nat \<Rightarrow> bool) \<Rightarrow> hmem \<Rightarrow> (unit res \<times> hmem) option" where
  "old_emplace_main fails = stack_program (emplace_loop fails (''--- next ---'' @ endl) 100 10) (''done'' @ endl)"

definition empty_hmem :: hmem where
  "empty_hmem = \<lparr>arrays = \<lambda>_. None, elems = \<lambda>_. None, allocs = 0, hout = []\<rparr>"

end
