(* ===== verification/Ownership_Props.thy ===== *)
theory Ownership_Props
  imports Ownership
begin

text \<open>
  Swapping by copies and by moves, what a failed allocation leaves behind, and the stacks: a push or an emplace that throws leaves the
  stack and the heap as they were, and every program gives all its memory back.
\<close>

section \<open>Scoped pointers\<close>

lemmas scoped_ops = printS_def new_int_def delete_int_def load_int_def get_ptr_def set_ptr_def scoped_ctor_def scoped_dtor_def
  scoped_copy_def scoped_copy_assign_def scoped_move_ctor_def scoped_move_assign_def bindS_def cleanupS_def Let_def

text \<open>The object at \<open>x\<close> owns a cell with value \<open>v\<close>, at an address that was allocated.\<close>

definition owns :: "pmem \<Rightarrow> nat \<Rightarrow> int \<Rightarrow> bool" where
  "owns m x v \<longleftrightarrow> (\<exists>p < news m. ptr m x = Some p \<and> cells m p = Some v)"

text \<open>
  Swapping scoped pointers. By moves: for all objects the pointers are exchanged, nothing is allocated and
  nothing fails. By copies: three allocations; without a failure the values are exchanged, and the number of cells stays the same.
\<close>

theorem swap_scoped:
  assumes "tmp \<noteq> a" "tmp \<noteq> b" "a \<noteq> b" "owns m a u" "owns m b v" "ptr m a \<noteq> ptr m b"
    and "\<forall>k \<ge> news m. cells m k = None" "\<forall>k \<in> {news m ..< news m + 3}. \<not> fails k" "finite (dom (cells m))"
  shows "swap_move tmp a b m = (Inr (), m\<lparr>ptr := (ptr m)(a := ptr m b, b := ptr m a, tmp := None),
      pout := pout m @ ''move ctor'' @ endl @ ''move assign'' @ endl @ ''move assign'' @ endl\<rparr>) \<and>
    (\<exists>m'. swap_nomove fails tmp a b m = (Inr (), m') \<and> owns m' a v \<and> owns m' b u \<and> news m' = news m + 3 \<and>
      card (dom (cells m')) = card (dom (cells m)) \<and> pout m' = pout m @ ''copy ctor'' @ endl @ ''copy assign'' @ endl @ ''copy assign'' @ endl)"
proof
  show "swap_move tmp a b m = (Inr (), m\<lparr>ptr := (ptr m)(a := ptr m b, b := ptr m a, tmp := None),
      pout := pout m @ ''move ctor'' @ endl @ ''move assign'' @ endl @ ''move assign'' @ endl\<rparr>)"
    using assms(1-3) by (simp add: swap_move_def scoped_ops fun_upd_twist)
  obtain p q where p: "p < news m" "ptr m a = Some p" "cells m p = Some u" and q: "q < news m" "ptr m b = Some q" "cells m q = Some v" "p \<noteq> q"
    using assms(4-6) by (auto simp: owns_def)
  let ?n = "news m"
  let ?m = "m\<lparr>cells := (cells m)(p := None, q := None, Suc ?n \<mapsto> v, Suc (Suc ?n) \<mapsto> u),
    ptr := (ptr m)(tmp := Some ?n, a := Some (Suc ?n), b := Some (Suc (Suc ?n))), news := ?n + 3,
    pout := pout m @ ''copy ctor'' @ endl @ ''copy assign'' @ endl @ ''copy assign'' @ endl\<rparr>"
  have fresh: "cells m ?n = None" "cells m (Suc ?n) = None" "cells m (Suc (Suc ?n)) = None" using assms(7) by simp_all
  have ok: "\<not> fails ?n" "\<not> fails (Suc ?n)" "\<not> fails (Suc (Suc ?n))" using assms(8) by auto
  have "swap_nomove fails tmp a b m = (Inr (), ?m)"
    using assms(1-3) p q fresh ok by (simp add: swap_nomove_def scoped_ops fun_upd_twist fun_eq_iff)
  moreover have "dom (cells ?m) = insert (Suc ?n) (insert (Suc (Suc ?n)) (dom (cells m) - {p, q}))" by auto
  then have "card (dom (cells ?m)) = Suc (Suc (card (dom (cells m) - {p, q})))" using assms(9) fresh by (simp add: domIff)
  moreover have "card (dom (cells m) - {p, q}) = card (dom (cells m)) - 2" "2 \<le> card (dom (cells m))"
    using p q assms(9) card_mono [of "dom (cells m)" "{p, q}"] by (auto simp: card_Diff_subset domIff)
  ultimately show "\<exists>m'. swap_nomove fails tmp a b m = (Inr (), m') \<and> owns m' a v \<and> owns m' b u \<and> news m' = news m + 3 \<and>
      card (dom (cells m')) = card (dom (cells m)) \<and> pout m' = pout m @ ''copy ctor'' @ endl @ ''copy assign'' @ endl @ ''copy assign'' @ endl"
    using assms(1-3) by (intro exI [of _ ?m]) (simp add: owns_def)
qed

text \<open>
  Copy assignment and a failed allocation: the old cell is deleted before the new one is allocated, so when the allocation
  throws the object keeps a pointer to a deleted cell, and its destructor has undefined behaviour. A copy of the pointer of
  \<^verbatim>\<open>drilldown.cc\<close> has the same end: the second of the two destructors.
\<close>

theorem copy_assign_dangles:
  assumes "a \<noteq> b" "owns m a u" "owns m b v" "ptr m a \<noteq> ptr m b" "fails (news m)"
  shows "(\<exists>m'. scoped_copy_assign fails a b m = (Inl Bad_alloc, m') \<and> ptr m' a = ptr m a \<and> fst (scoped_dtor a m') = Inl Undefined_behaviour) \<and>
    (c \<noteq> a \<longrightarrow> fst (bindS (scoped_ptr_copy c a) (\<lambda>_. bindS (scoped_dtor c) (\<lambda>_. scoped_dtor a)) m) = Inl Undefined_behaviour)"
proof -
  obtain p q where "ptr m a = Some p" "cells m p = Some u" "ptr m b = Some q" "cells m q = Some v" "p \<noteq> q"
    using assms(2-4) by (auto simp: owns_def)
  then show ?thesis using assms(1,5) by (auto simp: scoped_ops scoped_ptr_copy_def)
qed

text \<open>Two objects with a cell each.\<close>

definition two_owners :: pmem where
  "two_owners = \<lparr>cells = [0 \<mapsto> 10, 1 \<mapsto> 11], ptr = [1 \<mapsto> 0, 2 \<mapsto> 1], news = 2, pout = []\<rparr>"

lemma two_owners_own: "owns two_owners 1 10" "owns two_owners 2 11" "ptr two_owners 1 \<noteq> ptr two_owners 2"
  by (auto simp: owns_def two_owners_def)

theorem swap_scoped_witness:
  "\<exists>m'. swap_nomove (\<lambda>_. False) 0 1 2 two_owners = (Inr (), m') \<and> owns m' 1 11 \<and> owns m' 2 10 \<and> news m' = 5"
proof -
  have "\<forall>k \<ge> news two_owners. cells two_owners k = None" "finite (dom (cells two_owners))" "news two_owners = 2" by (auto simp: two_owners_def)
  with swap_scoped [of 0 1 2 two_owners 10 11 "\<lambda>_. False"] two_owners_own show ?thesis by auto
qed

theorem copy_assign_dangles_witness:
  "\<exists>m'. scoped_copy_assign (\<lambda>k. k = 2) 1 2 two_owners = (Inl Bad_alloc, m') \<and> fst (scoped_dtor 1 m') = Inl Undefined_behaviour"
  using copy_assign_dangles [of 1 2 two_owners 10 11 "\<lambda>k. k = 2" 3] two_owners_own by (auto simp: two_owners_def)

text \<open>The programs print their text and free all cells.\<close>

lemma scoped_mains:
  "\<exists>m. scopeswap_main (\<lambda>_. False) empty_pmem = (Inr (), m) \<and> cells m = (\<lambda>_. None) \<and>
    pout m = ''copy ctor'' @ endl @ ''copy assign'' @ endl @ ''copy assign'' @ endl @ ''---'' @ endl @
      ''move ctor'' @ endl @ ''move assign'' @ endl @ ''move assign'' @ endl"
  "\<exists>m. drilldown_main (\<lambda>_. False) empty_pmem = (Inr (), m) \<and> cells m = (\<lambda>_. None) \<and> pout m = string_of_int 2 @ endl @ string_of_int 2 @ endl"
  by (simp_all add: scopeswap_main_def drilldown_main_def drill_down_def empty_pmem_def swap_nomove_def swap_move_def scoped_ops fun_eq_iff)

section \<open>Heavy objects\<close>

lemmas heavy_ops = sayS_def allocS_def new_ints_def memcpyS_def bindS_def cleanupS_def Let_def

abbreviation "created \<equiv> ''Heavy created'' @ endl"
abbreviation "copied \<equiv> ''Heavy copied'' @ endl"
abbreviation "destroyed \<equiv> ''Heavy destroyed'' @ endl"

text \<open>Nothing is allocated at the addresses to come; the array of an object has its size.\<close>

definition fresh_above :: "hmem \<Rightarrow> bool" where
  "fresh_above m \<longleftrightarrow> (\<forall>k \<ge> allocs m. arrays m k = None \<and> elems m k = None)"

definition heavy_in :: "hmem \<Rightarrow> Heavy \<Rightarrow> int option list \<Rightarrow> bool" where
  "heavy_in m h arr \<longleftrightarrow> 0 \<le> hn h \<and> ht h < allocs m \<and> arrays m (ht h) = Some arr \<and> length arr = nat (hn h)"

lemma Heavy_ctor_run:
  "0 \<le> sz \<Longrightarrow> Heavy_ctor fails sz m =
    (if fails (allocs m) then (Inl Bad_alloc, m\<lparr>allocs := Suc (allocs m)\<rparr>)
     else (Inr \<lparr>hn = sz, ht = allocs m\<rparr>, m\<lparr>allocs := Suc (allocs m), arrays := (arrays m)(allocs m \<mapsto> replicate (nat sz) None),
       hout := hout m @ created\<rparr>))"
  by (simp add: Heavy_ctor_def heavy_ops)

lemma Heavy_copy_run:
  assumes "heavy_in m h arr"
  shows "Heavy_copy fails h m =
    (if fails (allocs m) then (Inl Bad_alloc, m\<lparr>allocs := Suc (allocs m)\<rparr>)
     else (Inr \<lparr>hn = hn h, ht = allocs m\<rparr>, m\<lparr>allocs := Suc (allocs m), arrays := (arrays m)(allocs m \<mapsto> arr), hout := hout m @ copied\<rparr>))"
  using assms by (auto simp: Heavy_copy_def heavy_in_def heavy_ops)

lemma Heavy_dtor_run:
  "arrays m (ht h) \<noteq> None \<Longrightarrow> Heavy_dtor h m = (Inr (), m\<lparr>arrays := (arrays m)(ht h := None), hout := hout m @ destroyed\<rparr>)"
  by (simp add: Heavy_dtor_def heavy_ops)

lemma push_back_run:
  assumes "heavy_in m x arr" "fresh_above m"
  shows "let k = allocs m in push_back fails x tp m =
    (if fails k then (Inl Bad_alloc, m\<lparr>allocs := k + 1\<rparr>)
     else if fails (k + 1) then (Inl Bad_alloc, m\<lparr>allocs := k + 2\<rparr>)
     else if fails (k + 2) then (Inl Bad_alloc, m\<lparr>allocs := k + 3, hout := hout m @ copied @ destroyed\<rparr>)
     else (Inr (Some k), m\<lparr>allocs := k + 3, elems := (elems m)(k \<mapsto> (\<lparr>hn = hn x, ht = k + 2\<rparr>, tp)), arrays := (arrays m)(k + 2 \<mapsto> arr),
       hout := hout m @ copied @ copied @ destroyed\<rparr>))"
proof -
  let ?k = "allocs m"
  have in1: "heavy_in (m\<lparr>allocs := Suc ?k\<rparr>) x arr" using assms(1) by (simp add: heavy_in_def)
  have in2: "heavy_in (m\<lparr>allocs := Suc (Suc ?k), arrays := (arrays m)(Suc ?k \<mapsto> arr), hout := hout m @ copied\<rparr>) \<lparr>hn = hn x, ht = Suc ?k\<rparr> arr"
    using assms(1) by (simp add: heavy_in_def)
  have free: "arrays m (Suc ?k) = None" using assms(2) by (simp add: fresh_above_def)
  then have undo: "(arrays m)(Suc ?k := None) = arrays m" by (auto simp: fun_eq_iff)
  show ?thesis
    using free undo Heavy_copy_run [OF in1, of fails] Heavy_copy_run [OF in2, of fails]
    by (simp add: push_back_def new_elem_def elem_by_value_def allocS_def bindS_def cleanupS_def Let_def Heavy_dtor_run fun_upd_twist)
qed


lemma emplace_back_run:
  assumes "0 \<le> sz"
  shows "let k = allocs m in emplace_back fails sz tp m =
    (if fails k then (Inl Bad_alloc, m\<lparr>allocs := k + 1\<rparr>)
     else if fails (k + 1) then (Inl Bad_alloc, m\<lparr>allocs := k + 2\<rparr>)
     else (Inr (Some k), m\<lparr>allocs := k + 2, elems := (elems m)(k \<mapsto> (\<lparr>hn = sz, ht = k + 1\<rparr>, tp)),
       arrays := (arrays m)(k + 1 \<mapsto> replicate (nat sz) None), hout := hout m @ created\<rparr>))"
  using assms by (simp add: emplace_back_def new_elem_def allocS_def bindS_def Let_def Heavy_ctor_run)

text \<open>One new element with an array of its own is on the top.\<close>

definition pushed :: "hmem \<Rightarrow> nat option \<Rightarrow> hmem \<Rightarrow> nat option \<Rightarrow> int \<Rightarrow> int option list \<Rightarrow> bool" where
  "pushed m tp m' tp' sz arr \<longleftrightarrow> (\<exists>a b. tp' = Some a \<and> elems m a = None \<and> arrays m b = None \<and>
    elems m' = (elems m)(a \<mapsto> (\<lparr>hn = sz, ht = b\<rparr>, tp)) \<and> arrays m' = (arrays m)(b \<mapsto> arr))"

lemma pushedI:
  "elems m a = None \<Longrightarrow> arrays m b = None \<Longrightarrow> elems m' = (elems m)(a \<mapsto> (\<lparr>hn = sz, ht = b\<rparr>, tp)) \<Longrightarrow> arrays m' = (arrays m)(b \<mapsto> arr) \<Longrightarrow>
    pushed m tp m' (Some a) sz arr"
  by (auto simp: pushed_def)

text \<open>
  C29. Strong guarantee of the stack: whatever allocations fail, pushing a copy or constructing in place either throws and leaves the elements and
  the arrays as they were, or puts one element with an array of its own on the top; a pushed object has the size and the contents of the argument.
\<close>

theorem stack_strong_guarantee:
  assumes "fresh_above m" "heavy_in m x arr" "0 \<le> sz"
  shows "(case push_back fails x tp m of
      (Inl e, m') \<Rightarrow> e = Bad_alloc \<and> elems m' = elems m \<and> arrays m' = arrays m
    | (Inr tp', m') \<Rightarrow> pushed m tp m' tp' (hn x) arr) \<and>
    (case emplace_back fails sz tp m of
      (Inl e, m') \<Rightarrow> e = Bad_alloc \<and> elems m' = elems m \<and> arrays m' = arrays m
    | (Inr tp', m') \<Rightarrow> pushed m tp m' tp' sz (replicate (nat sz) None))"
proof -
  let ?k = "allocs m"
  have fresh: "elems m ?k = None" "arrays m (?k + 1) = None" "arrays m (?k + 2) = None" using assms(1) by (simp_all add: fresh_above_def)
  note run = push_back_run [OF assms(2,1), of fails tp, unfolded Let_def] emplace_back_run [OF assms(3), of m fails tp, unfolded Let_def]
  show ?thesis unfolding run using pushedI [OF fresh(1,3)] pushedI [OF fresh(1,2)] by simp
qed

theorem stack_strong_guarantee_witness:
  "case push_back (\<lambda>k. k = 3) \<lparr>hn = 1, ht = 0\<rparr> None \<lparr>arrays = [0 \<mapsto> [None]], elems = \<lambda>_. None, allocs = 1, hout = []\<rparr> of
      (Inl e, m') \<Rightarrow> e = Bad_alloc \<and> elems m' = (\<lambda>_. None) \<and> arrays m' = [0 \<mapsto> [None]]
    | (Inr tp', m') \<Rightarrow> False"
proof -
  let ?m = "\<lparr>arrays = [0 \<mapsto> [None]], elems = \<lambda>_. None, allocs = 1, hout = []\<rparr>"
  have m: "fresh_above ?m" "heavy_in ?m \<lparr>hn = 1, ht = 0\<rparr> [None]" by (auto simp: fresh_above_def heavy_in_def)
  have "fst (push_back (\<lambda>k. k = 3) \<lparr>hn = 1, ht = 0\<rparr> None ?m) = Inl Bad_alloc"
    by (simp add: push_back_def new_elem_def elem_by_value_def Heavy_copy_def Heavy_dtor_def heavy_ops)
  then show ?thesis using stack_strong_guarantee [OF m, of 0 None "\<lambda>k. k = 3"] by (auto split: prod.splits sum.splits)
qed

section \<open>The programs\<close>

fun stack_chain :: "hmem \<Rightarrow> nat option \<Rightarrow> (nat \<times> Heavy) list \<Rightarrow> bool" where
  "stack_chain m tp [] \<longleftrightarrow> tp = None"
| "stack_chain m tp ((a, h) # xs) \<longleftrightarrow> tp = Some a \<and> (\<exists>nxt. elems m a = Some (h, nxt) \<and> stack_chain m nxt xs)"

text \<open>The elements and the arrays are those of the stack, each once.\<close>

definition stack_inv :: "hmem \<Rightarrow> nat option \<Rightarrow> (nat \<times> Heavy) list \<Rightarrow> bool" where
  "stack_inv m tp xs \<longleftrightarrow> stack_chain m tp xs \<and> dom (elems m) = fst ` set xs \<and> dom (arrays m) = (\<lambda>x. ht (snd x)) ` set xs \<and>
    distinct (map fst xs) \<and> distinct (map (\<lambda>x. ht (snd x)) xs)"

lemma stack_chain_cong: "(\<And>a h. (a, h) \<in> set xs \<Longrightarrow> elems m' a = elems m a) \<Longrightarrow> stack_chain m' tp xs = stack_chain m tp xs"
  by (induction xs arbitrary: tp) fastforce+

lemma stack_inv_push:
  assumes "stack_inv m tp xs" "elems m a = None" "arrays m (ht h) = None" "elems m' = (elems m)(a \<mapsto> (h, tp))" "arrays m' = (arrays m)(ht h \<mapsto> arr)"
  shows "stack_inv m' (Some a) ((a, h) # xs)"
proof -
  have a: "a \<notin> fst ` set xs" "ht h \<notin> (\<lambda>x. ht (snd x)) ` set xs" using assms(1-3) by (auto simp: stack_inv_def domIff)
  then have "stack_chain m' tp xs = stack_chain m tp xs" using assms(4) by (intro stack_chain_cong) force
  then show ?thesis using assms a by (auto simp: stack_inv_def)
qed

lemma fresh_above_push:
  "fresh_above m \<Longrightarrow> allocs m' \<ge> allocs m \<Longrightarrow> a < allocs m' \<Longrightarrow> b < allocs m' \<Longrightarrow> elems m' = (elems m)(a \<mapsto> x) \<Longrightarrow> arrays m' = (arrays m)(b \<mapsto> y) \<Longrightarrow>
    fresh_above m'"
  by (auto simp: fresh_above_def)

lemma emplace_loop_run:
  assumes "\<forall>k. \<not> fails k" "0 \<le> sz" "stack_inv m tp xs" "fresh_above m"
  shows "\<exists>tp' m' ys. emplace_loop fails nxt sz n tp m = (Inr tp', m') \<and> stack_inv m' tp' (ys @ xs) \<and> length ys = n \<and>
    hout m' = hout m @ concat (replicate n (nxt @ created))"
  using assms(3,4)
proof (induction n arbitrary: m tp xs)
  case 0
  then show ?case by (intro exI [of _ tp] exI [of _ m] exI [of _ "[]"]) simp
next
  case (Suc n)
  let ?m = "m\<lparr>hout := hout m @ nxt\<rparr>" and ?k = "allocs m" and ?h = "\<lparr>hn = sz, ht = allocs m + 1\<rparr>"
  let ?m' = "?m\<lparr>allocs := ?k + 2, elems := (elems m)(?k \<mapsto> (?h, tp)), arrays := (arrays m)(?k + 1 \<mapsto> replicate (nat sz) None),
    hout := hout m @ nxt @ created\<rparr>"
  have run: "emplace_back fails sz tp ?m = (Inr (Some ?k), ?m')"
    using emplace_back_run [OF assms(2), of ?m fails tp] assms(1) by (simp add: Let_def)
  have "elems m ?k = None" "arrays m (ht ?h) = None" using Suc.prems(2) by (simp_all add: fresh_above_def)
  then have "stack_inv ?m' (Some ?k) ((?k, ?h) # xs)" by (intro stack_inv_push [OF Suc.prems(1)]) auto
  moreover have "fresh_above ?m'" by (rule fresh_above_push [OF Suc.prems(2)]) auto
  ultimately obtain tp' m' ys where "emplace_loop fails nxt sz n (Some ?k) ?m' = (Inr tp', m')" "stack_inv m' tp' (ys @ (?k, ?h) # xs)" "length ys = n"
    "hout m' = hout m @ nxt @ created @ concat (replicate n (nxt @ created))" using Suc.IH by fastforce
  then show ?case using run by (intro exI [of _ tp'] exI [of _ m'] exI [of _ "ys @ [(?k, ?h)]"]) (simp add: bindS_def sayS_def)
qed

lemma Stack_dtor_run:
  assumes "stack_inv m tp xs"
  shows "\<exists>m'. Stack_dtor tp m = Some (Inr (), m') \<and> elems m' = (\<lambda>_. None) \<and> arrays m' = (\<lambda>_. None) \<and>
    hout m' = hout m @ concat (replicate (length xs) destroyed)"
  using assms
proof (induction xs arbitrary: m tp)
  case Nil
  then show ?case by (subst Stack_dtor.simps) (auto simp: stack_inv_def)
next
  case (Cons x xs)
  obtain a h where x: "x = (a, h)" by (cases x)
  obtain nxt where tp: "tp = Some a" "elems m a = Some (h, nxt)" "stack_chain m nxt xs" using Cons.prems x by (auto simp: stack_inv_def)
  let ?m = "m\<lparr>arrays := (arrays m)(ht h := None), hout := hout m @ destroyed, elems := (elems m)(a := None)\<rparr>"
  have arr: "arrays m (ht h) \<noteq> None" using Cons.prems x by (auto simp: stack_inv_def)
  have a: "a \<notin> fst ` set xs" "ht h \<notin> (\<lambda>x. ht (snd x)) ` set xs" using Cons.prems x by (auto simp: stack_inv_def)
  then have "stack_chain ?m nxt xs = stack_chain m nxt xs" by (intro stack_chain_cong) force
  then have "stack_inv ?m nxt xs" using Cons.prems x tp a by (auto simp: stack_inv_def)
  from Cons.IH [OF this] show ?case using tp arr
    by (subst Stack_dtor.simps) (simp add: Heavy_dtor_run)
qed

lemma push_loop_run:
  assumes "\<forall>k. \<not> fails k" "0 \<le> sz" "stack_inv m tp xs" "fresh_above m"
  shows "\<exists>tp' m' ys. push_loop fails nxt sz n tp m = (Inr tp', m') \<and> stack_inv m' tp' (ys @ xs) \<and> length ys = n \<and>
    hout m' = hout m @ concat (replicate n (nxt @ created @ copied @ copied @ destroyed @ destroyed))"
  using assms(3,4)
proof (induction n arbitrary: m tp xs)
  case 0
  then show ?case by (intro exI [of _ tp] exI [of _ m] exI [of _ "[]"]) simp
next
  case (Suc n)
  let ?k = "allocs m" and ?arr = "replicate (nat sz) None"
  let ?t = "\<lparr>hn = sz, ht = ?k\<rparr>" and ?h = "\<lparr>hn = sz, ht = ?k + 3\<rparr>"
  let ?m1 = "m\<lparr>hout := hout m @ nxt @ created, allocs := Suc ?k, arrays := (arrays m)(?k \<mapsto> ?arr)\<rparr>"
  let ?m2 = "?m1\<lparr>allocs := ?k + 4, elems := (elems m)(?k + 1 \<mapsto> (?h, tp)), arrays := (arrays ?m1)(?k + 3 \<mapsto> ?arr),
    hout := hout m @ nxt @ created @ copied @ copied @ destroyed\<rparr>"
  let ?m' = "?m2\<lparr>arrays := (arrays m)(?k + 3 \<mapsto> ?arr), hout := hout m @ nxt @ created @ copied @ copied @ destroyed @ destroyed\<rparr>"
  have fresh: "arrays m ?k = None" "elems m (?k + 1) = None" "arrays m (?k + 3) = None" using Suc.prems(2) by (simp_all add: fresh_above_def)
  have "heavy_in ?m1 ?t ?arr" "fresh_above ?m1" using assms(2) Suc.prems(2) by (auto simp: heavy_in_def fresh_above_def)
  from push_back_run [OF this, of fails tp] have push: "push_back fails ?t tp ?m1 = (Inr (Some (?k + 1)), ?m2)"
    using assms(1) by (simp add: Let_def eval_nat_numeral)
  have "(arrays m)(?k := None) = arrays m" using fresh(1) by (auto simp: fun_eq_iff)
  then have dtor: "Heavy_dtor ?t ?m2 = (Inr (), ?m')" by (simp add: Heavy_dtor_run fun_upd_twist)
  have "Heavy_ctor fails sz (m\<lparr>hout := hout m @ nxt\<rparr>) = (Inr ?t, ?m1)" using assms(1,2) by (simp add: Heavy_ctor_run)
  then have run: "push_loop fails nxt sz (Suc n) tp m = push_loop fails nxt sz n (Some (?k + 1)) ?m'"
    using push dtor by (simp add: bindS_def sayS_def cleanupS_def)
  have "stack_inv ?m' (Some (?k + 1)) ((?k + 1, ?h) # xs)"
    by (rule stack_inv_push [OF Suc.prems(1) fresh(2)]) (use fresh(3) in auto)
  moreover have "fresh_above ?m'" by (rule fresh_above_push [OF Suc.prems(2)]) auto
  ultimately obtain tp' m' ys where "push_loop fails nxt sz n (Some (?k + 1)) ?m' = (Inr tp', m')" "stack_inv m' tp' (ys @ (?k + 1, ?h) # xs)" "length ys = n"
    "hout m' = hout ?m' @ concat (replicate n (nxt @ created @ copied @ copied @ destroyed @ destroyed))" using Suc.IH by blast
  then show ?case using run by (intro exI [of _ tp'] exI [of _ m'] exI [of _ "ys @ [(?k + 1, ?h)]"]) simp
qed

lemma stack_program_run:
  assumes "loop None empty_hmem = (Inr tp, m)" "stack_inv m tp xs"
  shows "\<exists>m'. stack_program loop fin empty_hmem = Some (Inr (), m') \<and> elems m' = (\<lambda>_. None) \<and> arrays m' = (\<lambda>_. None) \<and>
    hout m' = hout m @ fin @ concat (replicate (length xs) destroyed)"
proof -
  have "stack_chain (m\<lparr>hout := hout m @ fin\<rparr>) tp xs = stack_chain m tp xs" by (rule stack_chain_cong) simp
  then have "stack_inv (m\<lparr>hout := hout m @ fin\<rparr>) tp xs" using assms(2) by (simp add: stack_inv_def)
  from Stack_dtor_run [OF this] assms(1) show ?thesis by (simp add: stack_program_def bindS_def sayS_def)
qed

lemma empty_inv: "stack_inv empty_hmem None []" "fresh_above empty_hmem"
  by (simp_all add: stack_inv_def fresh_above_def empty_hmem_def)

text \<open>
  The programs with the stacks: when no allocation fails, both end with all elements and arrays freed, for every
  number of rounds and every size. Every object that is pushed is copied twice and destroyed twice on the way; one that is constructed in place is
  neither copied nor moved.
\<close>

theorem stack_programs:
  assumes "\<forall>k. \<not> fails k" "0 \<le> sz"
  shows "(\<exists>m. stack_program (push_loop fails nxt sz n) fin empty_hmem = Some (Inr (), m) \<and> elems m = (\<lambda>_. None) \<and> arrays m = (\<lambda>_. None) \<and>
      hout m = concat (replicate n (nxt @ created @ copied @ copied @ destroyed @ destroyed)) @ fin @ concat (replicate n destroyed)) \<and>
    (\<exists>m. stack_program (emplace_loop fails nxt sz n) fin empty_hmem = Some (Inr (), m) \<and> elems m = (\<lambda>_. None) \<and> arrays m = (\<lambda>_. None) \<and>
      hout m = concat (replicate n (nxt @ created)) @ fin @ concat (replicate n destroyed))"
proof -
  have "hout empty_hmem = []" by (simp add: empty_hmem_def)
  moreover obtain tp m ys where "push_loop fails nxt sz n None empty_hmem = (Inr tp, m)" "stack_inv m tp ys" "length ys = n"
    "hout m = hout empty_hmem @ concat (replicate n (nxt @ created @ copied @ copied @ destroyed @ destroyed))"
    using push_loop_run [OF assms empty_inv, of nxt n] by auto
  moreover obtain tp' m' ys' where "emplace_loop fails nxt sz n None empty_hmem = (Inr tp', m')" "stack_inv m' tp' ys'" "length ys' = n"
    "hout m' = hout empty_hmem @ concat (replicate n (nxt @ created))"
    using emplace_loop_run [OF assms empty_inv, of nxt n] by auto
  ultimately show ?thesis using stack_program_run [of "push_loop fails nxt sz n" tp m ys fin] stack_program_run [of "emplace_loop fails nxt sz n" tp' m' ys' fin]
    by simp
qed

theorem stack_programs_witness:
  "(\<exists>m. eff_main (\<lambda>_. False) empty_hmem = Some (Inr (), m) \<and> arrays m = (\<lambda>_. None)) \<and>
   (\<exists>m. ineff_main (\<lambda>_. False) empty_hmem = Some (Inr (), m) \<and> arrays m = (\<lambda>_. None))"
proof -
  have run: "\<forall>k. \<not> (\<lambda>_. False) (k :: nat)" "(0 :: int) \<le> 100" by simp_all
  show ?thesis unfolding eff_main_def ineff_main_def using stack_programs [OF run] by metis
qed

end
