(* ===== verification/Spec2Isabelle.thy ===== *)
theory Spec2Isabelle
  imports Permloops_Ce Lru Vector_Iters MyVec_Archive Pcl_Archive_Codegen Pcl_Front_Props Matrix_Repro Hist Lru_C_Main Lru_C_Ds_Main Lru_C_Naive_Props Prim_Props Lingeo_Props Vector_Add Sbt_Props Zip_Range
    Pcl_Archive_Front_Props Constexpr_Props Range_Props Drawing_Props Grammar_Props Grammar_Arith Ownership_Props
begin

text \<open>
  Verification of the programs of the \<^verbatim>\<open>cpp-graduate\<close> course repository.

  The repository is a collection of programs, one directory for a lecture. They share no library, but several of them
  are versions of one another, and the theorems relate those: four LRU caches, eight vectors, two ParaCL compilers and
  interpreters, run-time and compile-time permutations. Every theory models the programs named below from their
  sources; there is one definition for every function, method or program, named as in the source where
  Isabelle allows it.

  \<^bold>\<open>Conventions.\<close> Theory \<^verbatim>\<open>Prelude\<close> has the errors a function may end with (a failed assertion, undefined
  behaviour, an exception, a call of \<^verbatim>\<open>exit\<close>) and the result type: \<^verbatim>\<open>Inl\<close> is an error, \<^verbatim>\<open>Inr\<close> a value. An
  access outside an array, an overflow of a signed type, a null or dangling pointer are undefined behaviour, and a
  theorem that a program succeeds says that they do not happen. What a program prints is part of its result, as is
  what it left unread of its input (\<^verbatim>\<open>Input\<close>: numbers as the streams of C++ read them; \<^verbatim>\<open>C_Common\<close>: as the C programs do).
  Standard output is taken to accept what is written. Machine integers are mathematical integers with their range
  checked or written out, and words where bits matter. Nested counting loops and the checked operations of \<^verbatim>\<open>int\<close> are in \<^verbatim>\<open>Loops\<close>.

  \<^bold>\<open>Permutations\<close> (\<^verbatim>\<open>17-algorithms/permutations\<close>, \<^verbatim>\<open>18-constexpr/permutations\<close>, \<^verbatim>\<open>16-containers/orbit.cc\<close>).
  \<^verbatim>\<open>Idomain\<close> is an integral domain whose last element is below the largest value of its type, \<^verbatim>\<open>Permloops\<close> the class of a cycle with its checks, \<^verbatim>\<open>Perms\<close> permutations as lists of cycles,
  \<^verbatim>\<open>Groups_Orbit\<close> the orbits, \<^verbatim>\<open>Perm_Tests\<close> the demonstration program and \<^verbatim>\<open>Permloops_Ce\<close> the version for constant
  expressions. The state of an object is the list of its elements; the class invariant is preserved by every operation,
  constructors end in a canonical form, equality decides equality of functions, permutations are a group (locale
  \<^verbatim>\<open>faithful_action\<close>, interpreted on them), and an orbit is the set of reachable elements whatever the order in which a hash
  container is visited (locales \<^verbatim>\<open>finite_action\<close>, \<^verbatim>\<open>finite_faithful_action\<close>).

  \<^bold>\<open>LRU caches\<close> (\<^verbatim>\<open>01-basics\<close>). \<^verbatim>\<open>Lru\<close> is the cache in C++. \<^verbatim>\<open>Lru_C\<close>, \<^verbatim>\<open>Lru_C_Props\<close>, \<^verbatim>\<open>Lru_C_Cache\<close>, \<^verbatim>\<open>Lru_C_Main\<close> are the cache in C with a list and a
  hash map on a heap in which every allocation may fail; \<^verbatim>\<open>Lru_C_Ds\<close> and its theories the one with intrusive
  structures; \<^verbatim>\<open>Lru_C_Naive\<close> and its theory the one in a single function. \<^verbatim>\<open>Linked\<close> has rings and bucket chains once for
  all of them (locale \<^verbatim>\<open>links\<close>, interpreted on the three memories), and the locale \<^verbatim>\<open>lru_cache\<close> is the
  contract, a stack of keys ordered by use: it is interpreted on the four caches, and from it follow the number of hits, the
  equality of what the four programs print and that a larger capacity never has fewer hits. For the C programs no block is
  leaked and none is used after its release, on every input and for every behaviour of \<^verbatim>\<open>malloc\<close>.

  \<^bold>\<open>Vectors\<close> (\<^verbatim>\<open>08-exceptions/myvec-demo\<close>, \<^verbatim>\<open>14-iterators/wrongit.cc\<close>, \<^verbatim>\<open>archive/09-exceptions\<close>). \<^verbatim>\<open>Controllable\<close> has the memory, blocks of
  cells with constructed and raw cells, and the element class whose copies throw. \<^verbatim>\<open>MyVec\<close>, \<^verbatim>\<open>Vector_Iters\<close> and
  \<^verbatim>\<open>MyVec_Archive\<close> are the vectors, \<^verbatim>\<open>MyVec_Safety\<close> and \<^verbatim>\<open>MyVec_Props\<close> their guarantees: the locales \<^verbatim>\<open>safe_stack\<close> and
  \<^verbatim>\<open>safe_vector\<close> state the strong guarantee and the absence of leaks, and the stages that have them are interpretations. The
  nesting of the calls of \<^verbatim>\<open>push\<close> on its own temporary is bounded by 2, which is enough: the temporary has room, so that its
  own \<^verbatim>\<open>push\<close> never grows.

  \<^bold>\<open>ParaCL\<close> (\<^verbatim>\<open>15-llvm\<close>, \<^verbatim>\<open>archive/13-llvm\<close>). \<^verbatim>\<open>Pcl\<close> is the tree with its symbol table and evaluation, \<^verbatim>\<open>Pcl_Props\<close> its
  properties, \<^verbatim>\<open>Pcl_Archive\<close> the first version. \<^verbatim>\<open>Pcl_Codegen\<close> is the code generation as the list of the calls of the LLVM
  builder, with the run-time library; the locale \<^verbatim>\<open>llvm_function\<close> states what the language reference says of the
  instructions, and it is interpreted on an executable instance. \<^verbatim>\<open>Pcl_Codegen_Props\<close> and \<^verbatim>\<open>Pcl_Compiler\<close> prove that the generated
  code simulates the interpreter and show programs where it does not. \<^verbatim>\<open>Pcl_Front\<close> has the actions of
  the grammar and the drivers, \<^verbatim>\<open>Pcl_Front_Props\<close> the way from a program to its behaviour, \<^verbatim>\<open>Pcl_Archive_Codegen\<close> the first code
  generation, \<^verbatim>\<open>Pcl_Archive_Front\<close> and its theory the first front end and drivers: both versions build the same trees, print the same, and
  free every declaration of a tree exactly once. Evaluation has fuel, since a loop may run forever: more fuel never changes a result, and theorems about a
  result give the fuel or say that all large fuel gives it.

  \<^bold>\<open>Offloading\<close> (\<^verbatim>\<open>11-compute\<close>, \<^verbatim>\<open>archive/07-compute\<close>) and matrices (\<^verbatim>\<open>14-iterators/matrix_repro.cc\<close>). \<^verbatim>\<open>Gemm\<close>, \<^verbatim>\<open>Hist\<close> and \<^verbatim>\<open>Vector_Add\<close> model the hosts and the
  kernels; the OpenCL library is a parameter whose documented behaviour is a hypothesis, discharged in the witnesses
  by a host that runs the kernel for every work item; a kernel is promised to run only when the local sizes divide the global ones.
  The device is taken to compute with elements as the host does; \<^verbatim>\<open>Gemm\<close> leaves the type of the elements and its \<^verbatim>\<open>!=\<close> open, since
  it is \<^verbatim>\<open>float\<close>, and the counters of \<^verbatim>\<open>Hist\<close> are words of 32 bits. The number of data in \<^verbatim>\<open>Hist\<close> is taken to fit
  \<^verbatim>\<open>int\<close>. \<^verbatim>\<open>Matrix_Repro\<close> is the comparison of multiplications by pointers and by
  iterators on matrices of \<^verbatim>\<open>int\<close>; sizes, products and sums that overflow are undefined behaviour there, and in bounds an index does not
  overflow.

  \<^bold>\<open>Other programs.\<close> \<^verbatim>\<open>Prim\<close> and \<^verbatim>\<open>Prim_Props\<close>: the spanning tree search of \<^verbatim>\<open>16-containers/prim.cc\<close>. \<^verbatim>\<open>Lingeo\<close> and \<^verbatim>\<open>Lingeo_Props\<close>: polygons of
  \<^verbatim>\<open>02-lrefs/triangles\<close>, for every arithmetic of floating-point numbers, which is a parameter; a cut has, up to the tolerance, exactly the
  vertices that are kept and the crossings. \<^verbatim>\<open>Sbt\<close> and \<^verbatim>\<open>Sbt_Props\<close>:
  continued fractions and the Stern-Brocot tree of \<^verbatim>\<open>archive/older/09-containers\<close>. \<^verbatim>\<open>Zip_Range\<close>: the range of pairs of
  \<^verbatim>\<open>14-iterators/ziprange.hpp\<close>.

  \<^bold>\<open>Small programs.\<close> \<^verbatim>\<open>Constexpr_Fns\<close> and \<^verbatim>\<open>Constexpr_Props\<close> (\<^verbatim>\<open>18-constexpr\<close>, \<^verbatim>\<open>archive/14-constexpr\<close>): templates that compute square
  roots, primes, factorials and Fibonacci numbers, the static logarithm and binary literals; the depth of instantiation is a
  parameter, and the theorems say for which arguments a depth is enough. \<^verbatim>\<open>Fib_Numbers\<close> has the Fibonacci numbers they share with ParaCL and the iterator.
  \<^verbatim>\<open>Range_Algs\<close> and \<^verbatim>\<open>Range_Props\<close>: moving blocks, trimming, range queries, the Fibonacci iterator, the work of a benchmark and conditional transformations; the function \<^verbatim>\<open>mydistance\<close> that the queries
  call is nowhere in the repository, so that it is a parameter
  (\<^verbatim>\<open>17-algorithms\<close>, \<^verbatim>\<open>16-containers/sview.cc\<close>, \<^verbatim>\<open>03-concrete/setsol.cc\<close>, \<^verbatim>\<open>14-iterators/fibit.cc\<close>, \<^verbatim>\<open>archive/15-algs\<close>). \<^verbatim>\<open>Drawing\<close> and \<^verbatim>\<open>Drawing_Props\<close>: the
  figures, screens and documents of \<^verbatim>\<open>09-solid\<close>; a document from which nothing was moved is drawn, and the drawing determines it. \<^verbatim>\<open>Grammar\<close>, \<^verbatim>\<open>Grammar_Props\<close> and \<^verbatim>\<open>Grammar_Arith\<close>: the grammars of
  \<^verbatim>\<open>07-parsers\<close> with their scanners and actions; the locale \<^verbatim>\<open>expression_grammar\<close> is what a list of comparisons needs of its
  expressions, and two grammars are interpretations of it. \<^verbatim>\<open>Ownership\<close> and \<^verbatim>\<open>Ownership_Props\<close>: the scoped pointers of \<^verbatim>\<open>04-raii\<close> and the stacks of
  \<^verbatim>\<open>13-sfinae\<close> and \<^verbatim>\<open>archive/older/emplace\<close> on a heap in which every allocation may fail.

  \<^bold>\<open>Not modelled.\<close> The scanner and parser of ParaCL and the parsers of \<^verbatim>\<open>07-parsers\<close> are generated from their descriptions, so the derivation of a
  program is the input of the model. The graphics programs (\<^verbatim>\<open>10-3d\<close>, and \<^verbatim>\<open>movelight\<close>, \<^verbatim>\<open>lightsample\<close> and \<^verbatim>\<open>cube\<close> in
  \<^verbatim>\<open>archive/07-compute\<close>) are sequences of calls into OpenGL, Vulkan and GLFW, whose effect is outside of any model here, and so
  are the listings of OpenCL platforms. Benchmarks measure time. The demonstrations of language rules
  (inheritance, casts, overloading, SFINAE, concepts) have their content in what
  compiles and which overload is chosen, not in what a function computes. Most of \<^verbatim>\<open>archive\<close> repeats programs of the newer lectures. Unit
  tests and build files are not modelled either. Addresses are never reused by the models of the heap, time and
  the text of diagnostics are left out, and floating-point numbers appear only as parameters.
\<close>

end
